(* ===== verification/Prelude.thy ===== *)
theory Prelude
  imports Main "HOL-Library.Word"
begin

text \<open>
  Shared vocabulary of the development: the machine integers of the Rust sources as words, a
  Rust \<open>Result\<close> as a sum, a Rust \<open>String\<close> as the \<open>string\<close> of its UTF-8 bytes (one \<open>char\<close> per
  byte, so that \<open>length\<close> is Rust's \<open>len()\<close>), the big-endian conversions of the wire formats,
  \<open>str::from_utf8\<close>, and the list lemmas the components share.
\<close>

unbundle bit_operations_syntax

section \<open>Types\<close>

type_synonym byte = "8 word"
type_synonym u16 = "16 word"
type_synonym u32 = "32 word"
type_synonym u64 = "64 word"

type_synonym ('e, 'a) result = "'e + 'a"

abbreviation Ok :: "'a \<Rightarrow> ('e, 'a) result" where
  "Ok \<equiv> Inr"

abbreviation Err :: "'e \<Rightarrow> ('e, 'a) result" where
  "Err \<equiv> Inl"

named_theorems be_simps \<open>big-endian conversions\<close>
named_theorems str_simps \<open>strings and their UTF-8 bytes\<close>

section \<open>Saturating arithmetic\<close>

text \<open>\<open>u64::saturating_add\<close> and \<open>u64::saturating_mul\<close>.\<close>

definition saturating_add :: "u64 \<Rightarrow> u64 \<Rightarrow> u64" where
  "saturating_add a b = (if unat a + unat b < 2 ^ 64 then a + b else - 1)"

definition saturating_mul :: "u64 \<Rightarrow> u64 \<Rightarrow> u64" where
  "saturating_mul a b = (if unat a * unat b < 2 ^ 64 then a * b else - 1)"

lemma unat_max_u64 [simp]: "unat (- 1 :: u64) = 18446744073709551615"
  by (simp add: unsigned_minus_1_eq_mask mask_eq_exp_minus_1)

lemma unat_saturating_add: "unat (saturating_add a b) = min (unat a + unat b) (2 ^ 64 - 1)"
  by (auto simp: saturating_add_def unat_word_ariths)

lemma unat_saturating_mul: "unat (saturating_mul a b) = min (unat a * unat b) (2 ^ 64 - 1)"
  by (auto simp: saturating_mul_def unat_word_ariths)

section \<open>Big-endian conversions\<close>

definition u16_to_be_bytes :: "u16 \<Rightarrow> byte list" where
  "u16_to_be_bytes w = [ucast (drop_bit 8 w), ucast w]"

definition u16_from_be_bytes :: "byte \<Rightarrow> byte \<Rightarrow> u16" where
  "u16_from_be_bytes a b = push_bit 8 (ucast a) OR ucast b"

definition u32_to_be_bytes :: "u32 \<Rightarrow> byte list" where
  "u32_to_be_bytes w = [ucast (drop_bit 24 w), ucast (drop_bit 16 w), ucast (drop_bit 8 w), ucast w]"

definition u32_from_be_bytes :: "byte \<Rightarrow> byte \<Rightarrow> byte \<Rightarrow> byte \<Rightarrow> u32" where
  "u32_from_be_bytes a b c d =
     push_bit 24 (ucast a) OR push_bit 16 (ucast b) OR push_bit 8 (ucast c) OR ucast d"

lemma length_u16_to_be_bytes [simp]: "length (u16_to_be_bytes w) = 2"
  by (simp add: u16_to_be_bytes_def)

lemma length_u32_to_be_bytes [simp]: "length (u32_to_be_bytes w) = 4"
  by (simp add: u32_to_be_bytes_def)

lemma u16_from_to_be_bytes [be_simps]:
  "u16_from_be_bytes (ucast (drop_bit 8 w)) (ucast w) = w"
  unfolding u16_from_be_bytes_def
  by (rule bit_word_eqI) (auto simp: bit_simps)

lemma u32_from_to_be_bytes [be_simps]:
  "u32_from_be_bytes (ucast (drop_bit 24 w)) (ucast (drop_bit 16 w)) (ucast (drop_bit 8 w)) (ucast w) = w"
proof (rule bit_word_eqI)
  fix n
  assume "n < LENGTH(32)"
  then consider "n < 8" | "8 \<le> n" "n < 16" | "16 \<le> n" "n < 24" | "24 \<le> n" "n < 32"
    by fastforce
  then show "bit (u32_from_be_bytes (ucast (drop_bit 24 w)) (ucast (drop_bit 16 w))
      (ucast (drop_bit 8 w)) (ucast w)) n = bit w n"
    by cases (auto simp: u32_from_be_bytes_def bit_simps)
qed

lemma bit_byte_beyond: "8 \<le> n \<Longrightarrow> \<not> bit (b :: byte) n"
  by (auto dest: bit_imp_le_length)

lemma u16_to_from_be_bytes [be_simps]: "u16_to_be_bytes (u16_from_be_bytes a b) = [a, b]"
  unfolding u16_to_be_bytes_def u16_from_be_bytes_def
  by (auto intro!: bit_word_eqI simp: bit_simps bit_byte_beyond)

lemma u32_to_from_be_bytes [be_simps]: "u32_to_be_bytes (u32_from_be_bytes a b c d) = [a, b, c, d]"
  unfolding u32_to_be_bytes_def u32_from_be_bytes_def
  by (auto intro!: bit_word_eqI simp: bit_simps bit_byte_beyond)

lemma unat_word_of_nat_u16: "n < 2 ^ 16 \<Longrightarrow> unat (word_of_nat n :: u16) = n"
  by (simp add: unat_of_nat)

lemma unat_word_of_nat_u32: "n < 2 ^ 32 \<Longrightarrow> unat (word_of_nat n :: u32) = n"
  by (simp add: unat_of_nat)

lemma unat_u16_bound: "unat (w :: u16) < 65536"
  using unsigned_less [of w] by simp

section \<open>Strings as UTF-8 bytes\<close>

definition byte_of_char :: "char \<Rightarrow> byte" where
  "byte_of_char c = of_char c"

definition char_of_byte :: "byte \<Rightarrow> char" where
  "char_of_byte b = char_of (unat b)"

text \<open>\<open>str::as_bytes\<close>.\<close>

definition as_bytes :: "string \<Rightarrow> byte list" where
  "as_bytes s = map byte_of_char s"

lemma unat_byte_of_char: "unat (byte_of_char c) = of_char c"
proof -
  have "byte_of_char c = word_of_nat (of_char c)"
    by (simp add: byte_of_char_def of_nat_of_char)
  then have "unat (byte_of_char c) = (of_char c :: nat) mod 2 ^ 8"
    by (simp add: unat_of_nat)
  then show ?thesis by simp
qed

lemma char_of_byte_of_char [simp]: "char_of_byte (byte_of_char c) = c"
  by (simp add: char_of_byte_def unat_byte_of_char)

lemma byte_of_char_of_byte [simp]: "byte_of_char (char_of_byte b) = b"
proof -
  have "unat b < 2 ^ 8"
    using unsigned_less [of b] by simp
  then have "unat (byte_of_char (char_of_byte b)) = unat b"
    by (simp add: unat_byte_of_char) (simp add: char_of_byte_def)
  then show ?thesis by (simp add: unsigned_word_eqI)
qed

lemma length_as_bytes [simp]: "length (as_bytes s) = length s"
  by (simp add: as_bytes_def)

lemma map_char_of_as_bytes [simp]: "map char_of_byte (as_bytes s) = s"
  by (simp add: as_bytes_def comp_def)

lemma as_bytes_map_char_of [simp]: "as_bytes (map char_of_byte bs) = bs"
  by (simp add: as_bytes_def comp_def)

lemma as_bytes_inj: "as_bytes s = as_bytes t \<longleftrightarrow> s = t"
  by (metis map_char_of_as_bytes)

text \<open>
  Well-formed UTF-8, as \<open>core::str::from_utf8\<close> accepts it: no overlong form, no surrogate, nothing
  above U+10FFFF.
\<close>

definition utf8_cont :: "byte \<Rightarrow> bool" where
  "utf8_cont b \<longleftrightarrow> 0x80 \<le> b \<and> b \<le> 0xBF"

fun utf8_valid :: "byte list \<Rightarrow> bool" where
  "utf8_valid [] = True"
| "utf8_valid (a # bs) =
     (if a < 0x80 then utf8_valid bs
      else if 0xC2 \<le> a \<and> a \<le> 0xDF then
        (case bs of b # r \<Rightarrow> utf8_cont b \<and> utf8_valid r | _ \<Rightarrow> False)
      else if 0xE0 \<le> a \<and> a \<le> 0xEF then
        (case bs of b # c # r \<Rightarrow>
             utf8_cont b \<and> utf8_cont c \<and> (a = 0xE0 \<longrightarrow> 0xA0 \<le> b) \<and> (a = 0xED \<longrightarrow> b \<le> 0x9F)
             \<and> utf8_valid r
         | _ \<Rightarrow> False)
      else if 0xF0 \<le> a \<and> a \<le> 0xF4 then
        (case bs of b # c # d # r \<Rightarrow>
             utf8_cont b \<and> utf8_cont c \<and> utf8_cont d
             \<and> (a = 0xF0 \<longrightarrow> 0x90 \<le> b) \<and> (a = 0xF4 \<longrightarrow> b \<le> 0x8F) \<and> utf8_valid r
         | _ \<Rightarrow> False)
      else False)"

declare utf8_valid.simps(2) [simp del]

text \<open>The four lengths of a character, by its first byte.\<close>

lemma utf8_classes:
  assumes "utf8_valid (a # r)"
  obtains (one) "a < 0x80"
  | (two) "\<not> a < 0x80" "0xC2 \<le> a" "a \<le> 0xDF"
  | (three) "\<not> a < 0x80" "\<not> a \<le> 0xDF" "0xE0 \<le> a" "a \<le> 0xEF"
  | (four) "\<not> a < 0x80" "\<not> a \<le> 0xDF" "\<not> a \<le> 0xEF" "0xF0 \<le> a" "a \<le> 0xF4"
proof -
  have "a < 0x80 \<or> (0xC2 \<le> a \<and> a \<le> 0xDF) \<or> (0xE0 \<le> a \<and> a \<le> 0xEF) \<or> (0xF0 \<le> a \<and> a \<le> 0xF4)"
    using assms by (subst (asm) utf8_valid.simps) (simp split: if_splits)
  moreover have "0xE0 \<le> a \<Longrightarrow> \<not> a \<le> 0xDF" "0xF0 \<le> a \<Longrightarrow> \<not> a \<le> 0xDF" "0xF0 \<le> a \<Longrightarrow> \<not> a \<le> 0xEF"
    by unat_arith+
  ultimately show ?thesis using one two three four by blast
qed

lemma utf8_one: "a < 0x80 \<Longrightarrow> utf8_valid (a # r) = utf8_valid r"
  by (subst utf8_valid.simps) simp

lemma utf8_two:
  "\<not> a < 0x80 \<Longrightarrow> 0xC2 \<le> a \<Longrightarrow> a \<le> 0xDF \<Longrightarrow>
     utf8_valid (a # r) = (\<exists>b r'. r = b # r' \<and> utf8_cont b \<and> utf8_valid r')"
  by (subst utf8_valid.simps) (simp split: list.splits)

lemma utf8_three:
  "\<not> a < 0x80 \<Longrightarrow> \<not> a \<le> 0xDF \<Longrightarrow> 0xE0 \<le> a \<Longrightarrow> a \<le> 0xEF \<Longrightarrow>
     utf8_valid (a # r) = (\<exists>b c r'. r = b # c # r' \<and> utf8_cont b \<and> utf8_cont c \<and>
       (a = 0xE0 \<longrightarrow> 0xA0 \<le> b) \<and> (a = 0xED \<longrightarrow> b \<le> 0x9F) \<and> utf8_valid r')"
  by (subst utf8_valid.simps) (simp split: list.splits)

lemma utf8_four:
  "\<not> a < 0x80 \<Longrightarrow> \<not> a \<le> 0xDF \<Longrightarrow> \<not> a \<le> 0xEF \<Longrightarrow> 0xF0 \<le> a \<Longrightarrow> a \<le> 0xF4 \<Longrightarrow>
     utf8_valid (a # r) = (\<exists>b c d r'. r = b # c # d # r' \<and> utf8_cont b \<and> utf8_cont c \<and> utf8_cont d \<and>
       (a = 0xF0 \<longrightarrow> 0x90 \<le> b) \<and> (a = 0xF4 \<longrightarrow> b \<le> 0x8F) \<and> utf8_valid r')"
  by (subst utf8_valid.simps) (simp split: list.splits)

text \<open>A value of the model's \<open>string\<close> type is a Rust \<open>String\<close> when its bytes are UTF-8.\<close>

definition is_str :: "string \<Rightarrow> bool" where
  "is_str s \<longleftrightarrow> utf8_valid (as_bytes s)"

definition from_utf8 :: "byte list \<Rightarrow> string option" where
  "from_utf8 bs = (if utf8_valid bs then Some (map char_of_byte bs) else None)"

lemma from_utf8_as_bytes [str_simps]: "is_str s \<Longrightarrow> from_utf8 (as_bytes s) = Some s"
  by (simp add: from_utf8_def is_str_def)

lemma from_utf8_SomeD: "from_utf8 bs = Some s \<Longrightarrow> as_bytes s = bs \<and> is_str s"
  by (auto simp: from_utf8_def is_str_def split: if_splits)

lemma utf8_valid_ascii: "\<forall>b \<in> set bs. b < 0x80 \<Longrightarrow> utf8_valid bs"
  by (induction bs) (auto simp: utf8_one)

text \<open>
  \<open>String::from_utf8_lossy\<close>: each maximal ill-formed subpart becomes U+FFFD. One step classifies the front
  of the bytes: a whole character, or the length of the ill-formed part.
\<close>

definition utf8_second :: "byte \<Rightarrow> byte \<Rightarrow> bool" where
  "utf8_second a b \<longleftrightarrow> utf8_cont b \<and> (a = 0xE0 \<longrightarrow> 0xA0 \<le> b) \<and> (a = 0xED \<longrightarrow> b \<le> 0x9F) \<and>
     (a = 0xF0 \<longrightarrow> 0x90 \<le> b) \<and> (a = 0xF4 \<longrightarrow> b \<le> 0x8F)"

definition utf8_step :: "byte list \<Rightarrow> bool \<times> nat" where
  "utf8_step bs =
     (let at = (\<lambda>i p. i < length bs \<and> p (bs ! i)); a = bs ! 0
      in if a < 0x80 then (True, 1)
         else if 0xC2 \<le> a \<and> a \<le> 0xDF then (if at 1 utf8_cont then (True, 2) else (False, 1))
         else if 0xE0 \<le> a \<and> a \<le> 0xEF then
           (if \<not> at 1 (utf8_second a) then (False, 1)
            else if \<not> at 2 utf8_cont then (False, 2) else (True, 3))
         else if 0xF0 \<le> a \<and> a \<le> 0xF4 then
           (if \<not> at 1 (utf8_second a) then (False, 1)
            else if \<not> at 2 utf8_cont then (False, 2)
            else if \<not> at 3 utf8_cont then (False, 3) else (True, 4))
         else (False, 1))"

lemma utf8_step_len: "0 < snd (utf8_step bs)"
  by (simp add: utf8_step_def Let_def)

function utf8_lossy :: "byte list \<Rightarrow> byte list" where
  "utf8_lossy bs =
     (if bs = [] then []
      else
        (let (ok, n) = utf8_step bs
         in (if ok then take n bs else [0xEF, 0xBF, 0xBD]) @ utf8_lossy (drop n bs)))"
  by pat_completeness auto
termination
proof (relation "measure length")
  fix bs :: "byte list" and x ok n
  assume "bs \<noteq> []" "x = utf8_step bs" "(ok, n) = x"
  then have "0 < n" using utf8_step_len [of bs] by (metis snd_conv)
  with \<open>bs \<noteq> []\<close> show "(drop n bs, bs) \<in> measure length" by simp
qed simp

declare utf8_lossy.simps [simp del]

definition from_utf8_lossy :: "byte list \<Rightarrow> string" where
  "from_utf8_lossy bs = map char_of_byte (utf8_lossy bs)"

lemma utf8_step_valid:
  assumes "utf8_valid (a # r)"
  shows "\<exists>n. utf8_step (a # r) = (True, n) \<and> utf8_valid (drop n (a # r))"
  using assms
proof (cases rule: utf8_classes)
  case one
  with assms show ?thesis by (simp add: utf8_step_def utf8_one)
next
  case two
  with assms obtain b r' where "r = b # r'" "utf8_cont b" "utf8_valid r'" by (auto simp: utf8_two)
  with two show ?thesis by (simp add: utf8_step_def)
next
  case three
  with assms obtain b c r' where "r = b # c # r'" "utf8_cont b" "utf8_cont c" "utf8_valid r'"
    "a = 0xE0 \<longrightarrow> 0xA0 \<le> b" "a = 0xED \<longrightarrow> b \<le> 0x9F"
    by (auto simp: utf8_three)
  moreover have "a \<noteq> 0xF0 \<and> a \<noteq> 0xF4" using three by auto
  ultimately show ?thesis using three by (simp add: utf8_step_def utf8_second_def)
next
  case four
  with assms obtain b c d r' where "r = b # c # d # r'" "utf8_cont b" "utf8_cont c" "utf8_cont d"
    "utf8_valid r'" "a = 0xF0 \<longrightarrow> 0x90 \<le> b" "a = 0xF4 \<longrightarrow> b \<le> 0x8F"
    by (auto simp: utf8_four)
  moreover have "a \<noteq> 0xE0 \<and> a \<noteq> 0xED" using four by auto
  ultimately show ?thesis using four by (simp add: utf8_step_def utf8_second_def)
qed

lemma utf8_lossy_valid: "utf8_valid bs \<Longrightarrow> utf8_lossy bs = bs"
proof (induction bs rule: utf8_lossy.induct)
  case (1 bs)
  show ?case
  proof (cases bs)
    case (Cons a r)
    with 1 obtain n where "utf8_step bs = (True, n)" "utf8_valid (drop n bs)"
      using utf8_step_valid by blast
    with 1 Cons show ?thesis by (subst utf8_lossy.simps) simp
  qed (simp add: utf8_lossy.simps)
qed

lemma from_utf8_lossy_as_bytes [str_simps]: "is_str s \<Longrightarrow> from_utf8_lossy (as_bytes s) = s"
  by (simp add: from_utf8_lossy_def is_str_def utf8_lossy_valid)

lemma utf8_first_char:
  assumes "utf8_valid (a # r)"
  obtains ch rest where "a # r = ch @ rest" "ch \<noteq> []" "utf8_valid rest"
    "\<forall>j. 0 < j \<and> j < length ch \<longrightarrow> utf8_cont (ch ! j)" "\<And>xs. utf8_valid xs \<Longrightarrow> utf8_valid (ch @ xs)"
  using assms
proof (cases rule: utf8_classes)
  case one
  with assms show ?thesis by (intro that [of "[a]" r]) (auto simp: utf8_one)
next
  case two
  with assms obtain b r' where "r = b # r'" "utf8_cont b" "utf8_valid r'" by (auto simp: utf8_two)
  with two show ?thesis by (intro that [of "[a, b]" r']) (auto simp: utf8_two less_Suc_eq)
next
  case three
  with assms obtain b c r' where "r = b # c # r'" "utf8_cont b" "utf8_cont c" "utf8_valid r'"
    "a = 0xE0 \<longrightarrow> 0xA0 \<le> b" "a = 0xED \<longrightarrow> b \<le> 0x9F"
    by (auto simp: utf8_three)
  with three show ?thesis by (intro that [of "[a, b, c]" r']) (auto simp: utf8_three less_Suc_eq)
next
  case four
  with assms obtain b c d r' where "r = b # c # d # r'" "utf8_cont b" "utf8_cont c" "utf8_cont d"
    "utf8_valid r'" "a = 0xF0 \<longrightarrow> 0x90 \<le> b" "a = 0xF4 \<longrightarrow> b \<le> 0x8F"
    by (auto simp: utf8_four)
  with four show ?thesis by (intro that [of "[a, b, c, d]" r']) (auto simp: utf8_four less_Suc_eq)
qed

lemma utf8_valid_append: "utf8_valid xs \<Longrightarrow> utf8_valid ys \<Longrightarrow> utf8_valid (xs @ ys)"
proof (induction "length xs" arbitrary: xs rule: less_induct)
  case less
  show ?case
  proof (cases xs)
    case (Cons a r)
    then obtain ch rest where c: "xs = ch @ rest" "ch \<noteq> []" "utf8_valid rest"
      "\<And>zs. utf8_valid zs \<Longrightarrow> utf8_valid (ch @ zs)"
      using utf8_first_char less.prems(1) by metis
    with less.hyps [of rest] less.prems(2) have "utf8_valid (rest @ ys)" by simp
    with c show ?thesis by simp
  qed (use less.prems in simp)
qed

lemma is_str_append: "is_str s \<Longrightarrow> is_str t \<Longrightarrow> is_str (s @ t)"
  by (simp add: is_str_def as_bytes_def utf8_valid_append)

lemma utf8_take_boundary:
  "utf8_valid bs \<Longrightarrow> i = 0 \<or> length bs \<le> i \<or> \<not> utf8_cont (bs ! i) \<Longrightarrow> utf8_valid (take i bs)"
proof (induction "length bs" arbitrary: bs i rule: less_induct)
  case less
  show ?case
  proof (cases bs)
    case (Cons a r)
    with less.prems(1) obtain ch rest where c: "bs = ch @ rest" "ch \<noteq> []" "utf8_valid rest"
      "\<forall>j. 0 < j \<and> j < length ch \<longrightarrow> utf8_cont (ch ! j)" "\<And>xs. utf8_valid xs \<Longrightarrow> utf8_valid (ch @ xs)"
      using utf8_first_char by blast
    show ?thesis
    proof (cases "i < length ch")
      case True
      with less.prems(2) c have "i = 0" by (auto simp: nth_append)
      then show ?thesis by simp
    next
      case False
      with less.prems(2) c have "i - length ch = 0 \<or> length rest \<le> i - length ch \<or> \<not> utf8_cont (rest ! (i - length ch))"
        by (auto simp: nth_append)
      with less.hyps [of rest "i - length ch"] c have "utf8_valid (take (i - length ch) rest)" by simp
      with c False show ?thesis by simp
    qed
  qed simp
qed

text \<open>\<open>str::is_char_boundary\<close>.\<close>

definition is_char_boundary :: "string \<Rightarrow> nat \<Rightarrow> bool" where
  "is_char_boundary s i \<longleftrightarrow>
     i = 0 \<or> i = length s \<or> (i < length s \<and> \<not> utf8_cont (byte_of_char (s ! i)))"

lemma take_char_boundary:
  assumes "is_str s" and "is_char_boundary s i"
  shows "is_str (take i s)"
proof -
  have "as_bytes (take i s) = take i (as_bytes s)" by (simp add: as_bytes_def take_map)
  moreover have "utf8_valid (take i (as_bytes s))"
    using assms by (intro utf8_take_boundary) (auto simp: is_str_def is_char_boundary_def as_bytes_def)
  ultimately show ?thesis by (simp add: is_str_def)
qed

section \<open>Lists\<close>

lemma take_append_exact [simp]: "length xs = n \<Longrightarrow> take n (xs @ ys) = xs"
  by simp

lemma drop_append_exact [simp]: "length xs = n \<Longrightarrow> drop n (xs @ ys) = ys"
  by simp

text \<open>\<open>Iterator::position\<close>: the index of the first element that satisfies the predicate.\<close>

fun position :: "('a \<Rightarrow> bool) \<Rightarrow> 'a list \<Rightarrow> nat option" where
  "position p [] = None"
| "position p (x # xs) = (if p x then Some 0 else map_option Suc (position p xs))"

lemma position_None_iff: "position p xs = None \<longleftrightarrow> (\<forall>x \<in> set xs. \<not> p x)"
  by (induction xs) auto

lemma position_SomeD:
  "position p xs = Some i \<Longrightarrow> i < length xs \<and> p (xs ! i) \<and> (\<forall>j < i. \<not> p (xs ! j))"
proof (induction xs arbitrary: i)
  case Nil
  then show ?case by simp
next
  case (Cons x xs)
  then show ?case
    by (cases i) (auto split: if_splits simp: All_less_Suc2 nth_Cons split: nat.splits)
qed

lemma position_append:
  "position p (xs @ ys) =
     (case position p xs of
        Some i \<Rightarrow> Some i
      | None \<Rightarrow> (case position p ys of Some i \<Rightarrow> Some (length xs + i) | None \<Rightarrow> None))"
  by (induction xs) (auto split: option.splits)

text \<open>\<open>slice::chunks(n)\<close> for \<open>n > 0\<close>: consecutive pieces of \<open>n\<close> elements, the last one shorter.\<close>

function chunks :: "nat \<Rightarrow> 'a list \<Rightarrow> 'a list list" where
  "chunks n xs = (if n = 0 \<or> xs = [] then [] else take n xs # chunks n (drop n xs))"
  by pat_completeness auto
termination
  by (relation "measure (\<lambda>(n, xs). length xs)") auto

declare chunks.simps [simp del]

lemma chunks_Nil [simp]: "chunks n [] = []"
  by (simp add: chunks.simps)

lemma concat_chunks: "0 < n \<Longrightarrow> concat (chunks n xs) = xs"
proof (induction n xs rule: chunks.induct)
  case (1 n xs)
  show ?case
    using "1.IH" "1.prems" by (subst chunks.simps) auto
qed

lemma chunks_bounds: "c \<in> set (chunks n xs) \<Longrightarrow> c \<noteq> [] \<and> length c \<le> n"
proof (induction n xs rule: chunks.induct)
  case (1 n xs)
  show ?case
    using "1.IH" "1.prems" by (subst (asm) chunks.simps) (auto split: if_splits)
qed

text \<open>The last \<open>n\<close> elements of a list.\<close>

definition last_n :: "nat \<Rightarrow> 'a list \<Rightarrow> 'a list" where
  "last_n n xs = drop (length xs - n) xs"

lemma length_last_n [simp]: "length (last_n n xs) = min n (length xs)"
  by (auto simp: last_n_def)

lemma last_n_append: "last_n n (xs @ ys) = last_n (n - length ys) xs @ last_n n ys"
  by (cases "n \<le> length ys") (simp_all add: last_n_def)

lemma last_n_all: "length xs \<le> n \<Longrightarrow> last_n n xs = xs"
  by (simp add: last_n_def)

lemma last_n_last_n: "last_n m (last_n n xs) = last_n (min m n) xs"
  by (cases "n \<le> length xs") (auto simp: last_n_def min_def)

lemma last_n_last_n_append: "last_n n (last_n n xs @ ys) = last_n n (xs @ ys)"
  by (simp add: last_n_append last_n_last_n min_def)

lemma last_n_shift:
  assumes "length u = c" and "length bs \<le> c"
  shows "last_n (min (l + length bs) c) (drop (length bs) u @ bs) = last_n (c - length bs) (last_n l u) @ bs"
proof -
  have "drop (length bs) u = last_n (c - length bs) u" using assms by (simp add: last_n_def)
  moreover have "min (l + length bs) c - length bs = min l (c - length bs)" by simp
  ultimately show ?thesis
    using assms by (simp add: last_n_append last_n_last_n last_n_all min.commute)
qed

lemma list_eq_by_drop: "drop k xs = ys \<Longrightarrow> take k xs = zs \<Longrightarrow> xs = zs @ ys"
  by (metis append_take_drop_id)

end
