(* ===== verification/Rust_Map.thy ===== *)
theory Rust_Map
  imports Prelude
begin

text \<open>
  The keyed collections of the Rust standard library that the sources use. A \<open>BTreeMap\<close> is the
  list of its entries in key order, the order its iterators visit; a \<open>HashMap\<close>, whose iteration
  order the language leaves open, is a list of its entries in some order, without repeated keys, and
  every theorem about a component that keeps one holds for every such list. The locale
  \<open>key_map\<close> is the contract both keep: what a lookup returns after an insertion or a removal, and
  that the entries are exactly what lookups return.
\<close>

section \<open>The contract\<close>

locale key_map =
  fixes emp :: "'m"
    and get :: "'m \<Rightarrow> 'k \<Rightarrow> 'v option"
    and ins :: "'k \<Rightarrow> 'v \<Rightarrow> 'm \<Rightarrow> 'm"
    and del :: "'k \<Rightarrow> 'm \<Rightarrow> 'm"
    and entries :: "'m \<Rightarrow> ('k \<times> 'v) list"
    and ok :: "'m \<Rightarrow> bool"
  assumes ok_emp: "ok emp"
    and ok_ins: "ok m \<Longrightarrow> ok (ins k v m)"
    and ok_del: "ok m \<Longrightarrow> ok (del k m)"
    and get_emp: "get emp k = None"
    and get_ins: "ok m \<Longrightarrow> get (ins k v m) = (get m)(k \<mapsto> v)"
    and get_del: "ok m \<Longrightarrow> get (del k m) = (get m)(k := None)"
    and distinct_entries: "ok m \<Longrightarrow> distinct (map fst (entries m))"
    and entries_get: "ok m \<Longrightarrow> (k, v) \<in> set (entries m) \<longleftrightarrow> get m k = Some v"
begin

lemma get_map_of: "ok m \<Longrightarrow> get m = map_of (entries m)"
  by (metis distinct_entries entries_get map_of_eq_Some_iff not_Some_eq ext)

lemma finite_dom: "ok m \<Longrightarrow> finite (dom (get m))"
  by (simp add: get_map_of finite_dom_map_of)

lemma keys_entries: "ok m \<Longrightarrow> fst ` set (entries m) = dom (get m)"
  by (simp add: get_map_of dom_map_of_conv_image_fst)

lemma find_entries_None:
  "ok m \<Longrightarrow> find P (entries m) = None \<longleftrightarrow> (\<forall>k v. get m k = Some v \<longrightarrow> \<not> P (k, v))"
  by (force simp: find_None_iff entries_get [symmetric])

lemma find_entries_Some:
  "ok m \<Longrightarrow> find P (entries m) = Some (k, v) \<Longrightarrow> get m k = Some v \<and> P (k, v)"
  by (metis entries_get find_Some_iff nth_mem)

lemma count_entries:
  assumes "ok m"
  shows "length (filter (\<lambda>(k, v). k = j) (entries m)) = (if get m j = None then 0 else 1)"
proof -
  have "distinct (map fst es) \<Longrightarrow> length (filter (\<lambda>(k, v). k = j) es) =
      (if map_of es j = None then 0 else 1)" for es :: "('k \<times> 'v) list"
    by (induction es) (auto simp: map_of_eq_None_iff)
  then show ?thesis
    using distinct_entries [OF assms] by (simp add: get_map_of [OF assms])
qed

end

section \<open>\<open>BTreeMap\<close>: entries in key order\<close>

fun btree_get :: "('k::linorder \<times> 'v) list \<Rightarrow> 'k \<Rightarrow> 'v option" where
  "btree_get [] k = None"
| "btree_get ((a, v) # m) k = (if k = a then Some v else btree_get m k)"

fun btree_insert :: "'k::linorder \<Rightarrow> 'v \<Rightarrow> ('k \<times> 'v) list \<Rightarrow> ('k \<times> 'v) list" where
  "btree_insert k v [] = [(k, v)]"
| "btree_insert k v ((a, w) # m) =
     (if k < a then (k, v) # (a, w) # m
      else if k = a then (k, v) # m
      else (a, w) # btree_insert k v m)"

definition btree_remove :: "'k::linorder \<Rightarrow> ('k \<times> 'v) list \<Rightarrow> ('k \<times> 'v) list" where
  "btree_remove k m = filter (\<lambda>(a, _). a \<noteq> k) m"

definition btree_ok :: "('k::linorder \<times> 'v) list \<Rightarrow> bool" where
  "btree_ok m \<longleftrightarrow> sorted_wrt (<) (map fst m)"

lemma set_fst_btree_insert: "fst ` set (btree_insert k v m) = insert k (fst ` set m)"
  by (induction k v m rule: btree_insert.induct) (simp_all add: insert_commute)

lemma btree_insert_sorted: "btree_ok m \<Longrightarrow> btree_ok (btree_insert k v m)"
  unfolding btree_ok_def
proof (induction m)
  case Nil
  then show ?case by simp
next
  case (Cons e m)
  then show ?case
    using set_fst_btree_insert [of k v m] by (cases e) (fastforce simp: image_iff)
qed

lemma btree_get_map_of: "btree_get m = map_of m"
  by (induction m) (auto simp: fun_eq_iff)

lemma btree_get_insert: "btree_ok m \<Longrightarrow> btree_get (btree_insert k v m) = (btree_get m)(k \<mapsto> v)"
  by (induction m) (auto simp: btree_ok_def fun_eq_iff)

lemma btree_get_remove: "btree_get (btree_remove k m) = (btree_get m)(k := None)"
  by (induction m) (auto simp: btree_remove_def fun_eq_iff)

lemma btree_remove_sorted: "btree_ok m \<Longrightarrow> btree_ok (btree_remove k m)"
  by (simp add: btree_ok_def btree_remove_def sorted_wrt_map sorted_wrt_filter)

lemma btree_distinct: "btree_ok m \<Longrightarrow> distinct (map fst m)"
  by (simp add: btree_ok_def strict_sorted_iff)

interpretation btree: key_map "[]" btree_get btree_insert btree_remove "\<lambda>m. m" btree_ok
proof unfold_locales
  fix m :: "('k::linorder \<times> 'v) list" and k v
  assume "btree_ok m"
  then have "distinct (map fst m)" by (rule btree_distinct)
  then show "((k, v) \<in> set m) = (btree_get m k = Some v)"
    by (simp add: btree_get_map_of)
qed (simp_all add: btree_insert_sorted btree_remove_sorted btree_get_insert btree_get_remove
    btree_distinct, simp add: btree_ok_def)

section \<open>\<open>HashMap\<close>: entries in an arbitrary order\<close>

definition hash_get :: "('k \<times> 'v) list \<Rightarrow> 'k \<Rightarrow> 'v option" where
  "hash_get m k = map_of m k"

definition hash_insert :: "'k \<Rightarrow> 'v \<Rightarrow> ('k \<times> 'v) list \<Rightarrow> ('k \<times> 'v) list" where
  "hash_insert k v m =
     (if k \<in> fst ` set m then map (\<lambda>(a, w). (a, if a = k then v else w)) m else m @ [(k, v)])"

definition hash_remove :: "'k \<Rightarrow> ('k \<times> 'v) list \<Rightarrow> ('k \<times> 'v) list" where
  "hash_remove k m = filter (\<lambda>(a, _). a \<noteq> k) m"

definition hash_ok :: "('k \<times> 'v) list \<Rightarrow> bool" where
  "hash_ok m \<longleftrightarrow> distinct (map fst m)"

lemma hash_get_insert: "hash_get (hash_insert k v m) = (hash_get m)(k \<mapsto> v)"
proof -
  have "map_of (map (\<lambda>(a, w). (a, if a = k then v else w)) m) x =
      (if x = k then if k \<in> fst ` set m then Some v else None else map_of m x)" for x
    by (induction m) (auto simp: rev_image_eqI)
  then show ?thesis
    by (auto simp: hash_get_def hash_insert_def fun_eq_iff map_add_def rev_image_eqI
        split: option.splits dest!: map_of_SomeD)
qed

lemma hash_get_remove: "hash_get (hash_remove k m) = (hash_get m)(k := None)"
  by (induction m) (auto simp: hash_get_def hash_remove_def fun_eq_iff)

lemma hash_insert_ok: "hash_ok m \<Longrightarrow> hash_ok (hash_insert k v m)"
  by (auto simp: hash_ok_def hash_insert_def comp_def case_prod_beta')

lemma hash_remove_ok: "hash_ok m \<Longrightarrow> hash_ok (hash_remove k m)"
  by (simp add: hash_ok_def hash_remove_def distinct_map_filter)

interpretation hash: key_map "[]" hash_get hash_insert hash_remove "\<lambda>m. m" hash_ok
  by unfold_locales
    (simp_all add: hash_insert_ok hash_remove_ok hash_get_insert hash_get_remove,
     simp_all add: hash_ok_def hash_get_def)

lemmas btree_laws [simp] = btree.get_ins btree.get_del btree.ok_ins btree.ok_del btree.ok_emp

end
