(* ===== verification/Graph_Types.thy ===== *)
theory Graph_Types
  imports Prelude
begin

text \<open>
  The vocabulary of the graph model (\<open>core/src/graph.rs\<close>): orientations, write modes, arbitration
  policies, endpoint addresses and their display form, the shape of a node and an edge. The locks,
  the configuration and the validator are written over these types.
\<close>

section \<open>Orientation, write mode, arbitration\<close>

datatype Facing = Target | Host

fun opposite :: "Facing \<Rightarrow> Facing" where
  "opposite Target = Host"
| "opposite Host = Target"

datatype WriteMode = Never | OnDemand | Held

text \<open>The configuration spelling, \<open>impl Display for WriteMode\<close>.\<close>

fun write_mode_display :: "WriteMode \<Rightarrow> string" where
  "write_mode_display Never = ''never''"
| "write_mode_display OnDemand = ''on-demand''"
| "write_mode_display Held = ''held''"

datatype Arbitration = Exclusive | FreeForAll

section \<open>Endpoint addresses\<close>

definition DEFAULT_ENDPOINT :: string where
  "DEFAULT_ENDPOINT = ''''"

definition MAX_NAME_LEN :: nat where
  "MAX_NAME_LEN = 256"

record EndpointAddr =
  addr_node :: string
  addr_endpoint :: string

definition EndpointAddr_new :: "string \<Rightarrow> string \<Rightarrow> EndpointAddr" where
  "EndpointAddr_new node endpoint = \<lparr>addr_node = node, addr_endpoint = endpoint\<rparr>"

definition EndpointAddr_node :: "string \<Rightarrow> EndpointAddr" where
  "EndpointAddr_node node = \<lparr>addr_node = node, addr_endpoint = DEFAULT_ENDPOINT\<rparr>"

definition is_default :: "EndpointAddr \<Rightarrow> bool" where
  "is_default a \<longleftrightarrow> addr_endpoint a = DEFAULT_ENDPOINT"

definition EndpointAddr_display :: "EndpointAddr \<Rightarrow> string" where
  "EndpointAddr_display a =
     (if is_default a then addr_node a else addr_node a @ ''/'' @ addr_endpoint a)"

text \<open>\<open>str::split_once(c)\<close>: the parts before and after the first \<open>c\<close>.\<close>

fun split_once :: "char \<Rightarrow> string \<Rightarrow> (string \<times> string) option" where
  "split_once c [] = None"
| "split_once c (x # xs) =
     (if x = c then Some ([], xs)
      else map_option (\<lambda>(a, b). (x # a, b)) (split_once c xs))"

definition EndpointAddr_from_str :: "string \<Rightarrow> EndpointAddr" where
  "EndpointAddr_from_str s =
     (case split_once (CHR ''/'') s of
        Some (node, endpoint) \<Rightarrow> EndpointAddr_new node endpoint
      | None \<Rightarrow> EndpointAddr_node s)"

section \<open>Shapes and edges\<close>

record EndpointSpec =
  ep_name :: string
  ep_facing :: Facing
  ep_arbitration :: Arbitration

record NodeShape =
  endpoints :: "EndpointSpec list"

definition single_arb :: "Facing \<Rightarrow> Arbitration \<Rightarrow> NodeShape" where
  "single_arb facing arbitration =
     \<lparr>endpoints = [\<lparr>ep_name = DEFAULT_ENDPOINT, ep_facing = facing, ep_arbitration = arbitration\<rparr>]\<rparr>"

definition single :: "Facing \<Rightarrow> NodeShape" where
  "single facing = single_arb facing Exclusive"

definition shape_endpoint :: "NodeShape \<Rightarrow> string \<Rightarrow> EndpointSpec option" where
  "shape_endpoint shape name = find (\<lambda>e. ep_name e = name) (endpoints shape)"

record EdgeSpec =
  edge_a :: EndpointAddr
  edge_b :: EndpointAddr
  edge_write_mode :: WriteMode

section \<open>The display form parses back\<close>

lemma split_once_append: "c \<notin> set xs \<Longrightarrow> split_once c (xs @ c # ys) = Some (xs, ys)"
  by (induction xs) auto

lemma split_once_None_iff: "split_once c xs = None \<longleftrightarrow> c \<notin> set xs"
  by (induction xs) auto

lemma split_once_Some: "split_once c xs = Some (a, b) \<Longrightarrow> xs = a @ c # b \<and> c \<notin> set a"
  by (induction xs arbitrary: a b) (auto split: if_splits)

text \<open>
  An endpoint address whose node name holds no \<open>'/'\<close> survives being displayed and parsed again
  (\<open>EndpointAddr\<close>'s \<open>Display\<close> and \<open>FromStr\<close>), whatever its endpoint name is: the configuration's
  address strings lose nothing.
\<close>

theorem endpoint_addr_round_trip:
  assumes "CHR ''/'' \<notin> set (addr_node a)"
  shows "EndpointAddr_from_str (EndpointAddr_display a) = a"
proof (cases "is_default a")
  case True
  then show ?thesis
    using assms split_once_None_iff [of "CHR ''/''" "addr_node a"]
    by (simp add: EndpointAddr_from_str_def EndpointAddr_display_def EndpointAddr_node_def is_default_def)
next
  case False
  then show ?thesis
    using assms split_once_append [of "CHR ''/''" "addr_node a" "addr_endpoint a"]
    by (simp add: EndpointAddr_from_str_def EndpointAddr_display_def EndpointAddr_new_def)
qed

theorem endpoint_addr_round_trip_witness:
  "EndpointAddr_from_str (EndpointAddr_display (EndpointAddr_new ''mux'' ''console''))
     = EndpointAddr_new ''mux'' ''console''"
  by (rule endpoint_addr_round_trip) (simp add: EndpointAddr_new_def)

text \<open>Every string is an address, and an address parsed from a string displays as that string
  unless the string ends in its first \<open>'/'\<close>.\<close>

lemma endpoint_addr_display_parse:
  "EndpointAddr_display (EndpointAddr_from_str s) = s \<or>
   (\<exists>n. s = n @ ''/'' \<and> EndpointAddr_display (EndpointAddr_from_str s) = n)"
proof (cases "split_once (CHR ''/'') s")
  case None
  then show ?thesis
    by (simp add: EndpointAddr_from_str_def EndpointAddr_display_def EndpointAddr_node_def is_default_def)
next
  case (Some p)
  then obtain a b where p: "p = (a, b)" by (cases p)
  with Some have s: "s = a @ CHR ''/'' # b" using split_once_Some by blast
  show ?thesis
    using Some p s
    by (auto simp: EndpointAddr_from_str_def EndpointAddr_display_def EndpointAddr_new_def
        is_default_def DEFAULT_ENDPOINT_def)
qed

end
