(* ===== verification/Lock.thy ===== *)
theory Lock
  imports Rust_Map Graph_Types "HOL-Library.Sublist"
begin

text \<open>
  Write arbitration (\<open>core/src/lock.rs\<close>): the exclusive write lock of one host-facing endpoint, with
  its holder, its queue of waiting origins in arrival order, its grant generation and its last
  recorded steal, and one function per method of \<open>EndpointLock\<close>. A method that takes \<open>&mut self\<close>
  returns the updated lock. The locks the daemon can build are the reachable states of
  \<open>lock_step\<close>; the only obligation on the caller is that an origin is registered under an id that is
  not in use on that endpoint.
\<close>

section \<open>State\<close>

type_synonym OriginId = u64

datatype Acquire = Granted | AlreadyHeld | Denied OriginId | ReadOnly | Unregistered

datatype Steal = Stolen "OriginId option" | StealAlreadyHeld | StealReadOnly

record Origin =
  origin_label :: string
  origin_write_mode :: WriteMode
  origin_purged :: u64

record StealRecord =
  steal_from :: string
  steal_by :: string

record EndpointLock =
  arbitration :: Arbitration
  origins :: "(OriginId \<times> Origin) list"
  holder :: "OriginId option"
  waiters :: "OriginId list"
  generation :: u64
  stolen :: "StealRecord option"

definition lock_new :: "Arbitration \<Rightarrow> EndpointLock" where
  "lock_new arb = \<lparr>arbitration = arb, origins = [], holder = None, waiters = [],
     generation = 0, stolen = None\<rparr>"

abbreviation origin_of :: "EndpointLock \<Rightarrow> OriginId \<Rightarrow> Origin option" where
  "origin_of l i \<equiv> btree_get (origins l) i"

section \<open>Operations\<close>

definition lock_register :: "OriginId \<Rightarrow> string \<Rightarrow> WriteMode \<Rightarrow> EndpointLock \<Rightarrow> EndpointLock" where
  "lock_register i lbl mode l =
     (let l = l\<lparr>origins := btree_insert i
                  \<lparr>origin_label = lbl, origin_write_mode = mode, origin_purged = 0\<rparr> (origins l)\<rparr>
      in if mode = Held \<and> arbitration l = Exclusive \<and> holder l = None
         then l\<lparr>holder := Some i, generation := generation l + 1\<rparr>
         else l)"

definition lock_unregister :: "OriginId \<Rightarrow> EndpointLock \<Rightarrow> bool \<times> EndpointLock" where
  "lock_unregister i l =
     (let l = l\<lparr>origins := btree_remove i (origins l),
                waiters := filter (\<lambda>w. w \<noteq> i) (waiters l)\<rparr>
      in if holder l = Some i then (True, l\<lparr>holder := None\<rparr>) else (False, l))"

definition may_write :: "EndpointLock \<Rightarrow> OriginId \<Rightarrow> bool" where
  "may_write l i =
     (case origin_of l i of
        None \<Rightarrow> False
      | Some origin \<Rightarrow>
          if origin_write_mode origin = Never then False
          else (case arbitration l of
                  FreeForAll \<Rightarrow> True
                | Exclusive \<Rightarrow> holder l = Some i))"

definition grant_to :: "OriginId \<Rightarrow> EndpointLock \<Rightarrow> EndpointLock" where
  "grant_to i l = l\<lparr>holder := Some i, waiters := filter (\<lambda>w. w \<noteq> i) (waiters l),
                    generation := generation l + 1\<rparr>"

definition held_origin_other_than :: "EndpointLock \<Rightarrow> OriginId \<Rightarrow> OriginId option" where
  "held_origin_other_than l i =
     map_option fst (find (\<lambda>(k, o'). k \<noteq> i \<and> origin_write_mode o' = Held) (origins l))"

definition acquire :: "OriginId \<Rightarrow> EndpointLock \<Rightarrow> Acquire \<times> EndpointLock" where
  "acquire i l =
     (case origin_of l i of
        None \<Rightarrow> (Unregistered, l)
      | Some o' \<Rightarrow>
          if origin_write_mode o' = Never then (ReadOnly, l)
          else if arbitration l = FreeForAll then (Granted, l)
          else (case holder l of
                  Some h \<Rightarrow> if h = i then (AlreadyHeld, l) else (Denied h, l)
                | None \<Rightarrow>
                    if origin_write_mode o' = Held then (Granted, grant_to i l)
                    else (case held_origin_other_than l i of
                            Some held \<Rightarrow> (Denied held, l)
                          | None \<Rightarrow>
                              (case waiters l of
                                 front # _ \<Rightarrow>
                                   if front \<noteq> i then (Denied front, l) else (Granted, grant_to i l)
                               | [] \<Rightarrow> (Granted, grant_to i l)))))"

definition enqueue :: "OriginId \<Rightarrow> EndpointLock \<Rightarrow> EndpointLock" where
  "enqueue i l =
     (case origin_of l i of
        None \<Rightarrow> l
      | Some o' \<Rightarrow>
          if origin_write_mode o' = Never then l
          else if holder l = Some i \<or> i \<in> set (waiters l) then l
          else l\<lparr>waiters := waiters l @ [i]\<rparr>)"

definition dequeue :: "OriginId \<Rightarrow> EndpointLock \<Rightarrow> EndpointLock" where
  "dequeue i l = l\<lparr>waiters := filter (\<lambda>w. w \<noteq> i) (waiters l)\<rparr>"

definition lock_label :: "EndpointLock \<Rightarrow> OriginId \<Rightarrow> string option" where
  "lock_label l i = map_option origin_label (origin_of l i)"

definition lock_write_mode :: "EndpointLock \<Rightarrow> OriginId \<Rightarrow> WriteMode option" where
  "lock_write_mode l i = map_option origin_write_mode (origin_of l i)"

definition steal :: "OriginId \<Rightarrow> EndpointLock \<Rightarrow> Steal \<times> EndpointLock" where
  "steal i l =
     (case origin_of l i of
        None \<Rightarrow> (StealReadOnly, l)
      | Some o' \<Rightarrow>
          if origin_write_mode o' = Never then (StealReadOnly, l)
          else if arbitration l = FreeForAll then (Stolen None, l)
          else if holder l = Some i then (StealAlreadyHeld, l)
          else
            (let previous = holder l;
                 l = (case previous of
                        None \<Rightarrow> l
                      | Some prev \<Rightarrow> l\<lparr>stolen := Some
                          \<lparr>steal_from = (case lock_label l prev of None \<Rightarrow> [] | Some s \<Rightarrow> s),
                           steal_by = (case lock_label l i of None \<Rightarrow> [] | Some s \<Rightarrow> s)\<rparr>\<rparr>)
             in (Stolen previous,
                 l\<lparr>waiters := filter (\<lambda>w. w \<noteq> i) (waiters l), holder := Some i,
                   generation := generation l + 1\<rparr>)))"

definition reclaim_held :: "OriginId \<Rightarrow> EndpointLock \<Rightarrow> bool \<times> EndpointLock" where
  "reclaim_held i l =
     (case origin_of l i of
        None \<Rightarrow> (False, l)
      | Some o' \<Rightarrow>
          if origin_write_mode o' \<noteq> Held then (False, l)
          else if arbitration l = FreeForAll then (True, l)
          else if holder l = None then (True, grant_to i l)
          else (False, l))"

definition lock_release :: "OriginId \<Rightarrow> EndpointLock \<Rightarrow> bool \<times> EndpointLock" where
  "lock_release i l = (if holder l = Some i then (True, l\<lparr>holder := None\<rparr>) else (False, l))"

definition renew :: "OriginId \<Rightarrow> EndpointLock \<Rightarrow> u64 option \<times> EndpointLock" where
  "renew i l =
     (if holder l = Some i
      then (Some (generation l + 1), l\<lparr>generation := generation l + 1\<rparr>)
      else (None, l))"

definition record_purge :: "OriginId \<Rightarrow> u64 \<Rightarrow> EndpointLock \<Rightarrow> EndpointLock" where
  "record_purge i bytes l =
     (case origin_of l i of
        None \<Rightarrow> l
      | Some o' \<Rightarrow> l\<lparr>origins := btree_insert i
                      (o'\<lparr>origin_purged := saturating_add (origin_purged o') bytes\<rparr>) (origins l)\<rparr>)"

definition lock_purged :: "EndpointLock \<Rightarrow> OriginId \<Rightarrow> u64" where
  "lock_purged l i = (case origin_of l i of None \<Rightarrow> 0 | Some o' \<Rightarrow> origin_purged o')"

text \<open>The reportable snapshot.\<close>

record OriginState =
  os_origin :: string
  os_write_mode :: WriteMode
  os_holds_lock :: bool
  os_purged :: u64

record LockSnapshot =
  snap_arbitration :: Arbitration
  snap_holder :: "string option"
  snap_origins :: "OriginState list"
  snap_waiters :: "string list"
  snap_last_steal :: "StealRecord option"

definition lock_snapshot :: "EndpointLock \<Rightarrow> LockSnapshot" where
  "lock_snapshot l =
     \<lparr>snap_arbitration = arbitration l,
      snap_holder = Option.bind (holder l) (lock_label l),
      snap_origins = map (\<lambda>(i, o'). \<lparr>os_origin = origin_label o',
          os_write_mode = origin_write_mode o', os_holds_lock = (holder l = Some i),
          os_purged = origin_purged o'\<rparr>) (origins l),
      snap_waiters = List.map_filter (lock_label l) (waiters l),
      snap_last_steal = stolen l\<rparr>"

section \<open>The daemon's poll gate\<close>

text \<open>
  \<open>may_write_reclaiming\<close> of \<open>daemon/src/runtime.rs\<close>: a boundary that may not write first lets a
  held origin take a free lock back. The result says whether it may write and whether the grant is
  fresh (which is when the daemon announces the change).
\<close>

definition may_write_reclaiming :: "OriginId \<Rightarrow> EndpointLock \<Rightarrow> (bool \<times> bool) \<times> EndpointLock" where
  "may_write_reclaiming i l =
     (if may_write l i then ((True, False), l)
      else (let (took, l') = reclaim_held i l in ((took, took), l')))"

section \<open>Runs\<close>

datatype LockOp =
    OpRegister OriginId string WriteMode
  | OpUnregister OriginId
  | OpAcquire OriginId
  | OpEnqueue OriginId
  | OpDequeue OriginId
  | OpSteal OriginId
  | OpReclaimHeld OriginId
  | OpRelease OriginId
  | OpRenew OriginId
  | OpRecordPurge OriginId u64

fun lock_apply :: "LockOp \<Rightarrow> EndpointLock \<Rightarrow> EndpointLock" where
  "lock_apply (OpRegister i lbl mode) l = lock_register i lbl mode l"
| "lock_apply (OpUnregister i) l = snd (lock_unregister i l)"
| "lock_apply (OpAcquire i) l = snd (acquire i l)"
| "lock_apply (OpEnqueue i) l = enqueue i l"
| "lock_apply (OpDequeue i) l = dequeue i l"
| "lock_apply (OpSteal i) l = snd (steal i l)"
| "lock_apply (OpReclaimHeld i) l = snd (reclaim_held i l)"
| "lock_apply (OpRelease i) l = snd (lock_release i l)"
| "lock_apply (OpRenew i) l = snd (renew i l)"
| "lock_apply (OpRecordPurge i n) l = record_purge i n l"

fun op_allowed :: "EndpointLock \<Rightarrow> LockOp \<Rightarrow> bool" where
  "op_allowed l (OpRegister i lbl mode) = (origin_of l i = None)"
| "op_allowed l _ = True"

inductive lock_step :: "EndpointLock \<Rightarrow> LockOp \<Rightarrow> EndpointLock \<Rightarrow> bool" where
  lock_stepI: "op_allowed l opn \<Longrightarrow> lock_step l opn (lock_apply opn l)"

inductive lock_run :: "EndpointLock \<Rightarrow> LockOp list \<Rightarrow> EndpointLock \<Rightarrow> bool" where
  lock_run_Nil: "lock_run l [] l"
| lock_run_Cons: "lock_step l opn l' \<Longrightarrow> lock_run l' ops l'' \<Longrightarrow> lock_run l (opn # ops) l''"

inductive_simps lock_step_iff: "lock_step l opn l'"
inductive_simps lock_run_Nil_iff: "lock_run l [] l'"
inductive_simps lock_run_Cons_iff: "lock_run l (opn # ops) l'"

section \<open>The invariant\<close>

definition lock_writer :: "EndpointLock \<Rightarrow> OriginId \<Rightarrow> bool" where
  "lock_writer l i =
     (case origin_of l i of None \<Rightarrow> False | Some o' \<Rightarrow> origin_write_mode o' \<noteq> Never)"

definition lock_inv :: "EndpointLock \<Rightarrow> bool" where
  "lock_inv l \<longleftrightarrow>
     btree_ok (origins l) \<and>
     (case holder l of
        None \<Rightarrow> True
      | Some h \<Rightarrow> lock_writer l h \<and> h \<notin> set (waiters l) \<and> arbitration l = Exclusive) \<and>
     distinct (waiters l) \<and>
     list_all (lock_writer l) (waiters l)"

lemmas lock_defs = lock_register_def lock_unregister_def acquire_def enqueue_def dequeue_def
  steal_def reclaim_held_def lock_release_def renew_def record_purge_def grant_to_def Let_def

lemmas lock_splits = option.splits if_splits list.splits Arbitration.splits WriteMode.splits

lemma lock_inv_new: "lock_inv (lock_new arb)"
  by (simp add: lock_inv_def lock_new_def)

lemma lock_inv_register:
  assumes "lock_inv l" and "origin_of l i = None"
  shows "lock_inv (lock_register i lbl mode l)"
proof -
  have "w \<noteq> i" if "lock_writer l w" for w
    using that assms(2) by (auto simp: lock_writer_def)
  then show ?thesis
    using assms
    by (auto simp: lock_inv_def lock_register_def Let_def lock_writer_def list_all_iff split: lock_splits)
qed

lemma lock_inv_unregister: "lock_inv l \<Longrightarrow> lock_inv (snd (lock_unregister i l))"
  by (auto simp: lock_inv_def lock_unregister_def Let_def lock_writer_def list_all_iff split: lock_splits)

lemma lock_inv_grant_to:
  "lock_inv l \<Longrightarrow> lock_writer l i \<Longrightarrow> arbitration l = Exclusive \<Longrightarrow> lock_inv (grant_to i l)"
  by (auto simp: lock_inv_def grant_to_def lock_writer_def list_all_iff split: lock_splits)

lemma acquire_effect:
  "snd (acquire i l) = l \<and> (fst (acquire i l) = Granted \<longrightarrow> arbitration l = FreeForAll) \<or>
   snd (acquire i l) = grant_to i l \<and> lock_writer l i \<and> arbitration l = Exclusive \<and>
   holder l = None \<and> fst (acquire i l) = Granted"
  by (cases "origin_of l i"; cases "arbitration l"; cases "holder l";
      cases "held_origin_other_than l i"; cases "waiters l")
    (simp_all add: acquire_def lock_writer_def)

lemma reclaim_held_effect:
  "snd (reclaim_held i l) = l \<or>
   snd (reclaim_held i l) = grant_to i l \<and> lock_writer l i \<and> arbitration l = Exclusive \<and> holder l = None"
  by (cases "origin_of l i"; cases "arbitration l"; cases "holder l")
    (simp_all add: reclaim_held_def lock_writer_def)

lemma lock_inv_acquire: "lock_inv l \<Longrightarrow> lock_inv (snd (acquire i l))"
  using acquire_effect [of i l] by (auto intro: lock_inv_grant_to)

lemma lock_inv_reclaim_held: "lock_inv l \<Longrightarrow> lock_inv (snd (reclaim_held i l))"
  using reclaim_held_effect [of i l] by (auto intro: lock_inv_grant_to)

lemma lock_inv_enqueue: "lock_inv l \<Longrightarrow> lock_inv (enqueue i l)"
  by (auto simp: lock_inv_def enqueue_def lock_writer_def list_all_iff split: lock_splits)

lemma lock_inv_dequeue: "lock_inv l \<Longrightarrow> lock_inv (dequeue i l)"
  by (auto simp: lock_inv_def dequeue_def lock_writer_def list_all_iff split: lock_splits)

lemma lock_inv_release: "lock_inv l \<Longrightarrow> lock_inv (snd (lock_release i l))"
  by (auto simp: lock_inv_def lock_release_def lock_writer_def list_all_iff split: lock_splits)

lemma lock_inv_renew: "lock_inv l \<Longrightarrow> lock_inv (snd (renew i l))"
  by (auto simp: lock_inv_def renew_def lock_writer_def list_all_iff split: lock_splits)

lemma record_purge_writer: "btree_ok (origins l) \<Longrightarrow> lock_writer (record_purge i n l) j = lock_writer l j"
  by (auto simp: lock_writer_def record_purge_def split: lock_splits)

lemma record_purge_frame [simp]:
  "holder (record_purge i n l) = holder l" "waiters (record_purge i n l) = waiters l"
  "arbitration (record_purge i n l) = arbitration l" "generation (record_purge i n l) = generation l"
  "stolen (record_purge i n l) = stolen l"
  by (simp_all add: record_purge_def split: option.splits)

lemma lock_inv_record_purge: "lock_inv l \<Longrightarrow> lock_inv (record_purge i n l)"
proof -
  assume inv: "lock_inv l"
  then have "btree_ok (origins (record_purge i n l))"
    by (auto simp: lock_inv_def record_purge_def split: option.splits)
  with inv show ?thesis
    by (auto simp: lock_inv_def record_purge_writer list_all_iff split: option.splits)
qed

text \<open>The lock a successful steal from another origin leaves, without the steal record.\<close>

lemma steal_effect:
  "snd (steal i l) = l \<or>
   (\<exists>r. snd (steal i l) = (grant_to i l)\<lparr>stolen := r\<rparr>) \<and> lock_writer l i \<and>
   arbitration l = Exclusive \<and> holder l \<noteq> Some i \<and> fst (steal i l) = Stolen (holder l)"
proof (cases "origin_of l i")
  case None
  then show ?thesis by (simp add: steal_def)
next
  case (Some o')
  show ?thesis
  proof (cases "holder l")
    case None
    have "grant_to i l = (grant_to i l)\<lparr>stolen := stolen l\<rparr>"
      by (simp add: grant_to_def)
    with Some None show ?thesis
      by (cases "arbitration l")
        (auto simp: steal_def grant_to_def lock_writer_def intro!: exI [of _ "stolen l"])
  next
    case (Some h)
    with \<open>origin_of l i = Some o'\<close> show ?thesis
      by (cases "arbitration l")
        (auto simp: steal_def grant_to_def lock_writer_def Let_def
          intro!: exI [of _ "Some \<lparr>steal_from = (case lock_label l h of None \<Rightarrow> [] | Some s \<Rightarrow> s),
            steal_by = (case lock_label l i of None \<Rightarrow> [] | Some s \<Rightarrow> s)\<rparr>"])
  qed
qed

lemma lock_writer_stolen [simp]: "lock_writer (l\<lparr>stolen := r\<rparr>) i = lock_writer l i"
  by (simp add: lock_writer_def)

lemma lock_inv_stolen [simp]: "lock_inv (l\<lparr>stolen := r\<rparr>) = lock_inv l"
  by (simp add: lock_inv_def list_all_iff split: option.split)

lemma lock_inv_steal: "lock_inv l \<Longrightarrow> lock_inv (snd (steal i l))"
  using steal_effect [of i l] by (auto intro: lock_inv_grant_to)

lemma lock_inv_step: "lock_step l opn l' \<Longrightarrow> lock_inv l \<Longrightarrow> lock_inv l'"
  unfolding lock_step_iff
  by (cases opn)
    (simp_all add: lock_inv_register lock_inv_unregister lock_inv_acquire
      lock_inv_enqueue lock_inv_dequeue lock_inv_steal lock_inv_reclaim_held lock_inv_release
      lock_inv_renew lock_inv_record_purge)

lemma lock_inv_run: "lock_run l ops l' \<Longrightarrow> lock_inv l \<Longrightarrow> lock_inv l'"
  by (induction rule: lock_run.induct) (auto dest: lock_inv_step)

section \<open>Mutual exclusion\<close>

fun run_allowed :: "EndpointLock \<Rightarrow> LockOp list \<Rightarrow> bool" where
  "run_allowed l [] = True"
| "run_allowed l (opn # ops) = (op_allowed l opn \<and> run_allowed (lock_apply opn l) ops)"

lemma lock_run_iff: "lock_run l ops l' \<longleftrightarrow> run_allowed l ops \<and> l' = fold lock_apply ops l"
proof (induction ops arbitrary: l)
  case Nil
  show ?case by (auto simp: lock_run_Nil_iff)
next
  case (Cons opn ops)
  show ?case by (simp add: lock_run_Cons_iff Cons.IH lock_step_iff)
qed

lemma arbitration_apply: "arbitration (lock_apply opn l) = arbitration l"
proof (cases opn)
  case (OpAcquire i)
  then show ?thesis using acquire_effect [of i l] by (auto simp: grant_to_def)
next
  case (OpSteal i)
  then show ?thesis using steal_effect [of i l] by (auto simp: grant_to_def)
next
  case (OpReclaimHeld i)
  then show ?thesis using reclaim_held_effect [of i l] by (auto simp: grant_to_def)
qed (simp_all add: lock_register_def lock_unregister_def enqueue_def dequeue_def lock_release_def
    renew_def Let_def split: option.split)

lemma arbitration_run: "lock_run l ops l' \<Longrightarrow> arbitration l' = arbitration l"
  by (induction rule: lock_run.induct) (auto simp: lock_step_iff arbitration_apply)

lemma may_write_exclusive:
  "lock_inv l \<Longrightarrow> arbitration l = Exclusive \<Longrightarrow> may_write l i \<longleftrightarrow> holder l = Some i"
  by (auto simp: lock_inv_def may_write_def lock_writer_def split: option.splits)

text \<open>
  C1: under the exclusive policy, in every state an endpoint's lock can reach by any sequence of
  registrations, detaches, acquisitions, waits, cancellations, steals, reclaims, releases, renewals
  and purges, the origins that may write are exactly the holder, so there is at most one; and the
  holder is a registered origin that may write at all and is not also waiting.
\<close>

theorem lock_mutual_exclusion:
  assumes "lock_run (lock_new Exclusive) ops l"
  shows "(may_write l i \<longleftrightarrow> holder l = Some i) \<and>
    (holder l = Some h \<longrightarrow> lock_writer l h \<and> h \<notin> set (waiters l))"
proof -
  have inv: "lock_inv l"
    using assms by (rule lock_inv_run) (rule lock_inv_new)
  have arb: "arbitration l = Exclusive"
    using arbitration_run [OF assms] by (simp add: lock_new_def)
  show ?thesis
    using inv may_write_exclusive [OF inv arb] by (auto simp: lock_inv_def)
qed

definition example_ops :: "LockOp list" where
  "example_ops = [OpRegister 1 ''a'' OnDemand, OpRegister 2 ''b'' OnDemand, OpAcquire 1, OpEnqueue 2]"

lemma example_run: "lock_run (lock_new Exclusive) example_ops (fold lock_apply example_ops (lock_new Exclusive))"
  unfolding lock_run_iff by (rule conjI) (code_simp, rule refl)

theorem lock_mutual_exclusion_witness:
  "(may_write (fold lock_apply example_ops (lock_new Exclusive)) 1 \<longleftrightarrow>
     holder (fold lock_apply example_ops (lock_new Exclusive)) = Some 1) \<and>
   holder (fold lock_apply example_ops (lock_new Exclusive)) = Some 1"
proof -
  have "holder (fold lock_apply example_ops (lock_new Exclusive)) = Some 1"
    by code_simp
  then show ?thesis
    using lock_mutual_exclusion [OF example_run, of 1 1] by blast
qed

section \<open>Who gets a free lock\<close>

lemma held_origin_other_than_None:
  assumes "lock_inv l"
  shows "held_origin_other_than l i = None \<longleftrightarrow> (\<forall>j. j \<noteq> i \<longrightarrow> lock_write_mode l j \<noteq> Some Held)"
proof -
  have "btree_ok (origins l)" using assms by (simp add: lock_inv_def)
  then show ?thesis
    by (auto simp: held_origin_other_than_def btree.find_entries_None lock_write_mode_def)
qed

text \<open>
  C11: an acquisition under the exclusive policy is granted exactly when the lock is free, the origin
  may write, and it is either a held origin (which outranks the queue) or an on-demand one that no
  other held origin outranks and that is first in the queue or finds the queue empty. Nobody barges
  past a waiter, and no on-demand origin takes the lock a registered held origin is due.
\<close>

theorem acquire_granted_iff:
  assumes "lock_inv l" and "arbitration l = Exclusive"
  shows "fst (acquire i l) = Granted \<longleftrightarrow>
    holder l = None \<and>
    (lock_write_mode l i = Some Held \<or>
     lock_write_mode l i = Some OnDemand \<and>
     (\<forall>j. j \<noteq> i \<longrightarrow> lock_write_mode l j \<noteq> Some Held) \<and>
     (waiters l = [] \<or> hd (waiters l) = i))"
proof (cases "origin_of l i")
  case None
  then show ?thesis by (simp add: acquire_def lock_write_mode_def)
next
  case (Some o')
  note none = held_origin_other_than_None [OF assms(1), of i]
  show ?thesis
  proof (cases "held_origin_other_than l i")
    case None
    with none have "\<forall>j. j \<noteq> i \<longrightarrow> lock_write_mode l j \<noteq> Some Held" by blast
    with Some None assms(2) show ?thesis
      by (cases "origin_write_mode o'"; cases "holder l"; cases "waiters l")
        (simp_all add: acquire_def lock_write_mode_def)
  next
    case (Some j)
    with none have "\<not> (\<forall>j. j \<noteq> i \<longrightarrow> lock_write_mode l j \<noteq> Some Held)" by auto
    with Some \<open>origin_of l i = Some o'\<close> assms(2) show ?thesis
      by (cases "origin_write_mode o'"; cases "holder l") (simp_all add: acquire_def lock_write_mode_def)
  qed
qed

definition queued_lock :: EndpointLock where
  "queued_lock = fold lock_apply
     [OpRegister 1 ''a'' OnDemand, OpRegister 2 ''b'' OnDemand, OpEnqueue 2] (lock_new Exclusive)"

lemma queued_lock_inv: "lock_inv queued_lock" "arbitration queued_lock = Exclusive"
  by code_simp+

theorem acquire_granted_iff_witness:
  "fst (acquire 2 queued_lock) = Granted \<and> fst (acquire 1 queued_lock) \<noteq> Granted"
proof -
  have "lock_write_mode queued_lock j \<noteq> Some Held" for j
  proof -
    have "held_origin_other_than queued_lock 3 = None" by code_simp
    moreover have "lock_write_mode queued_lock 3 \<noteq> Some Held" by code_simp
    ultimately show ?thesis
      using held_origin_other_than_None [OF queued_lock_inv(1), of 3] by (cases "j = 3") auto
  qed
  moreover have "holder queued_lock = None" "waiters queued_lock = [2]"
      "lock_write_mode queued_lock 2 = Some OnDemand" "lock_write_mode queued_lock 1 = Some OnDemand"
    by code_simp+
  ultimately show ?thesis
    using acquire_granted_iff [OF queued_lock_inv, of 2] acquire_granted_iff [OF queued_lock_inv, of 1]
    by simp
qed

text \<open>
  A free exclusive lock is never stuck: whenever some registered origin may write, some
  acquisition succeeds, and afterwards that origin holds the lock. Held priority and queue fairness
  each deny contenders, but never all of them at once.
\<close>

theorem free_lock_grantable:
  assumes inv: "lock_inv l" and arb: "arbitration l = Exclusive"
    and free: "holder l = None" and writer: "lock_writer l i"
  shows "\<exists>j. fst (acquire j l) = Granted \<and> holder (snd (acquire j l)) = Some j"
proof -
  have "\<exists>j. fst (acquire j l) = Granted"
  proof (cases "\<exists>j. lock_write_mode l j = Some Held")
    case True
    then show ?thesis using acquire_granted_iff [OF inv arb] free by blast
  next
    case False
    show ?thesis
    proof (cases "waiters l")
      case Nil
      have "lock_write_mode l i = Some OnDemand"
        using writer False by (cases "lock_write_mode l i")
          (auto simp: lock_writer_def lock_write_mode_def split: option.splits WriteMode.splits
            intro: WriteMode.exhaust)
      then show ?thesis
        using acquire_granted_iff [OF inv arb, of i] free False Nil by blast
    next
      case (Cons w ws)
      then have "lock_writer l w"
        using inv by (simp add: lock_inv_def)
      then have "lock_write_mode l w = Some OnDemand"
        using False by (cases "lock_write_mode l w")
          (auto simp: lock_writer_def lock_write_mode_def split: option.splits WriteMode.splits
            intro: WriteMode.exhaust)
      then show ?thesis
        using acquire_granted_iff [OF inv arb, of w] free False Cons by auto
    qed
  qed
  then obtain j where "fst (acquire j l) = Granted" ..
  moreover from this have "holder (snd (acquire j l)) = Some j"
    using acquire_effect [of j l] arb by (auto simp: grant_to_def)
  ultimately show ?thesis by blast
qed

theorem free_lock_grantable_witness:
  "\<exists>j. fst (acquire j queued_lock) = Granted \<and> holder (snd (acquire j queued_lock)) = Some j"
  by (rule free_lock_grantable [OF queued_lock_inv, of 1]) code_simp+

section \<open>Service in queue order\<close>

text \<open>Each origin of a list acquires the lock and then releases it; the answers, in order.\<close>

fun serve :: "OriginId list \<Rightarrow> EndpointLock \<Rightarrow> Acquire list \<times> EndpointLock" where
  "serve [] l = ([], l)"
| "serve (i # is) l =
     (let (r, l1) = acquire i l; (_, l2) = lock_release i l1; (rs, l3) = serve is l2
      in (r # rs, l3))"

lemma acquire_front:
  assumes "lock_inv l" "arbitration l = Exclusive" "holder l = None" "waiters l = w # ws"
    and "\<forall>j. lock_write_mode l j \<noteq> Some Held"
  shows "acquire w l = (Granted, grant_to w l)"
    and "waiters (snd (lock_release w (grant_to w l))) = ws"
    and "lock_inv (snd (lock_release w (grant_to w l)))"
    and "\<forall>j. lock_write_mode (snd (lock_release w (grant_to w l))) j \<noteq> Some Held"
proof -
  have writer: "lock_writer l w"
    using assms(1,4) by (simp add: lock_inv_def)
  then obtain o' where o': "origin_of l w = Some o'" "origin_write_mode o' \<noteq> Never"
    by (auto simp: lock_writer_def split: option.splits)
  moreover have "origin_write_mode o' \<noteq> Held"
    using assms(5) o'(1) by (force simp: lock_write_mode_def)
  moreover have "held_origin_other_than l w = None"
    using held_origin_other_than_None [OF assms(1)] assms(5) by blast
  ultimately show "acquire w l = (Granted, grant_to w l)"
    using assms(2-4) by (simp add: acquire_def)
  have "w \<notin> set ws"
    using assms(1,4) by (simp add: lock_inv_def)
  then show "waiters (snd (lock_release w (grant_to w l))) = ws"
    using assms(4) by (auto simp: lock_release_def grant_to_def intro!: filter_True)
  show "lock_inv (snd (lock_release w (grant_to w l)))"
    by (intro lock_inv_release lock_inv_grant_to assms writer)
  show "\<forall>j. lock_write_mode (snd (lock_release w (grant_to w l))) j \<noteq> Some Held"
    using assms(5) by (simp add: lock_write_mode_def lock_release_def grant_to_def)
qed

lemma serve_waiters:
  assumes "waiters l = ws" "lock_inv l" "arbitration l = Exclusive" "holder l = None"
    and "\<forall>j. lock_write_mode l j \<noteq> Some Held"
  shows "fst (serve ws l) = replicate (length ws) Granted \<and>
    waiters (snd (serve ws l)) = [] \<and> holder (snd (serve ws l)) = None"
  using assms
proof (induction ws arbitrary: l)
  case Nil
  then show ?case by simp
next
  case (Cons w ws)
  note step = acquire_front [OF Cons.prems(2-4,1,5)]
  define l' where "l' = snd (lock_release w (grant_to w l))"
  have "holder l' = None" "arbitration l' = Exclusive"
    using Cons.prems(3) by (simp_all add: l'_def lock_release_def grant_to_def)
  then have IH: "fst (serve ws l') = replicate (length ws) Granted \<and>
      waiters (snd (serve ws l')) = [] \<and> holder (snd (serve ws l')) = None"
    using Cons.IH [of l'] step(2-4) unfolding l'_def by blast
  have "serve (w # ws) l = (Granted # fst (serve ws l'), snd (serve ws l'))"
    using step(1) by (simp add: l'_def split_beta)
  then show ?case
    using IH by simp
qed

text \<open>
  With no held origin registered, a free lock serves its whole queue first come, first served:
  when each waiter in turn acquires and releases, every one of them is granted, and at the end the
  queue is empty and the lock free. Waiting never starves anyone.
\<close>

theorem queue_served_in_order:
  assumes "lock_inv l" "arbitration l = Exclusive" "holder l = None"
    and "\<forall>j. lock_write_mode l j \<noteq> Some Held"
  shows "fst (serve (waiters l) l) = replicate (length (waiters l)) Granted \<and>
    waiters (snd (serve (waiters l) l)) = [] \<and> holder (snd (serve (waiters l) l)) = None"
  by (rule serve_waiters [OF refl assms])

theorem queue_served_in_order_witness:
  "fst (serve (waiters queued_lock) queued_lock) = replicate (length (waiters queued_lock)) Granted"
proof -
  have "held_origin_other_than queued_lock 3 = None" "lock_write_mode queued_lock 3 \<noteq> Some Held"
    by code_simp+
  then have "\<forall>j. lock_write_mode queued_lock j \<noteq> Some Held"
    using held_origin_other_than_None [OF queued_lock_inv(1), of 3] by metis
  moreover have "holder queued_lock = None" by code_simp
  ultimately show ?thesis
    using queue_served_in_order [OF queued_lock_inv] by blast
qed

section \<open>Leases\<close>

text \<open>
  An operation that hands the lock out, by what it answers: an acquisition that is granted, a steal that takes, a
  reclaim that succeeds, a renewal, or a held origin registered on a free lock. Under free-for-all nobody holds the lock, and these answers hand out nothing.
\<close>

fun fresh_grant :: "LockOp \<Rightarrow> EndpointLock \<Rightarrow> bool" where
  "fresh_grant (OpAcquire i) l \<longleftrightarrow> arbitration l = Exclusive \<and> fst (acquire i l) = Granted"
| "fresh_grant (OpSteal i) l \<longleftrightarrow> arbitration l = Exclusive \<and> (case fst (steal i l) of Stolen _ \<Rightarrow> True | _ \<Rightarrow> False)"
| "fresh_grant (OpReclaimHeld i) l \<longleftrightarrow> arbitration l = Exclusive \<and> fst (reclaim_held i l)"
| "fresh_grant (OpRenew i) l \<longleftrightarrow> fst (renew i l) \<noteq> None"
| "fresh_grant (OpRegister i lbl mode) l \<longleftrightarrow> mode = Held \<and> arbitration l = Exclusive \<and> holder l = None"
| "fresh_grant _ l \<longleftrightarrow> False"

text \<open>
  A grant to \<open>i\<close> is in force through a run: \<open>i\<close> holds the lock before and after every operation, and no
  operation hands it out again, not even to \<open>i\<close> itself.
\<close>

fun in_force :: "OriginId \<Rightarrow> LockOp list \<Rightarrow> EndpointLock \<Rightarrow> bool" where
  "in_force i [] l \<longleftrightarrow> holder l = Some i"
| "in_force i (opn # ops) l \<longleftrightarrow> holder l = Some i \<and> \<not> fresh_grant opn l \<and> in_force i ops (lock_apply opn l)"

fun fresh_grants :: "LockOp list \<Rightarrow> EndpointLock \<Rightarrow> nat" where
  "fresh_grants [] l = 0"
| "fresh_grants (opn # ops) l = (if fresh_grant opn l then 1 else 0) + fresh_grants ops (lock_apply opn l)"

lemma fresh_generation: "fresh_grant opn l \<Longrightarrow> generation (lock_apply opn l) = generation l + 1"
  by (cases opn) (auto simp: lock_defs split: lock_splits)

lemma denied_same:
  "\<not> fresh_grant (OpAcquire i) l \<Longrightarrow> snd (acquire i l) = l" "\<not> fresh_grant (OpSteal i) l \<Longrightarrow> snd (steal i l) = l"
  "\<not> fresh_grant (OpReclaimHeld i) l \<Longrightarrow> snd (reclaim_held i l) = l" "\<not> fresh_grant (OpRenew i) l \<Longrightarrow> snd (renew i l) = l"
proof -
  show "\<not> fresh_grant (OpAcquire i) l \<Longrightarrow> snd (acquire i l) = l" using acquire_effect [of i l] by auto
  show "\<not> fresh_grant (OpSteal i) l \<Longrightarrow> snd (steal i l) = l"
    by (cases "arbitration l") (auto simp: steal_def Let_def split: option.splits if_splits)
  show "\<not> fresh_grant (OpReclaimHeld i) l \<Longrightarrow> snd (reclaim_held i l) = l"
    by (cases "arbitration l") (auto simp: reclaim_held_def split: option.splits if_splits)
  show "\<not> fresh_grant (OpRenew i) l \<Longrightarrow> snd (renew i l) = l" by (simp add: renew_def split: if_splits)
qed

lemma stale_generation:
  assumes "\<not> fresh_grant opn l"
  shows "generation (lock_apply opn l) = generation l \<and> (holder (lock_apply opn l) = holder l \<or> holder (lock_apply opn l) = None)"
  using assms denied_same
  by (cases opn) (simp_all add: lock_register_def lock_unregister_def enqueue_def dequeue_def lock_release_def Let_def
      del: fresh_grant.simps(1-4) split: option.split)

lemma generation_counts: "generation (fold lock_apply ops l) = generation l + word_of_nat (fresh_grants ops l)"
proof (induction ops arbitrary: l)
  case (Cons opn ops)
  show ?case
    by (cases "fresh_grant opn l") (simp_all add: Cons.IH fresh_generation stale_generation add.assoc)
qed simp

lemma fresh_grants_le: "fresh_grants ops l \<le> length ops"
proof (induction ops arbitrary: l)
  case (Cons opn ops)
  from Cons.IH [of "lock_apply opn l"] show ?case by simp
qed simp

lemma stale_holder:
  "fresh_grants ops l = 0 \<Longrightarrow> holder (fold lock_apply ops l) = holder l \<or> holder (fold lock_apply ops l) = None"
proof (induction ops arbitrary: l)
  case (Cons opn ops)
  then have "\<not> fresh_grant opn l" "fresh_grants ops (lock_apply opn l) = 0" by (simp_all split: if_splits)
  with Cons.IH [of "lock_apply opn l"] stale_generation [of opn l] show ?case by auto
qed simp

lemma in_force_iff:
  "in_force i ops l \<longleftrightarrow> fresh_grants ops l = 0 \<and> holder l = Some i \<and> holder (fold lock_apply ops l) = Some i"
proof (induction ops arbitrary: l)
  case (Cons opn ops)
  from stale_holder [of ops "lock_apply opn l"] Cons.IH [of "lock_apply opn l"] stale_generation [of opn l]
  show ?case by auto
qed auto

lemma generation_tells:
  assumes "length ops < 2 ^ 64"
  shows "generation (fold lock_apply ops l) = generation l \<longleftrightarrow> fresh_grants ops l = 0"
proof -
  have "unat (word_of_nat (fresh_grants ops l) :: u64) = fresh_grants ops l"
    using fresh_grants_le [of ops l] assms by (simp add: unat_of_nat)
  then have "(word_of_nat (fresh_grants ops l) :: u64) = 0 \<longleftrightarrow> fresh_grants ops l = 0"
    by (simp only: unat_eq_0 [symmetric])
  then show ?thesis by (simp only: generation_counts add_cancel_left_right)
qed

section \<open>Steals and snapshots\<close>

text \<open>
  A steal by a registered writer that does not hold the lock hands it the lock, names the ousted
  holder, records both parties' labels, keeps everybody else's place in the queue, and is a fresh
  grant; a steal by the holder changes nothing, not even the generation its lease rests on.
\<close>

theorem steal_bypasses_queue:
  assumes "lock_inv l" "arbitration l = Exclusive" "lock_writer l i"
  shows "holder l = Some i \<and> steal i l = (StealAlreadyHeld, l) \<or>
    holder l \<noteq> Some i \<and>
    fst (steal i l) = Stolen (holder l) \<and>
    holder (snd (steal i l)) = Some i \<and>
    waiters (snd (steal i l)) = filter (\<lambda>w. w \<noteq> i) (waiters l) \<and>
    origins (snd (steal i l)) = origins l \<and>
    generation (snd (steal i l)) = generation l + 1 \<and>
    (\<forall>h. holder l = Some h \<longrightarrow>
       (\<exists>r. stolen (snd (steal i l)) = Some r \<and>
          lock_label l h = Some (steal_from r) \<and> lock_label l i = Some (steal_by r)))"
proof -
  obtain o' where o': "origin_of l i = Some o'" "origin_write_mode o' \<noteq> Never"
    using assms(3) by (auto simp: lock_writer_def split: option.splits)
  show ?thesis
  proof (cases "holder l")
    case None
    with o' assms(2) show ?thesis by (simp add: steal_def)
  next
    case (Some h)
    then obtain oh where "origin_of l h = Some oh"
      using assms(1) by (auto simp: lock_inv_def lock_writer_def split: option.splits)
    with Some o' assms(2) show ?thesis
      by (cases "h = i") (simp_all add: steal_def lock_label_def)
  qed
qed

theorem steal_bypasses_queue_witness:
  "fst (steal 2 (fold lock_apply example_ops (lock_new Exclusive))) = Stolen (Some 1)"
proof -
  let ?l = "fold lock_apply example_ops (lock_new Exclusive)"
  have "lock_inv ?l" "arbitration ?l = Exclusive" "lock_writer ?l 2" "holder ?l = Some 1"
    by code_simp+
  then show ?thesis
    using steal_bypasses_queue [of ?l 2] by auto
qed

text \<open>
  The reported snapshot flags exactly the holder: one origin when the lock is held and none when
  it is free, even when several origins share a label, and it lists every registered origin once.
\<close>

theorem snapshot_flags_holder:
  assumes "lock_inv l"
  shows "length (filter os_holds_lock (snap_origins (lock_snapshot l))) =
      (if holder l = None then 0 else 1) \<and>
    length (snap_origins (lock_snapshot l)) = card (dom (btree_get (origins l)))"
proof -
  have ok: "btree_ok (origins l)" using assms by (simp add: lock_inv_def)
  have flags: "filter os_holds_lock (snap_origins (lock_snapshot l)) =
      map (\<lambda>(i, o'). \<lparr>os_origin = origin_label o', os_write_mode = origin_write_mode o',
        os_holds_lock = (holder l = Some i), os_purged = origin_purged o'\<rparr>)
        (filter (\<lambda>(i, o'). holder l = Some i) (origins l))"
    by (simp add: lock_snapshot_def filter_map comp_def case_prod_beta')
  have one: "length (filter os_holds_lock (snap_origins (lock_snapshot l))) =
      (if holder l = None then 0 else 1)"
  proof (cases "holder l")
    case None
    then show ?thesis by (simp add: flags case_prod_beta')
  next
    case (Some h)
    then have "btree_get (origins l) h \<noteq> None"
      using assms by (auto simp: lock_inv_def lock_writer_def split: option.splits)
    moreover have "filter (\<lambda>(i, o'). holder l = Some i) (origins l) =
        filter (\<lambda>(i, o'). i = h) (origins l)"
      using Some by (auto intro: filter_cong)
    ultimately show ?thesis
      using btree.count_entries [OF ok, of h] Some by (simp add: flags)
  qed
  have "length (origins l) = card (fst ` set (origins l))"
    using distinct_card [OF btree.distinct_entries [OF ok]] by simp
  then show ?thesis
    using one btree.keys_entries [OF ok] by (simp add: lock_snapshot_def)
qed

theorem snapshot_flags_holder_witness:
  "length (filter os_holds_lock (snap_origins (lock_snapshot queued_lock))) = 0"
  using snapshot_flags_holder [OF queued_lock_inv(1)] by (simp add: queued_lock_def lock_new_def
      lock_register_def enqueue_def)

text \<open>
  The gate a boundary polls: afterwards the origin may write exactly when the answer says so, the
  lock changed hands exactly when the grant is reported fresh, a lock somebody else holds is never
  taken, and a held origin always gets a free one back.
\<close>

theorem may_write_reclaiming_gate:
  assumes "lock_inv l"
  shows "lock_inv (snd (may_write_reclaiming i l)) \<and>
    fst (fst (may_write_reclaiming i l)) = may_write (snd (may_write_reclaiming i l)) i \<and>
    (snd (may_write_reclaiming i l) \<noteq> l \<longrightarrow> snd (fst (may_write_reclaiming i l)) \<and> holder l = None) \<and>
    (holder l = None \<and> lock_write_mode l i = Some Held \<longrightarrow> fst (fst (may_write_reclaiming i l)))"
proof (cases "may_write l i")
  case True
  then show ?thesis
    using assms by (auto simp: may_write_reclaiming_def may_write_def lock_write_mode_def split: option.splits)
next
  case False
  have eq: "may_write_reclaiming i l =
      ((fst (reclaim_held i l), fst (reclaim_held i l)), snd (reclaim_held i l))"
    using False by (simp add: may_write_reclaiming_def split_beta)
  have "fst (reclaim_held i l) = may_write (snd (reclaim_held i l)) i"
    using False
    by (cases "origin_of l i"; cases "arbitration l"; cases "holder l")
      (auto simp: reclaim_held_def may_write_def grant_to_def split: WriteMode.splits)
  moreover have "holder l = None \<and> lock_write_mode l i = Some Held \<longrightarrow> fst (reclaim_held i l)"
    by (auto simp: reclaim_held_def lock_write_mode_def)
  moreover have "snd (reclaim_held i l) \<noteq> l \<longrightarrow> fst (reclaim_held i l) \<and> holder l = None"
    by (auto simp: reclaim_held_def split: option.splits)
  ultimately show ?thesis
    using lock_inv_reclaim_held [OF assms] by (simp add: eq)
qed

theorem may_write_reclaiming_gate_witness:
  "fst (fst (may_write_reclaiming 7 (fold lock_apply
      [OpRegister 7 ''mux'' Held, OpRegister 8 ''cli'' OnDemand, OpSteal 8, OpRelease 8]
      (lock_new Exclusive))))"
proof -
  let ?l = "fold lock_apply [OpRegister 7 ''mux'' Held, OpRegister 8 ''cli'' OnDemand, OpSteal 8,
      OpRelease 8] (lock_new Exclusive)"
  have "lock_inv ?l" "holder ?l = None" "lock_write_mode ?l 7 = Some Held"
    by code_simp+
  then show ?thesis
    using may_write_reclaiming_gate [of ?l 7] by blast
qed

lemma dequeue_enqueue:
  assumes "i \<notin> set (waiters l)"
  shows "dequeue i (enqueue i l) = l"
proof -
  have "filter (\<lambda>w. w \<noteq> i) (waiters l) = waiters l"
    using assms by (auto intro: filter_True)
  then show ?thesis
    by (simp add: enqueue_def dequeue_def split: option.split)
qed

end
