(* ===== verification/Find_Cycle.thy ===== *)
theory Find_Cycle
  imports Rust_Map
begin

text \<open>
  The cycle detector of the graph validator (\<open>find_cycle\<close> in \<open>core/src/graph.rs\<close>): an iterative
  depth-first search with three colours over hash maps. It always ends, never indexes a missing key when
  the arcs join known nodes, returns a genuine closed walk when it reports one, and reports one exactly
  when the arcs have a cycle. The order in which a hash map's keys are visited is an argument, \<open>order\<close>.
\<close>

section \<open>The search\<close>

datatype Color = White | Gray | Black

type_synonym 'n adjacency = "('n \<times> 'n list) list"
type_synonym 'n coloring = "('n \<times> Color) list"

text \<open>\<open>map.entry(k).or_default()\<close>, and pushing to the entry's vector.\<close>

definition entry_or_default :: "'n \<Rightarrow> 'n adjacency \<Rightarrow> 'n adjacency" where
  "entry_or_default k adj = (case hash_get adj k of None \<Rightarrow> hash_insert k [] adj | Some _ \<Rightarrow> adj)"

definition entry_push :: "'n \<times> 'n \<Rightarrow> 'n adjacency \<Rightarrow> 'n adjacency" where
  "entry_push arc adj =
     (case arc of (from, to) \<Rightarrow>
        hash_insert from ((case hash_get adj from of None \<Rightarrow> [] | Some v \<Rightarrow> v) @ [to]) adj)"

definition build_adj :: "'n list \<Rightarrow> ('n \<times> 'n) list \<Rightarrow> 'n adjacency" where
  "build_adj names arcs = fold entry_push arcs (fold entry_or_default names [])"

text \<open>
  The loop. The stack's top is the head of the list, the path grows at its end as in the code. A lookup
  of a missing key panics.
\<close>

datatype 'n search = Found "'n list" | Done "'n coloring" | Panic

definition back_edge :: "'n list \<Rightarrow> 'n \<Rightarrow> 'n list" where
  "back_edge path next =
     (let at = (case position (\<lambda>n. n = next) path of Some i \<Rightarrow> i | None \<Rightarrow> 0) in drop at path @ [next])"

function dfs :: "'n adjacency \<Rightarrow> 'n coloring \<Rightarrow> ('n \<times> nat) list \<Rightarrow> 'n list \<Rightarrow> 'n search" where
  "dfs adj color [] path = Done color"
| "dfs adj color ((node, idx) # stack) path =
     (case hash_get adj node of
        None \<Rightarrow> Panic
      | Some neighbors \<Rightarrow>
          if idx < length neighbors then
            (let next = neighbors ! idx
             in case hash_get color next of
                  None \<Rightarrow> Panic
                | Some White \<Rightarrow>
                    dfs adj (hash_insert next Gray color) ((next, 0) # (node, idx + 1) # stack) (path @ [next])
                | Some Gray \<Rightarrow> Found (back_edge path next)
                | Some Black \<Rightarrow> dfs adj color ((node, idx + 1) # stack) path)
          else dfs adj (hash_insert node Black color) stack (butlast path))"
  by pat_completeness auto

definition whites :: "'n coloring \<Rightarrow> 'n set" where
  "whites color = {k. hash_get color k = Some White}"

definition todo :: "'n adjacency \<Rightarrow> ('n \<times> nat) list \<Rightarrow> nat" where
  "todo adj stack =
     sum_list (map (\<lambda>(n, i). Suc (length (case hash_get adj n of None \<Rightarrow> [] | Some ns \<Rightarrow> ns) - i)) stack)"

lemma hash_get_fun: "hash_get m = map_of m"
  by (simp add: hash_get_def fun_eq_iff)

lemma whites_insert: "c \<noteq> White \<Longrightarrow> whites (hash_insert k c color) = whites color - {k}"
  by (auto simp: whites_def hash_get_insert split: if_splits)

lemma finite_whites: "finite (whites color)"
proof -
  have "whites color \<subseteq> dom (map_of color)" by (auto simp: whites_def hash_get_fun)
  then show ?thesis by (rule finite_subset) (rule finite_dom_map_of)
qed

termination dfs
proof (relation "measures [\<lambda>(adj, color, stack, path). card (whites color),
      \<lambda>(adj, color, stack, path). todo adj stack]", goal_cases)
  case 1
  then show ?case by simp
next
  case (2 adj color node idx stack path neighbors x)
  then have "x \<in> whites color" by (auto simp: whites_def)
  then have "card (whites color - {x}) < card (whites color)"
    by (rule card_Diff1_less [OF finite_whites])
  then show ?case by (simp add: whites_insert)
next
  case (3 adj color node idx stack path neighbors x)
  then show ?case by (simp add: todo_def)
next
  case (4 adj color node idx stack path neighbors)
  have "card (whites color - {node}) \<le> card (whites color)" by (simp add: card_mono finite_whites)
  then show ?case by (auto simp: todo_def whites_insert)
qed

declare dfs.simps(2) [simp del]

text \<open>The loop over the keys, and the whole function; the outer option is a panic.\<close>

fun dfs_all :: "'n adjacency \<Rightarrow> 'n coloring \<Rightarrow> 'n list \<Rightarrow> 'n list option option" where
  "dfs_all adj color [] = Some None"
| "dfs_all adj color (start # keys) =
     (case hash_get color start of
        None \<Rightarrow> None
      | Some White \<Rightarrow>
          (case dfs adj (hash_insert start Gray color) [(start, 0)] [start] of
             Found cycle \<Rightarrow> Some (Some cycle)
           | Done color' \<Rightarrow> dfs_all adj color' keys
           | Panic \<Rightarrow> None)
      | Some _ \<Rightarrow> dfs_all adj color keys)"

definition find_cycle :: "('n list \<Rightarrow> 'n list) \<Rightarrow> 'n list \<Rightarrow> ('n \<times> 'n) list \<Rightarrow> 'n list option option" where
  "find_cycle order names arcs =
     (let adj = build_adj names arcs; color = map (\<lambda>(k, _). (k, White)) adj
      in dfs_all adj color (order (map fst adj)))"

section \<open>The adjacency map\<close>

definition succs :: "'n adjacency \<Rightarrow> 'n \<Rightarrow> 'n list" where
  "succs adj n = (case hash_get adj n of None \<Rightarrow> [] | Some ns \<Rightarrow> ns)"

lemma keys_hash_get: "fst ` set m = dom (hash_get m)"
  by (simp add: hash_get_fun dom_map_of_conv_image_fst)

lemma entry_or_default_get:
  "hash_get (entry_or_default k adj) = (if hash_get adj k = None then (hash_get adj)(k \<mapsto> []) else hash_get adj)"
  by (auto simp: entry_or_default_def hash_get_insert split: option.splits)

lemma names_adj:
  "dom (hash_get (fold entry_or_default names adj)) = dom (hash_get adj) \<union> set names \<and>
   succs (fold entry_or_default names adj) = succs adj"
proof (induction names arbitrary: adj)
  case (Cons k names)
  have "succs (entry_or_default k adj) = succs adj"
    by (auto simp: succs_def entry_or_default_get fun_eq_iff split: option.splits)
  moreover have "dom (hash_get (entry_or_default k adj)) = insert k (dom (hash_get adj))"
    by (auto simp: entry_or_default_get)
  ultimately show ?case using Cons.IH by simp
qed simp

lemma arcs_adj:
  "dom (hash_get (fold entry_push arcs adj)) = dom (hash_get adj) \<union> fst ` set arcs \<and>
   succs (fold entry_push arcs adj) n = succs adj n @ map snd (filter (\<lambda>(a, b). a = n) arcs)"
proof (induction arcs arbitrary: adj)
  case (Cons e arcs)
  obtain a b where e: "e = (a, b)" by (cases e)
  have "succs (entry_push (a, b) adj) n = succs adj n @ (if a = n then [b] else [])"
    by (auto simp: succs_def entry_push_def hash_get_insert split: option.splits)
  moreover have "dom (hash_get (entry_push (a, b) adj)) = insert a (dom (hash_get adj))"
    by (auto simp: entry_push_def hash_get_insert)
  ultimately show ?case using Cons.IH e by simp
qed simp

lemma build_adj_ok: "hash_ok (build_adj names arcs)"
proof -
  have "hash_ok adj \<Longrightarrow> hash_ok (fold entry_or_default names adj)" for adj :: "('a \<times> 'a list) list" and names
    by (induction names arbitrary: adj) (auto simp: entry_or_default_def hash_insert_ok split: option.splits)
  moreover have "hash_ok adj \<Longrightarrow> hash_ok (fold entry_push arcs adj)" for adj :: "('a \<times> 'a list) list" and arcs
    by (induction arcs arbitrary: adj) (auto simp: entry_push_def hash_insert_ok)
  ultimately show ?thesis by (simp add: build_adj_def hash_ok_def)
qed

lemma build_adj_keys: "dom (hash_get (build_adj names arcs)) = set names \<union> fst ` set arcs"
  using arcs_adj [of arcs "fold entry_or_default names []"] names_adj [of names "[]"]
  by (simp add: build_adj_def) (simp add: hash_get_fun)

lemma build_adj_succs: "set (succs (build_adj names arcs) n) = {b. (n, b) \<in> set arcs}"
  using arcs_adj [of arcs "fold entry_or_default names []" n] names_adj [of names "[]"]
  by (auto simp: build_adj_def succs_def hash_get_def image_iff split: option.splits)

section \<open>Finished nodes are topologically ordered\<close>

fun topo :: "('n \<Rightarrow> 'n list) \<Rightarrow> 'n list \<Rightarrow> bool" where
  "topo g [] \<longleftrightarrow> True"
| "topo g (n # ns) \<longleftrightarrow> n \<notin> set ns \<and> set (g n) \<subseteq> set ns \<and> topo g ns"

definition arcs_from :: "('n \<Rightarrow> 'n list) \<Rightarrow> 'n set \<Rightarrow> ('n \<times> 'n) set" where
  "arcs_from g S = {(a, b). a \<in> S \<and> b \<in> set (g a)}"

lemma topo_closed: "topo g ns \<Longrightarrow> a \<in> set ns \<Longrightarrow> set (g a) \<subseteq> set ns"
  by (induction ns) auto

lemma topo_trancl:
  assumes "topo g ns" and "n \<notin> set ns" and "(a, b) \<in> (arcs_from g (insert n (set ns)))\<^sup>+" and "a \<in> set ns"
  shows "(a, b) \<in> (arcs_from g (set ns))\<^sup>+ \<and> b \<in> set ns"
  using assms(3,4)
proof (induction rule: trancl_induct)
  case (base b)
  then show ?case using topo_closed [OF assms(1)] assms(2) by (auto simp: arcs_from_def)
next
  case (step b c)
  then have "(b, c) \<in> arcs_from g (set ns)" using assms(2) by (auto simp: arcs_from_def)
  then show ?case using step topo_closed [OF assms(1)] by (auto simp: arcs_from_def intro: trancl_into_trancl)
qed

lemma topo_acyclic: "topo g ns \<Longrightarrow> acyclic (arcs_from g (set ns))"
proof (induction ns)
  case (Cons n ns)
  have "(x, x) \<notin> (arcs_from g (set (n # ns)))\<^sup>+" for x
  proof
    assume cyc: "(x, x) \<in> (arcs_from g (set (n # ns)))\<^sup>+"
    show False
    proof (cases "x \<in> set ns")
      case True
      with topo_trancl [of g ns n x x] cyc Cons show False by (auto simp: acyclic_def)
    next
      case False
      from cyc obtain y where y: "(x, y) \<in> arcs_from g (set (n # ns))" "(y, x) \<in> (arcs_from g (set (n # ns)))\<^sup>*"
        by (meson tranclD)
      with False Cons.prems have "x = n" "y \<in> set ns" by (auto simp: arcs_from_def)
      with y False topo_trancl [of g ns n y x] Cons.prems show False
        by (auto dest: rtranclD)
    qed
  qed
  then show ?case by (simp add: acyclic_def)
qed (simp add: arcs_from_def acyclic_def)

section \<open>The invariant of the search\<close>

text \<open>
  Below the top, an entry's last visited successor is the node above it; every other visited successor is
  finished.
\<close>

fun stack_ok :: "('n \<Rightarrow> 'n list) \<Rightarrow> 'n set \<Rightarrow> 'n option \<Rightarrow> ('n \<times> nat) list \<Rightarrow> bool" where
  "stack_ok g B up [] \<longleftrightarrow> True"
| "stack_ok g B up ((n, i) # r) \<longleftrightarrow>
     i \<le> length (g n) \<and>
     (case up of None \<Rightarrow> set (take i (g n)) \<subseteq> B
      | Some u \<Rightarrow> 0 < i \<and> g n ! (i - 1) = u \<and> set (take (i - 1) (g n)) \<subseteq> B) \<and>
     stack_ok g B (Some n) r"

definition blacks :: "'n coloring \<Rightarrow> 'n set" where
  "blacks color = {k. hash_get color k = Some Black}"

definition search_inv :: "'n adjacency \<Rightarrow> 'n coloring \<Rightarrow> ('n \<times> nat) list \<Rightarrow> 'n list \<Rightarrow> bool" where
  "search_inv adj color stack path \<longleftrightarrow>
     path = rev (map fst stack) \<and> distinct (map fst stack) \<and>
     (\<forall>k. hash_get color k = Some Gray \<longleftrightarrow> k \<in> fst ` set stack) \<and>
     dom (hash_get color) = dom (hash_get adj) \<and>
     stack_ok (succs adj) (blacks color) None stack \<and>
     (\<exists>ord. topo (succs adj) ord \<and> set ord = blacks color)"

definition adj_closed :: "'n adjacency \<Rightarrow> bool" where
  "adj_closed adj \<longleftrightarrow> (\<forall>n. set (succs adj n) \<subseteq> dom (hash_get adj))"

lemma stack_ok_mono: "stack_ok g B up s \<Longrightarrow> B \<subseteq> C \<Longrightarrow> stack_ok g C up s"
proof (induction s arbitrary: up)
  case (Cons e s)
  obtain n i where "e = (n, i)" by (cases e)
  with Cons show ?case by (cases up) (simp_all, blast+)
qed simp

lemma stack_ok_pop:
  assumes "stack_ok g B (Some n) s" and "n \<in> B"
  shows "stack_ok g B None s"
proof (cases s)
  case (Cons e r)
  obtain m j where e: "e = (m, j)" by (cases e)
  with assms Cons have j: "0 < j" "j \<le> length (g m)" "g m ! (j - 1) = n" "set (take (j - 1) (g m)) \<subseteq> B"
    "stack_ok g B (Some m) r" by auto
  have "take j (g m) = take (j - 1) (g m) @ [g m ! (j - 1)]"
    using j(1,2) take_Suc_conv_app_nth [of "j - 1" "g m"] by simp
  with j assms(2) Cons e show ?thesis by simp
qed simp

lemma stack_chain:
  "stack_ok g B up s \<Longrightarrow> successively (\<lambda>b a. b \<in> set (g a)) ((case up of None \<Rightarrow> [] | Some u \<Rightarrow> [u]) @ map fst s)"
proof (induction s arbitrary: up)
  case (Cons e s)
  obtain n i where e: "e = (n, i)" by (cases e)
  with Cons.prems have rest: "successively (\<lambda>b a. b \<in> set (g a)) (n # map fst s)"
    using Cons.IH [of "Some n"] by simp
  show ?case
  proof (cases up)
    case None
    with rest e show ?thesis by simp
  next
    case (Some u)
    with Cons.prems e have "g n ! (i - 1) = u" "i - 1 < length (g n)" by auto
    then have "u \<in> set (g n)" by (metis nth_mem)
    with Some rest e show ?thesis by simp
  qed
qed (simp split: option.splits)

text \<open>A closed walk of a relation.\<close>

definition closed_walk :: "('n \<times> 'n) set \<Rightarrow> 'n list \<Rightarrow> bool" where
  "closed_walk r c \<longleftrightarrow> 2 \<le> length c \<and> hd c = last c \<and> successively (\<lambda>a b. (a, b) \<in> r) c"

definition arc_rel :: "'n adjacency \<Rightarrow> ('n \<times> 'n) set" where
  "arc_rel adj = {(a, b). b \<in> set (succs adj a)}"

lemma back_edge_walk:
  assumes inv: "search_inv adj color ((n, i) # s) path" and "next \<in> set path" and "next \<in> set (succs adj n)"
  shows "closed_walk (arc_rel adj) (back_edge path next)"
proof -
  obtain k where k: "position (\<lambda>n. n = next) path = Some k"
    using assms(2) position_None_iff [of "\<lambda>n. n = next" path] by fastforce
  from position_SomeD [OF k] have len: "k < length path" and hd: "path ! k = next" by auto
  have path: "path = rev (map fst ((n, i) # s))" using inv by (simp add: search_inv_def)
  then have "last path = n" by simp
  have "successively (\<lambda>b a. b \<in> set (succs adj a)) (map fst ((n, i) # s))"
    using inv stack_chain [of "succs adj" "blacks color" None "(n, i) # s"] by (simp add: search_inv_def)
  then have "successively (\<lambda>a b. (a, b) \<in> arc_rel adj) path"
    unfolding path successively_rev by (simp add: arc_rel_def)
  then have "successively (\<lambda>a b. (a, b) \<in> arc_rel adj) (drop k path)"
    by (metis append_take_drop_id successively_append_iff)
  moreover have "last (drop k path) = n" "drop k path \<noteq> []" "hd (drop k path) = next"
    using len hd \<open>last path = n\<close> by (simp_all add: hd_drop_conv_nth)
  ultimately have "successively (\<lambda>a b. (a, b) \<in> arc_rel adj) (drop k path @ [next])"
    using assms(3) by (simp add: successively_append_iff arc_rel_def)
  with \<open>drop k path \<noteq> []\<close> \<open>hd (drop k path) = next\<close> show ?thesis
    using len by (simp add: back_edge_def k closed_walk_def)
qed

lemma search_invD:
  assumes "search_inv adj color ((n, i) # s) path"
  shows "path = rev (map fst s) @ [n]" "distinct (map fst s)" "n \<notin> fst ` set s"
    "\<forall>k. hash_get color k = Some Gray \<longleftrightarrow> k = n \<or> k \<in> fst ` set s"
    "dom (hash_get color) = dom (hash_get adj)" "i \<le> length (succs adj n)"
    "set (take i (succs adj n)) \<subseteq> blacks color" "stack_ok (succs adj) (blacks color) (Some n) s"
    "\<exists>ord. topo (succs adj) ord \<and> set ord = blacks color"
  using assms unfolding search_inv_def by simp_all

lemma inv_push:
  assumes inv: "search_inv adj color ((n, i) # s) path" and "i < length (succs adj n)"
    and "hash_get color (succs adj n ! i) = Some White"
  shows "search_inv adj (hash_insert (succs adj n ! i) Gray color)
     ((succs adj n ! i, 0) # (n, i + 1) # s) (path @ [succs adj n ! i])"
proof -
  let ?m = "succs adj n ! i"
  note D = search_invD [OF inv]
  have "blacks (hash_insert ?m Gray color) = blacks color"
    using assms(3) by (auto simp: blacks_def hash_get_insert)
  moreover have "?m \<noteq> n" "?m \<notin> fst ` set s" using D(4) assms(3) by (metis Color.distinct(1) option.inject)+
  moreover have "insert ?m (dom (hash_get color)) = dom (hash_get color)" using assms(3) by auto
  ultimately show ?thesis
    using D assms(2) unfolding search_inv_def by (simp add: hash_get_insert insert_commute)
qed

lemma inv_skip:
  assumes inv: "search_inv adj color ((n, i) # s) path" and "i < length (succs adj n)"
    and "hash_get color (succs adj n ! i) = Some Black"
  shows "search_inv adj color ((n, i + 1) # s) path"
proof -
  note D = search_invD [OF inv]
  have "succs adj n ! i \<in> blacks color" using assms(3) by (simp add: blacks_def)
  then show ?thesis
    using D assms(2) unfolding search_inv_def by (simp add: take_Suc_conv_app_nth)
qed

lemma inv_pop:
  assumes inv: "search_inv adj color ((n, i) # s) path" and "\<not> i < length (succs adj n)"
  shows "search_inv adj (hash_insert n Black color) s (butlast path)"
proof -
  let ?c = "hash_insert n Black color"
  note D = search_invD [OF inv]
  have B: "blacks ?c = insert n (blacks color)" by (auto simp: blacks_def hash_get_insert)
  have gray: "hash_get color n = Some Gray" using D(4) by blast
  have nB: "n \<notin> blacks color" using gray by (simp add: blacks_def)
  obtain ord where ord: "topo (succs adj) ord" "set ord = blacks color" using D(9) by blast
  have "set (succs adj n) \<subseteq> blacks color" using D(6,7) assms(2) by simp
  then have "topo (succs adj) (n # ord) \<and> set (n # ord) = blacks ?c" using nB ord B by simp
  then have "\<exists>ord. topo (succs adj) ord \<and> set ord = blacks ?c" by blast
  moreover have "stack_ok (succs adj) (blacks ?c) None s"
    using stack_ok_mono [OF D(8), of "blacks ?c"] B by (intro stack_ok_pop) auto
  moreover have "dom (hash_get ?c) = dom (hash_get adj)"
    using gray D(5) by (auto simp: hash_get_insert)
  moreover have "hash_get ?c k = Some Gray \<longleftrightarrow> k \<in> fst ` set s" for k
    using D(3,4) by (simp add: hash_get_insert)
  ultimately show ?thesis using D(1,2) unfolding search_inv_def by simp
qed

lemma dfs_correct:
  assumes "adj_closed adj" and "search_inv adj color stack path"
  shows "case dfs adj color stack path of
      Found c \<Rightarrow> closed_walk (arc_rel adj) c
    | Done color' \<Rightarrow> search_inv adj color' [] []
        \<and> blacks color \<union> set (map fst stack) \<subseteq> blacks color'
    | Panic \<Rightarrow> False"
  using assms
proof (induction adj color stack path rule: dfs.induct)
  case (1 adj color path)
  then show ?case by (auto simp: search_inv_def)
next
  case (2 adj color node idx stack path)
  note D = search_invD [OF "2.prems"(2)]
  have "hash_get color node = Some Gray" using D(4) by blast
  then have "node \<in> dom (hash_get adj)" using D(5) by blast
  then obtain ns where ns: "hash_get adj node = Some ns" by auto
  then have succ: "succs adj node = ns" by (simp add: succs_def)
  show ?case
  proof (cases "idx < length ns")
    case False
    then have "search_inv adj (hash_insert node Black color) stack (butlast path)"
      using inv_pop [OF "2.prems"(2)] succ by simp
    moreover have "dfs adj color ((node, idx) # stack) path = dfs adj (hash_insert node Black color) stack (butlast path)"
      using ns False by (simp add: dfs.simps(2))
    moreover have "blacks (hash_insert node Black color) = insert node (blacks color)"
      by (auto simp: blacks_def hash_get_insert)
    ultimately show ?thesis
      using "2.IH"(3) [OF ns False "2.prems"(1)] by (auto split: search.splits)
  next
    case True
    let ?m = "ns ! idx"
    have "?m \<in> set (succs adj node)" using nth_mem [OF True] succ by simp
    then have "?m \<in> dom (hash_get adj)" using "2.prems"(1) unfolding adj_closed_def by blast
    then have "?m \<in> dom (hash_get color)" using D(5) by simp
    then obtain col where col: "hash_get color ?m = Some col" by auto
    show ?thesis
    proof (cases col)
      case White
      have inv: "search_inv adj (hash_insert ?m Gray color) ((?m, 0) # (node, idx + 1) # stack) (path @ [?m])"
        using inv_push [OF "2.prems"(2)] succ True col White by simp
      moreover have "blacks (hash_insert ?m Gray color) = blacks color"
        using col White by (auto simp: blacks_def hash_get_insert)
      moreover have "dfs adj color ((node, idx) # stack) path =
          dfs adj (hash_insert ?m Gray color) ((?m, 0) # (node, idx + 1) # stack) (path @ [?m])"
        using ns True col White by (simp add: dfs.simps(2) Let_def)
      ultimately show ?thesis
        using "2.IH"(1) [OF ns True refl col White "2.prems"(1)] by (auto split: search.splits)
    next
      case Gray
      then have "?m \<in> set path" using D(1,4) col by auto
      with back_edge_walk [OF "2.prems"(2)] succ nth_mem [OF True] show ?thesis
        using ns True col Gray by (simp add: dfs.simps(2) Let_def)
    next
      case Black
      have "search_inv adj color ((node, idx + 1) # stack) path"
        using inv_skip [OF "2.prems"(2)] succ True col Black by simp
      moreover have "dfs adj color ((node, idx) # stack) path = dfs adj color ((node, idx + 1) # stack) path"
        using ns True col Black by (subst dfs.simps) (simp add: Let_def)
      ultimately show ?thesis
        using "2.IH"(2) [OF ns True refl col Black "2.prems"(1)] by (auto split: search.splits)
    qed
  qed
qed


section \<open>The whole search\<close>

lemma inv_start:
  assumes "search_inv adj color [] []" and "hash_get color start = Some White"
  shows "search_inv adj (hash_insert start Gray color) [(start, 0)] [start]"
proof -
  have "blacks (hash_insert start Gray color) = blacks color"
    using assms(2) by (auto simp: blacks_def hash_get_insert)
  moreover have "insert start (dom (hash_get color)) = dom (hash_get color)" using assms(2) by auto
  ultimately show ?thesis using assms unfolding search_inv_def by (simp add: hash_get_insert)
qed

lemma dfs_all_correct:
  assumes "adj_closed adj" and "search_inv adj color [] []" and "set keys \<subseteq> dom (hash_get adj)"
  shows "case dfs_all adj color keys of
      None \<Rightarrow> False
    | Some (Some c) \<Rightarrow> closed_walk (arc_rel adj) c
    | Some None \<Rightarrow> \<exists>color'. search_inv adj color' [] [] \<and> blacks color \<union> set keys \<subseteq> blacks color'"
  using assms(2,3)
proof (induction keys arbitrary: color)
  case Nil
  then show ?case by auto
next
  case (Cons start keys)
  then have "start \<in> dom (hash_get color)" by (auto simp: search_inv_def)
  then obtain col where col: "hash_get color start = Some col" by auto
  show ?case
  proof (cases col)
    case White
    with col have c: "hash_get color start = Some White" by simp
    let ?d = "dfs adj (hash_insert start Gray color) [(start, 0)] [start]"
    have B: "blacks (hash_insert start Gray color) = blacks color"
      using c by (auto simp: blacks_def hash_get_insert)
    have dfs: "case ?d of Found c \<Rightarrow> closed_walk (arc_rel adj) c
      | Done color' \<Rightarrow> search_inv adj color' [] [] \<and> insert start (blacks color) \<subseteq> blacks color' | Panic \<Rightarrow> False"
      using dfs_correct [OF assms(1) inv_start [OF Cons.prems(1) c]] B by (auto split: search.splits)
    show ?thesis
    proof (cases ?d)
      case (Done color')
      with dfs have d: "search_inv adj color' [] []" "insert start (blacks color) \<subseteq> blacks color'" by auto
      from Cons.IH [OF d(1)] Cons.prems(2) d(2) c Done show ?thesis
        by (auto split: option.splits)
    qed (use dfs c in auto)
  next
    case Gray
    with col Cons.prems(1) show ?thesis by (simp add: search_inv_def)
  next
    case Black
    with col have "start \<in> blacks color" by (simp add: blacks_def)
    with Cons.IH [OF Cons.prems(1)] Cons.prems(2) Black col show ?thesis by (auto split: option.splits)
  qed
qed

lemma white_coloring:
  "hash_get (map (\<lambda>(k, _). (k, White)) adj) k = (if k \<in> dom (hash_get adj) then Some White else None)"
  by (induction adj) (auto simp: hash_get_fun)

lemma closed_walk_cycle:
  assumes "closed_walk r c"
  shows "\<not> acyclic r"
proof -
  have path: "successively (\<lambda>a b. (a, b) \<in> r) (x # xs) \<Longrightarrow> xs \<noteq> [] \<Longrightarrow> (x, last xs) \<in> r\<^sup>+" for x xs
  proof (induction xs arbitrary: x)
    case (Cons y ys)
    then show ?case by (cases ys) (auto intro: trancl_into_trancl2)
  qed simp
  obtain x y ys where c: "c = x # y # ys"
    using assms by (cases c; cases "tl c") (auto simp: closed_walk_def)
  then have "(x, last (y # ys)) \<in> r\<^sup>+" "x = last (y # ys)"
    using assms path [of x "y # ys"] by (auto simp: closed_walk_def)
  then show ?thesis by (auto simp: acyclic_def)
qed

lemma find_cycle_result:
  assumes "set arcs \<subseteq> set names \<times> set names" and "\<And>ks. set (order ks) = set ks"
  shows "(\<exists>c. find_cycle order names arcs = Some (Some c) \<and> closed_walk (set arcs) c \<and> \<not> acyclic (set arcs)) \<or>
    (find_cycle order names arcs = Some None \<and> acyclic (set arcs))"
proof -
  let ?adj = "build_adj names arcs"
  let ?color = "map (\<lambda>(k, _). (k, White)) ?adj"
  have keys: "dom (hash_get ?adj) = set names" using build_adj_keys [of names arcs] assms(1) by auto
  have rel: "arc_rel ?adj = set arcs" by (auto simp: arc_rel_def build_adj_succs)
  have closed: "adj_closed ?adj" using assms(1) keys by (auto simp: adj_closed_def build_adj_succs)
  have color: "hash_get ?color k = (if k \<in> dom (hash_get ?adj) then Some White else None)" for k
    by (rule white_coloring)
  then have "blacks ?color = {}" by (auto simp: blacks_def)
  then have inv: "search_inv ?adj ?color [] []"
    using color by (auto simp: search_inv_def split: if_splits intro: exI [of _ "[]"])
  have all: "set (order (map fst ?adj)) = dom (hash_get ?adj)"
    using assms(2) by (simp add: keys_hash_get)
  from dfs_all_correct [OF closed inv, of "order (map fst ?adj)"] all
  consider c where "find_cycle order names arcs = Some (Some c)" "closed_walk (arc_rel ?adj) c"
    | color' where "find_cycle order names arcs = Some None" "search_inv ?adj color' [] []"
        "dom (hash_get ?adj) \<subseteq> blacks color'"
    by (auto simp: find_cycle_def Let_def split: option.splits)
  then show ?thesis
  proof cases
    case 1
    then show ?thesis using closed_walk_cycle [of "set arcs" c] rel by simp
  next
    case 2
    then obtain ord where ord: "topo (succs ?adj) ord" "set ord = blacks color'"
      by (auto simp: search_inv_def)
    then have "acyclic (arcs_from (succs ?adj) (blacks color'))" using topo_acyclic by metis
    moreover have "set arcs \<subseteq> arcs_from (succs ?adj) (blacks color')"
      using 2(3) keys assms(1) by (auto simp: arcs_from_def build_adj_succs)
    ultimately show ?thesis using 2 acyclic_subset by blast
  qed
qed

text \<open>
  C14: the detector is total, sound and complete. When the arcs join known nodes, then whatever order
  the hash map's keys are visited in, \<open>find_cycle\<close> ends without a failed lookup; a list it returns is a
  closed walk along the arcs, its first node repeated at its end; and it returns none exactly when
  the arcs are acyclic.
\<close>

theorem find_cycle_correct:
  assumes "set arcs \<subseteq> set names \<times> set names" and "\<And>ks. set (order ks) = set ks"
  shows "find_cycle order names arcs \<noteq> None \<and>
    (\<forall>c. find_cycle order names arcs = Some (Some c) \<longrightarrow> closed_walk (set arcs) c) \<and>
    (find_cycle order names arcs = Some None \<longleftrightarrow> acyclic (set arcs))"
  using find_cycle_result [OF assms] by auto

theorem find_cycle_correct_witness:
  "find_cycle rev [1, 2, 3 :: nat] [(1, 2), (2, 3), (3, 2)] = Some (Some [3, 2, 3]) \<and>
   closed_walk (set [(1, 2), (2, 3), (3, 2 :: nat)]) [3, 2, 3]"
proof -
  have run: "find_cycle rev [1, 2, 3 :: nat] [(1, 2), (2, 3), (3, 2)] = Some (Some [3, 2, 3])"
    by code_simp
  have "set [(1, 2), (2, 3), (3, 2)] \<subseteq> set [1, 2, 3 :: nat] \<times> set [1, 2, 3]" by simp
  from find_cycle_correct [OF this, of rev] run show ?thesis by (metis set_rev)
qed

end
