(* ===== verification/Graph.thy ===== *)
theory Graph
  imports Graph_Types Find_Cycle
begin

text \<open>
  The structural validator of the graph (\<open>GraphModel\<close> in \<open>core/src/graph.rs\<close>): legal names, edges that
  join known endpoints of opposite orientation, at most one edge per target-facing endpoint, no
  cycle. The orders in which the validator's two local hash maps are visited are arguments of \<open>validate\<close>;
  a panic inside \<open>find_cycle\<close> would be the result \<open>None\<close>.
\<close>

section \<open>Errors\<close>

datatype ValidationError =
    InvalidName string "string option"
  | EmptyName string
  | BlankName string "string option"
  | NameTooLong string "string option" nat nat
  | NumericOutOfRange string string nat nat nat
  | SerialFacesTarget string
  | MultiplexedEdgeNotHeld nat EndpointAddr EndpointAddr WriteMode
  | ConflictingHeldEdges EndpointAddr EndpointAddr EndpointAddr
  | EmptyConfig
  | DuplicateEndpoint string string
  | DuplicateNodeName string
  | UnknownNode nat string
  | UnknownEndpoint nat EndpointAddr
  | SameFacingEdge nat Facing
  | TargetEndpointOversubscribed EndpointAddr nat
  | Cycle "string list"
  | NonLoopbackBind string string
  | EmptyLeg string
  | ZeroHostwardBuffer string
  | UnknownMapping string string

datatype ResolveErr = Node_unknown | Endpoint_unknown

definition reference_error :: "nat \<Rightarrow> EndpointAddr \<Rightarrow> ResolveErr \<Rightarrow> ValidationError" where
  "reference_error edge addr e =
     (case e of Node_unknown \<Rightarrow> UnknownNode edge (addr_node addr) | Endpoint_unknown \<Rightarrow> UnknownEndpoint edge addr)"

section \<open>The model\<close>

record GraphModel =
  shapes :: "(string \<times> NodeShape) list"
  edges :: "EdgeSpec list"

definition graph_new :: GraphModel where
  "graph_new = \<lparr>shapes = [], edges = []\<rparr>"

definition add_node :: "GraphModel \<Rightarrow> string \<Rightarrow> NodeShape \<Rightarrow> GraphModel" where
  "add_node g name shape = g\<lparr>shapes := hash_insert name shape (shapes g)\<rparr>"

definition add_edge :: "GraphModel \<Rightarrow> EdgeSpec \<Rightarrow> GraphModel" where
  "add_edge g edge = g\<lparr>edges := edges g @ [edge]\<rparr>"

definition graph_resolve :: "(string \<times> NodeShape) list \<Rightarrow> EndpointAddr \<Rightarrow> (ResolveErr, EndpointSpec) result" where
  "graph_resolve sh addr =
     (case hash_get sh (addr_node addr) of
        None \<Rightarrow> Err Node_unknown
      | Some shape \<Rightarrow>
          (case shape_endpoint shape (addr_endpoint addr) of
             None \<Rightarrow> Err Endpoint_unknown
           | Some ep \<Rightarrow> Ok ep))"

text \<open>
  \<open>s.trim().is_empty()\<close>: only characters with the Unicode property \<open>White_Space\<close>, as their UTF-8 bytes.
\<close>

fun blank_bytes :: "byte list \<Rightarrow> bool" where
  "blank_bytes [] = True"
| "blank_bytes (a # r) =
     (if 0x09 \<le> a \<and> a \<le> 0x0D \<or> a = 0x20 then blank_bytes r
      else case r of
        [] \<Rightarrow> False
      | b # r2 \<Rightarrow>
          if a = 0xC2 \<and> (b = 0x85 \<or> b = 0xA0) then blank_bytes r2
          else (case r2 of
             [] \<Rightarrow> False
           | c # r3 \<Rightarrow>
               if a = 0xE1 \<and> b = 0x9A \<and> c = 0x80
                 \<or> a = 0xE2 \<and> b = 0x80 \<and> (0x80 \<le> c \<and> c \<le> 0x8A \<or> c = 0xA8 \<or> c = 0xA9 \<or> c = 0xAF)
                 \<or> a = 0xE2 \<and> b = 0x81 \<and> c = 0x9F
                 \<or> a = 0xE3 \<and> b = 0x80 \<and> c = 0x80
               then blank_bytes r3 else False))"

definition trim_is_empty :: "string \<Rightarrow> bool" where
  "trim_is_empty s = blank_bytes (as_bytes s)"

section \<open>Validation\<close>

fun endpoint_errors :: "string \<Rightarrow> string set \<Rightarrow> EndpointSpec list \<Rightarrow> ValidationError list" where
  "endpoint_errors node seen [] = []"
| "endpoint_errors node seen (ep # eps) =
     (if CHR ''/'' \<in> set (ep_name ep) then [InvalidName node (Some (ep_name ep))] else []) @
     (if ep_name ep \<noteq> [] \<and> trim_is_empty (ep_name ep) then [BlankName node (Some (ep_name ep))] else []) @
     (if length (ep_name ep) > MAX_NAME_LEN
      then [NameTooLong node (Some (ep_name ep)) (length (ep_name ep)) MAX_NAME_LEN] else []) @
     (if ep_name ep \<in> seen then [DuplicateEndpoint node (ep_name ep)] else []) @
     endpoint_errors node (insert (ep_name ep) seen) eps"

definition node_errors :: "string \<times> NodeShape \<Rightarrow> ValidationError list" where
  "node_errors ns =
     (case ns of (node, shape) \<Rightarrow>
        (if node = [] then [EmptyName node] else []) @
        (if node \<noteq> [] \<and> trim_is_empty node then [BlankName node None] else []) @
        (if CHR ''/'' \<in> set node then [InvalidName node None] else []) @
        (if length node > MAX_NAME_LEN then [NameTooLong node None (length node) MAX_NAME_LEN] else []) @
        endpoint_errors node {} (endpoints shape))"

text \<open>The edge loop's state: errors so far, the tally of target-facing endpoints, the arcs.\<close>

type_synonym edge_state = "ValidationError list \<times> (EndpointAddr \<times> nat) list \<times> (string \<times> string) list"

definition edge_step :: "(string \<times> NodeShape) list \<Rightarrow> nat \<times> EdgeSpec \<Rightarrow> edge_state \<Rightarrow> edge_state" where
  "edge_step sh ie st =
     (case ie of (i, edge) \<Rightarrow> case st of (errors, counts, arcs) \<Rightarrow>
        (case (graph_resolve sh (edge_a edge), graph_resolve sh (edge_b edge)) of
           (Inr a, Inr b) \<Rightarrow>
             (if ep_facing a = ep_facing b then (errors @ [SameFacingEdge i (ep_facing a)], counts, arcs)
              else
                (let (host_addr, target_addr) =
                       (if ep_facing a = Host then (edge_a edge, edge_b edge) else (edge_b edge, edge_a edge));
                     old = (case hash_get counts target_addr of None \<Rightarrow> 0 | Some n \<Rightarrow> n)
                 in (errors, hash_insert target_addr (old + 1) counts,
                     arcs @ [(addr_node host_addr, addr_node target_addr)])))
         | (Inl e, _) \<Rightarrow> (errors @ [reference_error i (edge_a edge) e], counts, arcs)
         | (_, Inl e) \<Rightarrow> (errors @ [reference_error i (edge_b edge) e], counts, arcs)))"

definition validate ::
  "((EndpointAddr \<times> nat) list \<Rightarrow> (EndpointAddr \<times> nat) list) \<Rightarrow> (string list \<Rightarrow> string list) \<Rightarrow>
     GraphModel \<Rightarrow> ValidationError list option" where
  "validate count_order key_order g =
     (let errors = concat (map node_errors (shapes g));
          (errors, counts, arcs) = fold (edge_step (shapes g)) (enumerate 0 (edges g)) (errors, [], []);
          errors = errors @ concat (map (\<lambda>(addr, count).
                     if count > 1 then [TargetEndpointOversubscribed addr count] else []) (count_order counts))
      in case find_cycle key_order (map fst (shapes g)) arcs of
           None \<Rightarrow> None
         | Some None \<Rightarrow> Some errors
         | Some (Some cycle) \<Rightarrow> Some (errors @ [Cycle cycle]))"

definition check ::
  "((EndpointAddr \<times> nat) list \<Rightarrow> (EndpointAddr \<times> nat) list) \<Rightarrow> (string list \<Rightarrow> string list) \<Rightarrow>
     GraphModel \<Rightarrow> (ValidationError list, unit) result option" where
  "check count_order key_order g =
     map_option (\<lambda>errors. if errors = [] then Ok () else Err errors) (validate count_order key_order g)"

section \<open>The rules\<close>

definition legal_name :: "string \<Rightarrow> bool" where
  "legal_name s \<longleftrightarrow> CHR ''/'' \<notin> set s \<and> (s = [] \<or> \<not> trim_is_empty s) \<and> length s \<le> MAX_NAME_LEN"

definition legal_node :: "string \<times> NodeShape \<Rightarrow> bool" where
  "legal_node ns \<longleftrightarrow>
     fst ns \<noteq> [] \<and> legal_name (fst ns) \<and> (\<forall>ep \<in> set (endpoints (snd ns)). legal_name (ep_name ep)) \<and>
     distinct (map ep_name (endpoints (snd ns)))"

text \<open>An edge that joins a host-facing to a target-facing endpoint, as that pair.\<close>

definition oriented :: "(string \<times> NodeShape) list \<Rightarrow> EdgeSpec \<Rightarrow> (EndpointAddr \<times> EndpointAddr) option" where
  "oriented sh e =
     (case (graph_resolve sh (edge_a e), graph_resolve sh (edge_b e)) of
        (Inr a, Inr b) \<Rightarrow>
          (case (ep_facing a, ep_facing b) of
             (Host, Target) \<Rightarrow> Some (edge_a e, edge_b e)
           | (Target, Host) \<Rightarrow> Some (edge_b e, edge_a e)
           | _ \<Rightarrow> None)
      | _ \<Rightarrow> None)"

definition edge_arc :: "EndpointAddr \<times> EndpointAddr \<Rightarrow> string \<times> string" where
  "edge_arc ht = (addr_node (fst ht), addr_node (snd ht))"

definition oriented_edges :: "GraphModel \<Rightarrow> (EndpointAddr \<times> EndpointAddr) list" where
  "oriented_edges g = List.map_filter (oriented (shapes g)) (edges g)"

text \<open>The three structural rules and legal names.\<close>

definition graph_valid :: "GraphModel \<Rightarrow> bool" where
  "graph_valid g \<longleftrightarrow>
     (\<forall>ns \<in> set (shapes g). legal_node ns) \<and>
     (\<forall>e \<in> set (edges g). oriented (shapes g) e \<noteq> None) \<and>
     distinct (map snd (oriented_edges g)) \<and>
     acyclic (edge_arc ` set (oriented_edges g))"

section \<open>The validator decides the rules\<close>

lemma endpoint_errors_Nil:
  "endpoint_errors node seen eps = [] \<longleftrightarrow>
     (\<forall>ep \<in> set eps. legal_name (ep_name ep)) \<and> distinct (map ep_name eps) \<and> ep_name ` set eps \<inter> seen = {}"
  by (induction eps arbitrary: seen) (auto simp: legal_name_def)

lemma node_errors_Nil: "node_errors ns = [] \<longleftrightarrow> legal_node ns"
  by (cases ns) (auto simp: node_errors_def endpoint_errors_Nil legal_node_def legal_name_def)

definition tally :: "(EndpointAddr \<times> nat) list \<Rightarrow> EndpointAddr \<Rightarrow> nat" where
  "tally counts t = (case hash_get counts t of None \<Rightarrow> 0 | Some n \<Rightarrow> n)"

lemma edge_step_oriented:
  "oriented sh e = Some (h, t) \<Longrightarrow> edge_step sh (i, e) (errs, counts, arcs) =
     (errs, hash_insert t (tally counts t + 1) counts, arcs @ [edge_arc (h, t)])"
  by (auto simp: oriented_def edge_step_def tally_def edge_arc_def Let_def
      split: sum.splits Facing.splits option.splits)

lemma edge_step_bad:
  "oriented sh e = None \<Longrightarrow> \<exists>err. edge_step sh (i, e) (errs, counts, arcs) = (errs @ [err], counts, arcs)"
  by (auto simp: oriented_def edge_step_def split: sum.splits Facing.splits)

lemma edge_loop:
  assumes "fold (edge_step sh) (enumerate i es) (errs, counts, arcs) = (errs', counts', arcs')" and "hash_ok counts"
  shows "(errs' = [] \<longleftrightarrow> errs = [] \<and> (\<forall>e \<in> set es. oriented sh e \<noteq> None)) \<and>
    arcs' = arcs @ map edge_arc (List.map_filter (oriented sh) es) \<and> hash_ok counts' \<and>
    (\<forall>t. tally counts' t = tally counts t + count_list (map snd (List.map_filter (oriented sh) es)) t)"
  using assms
proof (induction es arbitrary: i errs counts arcs)
  case Nil
  then show ?case by (simp add: map_filter_simps)
next
  case (Cons e es)
  show ?case
  proof (cases "oriented sh e")
    case None
    then obtain err where err: "edge_step sh (i, e) (errs, counts, arcs) = (errs @ [err], counts, arcs)"
      using edge_step_bad by blast
    then have "fold (edge_step sh) (enumerate (Suc i) es) (errs @ [err], counts, arcs) = (errs', counts', arcs')"
      using Cons.prems(1) by simp
    from Cons.IH [OF this Cons.prems(2)] None show ?thesis by (simp add: map_filter_simps)
  next
    case (Some p)
    obtain h t where p: "p = (h, t)" by (cases p)
    let ?c = "hash_insert t (tally counts t + 1) counts"
    have "edge_step sh (i, e) (errs, counts, arcs) = (errs, ?c, arcs @ [edge_arc (h, t)])"
      using Some p edge_step_oriented by simp
    then have rec: "fold (edge_step sh) (enumerate (Suc i) es) (errs, ?c, arcs @ [edge_arc (h, t)]) = (errs', counts', arcs')"
      using Cons.prems(1) by simp
    have ok: "hash_ok ?c" using Cons.prems(2) by (rule hash_insert_ok)
    have "tally ?c u = tally counts u + (if u = t then 1 else 0)" for u
      by (simp add: tally_def hash_get_insert)
    with Cons.IH [OF rec ok] Some p show ?thesis by (auto simp: map_filter_simps)
  qed
qed

lemma distinct_count_list: "distinct xs \<longleftrightarrow> (\<forall>x. count_list xs x \<le> 1)"
proof (induction xs)
  case (Cons a xs)
  have "count_list (a # xs) x \<le> 1 \<longleftrightarrow> (if x = a then a \<notin> set xs else count_list xs x \<le> 1)" for x
    by (auto simp: count_list_0_iff)
  moreover have "a \<notin> set xs \<Longrightarrow> count_list xs a \<le> 1" by (simp add: count_list_0_iff)
  ultimately show ?case using Cons by (auto split: if_splits)
qed simp

lemma tally_entries:
  assumes "hash_ok counts" and "set (count_order counts) = set counts"
  shows "concat (map (\<lambda>(addr, count). if count > 1 then [TargetEndpointOversubscribed addr count] else [])
      (count_order counts)) = [] \<longleftrightarrow> (\<forall>t. tally counts t \<le> 1)"
proof -
  have "(\<forall>a n. (a, n) \<in> set counts \<longrightarrow> n \<le> 1) \<longleftrightarrow> (\<forall>t. tally counts t \<le> 1)"
    using hash.entries_get [OF assms(1)] by (auto simp: tally_def split: option.splits)
  with assms(2) show ?thesis by (fastforce simp: not_less)
qed

lemma oriented_known:
  "oriented sh e = Some (h, t) \<Longrightarrow> edge_arc (h, t) \<in> fst ` set sh \<times> fst ` set sh"
  by (auto simp: oriented_def graph_resolve_def edge_arc_def keys_hash_get
      split: sum.splits Facing.splits option.splits)

definition orders_ok ::
  "((EndpointAddr \<times> nat) list \<Rightarrow> (EndpointAddr \<times> nat) list) \<Rightarrow> (string list \<Rightarrow> string list) \<Rightarrow> bool" where
  "orders_ok count_order key_order \<longleftrightarrow>
     (\<forall>cs. set (count_order cs) = set cs) \<and> (\<forall>ks. set (key_order ks) = set ks)"

text \<open>What a run of the validator consists of.\<close>

lemma validate_run:
  assumes "orders_ok count_order key_order"
  obtains errs counts arcs res where
    "fold (edge_step (shapes g)) (enumerate 0 (edges g)) (concat (map node_errors (shapes g)), [], []) = (errs, counts, arcs)"
    "errs = [] \<longleftrightarrow> (\<forall>ns \<in> set (shapes g). legal_node ns) \<and> (\<forall>e \<in> set (edges g). oriented (shapes g) e \<noteq> None)"
    "arcs = map edge_arc (oriented_edges g)" "hash_ok counts"
    "\<forall>t. tally counts t = count_list (map snd (oriented_edges g)) t"
    "find_cycle key_order (map fst (shapes g)) arcs = Some res"
    "res = None \<longleftrightarrow> acyclic (set arcs)" "\<forall>c. res = Some c \<longrightarrow> closed_walk (set arcs) c"
proof -
  obtain errs counts arcs where run:
    "fold (edge_step (shapes g)) (enumerate 0 (edges g)) (concat (map node_errors (shapes g)), [], []) = (errs, counts, arcs)"
    by (metis prod_cases3)
  have "hash_ok ([] :: (EndpointAddr \<times> nat) list)" by (simp add: hash_ok_def)
  note loop = edge_loop [OF run this]
  have nodes: "concat (map node_errors (shapes g)) = [] \<longleftrightarrow> (\<forall>ns \<in> set (shapes g). legal_node ns)"
    by (auto simp: node_errors_Nil)
  have arcs: "arcs = map edge_arc (oriented_edges g)" using loop by (simp add: oriented_edges_def)
  have "p \<in> fst ` set (shapes g) \<times> fst ` set (shapes g)" if p: "p \<in> set arcs" for p
  proof -
    from p arcs obtain h t e where "p = edge_arc (h, t)" "oriented (shapes g) e = Some (h, t)"
      by (auto simp: oriented_edges_def map_filter_def)
    then show ?thesis using oriented_known by simp
  qed
  then have sub: "set arcs \<subseteq> set (map fst (shapes g)) \<times> set (map fst (shapes g))" by auto
  have ord: "set (key_order ks) = set ks" for ks using assms by (simp add: orders_ok_def)
  obtain res where res: "find_cycle key_order (map fst (shapes g)) arcs = Some res"
    "res = None \<longleftrightarrow> acyclic (set arcs)" "\<forall>c. res = Some c \<longrightarrow> closed_walk (set arcs) c"
    using find_cycle_result [OF sub, of key_order] ord by auto
  have "tally [] t = 0" for t by (simp add: tally_def hash_get_def)
  with loop nodes arcs res run show ?thesis
    by (intro that [of errs counts arcs res]) (auto simp: oriented_edges_def)
qed

lemma validate_rules:
  assumes "orders_ok count_order key_order"
  shows "validate count_order key_order g \<noteq> None \<and>
     (validate count_order key_order g = Some [] \<longleftrightarrow> graph_valid g)"
proof -
  obtain errs counts arcs res where run:
    "fold (edge_step (shapes g)) (enumerate 0 (edges g)) (concat (map node_errors (shapes g)), [], []) = (errs, counts, arcs)"
    "errs = [] \<longleftrightarrow> (\<forall>ns \<in> set (shapes g). legal_node ns) \<and> (\<forall>e \<in> set (edges g). oriented (shapes g) e \<noteq> None)"
    "arcs = map edge_arc (oriented_edges g)" "hash_ok counts"
    "\<forall>t. tally counts t = count_list (map snd (oriented_edges g)) t"
    "find_cycle key_order (map fst (shapes g)) arcs = Some res"
    "res = None \<longleftrightarrow> acyclic (set arcs)"
    using validate_run [OF assms, of g] by metis
  have over: "concat (map (\<lambda>(addr, count). if count > 1 then [TargetEndpointOversubscribed addr count] else [])
      (count_order counts)) = [] \<longleftrightarrow> distinct (map snd (oriented_edges g))"
    using tally_entries [OF run(4), of count_order] assms run(5)
    by (simp add: orders_ok_def distinct_count_list)
  have valid: "graph_valid g \<longleftrightarrow> errs = [] \<and> distinct (map snd (oriented_edges g)) \<and> res = None"
    using run(2,3,7) by (auto simp: graph_valid_def)
  show ?thesis
    using run(1,6) over valid by (cases res) (simp_all add: validate_def)
qed

text \<open>
  The validator decides the structural rules. Whatever order its hash maps are visited in, it
  never panics, and it returns no error exactly for the graphs whose names are legal and unique per
  node, whose edges join a host-facing to a target-facing endpoint that exist, in which no
  target-facing endpoint has two edges, and whose arcs are acyclic.
\<close>

theorem validate_decides_rules:
  assumes "orders_ok count_order key_order"
  shows "validate count_order key_order g \<noteq> None \<and>
     (validate count_order key_order g = Some [] \<longleftrightarrow> graph_valid g)"
  by (rule validate_rules [OF assms])

theorem validate_decides_rules_witness:
  "graph_valid \<lparr>shapes = [(''port'', single Host), (''pty'', single Target)],
     edges = [\<lparr>edge_a = EndpointAddr_node ''port'', edge_b = EndpointAddr_node ''pty'', edge_write_mode = OnDemand\<rparr>]\<rparr>"
proof -
  let ?g = "\<lparr>shapes = [(''port'', single Host), (''pty'', single Target)],
     edges = [\<lparr>edge_a = EndpointAddr_node ''port'', edge_b = EndpointAddr_node ''pty'', edge_write_mode = OnDemand\<rparr>]\<rparr>"
  have "orders_ok rev rev" by (simp add: orders_ok_def)
  moreover have "validate rev rev ?g = Some []" by code_simp
  ultimately show ?thesis using validate_decides_rules [of rev rev ?g] by blast
qed

definition edge_error :: "ValidationError \<Rightarrow> bool" where
  "edge_error err = (case err of Cycle _ \<Rightarrow> False | TargetEndpointOversubscribed _ _ \<Rightarrow> False | _ \<Rightarrow> True)"

lemma edge_step_errors:
  "err \<in> set (fst (edge_step sh (i, e) st)) \<Longrightarrow> err \<in> set (fst st) \<or> edge_error err"
  by (auto simp: edge_step_def reference_error_def edge_error_def Let_def
      split: prod.splits sum.splits if_splits ResolveErr.splits)

lemma loop_errors:
  "\<forall>err \<in> set (fst st). edge_error err \<Longrightarrow> \<forall>err \<in> set (fst (fold (edge_step sh) ies st)). edge_error err"
proof (induction ies arbitrary: st)
  case (Cons ie ies)
  obtain i e where ie: "ie = (i, e)" by (cases ie)
  have "\<forall>err \<in> set (fst (edge_step sh ie st)). edge_error err"
    using Cons.prems edge_step_errors [of _ sh i e st] ie by blast
  with Cons.IH show ?case by simp
qed simp

lemma node_errors_edge_error: "err \<in> set (node_errors ns) \<Longrightarrow> edge_error err"
proof -
  have "err \<in> set (endpoint_errors node seen eps) \<Longrightarrow> edge_error err" for node seen eps
    by (induction eps arbitrary: seen) (auto simp: edge_error_def split: if_splits)
  moreover assume "err \<in> set (node_errors ns)"
  ultimately show ?thesis by (auto simp: node_errors_def edge_error_def split: prod.splits if_splits)
qed

text \<open>
  What the validator blames is real. A reported cycle is a closed walk of the graph's arcs, its
  first node named again at its end; a reported oversubscription names a target-facing endpoint with
  exactly the reported number of edges, which is at least two.
\<close>

theorem validate_blames_truly:
  assumes "orders_ok count_order key_order" and "validate count_order key_order g = Some errors"
  shows "(\<forall>c. Cycle c \<in> set errors \<longrightarrow> closed_walk (edge_arc ` set (oriented_edges g)) c) \<and>
     (\<forall>t n. TargetEndpointOversubscribed t n \<in> set errors \<longrightarrow>
        n = length (filter (\<lambda>ht. snd ht = t) (oriented_edges g)) \<and> 2 \<le> n)"
proof -
  obtain errs counts arcs res where run:
    "fold (edge_step (shapes g)) (enumerate 0 (edges g)) (concat (map node_errors (shapes g)), [], []) = (errs, counts, arcs)"
    "arcs = map edge_arc (oriented_edges g)" "hash_ok counts"
    "\<forall>t. tally counts t = count_list (map snd (oriented_edges g)) t"
    "find_cycle key_order (map fst (shapes g)) arcs = Some res"
    "\<forall>c. res = Some c \<longrightarrow> closed_walk (set arcs) c"
    using validate_run [OF assms(1), of g] by metis
  have "\<forall>err \<in> set (concat (map node_errors (shapes g))). edge_error err"
    using node_errors_edge_error by auto
  then have errs: "\<forall>err \<in> set errs. edge_error err"
    using loop_errors [of "(concat (map node_errors (shapes g)), [], [])" "shapes g" "enumerate 0 (edges g)"]
    unfolding run(1) fst_conv by blast
  have counts: "n = length (filter (\<lambda>ht. snd ht = t) (oriented_edges g)) \<and> 2 \<le> n"
    if "(t, n) \<in> set (count_order counts)" "1 < n" for t n
  proof -
    from that assms(1) have "(t, n) \<in> set counts" by (auto simp: orders_ok_def)
    with hash.entries_get [OF run(3)] have "tally counts t = n" by (simp add: tally_def)
    moreover have "count_list (map snd xs) t = length (filter (\<lambda>ht. snd ht = t) xs)" for xs :: "(EndpointAddr \<times> EndpointAddr) list"
      by (induction xs) auto
    ultimately show ?thesis using run(4) that(2) by simp
  qed
  have "errors = errs @ concat (map (\<lambda>(addr, count). if count > 1 then [TargetEndpointOversubscribed addr count] else [])
      (count_order counts)) @ (case res of None \<Rightarrow> [] | Some c \<Rightarrow> [Cycle c])"
    using assms(2) run(1,5) by (cases res) (simp_all add: validate_def)
  then show ?thesis
    using errs counts run(2,6) by (auto simp: edge_error_def split: option.splits if_splits)
qed

theorem validate_blames_truly_witness:
  "\<exists>errors. validate rev rev \<lparr>shapes = [(''m'', \<lparr>endpoints = [\<lparr>ep_name = ''h'', ep_facing = Host, ep_arbitration = Exclusive\<rparr>,
        \<lparr>ep_name = ''t'', ep_facing = Target, ep_arbitration = Exclusive\<rparr>]\<rparr>)],
      edges = [\<lparr>edge_a = EndpointAddr_new ''m'' ''h'', edge_b = EndpointAddr_new ''m'' ''t'', edge_write_mode = Held\<rparr>]\<rparr> = Some errors \<and>
     Cycle [''m'', ''m''] \<in> set errors \<and> closed_walk {(''m'', ''m'')} [''m'', ''m'']"
proof -
  let ?g = "\<lparr>shapes = [(''m'', \<lparr>endpoints = [\<lparr>ep_name = ''h'', ep_facing = Host, ep_arbitration = Exclusive\<rparr>,
        \<lparr>ep_name = ''t'', ep_facing = Target, ep_arbitration = Exclusive\<rparr>]\<rparr>)],
      edges = [\<lparr>edge_a = EndpointAddr_new ''m'' ''h'', edge_b = EndpointAddr_new ''m'' ''t'', edge_write_mode = Held\<rparr>]\<rparr>"
  have ord: "orders_ok rev rev" by (simp add: orders_ok_def)
  have run: "validate rev rev ?g = Some [Cycle [''m'', ''m'']]"
    and arcs: "map edge_arc (oriented_edges ?g) = [(''m'', ''m'')]" by code_simp+
  have "edge_arc ` set (oriented_edges ?g) = {(''m'', ''m'')}"
    using arcs by (metis list.set(1) list.set(2) list.set_map)
  with validate_blames_truly [OF ord run] run show ?thesis by auto
qed

end
