(* ===== verification/Character_Map.thy ===== *)
theory Character_Map
  imports Prelude
begin

text \<open>
  The map node's character mapping (\<open>core/src/map.rs\<close>): picocom's fourteen byte mappings, the compiled
  first-match table of one direction, and the transform that the data plane runs. The table is the
  optimised routine; \<open>first_match\<close> is the specification, which scans the rule list for each byte.
\<close>

section \<open>Mappings\<close>

definition MAX_EXPANSION :: nat where
  "MAX_EXPANSION = 4"

definition HEXD :: "byte list" where
  "HEXD = as_bytes ''0123456789abcdef''"

datatype Mapping =
    Crlf | Crcrlf | Igncr | Lfcr | Lfcrlf | Ignlf | Bsdel | Delbs
  | Spchex | Tabhex | Crhex | Lfhex | EightBitHex | NrmHex

definition VOCABULARY :: "(string \<times> Mapping) list" where
  "VOCABULARY =
    [(''crlf'', Crlf), (''crcrlf'', Crcrlf), (''igncr'', Igncr), (''lfcr'', Lfcr),
     (''lfcrlf'', Lfcrlf), (''ignlf'', Ignlf), (''bsdel'', Bsdel), (''delbs'', Delbs),
     (''spchex'', Spchex), (''tabhex'', Tabhex), (''crhex'', Crhex), (''lfhex'', Lfhex),
     (''8bithex'', EightBitHex), (''nrmhex'', NrmHex)]"

definition from_name :: "string \<Rightarrow> Mapping option" where
  "from_name name = map_option snd (find (\<lambda>(n, _). n = name) VOCABULARY)"

text \<open>\<open>Mapping::name\<close> panics when the mapping is not in the table: \<open>None\<close>.\<close>

definition mapping_name :: "Mapping \<Rightarrow> string option" where
  "mapping_name m = map_option fst (find (\<lambda>(_, m'). m' = m) VOCABULARY)"

definition all_names :: "string list" where
  "all_names = map fst VOCABULARY"

fun matches :: "Mapping \<Rightarrow> byte \<Rightarrow> bool" where
  "matches Crlf b = (b = 0x0d)"
| "matches Crcrlf b = (b = 0x0d)"
| "matches Igncr b = (b = 0x0d)"
| "matches Crhex b = (b = 0x0d)"
| "matches Lfcr b = (b = 0x0a)"
| "matches Lfcrlf b = (b = 0x0a)"
| "matches Ignlf b = (b = 0x0a)"
| "matches Lfhex b = (b = 0x0a)"
| "matches Bsdel b = (b = 0x08)"
| "matches Delbs b = (b = 0x7f)"
| "matches Spchex b = (b = 0x7f \<or> (b < 0x20 \<and> b \<noteq> 0x09 \<and> b \<noteq> 0x0a \<and> b \<noteq> 0x0d))"
| "matches Tabhex b = (b = 0x09)"
| "matches EightBitHex b = (0x80 \<le> b)"
| "matches NrmHex b = (0x20 \<le> b \<and> b \<le> 0x7e)"

text \<open>\<open>map2hex\<close>: \<open>[\<close>, two lowercase digits, \<open>]\<close>.\<close>

definition hex_form :: "byte \<Rightarrow> byte list" where
  "hex_form b = [0x5b, HEXD ! unat (drop_bit 4 b), HEXD ! unat (b AND 0x0f), 0x5d]"

text \<open>The fixed four-byte buffer and the length of its used prefix.\<close>

definition mapping_output :: "Mapping \<Rightarrow> byte \<Rightarrow> byte list \<times> nat" where
  "mapping_output m b =
     (let out = replicate MAX_EXPANSION 0 in
      case m of
        Crlf \<Rightarrow> (out[0 := 0x0a], 1)
      | Lfcr \<Rightarrow> (out[0 := 0x0d], 1)
      | Crcrlf \<Rightarrow> (out[0 := 0x0d, 1 := 0x0a], 2)
      | Lfcrlf \<Rightarrow> (out[0 := 0x0d, 1 := 0x0a], 2)
      | Igncr \<Rightarrow> (out, 0)
      | Ignlf \<Rightarrow> (out, 0)
      | Bsdel \<Rightarrow> (out[0 := 0x7f], 1)
      | Delbs \<Rightarrow> (out[0 := 0x08], 1)
      | _ \<Rightarrow> (hex_form b, 4))"

fun expansion :: "Mapping \<Rightarrow> nat" where
  "expansion Igncr = 0"
| "expansion Ignlf = 0"
| "expansion Crlf = 1"
| "expansion Lfcr = 1"
| "expansion Bsdel = 1"
| "expansion Delbs = 1"
| "expansion Crcrlf = 2"
| "expansion Lfcrlf = 2"
| "expansion _ = 4"

section \<open>Compiled directions\<close>

datatype Slot = Pass | Sub nat "byte list" byte

record MapDirection =
  md_rules :: "Mapping list"
  md_table :: "Slot list"
  md_max_expansion :: nat

definition compile_slot :: "Mapping list \<Rightarrow> byte \<Rightarrow> Slot" where
  "compile_slot rules b =
     (case find (\<lambda>(_, m). matches m b) (enumerate 0 rules) of
        None \<Rightarrow> Pass
      | Some (rule, m) \<Rightarrow> (let (out, len) = mapping_output m b in Sub rule out (word_of_nat len)))"

definition compile :: "Mapping list \<Rightarrow> MapDirection" where
  "compile rules =
     \<lparr>md_rules = rules,
      md_table = map (\<lambda>n. compile_slot rules (word_of_nat n)) [0..<256],
      md_max_expansion = max (if rules = [] then 1 else Max (set (map expansion rules))) 1\<rparr>"

fun parse_rules :: "string list \<Rightarrow> (string, Mapping list) result" where
  "parse_rules [] = Ok []"
| "parse_rules (n # ns) =
     (case from_name n of
        None \<Rightarrow> Err n
      | Some m \<Rightarrow> (case parse_rules ns of Inl e \<Rightarrow> Err e | Inr ms \<Rightarrow> Ok (m # ms)))"

definition parse :: "string list \<Rightarrow> (string, MapDirection) result" where
  "parse names = (case parse_rules names of Inl e \<Rightarrow> Err e | Inr rules \<Rightarrow> Ok (compile rules))"

text \<open>
  \<open>apply\<close> appends the mapped bytes to \<open>out\<close> and calls \<open>on_rule(i)\<close> once per substituted byte; the model
  returns the list of those calls, in order.
\<close>

fun map_apply :: "MapDirection \<Rightarrow> byte list \<Rightarrow> byte list \<Rightarrow> byte list \<times> nat list" where
  "map_apply d [] out = (out, [])"
| "map_apply d (b # input) out =
     (case md_table d ! unat b of
        Pass \<Rightarrow> map_apply d input (out @ [b])
      | Sub rule buf len \<Rightarrow>
          (let (out', fired) = map_apply d input (out @ take (unat len) buf)
           in (out', rule # fired)))"

definition rule_count :: "MapDirection \<Rightarrow> nat" where
  "rule_count d = length (md_rules d)"

text \<open>Indexing past the rule list panics, as does an unnamed mapping: \<open>None\<close>.\<close>

definition rule_name :: "MapDirection \<Rightarrow> nat \<Rightarrow> string option" where
  "rule_name d i = (if i < length (md_rules d) then mapping_name (md_rules d ! i) else None)"

section \<open>Specification\<close>

text \<open>The first rule of the list that matches the byte, with its index.\<close>

fun first_match :: "nat \<Rightarrow> Mapping list \<Rightarrow> byte \<Rightarrow> (nat \<times> Mapping) option" where
  "first_match i [] b = None"
| "first_match i (m # ms) b = (if matches m b then Some (i, m) else first_match (Suc i) ms b)"

definition subst :: "Mapping \<Rightarrow> byte \<Rightarrow> byte list" where
  "subst m b = (case m of
      Crlf \<Rightarrow> [0x0a] | Lfcr \<Rightarrow> [0x0d] | Crcrlf \<Rightarrow> [0x0d, 0x0a] | Lfcrlf \<Rightarrow> [0x0d, 0x0a]
    | Igncr \<Rightarrow> [] | Ignlf \<Rightarrow> [] | Bsdel \<Rightarrow> [0x7f] | Delbs \<Rightarrow> [0x08] | _ \<Rightarrow> hex_form b)"

definition map_byte :: "Mapping list \<Rightarrow> byte \<Rightarrow> byte list" where
  "map_byte rules b = (case first_match 0 rules b of None \<Rightarrow> [b] | Some (_, m) \<Rightarrow> subst m b)"

definition fired_rules :: "Mapping list \<Rightarrow> byte \<Rightarrow> nat list" where
  "fired_rules rules b = (case first_match 0 rules b of None \<Rightarrow> [] | Some (i, _) \<Rightarrow> [i])"

section \<open>The table is the specification\<close>

lemma find_enumerate: "find (\<lambda>(_, m). matches m b) (enumerate i rules) = first_match i rules b"
  by (induction rules arbitrary: i) auto

lemma output_subst: "take (snd (mapping_output m b)) (fst (mapping_output m b)) = subst m b"
  by (cases m) (simp_all add: mapping_output_def subst_def MAX_EXPANSION_def hex_form_def numeral_eq_Suc)

lemma output_len: "snd (mapping_output m b) \<le> 4"
  by (cases m) (simp_all add: mapping_output_def Let_def)

lemma subst_length: "length (subst m b) = expansion m"
  by (cases m) (simp_all add: subst_def hex_form_def)

lemma table_lookup:
  "md_table (compile rules) ! unat b = compile_slot rules b"
proof -
  have "unat b < 256" using unsigned_less [of b] by simp
  then show ?thesis by (simp add: compile_def)
qed

lemma apply_compiled:
  "map_apply (compile rules) input out =
     (out @ concat (map (map_byte rules) input), concat (map (fired_rules rules) input))"
proof (induction input arbitrary: out)
  case Nil
  then show ?case by simp
next
  case (Cons b input)
  show ?case
  proof (cases "first_match 0 rules b")
    case None
    then show ?thesis
      by (simp add: Cons.IH table_lookup compile_slot_def find_enumerate map_byte_def fired_rules_def)
  next
    case (Some p)
    obtain i m where p: "p = (i, m)" by (cases p)
    have "unat (word_of_nat (snd (mapping_output m b)) :: byte) = snd (mapping_output m b)"
      using output_len [of m b] by (simp add: unat_of_nat)
    with Some p output_subst [of m b] show ?thesis
      by (simp add: Cons.IH table_lookup compile_slot_def find_enumerate map_byte_def fired_rules_def
          split_beta)
  qed
qed

text \<open>
  C15: running a compiled direction is the first-match specification: each input byte is replaced by the
  substitution of the first rule in the operator's order that matches it, or passed through when
  none does, and exactly that rule is counted once; what was in the output before stays in front.
\<close>

theorem compiled_map_is_first_match:
  "map_apply (compile rules) input out =
     (out @ concat (map (map_byte rules) input), concat (map (fired_rules rules) input))"
  by (rule apply_compiled)

section \<open>Bounded expansion\<close>

lemma first_match_in: "first_match i rules b = Some (j, m) \<Longrightarrow> m \<in> set rules \<and> matches m b"
  by (induction rules arbitrary: i) (auto split: if_splits)

lemma expansion_le_max: "m \<in> set rules \<Longrightarrow> expansion m \<le> md_max_expansion (compile rules)"
  by (auto simp: compile_def intro!: max.coboundedI1 Max_ge)

lemma map_byte_length: "length (map_byte rules b) \<le> md_max_expansion (compile rules)"
  by (auto simp: map_byte_def subst_length split: option.splits
      dest!: first_match_in intro: expansion_le_max) (simp add: compile_def)

lemma max_expansion_bounds: "1 \<le> md_max_expansion (compile rules) \<and> md_max_expansion (compile rules) \<le> 4"
proof -
  have "expansion m \<le> 4" for m by (cases m) simp_all
  then show ?thesis by (auto simp: compile_def)
qed

text \<open>
  The output of a direction is at most \<open>max_expansion\<close> times its input, and that factor is between
  1 and 4 whatever the rules are, so the holdover of the interior transform stays bounded.
\<close>

theorem map_output_bounded:
  "length (fst (map_apply (compile rules) input [])) \<le> md_max_expansion (compile rules) * length input \<and>
   1 \<le> md_max_expansion (compile rules) \<and> md_max_expansion (compile rules) \<le> MAX_EXPANSION"
proof -
  have "length (concat (map (map_byte rules) input)) \<le> md_max_expansion (compile rules) * length input"
  proof (induction input)
    case (Cons b input)
    then show ?case using map_byte_length [of rules b] by simp
  qed simp
  then show ?thesis
    using max_expansion_bounds [of rules] by (simp add: apply_compiled MAX_EXPANSION_def)
qed

text \<open>
  Chunk boundaries do not matter: mapping the two parts of a stream one after the other gives the
  bytes and the rule counts of mapping it whole.
\<close>

theorem map_chunking_irrelevant:
  "map_apply (compile rules) (xs @ ys) out =
     (let (out1, f1) = map_apply (compile rules) xs out;
          (out2, f2) = map_apply (compile rules) ys out1
      in (out2, f1 @ f2))"
  by (simp add: apply_compiled)

section \<open>Names\<close>

lemma mapping_name_Some: "\<exists>n. mapping_name m = Some n \<and> from_name n = Some m"
  by (cases m) (simp_all add: mapping_name_def from_name_def VOCABULARY_def)

lemma from_name_Some: "from_name n = Some m \<Longrightarrow> mapping_name m = Some n"
  by (auto simp: from_name_def VOCABULARY_def mapping_name_def split: if_splits)

lemma from_name_None: "from_name n = None \<longleftrightarrow> n \<notin> set all_names"
  by (force simp: from_name_def all_names_def find_None_iff)

text \<open>
  The names and the mappings correspond one to one: naming a mapping never panics, and a name
  parses to a mapping exactly when it is that mapping's name.
\<close>

theorem mapping_names_round_trip:
  "mapping_name m \<noteq> None \<and> (from_name n = Some m \<longleftrightarrow> mapping_name m = Some n) \<and>
   (from_name n = None \<longleftrightarrow> n \<notin> set all_names)"
  using mapping_name_Some [of m] from_name_Some from_name_None [of n] by fastforce

lemma parse_rules_spec:
  "case parse_rules names of
     Inr rules \<Rightarrow> map from_name names = map Some rules
   | Inl n \<Rightarrow> \<exists>xs ys. names = xs @ n # ys \<and> n \<notin> set all_names \<and> set xs \<subseteq> set all_names"
proof (induction names)
  case Nil
  then show ?case by simp
next
  case (Cons k ns)
  show ?case
  proof (cases "from_name k")
    case None
    then have "k \<notin> set all_names" by (simp add: from_name_None)
    then have "\<exists>xs ys. k # ns = xs @ k # ys \<and> k \<notin> set all_names \<and> set xs \<subseteq> set all_names"
      by (intro exI [of _ "[]"] exI [of _ ns]) auto
    then show ?thesis by (simp add: None)
  next
    case (Some m)
    then have k: "k \<in> set all_names" using from_name_None [of k] by auto
    show ?thesis
    proof (cases "parse_rules ns")
      case (Inl n)
      with Cons.IH obtain xs ys where "ns = xs @ n # ys" "n \<notin> set all_names" "set xs \<subseteq> set all_names"
        by auto
      then have "\<exists>xs ys. k # ns = xs @ n # ys \<and> n \<notin> set all_names \<and> set xs \<subseteq> set all_names"
        using k by (intro exI [of _ "k # xs"] exI [of _ ys]) auto
      then show ?thesis by (simp add: Some Inl)
    next
      case (Inr rules)
      with Some Cons.IH show ?thesis by simp
    qed
  qed
qed

lemma first_match_index: "first_match i rules b = Some (j, m) \<Longrightarrow> i \<le> j \<and> j < i + length rules \<and> rules ! (j - i) = m"
proof (induction rules arbitrary: i)
  case (Cons r rs)
  show ?case
  proof (cases "matches r b")
    case False
    then have "Suc i \<le> j \<and> j < Suc i + length rs \<and> rs ! (j - Suc i) = m"
      using Cons.IH [of "Suc i"] Cons.prems by simp
    then show ?thesis by (auto simp: nth_Cons split: nat.splits) (metis Suc_diff_Suc Suc_le_lessD diff_Suc_Suc nat.inject)
  next
    case True
    with Cons.prems show ?thesis by simp
  qed
qed simp

lemma fired_rule_named:
  assumes "i \<in> set (fired_rules rules b)"
  shows "i < rule_count (compile rules) \<and> rule_name (compile rules) i \<noteq> None"
proof -
  from assms obtain m where "first_match 0 rules b = Some (i, m)"
    by (cases "first_match 0 rules b") (auto simp: fired_rules_def)
  then have "i < length rules" using first_match_index by fastforce
  then show ?thesis
    using mapping_name_Some [of "rules ! i"] by (auto simp: rule_count_def rule_name_def compile_def)
qed

text \<open>
  Parsing a configured list of names either compiles exactly the named mappings, in order, or
  reports a name that is not in the vocabulary and that only known names precede.
\<close>

theorem parse_reports_first_unknown:
  "(\<exists>rules. parse names = Ok (compile rules) \<and> map from_name names = map Some rules) \<or>
   (\<exists>xs n ys. parse names = Err n \<and> names = xs @ n # ys \<and> n \<notin> set all_names \<and> set xs \<subseteq> set all_names)"
  using parse_rules_spec [of names] by (auto simp: parse_def split: sum.splits)

section \<open>The hex family covers every byte\<close>

definition hex_family :: "Mapping list" where
  "hex_family = [Spchex, Tabhex, Crhex, Lfhex, NrmHex, EightBitHex]"

text \<open>
  The six hex-display rules partition the byte space: every byte is matched by exactly one of them,
  so a direction with all six renders every byte as its bracketed lowercase hex form.
\<close>

theorem hex_family_partitions_bytes:
  "length (filter (\<lambda>m. matches m b) hex_family) = 1 \<and> map_byte hex_family b = hex_form b"
proof -
  consider "b < 0x20" "\<not> 0x20 \<le> b" "\<not> 0x80 \<le> b" "b \<noteq> 0x7f"
    | "b = 0x7f"
    | "0x20 \<le> b" "b \<le> 0x7e" "\<not> b < 0x20" "\<not> 0x80 \<le> b" "b \<noteq> 0x7f" "b \<noteq> 0x09" "b \<noteq> 0x0a" "b \<noteq> 0x0d"
    | "0x80 \<le> b" "\<not> b \<le> 0x7e" "\<not> b < 0x20" "b \<noteq> 0x7f" "b \<noteq> 0x09" "b \<noteq> 0x0a" "b \<noteq> 0x0d"
    by unat_arith
  then show ?thesis
    by cases (auto simp: hex_family_def map_byte_def subst_def)
qed

end
