(* ===== verification/Std_Net.thy ===== *)
theory Std_Net
  imports Prelude
begin

text \<open>
  What the sources use of the standard library's \<open>std::net\<close>: parsing an \<open>IpAddr\<close> from text (dotted
  decimal without leading zeros; the IPv6 groups with one \<open>::\<close> and an embedded IPv4 tail) and
  \<open>is_loopback\<close>. A reader takes the remaining text and returns its value with what is left, or fails
  leaving the text as it was.
\<close>

type_synonym 'a reader = "string \<Rightarrow> ('a \<times> string) option"

datatype IpAddr = V4 "nat list" | V6 "nat list"

definition read_given_char :: "char \<Rightarrow> unit reader" where
  "read_given_char c s = (case s of x # r \<Rightarrow> (if x = c then Some ((), r) else None) | [] \<Rightarrow> None)"

definition to_digit :: "nat \<Rightarrow> char \<Rightarrow> nat option" where
  "to_digit radix c =
     (let n = of_char c :: nat;
          d = (if 48 \<le> n \<and> n \<le> 57 then Some (n - 48)
               else if 97 \<le> n \<and> n \<le> 122 then Some (n - 97 + 10)
               else if 65 \<le> n \<and> n \<le> 90 then Some (n - 65 + 10) else None)
      in case d of None \<Rightarrow> None | Some k \<Rightarrow> if k < radix then Some k else None)"

fun read_digits :: "nat \<Rightarrow> string \<Rightarrow> nat list \<times> string" where
  "read_digits radix [] = ([], [])"
| "read_digits radix (c # s) =
     (case to_digit radix c of
        None \<Rightarrow> ([], c # s)
      | Some d \<Rightarrow> (let (ds, r) = read_digits radix s in (d # ds, r)))"

definition read_number :: "nat \<Rightarrow> nat \<Rightarrow> bool \<Rightarrow> nat \<Rightarrow> nat reader" where
  "read_number radix max_digits allow_zero_prefix max_value s =
     (let (ds, r) = read_digits radix s; v = foldl (\<lambda>acc d. acc * radix + d) 0 ds
      in if ds = [] \<or> length ds > max_digits then None
         else if \<not> allow_zero_prefix \<and> hd ds = 0 \<and> length ds > 1 then None
         else if v > max_value then None
         else Some (v, r))"

definition read_separator :: "char \<Rightarrow> nat \<Rightarrow> 'a reader \<Rightarrow> 'a reader" where
  "read_separator sep index inner s =
     (if index > 0 then (case read_given_char sep s of None \<Rightarrow> None | Some (_, r) \<Rightarrow> inner r) else inner s)"

fun read_octets :: "nat \<Rightarrow> nat \<Rightarrow> nat list reader" where
  "read_octets i 0 s = Some ([], s)"
| "read_octets i (Suc n) s =
     (case read_separator (CHR ''.'') i (read_number 10 3 False 255) s of
        None \<Rightarrow> None
      | Some (o1, r) \<Rightarrow> (case read_octets (Suc i) n r of None \<Rightarrow> None | Some (os, r') \<Rightarrow> Some (o1 # os, r')))"

definition read_ipv4_addr :: "nat list reader" where
  "read_ipv4_addr s = read_octets 0 4 s"

text \<open>\<open>read_groups\<close>: \<open>left\<close> groups are still to fill at index \<open>i\<close>; the flag says that an IPv4 tail was read.\<close>

fun read_groups :: "nat \<Rightarrow> nat \<Rightarrow> string \<Rightarrow> nat list \<times> bool \<times> string" where
  "read_groups i 0 s = ([], False, s)"
| "read_groups i (Suc left) s =
     (case (if left > 0 then read_separator (CHR '':'') i read_ipv4_addr s else None) of
        Some (v4, r) \<Rightarrow> ([v4 ! 0 * 256 + v4 ! 1, v4 ! 2 * 256 + v4 ! 3], True, r)
      | None \<Rightarrow>
          (case read_separator (CHR '':'') i (read_number 16 4 True 65535) s of
             None \<Rightarrow> ([], False, s)
           | Some (g, r) \<Rightarrow> (let (gs, v4, r') = read_groups (Suc i) left r in (g # gs, v4, r'))))"

definition read_ipv6_addr :: "nat list reader" where
  "read_ipv6_addr s =
     (let (head, head_ipv4, r) = read_groups 0 8 s
      in if length head = 8 then Some (head, r)
         else if head_ipv4 then None
         else
           (case read_given_char (CHR '':'') r of
              None \<Rightarrow> None
            | Some (_, r) \<Rightarrow>
                (case read_given_char (CHR '':'') r of
                   None \<Rightarrow> None
                 | Some (_, r) \<Rightarrow>
                     (let (tail, _, r) = read_groups 0 (8 - (length head + 1)) r
                      in Some (head @ replicate (8 - length head - length tail) 0 @ tail, r)))))"

definition parse_ip :: "string \<Rightarrow> IpAddr option" where
  "parse_ip s =
     (case read_ipv4_addr s of
        Some (v4, r) \<Rightarrow> (if r = [] then Some (V4 v4) else None)
      | None \<Rightarrow>
          (case read_ipv6_addr s of
             Some (v6, r) \<Rightarrow> (if r = [] then Some (V6 v6) else None)
           | None \<Rightarrow> None))"

definition is_loopback :: "IpAddr \<Rightarrow> bool" where
  "is_loopback ip =
     (case ip of V4 os \<Rightarrow> os \<noteq> [] \<and> hd os = 127 | V6 gs \<Rightarrow> gs = [0, 0, 0, 0, 0, 0, 0, 1])"

text \<open>\<open>str::rsplit_once(c)\<close>, \<open>str::strip_prefix(c)\<close> and \<open>eq_ignore_ascii_case\<close>.\<close>

definition rsplit_once :: "char \<Rightarrow> string \<Rightarrow> (string \<times> string) option" where
  "rsplit_once c s =
     (if c \<in> set s
      then Some (rev (tl (dropWhile (\<lambda>x. x \<noteq> c) (rev s))), rev (takeWhile (\<lambda>x. x \<noteq> c) (rev s)))
      else None)"

definition strip_prefix_char :: "char \<Rightarrow> string \<Rightarrow> string option" where
  "strip_prefix_char c s = (case s of x # r \<Rightarrow> if x = c then Some r else None | [] \<Rightarrow> None)"

definition to_ascii_lowercase :: "char \<Rightarrow> char" where
  "to_ascii_lowercase c =
     (let n = of_char c :: nat in if 65 \<le> n \<and> n \<le> 90 then char_of (n + 32) else c)"

definition eq_ignore_ascii_case :: "string \<Rightarrow> string \<Rightarrow> bool" where
  "eq_ignore_ascii_case s t \<longleftrightarrow> map to_ascii_lowercase s = map to_ascii_lowercase t"

lemma rsplit_once_Some: "rsplit_once c s = Some (a, b) \<Longrightarrow> s = a @ c # b \<and> c \<notin> set b"
proof -
  assume *: "rsplit_once c s = Some (a, b)"
  then have c: "c \<in> set (rev s)" and ab: "a = rev (tl (dropWhile (\<lambda>x. x \<noteq> c) (rev s)))"
    "b = rev (takeWhile (\<lambda>x. x \<noteq> c) (rev s))"
    by (auto simp: rsplit_once_def split: if_splits)
  have ne: "dropWhile (\<lambda>x. x \<noteq> c) (rev s) \<noteq> []" using c by (auto simp: dropWhile_eq_Nil_conv)
  then have "hd (dropWhile (\<lambda>x. x \<noteq> c) (rev s)) = c" using hd_dropWhile by blast
  then have "dropWhile (\<lambda>x. x \<noteq> c) (rev s) = c # rev a" using ne ab by (cases "dropWhile (\<lambda>x. x \<noteq> c) (rev s)") auto
  then have "rev s = rev b @ c # rev a" using ab takeWhile_dropWhile_id [of "\<lambda>x. x \<noteq> c" "rev s"] by simp
  then have "rev (rev s) = a @ c # b" by (simp only: rev_append rev.simps rev_rev_ident) simp
  moreover have "c \<notin> set b" using ab by (auto dest: set_takeWhileD)
  ultimately show ?thesis by simp
qed

end
