(* ===== verification/Config.thy ===== *)
theory Config
  imports Graph Character_Map Std_Net
begin

text \<open>
  The operator's configuration (\<open>core/src/config.rs\<close>): node kinds with their attributes, their topological
  shapes, the effective write mode of an edge, and the whole structural validation. The codec's opaque
  attribute table (a \<open>toml::Table\<close>) is a type variable: nothing here looks into it.
\<close>

section \<open>Configuration types\<close>

definition MAP_RAW_ENDPOINT :: string where
  "MAP_RAW_ENDPOINT = ''raw''"

definition MAX_REPLAY_RING :: nat where
  "MAX_REPLAY_RING = 16 * 1024 * 1024"

definition MAX_HOSTWARD_BUFFER :: nat where
  "MAX_HOSTWARD_BUFFER = 65536"

definition MAX_TIMER_MS :: nat where
  "MAX_TIMER_MS = 3600000"

definition MAX_ROTATION_PADDING :: nat where
  "MAX_ROTATION_PADDING = 20"

definition DEFAULT_REPLAY_RING :: nat where
  "DEFAULT_REPLAY_RING = 65536"

datatype Transport = Tcp | Unix
datatype LegRole = Listen | Connect
datatype DataBits = Five | Six | Seven | Eight
datatype Parity = ParityNone | Odd | Even
datatype StopBits = One | Two
datatype FlowControl = FlowNone | XonXoff | RtsCts
datatype OverflowPolicy = DropOldest | Fault

record ModemLines =
  dtr :: "bool option"
  rts :: "bool option"

definition is_unset :: "ModemLines \<Rightarrow> bool" where
  "is_unset m \<longleftrightarrow> dtr m = None \<and> rts m = None"

record SerialConfig =
  serial_name :: string
  serial_device :: string
  serial_baud :: u32
  serial_data_bits :: DataBits
  serial_parity :: Parity
  serial_stop_bits :: StopBits
  serial_flow_control :: FlowControl
  serial_faces :: Facing
  serial_arbitration :: Arbitration
  serial_hostward_buffer :: nat
  serial_purge_on_reconnect :: bool
  serial_replay_ring :: nat
  serial_modem :: ModemLines

record PtyConfig =
  pty_name :: string
  pty_path :: string
  pty_owner :: "string option"
  pty_group :: "string option"
  pty_mode :: "u32 option"
  pty_advertised_baud :: u32
  pty_hostward_buffer :: nat

record LogConfig =
  log_name :: string
  log_directory :: string
  log_filename :: string
  log_overflow :: OverflowPolicy
  log_rotation_padding :: byte

record 'attr CodecConfig =
  codec_name :: string
  codec_codec :: string
  codec_faces :: Facing
  codec_channels :: "string list"
  codec_arbitration :: Arbitration
  codec_replay_ring :: nat
  codec_attributes :: 'attr

record LegConfig =
  leg_name :: string
  leg_faces :: Facing
  leg_transport :: Transport
  leg_role :: LegRole
  leg_address :: string
  leg_insecure_bind :: bool
  leg_reconnect_initial_ms :: u64
  leg_reconnect_max_ms :: u64
  leg_idle_release_ms :: u64
  leg_purge_on_reconnect :: bool
  leg_arbitration :: Arbitration
  leg_replay_ring :: nat
  leg_channels :: "string list"

record MapConfig =
  map_name :: string
  map_hostward :: "string list"
  map_targetward :: "string list"
  map_arbitration :: Arbitration
  map_replay_ring :: nat

datatype 'attr NodeConfig =
    Serial SerialConfig
  | Pty PtyConfig
  | Log LogConfig
  | Codec "'attr CodecConfig"
  | Leg LegConfig
  | Map MapConfig

record EdgeConfig =
  cfg_a :: EndpointAddr
  cfg_b :: EndpointAddr
  cfg_write_mode :: WriteMode

record 'attr GraphConfig =
  nodes :: "'attr NodeConfig list"
  cfg_edges :: "EdgeConfig list"

section \<open>Node operations\<close>

fun node_name :: "'attr NodeConfig \<Rightarrow> string" where
  "node_name (Serial c) = serial_name c"
| "node_name (Pty c) = pty_name c"
| "node_name (Log c) = log_name c"
| "node_name (Codec c) = codec_name c"
| "node_name (Leg c) = leg_name c"
| "node_name (Map c) = map_name c"

fun replay_ring :: "'attr NodeConfig \<Rightarrow> nat option" where
  "replay_ring (Serial c) = Some (serial_replay_ring c)"
| "replay_ring (Codec c) = Some (codec_replay_ring c)"
| "replay_ring (Leg c) = Some (leg_replay_ring c)"
| "replay_ring (Map c) = Some (map_replay_ring c)"
| "replay_ring (Pty _) = None"
| "replay_ring (Log _) = None"

fun shape :: "'attr NodeConfig \<Rightarrow> NodeShape" where
  "shape (Serial c) = single_arb (serial_faces c) (serial_arbitration c)"
| "shape (Pty _) = single Target"
| "shape (Log _) = single Target"
| "shape (Codec c) =
     (let arb = (\<lambda>facing. if facing = Host then codec_arbitration c else Exclusive);
          chan_facing = opposite (codec_faces c)
      in \<lparr>endpoints =
           \<lparr>ep_name = DEFAULT_ENDPOINT, ep_facing = codec_faces c, ep_arbitration = arb (codec_faces c)\<rparr> #
           map (\<lambda>ch. \<lparr>ep_name = ch, ep_facing = chan_facing, ep_arbitration = arb chan_facing\<rparr>) (codec_channels c)\<rparr>)"
| "shape (Leg c) =
     (let arb = (if leg_faces c = Host then leg_arbitration c else Exclusive)
      in \<lparr>endpoints = map (\<lambda>ch. \<lparr>ep_name = ch, ep_facing = leg_faces c, ep_arbitration = arb\<rparr>) (leg_channels c)\<rparr>)"
| "shape (Map c) =
     \<lparr>endpoints =
        [\<lparr>ep_name = DEFAULT_ENDPOINT, ep_facing = Host, ep_arbitration = map_arbitration c\<rparr>,
         \<lparr>ep_name = MAP_RAW_ENDPOINT, ep_facing = Target, ep_arbitration = Exclusive\<rparr>]\<rparr>"

fun arbitration :: "'attr NodeConfig \<Rightarrow> Arbitration" where
  "arbitration (Serial c) = serial_arbitration c"
| "arbitration (Codec c) = codec_arbitration c"
| "arbitration (Leg c) = leg_arbitration c"
| "arbitration (Map c) = map_arbitration c"
| "arbitration (Pty _) = Exclusive"
| "arbitration (Log _) = Exclusive"

section \<open>Edges and write modes\<close>

definition to_model :: "'attr GraphConfig \<Rightarrow> GraphModel" where
  "to_model c =
     fold (\<lambda>e m. add_edge m \<lparr>edge_a = cfg_a e, edge_b = cfg_b e, edge_write_mode = cfg_write_mode e\<rparr>) (cfg_edges c)
       (fold (\<lambda>n m. add_node m (node_name n) (shape n)) (nodes c) graph_new)"

definition config_is_empty :: "'attr GraphConfig \<Rightarrow> bool" where
  "config_is_empty c \<longleftrightarrow> nodes c = [] \<and> cfg_edges c = []"

definition node_named :: "'attr GraphConfig \<Rightarrow> string \<Rightarrow> 'attr NodeConfig option" where
  "node_named c name = find (\<lambda>n. node_name n = name) (nodes c)"

definition endpoint_facing :: "'attr GraphConfig \<Rightarrow> EndpointAddr \<Rightarrow> Facing option" where
  "endpoint_facing c addr =
     (case node_named c (addr_node addr) of
        None \<Rightarrow> None
      | Some n \<Rightarrow> map_option ep_facing (find (\<lambda>e. ep_name e = addr_endpoint addr) (endpoints (shape n))))"

definition edge_ends :: "'attr GraphConfig \<Rightarrow> EdgeConfig \<Rightarrow> (EndpointAddr \<times> EndpointAddr) option" where
  "edge_ends c e =
     (case (endpoint_facing c (cfg_a e), endpoint_facing c (cfg_b e)) of
        (Some Host, Some Target) \<Rightarrow> Some (cfg_a e, cfg_b e)
      | (Some Target, Some Host) \<Rightarrow> Some (cfg_b e, cfg_a e)
      | _ \<Rightarrow> None)"

definition is_multiplexed_endpoint :: "'attr GraphConfig \<Rightarrow> EndpointAddr \<Rightarrow> bool" where
  "is_multiplexed_endpoint c addr \<longleftrightarrow>
     is_default addr \<and> (case node_named c (addr_node addr) of Some (Codec _) \<Rightarrow> True | _ \<Rightarrow> False)"

definition endpoint_arbitrates :: "'attr GraphConfig \<Rightarrow> EndpointAddr \<Rightarrow> bool" where
  "endpoint_arbitrates c addr \<longleftrightarrow> map_option arbitration (node_named c (addr_node addr)) \<noteq> Some FreeForAll"

definition effective_write_mode :: "'attr GraphConfig \<Rightarrow> EdgeConfig \<Rightarrow> WriteMode" where
  "effective_write_mode c e =
     (case edge_ends c e of
        None \<Rightarrow> cfg_write_mode e
      | Some (_, target) \<Rightarrow>
          if (case node_named c (addr_node target) of Some (Log _) \<Rightarrow> True | _ \<Rightarrow> False) then Never
          else if cfg_write_mode e = OnDemand \<and> addr_endpoint target = MAP_RAW_ENDPOINT \<and>
             (case node_named c (addr_node target) of Some (Map _) \<Rightarrow> True | _ \<Rightarrow> False)
          then Held
          else cfg_write_mode e)"

section \<open>Validation\<close>

definition range_error :: "string \<Rightarrow> string \<Rightarrow> nat \<Rightarrow> nat \<Rightarrow> nat \<Rightarrow> ValidationError list" where
  "range_error node field value lo hi =
     (if value < lo \<or> value > hi then [NumericOutOfRange node field value lo hi] else [])"

definition is_loopback_addr :: "string \<Rightarrow> bool" where
  "is_loopback_addr address =
     (let of_host = (\<lambda>host. case parse_ip host of
            Some ip \<Rightarrow> is_loopback ip
          | None \<Rightarrow> eq_ignore_ascii_case host ''localhost'')
      in case strip_prefix_char (CHR ''['') address of
           Some rest \<Rightarrow> of_host (case split_once (CHR '']'') rest of Some (inner, _) \<Rightarrow> inner | None \<Rightarrow> rest)
         | None \<Rightarrow>
             (case parse_ip address of
                Some ip \<Rightarrow> is_loopback ip
              | None \<Rightarrow> of_host (case rsplit_once (CHR '':'') address of Some (h, _) \<Rightarrow> h | None \<Rightarrow> address)))"

definition hostward_buffer_errors :: "string \<Rightarrow> nat \<Rightarrow> ValidationError list" where
  "hostward_buffer_errors name depth =
     (if depth = 0 then [ZeroHostwardBuffer name]
      else range_error name ''hostward_buffer'' depth 1 MAX_HOSTWARD_BUFFER)"

text \<open>The checks of each kind, in the order of the source; \<open>u32::MAX\<close> is written out.\<close>

definition serial_errors :: "SerialConfig \<Rightarrow> ValidationError list" where
  "serial_errors c =
     (if serial_faces c = Target then [SerialFacesTarget (serial_name c)] else []) @
     range_error (serial_name c) ''baud'' (unat (serial_baud c)) 1 4294967295"

text \<open>The window \<open>0o600\<close> to \<open>0o777\<close> of a pty's mode is 384 to 511.\<close>

definition pty_errors :: "PtyConfig \<Rightarrow> ValidationError list" where
  "pty_errors c =
     (case pty_mode c of None \<Rightarrow> [] | Some m \<Rightarrow> range_error (pty_name c) ''mode'' (unat m) 384 511) @
     range_error (pty_name c) ''advertised_baud'' (unat (pty_advertised_baud c)) 1 4294967295"

definition log_errors :: "LogConfig \<Rightarrow> ValidationError list" where
  "log_errors c =
     range_error (log_name c) ''rotation_padding'' (unat (log_rotation_padding c)) 0 MAX_ROTATION_PADDING"

definition leg_errors :: "LegConfig \<Rightarrow> ValidationError list" where
  "leg_errors c =
     concat (map (\<lambda>(field, value). range_error (leg_name c) field (unat value) 0 MAX_TIMER_MS)
       [(''reconnect_initial_ms'', leg_reconnect_initial_ms c),
        (''reconnect_max_ms'', leg_reconnect_max_ms c),
        (''idle_release_ms'', leg_idle_release_ms c)]) @
     (if leg_transport c = Tcp \<and> \<not> leg_insecure_bind c \<and> \<not> is_loopback_addr (leg_address c)
      then [NonLoopbackBind (leg_name c) (leg_address c)] else []) @
     (if list_ex (\<lambda>ch. ch = []) (leg_channels c) then [DuplicateEndpoint (leg_name c) []] else []) @
     (if leg_channels c = [] then [EmptyLeg (leg_name c)] else [])"

definition map_errors :: "MapConfig \<Rightarrow> ValidationError list" where
  "map_errors c =
     concat (map (\<lambda>m. if from_name m = None then [UnknownMapping (map_name c) m] else [])
       (map_hostward c @ map_targetward c))"

fun kind_errors :: "'attr NodeConfig \<Rightarrow> ValidationError list" where
  "kind_errors (Serial c) = hostward_buffer_errors (serial_name c) (serial_hostward_buffer c) @ serial_errors c"
| "kind_errors (Pty c) = hostward_buffer_errors (pty_name c) (pty_hostward_buffer c) @ pty_errors c"
| "kind_errors (Log c) = log_errors c"
| "kind_errors (Codec c) = []"
| "kind_errors (Leg c) = leg_errors c"
| "kind_errors (Map c) = map_errors c"

lemmas kind_defs = serial_errors_def pty_errors_def log_errors_def leg_errors_def map_errors_def

fun node_loop :: "string set \<Rightarrow> 'attr NodeConfig list \<Rightarrow> ValidationError list" where
  "node_loop seen [] = []"
| "node_loop seen (n # ns) =
     (if node_name n \<in> seen then [DuplicateNodeName (node_name n)] else []) @
     (case replay_ring n of
        None \<Rightarrow> []
      | Some cap \<Rightarrow> range_error (node_name n) ''replay_ring'' cap 0 MAX_REPLAY_RING) @
     kind_errors n @
     node_loop (insert (node_name n) seen) ns"

text \<open>The edge rules; \<open>held\<close> maps a host-facing endpoint to its first effectively held origin.\<close>

fun edge_rules ::
  "'attr GraphConfig \<Rightarrow> nat \<Rightarrow> EdgeConfig list \<Rightarrow> (EndpointAddr \<times> EndpointAddr) list \<Rightarrow> ValidationError list" where
  "edge_rules c i [] held = []"
| "edge_rules c i (e # es) held =
     (case edge_ends c e of
        None \<Rightarrow> edge_rules c (Suc i) es held
      | Some (host, target) \<Rightarrow>
          (if is_multiplexed_endpoint c target \<and> endpoint_arbitrates c host \<and>
              \<not> (cfg_write_mode e = Held \<or> cfg_write_mode e = Never)
           then [MultiplexedEdgeNotHeld i host target (cfg_write_mode e)] else []) @
          (if effective_write_mode c e = Held \<and> endpoint_arbitrates c host then
             (case hash_get held host of
                Some prior \<Rightarrow> ConflictingHeldEdges host prior target # edge_rules c (Suc i) es held
              | None \<Rightarrow> edge_rules c (Suc i) es (hash_insert host target held))
           else edge_rules c (Suc i) es held))"

definition config_validate ::
  "((EndpointAddr \<times> nat) list \<Rightarrow> (EndpointAddr \<times> nat) list) \<Rightarrow> (string list \<Rightarrow> string list) \<Rightarrow>
     'attr GraphConfig \<Rightarrow> ValidationError list option" where
  "config_validate count_order key_order c =
     map_option (\<lambda>model_errors. node_loop {} (nodes c) @ edge_rules c 0 (cfg_edges c) [] @ model_errors)
       (validate count_order key_order (to_model c))"

section \<open>Defaults\<close>

definition default_baud :: u32 where
  "default_baud = 115200"

definition default_serial_hostward_buffer :: nat where
  "default_serial_hostward_buffer = 256"

definition default_pty_hostward_buffer :: nat where
  "default_pty_hostward_buffer = 32"

definition default_rotation_padding :: byte where
  "default_rotation_padding = 3"

definition default_reconnect_initial_ms :: u64 where
  "default_reconnect_initial_ms = 200"

definition default_reconnect_max_ms :: u64 where
  "default_reconnect_max_ms = 5000"

definition default_idle_release_ms :: u64 where
  "default_idle_release_ms = 1000"

section \<open>The configuration and its model agree\<close>

definition edge_of :: "EdgeConfig \<Rightarrow> EdgeSpec" where
  "edge_of e = \<lparr>edge_a = cfg_a e, edge_b = cfg_b e, edge_write_mode = cfg_write_mode e\<rparr>"

definition node_names :: "'attr GraphConfig \<Rightarrow> string list" where
  "node_names c = map node_name (nodes c)"

lemma add_edges:
  "fold (\<lambda>e m. add_edge m (edge_of e)) es m = m\<lparr>edges := edges m @ map edge_of es\<rparr>"
  by (induction es arbitrary: m) (simp_all add: add_edge_def)

lemma add_nodes_edges: "edges (fold (\<lambda>n m. add_node m (node_name n) (shape n)) ns m) = edges m"
  by (induction ns arbitrary: m) (simp_all add: add_node_def)

lemma add_nodes_shapes:
  assumes "distinct (map node_name ns)" and "\<forall>n \<in> set ns. hash_get (shapes m) (node_name n) = None"
  shows "hash_get (shapes (fold (\<lambda>n m. add_node m (node_name n) (shape n)) ns m)) k =
    (case find (\<lambda>n. node_name n = k) ns of Some n \<Rightarrow> Some (shape n) | None \<Rightarrow> hash_get (shapes m) k)"
  using assms
proof (induction ns arbitrary: m)
  case (Cons n ns)
  let ?m = "add_node m (node_name n) (shape n)"
  have get: "hash_get (shapes ?m) = (hash_get (shapes m))(node_name n \<mapsto> shape n)"
    by (simp add: add_node_def hash_get_insert)
  have none: "\<forall>n' \<in> set ns. hash_get (shapes ?m) (node_name n') = None"
    using Cons.prems by (auto simp: get rev_image_eqI)
  have "find (\<lambda>n'. node_name n' = node_name n) ns = None"
    using Cons.prems(1) by (auto simp: find_None_iff image_iff)
  then show ?case using Cons.IH [OF _ none] Cons.prems(1) get by (auto split: option.splits)
qed simp

lemma to_model_edges: "edges (to_model c) = map edge_of (cfg_edges c)"
  using add_edges [of "cfg_edges c"] add_nodes_edges [of "nodes c" graph_new]
  by (simp add: to_model_def edge_of_def graph_new_def)

lemma to_model_shapes:
  assumes "distinct (node_names c)"
  shows "hash_get (shapes (to_model c)) k = map_option shape (node_named c k)"
  using add_edges [of "cfg_edges c"] add_nodes_shapes [of "nodes c" graph_new k] assms
  by (auto simp: to_model_def edge_of_def graph_new_def node_named_def node_names_def hash_get_fun
      split: option.splits)

lemma endpoint_facing_model:
  assumes "distinct (node_names c)"
  shows "endpoint_facing c addr =
    (case graph_resolve (shapes (to_model c)) addr of Inr ep \<Rightarrow> Some (ep_facing ep) | Inl _ \<Rightarrow> None)"
  using to_model_shapes [OF assms, of "addr_node addr"]
  by (auto simp: endpoint_facing_def graph_resolve_def shape_endpoint_def split: option.splits)

lemma edge_ends_oriented:
  "distinct (node_names c) \<Longrightarrow> edge_ends c e = oriented (shapes (to_model c)) (edge_of e)"
  using endpoint_facing_model [of c "cfg_a e"] endpoint_facing_model [of c "cfg_b e"]
  by (auto simp: edge_ends_def oriented_def edge_of_def split: sum.splits Facing.splits)

text \<open>
  The configuration's own reading of an edge is the graph model's. With unique node names, the
  ends that \<open>GraphConfig\<close> derives from node kinds (and which the daemon's wiring uses) are the
  host-facing and the target-facing end the validated model orients the edge by.
\<close>

theorem edge_ends_refine_model:
  assumes "distinct (node_names c)"
  shows "edge_ends c e = oriented (shapes (to_model c)) (edge_of e)"
  by (rule edge_ends_oriented [OF assms])

text \<open>A serial port, a map in front of it and a terminal beside it.\<close>

definition example_config :: "unit GraphConfig" where
  "example_config =
     \<lparr>nodes =
        [Serial \<lparr>serial_name = ''port'', serial_device = ''/dev/ttyUSB0'', serial_baud = 115200,
           serial_data_bits = Eight, serial_parity = ParityNone, serial_stop_bits = One,
           serial_flow_control = FlowNone, serial_faces = Host, serial_arbitration = Exclusive,
           serial_hostward_buffer = 1, serial_purge_on_reconnect = True, serial_replay_ring = 0,
           serial_modem = \<lparr>dtr = None, rts = None\<rparr>\<rparr>,
         Map \<lparr>map_name = ''m'', map_hostward = [''crlf''], map_targetward = [], map_arbitration = Exclusive,
           map_replay_ring = 0\<rparr>,
         Pty \<lparr>pty_name = ''p'', pty_path = ''/run/p'', pty_owner = None, pty_group = None, pty_mode = None,
           pty_advertised_baud = 9600, pty_hostward_buffer = 1\<rparr>],
      cfg_edges =
        [\<lparr>cfg_a = EndpointAddr_node ''port'', cfg_b = EndpointAddr_new ''m'' ''raw'', cfg_write_mode = OnDemand\<rparr>,
         \<lparr>cfg_a = EndpointAddr_node ''p'', cfg_b = EndpointAddr_node ''port'', cfg_write_mode = OnDemand\<rparr>]\<rparr>"

theorem edge_ends_refine_model_witness:
  "edge_ends example_config (hd (cfg_edges example_config)) = Some (EndpointAddr_node ''port'', EndpointAddr_new ''m'' ''raw'') \<and>
   edge_ends example_config (hd (cfg_edges example_config)) =
     oriented (shapes (to_model example_config)) (edge_of (hd (cfg_edges example_config)))"
proof -
  have "distinct (node_names example_config)" by (simp add: example_config_def node_names_def)
  from edge_ends_refine_model [OF this, of "hd (cfg_edges example_config)"] show ?thesis
    by (simp add: example_config_def edge_ends_def endpoint_facing_def node_named_def EndpointAddr_node_def
        EndpointAddr_new_def single_arb_def DEFAULT_ENDPOINT_def MAP_RAW_ENDPOINT_def)
qed

section \<open>What a valid configuration is\<close>

definition depth_ok :: "nat \<Rightarrow> bool" where
  "depth_ok d \<longleftrightarrow> 1 \<le> d \<and> d \<le> MAX_HOSTWARD_BUFFER"

fun node_ok :: "'attr NodeConfig \<Rightarrow> bool" where
  "node_ok (Serial c) \<longleftrightarrow> depth_ok (serial_hostward_buffer c) \<and> serial_faces c = Host \<and> serial_baud c \<noteq> 0 \<and>
     serial_replay_ring c \<le> MAX_REPLAY_RING"
| "node_ok (Pty c) \<longleftrightarrow> depth_ok (pty_hostward_buffer c) \<and> pty_advertised_baud c \<noteq> 0 \<and>
     (\<forall>m. pty_mode c = Some m \<longrightarrow> 384 \<le> unat m \<and> unat m \<le> 511)"
| "node_ok (Log c) \<longleftrightarrow> unat (log_rotation_padding c) \<le> MAX_ROTATION_PADDING"
| "node_ok (Codec c) \<longleftrightarrow> codec_replay_ring c \<le> MAX_REPLAY_RING"
| "node_ok (Leg c) \<longleftrightarrow> leg_replay_ring c \<le> MAX_REPLAY_RING \<and>
     unat (leg_reconnect_initial_ms c) \<le> MAX_TIMER_MS \<and> unat (leg_reconnect_max_ms c) \<le> MAX_TIMER_MS \<and>
     unat (leg_idle_release_ms c) \<le> MAX_TIMER_MS \<and>
     (leg_transport c = Tcp \<longrightarrow> leg_insecure_bind c \<or> is_loopback_addr (leg_address c)) \<and>
     leg_channels c \<noteq> [] \<and> [] \<notin> set (leg_channels c)"
| "node_ok (Map c) \<longleftrightarrow> map_replay_ring c \<le> MAX_REPLAY_RING \<and>
     (\<exists>d. parse (map_hostward c) = Ok d) \<and> (\<exists>d. parse (map_targetward c) = Ok d)"

text \<open>The origin side of an edge that will hold an arbitrated endpoint indefinitely.\<close>

definition held_host :: "'attr GraphConfig \<Rightarrow> EdgeConfig \<Rightarrow> EndpointAddr option" where
  "held_host c e =
     (case edge_ends c e of
        Some (host, _) \<Rightarrow> if effective_write_mode c e = Held \<and> endpoint_arbitrates c host then Some host else None
      | None \<Rightarrow> None)"

definition mux_ok :: "'attr GraphConfig \<Rightarrow> EdgeConfig \<Rightarrow> bool" where
  "mux_ok c e \<longleftrightarrow>
     (\<forall>host target. edge_ends c e = Some (host, target) \<and> is_multiplexed_endpoint c target \<and>
        endpoint_arbitrates c host \<longrightarrow> cfg_write_mode e \<noteq> OnDemand)"

definition config_valid :: "'attr GraphConfig \<Rightarrow> bool" where
  "config_valid c \<longleftrightarrow>
     distinct (node_names c) \<and> (\<forall>n \<in> set (nodes c). node_ok n) \<and>
     (\<forall>e \<in> set (cfg_edges c). mux_ok c e) \<and> distinct (List.map_filter (held_host c) (cfg_edges c)) \<and>
     graph_valid (to_model c)"

lemma parse_ok_iff: "(\<exists>d. parse ns = Ok d) \<longleftrightarrow> set ns \<subseteq> set all_names"
proof -
  have "(\<exists>d. parse ns = Ok d) \<longleftrightarrow> (\<exists>rules. parse_rules ns = Ok rules)"
    by (auto simp: parse_def split: sum.splits)
  also have "\<dots> \<longleftrightarrow> set ns \<subseteq> set all_names"
  proof (cases "parse_rules ns")
    case (Inl n)
    with parse_rules_spec [of ns] show ?thesis by auto
  next
    case (Inr rules)
    with parse_rules_spec [of ns] have eq: "map from_name ns = map Some rules" by simp
    have "n \<in> set all_names" if "n \<in> set ns" for n
    proof -
      from that eq have "from_name n \<in> Some ` set rules" by (metis image_eqI list.set_map)
      then show ?thesis using from_name_None [of n] by auto
    qed
    then show ?thesis using Inr by auto
  qed
  finally show ?thesis .
qed

lemma unat_ge_1: "1 \<le> unat (w :: 'a::len word) \<longleftrightarrow> w \<noteq> 0"
  using unat_gt_0 [of w] by linarith

lemma unat_u32_max: "unat (w :: u32) \<le> 4294967295"
  using unsigned_less [of w, where ?'a = nat] by simp

lemma facing_not_Target: "f \<noteq> Target \<longleftrightarrow> f = Host"
  by (cases f) simp_all

lemma range_error_Nil: "range_error node field v lo hi = [] \<longleftrightarrow> lo \<le> v \<and> v \<le> hi"
  by (auto simp: range_error_def)

lemma buffer_errors_Nil: "hostward_buffer_errors name d = [] \<longleftrightarrow> depth_ok d"
  by (auto simp: hostward_buffer_errors_def range_error_Nil depth_ok_def)

lemma unknown_mappings_Nil:
  "concat (map (\<lambda>m. if from_name m = None then [UnknownMapping node m] else []) ms) = [] \<longleftrightarrow> set ms \<subseteq> set all_names"
  by (induction ms) (auto simp: from_name_None)

lemma kind_errors_Nil:
  "kind_errors n = [] \<and> (case replay_ring n of None \<Rightarrow> True | Some cap \<Rightarrow> cap \<le> MAX_REPLAY_RING) \<longleftrightarrow> node_ok n"
proof (cases n)
  case (Serial c)
  then show ?thesis
    using unat_u32_max [of "serial_baud c"]
    by (auto simp: kind_defs range_error_Nil buffer_errors_Nil unat_ge_1 [simplified] facing_not_Target)
next
  case (Pty c)
  then show ?thesis
    using unat_u32_max [of "pty_advertised_baud c"]
    by (auto simp: kind_defs range_error_Nil buffer_errors_Nil unat_ge_1 [simplified] split: option.splits)
next
  case (Map c)
  then show ?thesis
    using unknown_mappings_Nil [of "map_name c" "map_hostward c @ map_targetward c"] parse_ok_iff
    by (auto simp: kind_defs)
qed (auto simp: kind_defs range_error_Nil list_ex_iff)

lemma node_loop_Nil:
  "node_loop seen ns = [] \<longleftrightarrow>
     (\<forall>n \<in> set ns. node_ok n) \<and> distinct (map node_name ns) \<and> node_name ` set ns \<inter> seen = {}"
proof (induction ns arbitrary: seen)
  case (Cons n ns)
  have "kind_errors n = [] \<and> (case replay_ring n of None \<Rightarrow> []
      | Some cap \<Rightarrow> range_error (node_name n) ''replay_ring'' cap 0 MAX_REPLAY_RING) = [] \<longleftrightarrow> node_ok n"
    using kind_errors_Nil [of n] by (auto simp: range_error_Nil split: option.splits)
  with Cons show ?case by auto
qed simp

lemma edge_rules_Nil:
  "edge_rules c i es held = [] \<longleftrightarrow>
     (\<forall>e \<in> set es. mux_ok c e) \<and> distinct (List.map_filter (held_host c) es) \<and>
     (\<forall>h \<in> set (List.map_filter (held_host c) es). hash_get held h = None)"
proof (induction es arbitrary: i held)
  case Nil
  then show ?case by (simp add: map_filter_simps)
next
  case (Cons e es)
  show ?case
  proof (cases "edge_ends c e")
    case None
    then show ?thesis
      using Cons.IH by (simp add: held_host_def mux_ok_def map_filter_simps)
  next
    case (Some ht)
    obtain host target where ht: "ht = (host, target)" by (cases ht)
    have mux: "(is_multiplexed_endpoint c target \<and> endpoint_arbitrates c host \<and>
        \<not> (cfg_write_mode e = Held \<or> cfg_write_mode e = Never)) \<longleftrightarrow> \<not> mux_ok c e"
      using Some ht by (cases "cfg_write_mode e") (simp_all add: mux_ok_def)
    show ?thesis
    proof (cases "effective_write_mode c e = Held \<and> endpoint_arbitrates c host")
      case False
      then have "held_host c e = None" using Some ht by (auto simp: held_host_def)
      then show ?thesis using Some ht False mux Cons.IH by (simp add: map_filter_simps) blast
    next
      case True
      then have "held_host c e = Some host" using Some ht by (simp add: held_host_def)
      then show ?thesis
        using Some ht True mux Cons.IH
        by (cases "hash_get held host") (auto simp: map_filter_simps hash_get_insert split: if_splits)
    qed
  qed
qed

lemma validate_config:
  assumes "orders_ok count_order key_order"
  shows "config_validate count_order key_order c \<noteq> None \<and>
     (config_validate count_order key_order c = Some [] \<longleftrightarrow> config_valid c)"
proof -
  obtain errs where errs: "validate count_order key_order (to_model c) = Some errs"
    and valid: "errs = [] \<longleftrightarrow> graph_valid (to_model c)"
    using validate_rules [OF assms, of "to_model c"] by auto
  have "hash_get [] h = None" for h :: EndpointAddr by (simp add: hash_get_fun)
  with errs valid show ?thesis
    by (auto simp: config_validate_def config_valid_def node_loop_Nil edge_rules_Nil node_names_def)
qed

text \<open>
  C4: the loader's validation decides validity. It never panics, and it returns no error exactly when
  node names are unique, every node's attributes are in range (in particular a TCP leg is loopback
  unless it confesses otherwise, and both mapping lists of a map compile), no on-demand edge feeds an
  arbitrated multiplexed side, no arbitrated endpoint has two effectively held origins, and the graph
  model satisfies the structural rules.
\<close>

theorem config_validate_decides:
  assumes "orders_ok count_order key_order"
  shows "config_validate count_order key_order c \<noteq> None \<and>
     (config_validate count_order key_order c = Some [] \<longleftrightarrow> config_valid c)"
  by (rule validate_config [OF assms])

lemma example_validates: "config_validate rev rev example_config = Some []"
proof -
  have "validate rev rev (to_model example_config) = Some []" by code_simp
  moreover have "node_loop {} (nodes example_config) = []"
    by (simp add: example_config_def range_error_def hostward_buffer_errors_def MAX_HOSTWARD_BUFFER_def
        kind_defs from_name_def VOCABULARY_def)
  moreover have "edge_rules example_config 0 (cfg_edges example_config) [] = []" by code_simp
  ultimately show ?thesis by (simp add: config_validate_def)
qed

lemma rev_orders_ok: "orders_ok rev rev"
  by (simp add: orders_ok_def)

theorem config_validate_decides_witness:
  "config_valid example_config"
  using config_validate_decides [OF rev_orders_ok, of example_config] example_validates by blast

section \<open>Write modes at run time\<close>

lemma distinct_map_filter_nth:
  assumes "distinct (List.map_filter f xs)" and "i < length xs" and "j < length xs" and "i \<noteq> j"
    and "f (xs ! i) = Some a"
  shows "f (xs ! j) \<noteq> Some a"
  using assms
proof (induction xs arbitrary: i j)
  case (Cons x xs)
  have mem: "k < length xs \<Longrightarrow> f (xs ! k) = Some b \<Longrightarrow> b \<in> set (List.map_filter f xs)" for k b
    by (force simp: map_filter_def image_iff)
  show ?case
  proof (cases i)
    case 0
    then obtain j' where "j = Suc j'" "j' < length xs" using Cons.prems by (cases j) auto
    with 0 Cons.prems mem [of j'] show ?thesis by (auto simp: map_filter_simps)
  next
    case (Suc i')
    then have i': "i' < length xs" "f (xs ! i') = Some a" using Cons.prems by auto
    show ?thesis
    proof (cases j)
      case 0
      with i' Cons.prems mem [of i'] show ?thesis by (auto simp: map_filter_simps)
    next
      case j: (Suc j')
      have "distinct (List.map_filter f xs)" using Cons.prems(1) by (auto simp: map_filter_simps split: option.splits)
      with j Suc i' Cons.prems Cons.IH [of i' j'] show ?thesis by auto
    qed
  qed
qed simp

text \<open>The target-facing ends of the edges, as the graph model has them.\<close>

lemma target_ends_model:
  assumes "distinct (node_names c)"
  shows "map snd (oriented_edges (to_model c)) = List.map_filter (\<lambda>e. map_option snd (edge_ends c e)) (cfg_edges c)"
  using edge_ends_oriented [OF assms]
  by (auto simp: oriented_edges_def to_model_edges map_filter_def comp_def filter_map)

text \<open>
  C13: a configuration that validates gives no lock two permanent owners and no origin a lock it can never
  get. Every edge is oriented, and one into an arbitrated multiplexed side is not on demand at run time, after the
  promotions of \<open>effective_write_mode\<close>; two different edges never share their target-facing end and never both
  hold the same arbitrated host-facing endpoint.
\<close>

theorem validated_write_modes:
  assumes "orders_ok count_order key_order" and "config_validate count_order key_order c = Some []"
  shows "(\<forall>e \<in> set (cfg_edges c). \<exists>h t. edge_ends c e = Some (h, t) \<and>
       (is_multiplexed_endpoint c t \<and> endpoint_arbitrates c h \<longrightarrow> effective_write_mode c e \<noteq> OnDemand)) \<and>
     (\<forall>i j h t h' t'. i < length (cfg_edges c) \<and> j < length (cfg_edges c) \<and> i \<noteq> j \<and>
        edge_ends c (cfg_edges c ! i) = Some (h, t) \<and> edge_ends c (cfg_edges c ! j) = Some (h', t') \<longrightarrow>
        t \<noteq> t' \<and>
        \<not> (h = h' \<and> endpoint_arbitrates c h \<and>
           effective_write_mode c (cfg_edges c ! i) = Held \<and> effective_write_mode c (cfg_edges c ! j) = Held))"
proof (intro conjI ballI allI impI)
  have valid: "config_valid c"
    using assms validate_config [of count_order key_order c] by blast
  then have names: "distinct (node_names c)" by (simp add: config_valid_def)
  {
    fix e assume e: "e \<in> set (cfg_edges c)"
    then have "edge_ends c e \<noteq> None"
      using valid edge_ends_oriented [OF names, of e] by (auto simp: config_valid_def graph_valid_def to_model_edges)
    moreover have "mux_ok c e" using valid e by (simp add: config_valid_def)
    ultimately show "\<exists>h t. edge_ends c e = Some (h, t) \<and>
        (is_multiplexed_endpoint c t \<and> endpoint_arbitrates c h \<longrightarrow> effective_write_mode c e \<noteq> OnDemand)"
      by (auto simp: mux_ok_def effective_write_mode_def)
  }
  fix i j h t h' t'
  assume ij: "i < length (cfg_edges c) \<and> j < length (cfg_edges c) \<and> i \<noteq> j \<and>
    edge_ends c (cfg_edges c ! i) = Some (h, t) \<and> edge_ends c (cfg_edges c ! j) = Some (h', t')"
  have "distinct (List.map_filter (\<lambda>e. map_option snd (edge_ends c e)) (cfg_edges c))"
    using valid by (simp add: config_valid_def graph_valid_def flip: target_ends_model [OF names])
  then show "t \<noteq> t'"
    using distinct_map_filter_nth [of "\<lambda>e. map_option snd (edge_ends c e)" "cfg_edges c" i j t] ij by auto
  show "\<not> (h = h' \<and> endpoint_arbitrates c h \<and>
      effective_write_mode c (cfg_edges c ! i) = Held \<and> effective_write_mode c (cfg_edges c ! j) = Held)"
    using distinct_map_filter_nth [of "held_host c" "cfg_edges c" i j h] valid ij
    by (auto simp: config_valid_def held_host_def)
qed

lemma example_ends:
  "edge_ends example_config (cfg_edges example_config ! 0) = Some (EndpointAddr_node ''port'', EndpointAddr_new ''m'' ''raw'')"
  "edge_ends example_config (cfg_edges example_config ! 1) = Some (EndpointAddr_node ''port'', EndpointAddr_node ''p'')"
  by code_simp+

text \<open>A serial port with a codec on it: one edge, into an arbitrated multiplexed side.\<close>

definition mux_config :: "unit GraphConfig" where
  "mux_config =
     \<lparr>nodes =
        [hd (nodes example_config),
         Codec \<lparr>codec_name = ''x'', codec_codec = ''reference'', codec_faces = Target, codec_channels = [''a''],
           codec_arbitration = Exclusive, codec_replay_ring = 0, codec_attributes = ()\<rparr>],
      cfg_edges = [\<lparr>cfg_a = EndpointAddr_node ''port'', cfg_b = EndpointAddr_node ''x'', cfg_write_mode = Held\<rparr>]\<rparr>"

lemma mux_validates: "config_validate rev rev mux_config = Some []"
proof -
  have "validate rev rev (to_model mux_config) = Some []" by code_simp
  moreover have "node_loop {} (nodes mux_config) = []"
    by (simp add: mux_config_def example_config_def range_error_def hostward_buffer_errors_def MAX_HOSTWARD_BUFFER_def
        kind_defs from_name_def VOCABULARY_def)
  moreover have "edge_rules mux_config 0 (cfg_edges mux_config) [] = []" by code_simp
  ultimately show ?thesis by (simp add: config_validate_def)
qed

theorem validated_write_modes_witness:
  "effective_write_mode example_config (cfg_edges example_config ! 0) = Held \<and>
   effective_write_mode example_config (cfg_edges example_config ! 1) \<noteq> Held \<and>
   is_multiplexed_endpoint mux_config (EndpointAddr_node ''x'') \<and>
   effective_write_mode mux_config (hd (cfg_edges mux_config)) \<noteq> OnDemand"
proof (intro conjI)
  show h: "effective_write_mode example_config (cfg_edges example_config ! 0) = Held" by code_simp
  have a: "endpoint_arbitrates example_config (EndpointAddr_node ''port'')" by code_simp
  have n: "0 < length (cfg_edges example_config)" "1 < length (cfg_edges example_config)"
    by (simp_all add: example_config_def)
  note two = validated_write_modes [OF rev_orders_ok example_validates, THEN conjunct2, rule_format, of 0 1]
  from two h a n example_ends show "effective_write_mode example_config (cfg_edges example_config ! 1) \<noteq> Held" by auto
  show m: "is_multiplexed_endpoint mux_config (EndpointAddr_node ''x'')" by code_simp
  have e: "edge_ends mux_config (hd (cfg_edges mux_config)) = Some (EndpointAddr_node ''port'', EndpointAddr_node ''x'')"
    "endpoint_arbitrates mux_config (EndpointAddr_node ''port'')" by code_simp+
  have "hd (cfg_edges mux_config) \<in> set (cfg_edges mux_config)" by (simp add: mux_config_def)
  with validated_write_modes [OF rev_orders_ok mux_validates] m e
  show "effective_write_mode mux_config (hd (cfg_edges mux_config)) \<noteq> OnDemand" by fastforce
qed

text \<open>
  What the data plane registers for an edge. A log is never written to whatever the edge says; a
  map's raw side is never on demand; every other edge keeps its declared mode; and the effective mode
  is stable: declaring it explicitly changes nothing.
\<close>

theorem effective_mode_rules:
  "(case edge_ends c e of
      None \<Rightarrow> effective_write_mode c e = cfg_write_mode e
    | Some (_, t) \<Rightarrow>
        (case node_named c (addr_node t) of
           Some (Log _) \<Rightarrow> effective_write_mode c e = Never
         | Some (Map _) \<Rightarrow>
             (addr_endpoint t = MAP_RAW_ENDPOINT \<longrightarrow> effective_write_mode c e \<noteq> OnDemand) \<and>
             (cfg_write_mode e \<noteq> OnDemand \<longrightarrow> effective_write_mode c e = cfg_write_mode e)
         | _ \<Rightarrow> effective_write_mode c e = cfg_write_mode e)) \<and>
   effective_write_mode c (e\<lparr>cfg_write_mode := effective_write_mode c e\<rparr>) = effective_write_mode c e"
proof -
  have "edge_ends c (e\<lparr>cfg_write_mode := m\<rparr>) = edge_ends c e" for m
    by (auto simp: edge_ends_def split: option.splits Facing.splits)
  then show ?thesis
    by (auto simp: effective_write_mode_def split: option.splits NodeConfig.splits)
qed

theorem effective_mode_rules_witness:
  "effective_write_mode example_config ((cfg_edges example_config ! 0)\<lparr>cfg_write_mode :=
     effective_write_mode example_config (cfg_edges example_config ! 0)\<rparr>) =
   effective_write_mode example_config (cfg_edges example_config ! 0)"
  using effective_mode_rules [of example_config "cfg_edges example_config ! 0"] by blast

end
