(* ===== verification/Data_Plane.thy ===== *)
theory Data_Plane
  imports Prelude "HOL-Library.Sublist"
begin

text \<open>
  The data-plane contracts (\<open>core/src/data.rs\<close>): the hostward broadcast with per-consumer loss, and the
  targetward path with \<open>Accepted\<close>/\<open>Busy\<close> backpressure, the one-chunk holdover of an interior transform
  and the origin that pumps into it. The interface \<open>TargetwardSink\<close> is the locale
  \<open>targetward_sink\<close>; it is interpreted on the boundary and on one and two interior hops over it.
\<close>

type_synonym Chunk = "byte list"

text \<open>\<open>usize\<close> is a natural number; its largest value matters only for \<open>saturating_add\<close>.\<close>

definition usize_max :: nat where
  "usize_max = 2 ^ 64 - 1"

datatype Delivery = Accepted | Busy

definition is_accepted :: "Delivery \<Rightarrow> bool" where
  "is_accepted d = (case d of Accepted \<Rightarrow> True | Busy \<Rightarrow> False)"

definition is_busy :: "Delivery \<Rightarrow> bool" where
  "is_busy d = (case d of Busy \<Rightarrow> True | Accepted \<Rightarrow> False)"

section \<open>Hostward broadcast\<close>

text \<open>The consumer type and its \<open>deliver_hostward\<close> are arguments, as \<open>HostFanout\<close> is generic.\<close>

record 'c HostFanout =
  consumers :: "'c list"

definition fanout_new :: "'c HostFanout" where
  "fanout_new = \<lparr>consumers = []\<rparr>"

definition attach :: "'c HostFanout \<Rightarrow> 'c \<Rightarrow> 'c HostFanout \<times> nat" where
  "attach f c =
     (let f' = f\<lparr>consumers := consumers f @ [c]\<rparr> in (f', length (consumers f') - 1))"

text \<open>Indexing past the list panics: \<open>None\<close>.\<close>

definition fanout_consumer :: "'c HostFanout \<Rightarrow> nat \<Rightarrow> 'c option" where
  "fanout_consumer f i = (if i < length (consumers f) then Some (consumers f ! i) else None)"

definition broadcast :: "('c \<Rightarrow> Chunk \<Rightarrow> 'c) \<Rightarrow> 'c HostFanout \<Rightarrow> Chunk \<Rightarrow> 'c HostFanout" where
  "broadcast deliver_hostward f chunk =
     f\<lparr>consumers := map (\<lambda>c. deliver_hostward c chunk) (consumers f)\<rparr>"

record MockConsumer =
  mock_capacity :: nat
  mock_buffered :: "byte list"
  mock_dropped :: u64

definition with_capacity :: "nat \<Rightarrow> MockConsumer" where
  "with_capacity capacity = \<lparr>mock_capacity = capacity, mock_buffered = [], mock_dropped = 0\<rparr>"

definition unbounded :: MockConsumer where
  "unbounded = with_capacity usize_max"

definition received_len :: "MockConsumer \<Rightarrow> nat" where
  "received_len c = length (mock_buffered c)"

definition mock_deliver :: "MockConsumer \<Rightarrow> Chunk \<Rightarrow> MockConsumer" where
  "mock_deliver c chunk =
     (if min (length (mock_buffered c) + length chunk) usize_max \<le> mock_capacity c
      then c\<lparr>mock_buffered := mock_buffered c @ chunk\<rparr>
      else c\<lparr>mock_dropped := mock_dropped c + word_of_nat (length chunk)\<rparr>)"

section \<open>Targetward path\<close>

record Holdover =
  slot :: "Chunk option"

definition is_parked :: "Holdover \<Rightarrow> bool" where
  "is_parked h \<longleftrightarrow> slot h \<noteq> None"

definition holdover_bytes :: "Holdover \<Rightarrow> nat" where
  "holdover_bytes h = (case slot h of None \<Rightarrow> 0 | Some c \<Rightarrow> length c)"

text \<open>\<open>park\<close> asserts that the slot is empty; \<open>None\<close> is the failed assertion.\<close>

definition park :: "Holdover \<Rightarrow> Chunk \<Rightarrow> Holdover option" where
  "park h chunk = (if slot h = None then Some (h\<lparr>slot := Some chunk\<rparr>) else None)"

definition holdover_take :: "Holdover \<Rightarrow> Chunk option \<times> Holdover" where
  "holdover_take h = (slot h, h\<lparr>slot := None\<rparr>)"

record BusyBoundary =
  bb_busy :: bool
  bb_received :: "byte list"

definition boundary_new :: BusyBoundary where
  "boundary_new = \<lparr>bb_busy = False, bb_received = []\<rparr>"

definition set_busy :: "bool \<Rightarrow> BusyBoundary \<Rightarrow> BusyBoundary" where
  "set_busy busy b = b\<lparr>bb_busy := busy\<rparr>"

text \<open>A delivery returns the new sink and the answer; \<open>None\<close> would be a failed assertion below it.\<close>

type_synonym 's deliver = "'s \<Rightarrow> Chunk \<Rightarrow> ('s \<times> Delivery) option"
type_synonym 's flush = "'s \<Rightarrow> 's option"

definition boundary_deliver :: "BusyBoundary deliver" where
  "boundary_deliver b chunk =
     (if bb_busy b then Some (b, Busy)
      else Some (b\<lparr>bb_received := bb_received b @ chunk\<rparr>, Accepted))"

text \<open>The trait's default \<open>flush\<close> does nothing.\<close>

definition boundary_flush :: "BusyBoundary flush" where
  "boundary_flush b = Some b"

record 's InteriorTargetward =
  downstream :: 's
  holdover :: Holdover

definition interior_new :: "'s \<Rightarrow> 's InteriorTargetward" where
  "interior_new s = \<lparr>downstream = s, holdover = \<lparr>slot = None\<rparr>\<rparr>"

definition flush_holdover :: "'s deliver \<Rightarrow> 's InteriorTargetward \<Rightarrow> ('s InteriorTargetward \<times> bool) option" where
  "flush_holdover deliver t =
     (let (taken, h) = holdover_take (holdover t); t = t\<lparr>holdover := h\<rparr> in
      case taken of
        None \<Rightarrow> Some (t, True)
      | Some chunk \<Rightarrow>
          (case deliver (downstream t) chunk of
             None \<Rightarrow> None
           | Some (s, Accepted) \<Rightarrow> Some (t\<lparr>downstream := s\<rparr>, True)
           | Some (s, Busy) \<Rightarrow>
               (case park (holdover t) chunk of
                  None \<Rightarrow> None
                | Some h \<Rightarrow> Some (t\<lparr>downstream := s, holdover := h\<rparr>, False))))"

definition interior_deliver :: "'s deliver \<Rightarrow> 's InteriorTargetward deliver" where
  "interior_deliver deliver t chunk =
     (case (if is_parked (holdover t) then flush_holdover deliver t else Some (t, True)) of
        None \<Rightarrow> None
      | Some (t, False) \<Rightarrow> Some (t, Busy)
      | Some (t, True) \<Rightarrow>
          (case deliver (downstream t) chunk of
             None \<Rightarrow> None
           | Some (s, Accepted) \<Rightarrow> Some (t\<lparr>downstream := s\<rparr>, Accepted)
           | Some (s, Busy) \<Rightarrow>
               (case park (holdover t) chunk of
                  None \<Rightarrow> None
                | Some h \<Rightarrow> Some (t\<lparr>downstream := s, holdover := h\<rparr>, Accepted))))"

definition interior_flush :: "'s deliver \<Rightarrow> 's flush \<Rightarrow> 's InteriorTargetward flush" where
  "interior_flush deliver flush t =
     (case flush (downstream t) of
        None \<Rightarrow> None
      | Some s \<Rightarrow> map_option fst (flush_holdover deliver (t\<lparr>downstream := s\<rparr>)))"

definition held_bytes :: "'s InteriorTargetward \<Rightarrow> nat" where
  "held_bytes t = holdover_bytes (holdover t)"

record 's Origin =
  sink :: 's
  pending :: "Chunk list"
  paused :: bool
  offered :: nat

definition origin_new :: "'s \<Rightarrow> 's Origin" where
  "origin_new s = \<lparr>sink = s, pending = [], paused = False, offered = 0\<rparr>"

definition pending_bytes :: "'s Origin \<Rightarrow> nat" where
  "pending_bytes org = sum_list (map length (pending org))"

text \<open>The loop of \<open>pump\<close>, over the pending chunks and the pause flag.\<close>

fun pump_loop :: "'s deliver \<Rightarrow> 's \<Rightarrow> Chunk list \<Rightarrow> bool \<Rightarrow> ('s \<times> Chunk list \<times> bool) option" where
  "pump_loop deliver s [] p = Some (s, [], p)"
| "pump_loop deliver s (front # rest) p =
     (case deliver s front of
        None \<Rightarrow> None
      | Some (s', Accepted) \<Rightarrow> pump_loop deliver s' rest False
      | Some (s', Busy) \<Rightarrow> Some (s', front # rest, True))"

definition pump :: "'s deliver \<Rightarrow> 's flush \<Rightarrow> 's Origin \<Rightarrow> 's Origin option" where
  "pump deliver flush org =
     (case flush (sink org) of
        None \<Rightarrow> None
      | Some s \<Rightarrow>
          (case pump_loop deliver s (pending org) (paused org) of
             None \<Rightarrow> None
           | Some (s', rest, p) \<Rightarrow> Some (org\<lparr>sink := s', pending := rest, paused := p\<rparr>)))"

definition offer :: "'s deliver \<Rightarrow> 's flush \<Rightarrow> 's Origin \<Rightarrow> Chunk \<Rightarrow> 's Origin option" where
  "offer deliver flush org chunk =
     pump deliver flush (org\<lparr>offered := offered org + length chunk, pending := pending org @ [chunk]\<rparr>)"

definition resume :: "'s deliver \<Rightarrow> 's flush \<Rightarrow> 's Origin \<Rightarrow> 's Origin option" where
  "resume deliver flush org = pump deliver flush org"

text \<open>
  What can happen to a path: the client offers a chunk, the runtime resumes the origin, the boundary
  at the end changes its readiness (\<open>toggle\<close>).
\<close>

datatype path_action = Offer Chunk | Resume | SetBusy bool

fun path_run ::
  "'s deliver \<Rightarrow> 's flush \<Rightarrow> (bool \<Rightarrow> 's \<Rightarrow> 's) \<Rightarrow> path_action list \<Rightarrow> 's Origin \<Rightarrow> 's Origin option" where
  "path_run deliver flush toggle [] org = Some org"
| "path_run deliver flush toggle (Offer c # as) org =
     (case offer deliver flush org c of None \<Rightarrow> None | Some org \<Rightarrow> path_run deliver flush toggle as org)"
| "path_run deliver flush toggle (Resume # as) org =
     (case resume deliver flush org of None \<Rightarrow> None | Some org \<Rightarrow> path_run deliver flush toggle as org)"
| "path_run deliver flush toggle (SetBusy b # as) org =
     path_run deliver flush toggle as (org\<lparr>sink := toggle b (sink org)\<rparr>)"

fun offered_chunks :: "path_action list \<Rightarrow> Chunk list" where
  "offered_chunks [] = []"
| "offered_chunks (Offer c # as) = c # offered_chunks as"
| "offered_chunks (_ # as) = offered_chunks as"

lemmas path_defs = flush_holdover_def interior_deliver_def interior_flush_def holdover_take_def park_def
  is_parked_def


section \<open>The sink interface\<close>

text \<open>
  \<open>reached s\<close> are the bytes at the end of the path, \<open>parked s\<close> those held over inside it, oldest first;
  \<open>ready s\<close> says that the boundary at the end takes bytes, \<open>sized n s\<close> that no held chunk is longer than
  \<open>n\<close>, and \<open>hops\<close> is the number of interior transforms.
\<close>

locale targetward_sink =
  fixes deliver :: "'s deliver" and flush :: "'s flush" and toggle :: "bool \<Rightarrow> 's \<Rightarrow> 's"
    and reached parked :: "'s \<Rightarrow> byte list" and ready :: "'s \<Rightarrow> bool"
    and sized :: "nat \<Rightarrow> 's \<Rightarrow> bool" and hops :: nat
  assumes accepted_law: "deliver s c = Some (s', Accepted) \<Longrightarrow>
        reached s' @ parked s' = reached s @ parked s @ c"
    and busy_law: "deliver s c = Some (s', Busy) \<Longrightarrow> reached s' @ parked s' = reached s @ parked s"
    and flush_law: "flush s = Some s' \<Longrightarrow> reached s' @ parked s' = reached s @ parked s"
    and deliver_total: "deliver s c \<noteq> None"
    and flush_total: "flush s \<noteq> None"
    and toggle_law: "reached (toggle b s) = reached s \<and> parked (toggle b s) = parked s \<and>
        ready (toggle b s) = (\<not> b) \<and> sized n (toggle b s) = sized n s"
    and ready_deliver: "ready s \<Longrightarrow> parked s = [] \<Longrightarrow>
        \<exists>s'. deliver s c = Some (s', Accepted) \<and> ready s' \<and> parked s' = []"
    and ready_flush: "ready s \<Longrightarrow> flush s = Some s' \<Longrightarrow> ready s' \<and> parked s' = []"
    and sized_deliver: "sized n s \<Longrightarrow> length c \<le> n \<Longrightarrow> deliver s c = Some (s', d) \<Longrightarrow> sized n s'"
    and sized_flush: "sized n s \<Longrightarrow> flush s = Some s' \<Longrightarrow> sized n s'"
    and sized_bound: "sized n s \<Longrightarrow> length (parked s) \<le> hops * n"
begin

text \<open>An origin's stream: what the path has taken, and what still waits on the client side.\<close>

definition stream :: "'s Origin \<Rightarrow> byte list" where
  "stream org = reached (sink org) @ parked (sink org) @ concat (pending org)"

definition pause_ok :: "'s Origin \<Rightarrow> bool" where
  "pause_ok org \<longleftrightarrow> (paused org \<longleftrightarrow> pending org \<noteq> [])"

lemma loop_total: "pump_loop deliver s cs p \<noteq> None"
proof (induction cs arbitrary: s p)
  case (Cons c cs)
  obtain s' d where "deliver s c = Some (s', d)" using deliver_total [of s c] by auto
  then show ?case using Cons.IH by (cases d) auto
qed simp

lemma loop_stream:
  "pump_loop deliver s cs p = Some (s', rest, p') \<Longrightarrow>
     reached s' @ parked s' @ concat rest = reached s @ parked s @ concat cs \<and>
     (p' \<longleftrightarrow> rest \<noteq> [] \<or> (p \<and> cs = []))"
proof (induction cs arbitrary: s p)
  case (Cons c cs)
  obtain s1 d where d: "deliver s c = Some (s1, d)" using deliver_total [of s c] by auto
  show ?case
  proof (cases d)
    case Accepted
    with d have "reached s1 @ parked s1 = reached s @ parked s @ c" by (simp add: accepted_law)
    moreover have "reached s' @ parked s' @ concat rest = (reached s1 @ parked s1) @ concat cs \<and>
        (p' \<longleftrightarrow> rest \<noteq> [])"
      using Cons.IH [of s1 False] Cons.prems d Accepted by simp
    ultimately show ?thesis by simp
  next
    case Busy
    with d have "reached s1 @ parked s1 = reached s @ parked s" by (simp add: busy_law)
    moreover have "s' = s1" "rest = c # cs" "p'" using Cons.prems d Busy by auto
    ultimately show ?thesis by (metis append.assoc list.distinct(1))
  qed
qed simp

lemma loop_ready:
  assumes "ready s" and "parked s = []"
  shows "\<exists>s' p'. pump_loop deliver s cs p = Some (s', [], p') \<and> ready s' \<and> parked s' = []"
  using assms
proof (induction cs arbitrary: s p)
  case (Cons c cs)
  then obtain s' where "deliver s c = Some (s', Accepted)" "ready s'" "parked s' = []"
    using ready_deliver by blast
  with Cons.IH show ?case by simp
qed simp

lemma loop_sized:
  "pump_loop deliver s cs p = Some (s', rest, p') \<Longrightarrow> sized n s \<Longrightarrow> \<forall>c \<in> set cs. length c \<le> n \<Longrightarrow>
     sized n s' \<and> set rest \<subseteq> set cs"
proof (induction cs arbitrary: s p)
  case (Cons c cs)
  obtain s1 d where d: "deliver s c = Some (s1, d)" using deliver_total [of s c] by auto
  then have "sized n s1" using Cons.prems sized_deliver by auto
  with d Cons show ?case by (cases d) auto
qed simp

lemma pump_Some:
  obtains s1 s2 rest p where "flush (sink org) = Some s1"
    "pump_loop deliver s1 (pending org) (paused org) = Some (s2, rest, p)"
    "pump deliver flush org = Some (org\<lparr>sink := s2, pending := rest, paused := p\<rparr>)"
proof -
  obtain s1 where s1: "flush (sink org) = Some s1" using flush_total by fastforce
  obtain s2 rest p where "pump_loop deliver s1 (pending org) (paused org) = Some (s2, rest, p)"
    using loop_total [of s1 "pending org" "paused org"] by auto
  with s1 show ?thesis using that by (simp add: pump_def)
qed

lemma pump_stream:
  "\<exists>org'. pump deliver flush org = Some org' \<and> stream org' = stream org \<and> offered org' = offered org \<and>
     (pause_ok org \<or> pending org \<noteq> [] \<longrightarrow> pause_ok org')"
proof -
  obtain s1 s2 rest p where *: "flush (sink org) = Some s1"
    "pump_loop deliver s1 (pending org) (paused org) = Some (s2, rest, p)"
    "pump deliver flush org = Some (org\<lparr>sink := s2, pending := rest, paused := p\<rparr>)"
    by (rule pump_Some)
  have "reached s1 @ parked s1 = reached (sink org) @ parked (sink org)" using * flush_law by blast
  with loop_stream [OF *(2)] * show ?thesis
    by (auto simp: stream_def pause_ok_def)
qed

lemma pump_ready:
  assumes "ready (sink org)"
  shows "\<exists>org'. pump deliver flush org = Some org' \<and> pending org' = [] \<and> parked (sink org') = []"
proof -
  obtain s1 where s1: "flush (sink org) = Some s1" using flush_total by fastforce
  then have "ready s1" "parked s1 = []" using assms ready_flush by blast+
  with loop_ready [of s1 "pending org" "paused org"] s1 show ?thesis by (auto simp: pump_def)
qed

definition path_inv :: "nat \<Rightarrow> 's Origin \<Rightarrow> bool" where
  "path_inv n org \<longleftrightarrow> sized n (sink org) \<and> (\<forall>c \<in> set (pending org). length c \<le> n)"

lemma pump_sized:
  assumes "path_inv n org" and "pump deliver flush org = Some org'"
  shows "path_inv n org'"
proof -
  obtain s1 s2 rest p where *: "flush (sink org) = Some s1"
    "pump_loop deliver s1 (pending org) (paused org) = Some (s2, rest, p)"
    "pump deliver flush org = Some (org\<lparr>sink := s2, pending := rest, paused := p\<rparr>)"
    by (rule pump_Some)
  have "sized n s1" using * assms(1) sized_flush by (auto simp: path_inv_def)
  moreover have "\<forall>c \<in> set (pending org). length c \<le> n" using assms(1) by (simp add: path_inv_def)
  ultimately have "sized n s2 \<and> set rest \<subseteq> set (pending org)" by (rule loop_sized [OF *(2)])
  with assms * show ?thesis by (auto simp: path_inv_def)
qed

lemma run_stream:
  assumes "pause_ok org"
  shows "\<exists>org'. path_run deliver flush toggle as org = Some org' \<and>
     stream org' = stream org @ concat (offered_chunks as) \<and> pause_ok org' \<and>
     offered org' = offered org + length (concat (offered_chunks as))"
  using assms
proof (induction as arbitrary: org)
  case (Cons a as)
  show ?case
  proof (cases a)
    case (Offer c)
    let ?o = "org\<lparr>offered := offered org + length c, pending := pending org @ [c]\<rparr>"
    obtain o1 where o1: "pump deliver flush ?o = Some o1" "stream o1 = stream ?o"
      "offered o1 = offered ?o" "pause_ok o1"
      using pump_stream [of ?o] by auto
    then show ?thesis using Cons.IH [of o1] Offer by (auto simp: offer_def stream_def)
  next
    case Resume
    obtain o1 where "pump deliver flush org = Some o1" "stream o1 = stream org"
      "offered o1 = offered org" "pause_ok o1"
      using pump_stream [of org] Cons.prems by auto
    then show ?thesis using Cons.IH [of o1] Resume by (simp add: resume_def)
  next
    case (SetBusy b)
    have "stream (org\<lparr>sink := toggle b (sink org)\<rparr>) = stream org"
      "pause_ok (org\<lparr>sink := toggle b (sink org)\<rparr>)"
      using toggle_law Cons.prems by (simp_all add: stream_def pause_ok_def)
    then show ?thesis
      using Cons.IH [of "org\<lparr>sink := toggle b (sink org)\<rparr>"] SetBusy by simp
  qed
qed simp

lemma run_sized:
  assumes "path_inv n org" and "\<forall>c \<in> set (offered_chunks as). length c \<le> n"
    and "path_run deliver flush toggle as org = Some org'"
  shows "path_inv n org'"
  using assms
proof (induction as arbitrary: org)
  case (Cons a as)
  show ?case
  proof (cases a)
    case (Offer c)
    let ?o = "org\<lparr>offered := offered org + length c, pending := pending org @ [c]\<rparr>"
    have "path_inv n ?o" using Cons.prems Offer by (auto simp: path_inv_def)
    with Cons Offer pump_sized [of n ?o] show ?thesis
      by (auto simp: offer_def split: option.splits)
  next
    case Resume
    with Cons pump_sized [of n org] show ?thesis
      by (auto simp: resume_def split: option.splits)
  next
    case (SetBusy b)
    have "path_inv n (org\<lparr>sink := toggle b (sink org)\<rparr>)"
      using Cons.prems(1) toggle_law by (simp add: path_inv_def)
    with Cons SetBusy show ?thesis by simp
  qed
qed simp

text \<open>An interior transform over a sink is again a sink, one hop longer.\<close>

lemma flush_holdover_cases:
  obtains (empty) "slot (holdover t) = None" "flush_holdover deliver t = Some (t, True)"
  | (drained) c s where "slot (holdover t) = Some c" "deliver (downstream t) c = Some (s, Accepted)"
      "flush_holdover deliver t = Some (\<lparr>downstream = s, holdover = \<lparr>slot = None\<rparr>\<rparr>, True)"
  | (stuck) c s where "slot (holdover t) = Some c" "deliver (downstream t) c = Some (s, Busy)"
      "flush_holdover deliver t = Some (\<lparr>downstream = s, holdover = \<lparr>slot = Some c\<rparr>\<rparr>, False)"
proof (cases "slot (holdover t)")
  case None
  then show ?thesis using empty by (simp add: path_defs)
next
  case (Some c)
  obtain s d where "deliver (downstream t) c = Some (s, d)"
    using deliver_total [of "downstream t" c] by auto
  with Some show ?thesis using drained stuck
    by (cases t; cases d) (simp_all add: path_defs)
qed

definition int_parked :: "'s InteriorTargetward \<Rightarrow> byte list" where
  "int_parked t = parked (downstream t) @ (case slot (holdover t) of None \<Rightarrow> [] | Some c \<Rightarrow> c)"

lemma flush_holdover_total: "\<exists>t' b. flush_holdover deliver t = Some (t', b)"
  by (rule flush_holdover_cases [of t]) auto

lemma flush_holdover_bytes:
  "flush_holdover deliver t = Some (t', b) \<Longrightarrow>
     reached (downstream t') @ int_parked t' = reached (downstream t) @ int_parked t \<and>
     (b \<longrightarrow> slot (holdover t') = None)"
proof (rule flush_holdover_cases [of t])
  fix c s
  assume *: "flush_holdover deliver t = Some (t', b)" "slot (holdover t) = Some c"
    "deliver (downstream t) c = Some (s, Accepted)"
    "flush_holdover deliver t = Some (\<lparr>downstream = s, holdover = \<lparr>slot = None\<rparr>\<rparr>, True)"
  then show ?thesis using accepted_law [OF *(3)] by (auto simp: int_parked_def)
next
  fix c s
  assume *: "flush_holdover deliver t = Some (t', b)" "slot (holdover t) = Some c"
    "deliver (downstream t) c = Some (s, Busy)"
    "flush_holdover deliver t = Some (\<lparr>downstream = s, holdover = \<lparr>slot = Some c\<rparr>\<rparr>, False)"
  then show ?thesis using busy_law [OF *(3)] by (auto simp: int_parked_def)
qed auto

lemma interior_deliver_cases:
  obtains (refused) t' where "flush_holdover deliver t = Some (t', False)"
      "interior_deliver deliver t c = Some (t', Busy)"
  | (passed) t' s where "flush_holdover deliver t = Some (t', True)"
      "deliver (downstream t') c = Some (s, Accepted)"
      "interior_deliver deliver t c = Some (\<lparr>downstream = s, holdover = \<lparr>slot = None\<rparr>\<rparr>, Accepted)"
  | (held) t' s where "flush_holdover deliver t = Some (t', True)"
      "deliver (downstream t') c = Some (s, Busy)"
      "interior_deliver deliver t c = Some (\<lparr>downstream = s, holdover = \<lparr>slot = Some c\<rparr>\<rparr>, Accepted)"
proof -
  obtain t' b where f: "flush_holdover deliver t = Some (t', b)" using flush_holdover_total by blast
  have pre: "(if is_parked (holdover t) then flush_holdover deliver t else Some (t, True)) = Some (t', b)"
    using f by (auto simp: is_parked_def flush_holdover_def holdover_take_def)
  show ?thesis
  proof (cases b)
    case False
    with pre f show ?thesis using refused by (simp add: interior_deliver_def)
  next
    case True
    with f have none: "slot (holdover t') = None" using flush_holdover_bytes by blast
    obtain s d where d: "deliver (downstream t') c = Some (s, d)"
      using deliver_total [of "downstream t'" c] by auto
    show ?thesis
      using pre f True none d passed held
      by (cases t'; cases d) (simp_all add: interior_deliver_def park_def)
  qed
qed

lemma interior_accepted:
  assumes "interior_deliver deliver t c = Some (t', Accepted)"
  shows "reached (downstream t') @ int_parked t' = reached (downstream t) @ int_parked t @ c"
proof (rule interior_deliver_cases [of t c])
  fix t1 s
  assume *: "flush_holdover deliver t = Some (t1, True)" "deliver (downstream t1) c = Some (s, Accepted)"
    "interior_deliver deliver t c = Some (\<lparr>downstream = s, holdover = \<lparr>slot = None\<rparr>\<rparr>, Accepted)"
  with assms accepted_law [OF *(2)] flush_holdover_bytes [OF *(1)] show ?thesis
    by (auto simp: int_parked_def)
next
  fix t1 s
  assume *: "flush_holdover deliver t = Some (t1, True)" "deliver (downstream t1) c = Some (s, Busy)"
    "interior_deliver deliver t c = Some (\<lparr>downstream = s, holdover = \<lparr>slot = Some c\<rparr>\<rparr>, Accepted)"
  with assms busy_law [OF *(2)] flush_holdover_bytes [OF *(1)] show ?thesis
    by (auto simp: int_parked_def)
qed (use assms in auto)

lemma interior_busy:
  assumes "interior_deliver deliver t c = Some (t', Busy)"
  shows "reached (downstream t') @ int_parked t' = reached (downstream t) @ int_parked t"
  by (rule interior_deliver_cases [of t c]) (use assms in \<open>auto dest!: flush_holdover_bytes\<close>)

definition int_sized :: "nat \<Rightarrow> 's InteriorTargetward \<Rightarrow> bool" where
  "int_sized n t \<longleftrightarrow> sized n (downstream t) \<and> held_bytes t \<le> n"

lemma flush_holdover_sized:
  "flush_holdover deliver t = Some (t', b) \<Longrightarrow> int_sized n t \<Longrightarrow> int_sized n t'"
  by (rule flush_holdover_cases [of t])
     (auto simp: int_sized_def held_bytes_def holdover_bytes_def intro: sized_deliver)

lemma flush_holdover_ready:
  assumes "ready (downstream t)" "parked (downstream t) = []"
  shows "\<exists>t'. flush_holdover deliver t = Some (t', True) \<and> ready (downstream t') \<and>
    parked (downstream t') = [] \<and> slot (holdover t') = None"
proof (rule flush_holdover_cases [of t])
  assume "slot (holdover t) = None" "flush_holdover deliver t = Some (t, True)"
  with assms show ?thesis by auto
next
  fix c s
  assume "deliver (downstream t) c = Some (s, Accepted)"
    "flush_holdover deliver t = Some (\<lparr>downstream = s, holdover = \<lparr>slot = None\<rparr>\<rparr>, True)"
  with ready_deliver [OF assms, of c] show ?thesis by auto
next
  fix c s
  assume "deliver (downstream t) c = Some (s, Busy)"
  with ready_deliver [OF assms, of c] show ?thesis by auto
qed

lemma interior_ready:
  assumes "ready (downstream t)" "int_parked t = []"
  shows "\<exists>t'. interior_deliver deliver t c = Some (t', Accepted) \<and> ready (downstream t') \<and> int_parked t' = []"
proof -
  have "parked (downstream t) = []" using assms by (simp add: int_parked_def)
  with assms obtain t1 where t1: "flush_holdover deliver t = Some (t1, True)" "ready (downstream t1)"
    "parked (downstream t1) = []" using flush_holdover_ready by blast
  obtain s where s: "deliver (downstream t1) c = Some (s, Accepted)" "ready s" "parked s = []"
    using ready_deliver [OF t1(2,3)] by blast
  show ?thesis
    by (rule interior_deliver_cases [of t c]) (use t1 s in \<open>auto simp: int_parked_def\<close>)
qed

lemma interior_sized:
  assumes *: "int_sized n s" "length c \<le> n" "interior_deliver deliver s c = Some (s', d)"
  shows "int_sized n s'"
proof (rule interior_deliver_cases [of s c])
  fix t assume "flush_holdover deliver s = Some (t, False)" "interior_deliver deliver s c = Some (t, Busy)"
  with * flush_holdover_sized show ?thesis by auto
next
  fix t r
  assume "flush_holdover deliver s = Some (t, True)" and t: "deliver (downstream t) c = Some (r, Accepted)"
    "interior_deliver deliver s c = Some (\<lparr>downstream = r, holdover = \<lparr>slot = None\<rparr>\<rparr>, Accepted)"
  then have "int_sized n t" using * flush_holdover_sized by blast
  then have "sized n r" using sized_deliver t(1) * by (auto simp: int_sized_def)
  with t * show ?thesis by (auto simp: int_sized_def held_bytes_def holdover_bytes_def)
next
  fix t r
  assume "flush_holdover deliver s = Some (t, True)" and t: "deliver (downstream t) c = Some (r, Busy)"
    "interior_deliver deliver s c = Some (\<lparr>downstream = r, holdover = \<lparr>slot = Some c\<rparr>\<rparr>, Accepted)"
  then have "int_sized n t" using * flush_holdover_sized by blast
  then have "sized n r" using sized_deliver t(1) * by (auto simp: int_sized_def)
  with t * show ?thesis by (auto simp: int_sized_def held_bytes_def holdover_bytes_def)
qed

lemma interior_flush_SomeE:
  assumes "interior_flush deliver flush s = Some s'"
  obtains d b where "flush (downstream s) = Some d" "flush_holdover deliver (s\<lparr>downstream := d\<rparr>) = Some (s', b)"
  using assms by (auto simp: interior_flush_def split: option.splits)

lemma interior_flush_bytes:
  assumes "interior_flush deliver flush s = Some s'"
  shows "reached (downstream s') @ int_parked s' = reached (downstream s) @ int_parked s"
proof -
  from assms obtain d b where "flush (downstream s) = Some d"
    "flush_holdover deliver (s\<lparr>downstream := d\<rparr>) = Some (s', b)" by (rule interior_flush_SomeE)
  with flush_law [of "downstream s" d] flush_holdover_bytes [of "s\<lparr>downstream := d\<rparr>" s' b]
  show ?thesis by (auto simp: int_parked_def)
qed

lemma interior_flush_total: "interior_flush deliver flush s \<noteq> None"
proof -
  obtain d where "flush (downstream s) = Some d" using flush_total by fastforce
  then show ?thesis
    using flush_holdover_total [of "s\<lparr>downstream := d\<rparr>"] by (auto simp: interior_flush_def)
qed

lemma interior_flush_ready:
  assumes "ready (downstream s)" and "interior_flush deliver flush s = Some s'"
  shows "ready (downstream s') \<and> int_parked s' = []"
proof -
  from assms(2) obtain d b where "flush (downstream s) = Some d"
    "flush_holdover deliver (s\<lparr>downstream := d\<rparr>) = Some (s', b)" by (rule interior_flush_SomeE)
  with ready_flush [OF assms(1)] flush_holdover_ready [of "s\<lparr>downstream := d\<rparr>"]
  show ?thesis by (auto simp: int_parked_def)
qed

lemma interior_flush_sized:
  assumes "int_sized n s" and "interior_flush deliver flush s = Some s'"
  shows "int_sized n s'"
proof -
  from assms(2) obtain d b where d: "flush (downstream s) = Some d"
    "flush_holdover deliver (s\<lparr>downstream := d\<rparr>) = Some (s', b)" by (rule interior_flush_SomeE)
  with assms(1) have "int_sized n (s\<lparr>downstream := d\<rparr>)"
    using sized_flush by (auto simp: int_sized_def held_bytes_def)
  with d flush_holdover_sized show ?thesis by blast
qed

lemma interior_sink:
  "targetward_sink (interior_deliver deliver) (interior_flush deliver flush)
     (\<lambda>b t. t\<lparr>downstream := toggle b (downstream t)\<rparr>) (\<lambda>t. reached (downstream t)) int_parked
     (\<lambda>t. ready (downstream t)) int_sized (Suc hops)"
proof unfold_locales
  fix b s n
  show "reached (downstream (s\<lparr>downstream := toggle b (downstream s)\<rparr>)) = reached (downstream s) \<and>
    int_parked (s\<lparr>downstream := toggle b (downstream s)\<rparr>) = int_parked s \<and>
    ready (downstream (s\<lparr>downstream := toggle b (downstream s)\<rparr>)) = (\<not> b) \<and>
    int_sized n (s\<lparr>downstream := toggle b (downstream s)\<rparr>) = int_sized n s"
    using toggle_law by (simp add: int_parked_def int_sized_def held_bytes_def)
next
  fix s c show "interior_deliver deliver s c \<noteq> None"
    by (rule interior_deliver_cases [of s c]) auto
next
  fix n s assume "int_sized n s"
  then show "length (int_parked s) \<le> Suc hops * n"
    using sized_bound [of n "downstream s"]
    by (auto simp: int_sized_def int_parked_def held_bytes_def holdover_bytes_def split: option.splits)
qed (fact interior_accepted interior_busy interior_flush_bytes interior_flush_total interior_ready
      interior_flush_ready interior_sized interior_flush_sized)+

text \<open>However the steps interleave: no loss, no duplication, no reordering, and bounded memory.\<close>

lemma path_delivers:
  assumes "reached s = []" and "parked s = []"
  shows "\<exists>org. path_run deliver flush toggle as (origin_new s) = Some org \<and>
     reached (sink org) @ parked (sink org) @ concat (pending org) = concat (offered_chunks as) \<and>
     (paused org \<longleftrightarrow> pending org \<noteq> []) \<and> offered org = length (concat (offered_chunks as))"
  using run_stream [of "origin_new s" as] assms
  by (auto simp: origin_new_def stream_def pause_ok_def)

lemma path_drains:
  assumes "reached s = []" and "parked s = []"
    and "path_run deliver flush toggle as (origin_new s) = Some org" and "ready (sink org)"
  shows "\<exists>org'. resume deliver flush org = Some org' \<and>
     reached (sink org') = concat (offered_chunks as) \<and> pending org' = [] \<and> \<not> paused org'"
proof -
  obtain o1 where o1: "pump deliver flush org = Some o1" "pending o1 = []" "parked (sink o1) = []"
    using pump_ready assms(4) by blast
  have org: "stream org = concat (offered_chunks as)" "pause_ok org"
    using run_stream [of "origin_new s" as] assms
    by (auto simp: origin_new_def stream_def pause_ok_def)
  with pump_stream [of org] o1 have "stream o1 = stream org" "pause_ok o1" by auto
  with o1 org show ?thesis by (auto simp: resume_def stream_def pause_ok_def)
qed

lemma path_bounded:
  assumes "sized n s" and "\<forall>c \<in> set (offered_chunks as). length c \<le> n"
    and "path_run deliver flush toggle as (origin_new s) = Some org"
  shows "length (parked (sink org)) \<le> hops * n"
  using run_sized [OF _ assms(2,3)] assms(1) sized_bound
  by (auto simp: path_inv_def origin_new_def)

end

section \<open>The paths of the model\<close>

lemma boundary_sink:
  "targetward_sink boundary_deliver boundary_flush set_busy bb_received (\<lambda>_. []) (\<lambda>b. \<not> bb_busy b)
     (\<lambda>_ _. True) 0"
  by unfold_locales
     (auto simp: boundary_deliver_def boundary_flush_def set_busy_def split: if_splits)

interpretation hop0: targetward_sink boundary_deliver boundary_flush set_busy bb_received "\<lambda>_. []"
  "\<lambda>b. \<not> bb_busy b" "\<lambda>_ _. True" 0
  by (rule boundary_sink)

type_synonym path1 = "BusyBoundary InteriorTargetward"
type_synonym path2 = "BusyBoundary InteriorTargetward InteriorTargetward"

definition deliver1 :: "path1 deliver" where
  "deliver1 = interior_deliver boundary_deliver"

definition flush1 :: "path1 flush" where
  "flush1 = interior_flush boundary_deliver boundary_flush"

definition set_busy1 :: "bool \<Rightarrow> path1 \<Rightarrow> path1" where
  "set_busy1 b t = t\<lparr>downstream := set_busy b (downstream t)\<rparr>"

definition deliver2 :: "path2 deliver" where
  "deliver2 = interior_deliver deliver1"

definition flush2 :: "path2 flush" where
  "flush2 = interior_flush deliver1 flush1"

definition set_busy2 :: "bool \<Rightarrow> path2 \<Rightarrow> path2" where
  "set_busy2 b t = t\<lparr>downstream := set_busy1 b (downstream t)\<rparr>"

definition slot_bytes :: "'s InteriorTargetward \<Rightarrow> byte list" where
  "slot_bytes t = (case slot (holdover t) of None \<Rightarrow> [] | Some c \<Rightarrow> c)"

interpretation hop1: targetward_sink deliver1 flush1 set_busy1 "\<lambda>t. bb_received (downstream t)"
  hop0.int_parked "\<lambda>t. \<not> bb_busy (downstream t)" hop0.int_sized "Suc 0"
  unfolding deliver1_def flush1_def set_busy1_def by (rule hop0.interior_sink)

interpretation hop2: targetward_sink deliver2 flush2 set_busy2
  "\<lambda>t. bb_received (downstream (downstream t))" hop1.int_parked
  "\<lambda>t. \<not> bb_busy (downstream (downstream t))" hop1.int_sized "Suc (Suc 0)"
  unfolding deliver2_def flush2_def set_busy2_def by (rule hop1.interior_sink)

definition path2_new :: path2 where
  "path2_new = interior_new (interior_new boundary_new)"

lemma parked2: "hop1.int_parked t = slot_bytes (downstream t) @ slot_bytes t"
  by (simp add: hop1.int_parked_def hop0.int_parked_def slot_bytes_def)

lemma path2_start:
  "bb_received (downstream (downstream path2_new)) = []" "hop1.int_parked path2_new = []"
  "hop1.int_sized n path2_new"
  by (simp_all add: path2_new_def interior_new_def boundary_new_def parked2 slot_bytes_def
      hop1.int_sized_def hop0.int_sized_def held_bytes_def holdover_bytes_def)

text \<open>
  C8: backpressure loses nothing. However offers, resumptions and changes of the boundary's readiness
  interleave on a path of two interior transforms, the run never fails (no holdover is parked on
  twice), the bytes at the boundary, then those held over from the boundary outwards, then those still
  pending at the origin are exactly the offered bytes in order, and the origin is paused exactly
  when it has pending chunks.
\<close>

theorem targetward_no_loss:
  "\<exists>org. path_run deliver2 flush2 set_busy2 as (origin_new path2_new) = Some org \<and>
     bb_received (downstream (downstream (sink org))) @ slot_bytes (downstream (sink org)) @
       slot_bytes (sink org) @ concat (pending org) = concat (offered_chunks as) \<and>
     (paused org \<longleftrightarrow> pending org \<noteq> []) \<and> offered org = length (concat (offered_chunks as))"
  using hop2.path_delivers [OF path2_start(1,2), of as] by (simp add: parked2)

text \<open>
  Nothing is stranded. Once the boundary takes bytes again, one resumption of the origin, with no
  new input, brings every byte ever offered to the boundary and leaves the origin unpaused.
\<close>

theorem targetward_resume_drains:
  assumes "path_run deliver2 flush2 set_busy2 as (origin_new path2_new) = Some org"
    and "\<not> bb_busy (downstream (downstream (sink org)))"
  shows "\<exists>org'. resume deliver2 flush2 org = Some org' \<and>
     bb_received (downstream (downstream (sink org'))) = concat (offered_chunks as) \<and>
     pending org' = [] \<and> \<not> paused org'"
  using hop2.path_drains [OF path2_start(1,2) assms] .

theorem targetward_resume_drains_witness:
  "\<exists>org org'. path_run deliver2 flush2 set_busy2
      [SetBusy True, Offer [1, 2], Offer [3], Offer [4], SetBusy False] (origin_new path2_new) = Some org \<and>
     pending org = [[4]] \<and> resume deliver2 flush2 org = Some org' \<and>
     bb_received (downstream (downstream (sink org'))) = [1, 2, 3, 4]"
proof -
  let ?as = "[SetBusy True, Offer [1, 2], Offer [3], Offer [4], SetBusy False]"
  let ?org = "the (path_run deliver2 flush2 set_busy2 ?as (origin_new path2_new))"
  have run: "path_run deliver2 flush2 set_busy2 ?as (origin_new path2_new) = Some ?org"
    and "\<not> bb_busy (downstream (downstream (sink ?org)))" and "pending ?org = [[4]]"
    by code_simp+
  with targetward_resume_drains [OF run] show ?thesis by auto
qed

text \<open>
  The interior never queues: when no offered chunk is longer than \<open>n\<close>, the two holdovers together
  never hold more than \<open>2 * n\<close> bytes, however long the boundary stays busy.
\<close>

theorem interior_memory_bounded:
  assumes "\<forall>c \<in> set (offered_chunks as). length c \<le> n"
    and "path_run deliver2 flush2 set_busy2 as (origin_new path2_new) = Some org"
  shows "held_bytes (sink org) + held_bytes (downstream (sink org)) \<le> 2 * n"
proof -
  have "length (hop1.int_parked (sink org)) \<le> Suc (Suc 0) * n"
    by (rule hop2.path_bounded [OF path2_start(3) assms])
  then show ?thesis
    by (simp add: parked2 slot_bytes_def held_bytes_def holdover_bytes_def split: option.splits)
qed

theorem interior_memory_bounded_witness:
  "\<exists>org. path_run deliver2 flush2 set_busy2 [SetBusy True, Offer [1, 2], Offer [3], Offer [4]]
        (origin_new path2_new) = Some org \<and>
     held_bytes (sink org) + held_bytes (downstream (sink org)) \<le> 2 * 2"
proof -
  let ?as = "[SetBusy True, Offer [1, 2], Offer [3], Offer [4]]"
  let ?org = "the (path_run deliver2 flush2 set_busy2 ?as (origin_new path2_new))"
  have run: "path_run deliver2 flush2 set_busy2 ?as (origin_new path2_new) = Some ?org"
    by code_simp
  have "\<forall>c \<in> set (offered_chunks ?as). length c \<le> 2" by simp
  with run interior_memory_bounded [of ?as 2 ?org] show ?thesis by blast
qed

section \<open>Hostward loss isolation\<close>

lemma broadcast_run:
  "consumers (foldl (broadcast deliver) f cs) = map (\<lambda>c. foldl deliver c cs) (consumers f)"
  by (induction cs arbitrary: f) (simp_all add: broadcast_def comp_def)

lemma mock_run_capacity: "mock_capacity (foldl mock_deliver c cs) = mock_capacity c"
  by (induction cs arbitrary: c) (simp_all add: mock_deliver_def)

lemma mock_run_conserves:
  "mock_dropped (foldl mock_deliver c cs) + word_of_nat (received_len (foldl mock_deliver c cs)) =
     mock_dropped c + word_of_nat (received_len c) + word_of_nat (length (concat cs))"
proof (induction cs arbitrary: c)
  case (Cons x cs)
  have "mock_dropped (mock_deliver c x) + word_of_nat (received_len (mock_deliver c x)) =
     mock_dropped c + word_of_nat (received_len c) + word_of_nat (length x)"
    by (simp add: mock_deliver_def received_len_def)
  with Cons.IH show ?case by (simp add: ac_simps)
qed simp

lemma mock_run_kept:
  "\<exists>kept. subseq kept cs \<and> mock_buffered (foldl mock_deliver c cs) = mock_buffered c @ concat kept"
proof (induction cs arbitrary: c)
  case (Cons x cs)
  obtain kept where k: "subseq kept cs"
    "mock_buffered (foldl mock_deliver (mock_deliver c x) cs) = mock_buffered (mock_deliver c x) @ concat kept"
    using Cons.IH by blast
  show ?case
  proof (cases "min (length (mock_buffered c) + length x) usize_max \<le> mock_capacity c")
    case True
    then have "mock_buffered (mock_deliver c x) = mock_buffered c @ x" by (simp add: mock_deliver_def)
    with k show ?thesis by (intro exI [of _ "x # kept"]) simp
  next
    case False
    then have "mock_buffered (mock_deliver c x) = mock_buffered c" by (simp add: mock_deliver_def)
    with k show ?thesis by (intro exI [of _ kept]) auto
  qed
qed (auto intro: exI [of _ "[]"])

lemma mock_run_bounded:
  "received_len c \<le> mock_capacity c \<Longrightarrow> mock_capacity c < usize_max \<Longrightarrow>
     received_len (foldl mock_deliver c cs) \<le> mock_capacity c"
proof (induction cs arbitrary: c)
  case (Cons x cs)
  have "received_len (mock_deliver c x) \<le> mock_capacity c" "mock_capacity (mock_deliver c x) = mock_capacity c"
    using Cons.prems by (auto simp: mock_deliver_def received_len_def)
  with Cons show ?case by (metis foldl_Cons)
qed simp

text \<open>
  A slow consumer costs only itself. After any sequence of broadcasts to consumers of the given
  capacities, consumer \<open>i\<close> is in the state that delivering the chunks to it alone produces; it holds
  whole chunks of the broadcast in order, never more than its capacity, and what it holds and what it
  counted as dropped add up to everything broadcast (the counter being 64 bits wide).
\<close>

theorem hostward_loss_isolated:
  fixes cs :: "Chunk list"
  assumes "i < length caps" and "caps ! i < usize_max"
  defines "f \<equiv> foldl (broadcast mock_deliver) \<lparr>consumers = map with_capacity caps\<rparr> cs"
  shows "\<exists>c kept. fanout_consumer f i = Some c \<and> c = foldl mock_deliver (with_capacity (caps ! i)) cs \<and>
     subseq kept cs \<and> mock_buffered c = concat kept \<and> received_len c \<le> caps ! i \<and>
     mock_dropped c + word_of_nat (received_len c) = word_of_nat (length (concat cs))"
proof -
  let ?c = "foldl mock_deliver (with_capacity (caps ! i)) cs"
  have start: "mock_buffered (with_capacity (caps ! i)) = []" "mock_capacity (with_capacity (caps ! i)) = caps ! i"
    "mock_dropped (with_capacity (caps ! i)) = 0" "received_len (with_capacity (caps ! i)) = 0"
    by (simp_all add: with_capacity_def received_len_def)
  have "fanout_consumer f i = Some ?c"
    using assms(1) by (simp add: f_def fanout_consumer_def broadcast_run)
  moreover have "received_len ?c \<le> caps ! i"
    using mock_run_bounded [of "with_capacity (caps ! i)" cs] start assms(2) by simp
  moreover have "mock_dropped ?c + word_of_nat (received_len ?c) = word_of_nat (length (concat cs))"
    using mock_run_conserves [of "with_capacity (caps ! i)" cs] start by simp
  moreover obtain kept where "subseq kept cs" "mock_buffered ?c = concat kept"
    using mock_run_kept [of cs "with_capacity (caps ! i)"] start by auto
  ultimately show ?thesis by blast
qed

theorem hostward_loss_isolated_witness:
  "\<exists>c kept. fanout_consumer (foldl (broadcast mock_deliver) \<lparr>consumers = map with_capacity [2, 9]\<rparr>
        [[1], [2, 3], [4]]) 0 = Some c \<and> subseq kept [[1], [2, 3], [4]] \<and> mock_buffered c = concat kept \<and>
     mock_buffered c = [1, 4] \<and> mock_dropped c = 2"
proof -
  have "\<exists>c kept. fanout_consumer (foldl (broadcast mock_deliver) \<lparr>consumers = map with_capacity [2, 9]\<rparr>
        [[1], [2, 3], [4]]) 0 = Some c \<and> c = foldl mock_deliver (with_capacity 2) [[1], [2, 3], [4]] \<and>
      subseq kept [[1], [2, 3], [4]] \<and> mock_buffered c = concat kept"
    using hostward_loss_isolated [of 0 "[2, 9]" "[[1], [2, 3], [4]]"] by (auto simp: usize_max_def)
  moreover have "mock_buffered (foldl mock_deliver (with_capacity 2) [[1], [2, 3], [4]]) = [1, 4]"
    "mock_dropped (foldl mock_deliver (with_capacity 2) [[1], [2, 3], [4]]) = 2"
    by (simp_all add: mock_deliver_def with_capacity_def usize_max_def)
  ultimately show ?thesis by blast
qed

end
