(* ===== verification/Frame_Scanner.thy ===== *)
theory Frame_Scanner
  imports Prelude
begin

text \<open>
  The contract every streaming parser of the repository keeps: a step looks at the front of the buffered
  bytes and either asks for more or consumes at least one byte as one item, and once it has decided, bytes
  that arrive later do not change its mind. From that contract follow, once, what the parsers promise:
  the items do not depend on how the stream was cut into chunks, and what is kept between calls is
  bounded. The envelope and the tinymux records are interpretations of it.
\<close>

datatype 'i scan_step = NeedMore | Item 'i nat

text \<open>All items of a buffer and what is left of it.\<close>

function scan :: "(byte list \<Rightarrow> 'i scan_step) \<Rightarrow> byte list \<Rightarrow> 'i list \<times> byte list" where
  "scan step buf =
     (case step buf of
        NeedMore \<Rightarrow> ([], buf)
      | Item i n \<Rightarrow>
          if n = 0 \<or> length buf < n then ([], buf)
          else (let (is, r) = scan step (drop n buf) in (i # is, r)))"
  by pat_completeness auto
termination
  by (relation "measure (\<lambda>(step, buf). length buf)") auto

declare scan.simps [simp del]

text \<open>Feeding chunks one by one, the rest of each scan in front of the next chunk.\<close>

fun feed :: "(byte list \<Rightarrow> 'i scan_step) \<Rightarrow> byte list \<Rightarrow> byte list list \<Rightarrow> 'i list \<times> byte list" where
  "feed step rest [] = ([], rest)"
| "feed step rest (c # cs) =
     (let (is, r) = scan step (rest @ c); (js, r') = feed step r cs in (is @ js, r'))"

locale frame_scanner =
  fixes step :: "byte list \<Rightarrow> 'i scan_step" and bound :: nat
  assumes step_len: "step buf = Item i n \<Longrightarrow> 0 < n \<and> n \<le> length buf"
    and step_stable: "step buf = Item i n \<Longrightarrow> step (buf @ more) = Item i n"
    and need_bound: "step buf = NeedMore \<Longrightarrow> length buf < bound"
begin

lemma scan_NeedMore: "step buf = NeedMore \<Longrightarrow> scan step buf = ([], buf)"
  by (simp add: scan.simps)

lemma scan_Item:
  assumes "step buf = Item i n"
  shows "scan step buf = (let (is, r) = scan step (drop n buf) in (i # is, r))"
  using step_len [OF assms] assms by (subst scan.simps) auto

lemma scan_induct [case_names NeedMore Item]:
  assumes "\<And>buf. step buf = NeedMore \<Longrightarrow> P buf"
    and "\<And>buf i n. step buf = Item i n \<Longrightarrow> 0 < n \<Longrightarrow> n \<le> length buf \<Longrightarrow> P (drop n buf) \<Longrightarrow> P buf"
  shows "P buf"
proof (induction "length buf" arbitrary: buf rule: less_induct)
  case less
  show ?case
  proof (cases "step buf")
    case (Item i n)
    with step_len have "0 < n" "n \<le> length buf" by auto
    with Item less show ?thesis by (intro assms(2) [of buf i n]) auto
  qed (rule assms(1))
qed

lemma scan_append:
  "scan step (xs @ ys) =
     (let (is, r) = scan step xs; (js, r') = scan step (r @ ys) in (is @ js, r'))"
proof (induction xs rule: scan_induct)
  case (NeedMore xs)
  then show ?case by (simp add: scan_NeedMore)
next
  case (Item xs i n)
  have "scan step (xs @ ys) = (let (is, r) = scan step (drop n xs @ ys) in (i # is, r))"
    using scan_Item [OF step_stable [OF Item(1)], of ys] Item(3) by simp
  with Item(4) scan_Item [OF Item(1)] show ?case by (simp add: split_beta Let_def)
qed

lemma scan_rest: "step (snd (scan step buf)) = NeedMore"
  by (induction buf rule: scan_induct) (simp_all add: scan_NeedMore scan_Item split_beta)

lemma scan_rest_bounded: "length (snd (scan step buf)) < bound"
  by (rule need_bound) (rule scan_rest)

lemma scan_is_suffix: "\<exists>k \<le> length buf. snd (scan step buf) = drop k buf"
proof (induction buf rule: scan_induct)
  case (NeedMore buf)
  then show ?case by (auto simp: scan_NeedMore)
next
  case (Item buf i n)
  then obtain k where "k \<le> length (drop n buf)" "snd (scan step (drop n buf)) = drop (k + n) buf"
    by (auto simp: add.commute)
  with Item show ?case by (intro exI [of _ "k + n"]) (auto simp: scan_Item split_beta)
qed

lemma scan_suffix: "drop (length buf - length (snd (scan step buf))) buf = snd (scan step buf)"
  using scan_is_suffix [of buf] by auto

lemma scan_rest_le: "length (snd (scan step buf)) \<le> length buf"
  using scan_is_suffix [of buf] by auto

text \<open>The chunks of a stream do not matter, and what is kept stays bounded.\<close>

lemma feed_scan:
  assumes "step rest = NeedMore"
  shows "feed step rest cs = scan step (rest @ concat cs)"
  using assms
proof (induction cs arbitrary: rest)
  case Nil
  then show ?case by (simp add: scan_NeedMore)
next
  case (Cons c cs)
  have "step (snd (scan step (rest @ c))) = NeedMore" by (rule scan_rest)
  with Cons.IH have "feed step (snd (scan step (rest @ c))) cs =
      scan step (snd (scan step (rest @ c)) @ concat cs)" .
  moreover have "scan step (rest @ concat (c # cs)) = scan step ((rest @ c) @ concat cs)" by simp
  ultimately show ?case unfolding scan_append [of "rest @ c"] by (simp add: split_beta)
qed

text \<open>A stream of frames, each of which the step takes whole, is scanned frame by frame.\<close>

lemma scan_frames:
  assumes "\<And>f more. f \<in> set fs \<Longrightarrow> step (frame f @ more) = Item (item f) (length (frame f))"
  shows "scan step (concat (map frame fs) @ more) =
     (map item fs @ fst (scan step more), snd (scan step more))"
  using assms
proof (induction fs)
  case (Cons f fs)
  have "step (frame f @ (concat (map frame fs) @ more)) = Item (item f) (length (frame f))"
    using Cons.prems by simp
  from scan_Item [OF this] Cons show ?case by (simp add: split_beta)
qed simp

end

end
