(* ===== verification/Envelope.thy ===== *)
theory Envelope
  imports Prelude Frame_Scanner
begin

text \<open>
  The shared frame format (\<open>codec-api/src/lib.rs\<close>): per-channel events, the envelope encoder and decoder,
  and the streaming \<open>FrameDecoder\<close> with its read cursor.

  An operation that appends to a caller's buffer \<open>out\<close> returns the new buffer with its result, so that
  what a failing call has already written is visible.
\<close>

section \<open>Events\<close>

definition ENVELOPE_VERSION :: u16 where
  "ENVELOPE_VERSION = 1"

definition MAX_FRAME_SIZE :: nat where
  "MAX_FRAME_SIZE = 64 * 1024"

datatype ChannelId = ChannelId (chan_str: string)

datatype EventKind = Data "byte list" | Open | Close | Error string

fun type_byte :: "EventKind \<Rightarrow> byte" where
  "type_byte (Data _) = 0"
| "type_byte Open = 1"
| "type_byte Close = 2"
| "type_byte (Error _) = 3"

record Event =
  ev_channel :: ChannelId
  ev_kind :: EventKind

definition Event_data :: "string \<Rightarrow> byte list \<Rightarrow> Event" where
  "Event_data channel bytes = \<lparr>ev_channel = ChannelId channel, ev_kind = Data bytes\<rparr>"

definition Event_open :: "string \<Rightarrow> Event" where
  "Event_open channel = \<lparr>ev_channel = ChannelId channel, ev_kind = Open\<rparr>"

definition Event_close :: "string \<Rightarrow> Event" where
  "Event_close channel = \<lparr>ev_channel = ChannelId channel, ev_kind = Close\<rparr>"

definition Event_error :: "string \<Rightarrow> string \<Rightarrow> Event" where
  "Event_error channel msg = \<lparr>ev_channel = ChannelId channel, ev_kind = Error msg\<rparr>"

datatype EnvelopeError =
    FrameTooLarge nat
  | UnknownType byte
  | Truncated string
  | BadChannelId
  | BadErrorMessage

text \<open>The reason of a framing error, before it is rendered as text: the codecs' format arguments.\<close>

datatype framing_reason =
    UndecodableRecord byte byte nat
  | ChannelNotConfigured string "string list"

datatype CodecError = Framing framing_reason | Envelope_error EnvelopeError

section \<open>Encoding and decoding\<close>

definition event_payload :: "EventKind \<Rightarrow> byte list" where
  "event_payload k = (case k of Data b \<Rightarrow> b | Error m \<Rightarrow> as_bytes m | Open \<Rightarrow> [] | Close \<Rightarrow> [])"

definition encode :: "Event \<Rightarrow> byte list \<Rightarrow> byte list \<times> (EnvelopeError, unit) result" where
  "encode event out =
     (let channel = as_bytes (chan_str (ev_channel event));
          payload = event_payload (ev_kind event);
          body_len = 1 + 2 + length channel + length payload
      in if body_len > MAX_FRAME_SIZE then (out, Err (FrameTooLarge body_len))
         else if length channel \<ge> 2 ^ 16 then (out, Err (FrameTooLarge (length channel)))
         else
           (let channel_len = word_of_nat (length channel) :: u16
            in (out @ u32_to_be_bytes (word_of_nat body_len) @ [type_byte (ev_kind event)]
                  @ u16_to_be_bytes channel_len @ channel @ payload,
                Ok ())))"

definition try_decode :: "byte list \<Rightarrow> (EnvelopeError, (Event \<times> nat) option) result" where
  "try_decode buf =
     (if length buf < 4 then Ok None
      else
        (let body_len = unat (u32_from_be_bytes (buf ! 0) (buf ! 1) (buf ! 2) (buf ! 3))
         in if body_len > MAX_FRAME_SIZE then Err (FrameTooLarge body_len)
            else
              (let frame_end = 4 + body_len
               in if length buf < frame_end then Ok None
                  else
                    (let body = take body_len (drop 4 buf)
                     in if length body < 3 then Err (Truncated ''header'')
                        else
                          (let type_byte = body ! 0;
                               channel_len = unat (u16_from_be_bytes (body ! 1) (body ! 2));
                               channel_end = 3 + channel_len
                           in if length body < channel_end then Err (Truncated ''channel id'')
                              else
                                (let channel_bytes = take channel_len (drop 3 body);
                                     payload = drop channel_end body
                                 in case from_utf8 channel_bytes of
                                      None \<Rightarrow> Err BadChannelId
                                    | Some channel \<Rightarrow>
                                        (let done =
                                           (\<lambda>kind. Ok (Some (\<lparr>ev_channel = ChannelId channel, ev_kind = kind\<rparr>,
                                                            frame_end)))
                                         in if type_byte = 0 then done (Data payload)
                                            else if type_byte = 1 then done Open
                                            else if type_byte = 2 then done Close
                                            else if type_byte = 3 then
                                              (case from_utf8 payload of
                                                 None \<Rightarrow> Err BadErrorMessage
                                               | Some m \<Rightarrow> done (Error m))
                                            else Err (UnknownType type_byte))))))))"

section \<open>The streaming decoder\<close>

record FrameDecoder =
  fd_buf :: "byte list"
  fd_start :: nat

definition decoder_new :: FrameDecoder where
  "decoder_new = \<lparr>fd_buf = [], fd_start = 0\<rparr>"

definition compact :: "FrameDecoder \<Rightarrow> FrameDecoder" where
  "compact d =
     (if fd_start d = 0 then d
      else if fd_start d = length (fd_buf d) then \<lparr>fd_buf = [], fd_start = 0\<rparr>
      else \<lparr>fd_buf = drop (fd_start d) (fd_buf d), fd_start = 0\<rparr>)"

definition decoder_push :: "FrameDecoder \<Rightarrow> byte list \<Rightarrow> FrameDecoder" where
  "decoder_push d bytes = (let d = compact d in d\<lparr>fd_buf := fd_buf d @ bytes\<rparr>)"

definition next_event :: "FrameDecoder \<Rightarrow> FrameDecoder \<times> (EnvelopeError, Event option) result" where
  "next_event d =
     (case try_decode (drop (fd_start d) (fd_buf d)) of
        Inl e \<Rightarrow> (d, Err e)
      | Inr None \<Rightarrow> (d, Ok None)
      | Inr (Some (event, consumed)) \<Rightarrow>
          (let start = fd_start d + consumed
           in ((if start = length (fd_buf d) then \<lparr>fd_buf = [], fd_start = 0\<rparr>
                else d\<lparr>fd_start := start\<rparr>),
               Ok (Some event))))"

definition decoder_buffered :: "FrameDecoder \<Rightarrow> nat" where
  "decoder_buffered d = length (fd_buf d) - fd_start d"

section \<open>Frames\<close>

text \<open>The body of a frame and the frame itself, as the layout comment of the source gives them.\<close>

definition frame_body :: "byte \<Rightarrow> byte list \<Rightarrow> byte list \<Rightarrow> byte list" where
  "frame_body ty channel payload = ty # u16_to_be_bytes (word_of_nat (length channel)) @ channel @ payload"

definition framed :: "byte list \<Rightarrow> byte list" where
  "framed body = u32_to_be_bytes (word_of_nat (length body)) @ body"

definition event_frame :: "Event \<Rightarrow> byte list" where
  "event_frame ev =
     framed (frame_body (type_byte (ev_kind ev)) (as_bytes (chan_str (ev_channel ev))) (event_payload (ev_kind ev)))"

text \<open>A value of the Rust type \<open>Event\<close>: its strings are UTF-8.\<close>

definition event_ok :: "Event \<Rightarrow> bool" where
  "event_ok ev \<longleftrightarrow> is_str (chan_str (ev_channel ev)) \<and>
     (case ev_kind ev of Error m \<Rightarrow> is_str m | _ \<Rightarrow> True)"

definition event_size :: "Event \<Rightarrow> nat" where
  "event_size ev = 3 + length (chan_str (ev_channel ev)) + length (event_payload (ev_kind ev))"

lemma length_frame_body [simp]: "length (frame_body ty c p) = 3 + length c + length p"
  by (simp add: frame_body_def)

lemma length_framed [simp]: "length (framed b) = 4 + length b"
  by (simp add: framed_def)

lemma length_event_frame: "length (event_frame ev) = 4 + event_size ev"
  by (simp add: event_frame_def event_size_def)

lemma encode_eq:
  "encode ev out =
     (if event_size ev \<le> MAX_FRAME_SIZE then (out @ event_frame ev, Ok ())
      else (out, Err (FrameTooLarge (event_size ev))))"
  by (auto simp: encode_def event_frame_def event_size_def frame_body_def framed_def MAX_FRAME_SIZE_def
      Let_def)

lemma nth_u32_prefix:
  "(u32_to_be_bytes w @ r) ! 0 = ucast (drop_bit 24 w)" "(u32_to_be_bytes w @ r) ! 1 = ucast (drop_bit 16 w)"
  "(u32_to_be_bytes w @ r) ! 2 = ucast (drop_bit 8 w)" "(u32_to_be_bytes w @ r) ! 3 = ucast w"
  "(u32_to_be_bytes w @ r) ! Suc 0 = ucast (drop_bit 16 w)"
  by (simp_all add: u32_to_be_bytes_def)

lemma length_prefix:
  assumes "length body \<le> MAX_FRAME_SIZE"
  shows "unat (u32_from_be_bytes ((framed body @ r) ! 0) ((framed body @ r) ! 1) ((framed body @ r) ! 2)
     ((framed body @ r) ! 3)) = length body"
proof -
  have "length body < 2 ^ 32" using assms by (simp add: MAX_FRAME_SIZE_def)
  then show ?thesis
    by (simp add: framed_def nth_u32_prefix u32_from_to_be_bytes unat_word_of_nat_u32)
qed

text \<open>Decoding after the length prefix, on the body.\<close>

definition decode_body :: "byte list \<Rightarrow> nat \<Rightarrow> (EnvelopeError, (Event \<times> nat) option) result" where
  "decode_body body n =
     (if length body < 3 then Err (Truncated ''header'')
      else if length body < 3 + unat (u16_from_be_bytes (body ! 1) (body ! 2)) then Err (Truncated ''channel id'')
      else
        (let k = unat (u16_from_be_bytes (body ! 1) (body ! 2)); payload = drop (3 + k) body
         in case from_utf8 (take k (drop 3 body)) of
              None \<Rightarrow> Err BadChannelId
            | Some c \<Rightarrow>
                if body ! 0 = 0 then Ok (Some (\<lparr>ev_channel = ChannelId c, ev_kind = Data payload\<rparr>, n))
                else if body ! 0 = 1 then Ok (Some (\<lparr>ev_channel = ChannelId c, ev_kind = Open\<rparr>, n))
                else if body ! 0 = 2 then Ok (Some (\<lparr>ev_channel = ChannelId c, ev_kind = Close\<rparr>, n))
                else if body ! 0 = 3 then
                  (case from_utf8 payload of None \<Rightarrow> Err BadErrorMessage
                   | Some m \<Rightarrow> Ok (Some (\<lparr>ev_channel = ChannelId c, ev_kind = Error m\<rparr>, n)))
                else Err (UnknownType (body ! 0))))"

definition prefix_len :: "byte list \<Rightarrow> nat" where
  "prefix_len buf = unat (u32_from_be_bytes (buf ! 0) (buf ! 1) (buf ! 2) (buf ! 3))"

lemma try_decode_eq:
  "try_decode buf =
     (if length buf < 4 then Ok None
      else if prefix_len buf > MAX_FRAME_SIZE then Err (FrameTooLarge (prefix_len buf))
      else if length buf < 4 + prefix_len buf then Ok None
      else decode_body (take (prefix_len buf) (drop 4 buf)) (4 + prefix_len buf))"
  unfolding try_decode_def decode_body_def prefix_len_def Let_def by (rule refl)

lemma decode_body_len: "decode_body body n = Ok (Some (ev, m)) \<Longrightarrow> m = n"
  by (auto simp: decode_body_def Let_def split: if_splits option.splits)

lemma decode_body_not_None: "decode_body body n \<noteq> Ok None"
  by (auto simp: decode_body_def Let_def split: if_splits option.splits)

lemma decode_frame_body:
  assumes "length c < 2 ^ 16"
  shows "decode_body (frame_body ty c p) n =
    (case from_utf8 c of
       None \<Rightarrow> Err BadChannelId
     | Some s \<Rightarrow>
         if ty = 0 then Ok (Some (\<lparr>ev_channel = ChannelId s, ev_kind = Data p\<rparr>, n))
         else if ty = 1 then Ok (Some (\<lparr>ev_channel = ChannelId s, ev_kind = Open\<rparr>, n))
         else if ty = 2 then Ok (Some (\<lparr>ev_channel = ChannelId s, ev_kind = Close\<rparr>, n))
         else if ty = 3 then
           (case from_utf8 p of None \<Rightarrow> Err BadErrorMessage
            | Some m \<Rightarrow> Ok (Some (\<lparr>ev_channel = ChannelId s, ev_kind = Error m\<rparr>, n)))
         else Err (UnknownType ty))"
proof -
  let ?b = "frame_body ty c p"
  have k: "unat (u16_from_be_bytes (?b ! 1) (?b ! 2)) = length c"
    using assms by (simp add: frame_body_def u16_to_be_bytes_def u16_from_to_be_bytes unat_word_of_nat_u16)
  have "?b ! 0 = ty" "drop 3 ?b = c @ p" "drop (3 + length c) (frame_body ty' c p) = p" for ty'
    by (simp_all add: frame_body_def u16_to_be_bytes_def numeral_eq_Suc)
  with k show ?thesis by (cases "from_utf8 c") (simp_all add: decode_body_def Let_def)
qed

lemma try_decode_framed:
  assumes "length body \<le> MAX_FRAME_SIZE"
  shows "try_decode (framed body @ rest) = decode_body body (4 + length body)"
proof -
  have "prefix_len (framed body @ rest) = length body"
    unfolding prefix_len_def by (rule length_prefix [OF assms])
  moreover have "take (length body) (drop 4 (framed body @ rest)) = body"
    by (simp add: framed_def)
  ultimately show ?thesis using assms by (simp add: try_decode_eq)
qed

lemma try_decode_event_frame:
  assumes "event_ok ev" and "event_size ev \<le> MAX_FRAME_SIZE"
  shows "try_decode (event_frame ev @ rest) = Ok (Some (ev, length (event_frame ev)))"
proof -
  have "length (chan_str (ev_channel ev)) < 2 ^ 16"
    using assms(2) by (simp add: event_size_def MAX_FRAME_SIZE_def)
  then show ?thesis
    using assms unfolding event_frame_def
    by (subst try_decode_framed)
       (cases ev; cases "ev_channel ev"; cases "ev_kind ev";
        simp add: event_size_def decode_frame_body event_ok_def str_simps event_payload_def)+
qed

text \<open>
  C16: the envelope round trip. Encoding an event either appends one frame and succeeds, and that frame,
  with any bytes after it, decodes to the event and to its own length; or, when the body would
  exceed \<open>MAX_FRAME_SIZE\<close>, leaves the output as it was and reports the body length. The explicit
  16-bit check on the channel length can never be the one that fails.
\<close>

theorem envelope_round_trip:
  assumes "event_ok ev"
  shows "(\<exists>frame. encode ev out = (out @ frame, Ok ()) \<and>
            try_decode (frame @ rest) = Ok (Some (ev, length frame)) \<and>
            length frame \<le> 4 + MAX_FRAME_SIZE) \<or>
         encode ev out = (out, Err (FrameTooLarge (event_size ev))) \<and> MAX_FRAME_SIZE < event_size ev"
  using try_decode_event_frame [OF assms]
  by (auto simp: encode_eq length_event_frame)

theorem envelope_round_trip_witness:
  "event_ok (Event_error ''aux'' ''no carrier'') \<and>
   (\<exists>frame. encode (Event_error ''aux'' ''no carrier'') [7] = ([7] @ frame, Ok ()) \<and>
      try_decode (frame @ [9]) = Ok (Some (Event_error ''aux'' ''no carrier'', length frame)))"
proof -
  have ok: "event_ok (Event_error ''aux'' ''no carrier'')" by code_simp
  have "\<not> MAX_FRAME_SIZE < event_size (Event_error ''aux'' ''no carrier'')"
    by (simp add: event_size_def Event_error_def event_payload_def MAX_FRAME_SIZE_def)
  with ok envelope_round_trip [OF ok, of "[7]" "[9]"] show ?thesis by blast
qed

section \<open>What the decoder accepts\<close>

lemma frame_body_of_bytes:
  assumes "3 + unat (u16_from_be_bytes (b ! 1) (b ! 2)) \<le> length b"
  defines "k \<equiv> unat (u16_from_be_bytes (b ! 1) (b ! 2))"
  shows "b = (b ! 0) # b ! 1 # b ! 2 # take k (drop 3 b) @ drop (3 + k) b"
proof -
  obtain x y z r where "b = x # y # z # r"
    using assms(1) by (cases b; cases "tl b"; cases "tl (tl b)") auto
  then show ?thesis by (simp add: numeral_eq_Suc)
qed

lemma frame_body_eta:
  assumes "3 + unat (u16_from_be_bytes (b ! 1) (b ! 2)) \<le> length b"
  defines "k \<equiv> unat (u16_from_be_bytes (b ! 1) (b ! 2))"
  shows "b = frame_body (b ! 0) (take k (drop 3 b)) (drop (3 + k) b)"
proof -
  have "length (take k (drop 3 b)) = k" using assms by simp
  then have "u16_to_be_bytes (word_of_nat (length (take k (drop 3 b)))) = [b ! 1, b ! 2]"
    by (simp add: k_def u16_to_from_be_bytes)
  with frame_body_of_bytes [OF assms(1)] show ?thesis by (simp add: frame_body_def k_def)
qed

text \<open>A decoded event re-encodes to the bytes consumed, but for the ignored payload of a control event.\<close>

lemma decode_body_canonical:
  assumes "decode_body b n = Ok (Some (ev, m))"
  shows "event_ok ev \<and> (\<exists>junk. b = frame_body (type_byte (ev_kind ev)) (as_bytes (chan_str (ev_channel ev)))
            (event_payload (ev_kind ev) @ junk) \<and> (junk \<noteq> [] \<longrightarrow> ev_kind ev = Open \<or> ev_kind ev = Close))"
proof -
  let ?k = "unat (u16_from_be_bytes (b ! 1) (b ! 2))"
  from assms have k: "3 + ?k \<le> length b" by (auto simp: decode_body_def split: if_splits)
  from assms k obtain c where c: "from_utf8 (take ?k (drop 3 b)) = Some c"
    by (auto simp: decode_body_def Let_def split: if_splits option.splits)
  from from_utf8_SomeD [OF c] have c': "as_bytes c = take ?k (drop 3 b)" "is_str c" by auto
  have eta: "b = frame_body (b ! 0) (as_bytes c) (drop (3 + ?k) b)"
    using frame_body_eta [OF k] c' by simp
  from assms k c consider
      "b ! 0 = 0" "ev = \<lparr>ev_channel = ChannelId c, ev_kind = Data (drop (3 + ?k) b)\<rparr>"
    | "b ! 0 = 1" "ev = \<lparr>ev_channel = ChannelId c, ev_kind = Open\<rparr>"
    | "b ! 0 = 2" "ev = \<lparr>ev_channel = ChannelId c, ev_kind = Close\<rparr>"
    | msg where "b ! 0 = 3" "ev = \<lparr>ev_channel = ChannelId c, ev_kind = Error msg\<rparr>"
        "from_utf8 (drop (3 + ?k) b) = Some msg"
    by (auto simp: decode_body_def Let_def split: if_splits option.splits)
  then show ?thesis
  proof cases
    case 4
    with from_utf8_SomeD [OF 4(3)] eta c' show ?thesis
      by (intro conjI exI [of _ "[]"]) (simp_all add: event_ok_def event_payload_def)
  next
    case 1
    with eta c' show ?thesis
      by (intro conjI exI [of _ "[]"]) (simp_all add: event_ok_def event_payload_def)
  next
    case 2
    with eta c' show ?thesis
      by (intro conjI exI [of _ "drop (3 + ?k) b"]) (simp_all add: event_ok_def event_payload_def)
  next
    case 3
    with eta c' show ?thesis
      by (intro conjI exI [of _ "drop (3 + ?k) b"]) (simp_all add: event_ok_def event_payload_def)
  qed
qed

lemma take_frame:
  assumes "4 + prefix_len buf \<le> length buf"
  shows "take (4 + prefix_len buf) buf = framed (take (prefix_len buf) (drop 4 buf))"
proof -
  obtain a b c d r where buf: "buf = a # b # c # d # r"
    using assms by (cases buf; cases "tl buf"; cases "tl (tl buf)"; cases "tl (tl (tl buf))") auto
  then have "u32_to_be_bytes (word_of_nat (prefix_len buf)) = [a, b, c, d]"
    by (simp add: prefix_len_def u32_to_from_be_bytes)
  moreover have "length (take (prefix_len buf) (drop 4 buf)) = prefix_len buf" using assms by simp
  moreover have "take (4 + n) (a # b # c # d # r) = a # b # c # d # take n r" for n
    by (simp add: eval_nat_numeral)
  ultimately show ?thesis using buf by (simp add: framed_def)
qed

text \<open>
  C17: what the decoder accepts. An event it returns was read from a whole frame at the front of the
  buffer, no larger than the maximum, with the event's type byte and channel id; a data or error frame
  has exactly the event's payload, while the payload of an open or close frame, which the format
  documents as empty, is not looked at and may be anything. The event's strings are valid UTF-8.
\<close>

theorem decoder_accepts_only_frames:
  assumes "try_decode buf = Ok (Some (ev, n))"
  shows "event_ok ev \<and> n \<le> length buf \<and> n \<le> 4 + MAX_FRAME_SIZE \<and>
     (\<exists>junk. take n buf = framed (frame_body (type_byte (ev_kind ev)) (as_bytes (chan_str (ev_channel ev)))
            (event_payload (ev_kind ev) @ junk)) \<and> (junk \<noteq> [] \<longrightarrow> ev_kind ev = Open \<or> ev_kind ev = Close))"
proof -
  let ?b = "take (prefix_len buf) (drop 4 buf)"
  from assms have len: "4 \<le> length buf" "prefix_len buf \<le> MAX_FRAME_SIZE" "4 + prefix_len buf \<le> length buf"
    and dec: "decode_body ?b (4 + prefix_len buf) = Ok (Some (ev, n))"
    by (auto simp: try_decode_eq split: if_splits)
  from decode_body_len [OF dec] have n: "n = 4 + prefix_len buf" .
  have take: "take n buf = framed ?b"
    using take_frame len n by simp
  obtain junk where "event_ok ev" and junk: "?b = frame_body (type_byte (ev_kind ev))
      (as_bytes (chan_str (ev_channel ev))) (event_payload (ev_kind ev) @ junk)"
      "junk \<noteq> [] \<longrightarrow> ev_kind ev = Open \<or> ev_kind ev = Close"
    using decode_body_canonical [OF dec] by blast
  then show ?thesis
    using n len take by (intro conjI exI [of _ junk]) auto
qed

text \<open>An open frame with a byte of payload is accepted, and a data frame is taken apart.\<close>

theorem decoder_accepts_only_frames_witness:
  "try_decode [0, 0, 0, 5, 1, 0, 1, 97, 8, 77] = Ok (Some (Event_open ''a'', 9)) \<and>
   (\<exists>junk. take 9 [0, 0, 0, 5, 1, 0, 1, 97, 8, 77] = framed (frame_body 1 (as_bytes ''a'') junk)) \<and>
   try_decode [0, 0, 0, 5, 0, 0, 1, 97, 8, 77] = Ok (Some (Event_data ''a'' [8], 9)) \<and>
   take 9 [0, 0, 0, 5, 0, 0, 1, 97, 8, 77] = framed (frame_body 0 (as_bytes ''a'') [8])"
proof -
  have d: "try_decode [0, 0, 0, 5, 1, 0, 1, 97, 8, 77] = Ok (Some (Event_open ''a'', 9))"
    by (simp add: try_decode_eq prefix_len_def MAX_FRAME_SIZE_def decode_body_def from_utf8_def Let_def
        u32_from_be_bytes_def u16_from_be_bytes_def Event_open_def char_of_byte_def utf8_one) code_simp
  have e: "try_decode [0, 0, 0, 5, 0, 0, 1, 97, 8, 77] = Ok (Some (Event_data ''a'' [8], 9))"
    by (simp add: try_decode_eq prefix_len_def MAX_FRAME_SIZE_def decode_body_def from_utf8_def Let_def
        u32_from_be_bytes_def u16_from_be_bytes_def Event_data_def char_of_byte_def utf8_one) code_simp
  from d e decoder_accepts_only_frames [OF d] decoder_accepts_only_frames [OF e] show ?thesis
    by (auto simp: Event_open_def Event_data_def event_payload_def)
qed

section \<open>Streaming\<close>

text \<open>How far one call advances: a frame, or, on an error, the frame that its length prefix delimits.\<close>

definition error_skip :: "byte list \<Rightarrow> nat" where
  "error_skip buf = (if prefix_len buf \<le> MAX_FRAME_SIZE then 4 + prefix_len buf else 4)"

definition envelope_step :: "byte list \<Rightarrow> (EnvelopeError + Event) scan_step" where
  "envelope_step buf =
     (case try_decode buf of
        Inl e \<Rightarrow> Item (Inl e) (error_skip buf)
      | Inr None \<Rightarrow> NeedMore
      | Inr (Some (ev, n)) \<Rightarrow> Item (Inr ev) n)"

lemma prefix_len_append: "4 \<le> length buf \<Longrightarrow> prefix_len (buf @ ext) = prefix_len buf"
  by (auto simp: prefix_len_def nth_append)

lemma try_decode_cases:
  obtains (short) "length buf < 4" "try_decode buf = Ok None"
  | (large) "4 \<le> length buf" "MAX_FRAME_SIZE < prefix_len buf"
      "try_decode buf = Err (FrameTooLarge (prefix_len buf))"
  | (partial) "4 \<le> length buf" "prefix_len buf \<le> MAX_FRAME_SIZE" "length buf < 4 + prefix_len buf"
      "try_decode buf = Ok None"
  | (whole) "prefix_len buf \<le> MAX_FRAME_SIZE" "4 + prefix_len buf \<le> length buf"
      "try_decode buf = decode_body (take (prefix_len buf) (drop 4 buf)) (4 + prefix_len buf)"
  by (cases "length buf < 4"; cases "MAX_FRAME_SIZE < prefix_len buf";
      cases "length buf < 4 + prefix_len buf") (auto simp: try_decode_eq)

lemma try_decode_append:
  assumes "try_decode buf \<noteq> Ok None"
  shows "try_decode (buf @ ext) = try_decode buf"
proof (rule try_decode_cases [of buf])
  assume "4 \<le> length buf" "MAX_FRAME_SIZE < prefix_len buf"
  then show ?thesis using prefix_len_append [of buf ext] by (simp add: try_decode_eq)
next
  assume *: "prefix_len buf \<le> MAX_FRAME_SIZE" "4 + prefix_len buf \<le> length buf"
  then have "prefix_len (buf @ ext) = prefix_len buf" by (simp add: prefix_len_append)
  with * show ?thesis by (simp add: try_decode_eq)
qed (use assms in auto)

lemma try_decode_error: "try_decode buf = Err e \<Longrightarrow> 4 \<le> error_skip buf \<and> error_skip buf \<le> length buf"
  by (rule try_decode_cases [of buf]) (auto simp: error_skip_def)

lemma try_decode_consumed:
  "try_decode buf = Ok (Some (ev, n)) \<Longrightarrow> 4 \<le> n \<and> n \<le> length buf \<and> n = 4 + prefix_len buf"
  by (rule try_decode_cases [of buf]) (auto dest: decode_body_len)

lemma try_decode_partial: "try_decode buf = Ok None \<Longrightarrow> length buf < 4 + MAX_FRAME_SIZE"
  by (rule try_decode_cases [of buf]) (auto simp: MAX_FRAME_SIZE_def decode_body_not_None)

interpretation envelope: frame_scanner envelope_step "4 + MAX_FRAME_SIZE"
proof unfold_locales
  fix buf i n assume "envelope_step buf = Item i n"
  then show "0 < n \<and> n \<le> length buf"
    using try_decode_error [of buf] try_decode_consumed [of buf]
    by (auto simp: envelope_step_def split: sum.splits option.splits)
next
  fix buf i n ext assume *: "envelope_step buf = Item i n"
  then have "try_decode buf \<noteq> Ok None" by (auto simp: envelope_step_def)
  moreover have "error_skip (buf @ ext) = error_skip buf" if "try_decode buf = Err e" for e
    using that try_decode_error [OF that] by (simp add: error_skip_def prefix_len_append)
  ultimately show "envelope_step (buf @ ext) = Item i n"
    using * try_decode_append [of buf ext] by (auto simp: envelope_step_def split: sum.splits)
next
  fix buf assume "envelope_step buf = NeedMore"
  then show "length buf < 4 + MAX_FRAME_SIZE"
    using try_decode_partial [of buf] by (auto simp: envelope_step_def split: sum.splits option.splits)
qed

text \<open>The live bytes of a decoder; \<open>start\<close> never passes the end of the buffer.\<close>

definition live :: "FrameDecoder \<Rightarrow> byte list" where
  "live d = drop (fd_start d) (fd_buf d)"

definition decoder_ok :: "FrameDecoder \<Rightarrow> bool" where
  "decoder_ok d \<longleftrightarrow> fd_start d \<le> length (fd_buf d)"

lemma push_live: "decoder_ok d \<Longrightarrow> decoder_ok (decoder_push d b) \<and> live (decoder_push d b) = live d @ b"
  by (auto simp: decoder_push_def compact_def live_def decoder_ok_def Let_def)

lemma next_event_live:
  assumes "decoder_ok d"
  shows "case try_decode (live d) of
      Inl e \<Rightarrow> next_event d = (d, Err e)
    | Inr None \<Rightarrow> next_event d = (d, Ok None)
    | Inr (Some (ev, n)) \<Rightarrow> (\<exists>d'. next_event d = (d', Ok (Some ev)) \<and> decoder_ok d' \<and> live d' = drop n (live d))"
proof (cases "try_decode (live d)")
  case (Inr r)
  show ?thesis
  proof (cases r)
    case (Some p)
    obtain ev n where p: "p = (ev, n)" by (cases p)
    with Inr Some have "n \<le> length (live d)" using try_decode_consumed by blast
    with assms have n: "fd_start d + n \<le> length (fd_buf d)" by (auto simp: live_def decoder_ok_def)
    have "try_decode (drop (fd_start d) (fd_buf d)) = Ok (Some (ev, n))"
      using Inr Some p by (simp add: live_def)
    then show ?thesis
      using Inr Some p n by (auto simp: next_event_def Let_def live_def decoder_ok_def add.commute)
  qed (use Inr in \<open>simp add: next_event_def live_def\<close>)
qed (simp add: next_event_def live_def)

text \<open>
  The read loop of the exec codec and of the leg (\<open>nodes/exec.rs\<close>, \<open>nodes/leg.rs\<close>) calls \<open>next_event\<close>
  until it has no event; an error ends the connection.
\<close>

function decoder_drain :: "FrameDecoder \<Rightarrow> FrameDecoder \<times> Event list \<times> EnvelopeError option" where
  "decoder_drain d =
     (case next_event d of
        (d', Inl e) \<Rightarrow> (d', [], Some e)
      | (d', Inr None) \<Rightarrow> (d', [], None)
      | (d', Inr (Some ev)) \<Rightarrow> (let (d'', evs, e) = decoder_drain d' in (d'', ev # evs, e)))"
  by pat_completeness auto

lemma next_event_shrinks:
  assumes "next_event d = (d', Ok (Some ev))"
  shows "length (live d') < length (live d)"
proof -
  from assms obtain n where dec: "try_decode (live d) = Ok (Some (ev, n))"
    by (auto simp: next_event_def live_def Let_def split: sum.splits option.splits)
  from try_decode_consumed [OF dec] have n: "4 \<le> n" "n \<le> length (live d)" by auto
  from assms dec n show ?thesis
    by (auto simp: next_event_def live_def Let_def)
qed

termination decoder_drain
  by (relation "measure (\<lambda>d. length (live d))") (auto dest!: sym [of _ "next_event _"] next_event_shrinks)

declare decoder_drain.simps [simp del]

fun decoder_feed :: "FrameDecoder \<Rightarrow> byte list list \<Rightarrow> FrameDecoder \<times> Event list \<times> EnvelopeError option" where
  "decoder_feed d [] = (d, [], None)"
| "decoder_feed d (c # cs) =
     (case decoder_drain (decoder_push d c) of
        (d', evs, Some e) \<Rightarrow> (d', evs, Some e)
      | (d', evs, None) \<Rightarrow> (let (d'', evs', e) = decoder_feed d' cs in (d'', evs @ evs', e)))"

lemma drain_scan:
  "decoder_ok d \<Longrightarrow> scan envelope_step (live d) = (map Inr evs, r) \<Longrightarrow>
     \<exists>d'. decoder_drain d = (d', evs, None) \<and> decoder_ok d' \<and> live d' = r"
proof (induction evs arbitrary: d)
  case Nil
  have "envelope_step (live d) = NeedMore"
  proof (cases "envelope_step (live d)")
    case (Item i n)
    then show ?thesis using Nil.prems(2) envelope.scan_Item [OF Item] by (simp add: split_beta)
  qed
  moreover from this Nil.prems(2) have "r = live d" by (simp add: envelope.scan_NeedMore)
  ultimately show ?case
    using next_event_live [OF Nil.prems(1)] Nil.prems(1)
    by (subst decoder_drain.simps) (auto simp: envelope_step_def split: sum.splits option.splits)
next
  case (Cons ev evs)
  then obtain i n where step: "envelope_step (live d) = Item i n"
    by (cases "envelope_step (live d)") (auto simp: envelope.scan_NeedMore)
  with Cons.prems(2) have i: "i = Inr ev" and rest: "scan envelope_step (drop n (live d)) = (map Inr evs, r)"
    using envelope.scan_Item [OF step] by (auto simp: split_beta prod_eq_iff)
  with step have "try_decode (live d) = Ok (Some (ev, n))"
    by (auto simp: envelope_step_def split: sum.splits option.splits)
  with next_event_live [OF Cons.prems(1)] obtain d1 where d1: "next_event d = (d1, Ok (Some ev))"
    "decoder_ok d1" "live d1 = drop n (live d)" by auto
  with Cons.IH [of d1] rest obtain d' where "decoder_drain d1 = (d', evs, None)" "decoder_ok d'" "live d' = r"
    by auto
  with d1 show ?case by (subst decoder_drain.simps) simp
qed

lemma feed_drain:
  "decoder_ok d \<Longrightarrow> feed envelope_step (live d) cs = (map Inr evs, r) \<Longrightarrow>
     \<exists>d'. decoder_feed d cs = (d', evs, None) \<and> decoder_ok d' \<and> live d' = r"
proof (induction cs arbitrary: d evs)
  case (Cons c cs)
  let ?d = "decoder_push d c"
  have ok: "decoder_ok ?d" "live ?d = live d @ c" using Cons.prems push_live by auto
  obtain is1 r1 where s1: "scan envelope_step (live d @ c) = (is1, r1)" by fastforce
  obtain is2 where s2: "feed envelope_step r1 cs = (is2, r)" and "is1 @ is2 = map Inr evs"
    using Cons.prems(2) s1 by (auto simp: split_beta prod_eq_iff)
  then obtain e1 e2 where e: "is1 = map Inr e1" "is2 = map Inr e2" "evs = e1 @ e2"
    by (metis map_eq_append_conv)
  obtain d1 where d1: "decoder_drain ?d = (d1, e1, None)" "decoder_ok d1" "live d1 = r1"
    using drain_scan [OF ok(1)] ok(2) s1 e by auto
  with Cons.IH [of d1 e2] s2 e show ?case by auto
qed simp

lemma feed_event_frames:
  assumes "\<forall>ev \<in> set evs. event_ok ev \<and> event_size ev \<le> MAX_FRAME_SIZE"
    and "try_decode tail = Ok None"
    and "concat batches = concat (map event_frame evs) @ tail"
  shows "\<exists>d. decoder_feed decoder_new batches = (d, evs, None) \<and> live d = tail \<and>
     decoder_buffered d < 4 + MAX_FRAME_SIZE"
proof -
  have tail: "envelope_step tail = NeedMore" using assms(2) by (simp add: envelope_step_def)
  have new: "live decoder_new = []" "decoder_ok decoder_new"
    by (simp_all add: live_def decoder_new_def decoder_ok_def)
  have "envelope_step [] = NeedMore" by (simp add: envelope_step_def try_decode_eq)
  then have "feed envelope_step [] batches = scan envelope_step (concat (map event_frame evs) @ tail)"
    using envelope.feed_scan assms(3) by fastforce
  also have "\<dots> = (map Inr evs, tail)"
    using envelope.scan_frames [where frame = event_frame and item = Inr and fs = evs and more = tail]
      assms(1) envelope.scan_NeedMore [OF tail]
    by (simp add: envelope_step_def try_decode_event_frame)
  finally obtain d where d: "decoder_feed decoder_new batches = (d, evs, None)" "live d = tail"
    using feed_drain [OF new(2), of batches evs tail] new(1) by auto
  moreover have "decoder_buffered d = length tail"
    using d by (auto simp: decoder_buffered_def live_def)
  ultimately show ?thesis using try_decode_partial [OF assms(2)] by auto
qed

text \<open>
  C18: the streaming decoder is chunk-independent and lossless: whatever read batches a stream of
  encoded events arrives in, followed by the beginning of another frame, draining the decoder after
  each batch yields exactly those events in order, reports no error, and keeps exactly that
  beginning, which is always shorter than one maximal frame.
\<close>

theorem frame_decoder_reassembles:
  assumes "\<forall>ev \<in> set evs. event_ok ev \<and> event_size ev \<le> MAX_FRAME_SIZE"
    and "try_decode tail = Ok None"
    and "concat batches = concat (map event_frame evs) @ tail"
  shows "\<exists>d. decoder_feed decoder_new batches = (d, evs, None) \<and> live d = tail \<and>
     decoder_buffered d < 4 + MAX_FRAME_SIZE"
  by (rule feed_event_frames [OF assms])

theorem frame_decoder_reassembles_witness:
  "\<exists>d. decoder_feed decoder_new [[0, 0, 0], [4, 1, 0, 1, 97, 0, 0], [0, 6]] = (d, [Event_open ''a''], None) \<and>
     live d = [0, 0, 0, 6]"
proof -
  have "event_ok (Event_open ''a'')" by code_simp
  then have "\<forall>ev \<in> set [Event_open ''a'']. event_ok ev \<and> event_size ev \<le> MAX_FRAME_SIZE"
    by (simp add: event_size_def Event_open_def event_payload_def MAX_FRAME_SIZE_def)
  moreover have "try_decode [0, 0, 0, 6] = Ok None"
    by (simp add: try_decode_eq prefix_len_def MAX_FRAME_SIZE_def u32_from_be_bytes_def)
  moreover have "concat [[0, 0, 0], [4, 1, 0, 1, 97, 0, 0], [0, 6]] =
      concat (map event_frame [Event_open ''a'']) @ [0, 0, 0, 6]" by code_simp
  ultimately show ?thesis using frame_decoder_reassembles by blast
qed

end
