(* ===== verification/Wire.thy ===== *)
theory Wire
  imports Envelope
begin

text \<open>
  The connection-opening \<open>hello\<close> of the daemon-to-daemon wire (\<open>codec-api/src/lib.rs\<close>): its encoder and
  its decoder, which checks the magic first, then the version, and only then the version-1 layout.
\<close>

definition WIRE_MAGIC :: u32 where
  "WIRE_MAGIC = 0x534E584C"

definition WIRE_VERSION :: u16 where
  "WIRE_VERSION = 1"

definition CAP_LOCK_RELAY :: u32 where
  "CAP_LOCK_RELAY = push_bit 0 1"

record Hello =
  h_version :: u16
  h_capabilities :: u32
  h_channels :: "ChannelId list"

datatype WireError =
    BadMagic u32
  | UnsupportedVersion u16
  | WireFrameTooLarge nat
  | WireTruncated string
  | WireBadChannelId

fun hello_body_len :: "nat \<Rightarrow> ChannelId list \<Rightarrow> nat" where
  "hello_body_len body_len [] = body_len"
| "hello_body_len body_len (ch # chs) = hello_body_len (body_len + (2 + length (chan_str ch))) chs"

text \<open>The writing loop; a failing length conversion would leave what was written so far.\<close>

fun write_announcements :: "ChannelId list \<Rightarrow> byte list \<Rightarrow> byte list \<times> (WireError, unit) result" where
  "write_announcements [] out = (out, Ok ())"
| "write_announcements (ch # chs) out =
     (if length (chan_str ch) \<ge> 2 ^ 16 then (out, Err (WireFrameTooLarge (length (chan_str ch))))
      else
        (let ch_len = word_of_nat (length (chan_str ch)) :: u16
         in write_announcements chs (out @ u16_to_be_bytes ch_len @ as_bytes (chan_str ch))))"

definition encode_hello :: "Hello \<Rightarrow> byte list \<Rightarrow> byte list \<times> (WireError, unit) result" where
  "encode_hello hello out =
     (let body_len = hello_body_len 12 (h_channels hello)
      in if body_len > MAX_FRAME_SIZE then (out, Err (WireFrameTooLarge body_len))
         else if length (h_channels hello) \<ge> 2 ^ 16 then (out, Err (WireFrameTooLarge body_len))
         else
           (let count = word_of_nat (length (h_channels hello)) :: u16
            in write_announcements (h_channels hello)
                 (out @ u32_to_be_bytes (word_of_nat body_len) @ u32_to_be_bytes WIRE_MAGIC
                   @ u16_to_be_bytes (h_version hello) @ u32_to_be_bytes (h_capabilities hello)
                   @ u16_to_be_bytes count)))"

text \<open>The announcement loop over the body: remaining count, offset, channels read so far.\<close>

fun read_announcements ::
  "byte list \<Rightarrow> nat \<Rightarrow> nat \<Rightarrow> ChannelId list \<Rightarrow> (WireError, ChannelId list) result" where
  "read_announcements body 0 off channels = Ok channels"
| "read_announcements body (Suc count) off channels =
     (if length body < off + 2 then Err (WireTruncated ''announcement length'')
      else
        (let ch_len = unat (u16_from_be_bytes (body ! off) (body ! (off + 1))); off = off + 2
         in if length body < off + ch_len then Err (WireTruncated ''announcement identity'')
            else
              (case from_utf8 (take ch_len (drop off body)) of
                 None \<Rightarrow> Err WireBadChannelId
               | Some ch \<Rightarrow> read_announcements body count (off + ch_len) (channels @ [ChannelId ch]))))"

definition try_decode_hello :: "byte list \<Rightarrow> (WireError, (Hello \<times> nat) option) result" where
  "try_decode_hello buf =
     (if length buf < 4 then Ok None
      else
        (let body_len = unat (u32_from_be_bytes (buf ! 0) (buf ! 1) (buf ! 2) (buf ! 3))
         in if body_len > MAX_FRAME_SIZE then Err (WireFrameTooLarge body_len)
            else
              (let frame_end = 4 + body_len
               in if length buf < frame_end then Ok None
                  else
                    (let body = take body_len (drop 4 buf)
                     in if length body < 6 then Err (WireTruncated ''header'')
                        else
                          (let magic = u32_from_be_bytes (body ! 0) (body ! 1) (body ! 2) (body ! 3)
                           in if magic \<noteq> WIRE_MAGIC then Err (BadMagic magic)
                              else
                                (let version = u16_from_be_bytes (body ! 4) (body ! 5)
                                 in if version \<noteq> WIRE_VERSION then Err (UnsupportedVersion version)
                                    else if length body < 12 then Err (WireTruncated ''header'')
                                    else
                                      (let capabilities = u32_from_be_bytes (body ! 6) (body ! 7) (body ! 8) (body ! 9);
                                           count = unat (u16_from_be_bytes (body ! 10) (body ! 11))
                                       in case read_announcements body count 12 [] of
                                            Inl e \<Rightarrow> Err e
                                          | Inr channels \<Rightarrow>
                                              Ok (Some (\<lparr>h_version = version, h_capabilities = capabilities,
                                                         h_channels = channels\<rparr>, frame_end)))))))))"

section \<open>The body on its own\<close>

definition decode_hello_body :: "byte list \<Rightarrow> nat \<Rightarrow> (WireError, (Hello \<times> nat) option) result" where
  "decode_hello_body body n =
     (if length body < 6 then Err (WireTruncated ''header'')
      else if u32_from_be_bytes (body ! 0) (body ! 1) (body ! 2) (body ! 3) \<noteq> WIRE_MAGIC
      then Err (BadMagic (u32_from_be_bytes (body ! 0) (body ! 1) (body ! 2) (body ! 3)))
      else if u16_from_be_bytes (body ! 4) (body ! 5) \<noteq> WIRE_VERSION
      then Err (UnsupportedVersion (u16_from_be_bytes (body ! 4) (body ! 5)))
      else if length body < 12 then Err (WireTruncated ''header'')
      else
        (case read_announcements body (unat (u16_from_be_bytes (body ! 10) (body ! 11))) 12 [] of
           Inl e \<Rightarrow> Err e
         | Inr channels \<Rightarrow>
             Ok (Some (\<lparr>h_version = u16_from_be_bytes (body ! 4) (body ! 5),
                        h_capabilities = u32_from_be_bytes (body ! 6) (body ! 7) (body ! 8) (body ! 9),
                        h_channels = channels\<rparr>, n))))"

lemma try_decode_hello_eq:
  "try_decode_hello buf =
     (if length buf < 4 then Ok None
      else if prefix_len buf > MAX_FRAME_SIZE then Err (WireFrameTooLarge (prefix_len buf))
      else if length buf < 4 + prefix_len buf then Ok None
      else decode_hello_body (take (prefix_len buf) (drop 4 buf)) (4 + prefix_len buf))"
  unfolding try_decode_hello_def decode_hello_body_def prefix_len_def Let_def by (rule refl)

lemma try_decode_hello_framed:
  assumes "length body \<le> MAX_FRAME_SIZE"
  shows "try_decode_hello (framed body @ rest) = decode_hello_body body (4 + length body)"
proof -
  have "prefix_len (framed body @ rest) = length body"
    unfolding prefix_len_def by (rule length_prefix [OF assms])
  moreover have "take (length body) (drop 4 (framed body @ rest)) = body"
    by (simp add: framed_def)
  ultimately show ?thesis using assms by (simp add: try_decode_hello_eq)
qed

definition announcement :: "ChannelId \<Rightarrow> byte list" where
  "announcement ch = u16_to_be_bytes (word_of_nat (length (chan_str ch))) @ as_bytes (chan_str ch)"

definition hello_header :: "Hello \<Rightarrow> byte list" where
  "hello_header h =
     u32_to_be_bytes WIRE_MAGIC @ u16_to_be_bytes (h_version h) @ u32_to_be_bytes (h_capabilities h) @
     u16_to_be_bytes (word_of_nat (length (h_channels h)))"

definition hello_body :: "Hello \<Rightarrow> byte list" where
  "hello_body h = hello_header h @ concat (map announcement (h_channels h))"

lemma length_hello_header [simp]: "length (hello_header h) = 12"
  by (simp add: hello_header_def)

lemma length_announcement [simp]: "length (announcement ch) = 2 + length (chan_str ch)"
  by (simp add: announcement_def)

lemma hello_body_len_eq: "hello_body_len n chs = n + length (concat (map announcement chs))"
  by (induction chs arbitrary: n) simp_all

lemma channel_in_body: "ch \<in> set chs \<Longrightarrow> 2 + length (chan_str ch) \<le> length (concat (map announcement chs))"
  by (induction chs) auto

lemma channels_in_body: "2 * length chs \<le> length (concat (map announcement chs))"
  by (induction chs) auto

lemma write_announcements_eq:
  "\<forall>ch \<in> set chs. length (chan_str ch) < 2 ^ 16 \<Longrightarrow>
     write_announcements chs out = (out @ concat (map announcement chs), Ok ())"
  by (induction chs arbitrary: out) (auto simp: announcement_def Let_def)

lemma encode_hello_eq:
  "encode_hello h out =
     (if length (hello_body h) \<le> MAX_FRAME_SIZE then (out @ framed (hello_body h), Ok ())
      else (out, Err (WireFrameTooLarge (length (hello_body h)))))"
proof (cases "length (hello_body h) \<le> MAX_FRAME_SIZE")
  case True
  then have small: "length (concat (map announcement (h_channels h))) < 65535"
    by (simp add: hello_body_def MAX_FRAME_SIZE_def)
  then have "\<forall>ch \<in> set (h_channels h). length (chan_str ch) < 2 ^ 16" "length (h_channels h) < 2 ^ 16"
    using channel_in_body channels_in_body [of "h_channels h"] by fastforce+
  with True show ?thesis
    by (simp add: encode_hello_def Let_def hello_body_len_eq write_announcements_eq hello_body_def
        hello_header_def framed_def)
next
  case False
  then show ?thesis by (simp add: encode_hello_def Let_def hello_body_len_eq hello_body_def)
qed

section \<open>Round trip\<close>

text \<open>A value of the Rust type: the announced identities are UTF-8.\<close>

definition hello_ok :: "Hello \<Rightarrow> bool" where
  "hello_ok h \<longleftrightarrow> (\<forall>ch \<in> set (h_channels h). is_str (chan_str ch))"

lemma read_announcements_eq:
  assumes "\<forall>ch \<in> set chs. length (chan_str ch) < 2 ^ 16 \<and> is_str (chan_str ch)"
  shows "read_announcements (pre @ concat (map announcement chs)) (length chs) (length pre) acc = Ok (acc @ chs)"
  using assms
proof (induction chs arbitrary: pre acc)
  case (Cons ch chs)
  let ?body = "pre @ concat (map announcement (ch # chs))" and ?n = "length (chan_str ch)"
  have lens: "?body ! length pre = ucast (drop_bit 8 (word_of_nat ?n :: u16))"
    "?body ! (length pre + 1) = ucast (word_of_nat ?n :: u16)"
    by (simp_all add: announcement_def u16_to_be_bytes_def nth_append)
  have n: "unat (u16_from_be_bytes (?body ! length pre) (?body ! (length pre + 1))) = ?n"
    unfolding lens u16_from_to_be_bytes using Cons.prems by (simp add: unat_word_of_nat_u16)
  have bytes: "take ?n (drop (length pre + 2) ?body) = as_bytes (chan_str ch)"
    by (simp add: announcement_def)
  have "read_announcements ((pre @ announcement ch) @ concat (map announcement chs)) (length chs)
      (length (pre @ announcement ch)) (acc @ [ch]) = Ok ((acc @ [ch]) @ chs)"
    using Cons by (intro Cons.IH) auto
  with n bytes Cons.prems show ?case
    by (simp add: Let_def str_simps add.assoc)
qed simp

lemma hello_body_fields:
  fixes h :: Hello
  defines "b \<equiv> hello_body h"
  shows "u32_from_be_bytes (b ! 0) (b ! 1) (b ! 2) (b ! 3) = WIRE_MAGIC"
    "u16_from_be_bytes (b ! 4) (b ! 5) = h_version h"
    "u32_from_be_bytes (b ! 6) (b ! 7) (b ! 8) (b ! 9) = h_capabilities h"
    "u16_from_be_bytes (b ! 10) (b ! 11) = word_of_nat (length (h_channels h))"
  by (simp_all add: b_def hello_body_def hello_header_def u32_to_be_bytes_def u16_to_be_bytes_def be_simps)

lemma decode_hello_body_version:
  "h_version h \<noteq> WIRE_VERSION \<Longrightarrow> decode_hello_body (hello_body h) n = Err (UnsupportedVersion (h_version h))"
  by (simp add: decode_hello_body_def hello_body_fields [unfolded One_nat_def] hello_body_fields)
     (simp add: hello_body_def)

text \<open>
  The hello round trip. A hello of this version that fits the frame size decodes, with any bytes
  after it, to itself and to the length of its frame; one that does not fit is refused by the encoder
  with nothing written.
\<close>

theorem hello_round_trip:
  assumes "hello_ok h" and "h_version h = WIRE_VERSION"
  shows "(\<exists>frame. encode_hello h out = (out @ frame, Ok ()) \<and>
            try_decode_hello (frame @ rest) = Ok (Some (h, length frame))) \<or>
         (\<exists>n. encode_hello h out = (out, Err (WireFrameTooLarge n)) \<and> MAX_FRAME_SIZE < n)"
proof (cases "length (hello_body h) \<le> MAX_FRAME_SIZE")
  case True
  then have small: "length (concat (map announcement (h_channels h))) < 65535"
    by (simp add: hello_body_def MAX_FRAME_SIZE_def)
  then have chs: "\<forall>ch \<in> set (h_channels h). length (chan_str ch) < 2 ^ 16 \<and> is_str (chan_str ch)"
    and count: "length (h_channels h) < 2 ^ 16"
    using channel_in_body channels_in_body [of "h_channels h"] assms(1) by (fastforce simp: hello_ok_def)+
  have "decode_hello_body (hello_body h) (4 + length (hello_body h)) =
      Ok (Some (h, 4 + length (hello_body h)))"
    using read_announcements_eq [OF chs, of "hello_header h" "[]"] assms(2) count
    unfolding decode_hello_body_def hello_body_fields
    by (simp add: hello_body_def unat_word_of_nat_u16)
  with True show ?thesis by (simp add: encode_hello_eq try_decode_hello_framed)
next
  case False
  then show ?thesis by (simp add: encode_hello_eq)
qed

theorem hello_round_trip_witness:
  "hello_ok \<lparr>h_version = 1, h_capabilities = 0, h_channels = [ChannelId ''a'']\<rparr> \<and>
   (\<exists>frame. encode_hello \<lparr>h_version = 1, h_capabilities = 0, h_channels = [ChannelId ''a'']\<rparr> [] = ([] @ frame, Ok ()) \<and>
      try_decode_hello (frame @ [5]) =
        Ok (Some (\<lparr>h_version = 1, h_capabilities = 0, h_channels = [ChannelId ''a'']\<rparr>, length frame)))"
proof -
  let ?h = "\<lparr>h_version = 1, h_capabilities = 0, h_channels = [ChannelId ''a'']\<rparr> :: Hello"
  have ok: "hello_ok ?h" by code_simp
  have "h_version ?h = WIRE_VERSION" by (simp add: WIRE_VERSION_def)
  moreover have "\<not> (\<exists>n. encode_hello ?h [] = ([], Err (WireFrameTooLarge n)) \<and> MAX_FRAME_SIZE < n)"
    by (simp add: encode_hello_eq hello_body_def MAX_FRAME_SIZE_def)
  ultimately show ?thesis using ok hello_round_trip [OF ok, of "[]" "[5]"] by blast
qed

section \<open>Refusals\<close>

lemma read_announcements_size:
  "read_announcements body count off acc = Ok chs \<Longrightarrow> off \<le> length body \<Longrightarrow>
     length chs = length acc + count \<and> 2 * count + off \<le> length body \<and>
     (\<forall>ch \<in> set chs. ch \<in> set acc \<or> is_str (chan_str ch))"
proof (induction count arbitrary: off acc)
  case (Suc count)
  let ?n = "unat (u16_from_be_bytes (body ! off) (body ! (off + 1)))"
  from Suc.prems obtain ch where len: "off + 2 + ?n \<le> length body"
    and ch: "from_utf8 (take ?n (drop (off + 2) body)) = Some ch"
    and rec: "read_announcements body count (off + 2 + ?n) (acc @ [ChannelId ch]) = Ok chs"
    by (auto simp: Let_def split: if_splits option.splits)
  from from_utf8_SomeD [OF ch] Suc.IH [OF rec] len show ?case by auto
qed auto

text \<open>
  Refusals are ordered and exact. For a complete frame within the size limit whose body holds at
  least the magic and the version: a wrong magic is reported as such, whatever follows; with the right
  magic a wrong version is reported with the peer's value before the rest of the body is looked at,
  however short it is; and a hello that is accepted has this version, valid identities, and
  no more of them than the received body has room for, whatever count it claims.
\<close>

theorem hello_refused_in_order:
  assumes "length body \<le> MAX_FRAME_SIZE" and "6 \<le> length body"
  defines "magic \<equiv> u32_from_be_bytes (body ! 0) (body ! 1) (body ! 2) (body ! 3)"
    and "version \<equiv> u16_from_be_bytes (body ! 4) (body ! 5)"
  shows "(magic \<noteq> WIRE_MAGIC \<longrightarrow> try_decode_hello (framed body @ rest) = Err (BadMagic magic)) \<and>
     (magic = WIRE_MAGIC \<and> version \<noteq> WIRE_VERSION \<longrightarrow>
        try_decode_hello (framed body @ rest) = Err (UnsupportedVersion version)) \<and>
     (\<forall>h n. try_decode_hello (framed body @ rest) = Ok (Some (h, n)) \<longrightarrow>
        n = 4 + length body \<and> h_version h = WIRE_VERSION \<and> hello_ok h \<and> 12 + 2 * length (h_channels h) \<le> length body)"
proof -
  have dec: "try_decode_hello (framed body @ rest) = decode_hello_body body (4 + length body)"
    by (rule try_decode_hello_framed [OF assms(1)])
  have "n = 4 + length body \<and> h_version h = WIRE_VERSION \<and> hello_ok h \<and> 12 + 2 * length (h_channels h) \<le> length body"
    if *: "decode_hello_body body (4 + length body) = Ok (Some (h, n))" for h n
  proof -
    from * obtain count where "12 \<le> length body" "read_announcements body count 12 [] = Ok (h_channels h)"
      "h_version h = WIRE_VERSION" "n = 4 + length body"
      by (auto simp: decode_hello_body_def split: if_splits sum.splits)
    with read_announcements_size show ?thesis by (fastforce simp: hello_ok_def)
  qed
  with dec assms(2) show ?thesis
    by (simp add: decode_hello_body_def magic_def version_def)
qed

theorem hello_refused_in_order_witness:
  "try_decode_hello (framed [0x53, 0x4E, 0x58, 0x4C, 0, 2] @ []) = Err (UnsupportedVersion 2)"
  using hello_refused_in_order [of "[0x53, 0x4E, 0x58, 0x4C, 0, 2]" "[]"]
  by (simp add: MAX_FRAME_SIZE_def WIRE_MAGIC_def WIRE_VERSION_def u32_from_be_bytes_def
      u16_from_be_bytes_def)

text \<open>
  The encoder writes whatever version the caller puts in the hello, so a hello of any other
  version is emitted successfully and then refused by the decoder of the same crate.
\<close>

theorem encoder_emits_refused_version:
  assumes "h_version h \<noteq> WIRE_VERSION" and "length (hello_body h) \<le> MAX_FRAME_SIZE"
  shows "encode_hello h out = (out @ framed (hello_body h), Ok ()) \<and>
     try_decode_hello (framed (hello_body h)) = Err (UnsupportedVersion (h_version h))"
  using decode_hello_body_version [OF assms(1)] try_decode_hello_framed [OF assms(2), of "[]"] assms(2)
  by (simp add: encode_hello_eq)

theorem encoder_emits_refused_version_witness:
  "encode_hello \<lparr>h_version = 2, h_capabilities = 0, h_channels = []\<rparr> [] =
     ([] @ framed (hello_body \<lparr>h_version = 2, h_capabilities = 0, h_channels = []\<rparr>), Ok ()) \<and>
   try_decode_hello (framed (hello_body \<lparr>h_version = 2, h_capabilities = 0, h_channels = []\<rparr>)) =
     Err (UnsupportedVersion 2)"
  using encoder_emits_refused_version [of "\<lparr>h_version = 2, h_capabilities = 0, h_channels = []\<rparr>" "[]"]
  by (simp add: WIRE_VERSION_def hello_body_def MAX_FRAME_SIZE_def)

end
