(* ===== verification/Codec_Contract.thy ===== *)
theory Codec_Contract
  imports Envelope
begin

text \<open>
  The \<open>Codec\<close> trait as an interface (\<open>codec-api/src/lib.rs\<close>), with what the conformance kit asks of
  an implementation as laws, and two of its implementations: the reference framing codec
  (\<open>codecs/reference/src/lib.rs\<close>) and the passthrough template (\<open>examples/external-codec/codec\<close>).
  The events a \<open>demux\<close> call emits through its callback are returned as a list.
\<close>

type_synonym 's demux = "'s \<Rightarrow> byte list \<Rightarrow> 's \<times> Event list \<times> (CodecError, unit) result"
type_synonym 's mux = "'s \<Rightarrow> Event \<Rightarrow> byte list \<Rightarrow> byte list \<times> (CodecError, unit) result"

section \<open>The reference codec\<close>

record ReferenceCodec =
  rc_buf :: "byte list"
  rc_framing_errors :: u64

definition reference_new :: ReferenceCodec where
  "reference_new = \<lparr>rc_buf = [], rc_framing_errors = 0\<rparr>"

definition reference_buffered :: "ReferenceCodec \<Rightarrow> nat" where
  "reference_buffered c = length (rc_buf c)"

definition reference_resync_count :: "ReferenceCodec \<Rightarrow> u64" where
  "reference_resync_count c = rc_framing_errors c"

definition resync_skip :: "byte list \<Rightarrow> nat option" where
  "resync_skip rest =
     (if length rest < 4 then None
      else
        (let body_len = unat (u32_from_be_bytes (rest ! 0) (rest ! 1) (rest ! 2) (rest ! 3))
         in if body_len \<le> MAX_FRAME_SIZE then
              (let frame_end = 4 + body_len in if length rest < frame_end then None else Some frame_end)
            else Some 4))"

text \<open>The loop of \<open>demux\<close> over the cursor \<open>pos\<close>: emitted events, final cursor, error count.\<close>

function reference_loop :: "byte list \<Rightarrow> nat \<Rightarrow> u64 \<Rightarrow> Event list \<times> nat \<times> u64" where
  "reference_loop buf pos errs =
     (case try_decode (drop pos buf) of
        Inr (Some (event, consumed)) \<Rightarrow>
          (let (evs, p, e) = reference_loop buf (pos + consumed) errs in (event # evs, p, e))
      | Inr None \<Rightarrow> ([], pos, errs)
      | Inl _ \<Rightarrow>
          (case resync_skip (drop pos buf) of
             None \<Rightarrow> ([], pos, errs)
           | Some skip \<Rightarrow> reference_loop buf (pos + skip) (errs + 1)))"
  by pat_completeness auto

lemma resync_skip_bounds: "resync_skip r = Some k \<Longrightarrow> 4 \<le> k \<and> k \<le> length r"
  by (auto simp: resync_skip_def Let_def split: if_splits)

termination reference_loop
  by (relation "measure (\<lambda>(buf, pos, errs). length buf - pos)")
     (auto dest!: try_decode_consumed resync_skip_bounds)

declare reference_loop.simps [simp del]

definition reference_demux :: "ReferenceCodec demux" where
  "reference_demux c input =
     (let buf = rc_buf c @ input; (evs, pos, errs) = reference_loop buf 0 (rc_framing_errors c)
      in (\<lparr>rc_buf = drop pos buf, rc_framing_errors = errs\<rparr>, evs, Ok ()))"

definition reference_mux :: "ReferenceCodec mux" where
  "reference_mux c event out =
     (case encode event out of
        (out', Inl e) \<Rightarrow> (out', Err (Envelope_error e))
      | (out', Inr _) \<Rightarrow> (out', Ok ()))"

section \<open>The passthrough template\<close>

definition CHANNEL :: string where
  "CHANNEL = ''console''"

datatype AcmeCodec = AcmeCodec

definition acme_demux :: "AcmeCodec demux" where
  "acme_demux c input = (c, (if input \<noteq> [] then [Event_data CHANNEL input] else []), Ok ())"

definition acme_mux :: "AcmeCodec mux" where
  "acme_mux c event out =
     (case ev_kind event of Data bytes \<Rightarrow> (out @ bytes, Ok ()) | _ \<Rightarrow> (out, Ok ()))"

section \<open>The contract\<close>

text \<open>The data of one channel in a run of events: the conformance kit's fold.\<close>

definition event_bytes :: "string \<Rightarrow> Event \<Rightarrow> byte list" where
  "event_bytes c ev =
     (case ev_kind ev of Data b \<Rightarrow> (if chan_str (ev_channel ev) = c then b else []) | _ \<Rightarrow> [])"

definition channel_bytes :: "string \<Rightarrow> Event list \<Rightarrow> byte list" where
  "channel_bytes c evs = concat (map (event_bytes c) evs)"

lemma channel_bytes_simps [simp]:
  "channel_bytes c [] = []"
  "channel_bytes c (xs @ ys) = channel_bytes c xs @ channel_bytes c ys"
  "channel_bytes c (ev # xs) = event_bytes c ev @ channel_bytes c xs"
  by (simp_all add: channel_bytes_def)

lemma event_bytes_data [simp]: "event_bytes c (Event_data d b) = (if d = c then b else [])"
  by (simp add: event_bytes_def Event_data_def)

text \<open>A sender frames data one after the other; a receiver demultiplexes the chunks it reads.\<close>

fun mux_all :: "'s mux \<Rightarrow> 's \<Rightarrow> (string \<times> byte list) list \<Rightarrow> byte list \<Rightarrow> byte list \<times> (CodecError, unit) result" where
  "mux_all mux s [] out = (out, Ok ())"
| "mux_all mux s ((c, b) # ms) out =
     (case mux s (Event_data c b) out of
        (out', Inl e) \<Rightarrow> (out', Err e)
      | (out', Inr _) \<Rightarrow> mux_all mux s ms out')"

fun demux_all :: "'s demux \<Rightarrow> 's \<Rightarrow> byte list list \<Rightarrow> 's \<times> Event list \<times> bool" where
  "demux_all demux s [] = (s, [], True)"
| "demux_all demux s (x # xs) =
     (let (s1, e1, r1) = demux s x; (s2, e2, ok) = demux_all demux s1 xs
      in (s2, e1 @ e2, r1 = Ok () \<and> ok))"

definition sent_bytes :: "string \<Rightarrow> (string \<times> byte list) list \<Rightarrow> byte list" where
  "sent_bytes c ms = concat (map (\<lambda>(d, b). if d = c then b else []) ms)"

text \<open>
  \<open>inv\<close> is what holds between calls, \<open>idle\<close> that no partial frame is held, \<open>cfg\<close> the configuration two
  instances share, \<open>sendable\<close> the data that this configuration can frame.
\<close>

locale codec =
  fixes demux :: "'s demux" and mux :: "'s mux"
    and inv idle :: "'s \<Rightarrow> bool" and cfg :: "'s \<Rightarrow> 'c" and buffered :: "'s \<Rightarrow> nat" and limit :: nat
    and sendable :: "'c \<Rightarrow> string \<Rightarrow> byte list \<Rightarrow> bool"
  assumes demux_inv: "inv s \<Longrightarrow> demux s x = (s', evs, r) \<Longrightarrow> inv s' \<and> cfg s' = cfg s"
    and bounded: "inv s \<Longrightarrow> buffered s \<le> limit"
    and demux_nil: "inv s \<Longrightarrow> demux s [] = (s, [], Ok ())"
    and demux_chunk: "inv s \<Longrightarrow> demux s x = (s1, e1, r1) \<Longrightarrow> demux s1 y = (s2, e2, r2) \<Longrightarrow>
        \<exists>e r. demux s (x @ y) = (s2, e, r) \<and> (\<forall>c. channel_bytes c e = channel_bytes c (e1 @ e2)) \<and>
          (r = Ok () \<longleftrightarrow> r1 = Ok () \<and> r2 = Ok ())"
    and round_trip: "inv s \<Longrightarrow> idle s \<Longrightarrow> cfg enc = cfg s \<Longrightarrow> sendable (cfg s) c b \<Longrightarrow>
        \<exists>w s' e. (\<forall>out. mux enc (Event_data c b) out = (out @ w, Ok ())) \<and>
          demux s w = (s', e, Ok ()) \<and> idle s' \<and> (\<forall>d. channel_bytes d e = (if d = c then b else []))"
begin

lemma demux_all_whole:
  assumes "inv s"
  shows "\<exists>s' e e' r. demux s (concat xs) = (s', e, r) \<and> demux_all demux s xs = (s', e', r = Ok ()) \<and>
     (\<forall>c. channel_bytes c e' = channel_bytes c e) \<and> inv s'"
  using assms
proof (induction xs arbitrary: s)
  case Nil
  then show ?case by (simp add: demux_nil)
next
  case (Cons x xs)
  obtain s1 e1 r1 where d1: "demux s x = (s1, e1, r1)" by (metis prod_cases3)
  with Cons.prems have "inv s1" using demux_inv by blast
  with Cons.IH obtain s2 e2 e2' r2 where d2: "demux s1 (concat xs) = (s2, e2, r2)"
    "demux_all demux s1 xs = (s2, e2', r2 = Ok ())" "\<forall>c. channel_bytes c e2' = channel_bytes c e2" "inv s2"
    by blast
  from demux_chunk [OF Cons.prems d1 d2(1)] obtain e r where
    "demux s (x @ concat xs) = (s2, e, r)" "\<forall>c. channel_bytes c e = channel_bytes c (e1 @ e2)"
    "r = Ok () \<longleftrightarrow> r1 = Ok () \<and> r2 = Ok ()" by blast
  with d1 d2 show ?case by simp
qed

lemma mux_demux_whole:
  assumes "inv s" and "idle s" and "cfg enc = cfg s" and "\<forall>(c, b) \<in> set ms. sendable (cfg s) c b"
  shows "\<exists>w s' e. (\<forall>out. mux_all mux enc ms out = (out @ w, Ok ())) \<and> demux s w = (s', e, Ok ()) \<and> idle s' \<and>
     (\<forall>c. channel_bytes c e = sent_bytes c ms)"
  using assms
proof (induction ms arbitrary: s)
  case Nil
  then show ?case by (simp add: demux_nil sent_bytes_def)
next
  case (Cons m ms)
  obtain c b where m: "m = (c, b)" by (cases m)
  with Cons.prems obtain w1 s1 e1 where 1: "\<forall>out. mux enc (Event_data c b) out = (out @ w1, Ok ())"
    "demux s w1 = (s1, e1, Ok ())" "idle s1" "\<forall>d. channel_bytes d e1 = (if d = c then b else [])"
    using round_trip [of s enc c b] by auto
  with Cons.prems have s1: "inv s1" "cfg s1 = cfg s" using demux_inv by blast+
  with Cons 1 obtain w2 s2 e2 where 2: "\<forall>out. mux_all mux enc ms out = (out @ w2, Ok ())"
    "demux s1 w2 = (s2, e2, Ok ())" "idle s2" "\<forall>c. channel_bytes c e2 = sent_bytes c ms"
    using Cons.IH [of s1] by (metis list.set_intros(2))
  from demux_chunk [OF Cons.prems(1) 1(2) 2(2)] obtain e where
    "demux s (w1 @ w2) = (s2, e, Ok ())" "\<forall>c. channel_bytes c e = channel_bytes c (e1 @ e2)" by blast
  with 1 2 m show ?case
    by (intro exI [of _ "w1 @ w2"] exI [of _ s2] exI [of _ e]) (auto simp: sent_bytes_def)
qed

text \<open>
  The kit's universal suites at once: whatever was framed arrives on its channel, whole and in
  order, however the framed stream is cut.
\<close>

lemma conformance:
  assumes "inv s" and "idle s" and "cfg enc = cfg s" and "\<forall>(c, b) \<in> set ms. sendable (cfg s) c b"
    and "mux_all mux enc ms [] = (wire, r)" and "concat batches = wire"
  shows "r = Ok () \<and> (\<exists>s' e. demux_all demux s batches = (s', e, True) \<and> idle s' \<and> buffered s' \<le> limit \<and>
     (\<forall>c. channel_bytes c e = sent_bytes c ms))"
proof -
  obtain w s1 e where 1: "mux_all mux enc ms [] = (w, Ok ())" "demux s w = (s1, e, Ok ())" "idle s1"
    "\<forall>c. channel_bytes c e = sent_bytes c ms"
    using mux_demux_whole [OF assms(1-4)] by (metis append_Nil)
  with assms(5,6) have "r = Ok ()" "concat batches = w" by auto
  with 1 demux_all_whole [OF assms(1), of batches] bounded show ?thesis by force
qed

end


section \<open>The reference codec meets the contract\<close>

definition events_of :: "('e + Event) list \<Rightarrow> Event list" where
  "events_of is = concat (map (\<lambda>i. case i of Inr ev \<Rightarrow> [ev] | Inl _ \<Rightarrow> []) is)"

definition errors_of :: "('e + Event) list \<Rightarrow> nat" where
  "errors_of is = length (filter isl is)"

lemma items_simps [simp]:
  "events_of [] = []" "errors_of [] = 0"
  "events_of (is @ js) = events_of is @ events_of js" "errors_of (is @ js) = errors_of is + errors_of js"
  "events_of (Inr ev # is) = ev # events_of is" "errors_of (Inr ev # is) = errors_of is"
  "events_of (Inl e # is) = events_of is" "errors_of (Inl e # is) = Suc (errors_of is)"
  by (simp_all add: events_of_def errors_of_def)

lemma resync_skip_error: "try_decode r = Err e \<Longrightarrow> resync_skip r = Some (error_skip r)"
  using try_decode_error [of r e] by (auto simp: resync_skip_def error_skip_def prefix_len_def Let_def)

lemma reference_loop_scan:
  assumes "pos \<le> length buf" and "scan envelope_step (drop pos buf) = (is, r)"
  shows "reference_loop buf pos errs = (events_of is, length buf - length r, errs + word_of_nat (errors_of is))"
  using assms
proof (induction buf pos errs arbitrary: "is" rule: reference_loop.induct)
  case (1 buf pos errs)
  show ?case
  proof (cases "try_decode (drop pos buf)")
    case (Inl e)
    then have step: "envelope_step (drop pos buf) = Item (Inl e) (error_skip (drop pos buf))"
      by (simp add: envelope_step_def)
    let ?k = "error_skip (drop pos buf)"
    have k: "pos + ?k \<le> length buf" using try_decode_error [OF Inl] by auto
    obtain js where js: "scan envelope_step (drop (pos + ?k) buf) = (js, r)" "is = Inl e # js"
      using 1(4) envelope.scan_Item [OF step] by (auto simp: split_beta prod_eq_iff add.commute)
    have "reference_loop buf (pos + ?k) (errs + 1) =
        (events_of js, length buf - length r, errs + 1 + word_of_nat (errors_of js))"
      using 1(1) Inl resync_skip_error [OF Inl] k js(1) by blast
    then show ?thesis
      using Inl resync_skip_error [OF Inl] js(2) by (subst reference_loop.simps) (simp add: ac_simps)
  next
    case (Inr v)
    show ?thesis
    proof (cases v)
      case None
      then have "envelope_step (drop pos buf) = NeedMore" using Inr by (simp add: envelope_step_def)
      with 1(3,4) Inr None show ?thesis
        by (subst reference_loop.simps) (auto simp: envelope.scan_NeedMore)
    next
      case (Some p)
      obtain ev n where p: "p = (ev, n)" by (cases p)
      with Some Inr have step: "envelope_step (drop pos buf) = Item (Inr ev) n"
        by (simp add: envelope_step_def)
      have n: "pos + n \<le> length buf" using envelope.step_len [OF step] by auto
      obtain js where js: "scan envelope_step (drop (pos + n) buf) = (js, r)" "is = Inr ev # js"
        using 1(4) envelope.scan_Item [OF step] by (auto simp: split_beta prod_eq_iff add.commute)
      have "reference_loop buf (pos + n) errs =
          (events_of js, length buf - length r, errs + word_of_nat (errors_of js))"
        using 1(2) Inr Some p n js(1) by blast
      then show ?thesis using Inr Some p js(2) by (subst reference_loop.simps) simp
    qed
  qed
qed

lemma reference_demux_scan:
  assumes "scan envelope_step (rc_buf c @ input) = (is, r)"
  shows "reference_demux c input =
    (\<lparr>rc_buf = r, rc_framing_errors = rc_framing_errors c + word_of_nat (errors_of is)\<rparr>, events_of is, Ok ())"
  using reference_loop_scan [of 0 "rc_buf c @ input" "is" r] assms envelope.scan_suffix [of "rc_buf c @ input"]
  by (simp add: reference_demux_def Let_def)

definition reference_inv :: "ReferenceCodec \<Rightarrow> bool" where
  "reference_inv c \<longleftrightarrow> envelope_step (rc_buf c) = NeedMore"

interpretation reference: codec reference_demux reference_mux reference_inv "\<lambda>c. rc_buf c = []" "\<lambda>_. ()"
  reference_buffered "3 + MAX_FRAME_SIZE"
  "\<lambda>_ c b. is_str c \<and> event_size (Event_data c b) \<le> MAX_FRAME_SIZE"
proof unfold_locales
  fix s x s' evs r assume "reference_demux s x = (s', evs, r)"
  then show "reference_inv s' \<and> () = ()"
    using envelope.scan_rest [of "rc_buf s @ x"]
    by (cases "scan envelope_step (rc_buf s @ x)") (auto simp: reference_demux_scan reference_inv_def)
next
  fix s assume "reference_inv s"
  then show "reference_buffered s \<le> 3 + MAX_FRAME_SIZE"
    using envelope.need_bound [of "rc_buf s"] by (simp add: reference_inv_def reference_buffered_def)
next
  fix s assume "reference_inv s"
  then show "reference_demux s [] = (s, [], Ok ())"
    by (subst reference_demux_scan) (auto simp: reference_inv_def envelope.scan_NeedMore)
next
  fix s x s1 e1 r1 y s2 e2 r2
  assume *: "reference_demux s x = (s1, e1, r1)" "reference_demux s1 y = (s2, e2, r2)"
  obtain i1 t1 where 1: "scan envelope_step (rc_buf s @ x) = (i1, t1)" by fastforce
  obtain i2 t2 where 2: "scan envelope_step (t1 @ y) = (i2, t2)" by fastforce
  have s1: "s1 = \<lparr>rc_buf = t1, rc_framing_errors = rc_framing_errors s + word_of_nat (errors_of i1)\<rparr>"
    "e1 = events_of i1" "r1 = Ok ()"
    using * reference_demux_scan [OF 1] by auto
  have "scan envelope_step (rc_buf s @ x @ y) = (i1 @ i2, t2)"
    using envelope.scan_append [of "rc_buf s @ x" y] 1 2 by simp
  from reference_demux_scan [OF this] * s1 reference_demux_scan [of s1 y i2 t2] 2
  show "\<exists>e r. reference_demux s (x @ y) = (s2, e, r) \<and> (\<forall>c. channel_bytes c e = channel_bytes c (e1 @ e2)) \<and>
      (r = Ok () \<longleftrightarrow> r1 = Ok () \<and> r2 = Ok ())"
    by (auto simp: ac_simps)
next
  fix s enc :: ReferenceCodec and c b
  assume s: "reference_inv s" "rc_buf s = []" and ok: "is_str c \<and> event_size (Event_data c b) \<le> MAX_FRAME_SIZE"
  let ?w = "event_frame (Event_data c b)"
  have "event_ok (Event_data c b)" using ok by (simp add: event_ok_def Event_data_def)
  then have "envelope_step (?w @ []) = Item (Inr (Event_data c b)) (length ?w)"
    using ok try_decode_event_frame [of "Event_data c b" "[]"] by (simp add: envelope_step_def)
  moreover have "scan envelope_step [] = ([], [])"
    using s by (simp add: envelope.scan_NeedMore reference_inv_def)
  ultimately have "scan envelope_step (rc_buf s @ ?w) = ([Inr (Event_data c b)], [])"
    using s envelope.scan_Item [of ?w] by simp
  from reference_demux_scan [OF this] ok
  show "\<exists>w s' e. (\<forall>out. reference_mux enc (Event_data c b) out = (out @ w, Ok ())) \<and>
      reference_demux s w = (s', e, Ok ()) \<and> rc_buf s' = [] \<and>
      (\<forall>d. channel_bytes d e = (if d = c then b else []))"
    by (intro exI [of _ ?w]) (simp add: reference_mux_def encode_eq)
qed

interpretation acme: codec acme_demux acme_mux "\<lambda>_. True" "\<lambda>_. True" "\<lambda>_. ()" "\<lambda>_. 0" 0 "\<lambda>_ c b. c = CHANNEL"
  by unfold_locales (auto simp: acme_demux_def acme_mux_def Event_data_def event_bytes_def)

text \<open>
  C19: the reference codec conforms. Data framed by one instance, message after message within the
  frame size, is recovered by another from any chunking of the framed stream: every call succeeds,
  each channel receives exactly its own bytes in order, and afterwards no partial frame is held.
\<close>

theorem reference_codec_conforms:
  assumes "\<forall>(c, b) \<in> set ms. is_str c \<and> event_size (Event_data c b) \<le> MAX_FRAME_SIZE"
    and "mux_all reference_mux reference_new ms [] = (wire, r)" and "concat batches = wire"
  shows "r = Ok () \<and> (\<exists>s' e. demux_all reference_demux reference_new batches = (s', e, True) \<and>
     rc_buf s' = [] \<and> (\<forall>c. channel_bytes c e = sent_bytes c ms))"
proof -
  have "reference_inv reference_new"
    by (simp add: reference_inv_def reference_new_def envelope_step_def try_decode_eq)
  from reference.conformance [OF this _ refl assms] show ?thesis by (auto simp: reference_new_def)
qed

theorem reference_codec_conforms_witness:
  "\<exists>wire s' e. mux_all reference_mux reference_new [(''a'', [1, 2]), (''b'', [3])] [] = (wire, Ok ()) \<and>
     demux_all reference_demux reference_new (map (\<lambda>b. [b]) wire) = (s', e, True) \<and>
     channel_bytes ''a'' e = [1, 2] \<and> channel_bytes ''b'' e = [3]"
proof -
  let ?ms = "[(''a'', [1, 2]), (''b'', [3])] :: (string \<times> byte list) list"
  obtain wire r where w: "mux_all reference_mux reference_new ?ms [] = (wire, r)" by fastforce
  have "is_str ''a''" "is_str ''b''" by code_simp+
  then have ok: "\<forall>(c, b) \<in> set ?ms. is_str c \<and> event_size (Event_data c b) \<le> MAX_FRAME_SIZE"
    by (simp add: event_size_def Event_data_def event_payload_def MAX_FRAME_SIZE_def)
  have "concat (map (\<lambda>b. [b]) wire) = wire" by (induction wire) simp_all
  from reference_codec_conforms [OF ok w this] w show ?thesis by (auto simp: sent_bytes_def)
qed

section \<open>Resynchronisation\<close>

text \<open>A line that damages frame bodies but not their length prefixes: each frame is an event or a broken body.\<close>

datatype line_frame = Good Event | Broken "byte list"

fun line_bytes :: "line_frame \<Rightarrow> byte list" where
  "line_bytes (Good ev) = event_frame ev"
| "line_bytes (Broken body) = framed body"

definition body_error :: "byte list \<Rightarrow> EnvelopeError option" where
  "body_error body = (case decode_body body 0 of Inl e \<Rightarrow> Some e | Inr _ \<Rightarrow> None)"

fun line_ok :: "line_frame \<Rightarrow> bool" where
  "line_ok (Good ev) \<longleftrightarrow> event_ok ev \<and> event_size ev \<le> MAX_FRAME_SIZE"
| "line_ok (Broken body) \<longleftrightarrow> length body \<le> MAX_FRAME_SIZE \<and> body_error body \<noteq> None"

fun line_item :: "line_frame \<Rightarrow> EnvelopeError + Event" where
  "line_item (Good ev) = Inr ev"
| "line_item (Broken body) = Inl (the (body_error body))"

definition good_events :: "line_frame list \<Rightarrow> Event list" where
  "good_events fs = concat (map (\<lambda>f. case f of Good ev \<Rightarrow> [ev] | Broken _ \<Rightarrow> []) fs)"

definition broken_count :: "line_frame list \<Rightarrow> nat" where
  "broken_count fs = length (filter (\<lambda>f. case f of Good _ \<Rightarrow> False | Broken _ \<Rightarrow> True) fs)"

lemma decode_body_error: "body_error body = Some e \<Longrightarrow> decode_body body n = Err e"
  by (auto simp: body_error_def decode_body_def Let_def split: if_splits option.splits sum.splits)

lemma line_step:
  assumes "line_ok f"
  shows "envelope_step (line_bytes f @ ext) = Item (line_item f) (length (line_bytes f))"
proof (cases f)
  case (Good ev)
  with assms show ?thesis by (simp add: envelope_step_def try_decode_event_frame)
next
  case (Broken body)
  with assms obtain e where e: "body_error body = Some e" and len: "length body \<le> MAX_FRAME_SIZE" by auto
  have "prefix_len (framed body @ ext) = length body"
    unfolding prefix_len_def by (rule length_prefix [OF len])
  with Broken e len show ?thesis
    by (simp add: envelope_step_def try_decode_framed decode_body_error error_skip_def)
qed

lemma line_events: "events_of (map line_item fs) = good_events fs"
  by (induction fs) (auto simp: good_events_def split: line_frame.splits)

lemma line_errors: "errors_of (map line_item fs) = broken_count fs"
  by (induction fs) (auto simp: broken_count_def split: line_frame.splits)

text \<open>
  Resynchronisation is exact while length prefixes survive. From an idle codec, any sequence
  of sound frames and of frames with undecodable bodies, in any chunking, yields exactly the events
  of the sound frames, in order, and one counted framing error per broken frame (modulo the counter's
  width); nothing stays buffered and no call fails.
\<close>

theorem reference_resync_exact:
  assumes "\<forall>f \<in> set fs. line_ok f" and "concat batches = concat (map line_bytes fs)" and "rc_buf c = []"
  shows "demux_all reference_demux c batches =
     (\<lparr>rc_buf = [], rc_framing_errors = rc_framing_errors c + word_of_nat (broken_count fs)\<rparr>,
      good_events fs, True)"
proof -
  have gen: "demux_all reference_demux s xs =
      (\<lparr>rc_buf = snd (feed envelope_step (rc_buf s) xs),
        rc_framing_errors = rc_framing_errors s + word_of_nat (errors_of (fst (feed envelope_step (rc_buf s) xs)))\<rparr>,
       events_of (fst (feed envelope_step (rc_buf s) xs)), True)" for s xs
  proof (induction xs arbitrary: s)
    case (Cons x xs)
    obtain "is" r where "scan envelope_step (rc_buf s @ x) = (is, r)" by fastforce
    with Cons.IH reference_demux_scan [OF this] show ?case by (simp add: split_beta ac_simps)
  qed simp
  have none: "envelope_step [] = NeedMore" by (simp add: envelope_step_def try_decode_eq)
  have "feed envelope_step [] batches = scan envelope_step (concat (map line_bytes fs) @ [])"
    using envelope.feed_scan [OF none, of batches] assms(2) by simp
  also have "\<dots> = (map line_item fs, [])"
    using envelope.scan_frames [where frame = line_bytes and item = line_item and fs = fs and more = "[]"]
      assms(1) line_step envelope.scan_NeedMore [OF none] by simp
  finally show ?thesis using gen [of c batches] assms(3) by (simp add: line_events line_errors)
qed

theorem reference_resync_exact_witness:
  "demux_all reference_demux reference_new [[0, 0, 0, 4, 9, 0, 1, 97, 0, 0], [0, 4, 1, 0, 1, 97]] =
     (\<lparr>rc_buf = [], rc_framing_errors = 1\<rparr>, [Event_open ''a''], True)"
proof -
  let ?fs = "[Broken [9, 0, 1, 97], Good (Event_open ''a'')]"
  have "body_error [9, 0, 1, 97] = Some (UnknownType 9)" "event_ok (Event_open ''a'')" by code_simp+
  then have ok: "\<forall>f \<in> set ?fs. line_ok f"
    by (simp add: MAX_FRAME_SIZE_def event_size_def Event_open_def event_payload_def)
  have bytes: "concat [[0, 0, 0, 4, 9, 0, 1, 97, 0, 0], [0, 4, 1, 0, 1, 97]] = concat (map line_bytes ?fs)"
    by code_simp
  have "rc_buf reference_new = []" by (simp add: reference_new_def)
  from reference_resync_exact [OF ok bytes this] show ?thesis
    by (simp add: reference_new_def broken_count_def good_events_def)
qed

end
