(* ===== verification/Tinymux.thy ===== *)
theory Tinymux
  imports Codec_Contract
begin

text \<open>
  The tag-framed template codec (\<open>examples/external-codec/tinymux/src/lib.rs\<close>): its attribute schema, its
  record framing with fragmentation, and its byte-wise resynchronisation. The \<open>toml\<close> crate is not part of
  the repository: an attribute table is a list of keys with values of any type, and the two accessors
  of a value, \<open>as_array\<close> and \<open>as_str\<close>, are arguments.
\<close>

definition MAX_RECORD :: nat where
  "MAX_RECORD = 1024"

definition HEADER :: nat where
  "HEADER = 4"

definition MAX_CHANNELS :: nat where
  "MAX_CHANNELS = 8"

record TinyMuxCodec =
  tm_channels :: "string list"
  tm_buf :: "byte list"
  tm_resyncs :: u64

section \<open>Attributes\<close>

datatype attr_error =
    UnknownKey string
  | ChannelsRequired
  | ChannelsNotArray
  | ChannelNotString nat
  | ChannelsEmpty
  | TooManyChannels nat
  | EmptyChannel nat
  | SlashInChannel nat string
  | DuplicateChannel nat string

text \<open>The loop over the enumerated channels; \<open>seen\<close> is \<open>channels[..i]\<close>.\<close>

fun check_channels :: "string list \<Rightarrow> string list \<Rightarrow> (attr_error, unit) result" where
  "check_channels seen [] = Ok ()"
| "check_channels seen (c # cs) =
     (if c = [] then Err (EmptyChannel (length seen))
      else if CHR ''/'' \<in> set c then Err (SlashInChannel (length seen) c)
      else if c \<in> set seen then Err (DuplicateChannel (length seen) c)
      else check_channels (seen @ [c]) cs)"

definition validate_channels :: "string list \<Rightarrow> (attr_error, unit) result" where
  "validate_channels channels =
     (if channels = [] then Err ChannelsEmpty
      else if length channels > MAX_CHANNELS then Err (TooManyChannels (length channels))
      else check_channels [] channels)"

definition tiny_new :: "string list \<Rightarrow> (attr_error, TinyMuxCodec) result" where
  "tiny_new channels =
     (case validate_channels channels of
        Inl e \<Rightarrow> Err e
      | Inr _ \<Rightarrow> Ok \<lparr>tm_channels = channels, tm_buf = [], tm_resyncs = 0\<rparr>)"

fun read_strings :: "('v \<Rightarrow> string option) \<Rightarrow> nat \<Rightarrow> 'v list \<Rightarrow> (attr_error, string list) result" where
  "read_strings as_str i [] = Ok []"
| "read_strings as_str i (v # vs) =
     (case as_str v of
        None \<Rightarrow> Err (ChannelNotString i)
      | Some s \<Rightarrow> (case read_strings as_str (Suc i) vs of Inl e \<Rightarrow> Err e | Inr ss \<Rightarrow> Ok (s # ss)))"

definition from_attributes ::
  "('v \<Rightarrow> 'v list option) \<Rightarrow> ('v \<Rightarrow> string option) \<Rightarrow> (string \<times> 'v) list \<Rightarrow> (attr_error, TinyMuxCodec) result" where
  "from_attributes as_array as_str attributes =
     (case find (\<lambda>key. key \<noteq> ''channels'') (map fst attributes) of
        Some key \<Rightarrow> Err (UnknownKey key)
      | None \<Rightarrow>
          (case map_of attributes ''channels'' of
             None \<Rightarrow> Err ChannelsRequired
           | Some raw \<Rightarrow>
               (case as_array raw of
                  None \<Rightarrow> Err ChannelsNotArray
                | Some array \<Rightarrow>
                    (case read_strings as_str 0 array of
                       Inl e \<Rightarrow> Err e
                     | Inr channels \<Rightarrow>
                         (case validate_channels channels of
                            Inl e \<Rightarrow> Err e
                          | Inr _ \<Rightarrow> Ok \<lparr>tm_channels = channels, tm_buf = [], tm_resyncs = 0\<rparr>)))))"

section \<open>Records\<close>

definition tiny_buffered :: "TinyMuxCodec \<Rightarrow> nat" where
  "tiny_buffered c = length (tm_buf c)"

definition tag_of :: "TinyMuxCodec \<Rightarrow> string \<Rightarrow> byte option" where
  "tag_of c channel = map_option word_of_nat (position (\<lambda>ch. ch = channel) (tm_channels c))"

definition push_record :: "byte \<Rightarrow> byte \<Rightarrow> byte list \<Rightarrow> byte list \<Rightarrow> byte list" where
  "push_record tag kind payload out =
     out @ [tag] @ [kind] @ u16_to_be_bytes (word_of_nat (length payload)) @ payload"

definition record_event :: "string \<Rightarrow> byte \<Rightarrow> byte list \<Rightarrow> Event" where
  "record_event channel kind payload =
     (if kind = 0 then Event_data channel payload
      else if kind = 1 then Event_open channel
      else if kind = 2 then Event_close channel
      else Event_error channel (from_utf8_lossy payload))"

text \<open>
  The loop of \<open>demux\<close>: \<open>consumed\<close>, the first refusal and the resync counter are its state; the result adds
  the emitted events. \<open>None\<close> for a channel is a tag past the configured list.
\<close>

function tiny_loop ::
  "string list \<Rightarrow> byte list \<Rightarrow> nat \<Rightarrow> framing_reason option \<Rightarrow> u64 \<Rightarrow>
     Event list \<times> nat \<times> framing_reason option \<times> u64" where
  "tiny_loop channels buf consumed refused resyncs =
     (let rest = drop consumed buf
      in if length rest < HEADER then ([], consumed, refused, resyncs)
         else
           (let tag = rest ! 0; kind = rest ! 1; len = unat (u16_from_be_bytes (rest ! 2) (rest ! 3));
                channel = (if unat tag < length channels then Some (channels ! unat tag) else None)
            in if channel = None \<or> kind > 3 \<or> len > MAX_RECORD then
                 tiny_loop channels buf (consumed + 1)
                   (case refused of None \<Rightarrow> Some (UndecodableRecord tag kind len) | Some r \<Rightarrow> Some r)
                   (resyncs + 1)
               else if length rest < HEADER + len then ([], consumed, refused, resyncs)
               else
                 (let payload = take len (drop HEADER rest);
                      event = record_event (the channel) kind payload;
                      (evs, c, r, n) = tiny_loop channels buf (consumed + HEADER + len) refused resyncs
                  in (event # evs, c, r, n))))"
  by pat_completeness auto
termination
  by (relation "measure (\<lambda>(channels, buf, consumed, refused, resyncs). length buf - consumed)")
     (auto simp: HEADER_def)

declare tiny_loop.simps [simp del]

definition tiny_demux :: "TinyMuxCodec demux" where
  "tiny_demux c input =
     (let buf = tm_buf c @ input;
          (evs, consumed, refused, resyncs) = tiny_loop (tm_channels c) buf 0 None (tm_resyncs c)
      in (c\<lparr>tm_buf := drop consumed buf, tm_resyncs := resyncs\<rparr>, evs,
          case refused of Some reason \<Rightarrow> Err (Framing reason) | None \<Rightarrow> Ok ()))"

text \<open>The truncation loop of an error reason: the last character boundary at or below \<open>end\<close>.\<close>

fun boundary_below :: "string \<Rightarrow> nat \<Rightarrow> nat" where
  "boundary_below s 0 = 0"
| "boundary_below s (Suc e) = (if is_char_boundary s (Suc e) then Suc e else boundary_below s e)"

definition tiny_mux :: "TinyMuxCodec mux" where
  "tiny_mux c event out =
     (let channel = chan_str (ev_channel event)
      in case tag_of c channel of
           None \<Rightarrow> (out, Err (Framing (ChannelNotConfigured channel (tm_channels c))))
         | Some tag \<Rightarrow>
             (case ev_kind event of
                Data bytes \<Rightarrow>
                  (if bytes = [] then (push_record tag 0 [] out, Ok ())
                   else (foldl (\<lambda>out fragment. push_record tag 0 fragment out) out (chunks MAX_RECORD bytes), Ok ()))
              | Open \<Rightarrow> (push_record tag 1 [] out, Ok ())
              | Close \<Rightarrow> (push_record tag 2 [] out, Ok ())
              | Error reason \<Rightarrow>
                  (let end' = boundary_below reason (min (length reason) MAX_RECORD)
                   in (push_record tag 3 (as_bytes (take end' reason)) out, Ok ()))))"

section \<open>The record scanner\<close>

definition record_len :: "byte list \<Rightarrow> nat" where
  "record_len buf = unat (u16_from_be_bytes (buf ! 2) (buf ! 3))"

definition record_bad :: "string list \<Rightarrow> byte list \<Rightarrow> bool" where
  "record_bad channels buf \<longleftrightarrow>
     \<not> unat (buf ! 0) < length channels \<or> 3 < buf ! 1 \<or> MAX_RECORD < record_len buf"

definition tiny_step :: "string list \<Rightarrow> byte list \<Rightarrow> (framing_reason + Event) scan_step" where
  "tiny_step channels buf =
     (if length buf < 4 then NeedMore
      else if record_bad channels buf then Item (Inl (UndecodableRecord (buf ! 0) (buf ! 1) (record_len buf))) 1
      else if length buf < 4 + record_len buf then NeedMore
      else Item (Inr (record_event (channels ! unat (buf ! 0)) (buf ! 1) (take (record_len buf) (drop 4 buf))))
             (4 + record_len buf))"

lemma record_header_append:
  "4 \<le> length buf \<Longrightarrow> record_len (buf @ ext) = record_len buf \<and> record_bad channels (buf @ ext) = record_bad channels buf
    \<and> (buf @ ext) ! 0 = buf ! 0 \<and> (buf @ ext) ! 1 = buf ! 1"
  by (cases buf) (auto simp: record_len_def record_bad_def nth_append)

interpretation tiny: frame_scanner "tiny_step channels" "HEADER + MAX_RECORD" for channels
proof unfold_locales
  fix buf i n assume "tiny_step channels buf = Item i n"
  then show "0 < n \<and> n \<le> length buf" by (auto simp: tiny_step_def split: if_splits)
next
  fix buf i n ext assume *: "tiny_step channels buf = Item i n"
  then have "4 \<le> length buf" by (auto simp: tiny_step_def split: if_splits)
  from record_header_append [OF this, of ext channels] * show "tiny_step channels (buf @ ext) = Item i n"
    by (auto simp: tiny_step_def split: if_splits)
next
  fix buf assume "tiny_step channels buf = NeedMore"
  then show "length buf < HEADER + MAX_RECORD"
    by (auto simp: tiny_step_def record_bad_def HEADER_def MAX_RECORD_def split: if_splits)
qed


text \<open>The refusal a call reports: the one already recorded, or the first of the items.\<close>

fun first_refusal :: "framing_reason option \<Rightarrow> (framing_reason + Event) list \<Rightarrow> framing_reason option" where
  "first_refusal (Some r) is = Some r"
| "first_refusal None [] = None"
| "first_refusal None (Inl r # is) = Some r"
| "first_refusal None (Inr _ # is) = first_refusal None is"

lemma first_refusal_Inr [simp]: "first_refusal r (Inr ev # is) = first_refusal r is"
  by (cases r) simp_all

lemma first_refusal_Inl [simp]:
  "first_refusal (case r of None \<Rightarrow> Some e | Some r \<Rightarrow> Some r) is = first_refusal r (Inl e # is)"
  by (cases r) simp_all

lemma first_refusal_Nil [simp]: "first_refusal r [] = r"
  by (cases r) simp_all

lemma first_refusal_None: "first_refusal None is = None \<longleftrightarrow> errors_of is = 0"
proof (induction "is")
  case (Cons i "is")
  then show ?case by (cases i) simp_all
qed simp

lemma tiny_loop_scan:
  assumes "consumed \<le> length buf" and "scan (tiny_step channels) (drop consumed buf) = (is, r)"
  shows "tiny_loop channels buf consumed refused resyncs =
    (events_of is, length buf - length r, first_refusal refused is, resyncs + word_of_nat (errors_of is))"
  using assms
proof (induction channels buf consumed refused resyncs arbitrary: "is" rule: tiny_loop.induct)
  case (1 channels buf consumed refused resyncs)
  let ?rest = "drop consumed buf"
  show ?case
  proof (cases "tiny_step channels ?rest")
    case NeedMore
    then have "is = []" "r = ?rest" using 1(4) by (auto simp: tiny.scan_NeedMore)
    with NeedMore 1(3) show ?thesis
      by (subst tiny_loop.simps)
         (auto simp: tiny_step_def record_bad_def record_len_def Let_def HEADER_def split: if_splits)
  next
    case (Item i n)
    have n: "consumed + n \<le> length buf" "0 < n" using tiny.step_len [OF Item] by auto
    obtain js where js: "scan (tiny_step channels) (drop (consumed + n) buf) = (js, r)" "is = i # js"
      using 1(4) tiny.scan_Item [OF Item] by (auto simp: split_beta prod_eq_iff add.commute)
    show ?thesis
    proof (cases "record_bad channels ?rest")
      case True
      then have i: "n = 1" "i = Inl (UndecodableRecord (?rest ! 0) (?rest ! 1) (record_len ?rest))"
        and len: "\<not> length ?rest < HEADER"
        using Item by (auto simp: tiny_step_def HEADER_def split: if_splits)
      let ?ref = "case refused of None \<Rightarrow> Some (UndecodableRecord (?rest ! 0) (?rest ! 1) (record_len ?rest))
        | Some r \<Rightarrow> Some r"
      have bad: "(if unat (?rest ! 0) < length channels then Some (channels ! unat (?rest ! 0)) else None) = None \<or>
          3 < ?rest ! 1 \<or> MAX_RECORD < unat (u16_from_be_bytes (?rest ! 2) (?rest ! 3))"
        using True by (auto simp: record_bad_def record_len_def)
      have "tiny_loop channels buf (consumed + 1) ?ref (resyncs + 1) =
          (events_of js, length buf - length r, first_refusal ?ref js, resyncs + 1 + word_of_nat (errors_of js))"
        unfolding record_len_def
        by (rule 1(1) [OF refl len refl refl refl refl bad]) (use n js(1) i(1) in simp_all)
      then show ?thesis
        using len bad js(2) i
        by (subst tiny_loop.simps, cases refused) (simp_all add: Let_def record_len_def ac_simps)
    next
      case False
      then have i: "n = HEADER + record_len ?rest"
          "i = Inr (record_event (channels ! unat (?rest ! 0)) (?rest ! 1) (take (record_len ?rest) (drop 4 ?rest)))"
        and len: "\<not> length ?rest < HEADER" "\<not> length ?rest < HEADER + record_len ?rest"
        using Item by (auto simp: tiny_step_def HEADER_def split: if_splits)
      have good: "\<not> ((if unat (?rest ! 0) < length channels then Some (channels ! unat (?rest ! 0)) else None) = None \<or>
          3 < ?rest ! 1 \<or> MAX_RECORD < unat (u16_from_be_bytes (?rest ! 2) (?rest ! 3)))"
        using False by (auto simp: record_bad_def record_len_def)
      then have tag: "unat (?rest ! 0) < length channels" by (auto split: if_splits)
      have "tiny_loop channels buf (consumed + HEADER + record_len ?rest) refused resyncs =
          (events_of js, length buf - length r, first_refusal refused js, resyncs + word_of_nat (errors_of js))"
        using 1(2) [OF refl len(1) refl refl refl refl good _ refl refl] len n js(1) i(1)
        by (simp add: record_len_def add.assoc)
      then show ?thesis
        using len good tag js(2) i
        by (subst tiny_loop.simps) (simp add: Let_def record_len_def HEADER_def)
    qed
  qed
qed

lemma tiny_demux_scan:
  assumes "scan (tiny_step (tm_channels c)) (tm_buf c @ input) = (is, r)"
  shows "tiny_demux c input =
    (c\<lparr>tm_buf := r, tm_resyncs := tm_resyncs c + word_of_nat (errors_of is)\<rparr>, events_of is,
     case first_refusal None is of Some e \<Rightarrow> Err (Framing e) | None \<Rightarrow> Ok ())"
  using tiny_loop_scan [of 0 "tm_buf c @ input" "tm_channels c" "is" r] assms
    tiny.scan_suffix [of "tm_buf c @ input" "tm_channels c"]
  by (simp add: tiny_demux_def Let_def)

section \<open>Framing and fragmentation\<close>

definition tiny_record :: "byte \<Rightarrow> byte \<Rightarrow> byte list \<Rightarrow> byte list" where
  "tiny_record tag kind payload = [tag, kind] @ u16_to_be_bytes (word_of_nat (length payload)) @ payload"

lemma push_record_eq: "push_record tag kind payload out = out @ tiny_record tag kind payload"
  by (simp add: push_record_def tiny_record_def)

lemma push_records: "foldl (\<lambda>out f. out @ g f) out fs = out @ concat (map g fs)"
  by (induction fs arbitrary: out) simp_all

lemma record_step:
  assumes "unat tag < length channels" and "kind \<le> 3" and "length payload \<le> MAX_RECORD"
  shows "tiny_step channels (tiny_record tag kind payload @ ext) =
    Item (Inr (record_event (channels ! unat tag) kind payload)) (length (tiny_record tag kind payload))"
proof -
  let ?b = "tiny_record tag kind payload @ ext"
  have "length payload < 2 ^ 16" using assms(3) by (simp add: MAX_RECORD_def)
  then have len: "record_len ?b = length payload"
    by (simp add: record_len_def tiny_record_def u16_to_be_bytes_def u16_from_to_be_bytes unat_word_of_nat_u16)
  have "?b ! 0 = tag" "?b ! 1 = kind" "drop 4 ?b = payload @ ext"
    by (simp_all add: tiny_record_def u16_to_be_bytes_def numeral_eq_Suc)
  moreover from this len assms have "\<not> record_bad channels ?b" by (auto simp: record_bad_def)
  moreover have "length (tiny_record tag kind payload) = 4 + length payload" by (simp add: tiny_record_def)
  ultimately show ?thesis using len by (simp add: tiny_step_def)
qed

lemma check_channels_ok:
  "check_channels seen cs = Ok () \<longleftrightarrow>
     (\<forall>c \<in> set cs. c \<noteq> [] \<and> CHR ''/'' \<notin> set c) \<and> distinct cs \<and> set cs \<inter> set seen = {}"
  by (induction cs arbitrary: seen) auto

definition channels_ok :: "string list \<Rightarrow> bool" where
  "channels_ok cs \<longleftrightarrow> cs \<noteq> [] \<and> length cs \<le> 8 \<and> distinct cs \<and> (\<forall>c \<in> set cs. c \<noteq> [] \<and> CHR ''/'' \<notin> set c)"

lemma validate_channels_ok: "validate_channels cs = Ok () \<longleftrightarrow> channels_ok cs"
  by (auto simp: validate_channels_def check_channels_ok channels_ok_def MAX_CHANNELS_def)

lemma tag_of_configured:
  assumes "channels_ok (tm_channels s)" and "c \<in> set (tm_channels s)"
  obtains tag where "tag_of s c = Some tag" "unat tag < length (tm_channels s)" "tm_channels s ! unat tag = c"
proof -
  obtain i where i: "position (\<lambda>ch. ch = c) (tm_channels s) = Some i"
    using assms(2) position_None_iff [of "\<lambda>ch. ch = c"] by fastforce
  from position_SomeD [OF i] have len: "i < length (tm_channels s)" "tm_channels s ! i = c" by auto
  with assms(1) have "unat (word_of_nat i :: byte) = i" by (simp add: channels_ok_def unat_of_nat)
  with i len show ?thesis by (intro that [of "word_of_nat i"]) (auto simp: tag_of_def)
qed

definition fragments :: "byte list \<Rightarrow> byte list list" where
  "fragments b = (if b = [] then [[]] else chunks MAX_RECORD b)"

lemma fragments_props: "concat (fragments b) = b \<and> (\<forall>f \<in> set (fragments b). length f \<le> MAX_RECORD)"
  using concat_chunks [of MAX_RECORD b] chunks_bounds [of _ MAX_RECORD b]
  by (auto simp: fragments_def MAX_RECORD_def)

lemma tiny_mux_data:
  "tag_of s c = Some tag \<Longrightarrow>
     tiny_mux s (Event_data c b) out = (out @ concat (map (tiny_record tag 0) (fragments b)), Ok ())"
  by (simp add: tiny_mux_def Event_data_def fragments_def push_record_eq push_records)

lemma scan_nil: "scan (tiny_step channels) [] = ([], [])"
  by (rule tiny.scan_NeedMore) (simp add: tiny_step_def)

lemma scan_records:
  assumes "unat tag < length channels" and "kind \<le> 3" and "\<forall>f \<in> set fs. length f \<le> MAX_RECORD"
  shows "scan (tiny_step channels) (concat (map (tiny_record tag kind) fs)) =
    (map (\<lambda>f. Inr (record_event (channels ! unat tag) kind f)) fs, [])"
  using tiny.scan_frames [where frame = "tiny_record tag kind" and fs = fs and more = "[]" and channels = channels
      and item = "\<lambda>f. Inr (record_event (channels ! unat tag) kind f)"]
    record_step [OF assms(1,2)] assms(3) by (simp add: scan_nil)

lemma data_items:
  "errors_of (map (\<lambda>f. Inr (g f)) fs) = 0" "events_of (map (\<lambda>f. Inr (g f)) fs) = map g fs"
  by (induction fs) simp_all

definition tiny_inv :: "TinyMuxCodec \<Rightarrow> bool" where
  "tiny_inv s \<longleftrightarrow> channels_ok (tm_channels s) \<and> tiny_step (tm_channels s) (tm_buf s) = NeedMore"

lemma tiny_round_trip:
  assumes "tiny_inv s" and "tm_buf s = []" and "tm_channels enc = tm_channels s" and "c \<in> set (tm_channels s)"
  shows "\<exists>w s' e. (\<forall>out. tiny_mux enc (Event_data c b) out = (out @ w, Ok ())) \<and>
     tiny_demux s w = (s', e, Ok ()) \<and> tm_buf s' = [] \<and> (\<forall>d. channel_bytes d e = (if d = c then b else []))"
proof -
  obtain tag where tag: "tag_of s c = Some tag" "unat tag < length (tm_channels s)" "tm_channels s ! unat tag = c"
    using assms tag_of_configured by (auto simp: tiny_inv_def)
  let ?w = "concat (map (tiny_record tag 0) (fragments b))"
  have "tag_of enc c = Some tag" using tag(1) assms(3) by (simp add: tag_of_def)
  then have mux: "\<forall>out. tiny_mux enc (Event_data c b) out = (out @ ?w, Ok ())" by (simp add: tiny_mux_data)
  have "scan (tiny_step (tm_channels s)) (tm_buf s @ ?w) =
      (map (\<lambda>f. Inr (Event_data c f)) (fragments b), [])"
    using scan_records [OF tag(2), of 0 "fragments b"] fragments_props [of b] tag(3) assms(2)
    by (simp add: record_event_def)
  from tiny_demux_scan [OF this]
  have "tiny_demux s ?w = (s\<lparr>tm_buf := []\<rparr>, map (Event_data c) (fragments b), Ok ())"
    using first_refusal_None [of "map (\<lambda>f. Inr (Event_data c f)) (fragments b)"] by (simp add: data_items)
  moreover have "channel_bytes d (map (Event_data c) (fragments b)) = (if d = c then b else [])" for d
    using fragments_props [of b] by (auto simp: channel_bytes_def comp_def)
  ultimately show ?thesis using mux by (intro exI [of _ ?w]) simp
qed

interpretation tinymux: codec tiny_demux tiny_mux tiny_inv "\<lambda>s. tm_buf s = []" tm_channels tiny_buffered
  "HEADER + MAX_RECORD" "\<lambda>channels c b. c \<in> set channels"
proof unfold_locales
  fix s x s' evs r assume "tiny_inv s" "tiny_demux s x = (s', evs, r)"
  then show "tiny_inv s' \<and> tm_channels s' = tm_channels s"
    using tiny.scan_rest [of "tm_channels s" "tm_buf s @ x"]
    by (cases "scan (tiny_step (tm_channels s)) (tm_buf s @ x)") (auto simp: tiny_demux_scan tiny_inv_def)
next
  fix s assume "tiny_inv s"
  then show "tiny_buffered s \<le> HEADER + MAX_RECORD"
    using tiny.need_bound [of "tm_channels s" "tm_buf s"] by (simp add: tiny_inv_def tiny_buffered_def)
next
  fix s assume "tiny_inv s"
  then have "scan (tiny_step (tm_channels s)) (tm_buf s @ []) = ([], tm_buf s)"
    by (simp add: tiny_inv_def tiny.scan_NeedMore)
  from tiny_demux_scan [OF this] show "tiny_demux s [] = (s, [], Ok ())" by simp
next
  fix s x s1 e1 r1 y s2 e2 r2
  assume *: "tiny_demux s x = (s1, e1, r1)" "tiny_demux s1 y = (s2, e2, r2)"
  let ?ch = "tm_channels s"
  obtain i1 t1 where 1: "scan (tiny_step ?ch) (tm_buf s @ x) = (i1, t1)" by fastforce
  obtain i2 t2 where 2: "scan (tiny_step ?ch) (t1 @ y) = (i2, t2)" by fastforce
  have s1: "s1 = s\<lparr>tm_buf := t1, tm_resyncs := tm_resyncs s + word_of_nat (errors_of i1)\<rparr>" "e1 = events_of i1"
    and r1: "r1 = Ok () \<longleftrightarrow> errors_of i1 = 0"
    using * tiny_demux_scan [OF 1] first_refusal_None [of i1] by (auto split: option.splits)
  have s2: "s2 = s1\<lparr>tm_buf := t2, tm_resyncs := tm_resyncs s1 + word_of_nat (errors_of i2)\<rparr>" "e2 = events_of i2"
    and r2: "r2 = Ok () \<longleftrightarrow> errors_of i2 = 0"
    using * s1 tiny_demux_scan [of s1 y i2 t2] 2 first_refusal_None [of i2] by (auto split: option.splits)
  have "scan (tiny_step ?ch) (tm_buf s @ x @ y) = (i1 @ i2, t2)"
    using tiny.scan_append [of ?ch "tm_buf s @ x" y] 1 2 by simp
  from tiny_demux_scan [OF this] s1(1) s2(1)
  have dem: "tiny_demux s (x @ y) = (s2, events_of (i1 @ i2),
      case first_refusal None (i1 @ i2) of Some e \<Rightarrow> Err (Framing e) | None \<Rightarrow> Ok ())"
    by (simp add: add.assoc)
  show "\<exists>e r. tiny_demux s (x @ y) = (s2, e, r) \<and> (\<forall>c. channel_bytes c e = channel_bytes c (e1 @ e2)) \<and>
      (r = Ok () \<longleftrightarrow> r1 = Ok () \<and> r2 = Ok ())"
    using s1(2) s2(2) r1 r2 first_refusal_None [of "i1 @ i2"]
    by (cases "first_refusal None (i1 @ i2)") (auto simp: dem)
qed (rule tiny_round_trip)

text \<open>
  C20: tinymux conforms. Data on configured channels, however large (an oversize payload is split into
  records, never dropped), is recovered from any chunking of the framed stream: each channel
  receives exactly its own bytes in order, every call succeeds, and no partial record is left.
\<close>

theorem tinymux_conforms:
  assumes "tiny_new channels = Ok s" and "\<forall>(c, b) \<in> set ms. c \<in> set channels"
    and "mux_all tiny_mux s ms [] = (wire, r)" and "concat batches = wire"
  shows "r = Ok () \<and> (\<exists>s' e. demux_all tiny_demux s batches = (s', e, True) \<and> tm_buf s' = [] \<and>
     (\<forall>c. channel_bytes c e = sent_bytes c ms))"
proof -
  have "validate_channels channels = Ok ()" and s: "s = \<lparr>tm_channels = channels, tm_buf = [], tm_resyncs = 0\<rparr>"
    using assms(1) by (auto simp: tiny_new_def split: sum.splits)
  then have "tiny_inv s" by (simp add: tiny_inv_def validate_channels_ok tiny_step_def)
  from tinymux.conformance [OF this _ refl _ assms(3,4)] assms(2) s show ?thesis by auto
qed

theorem tinymux_conforms_witness:
  "\<exists>s wire s' e. tiny_new [''console'', ''trace''] = Ok s \<and>
     mux_all tiny_mux s [(''trace'', replicate 1500 7), (''console'', [1])] [] = (wire, Ok ()) \<and>
     demux_all tiny_demux s [wire] = (s', e, True) \<and> channel_bytes ''trace'' e = replicate 1500 7"
proof -
  let ?ms = "[(''trace'', replicate 1500 7), (''console'', [1])] :: (string \<times> byte list) list"
  obtain s where s: "tiny_new [''console'', ''trace''] = Ok s"
    by (simp add: tiny_new_def validate_channels_def MAX_CHANNELS_def)
  obtain wire r where w: "mux_all tiny_mux s ?ms [] = (wire, r)" by fastforce
  have "\<forall>(c, b) \<in> set ?ms. c \<in> set [''console'', ''trace'']" by simp
  from tinymux_conforms [OF s this w, of "[wire]"] s w show ?thesis
    by (auto simp: sent_bytes_def)
qed

section \<open>Bounded state and resynchronisation on any input\<close>

text \<open>
  On any input at all, from any state, a \<open>demux\<close> call ends, keeps less than one record with
  its header, emits every event that scanning record by record with byte-wise resynchronisation finds,
  and only then reports an error, exactly when it skipped bytes; the resync counter counts the
  skipped bytes (modulo its width).
\<close>

theorem tinymux_bounded_on_any_input:
  "case scan (tiny_step (tm_channels s)) (tm_buf s @ x) of (is, r) \<Rightarrow>
     \<exists>s' res. tiny_demux s x = (s', events_of is, res) \<and> tm_buf s' = r \<and> tm_channels s' = tm_channels s \<and>
       tiny_buffered s' < HEADER + MAX_RECORD \<and>
       tm_resyncs s' = tm_resyncs s + word_of_nat (errors_of is) \<and> (res = Ok () \<longleftrightarrow> errors_of is = 0)"
proof -
  obtain "is" r where sc: "scan (tiny_step (tm_channels s)) (tm_buf s @ x) = (is, r)" by fastforce
  have "length r < HEADER + MAX_RECORD"
    using tiny.scan_rest_bounded [of "tm_channels s" "tm_buf s @ x"] sc by simp
  with tiny_demux_scan [OF sc] first_refusal_None [of "is"] sc show ?thesis
    by (auto simp: tiny_buffered_def split: option.splits)
qed

section \<open>Control events\<close>

lemma boundary_below_ok: "is_char_boundary s (boundary_below s e) \<and> boundary_below s e \<le> e"
  by (induction e) (auto simp: is_char_boundary_def)

text \<open>What a control event comes back as: an over-long error reason is cut at a character boundary.\<close>

definition received_kind :: "EventKind \<Rightarrow> EventKind" where
  "received_kind k =
     (case k of Error m \<Rightarrow> Error (take (boundary_below m (min (length m) MAX_RECORD)) m) | _ \<Rightarrow> k)"

lemma received_short: "length m \<le> MAX_RECORD \<Longrightarrow> received_kind (Error m) = Error m"
proof -
  assume "length m \<le> MAX_RECORD"
  moreover have "boundary_below m (length m) = length m"
    by (cases "length m") (simp_all add: is_char_boundary_def)
  ultimately show ?thesis by (simp add: received_kind_def)
qed

text \<open>
  Control events survive the round trip: framing an open, close or error event on a configured
  channel and demultiplexing the record yields exactly that event, an error reason longer than one
  record being cut to a prefix that is still valid UTF-8 and at most \<open>MAX_RECORD\<close> bytes.
\<close>

theorem tinymux_control_round_trip:
  assumes "tiny_new channels = Ok s" and "chan_str (ev_channel ev) \<in> set channels" and "event_ok ev"
    and "\<forall>b. ev_kind ev \<noteq> Data b"
  shows "\<exists>w s'. tiny_mux s ev [] = (w, Ok ()) \<and>
     tiny_demux s w = (s', [ev\<lparr>ev_kind := received_kind (ev_kind ev)\<rparr>], Ok ()) \<and> tm_buf s' = [] \<and>
     event_ok (ev\<lparr>ev_kind := received_kind (ev_kind ev)\<rparr>) \<and>
     (\<forall>m. ev_kind ev = Error m \<and> length m \<le> MAX_RECORD \<longrightarrow> received_kind (ev_kind ev) = ev_kind ev)"
proof -
  have s: "channels_ok (tm_channels s)" "tm_channels s = channels" "tm_buf s = []"
    using assms(1) validate_channels_ok [of channels] by (auto simp: tiny_new_def split: sum.splits)
  then obtain tag where tag: "tag_of s (chan_str (ev_channel ev)) = Some tag" "unat tag < length channels"
    "channels ! unat tag = chan_str (ev_channel ev)"
    using tag_of_configured [of s] assms(2) by auto
  obtain p where p: "tiny_mux s ev [] = (tiny_record tag (type_byte (ev_kind ev)) p, Ok ())"
    "length p \<le> MAX_RECORD"
    "record_event (chan_str (ev_channel ev)) (type_byte (ev_kind ev)) p = ev\<lparr>ev_kind := received_kind (ev_kind ev)\<rparr>"
    "event_ok (ev\<lparr>ev_kind := received_kind (ev_kind ev)\<rparr>)"
  proof (cases "ev_kind ev")
    case (Error m)
    let ?e = "boundary_below m (min (length m) MAX_RECORD)"
    have str: "is_str (take ?e m)"
      using boundary_below_ok take_char_boundary assms(3) Error by (auto simp: event_ok_def)
    have "?e \<le> MAX_RECORD" using boundary_below_ok [of m "min (length m) MAX_RECORD"] by simp
    with Error tag(1) str that [of "as_bytes (take ?e m)"] assms(3) show ?thesis
      by (cases ev; cases "ev_channel ev")
         (simp add: tiny_mux_def push_record_eq record_event_def Event_error_def str_simps event_ok_def received_kind_def)
  qed (use tag(1) assms(3,4) that [of "[]"] in
      \<open>cases ev; cases "ev_channel ev";
       simp add: tiny_mux_def push_record_eq record_event_def Event_open_def Event_close_def event_ok_def received_kind_def\<close>)+
  have "type_byte (ev_kind ev) \<le> 3" by (cases "ev_kind ev") simp_all
  from scan_records [OF tag(2) this, of "[p]"] p(2,3) tag(3)
  have "scan (tiny_step (tm_channels s)) (tm_buf s @ tiny_record tag (type_byte (ev_kind ev)) p) =
      ([Inr (ev\<lparr>ev_kind := received_kind (ev_kind ev)\<rparr>)], [])" using s by simp
  from tiny_demux_scan [OF this] p show ?thesis using received_short by (intro exI) auto
qed

theorem tinymux_control_round_trip_witness:
  "\<exists>s w s'. tiny_new [''a''] = Ok s \<and> tiny_mux s (Event_error ''a'' ''bad'') [] = (w, Ok ()) \<and>
     tiny_demux s w = (s', [Event_error ''a'' ''bad''], Ok ())"
proof -
  obtain s where s: "tiny_new [''a''] = Ok s"
    by (simp add: tiny_new_def validate_channels_def MAX_CHANNELS_def)
  have "event_ok (Event_error ''a'' ''bad'')" by code_simp
  with tinymux_control_round_trip [OF s, of "Event_error ''a'' ''bad''"] received_short [of "''bad''"] s
  show ?thesis by (fastforce simp: Event_error_def MAX_RECORD_def)
qed

section \<open>The attribute schema\<close>

lemma read_strings_ok: "read_strings as_str i vs = Ok ss \<longleftrightarrow> map as_str vs = map Some ss"
proof (induction vs arbitrary: i ss)
  case (Cons v vs)
  show ?case
  proof (cases "as_str v")
    case (Some s)
    show ?thesis
    proof (cases "read_strings as_str (Suc i) vs")
      case (Inl e)
      then have "map as_str vs \<noteq> map Some ss'" for ss' using Cons.IH [of "Suc i" ss'] by simp
      with Some Inl show ?thesis by (cases ss) auto
    next
      case (Inr ss')
      then have "map as_str vs = map Some ss'" using Cons.IH by blast
      with Some Inr show ?thesis by (cases ss) auto
    qed
  qed (cases ss; simp)
qed auto

text \<open>
  The attribute schema accepts exactly the tables with the single key \<open>channels\<close> whose value is an
  array of strings, one to eight of them, non-empty, without \<open>/\<close> and distinct; the codec built from it
  is idle and serves exactly those channels. \<open>as_array\<close> and \<open>as_str\<close> are any accessors.
\<close>

theorem attribute_schema_exact:
  "from_attributes as_array as_str attributes = Ok s \<longleftrightarrow>
     (\<forall>k \<in> fst ` set attributes. k = ''channels'') \<and>
     (\<exists>raw array channels. map_of attributes ''channels'' = Some raw \<and> as_array raw = Some array \<and>
        map as_str array = map Some channels \<and>
        channels \<noteq> [] \<and> length channels \<le> MAX_CHANNELS \<and> distinct channels \<and>
        (\<forall>c \<in> set channels. c \<noteq> [] \<and> CHR ''/'' \<notin> set c) \<and>
        s = \<lparr>tm_channels = channels, tm_buf = [], tm_resyncs = 0\<rparr>)"
proof -
  have keys: "find (\<lambda>key. key \<noteq> ''channels'') (map fst attributes) = None \<longleftrightarrow>
      (\<forall>k \<in> fst ` set attributes. k = ''channels'')"
    by (simp add: find_None_iff)
  have valid: "validate_channels cs = Ok () \<longleftrightarrow> cs \<noteq> [] \<and> length cs \<le> MAX_CHANNELS \<and> distinct cs \<and>
      (\<forall>c \<in> set cs. c \<noteq> [] \<and> CHR ''/'' \<notin> set c)" for cs
    using validate_channels_ok [of cs] by (simp add: channels_ok_def MAX_CHANNELS_def)
  have "from_attributes as_array as_str attributes = Ok s \<longleftrightarrow>
     (\<forall>k \<in> fst ` set attributes. k = ''channels'') \<and>
     (\<exists>raw array channels. map_of attributes ''channels'' = Some raw \<and> as_array raw = Some array \<and>
        read_strings as_str 0 array = Ok channels \<and> validate_channels channels = Ok () \<and>
        s = \<lparr>tm_channels = channels, tm_buf = [], tm_resyncs = 0\<rparr>)"
    unfolding from_attributes_def keys [symmetric]
    by (auto split: option.splits sum.splits)
  then show ?thesis unfolding valid read_strings_ok by simp
qed

theorem attribute_schema_exact_witness:
  "from_attributes (\<lambda>v :: string list. Some (map (\<lambda>s. [s]) v)) (\<lambda>v. case v of [s] \<Rightarrow> Some s | _ \<Rightarrow> None)
     [(''channels'', [''a'', ''b''])] = Ok \<lparr>tm_channels = [''a'', ''b''], tm_buf = [], tm_resyncs = 0\<rparr>"
  unfolding attribute_schema_exact by (simp add: MAX_CHANNELS_def)

end
