(* ===== verification/Framing.thy ===== *)
theory Framing
  imports Envelope
begin

text \<open>
  Fragmentation in the daemon's runtime (\<open>daemon/src/runtime.rs\<close>): how a chunk of any length is cut into
  payload ranges that fit one envelope frame, and the stream of framed pieces the leg's write half and the
  exec codec's feed put on the wire, ended by a residual where nothing more can be framed.

  The source's iterators are the lists of the items they yield, in order.
\<close>

section \<open>The boundaries\<close>

definition frame_payload_cap :: "string \<Rightarrow> nat" where
  "frame_payload_cap channel = max (MAX_FRAME_SIZE - (3 + length channel)) 1"

lemma frame_payload_cap_pos [simp]: "0 < frame_payload_cap channel"
  by (simp add: frame_payload_cap_def)

text \<open>What the closure of \<open>frame_ranges\<close> yields from offset \<open>off\<close> on.\<close>

function ranges_from :: "string \<Rightarrow> nat \<Rightarrow> nat \<Rightarrow> (nat \<times> nat) list" where
  "ranges_from channel tot off =
     (if off \<ge> tot then []
      else (let end = min (off + frame_payload_cap channel) tot
            in (off, end) # ranges_from channel tot end))"
  by pat_completeness auto
termination
proof (relation "measure (\<lambda>(channel, tot, off). tot - off)")
  fix channel :: string and tot off e :: nat
  assume "\<not> tot \<le> off" "e = min (off + frame_payload_cap channel) tot"
  then show "((channel, tot, e), channel, tot, off) \<in> measure (\<lambda>(channel, tot, off). tot - off)"
    using frame_payload_cap_pos [of channel] by (simp add: min_def del: frame_payload_cap_pos) linarith
qed simp

declare ranges_from.simps [simp del]

definition frame_ranges :: "string \<Rightarrow> nat \<Rightarrow> (nat \<times> nat) list" where
  "frame_ranges channel tot = ranges_from channel tot 0"

section \<open>The frames\<close>

datatype DataFrame = Piece nat "byte list" | Residual nat

fun frames_over :: "string \<Rightarrow> byte list \<Rightarrow> (nat \<times> nat) list \<Rightarrow> DataFrame list" where
  "frames_over channel bytes [] = []"
| "frames_over channel bytes ((off, end) # ranges) =
     (case encode (Event_data channel (take (end - off) (drop off bytes))) [] of
        (frame, Inl e) \<Rightarrow> [Residual (length bytes - off)]
      | (frame, Inr _) \<Rightarrow> Piece (end - off) frame # frames_over channel bytes ranges)"

definition data_frames :: "string \<Rightarrow> byte list \<Rightarrow> DataFrame list" where
  "data_frames channel bytes = frames_over channel bytes (frame_ranges channel (length bytes))"

section \<open>What the ranges are\<close>

text \<open>The pieces a list of ranges cuts out of a chunk.\<close>

definition slices :: "byte list \<Rightarrow> (nat \<times> nat) list \<Rightarrow> byte list list" where
  "slices bytes rs = map (\<lambda>(off, end). take (end - off) (drop off bytes)) rs"

lemma slices_ranges:
  "tot = length bytes \<Longrightarrow> concat (slices bytes (ranges_from channel tot off)) = drop off bytes"
proof (induction channel tot off rule: ranges_from.induct)
  case (1 channel tot off)
  show ?case
  proof (cases "off \<ge> tot")
    case True
    then show ?thesis using "1.prems" by (subst ranges_from.simps) (simp add: slices_def)
  next
    case False
    let ?e = "min (off + frame_payload_cap channel) tot"
    have "concat (slices bytes (ranges_from channel tot ?e)) = drop ?e bytes"
      using "1.IH" [OF False refl "1.prems"] .
    moreover have "take (?e - off) (drop off bytes) @ drop ?e bytes = drop off bytes"
      using False append_take_drop_id [of "?e - off" "drop off bytes"] by simp
    ultimately show ?thesis
      using False by (subst ranges_from.simps) (simp add: slices_def Let_def)
  qed
qed

lemma ranges_widths:
  "(a, b) \<in> set (ranges_from channel tot off) \<Longrightarrow>
     off \<le> a \<and> a < b \<and> b \<le> tot \<and> b - a \<le> frame_payload_cap channel"
proof (induction channel tot off rule: ranges_from.induct)
  case (1 channel tot off)
  let ?e = "min (off + frame_payload_cap channel) tot"
  from "1.prems" have n: "\<not> tot \<le> off" by (subst (asm) ranges_from.simps) (simp split: if_splits)
  with "1.prems" consider "a = off" "b = ?e" | "(a, b) \<in> set (ranges_from channel tot ?e)"
    by (subst (asm) ranges_from.simps) (auto simp: Let_def)
  then show ?case
  proof cases
    case 1
    then show ?thesis using n frame_payload_cap_pos [of channel] by auto
  next
    case 2
    then show ?thesis using "1.IH" [OF n refl 2] n by auto
  qed
qed

lemma ranges_sum:
  "off \<le> tot \<Longrightarrow> (\<Sum>(a, b) \<leftarrow> ranges_from channel tot off. b - a) = tot - off"
proof (induction channel tot off rule: ranges_from.induct)
  case (1 channel tot off)
  show ?case
  proof (cases "off \<ge> tot")
    case True
    then show ?thesis using "1.prems" by (subst ranges_from.simps) simp
  next
    case False
    have "(\<Sum>(a, b) \<leftarrow> ranges_from channel tot (min (off + frame_payload_cap channel) tot). b - a) =
        tot - min (off + frame_payload_cap channel) tot"
      using "1.IH" [OF False refl] by simp
    with False show ?thesis by (subst ranges_from.simps) (simp add: Let_def)
  qed
qed

section \<open>What the frames are\<close>

fun source_bytes :: "DataFrame \<Rightarrow> nat" where
  "source_bytes (Piece n _) = n"
| "source_bytes (Residual n) = n"

fun frame_bytes :: "DataFrame \<Rightarrow> byte list" where
  "frame_bytes (Piece _ frame) = frame"
| "frame_bytes (Residual _) = []"

lemma event_size_data: "event_size (Event_data channel bs) = 3 + length channel + length bs"
  by (simp add: event_size_def Event_data_def event_payload_def)

lemma payload_fits:
  assumes "length channel + 4 \<le> MAX_FRAME_SIZE" and "length bs \<le> frame_payload_cap channel"
  shows "event_size (Event_data channel bs) \<le> MAX_FRAME_SIZE"
  using assms by (auto simp: event_size_data frame_payload_cap_def max_def split: if_splits)

lemma frames_over_fit:
  assumes "\<forall>(a, b) \<in> set rs. b \<le> length bytes \<and> b - a \<le> frame_payload_cap channel"
    and "length channel + 4 \<le> MAX_FRAME_SIZE"
  shows "frames_over channel bytes rs =
     map (\<lambda>p. Piece (length p) (event_frame (Event_data channel p))) (slices bytes rs)"
  using assms(1)
proof (induction rs)
  case (Cons r rs)
  obtain a b where r: "r = (a, b)" by (cases r)
  with Cons.prems have "length (take (b - a) (drop a bytes)) = b - a" "b - a \<le> frame_payload_cap channel"
    by auto
  then have "event_size (Event_data channel (take (b - a) (drop a bytes))) \<le> MAX_FRAME_SIZE"
    and len: "length (take (b - a) (drop a bytes)) = b - a"
    using payload_fits [OF assms(2)] by metis+
  with r Cons show ?case by (simp add: encode_eq slices_def)
qed (simp add: slices_def)

lemma data_frames_fit:
  assumes "length channel + 4 \<le> MAX_FRAME_SIZE"
  shows "data_frames channel bytes =
     map (\<lambda>p. Piece (length p) (event_frame (Event_data channel p)))
       (slices bytes (frame_ranges channel (length bytes)))"
  unfolding data_frames_def frame_ranges_def
  by (rule frames_over_fit [OF _ assms]) (auto dest: ranges_widths)

lemma data_frames_unframable:
  assumes "MAX_FRAME_SIZE < length channel + 4"
  shows "data_frames channel bytes = (if bytes = [] then [] else [Residual (length bytes)])"
proof -
  have "\<not> event_size (Event_data channel p) \<le> MAX_FRAME_SIZE" if "p \<noteq> []" for p
    using that assms by (cases p) (simp_all add: event_size_data)
  then show ?thesis
    unfolding data_frames_def frame_ranges_def
    by (subst ranges_from.simps) (auto simp: Let_def encode_eq)
qed

lemma slices_bounds:
  assumes "p \<in> set (slices bytes (frame_ranges channel (length bytes)))"
  shows "p \<noteq> [] \<and> length p \<le> frame_payload_cap channel"
proof -
  from assms obtain a b where r: "(a, b) \<in> set (ranges_from channel (length bytes) 0)"
    and p: "p = take (b - a) (drop a bytes)"
    by (auto simp: slices_def frame_ranges_def)
  from ranges_widths [OF r] p show ?thesis by auto
qed

text \<open>
  Fragmentation loses nothing and counts what it cannot frame. For a channel whose identity leaves
  room for a payload byte, every item is a non-empty piece within the payload cap, and a peer that
  feeds the concatenated frames to its decoder in any batches gets exactly the chunk back, on that
  channel, with nothing left over and no error. For any longer identity the whole chunk is one residual
  of exactly its length. Either way the counts add up to the chunk.
\<close>

theorem data_frames_lossless:
  assumes "is_str channel"
  shows "(\<Sum>f \<leftarrow> data_frames channel bytes. source_bytes f) = length bytes \<and>
    (if length channel + 4 \<le> MAX_FRAME_SIZE then
       (\<forall>f \<in> set (data_frames channel bytes). \<exists>n frame. f = Piece n frame \<and> 0 < n \<and>
          n \<le> frame_payload_cap channel \<and> length frame \<le> 4 + MAX_FRAME_SIZE) \<and>
       (\<forall>batches. concat batches = concat (map frame_bytes (data_frames channel bytes)) \<longrightarrow>
          (\<exists>d ps. decoder_feed decoder_new batches = (d, map (Event_data channel) ps, None) \<and>
             live d = [] \<and> concat ps = bytes))
     else data_frames channel bytes = (if bytes = [] then [] else [Residual (length bytes)]))"
proof (cases "length channel + 4 \<le> MAX_FRAME_SIZE")
  case False
  then show ?thesis by (simp add: data_frames_unframable)
next
  case True
  let ?ps = "slices bytes (frame_ranges channel (length bytes))"
  have all: "concat ?ps = bytes" by (simp add: frame_ranges_def slices_ranges)
  have fits: "p \<noteq> [] \<and> length p \<le> frame_payload_cap channel \<and>
      event_size (Event_data channel p) \<le> MAX_FRAME_SIZE" if "p \<in> set ?ps" for p
    using slices_bounds [OF that] payload_fits [OF True] by blast
  have ok: "event_ok (Event_data channel p)" for p
    using assms by (simp add: event_ok_def Event_data_def)
  have "(\<Sum>f \<leftarrow> data_frames channel bytes. source_bytes f) = length bytes"
    by (simp add: data_frames_fit [OF True] comp_def) (metis all length_concat)
  moreover have "\<exists>d. decoder_feed decoder_new batches = (d, map (Event_data channel) ?ps, None) \<and> live d = []"
    if "concat batches = concat (map frame_bytes (data_frames channel bytes))" for batches
  proof -
    have "concat batches = concat (map event_frame (map (Event_data channel) ?ps)) @ []"
      using that by (simp add: data_frames_fit [OF True] comp_def)
    moreover have "try_decode [] = Ok None" by (simp add: try_decode_def)
    ultimately show ?thesis
      using feed_event_frames [of "map (Event_data channel) ?ps" "[]" batches] fits ok by auto
  qed
  ultimately show ?thesis
    using True fits all by (auto simp: data_frames_fit [OF True] length_event_frame) blast
qed

theorem data_frames_lossless_witness:
  "(\<Sum>f \<leftarrow> data_frames ''a'' [1, 2, 3]. source_bytes f) = 3 \<and>
   (\<exists>d ps. decoder_feed decoder_new [concat (map frame_bytes (data_frames ''a'' [1, 2, 3]))] =
       (d, map (Event_data ''a'') ps, None) \<and> live d = [] \<and> concat ps = [1, 2, 3])"
proof -
  have "is_str ''a''" by code_simp
  from data_frames_lossless [OF this, of "[1, 2, 3]"] show ?thesis
    by (simp add: MAX_FRAME_SIZE_def del: decoder_feed.simps)
qed

end
