(* ===== verification/Identity_Set.thy ===== *)
theory Identity_Set
  imports Prelude
begin

text \<open>
  The bounded set of wire-supplied channel identities (\<open>daemon/src/nodes/identity_set.rs\<close>) that the leg
  and the codec nodes report: truncated on a character boundary, deduplicated, capped in number, in
  arrival order, with refused occurrences counted.

  The overflow counter is a \<open>u64\<close> that is only ever incremented by one.
\<close>

section \<open>The set\<close>

definition MAX_IDENTITIES :: nat where
  "MAX_IDENTITIES = 256"

definition MAX_IDENTITY_LEN :: nat where
  "MAX_IDENTITY_LEN = 64"

definition TRUNCATION_MARKER :: string where
  "TRUNCATION_MARKER = map char_of_byte [0xE2, 0x80, 0xA6] @ ''(truncated)''"

record IdentitySet =
  ids_order :: "string list"
  ids_seen :: "string set"
  ids_overflow :: u64

definition identity_set_default :: IdentitySet where
  "identity_set_default = \<lparr>ids_order = [], ids_seen = {}, ids_overflow = 0\<rparr>"

text \<open>The \<open>while\<close> of \<open>truncate_identity\<close>: down to the nearest character boundary.\<close>

fun boundary_floor :: "string \<Rightarrow> nat \<Rightarrow> nat" where
  "boundary_floor s 0 = 0"
| "boundary_floor s (Suc e) = (if is_char_boundary s (Suc e) then Suc e else boundary_floor s e)"

definition truncate_identity :: "string \<Rightarrow> string" where
  "truncate_identity s =
     (if length s \<le> MAX_IDENTITY_LEN then s
      else take (boundary_floor s MAX_IDENTITY_LEN) s @ TRUNCATION_MARKER)"

definition identity_insert :: "string \<Rightarrow> IdentitySet \<Rightarrow> string option \<times> IdentitySet" where
  "identity_insert s ids =
     (let s = truncate_identity s
      in if s \<in> ids_seen ids then (None, ids)
         else if length (ids_order ids) \<ge> MAX_IDENTITIES
         then (None, ids\<lparr>ids_overflow := ids_overflow ids + 1\<rparr>)
         else (Some s, ids\<lparr>ids_seen := insert s (ids_seen ids), ids_order := ids_order ids @ [s]\<rparr>))"

definition identity_clear :: "IdentitySet \<Rightarrow> IdentitySet" where
  "identity_clear ids = ids\<lparr>ids_order := [], ids_seen := {}, ids_overflow := 0\<rparr>"

definition identities :: "IdentitySet \<Rightarrow> string list" where
  "identities ids = ids_order ids"

definition overflow :: "IdentitySet \<Rightarrow> u64" where
  "overflow ids = ids_overflow ids"

section \<open>Truncation\<close>

lemma boundary_floor_le: "boundary_floor s e \<le> e"
  by (induction e) auto

lemma boundary_floor_boundary: "is_char_boundary s (boundary_floor s e)"
  by (induction e) (auto simp: is_char_boundary_def)

lemma boundary_floor_greatest: "i \<le> e \<Longrightarrow> is_char_boundary s i \<Longrightarrow> i \<le> boundary_floor s e"
  by (induction e) (auto simp: le_Suc_eq)

lemma marker_ok: "is_str TRUNCATION_MARKER" "length TRUNCATION_MARKER = 14"
  by code_simp+

lemma truncate_identity_ok:
  assumes "is_str s"
  shows "is_str (truncate_identity s) \<and> length (truncate_identity s) \<le> MAX_IDENTITY_LEN + 14"
proof -
  have "is_str (take (boundary_floor s MAX_IDENTITY_LEN) s)"
    by (rule take_char_boundary [OF assms boundary_floor_boundary])
  moreover have "boundary_floor s MAX_IDENTITY_LEN \<le> MAX_IDENTITY_LEN" by (rule boundary_floor_le)
  ultimately show ?thesis
    using assms is_str_append marker_ok by (auto simp: truncate_identity_def)
qed

section \<open>First sightings\<close>

text \<open>The distinct elements in order of their first occurrence, and the inserts of a whole stream.\<close>

fun nub :: "'a list \<Rightarrow> 'a list" where
  "nub [] = []"
| "nub (x # xs) = x # filter (\<lambda>y. y \<noteq> x) (nub xs)"

fun insert_all :: "string list \<Rightarrow> IdentitySet \<Rightarrow> string option list \<times> IdentitySet" where
  "insert_all [] ids = ([], ids)"
| "insert_all (s # ss) ids =
     (let (r, ids) = identity_insert s ids; (rs, ids) = insert_all ss ids in (r # rs, ids))"

fun firsts :: "'a option list \<Rightarrow> 'a list" where
  "firsts [] = []"
| "firsts (None # rs) = firsts rs"
| "firsts (Some x # rs) = x # firsts rs"

definition ids_inv :: "IdentitySet \<Rightarrow> bool" where
  "ids_inv ids \<longleftrightarrow> set (ids_order ids) = ids_seen ids \<and> distinct (ids_order ids) \<and>
     length (ids_order ids) \<le> MAX_IDENTITIES"

lemma set_nub [simp]: "set (nub xs) = set xs"
  by (induction xs) auto

lemma distinct_nub [simp]: "distinct (nub xs)"
  by (induction xs) auto

lemma identity_insert_inv: "ids_inv ids \<Longrightarrow> ids_inv (snd (identity_insert s ids))"
  by (auto simp: ids_inv_def identity_insert_def Let_def)

lemma insert_all_spec:
  assumes "ids_inv ids"
  defines "fresh \<equiv> \<lambda>ss. filter (\<lambda>t. t \<notin> ids_seen ids) (nub (map truncate_identity ss))"
  shows "let (rs, ids') = insert_all ss ids; room = MAX_IDENTITIES - length (ids_order ids)
     in ids_inv ids' \<and> firsts rs = take room (fresh ss) \<and> ids_order ids' = ids_order ids @ take room (fresh ss) \<and>
        ids_overflow ids' = ids_overflow ids +
          word_of_nat (length (filter (\<lambda>s. truncate_identity s \<notin> set (ids_order ids')) ss))"
  using assms(1) unfolding fresh_def
proof (induction ss arbitrary: ids)
  case Nil
  then show ?case by simp
next
  case (Cons s ss)
  let ?t = "truncate_identity s" and ?room = "MAX_IDENTITIES - length (ids_order ids)"
  obtain r ids1 where i: "identity_insert s ids = (r, ids1)" by fastforce
  obtain rs ids2 where a: "insert_all ss ids1 = (rs, ids2)" by fastforce
  have inv: "ids_inv ids1" using identity_insert_inv [OF Cons.prems, of s] i by simp
  note IH = Cons.IH [OF inv, unfolded a Let_def split_beta fst_conv snd_conv]
  consider (seen) "?t \<in> ids_seen ids" | (full) "?t \<notin> ids_seen ids" "?room = 0"
    | (new) "?t \<notin> ids_seen ids" "?room \<noteq> 0" by blast
  then show ?case
  proof cases
    case seen
    then have "r = None" "ids1 = ids" using i by (auto simp: identity_insert_def Let_def)
    moreover have "filter (\<lambda>u. u \<notin> ids_seen ids) (filter (\<lambda>y. y \<noteq> ?t) xs) = filter (\<lambda>u. u \<notin> ids_seen ids) xs" for xs
      using seen by (auto simp: filter_filter intro: filter_cong)
    ultimately show ?thesis
      using seen i a IH Cons.prems by (auto simp: ids_inv_def)
  next
    case full
    then have "r = None" "ids1 = ids\<lparr>ids_overflow := ids_overflow ids + 1\<rparr>"
      using i [symmetric] by (simp_all add: identity_insert_def Let_def)
    then show ?thesis
      using full i a IH Cons.prems by (simp add: ids_inv_def add.assoc) metis
  next
    case new
    then have r: "r = Some ?t"
      and ids1: "ids_seen ids1 = insert ?t (ids_seen ids)" "ids_order ids1 = ids_order ids @ [?t]"
        "ids_overflow ids1 = ids_overflow ids"
      using i [symmetric] by (simp_all add: identity_insert_def Let_def)
    have f: "filter (\<lambda>u. u \<notin> insert ?t (ids_seen ids)) xs =
        filter (\<lambda>u. u \<notin> ids_seen ids) (filter (\<lambda>y. y \<noteq> ?t) xs)" for xs
      by (auto simp: filter_filter intro: filter_cong)
    obtain room where room: "?room = Suc room" using new(2) not0_implies_Suc by blast
    then have "MAX_IDENTITIES - length (ids_order ids1) = room" using ids1 by simp
    with IH show ?thesis
      using new(1) i a r ids1 room f by simp
  qed
qed

lemma insert_all_default:
  "let (rs, ids) = insert_all ss identity_set_default; ts = take MAX_IDENTITIES (nub (map truncate_identity ss))
   in ids_inv ids \<and> identities ids = ts \<and> firsts rs = ts \<and>
      overflow ids = word_of_nat (length (filter (\<lambda>s. truncate_identity s \<notin> set ts) ss))"
proof -
  obtain rs ids where a: "insert_all ss identity_set_default = (rs, ids)" by fastforce
  have "ids_inv identity_set_default" by (simp add: identity_set_default_def ids_inv_def)
  from insert_all_spec [OF this, of ss] a show ?thesis
    by (simp add: identities_def overflow_def) (simp add: identity_set_default_def)
qed

text \<open>
  Whatever identities arrive, in whatever number and length, the set reports the distinct truncated
  identities in order of first arrival, the first \<open>MAX_IDENTITIES\<close> of them; it answers \<open>Some\<close> exactly
  once for each reported identity, in the same order, so a caller that logs on \<open>Some\<close> logs each
  reported name once; and the overflow counter is the number of occurrences of identities it could not
  record. Each reported identity is a valid string of bounded length, and clearing forgets everything.
\<close>

theorem identity_set_first_sightings:
  assumes "\<forall>s \<in> set ss. is_str s"
  shows "let (rs, ids) = insert_all ss identity_set_default;
             ts = take MAX_IDENTITIES (nub (map truncate_identity ss))
     in identities ids = ts \<and> firsts rs = ts \<and> ids_seen ids = set ts \<and>
        overflow ids = word_of_nat (length (filter (\<lambda>s. truncate_identity s \<notin> set ts) ss)) \<and>
        (\<forall>t \<in> set (identities ids). is_str t \<and> length t \<le> MAX_IDENTITY_LEN + length TRUNCATION_MARKER) \<and>
        identity_clear ids = identity_set_default"
proof -
  have "is_str t \<and> length t \<le> MAX_IDENTITY_LEN + 14"
    if "t \<in> set (take MAX_IDENTITIES (nub (map truncate_identity ss)))" for t
    using in_set_takeD [OF that] truncate_identity_ok assms by auto
  with insert_all_default [of ss] show ?thesis
    by (auto simp: ids_inv_def identities_def marker_ok split_beta Let_def identity_clear_def
        identity_set_default_def)
qed

theorem identity_set_first_sightings_witness:
  "identities (snd (insert_all [''b'', ''a'', ''b''] identity_set_default)) = [''b'', ''a''] \<and>
   firsts (fst (insert_all [''b'', ''a'', ''b''] identity_set_default)) = [''b'', ''a'']"
proof -
  have "\<forall>s \<in> set [''b'', ''a'', ''b'']. is_str s" by code_simp
  moreover have "nub (map truncate_identity [''b'', ''a'', ''b'']) = [''b'', ''a'']" by code_simp
  ultimately show ?thesis
    using identity_set_first_sightings [of "[''b'', ''a'', ''b'']"]
    by (simp add: split_beta Let_def MAX_IDENTITIES_def truncate_identity_def MAX_IDENTITY_LEN_def
        del: insert_all.simps)
qed

text \<open>
  Truncation is visible and never splits a character: an identity within the limit is stored as it
  arrived; a longer one is cut at the last character boundary within the limit and carries the marker,
  and the result is a valid string.
\<close>

theorem truncate_identity_marks:
  assumes "is_str s"
  shows "is_str (truncate_identity s) \<and>
    (length s \<le> MAX_IDENTITY_LEN \<longrightarrow> truncate_identity s = s) \<and>
    (MAX_IDENTITY_LEN < length s \<longrightarrow>
       (\<exists>i \<le> MAX_IDENTITY_LEN. truncate_identity s = take i s @ TRUNCATION_MARKER \<and> is_char_boundary s i \<and>
          (\<forall>j \<le> MAX_IDENTITY_LEN. is_char_boundary s j \<longrightarrow> j \<le> i)))"
  using truncate_identity_ok [OF assms] boundary_floor_le [of s MAX_IDENTITY_LEN]
    boundary_floor_boundary [of s MAX_IDENTITY_LEN] boundary_floor_greatest [of _ MAX_IDENTITY_LEN s]
  by (auto simp: truncate_identity_def intro!: exI [of _ "boundary_floor s MAX_IDENTITY_LEN"])

theorem truncate_identity_marks_witness:
  "is_str (replicate 65 CHR ''x'') \<and> truncate_identity (replicate 65 CHR ''x'') \<noteq> replicate 65 CHR ''x''"
proof -
  have s: "is_str (replicate 65 CHR ''x'')" by code_simp
  from truncate_identity_marks [OF s] obtain i where "i \<le> MAX_IDENTITY_LEN"
    "truncate_identity (replicate 65 CHR ''x'') = take i (replicate 65 CHR ''x'') @ TRUNCATION_MARKER"
    by (auto simp: MAX_IDENTITY_LEN_def)
  moreover have "last TRUNCATION_MARKER \<noteq> CHR ''x''" "TRUNCATION_MARKER \<noteq> []" by code_simp+
  ultimately have "last (truncate_identity (replicate 65 CHR ''x'')) \<noteq> last (replicate 65 CHR ''x'')"
    by simp
  with s show ?thesis by metis
qed

end
