(* ===== verification/Backoff.thy ===== *)
theory Backoff
  imports Prelude
begin

text \<open>
  The reconnect and restart backoff of the boundary nodes (\<open>daemon/src/boundary.rs\<close>). The timer of
  \<open>sleep\<close> is the scheduler's; what is modelled is the interval each call waits and the schedule's state.
\<close>

record Backoff =
  bo_initial :: u64
  bo_max :: u64
  bo_current :: u64
  bo_floor :: u64

definition exponential :: "u64 \<Rightarrow> u64 \<Rightarrow> Backoff" where
  "exponential initial_ms max_ms =
     \<lparr>bo_initial = initial_ms, bo_max = max_ms, bo_current = initial_ms, bo_floor = 1\<rparr>"

definition fixed :: "u64 \<Rightarrow> Backoff" where
  "fixed ms = \<lparr>bo_initial = ms, bo_max = ms, bo_current = ms, bo_floor = 0\<rparr>"

definition next_interval :: "Backoff \<Rightarrow> u64 \<times> Backoff" where
  "next_interval b =
     (let cap = max (bo_max b) (bo_floor b);
          this = min (max (bo_current b) (bo_floor b)) cap
      in (this, b\<lparr>bo_current := min (saturating_mul this 2) cap\<rparr>))"

definition backoff_reset :: "Backoff \<Rightarrow> Backoff" where
  "backoff_reset b = b\<lparr>bo_current := bo_initial b\<rparr>"

text \<open>The waits of \<open>n\<close> failures in a row.\<close>

fun waits :: "nat \<Rightarrow> Backoff \<Rightarrow> u64 list \<times> Backoff" where
  "waits 0 b = ([], b)"
| "waits (Suc n) b = (let (w, b) = next_interval b; (ws, b) = waits n b in (w # ws, b))"

lemma unat_max: "unat (max a b) = max (unat a) (unat b)" for a b :: "'a :: len word"
  by (simp add: max_def word_le_nat_alt)

lemma unat_min: "unat (min a b) = min (unat a) (unat b)" for a b :: "'a :: len word"
  by (simp add: min_def word_le_nat_alt)

lemmas unat_order = unat_max unat_min unat_saturating_mul

lemma waits_keeps:
  "bo_initial (snd (waits n b)) = bo_initial b \<and> bo_max (snd (waits n b)) = bo_max b \<and>
   bo_floor (snd (waits n b)) = bo_floor b"
  by (induction n arbitrary: b) (auto simp: next_interval_def split_beta Let_def)

lemma waits_from:
  assumes "unat (max (bo_max b) (bo_floor b)) = cap" and "unat (max (bo_current b) (bo_floor b)) = a"
    and "bo_floor b \<le> 1"
  shows "map unat (fst (waits n b)) = map (\<lambda>k. min (a * 2 ^ k) cap) [0..<n]"
  using assms
proof (induction n arbitrary: b a)
  case (Suc n)
  let ?b = "snd (next_interval b)"
  let ?a = "min (2 * min a cap) cap"
  have le: "unat (bo_floor b) \<le> 1" using Suc.prems(3) by (simp add: word_le_nat_alt)
  have "unat (max (bo_max b) (bo_floor b)) < 2 ^ LENGTH(64)" by (rule unsigned_less)
  with Suc.prems(1) have cap: "cap < 2 ^ 64" by simp
  have floor: "unat (bo_floor b) \<le> cap" "unat (bo_floor b) \<le> a"
    using Suc.prems(1,2) by (auto simp: unat_order)
  have fst: "unat (fst (next_interval b)) = min a cap"
    using Suc.prems(1,2) by (simp add: next_interval_def Let_def unat_min)
  have "unat (bo_current ?b) = ?a"
    using Suc.prems(1,2) cap fst by (simp add: next_interval_def Let_def unat_order)
  moreover have "unat (bo_floor b) \<le> ?a" using floor le by auto
  ultimately have "unat (max (bo_current ?b) (bo_floor ?b)) = ?a"
    by (simp add: next_interval_def Let_def unat_max)
  moreover have "unat (max (bo_max ?b) (bo_floor ?b)) = cap" "bo_floor ?b \<le> 1"
    using Suc.prems by (simp_all add: next_interval_def Let_def)
  ultimately have "map unat (fst (waits n ?b)) = map (\<lambda>k. min (?a * 2 ^ k) cap) [0..<n]"
    by (intro Suc.IH)
  moreover have "min (?a * 2 ^ k) cap = min (a * 2 ^ Suc k) cap" for k
  proof (cases "2 * a \<le> cap")
    case False
    then have "min (?a * 2 ^ k) cap = cap" by (simp add: min_absorb2)
    moreover have "cap \<le> a * 2 ^ Suc k"
      using False by (intro order.trans [of cap "2 * a" "a * 2 ^ Suc k"]) auto
    ultimately show ?thesis by (simp only: min_absorb2)
  qed (simp add: min_def)
  ultimately show ?case
    using fst by (simp add: split_beta Let_def upt_conv_Cons map_Suc_upt [symmetric] del: upt_Suc)
qed simp

text \<open>
  The reconnect schedule is the intended one: after \<open>k\<close> failures in a row, and again after any
  number of failures and a reset, the exponential backoff waits its initial interval, at least one
  millisecond, doubled \<open>k\<close> times and capped at its maximum, with no wrap-around however long the outage;
  and the fixed backoff always waits exactly its interval, zero included.
\<close>

theorem backoff_schedule:
  "map unat (fst (waits n (exponential initial_ms max_ms))) =
     map (\<lambda>k. min (max (unat initial_ms) 1 * 2 ^ k) (max (unat max_ms) 1)) [0..<n] \<and>
   backoff_reset (snd (waits m (exponential initial_ms max_ms))) = exponential initial_ms max_ms \<and>
   fst (waits n (fixed ms)) = replicate n ms"
proof (intro conjI)
  show "map unat (fst (waits n (exponential initial_ms max_ms))) =
     map (\<lambda>k. min (max (unat initial_ms) 1 * 2 ^ k) (max (unat max_ms) 1)) [0..<n]"
    by (rule waits_from) (simp_all add: exponential_def unat_max)
  show "backoff_reset (snd (waits m (exponential initial_ms max_ms))) = exponential initial_ms max_ms"
    using waits_keeps [of m "exponential initial_ms max_ms"]
    by (simp add: backoff_reset_def exponential_def)
  have "min (unat ms * 2 ^ k) (unat ms) = unat ms" for k by simp
  then have "map unat (fst (waits n (fixed ms))) = map unat (replicate n ms)"
    using waits_from [of "fixed ms" "unat ms" "unat ms" n]
    by (simp add: fixed_def unat_max map_replicate_const)
  then show "fst (waits n (fixed ms)) = replicate n ms"
    by (rule map_injective) (simp add: inj_def unsigned_word_eqI)
qed

end
