(* ===== verification/Request_Lines.thy ===== *)
theory Request_Lines
  imports Prelude
begin

text \<open>
  The control plane's request reader (\<open>daemon/src/control.rs\<close>): newline-delimited requests with a hard cap
  on the length of a line.

  The reader underneath hands out what has arrived in pieces: the state holds the pieces \<open>fill_buf\<close> has
  yet to answer, an empty one being the end of the stream. A cancelled call keeps the state it had reached,
  \<open>reader\<close> and \<open>buf\<close> together, so a later call continues from there.
\<close>

section \<open>The reader\<close>

definition MAX_REQUEST_LINE :: nat where
  "MAX_REQUEST_LINE = 1048576"

datatype LineRead = Line string | Eof | TooLong

datatype line_error = InvalidData

record RequestLines =
  rl_reader :: "byte list list"
  rl_buf :: "byte list"

definition request_lines_new :: "byte list list \<Rightarrow> RequestLines" where
  "request_lines_new pieces = \<lparr>rl_reader = pieces, rl_buf = []\<rparr>"

text \<open>\<open>consume(n)\<close>: the rest of the front piece stays in front.\<close>

definition consume :: "nat \<Rightarrow> byte list list \<Rightarrow> byte list list" where
  "consume n pieces =
     (case pieces of [] \<Rightarrow> [] | p # ps \<Rightarrow> if drop n p = [] then ps else drop n p # ps)"

definition strip_cr :: "byte list \<Rightarrow> byte list" where
  "strip_cr bytes = (if bytes \<noteq> [] \<and> last bytes = 13 then butlast bytes else bytes)"

definition line_of :: "byte list \<Rightarrow> (line_error, LineRead) result" where
  "line_of bytes = (case from_utf8 (strip_cr bytes) of None \<Rightarrow> Err InvalidData | Some s \<Rightarrow> Ok (Line s))"

definition take_line :: "RequestLines \<Rightarrow> (line_error, LineRead) result \<times> RequestLines" where
  "take_line r = (line_of (rl_buf r), r\<lparr>rl_buf := []\<rparr>)"

text \<open>One round of the loop of \<open>next_line\<close>: \<open>None\<close> goes on to the next \<open>fill_buf\<close>.\<close>

definition next_line_round :: "RequestLines \<Rightarrow> (line_error, LineRead) result option \<times> RequestLines" where
  "next_line_round r =
     (let available = (case rl_reader r of [] \<Rightarrow> [] | p # _ \<Rightarrow> p)
      in if available = [] then
           (if rl_buf r = [] then (Some (Ok Eof), r)
            else (let (line, r) = take_line r in (Some line, r)))
         else
           (case position (\<lambda>b. b = 10) available of
              Some pos \<Rightarrow>
                if length (rl_buf r) + pos > MAX_REQUEST_LINE
                then (Some (Ok TooLong), r\<lparr>rl_reader := consume (pos + 1) (rl_reader r), rl_buf := []\<rparr>)
                else
                  (let (line, r) = take_line (r\<lparr>rl_buf := rl_buf r @ take pos available,
                                               rl_reader := consume (pos + 1) (rl_reader r)\<rparr>)
                   in (Some line, r))
            | None \<Rightarrow>
                (let chunk = length available
                 in if length (rl_buf r) + chunk > MAX_REQUEST_LINE
                    then (Some (Ok TooLong), r\<lparr>rl_reader := consume chunk (rl_reader r), rl_buf := []\<rparr>)
                    else (None, r\<lparr>rl_buf := rl_buf r @ available,
                                  rl_reader := consume chunk (rl_reader r)\<rparr>))))"

lemma next_line_round_shrinks:
  "next_line_round r = (None, r') \<Longrightarrow> length (rl_reader r') < length (rl_reader r)"
  by (auto simp: next_line_round_def take_line_def consume_def Let_def split: list.splits option.splits if_splits)

function next_line :: "RequestLines \<Rightarrow> (line_error, LineRead) result \<times> RequestLines" where
  "next_line r =
     (case next_line_round r of
        (Some res, r) \<Rightarrow> (res, r)
      | (None, r) \<Rightarrow> next_line r)"
  by pat_completeness auto
termination
  by (relation "measure (\<lambda>r. length (rl_reader r))") (auto dest: next_line_round_shrinks [OF sym])

declare next_line.simps [simp del]

section \<open>A connection's requests\<close>

text \<open>The bytes a reader has not turned into lines yet.\<close>

definition pending_bytes :: "RequestLines \<Rightarrow> byte list" where
  "pending_bytes r = rl_buf r @ concat (rl_reader r)"

text \<open>The state between rounds: no newline is buffered, and the line so far is within the cap.\<close>

definition reader_ok :: "RequestLines \<Rightarrow> bool" where
  "reader_ok r \<longleftrightarrow> [] \<notin> set (rl_reader r) \<and> 10 \<notin> set (rl_buf r) \<and> length (rl_buf r) \<le> MAX_REQUEST_LINE"

text \<open>What the next line of a stream is, and what follows it, as a function of the bytes alone.\<close>

definition first_line :: "byte list \<Rightarrow> (line_error, LineRead) result \<times> byte list" where
  "first_line bytes =
     (case position (\<lambda>b. b = 10) bytes of
        Some pos \<Rightarrow>
          if pos > MAX_REQUEST_LINE then (Ok TooLong, [])
          else (line_of (take pos bytes), drop (pos + 1) bytes)
      | None \<Rightarrow>
          if bytes = [] then (Ok Eof, [])
          else if length bytes > MAX_REQUEST_LINE then (Ok TooLong, [])
          else (line_of bytes, []))"

lemma concat_consume: "n \<le> length p \<Longrightarrow> concat (consume n (p # ps)) = drop n p @ concat ps"
  by (simp add: consume_def)

lemma consume_nonempty: "[] \<notin> set ps \<Longrightarrow> [] \<notin> set (consume n ps)"
  by (auto simp: consume_def split: list.splits)

lemma round_spec:
  assumes "reader_ok r" and "next_line_round r = (res, r')"
  shows "reader_ok r' \<and>
    (case res of
       None \<Rightarrow> pending_bytes r' = pending_bytes r
     | Some line \<Rightarrow> rl_buf r' = [] \<and> line = fst (first_line (pending_bytes r)) \<and>
         (line \<noteq> Ok TooLong \<longrightarrow> pending_bytes r' = snd (first_line (pending_bytes r))))"
proof -
  have buf: "position (\<lambda>b. b = 10) (rl_buf r) = None" "length (rl_buf r) \<le> MAX_REQUEST_LINE"
    using assms(1) by (auto simp: reader_ok_def position_None_iff)
  show ?thesis
  proof (cases "rl_reader r")
    case Nil
    then show ?thesis
      using assms buf
      by (auto simp: next_line_round_def take_line_def first_line_def reader_ok_def pending_bytes_def Let_def
          split: if_splits)
  next
    case (Cons p ps)
    with assms(1) have p: "p \<noteq> []" by (auto simp: reader_ok_def)
    note defs = next_line_round_def take_line_def first_line_def reader_ok_def pending_bytes_def Let_def Cons
      concat_consume position_append
    show ?thesis
    proof (cases "position (\<lambda>b. b = 10) p")
      case None
      then have "10 \<notin> set p" by (auto simp: position_None_iff)
      moreover have "length (rl_buf r @ p @ concat ps) > MAX_REQUEST_LINE \<and>
          (\<forall>i. position (\<lambda>b. b = 10) (concat ps) = Some i \<longrightarrow> length (rl_buf r) + (length p + i) > MAX_REQUEST_LINE)"
        if "length (rl_buf r) + length p > MAX_REQUEST_LINE"
        using that by auto
      ultimately show ?thesis
        using assms p None buf consume_nonempty [of "p # ps" "length p"]
        by (auto simp: defs option.map_comp split: if_splits option.splits)
    next
      case (Some pos)
      then have "pos < length p" "\<forall>j < pos. p ! j \<noteq> 10" using position_SomeD by fastforce+
      then have "10 \<notin> set (take pos p)" by (auto simp: in_set_conv_nth)
      with assms p Some buf consume_nonempty [of "p # ps" "Suc pos"] \<open>pos < length p\<close> show ?thesis
        by (auto simp: defs split: if_splits)
    qed
  qed
qed

lemma next_line_spec:
  assumes "reader_ok r" and "next_line r = (line, r')"
  shows "reader_ok r' \<and> rl_buf r' = [] \<and> line = fst (first_line (pending_bytes r)) \<and>
    (line \<noteq> Ok TooLong \<longrightarrow> pending_bytes r' = snd (first_line (pending_bytes r)))"
  using assms
proof (induction r rule: next_line.induct)
  case (1 r)
  obtain res r1 where round: "next_line_round r = (res, r1)" by fastforce
  note spec = round_spec [OF "1.prems"(1) round]
  show ?case
  proof (cases res)
    case None
    with round "1.prems"(2) have "next_line r1 = (line, r')" by (subst (asm) next_line.simps) simp
    with "1.IH" [OF round [symmetric] None] spec None show ?thesis by simp
  next
    case (Some x)
    with round "1.prems"(2) spec show ?thesis by (subst (asm) next_line.simps) simp
  qed
qed

text \<open>
  The connection loop reads line after line; it stops at the end of the stream, at a line it refuses,
  and at an error.
\<close>

lemma first_line_shrinks: "first_line bytes = (Ok line, rest) \<Longrightarrow> \<exists>s. line = Line s \<Longrightarrow> length rest < length bytes"
  by (auto simp: first_line_def dest: position_SomeD split: option.splits if_splits)

text \<open>Each request line takes at least one byte off the stream, so there are at most as many as bytes.\<close>

fun serve_lines :: "nat \<Rightarrow> RequestLines \<Rightarrow> (line_error, LineRead) result list" where
  "serve_lines 0 r = []"
| "serve_lines (Suc n) r =
     (case next_line r of
        (Inr (Line s), r) \<Rightarrow> Ok (Line s) # serve_lines n r
      | (stop, r) \<Rightarrow> [stop])"

function requests_of :: "byte list \<Rightarrow> (line_error, LineRead) result list" where
  "requests_of bytes =
     (case first_line bytes of
        (Inr (Line s), rest) \<Rightarrow> Ok (Line s) # requests_of rest
      | (stop, rest) \<Rightarrow> [stop])"
  by pat_completeness auto
termination
  by (relation "measure length") (auto dest: first_line_shrinks [OF sym])

declare requests_of.simps [simp del]

lemma serve_lines_spec:
  "reader_ok r \<Longrightarrow> length (pending_bytes r) < n \<Longrightarrow> serve_lines n r = requests_of (pending_bytes r)"
proof (induction n arbitrary: r)
  case (Suc n)
  obtain line r' where l: "next_line r = (line, r')" by fastforce
  note spec = next_line_spec [OF Suc.prems(1) l]
  obtain rest where f: "first_line (pending_bytes r) = (line, rest)"
    using spec by (cases "first_line (pending_bytes r)") simp
  show ?case
  proof (cases "\<exists>s. line = Ok (Line s)")
    case True
    then obtain s where s: "line = Ok (Line s)" by blast
    with spec f have "pending_bytes r' = rest" "reader_ok r'" by auto
    moreover have "length rest < length (pending_bytes r)" using f s first_line_shrinks by blast
    ultimately have "serve_lines n r' = requests_of rest" using Suc.IH [of r'] Suc.prems(2) by simp
    with l s f show ?thesis by (subst requests_of.simps) simp
  next
    case False
    with l f show ?thesis
      by (subst requests_of.simps) (auto split: sum.splits LineRead.splits)
  qed
qed simp

text \<open>
  C27: the requests a connection reads depend on the bytes of its stream alone, not on the pieces they
  arrive in: the lines end at newlines, lose one trailing carriage return, and must be UTF-8; a line of
  more than \<open>MAX_REQUEST_LINE\<close> bytes, ended or not, is refused as too long and none shorter is; the last
  line needs no newline. Between two rounds, where a cancelled read leaves the reader, the buffered part
  of a line never exceeds the cap and no byte is lost.
\<close>

theorem request_lines_chunking:
  assumes "[] \<notin> set pieces"
  shows "serve_lines (Suc (length (concat pieces))) (request_lines_new pieces) = requests_of (concat pieces) \<and>
    (\<forall>r r' res. reader_ok r \<and> next_line_round r = (res, r') \<longrightarrow>
       reader_ok r' \<and> length (rl_buf r') \<le> MAX_REQUEST_LINE \<and>
       (res = None \<longrightarrow> pending_bytes r' = pending_bytes r \<and> next_line r' = next_line r))"
proof -
  have "reader_ok (request_lines_new pieces)" "pending_bytes (request_lines_new pieces) = concat pieces"
    using assms by (simp_all add: reader_ok_def request_lines_new_def pending_bytes_def)
  then have "serve_lines (Suc (length (concat pieces))) (request_lines_new pieces) = requests_of (concat pieces)"
    using serve_lines_spec [of "request_lines_new pieces"] by (simp del: serve_lines.simps)
  moreover have "next_line r' = next_line r" if "next_line_round r = (None, r')" for r r'
    using that by (subst (2) next_line.simps) simp
  moreover have "reader_ok r' \<and> length (rl_buf r') \<le> MAX_REQUEST_LINE \<and>
      (res = None \<longrightarrow> pending_bytes r' = pending_bytes r)"
    if "reader_ok r" "next_line_round r = (res, r')" for r r' res
    using round_spec [OF that] by (auto simp: reader_ok_def)
  ultimately show ?thesis by blast
qed

theorem request_lines_chunking_witness:
  "serve_lines 6 (request_lines_new [[97], [13, 10, 98], [99]]) = requests_of [97, 13, 10, 98, 99] \<and>
   requests_of [97, 13, 10, 98, 99] = [Ok (Line ''a''), Ok (Line ''bc''), Ok Eof]"
proof -
  have "requests_of [97, 13, 10, 98, 99] = [Ok (Line ''a''), Ok (Line ''bc''), Ok Eof]"
    by (simp add: requests_of.simps [of "_ # _"] requests_of.simps [of "[]"] first_line_def MAX_REQUEST_LINE_def
        line_of_def strip_cr_def from_utf8_def utf8_one char_of_byte_def) code_simp
  with request_lines_chunking [of "[[97], [13, 10, 98], [99]]"] show ?thesis by (simp add: eval_nat_numeral del: serve_lines.simps)
qed

end
