(* ===== verification/Base64.thy ===== *)
theory Base64
  imports Prelude
begin

text \<open>
  The dependency-free base64 codec of the RPC crate (\<open>rpc/src/lib.rs\<close>), which carries console bytes inside
  JSON strings: the encoder over groups of three bytes, and the decoder that skips ASCII whitespace.
\<close>

section \<open>Encoding and decoding\<close>

definition BASE64_ALPHABET :: string where
  "BASE64_ALPHABET = ''ABCDEFGHIJKLMNOPQRSTUVWXYZabcdefghijklmnopqrstuvwxyz0123456789+/''"

text \<open>The alphabet at a six-bit index.\<close>

definition symbol :: "u32 \<Rightarrow> char" where
  "symbol w = BASE64_ALPHABET ! unat w"

definition encode_group :: "byte list \<Rightarrow> string" where
  "encode_group chunk =
     (let b0 = ucast (chunk ! 0) :: u32;
          b1 = (if 1 < length chunk then ucast (chunk ! 1) else 0) :: u32;
          b2 = (if 2 < length chunk then ucast (chunk ! 2) else 0) :: u32;
          n = push_bit 16 b0 OR push_bit 8 b1 OR b2
      in [symbol (drop_bit 18 n AND 0x3f),
          symbol (drop_bit 12 n AND 0x3f),
          if length chunk > 1 then symbol (drop_bit 6 n AND 0x3f) else CHR ''='',
          if length chunk > 2 then symbol (n AND 0x3f) else CHR ''=''])"

definition base64_encode :: "byte list \<Rightarrow> string" where
  "base64_encode input = concat (map encode_group (chunks 3 input))"

definition val :: "byte \<Rightarrow> u32 option" where
  "val c =
     (if 0x41 \<le> c \<and> c \<le> 0x5A then Some (ucast (c - 0x41))
      else if 0x61 \<le> c \<and> c \<le> 0x7A then Some (ucast (c - 0x61 + 26))
      else if 0x30 \<le> c \<and> c \<le> 0x39 then Some (ucast (c - 0x30 + 52))
      else if c = 0x2B then Some 62
      else if c = 0x2F then Some 63
      else None)"

text \<open>\<open>u8::is_ascii_whitespace\<close>: space, tab, line feed, form feed, carriage return.\<close>

definition is_ascii_whitespace :: "byte \<Rightarrow> bool" where
  "is_ascii_whitespace c \<longleftrightarrow> c = 0x20 \<or> c = 0x09 \<or> c = 0x0A \<or> c = 0x0C \<or> c = 0x0D"

text \<open>The reading loop: the symbols and the padding count, or \<open>None\<close> on a bad character.\<close>

fun read_symbols :: "byte list \<Rightarrow> u32 list \<Rightarrow> nat \<Rightarrow> (u32 list \<times> nat) option" where
  "read_symbols [] symbols pad = Some (symbols, pad)"
| "read_symbols (c # cs) symbols pad =
     (if is_ascii_whitespace c then read_symbols cs symbols pad
      else if c = 0x3D then read_symbols cs symbols (pad + 1)
      else if pad > 0 then None
      else (case val c of None \<Rightarrow> None | Some v \<Rightarrow> read_symbols cs (symbols @ [v]) pad))"

definition decode_group :: "u32 list \<Rightarrow> byte list" where
  "decode_group grp =
     (let n = push_bit ((4 - length grp) * 6) (fold (\<lambda>s acc. push_bit 6 acc OR s) grp 0)
      in [ucast (drop_bit 16 n AND 0xff)]
         @ (if length grp \<ge> 3 then [ucast (drop_bit 8 n AND 0xff)] else [])
         @ (if length grp \<ge> 4 then [ucast (n AND 0xff)] else []))"

definition base64_decode :: "string \<Rightarrow> byte list option" where
  "base64_decode input =
     (case read_symbols (as_bytes input) [] 0 of
        None \<Rightarrow> None
      | Some (symbols, pad) \<Rightarrow>
          if \<not> 4 dvd (length symbols + pad) \<or> pad > 2 then None
          else Some (concat (map decode_group (chunks 4 symbols))))"

section \<open>The alphabet\<close>

lemma alphabet_values: "map (\<lambda>c. val (byte_of_char c)) BASE64_ALPHABET = map (\<lambda>i. Some (word_of_nat i)) [0..<64]"
  by code_simp

lemma alphabet_plain: "list_all (\<lambda>c. \<not> is_ascii_whitespace (byte_of_char c) \<and> byte_of_char c \<noteq> 0x3D) BASE64_ALPHABET"
  by code_simp

lemma length_alphabet: "length BASE64_ALPHABET = 64"
  by (simp add: BASE64_ALPHABET_def)

lemma symbol_props:
  assumes "unat w < 64"
  shows "val (byte_of_char (symbol w)) = Some w" "\<not> is_ascii_whitespace (byte_of_char (symbol w))"
    "byte_of_char (symbol w) \<noteq> 0x3D"
proof -
  have "map (\<lambda>c. val (byte_of_char c)) BASE64_ALPHABET ! unat w = map (\<lambda>i. Some (word_of_nat i)) [0..<64] ! unat w"
    by (simp only: alphabet_values)
  then show "val (byte_of_char (symbol w)) = Some w"
    using assms by (simp add: symbol_def length_alphabet)
  have "symbol w \<in> set BASE64_ALPHABET" using assms by (simp add: symbol_def length_alphabet)
  then show "\<not> is_ascii_whitespace (byte_of_char (symbol w))" "byte_of_char (symbol w) \<noteq> 0x3D"
    using alphabet_plain by (auto simp: list_all_iff)
qed

lemma sextet_bound: "unat (w AND 0x3f :: u32) < 64"
proof -
  have "w AND 0x3f = take_bit 6 w" by (simp add: take_bit_eq_mask mask_eq_exp_minus_1)
  then show ?thesis by (simp add: unsigned_take_bit_eq take_bit_nat_def)
qed

lemmas sextet = symbol_props [OF sextet_bound]

section \<open>Groups\<close>

text \<open>The six-bit symbols of a group, before padding.\<close>

definition group_symbols :: "byte list \<Rightarrow> u32 list" where
  "group_symbols chunk =
     (let b0 = ucast (chunk ! 0) :: u32;
          b1 = (if 1 < length chunk then ucast (chunk ! 1) else 0) :: u32;
          b2 = (if 2 < length chunk then ucast (chunk ! 2) else 0) :: u32;
          n = push_bit 16 b0 OR push_bit 8 b1 OR b2
      in take (Suc (length chunk)) [drop_bit 18 n AND 0x3f, drop_bit 12 n AND 0x3f, drop_bit 6 n AND 0x3f, n AND 0x3f])"

lemma byte_eqI:
  fixes a b :: byte
  assumes "bit a 0 = bit b 0" "bit a 1 = bit b 1" "bit a 2 = bit b 2" "bit a 3 = bit b 3"
    "bit a 4 = bit b 4" "bit a 5 = bit b 5" "bit a 6 = bit b 6" "bit a 7 = bit b 7"
  shows "a = b"
proof (rule bit_word_eqI)
  fix n assume "n < LENGTH(8)"
  then have "n = 0 \<or> n = 1 \<or> n = 2 \<or> n = 3 \<or> n = 4 \<or> n = 5 \<or> n = 6 \<or> n = 7" by auto
  with assms show "bit a n = bit b n" by auto
qed

lemma decode_group_symbols:
  assumes "chunk \<noteq> []" and "length chunk \<le> 3"
  shows "decode_group (group_symbols chunk) = chunk"
proof -
  from assms consider a where "chunk = [a]" | a b where "chunk = [a, b]" | a b c where "chunk = [a, b, c]"
    by (cases chunk; cases "tl chunk"; cases "tl (tl chunk)") auto
  then show ?thesis
  proof cases
    case 1
    then show ?thesis
      by (auto simp: decode_group_def group_symbols_def Let_def bit_simps bit_byte_beyond intro!: byte_eqI)
  next
    case 2
    then show ?thesis
      by (auto simp: decode_group_def group_symbols_def Let_def bit_simps bit_byte_beyond intro!: byte_eqI)
  next
    case 3
    then show ?thesis
      by (auto simp: decode_group_def group_symbols_def Let_def bit_simps bit_byte_beyond intro!: byte_eqI)
  qed
qed

section \<open>Reading symbols\<close>

abbreviation plain :: "byte list \<Rightarrow> byte list" where
  "plain cs \<equiv> filter (\<lambda>c. \<not> is_ascii_whitespace c) cs"

lemma read_symbols_plain: "read_symbols (plain cs) symbols pad = read_symbols cs symbols pad"
  by (induction cs symbols pad rule: read_symbols.induct) (auto split: option.splits)

lemma pad_char: "byte_of_char CHR ''='' = 0x3D" "\<not> is_ascii_whitespace 0x3D"
  by code_simp+

lemma read_symbols_data:
  "list_all2 (\<lambda>c v. val c = Some v \<and> \<not> is_ascii_whitespace c \<and> c \<noteq> 0x3D) cs vs \<Longrightarrow>
     read_symbols (cs @ rest) symbols 0 = read_symbols rest (symbols @ vs) 0"
  by (induction cs vs arbitrary: symbols rule: list_all2_induct) auto

lemma triple_induct [case_names Nil One Two More]:
  assumes "P []" "\<And>a. P [a]" "\<And>a b. P [a, b]" "\<And>a b c xs. P xs \<Longrightarrow> P (a # b # c # xs)"
  shows "P xs"
proof (induction "length xs" arbitrary: xs rule: less_induct)
  case less
  consider "xs = []" | a where "xs = [a]" | a b where "xs = [a, b]" | a b c ys where "xs = a # b # c # ys"
    by (metis list.exhaust)
  then show ?case
  proof cases
    case 4
    then show ?thesis using less [of ys] assms(4) by simp
  qed (use assms in auto)
qed

definition pad_of :: "nat \<Rightarrow> nat" where
  "pad_of n = (3 - n mod 3) mod 3"

definition symbols_of :: "byte list \<Rightarrow> u32 list" where
  "symbols_of bytes = concat (map group_symbols (chunks 3 bytes))"

lemma chunks_append: "length xs = n \<Longrightarrow> 0 < n \<Longrightarrow> chunks n (xs @ ys) = xs # chunks n ys"
  by (subst chunks.simps) auto

lemma chunks_short: "xs \<noteq> [] \<Longrightarrow> length xs \<le> n \<Longrightarrow> chunks n xs = [xs]"
  by (cases xs; subst chunks.simps) auto

lemma chunks_three: "chunks 3 (a # b # c # xs) = [a, b, c] # chunks 3 xs"
  using chunks_append [of "[a, b, c]" 3 xs] by simp

lemma group_symbols_len: "length (group_symbols g) = min (Suc (length g)) 4"
  by (simp add: group_symbols_def Let_def)

lemma symbols_of_more: "symbols_of (a # b # c # xs) = group_symbols [a, b, c] @ symbols_of xs"
  by (simp add: symbols_of_def chunks_three)

lemma encode_group_full:
  "list_all2 (\<lambda>c v. val c = Some v \<and> \<not> is_ascii_whitespace c \<and> c \<noteq> 0x3D)
     (as_bytes (encode_group [a, b, c])) (group_symbols [a, b, c])"
  by (simp add: encode_group_def group_symbols_def as_bytes_def Let_def sextet)

lemma read_encoded:
  "read_symbols (as_bytes (base64_encode bytes)) symbols 0 =
     Some (symbols @ symbols_of bytes, pad_of (length bytes))"
proof (induction bytes arbitrary: symbols rule: triple_induct)
  case (One a)
  show ?case
    by (simp add: base64_encode_def symbols_of_def chunks_short encode_group_def group_symbols_def as_bytes_def
        Let_def sextet pad_of_def pad_char)
next
  case (Two a b)
  show ?case
    by (simp add: base64_encode_def symbols_of_def chunks_short encode_group_def group_symbols_def as_bytes_def
        Let_def sextet pad_of_def pad_char)
next
  case (More a b c xs)
  have "as_bytes (base64_encode (a # b # c # xs)) = as_bytes (encode_group [a, b, c]) @ as_bytes (base64_encode xs)"
    by (simp add: base64_encode_def chunks_three as_bytes_def)
  then show ?case
    using More read_symbols_data [OF encode_group_full, of a b c "as_bytes (base64_encode xs)"]
    by (simp add: symbols_of_more pad_of_def)
qed (simp add: base64_encode_def symbols_of_def as_bytes_def pad_of_def)

lemma chunks_symbols: "chunks 4 (symbols_of bytes) = map group_symbols (chunks 3 bytes)"
proof (induction bytes rule: triple_induct)
  case (More a b c xs)
  then show ?case
    using chunks_append [of "group_symbols [a, b, c]" 4 "symbols_of xs"]
    by (simp add: symbols_of_more chunks_three group_symbols_len)
qed (simp_all add: symbols_of_def chunks_short group_symbols_def Let_def)

lemma symbols_padded: "4 dvd length (symbols_of bytes) + pad_of (length bytes)" "pad_of (length bytes) \<le> 2"
proof -
  have four: "4 dvd Suc (Suc (Suc (Suc 0)))" by presburger
  show "4 dvd length (symbols_of bytes) + pad_of (length bytes)"
  proof (induction bytes rule: triple_induct)
    case (More a b c xs)
    have "length (symbols_of (a # b # c # xs)) + pad_of (length (a # b # c # xs)) =
        4 + (length (symbols_of xs) + pad_of (length xs))"
      by (simp add: symbols_of_more group_symbols_len pad_of_def)
    with More show ?case by (metis dvd_add_triv_left_iff)
  qed (simp_all add: symbols_of_def chunks_short group_symbols_def Let_def pad_of_def four)
  show "pad_of (length bytes) \<le> 2" by (auto simp: pad_of_def)
qed

text \<open>
  Base64 is lossless whatever whitespace a transport inserts: every string whose non-whitespace
  characters are the encoding of some bytes decodes to exactly those bytes, and the encoding has four
  characters for every three bytes begun.
\<close>

theorem base64_round_trip:
  assumes "plain (as_bytes s) = as_bytes (base64_encode bytes)"
  shows "base64_decode s = Some bytes \<and> length (base64_encode bytes) = 4 * ((length bytes + 2) div 3)"
proof
  have "map (decode_group \<circ> group_symbols) (chunks 3 bytes) = chunks 3 bytes"
    by (rule map_idI) (simp add: decode_group_symbols chunks_bounds)
  then have "concat (map decode_group (chunks 4 (symbols_of bytes))) = bytes"
    by (simp add: chunks_symbols concat_chunks)
  moreover have "read_symbols (as_bytes s) [] 0 = Some (symbols_of bytes, pad_of (length bytes))"
    using read_encoded [of bytes "[]"] read_symbols_plain [of "as_bytes s"] assms by simp
  ultimately show "base64_decode s = Some bytes"
    using symbols_padded [of bytes] by (simp add: base64_decode_def)
  show "length (base64_encode bytes) = 4 * ((length bytes + 2) div 3)"
  proof (induction bytes rule: triple_induct)
    case (More a b c xs)
    have "length (base64_encode (a # b # c # xs)) = 4 + length (base64_encode xs)"
      by (simp add: base64_encode_def chunks_three encode_group_def Let_def)
    moreover have "(length (a # b # c # xs) + 2) div 3 = 1 + (length xs + 2) div 3"
      by simp
    ultimately show ?case using More by simp
  qed (simp_all add: base64_encode_def chunks_short encode_group_def Let_def)
qed

theorem base64_round_trip_witness:
  "base64_decode ''aGV sbG8='' = Some (as_bytes ''hello'')"
proof -
  have "plain (as_bytes ''aGV sbG8='') = as_bytes (base64_encode (as_bytes ''hello''))" by code_simp
  from base64_round_trip [OF this] show ?thesis by simp
qed

section \<open>What the decoder accepts\<close>

lemma alphabet_codes: "of_char ` set BASE64_ALPHABET = {65..<91} \<union> {97..<123} \<union> {48..<58} \<union> {43, 47 :: nat}"
proof -
  have "set (map of_char BASE64_ALPHABET) = set ([65..<91] @ [97..<123] @ [48..<58] @ [43, 47 :: nat])" by code_simp
  then show ?thesis by (simp only: set_map set_append set_upt Un_assoc list.set)
qed

lemma val_None_iff: "val c = None \<longleftrightarrow> char_of_byte c \<notin> set BASE64_ALPHABET"
proof -
  have "char_of_byte c \<in> set BASE64_ALPHABET \<longleftrightarrow> unat c \<in> of_char ` set BASE64_ALPHABET"
  proof
    assume "char_of_byte c \<in> set BASE64_ALPHABET"
    then have "of_char (char_of_byte c) \<in> (of_char ` set BASE64_ALPHABET :: nat set)" by (rule imageI)
    then show "unat c \<in> of_char ` set BASE64_ALPHABET" by (simp flip: unat_byte_of_char)
  next
    assume "unat c \<in> of_char ` set BASE64_ALPHABET"
    then obtain d where d: "d \<in> set BASE64_ALPHABET" "unat c = of_char d" by blast
    then have "unat c = unat (byte_of_char d)" by (simp add: unat_byte_of_char)
    then have "c = byte_of_char d" by (rule unsigned_word_eqI)
    with d(1) show "char_of_byte c \<in> set BASE64_ALPHABET" by simp
  qed
  also have "\<dots> \<longleftrightarrow> val c \<noteq> None"
    unfolding alphabet_codes by (auto simp: val_def word_le_nat_alt word_unat_eq_iff simp del: not_None_eq)
  finally show ?thesis by blast
qed

lemma read_symbols_padding:
  "0 < pad \<Longrightarrow> read_symbols cs symbols pad =
     (if list_all (\<lambda>a. a = 0x3D) (plain cs) then Some (symbols, pad + length (plain cs)) else None)"
  by (induction cs arbitrary: pad) (auto simp: pad_char)

lemma read_symbols_eq:
  "read_symbols cs symbols 0 =
     (let data = takeWhile (\<lambda>c. c \<noteq> 0x3D) (plain cs); rest = dropWhile (\<lambda>c. c \<noteq> 0x3D) (plain cs)
      in if (\<forall>c \<in> set data. val c \<noteq> None) \<and> list_all (\<lambda>a. a = 0x3D) rest
         then Some (symbols @ map (the \<circ> val) data, length rest) else None)"
proof (induction cs arbitrary: symbols)
  case (Cons c cs)
  show ?case
  proof (cases "is_ascii_whitespace c")
    case False
    then show ?thesis
      by (cases "c = 0x3D"; cases "val c") (simp_all add: Cons Let_def pad_char read_symbols_padding)
  qed (simp add: Cons)
qed simp

lemma takeWhile_pads:
  assumes "\<forall>c \<in> set data. c \<noteq> 0x3D"
  shows "takeWhile (\<lambda>c. c \<noteq> 0x3D) (data @ replicate n 0x3D) = data"
    "dropWhile (\<lambda>c. c \<noteq> 0x3D) (data @ replicate n 0x3D) = replicate n 0x3D"
  using assms by (cases n; auto simp: takeWhile_append dropWhile_append)+

lemma read_symbols_split:
  "(\<exists>symbols. read_symbols cs [] 0 = Some (symbols, pad) \<and> length symbols = k) \<longleftrightarrow>
     (\<exists>data. plain cs = data @ replicate pad 0x3D \<and> length data = k \<and> (\<forall>c \<in> set data. val c \<noteq> None))"
  (is "?l \<longleftrightarrow> ?r")
proof
  let ?d = "takeWhile (\<lambda>c. c \<noteq> 0x3D) (plain cs)" and ?e = "dropWhile (\<lambda>c. c \<noteq> 0x3D) (plain cs)"
  assume ?l
  then have "length ?d = k" "\<forall>c \<in> set ?d. val c \<noteq> None" "list_all (\<lambda>a. a = 0x3D) ?e" "length ?e = pad"
    by (auto simp: read_symbols_eq Let_def split: if_splits)
  moreover from this have "?e = replicate pad 0x3D"
    unfolding list_all_iff by (intro replicate_eqI) blast+
  moreover have "plain cs = ?d @ ?e" by simp
  ultimately show ?r by (intro exI [of _ ?d]) simp
next
  assume ?r
  then obtain data where d: "plain cs = data @ replicate pad 0x3D" "length data = k" "\<forall>c \<in> set data. val c \<noteq> None"
    by blast
  have "val 0x3D = None" by code_simp
  with d(3) have "\<forall>c \<in> set data. c \<noteq> 0x3D" by auto
  from takeWhile_pads [OF this] d show ?l by (simp add: read_symbols_eq Let_def list_all_iff)
qed

text \<open>
  The decoder accepts exactly base64: a string decodes if and only if its non-whitespace characters
  are symbols of the alphabet followed by at most two padding characters, a multiple of four in all.
\<close>

theorem base64_decode_accepts:
  "base64_decode s \<noteq> None \<longleftrightarrow>
     (\<exists>data n. plain (as_bytes s) = as_bytes data @ replicate n (byte_of_char CHR ''='') \<and>
        set data \<subseteq> set BASE64_ALPHABET \<and> n \<le> 2 \<and> 4 dvd length data + n)"
proof -
  have "base64_decode s \<noteq> None \<longleftrightarrow>
      (\<exists>n k. (\<exists>symbols. read_symbols (as_bytes s) [] 0 = Some (symbols, n) \<and> length symbols = k) \<and>
         n \<le> 2 \<and> 4 dvd k + n)"
    by (auto simp: base64_decode_def not_le split: option.splits if_splits)
  also have "\<dots> \<longleftrightarrow> (\<exists>n data. plain (as_bytes s) = data @ replicate n 0x3D \<and>
      (\<forall>c \<in> set data. val c \<noteq> None) \<and> n \<le> 2 \<and> 4 dvd length data + n)"
    unfolding read_symbols_split by blast
  also have "\<dots> \<longleftrightarrow> (\<exists>n data. plain (as_bytes s) = as_bytes data @ replicate n 0x3D \<and>
      set data \<subseteq> set BASE64_ALPHABET \<and> n \<le> 2 \<and> 4 dvd length data + n)"
  proof (intro iff_exI iffI)
    fix n
    assume "\<exists>data. plain (as_bytes s) = data @ replicate n 0x3D \<and>
      (\<forall>c \<in> set data. val c \<noteq> None) \<and> n \<le> 2 \<and> 4 dvd length data + n"
    then obtain data where "plain (as_bytes s) = data @ replicate n 0x3D"
      "\<forall>c \<in> set data. val c \<noteq> None" "n \<le> 2" "4 dvd length data + n" by blast
    then show "\<exists>data. plain (as_bytes s) = as_bytes data @ replicate n 0x3D \<and>
      set data \<subseteq> set BASE64_ALPHABET \<and> n \<le> 2 \<and> 4 dvd length data + n"
      by (intro exI [of _ "map char_of_byte data"]) (auto simp: val_None_iff)
  next
    fix n
    assume "\<exists>data. plain (as_bytes s) = as_bytes data @ replicate n 0x3D \<and>
      set data \<subseteq> set BASE64_ALPHABET \<and> n \<le> 2 \<and> 4 dvd length data + n"
    then obtain data where d: "plain (as_bytes s) = as_bytes data @ replicate n 0x3D"
      "set data \<subseteq> set BASE64_ALPHABET" "n \<le> 2" "4 dvd length data + n" by blast
    moreover have "val c \<noteq> None" if "c \<in> set (as_bytes data)" for c
    proof -
      from that d(2) have "char_of_byte c \<in> set BASE64_ALPHABET" by (auto simp: as_bytes_def)
      then show ?thesis by (simp add: val_None_iff)
    qed
    ultimately show "\<exists>data. plain (as_bytes s) = data @ replicate n 0x3D \<and>
      (\<forall>c \<in> set data. val c \<noteq> None) \<and> n \<le> 2 \<and> 4 dvd length data + n"
      by (intro exI [of _ "as_bytes data"]) auto
  qed
  finally show ?thesis by (auto simp: pad_char)
qed

end
