(* ===== verification/Replay_Ring.thy ===== *)
theory Replay_Ring
  imports Prelude
begin

text \<open>
  The replay ring of a host-facing endpoint (\<open>ReplayRing\<close> in \<open>daemon/src/tap.rs\<close>): circular storage of the
  most recent hostward bytes, allocated on the first push and written by at most two slice copies.

  A slice that is out of range is a panic, \<open>None\<close>; the ring never has one.
\<close>

section \<open>The ring\<close>

record ReplayRing =
  ring_cap :: nat
  ring_buf :: "byte list"
  ring_pos :: nat
  ring_len :: nat

definition ring_new :: "nat \<Rightarrow> ReplayRing" where
  "ring_new cap = \<lparr>ring_cap = cap, ring_buf = [], ring_pos = 0, ring_len = 0\<rparr>"

text \<open>\<open>buf[at..at + bytes.len()].copy_from_slice(bytes)\<close> and \<open>&buf[at..at + n]\<close>.\<close>

definition copy_into :: "nat \<Rightarrow> byte list \<Rightarrow> byte list \<Rightarrow> byte list option" where
  "copy_into at bytes buf =
     (if at + length bytes \<le> length buf then Some (take at buf @ bytes @ drop (at + length bytes) buf) else None)"

definition slice_of :: "nat \<Rightarrow> nat \<Rightarrow> byte list \<Rightarrow> byte list option" where
  "slice_of at n buf = (if at + n \<le> length buf then Some (take n (drop at buf)) else None)"

definition ring_push :: "ReplayRing \<Rightarrow> byte list \<Rightarrow> ReplayRing option" where
  "ring_push r bytes =
     (if ring_cap r = 0 then Some r
      else
        (let bytes = (if length bytes > ring_cap r then drop (length bytes - ring_cap r) bytes else bytes)
         in if bytes = [] then Some r
            else
              (let buf = (if ring_buf r = [] then replicate (ring_cap r) 0 else ring_buf r);
                   n = length bytes;
                   first = min (ring_cap r - ring_pos r) n
               in case copy_into (ring_pos r) (take first bytes) buf of
                    None \<Rightarrow> None
                  | Some buf \<Rightarrow>
                      (case (if n > first then copy_into 0 (drop first bytes) buf else Some buf) of
                         None \<Rightarrow> None
                       | Some buf \<Rightarrow>
                           Some (r\<lparr>ring_buf := buf, ring_pos := (ring_pos r + n) mod ring_cap r,
                                   ring_len := min (ring_len r + n) (ring_cap r)\<rparr>)))))"

definition ring_snapshot :: "ReplayRing \<Rightarrow> byte list option" where
  "ring_snapshot r =
     (if ring_len r = 0 then Some []
      else
        (let start = (ring_pos r + ring_cap r - ring_len r) mod ring_cap r;
             first = min (ring_cap r - start) (ring_len r)
         in case slice_of start first (ring_buf r) of
              None \<Rightarrow> None
            | Some out \<Rightarrow>
                if ring_len r > first
                then (case slice_of 0 (ring_len r - first) (ring_buf r) of
                        None \<Rightarrow> None | Some rest \<Rightarrow> Some (out @ rest))
                else Some out))"

section \<open>What the ring holds\<close>

text \<open>
  The abstraction: read from the write position round the circle, the last \<open>len\<close> bytes of the storage
  are the retained ones.
\<close>

definition unrolled :: "ReplayRing \<Rightarrow> byte list" where
  "unrolled r = drop (ring_pos r) (ring_buf r) @ take (ring_pos r) (ring_buf r)"

definition retained :: "ReplayRing \<Rightarrow> byte list" where
  "retained r = last_n (ring_len r) (unrolled r)"

definition ring_inv :: "ReplayRing \<Rightarrow> bool" where
  "ring_inv r \<longleftrightarrow>
     (if ring_cap r = 0 then ring_len r = 0
      else ring_pos r < ring_cap r \<and> ring_len r \<le> ring_cap r \<and>
        (length (ring_buf r) = ring_cap r \<or> ring_buf r = [] \<and> ring_len r = 0 \<and> ring_pos r = 0))"

lemma ring_new_inv: "ring_inv (ring_new cap)" "retained (ring_new cap) = []"
  by (simp_all add: ring_inv_def ring_new_def retained_def unrolled_def last_n_def)

lemma snapshot_retained:
  assumes "ring_inv r"
  shows "ring_snapshot r = Some (retained r)"
proof (cases "ring_len r = 0")
  case True
  then show ?thesis by (simp add: ring_snapshot_def retained_def last_n_def)
next
  case False
  let ?p = "ring_pos r" and ?c = "ring_cap r" and ?l = "ring_len r" and ?b = "ring_buf r"
  from False assms have inv: "?p < ?c" "?l \<le> ?c" "length ?b = ?c"
    by (auto simp: ring_inv_def split: if_splits)
  have len: "length (unrolled r) = ?c" using inv by (simp add: unrolled_def)
  show ?thesis
  proof (cases "?l \<le> ?p")
    case True
    then have "(?p + ?c - ?l) mod ?c = ?p - ?l"
      using inv by (metis Nat.add_diff_assoc2 add.commute less_imp_diff_less mod_add_self1 mod_less)
    moreover have "min (?c - (?p - ?l)) ?l = ?l" using True inv by simp
    moreover have "retained r = take ?l (drop (?p - ?l) ?b)"
      using True inv by (simp add: retained_def unrolled_def last_n_def take_drop)
    ultimately show ?thesis using False inv True by (simp add: ring_snapshot_def slice_of_def Let_def)
  next
    case out: False
    then have start: "(?p + ?c - ?l) mod ?c = ?p + ?c - ?l" using inv by simp
    have first: "min (?c - (?p + ?c - ?l)) ?l = ?l - ?p" using out inv by simp
    have ret: "retained r = drop (?p + ?c - ?l) ?b @ take ?p ?b"
      using out inv by (simp add: retained_def unrolled_def last_n_def add.commute)
    have "take (?l - ?p) (drop (?p + ?c - ?l) ?b) = drop (?p + ?c - ?l) ?b" using out inv by simp
    then show ?thesis
      using False out inv start first ret by (auto simp: ring_snapshot_def slice_of_def Let_def)
  qed
qed

lemma push_retained:
  assumes "ring_inv r"
  shows "\<exists>r'. ring_push r bytes = Some r' \<and> ring_inv r' \<and> ring_cap r' = ring_cap r \<and>
     retained r' = last_n (ring_cap r) (retained r @ bytes)"
proof (cases "ring_cap r = 0 \<or> bytes = []")
  case True
  then show ?thesis
    using assms by (auto simp: ring_push_def ring_inv_def retained_def last_n_def Let_def)
next
  case False
  let ?p = "ring_pos r" and ?c = "ring_cap r" and ?l = "ring_len r"
  define bs where "bs = last_n ?c bytes"
  define b where "b = (if ring_buf r = [] then replicate ?c 0 else ring_buf r)"
  from False assms have inv: "0 < ?c" "?p < ?c" "?l \<le> ?c" "length b = ?c"
    by (auto simp: ring_inv_def b_def)
  have bs: "(if length bytes > ?c then drop (length bytes - ?c) bytes else bytes) = bs" "bs \<noteq> []" "length bs \<le> ?c"
    using False by (cases bytes; auto simp: bs_def last_n_def)+
  have old: "retained r = last_n ?l (drop ?p b @ take ?p b)"
    using assms inv by (auto simp: retained_def unrolled_def b_def ring_inv_def last_n_def)
  let ?U = "drop ?p b @ take ?p b"
  have goal: "retained r' = last_n ?c (retained r @ bytes)"
    if "ring_len r' = min (?l + length bs) ?c" "unrolled r' = drop (length bs) ?U @ bs" for r'
  proof -
    have "retained r' = last_n (min (?l + length bs) ?c) (drop (length bs) ?U @ bs)"
      using that by (simp only: retained_def)
    also have "\<dots> = last_n (?c - length bs) (retained r) @ bs"
      unfolding old by (rule last_n_shift) (use inv bs(3) in simp_all)
    finally have "retained r' = last_n (?c - length bs) (retained r) @ bs" .
    moreover have "last_n ?c (retained r @ bytes) = last_n (?c - length bytes) (retained r) @ bs"
      by (simp add: last_n_append bs_def)
    moreover have "?c - length bytes = ?c - length bs" by (simp add: bs_def)
    ultimately show ?thesis by simp
  qed
  show ?thesis
  proof (cases "length bs \<le> ?c - ?p")
    case True
    let ?b = "take ?p b @ bs @ drop (?p + length bs) b"
    let ?r = "r\<lparr>ring_buf := ?b, ring_pos := (?p + length bs) mod ?c, ring_len := min (?l + length bs) ?c\<rparr>"
    have "ring_push r bytes = Some ?r"
      using False bs True inv by (simp add: ring_push_def Let_def b_def [symmetric] copy_into_def)
    moreover have "ring_inv ?r" using inv True by (auto simp: ring_inv_def)
    moreover have "unrolled ?r = drop (length bs) ?U @ bs"
      using True inv by (cases "?p + length bs = ?c") (auto simp: unrolled_def add.commute)
    ultimately show ?thesis using goal by auto
  next
    case wrap: False
    let ?k = "?c - ?p"
    let ?b = "drop ?k bs @ take (?c - length bs) (drop (length bs - ?k) b) @ take ?k bs"
    let ?r = "r\<lparr>ring_buf := ?b, ring_pos := length bs - ?k, ring_len := min (?l + length bs) ?c\<rparr>"
    have "(?p + length bs) mod ?c = length bs - ?k"
      using wrap inv bs(3) by (simp add: mod_if) linarith
    moreover have "drop (length bs - ?k) (take ?p b) = take (?c - length bs) (drop (length bs - ?k) b)"
      using wrap inv bs(3) by (simp add: drop_take)
    ultimately have "ring_push r bytes = Some ?r"
      using False bs wrap inv by (simp add: ring_push_def Let_def b_def [symmetric] copy_into_def)
    moreover have "ring_inv ?r" using inv wrap bs(3) by (auto simp: ring_inv_def)
    moreover have "unrolled ?r = drop (length bs) ?U @ bs"
      using wrap inv bs(3) by (simp add: unrolled_def drop_take)
    ultimately show ?thesis using goal by auto
  qed
qed

text \<open>All the pushes of a stream.\<close>

fun push_all :: "byte list list \<Rightarrow> ReplayRing \<Rightarrow> ReplayRing option" where
  "push_all [] r = Some r"
| "push_all (c # cs) r = (case ring_push r c of None \<Rightarrow> None | Some r \<Rightarrow> push_all cs r)"

lemma push_all_retained:
  "ring_inv r \<Longrightarrow> \<exists>r'. push_all cs r = Some r' \<and> ring_inv r' \<and> ring_cap r' = ring_cap r \<and>
     last_n (ring_cap r) (retained r') = last_n (ring_cap r) (retained r @ concat cs)"
proof (induction cs arbitrary: r)
  case (Cons c cs)
  from push_retained [OF Cons.prems] obtain r1 where r1: "ring_push r c = Some r1" "ring_inv r1"
    "ring_cap r1 = ring_cap r" "retained r1 = last_n (ring_cap r) (retained r @ c)" by blast
  with Cons.IH [OF r1(2)] show ?case by (auto simp: last_n_last_n_append)
qed simp

lemma retained_le: "ring_inv r \<Longrightarrow> length (retained r) \<le> ring_cap r"
  by (auto simp: ring_inv_def retained_def unrolled_def split: if_splits)

text \<open>
  C26: the replay ring keeps exactly the most recent bytes: whatever chunks are pushed into a ring of
  capacity \<open>cap\<close>, empty, oversized and wrapping ones included, no slice is out of range and the snapshot
  is the last \<open>cap\<close> bytes of the stream in order, all of it while it is shorter.
\<close>

theorem replay_ring_keeps_newest:
  "\<exists>r. push_all cs (ring_new cap) = Some r \<and> ring_snapshot r = Some (last_n cap (concat cs))"
proof -
  from push_all_retained [OF ring_new_inv(1)] obtain r where r: "push_all cs (ring_new cap) = Some r" "ring_inv r"
    "ring_cap r = cap" "last_n cap (retained r) = last_n cap (concat cs)"
    by (auto simp: ring_new_inv) (auto simp: ring_new_def)
  then show ?thesis using snapshot_retained [OF r(2)] retained_le [OF r(2)] by (simp add: last_n_all)
qed

end
