(* ===== verification/Pattern.thy ===== *)
theory Pattern
  imports Graph_Types
begin

text \<open>
  The pattern wait's matcher (\<open>daemon/src/pattern.rs\<close>): the checks that admit a pattern set, and the bounded
  lookback window in which the patterns are matched against an endpoint's stream.

  The regular-expression engine is third-party code, the parameter \<open>eng\<close>: what \<open>build_many\<close> answers for a
  list of sources, and what \<open>find\<close> answers for a haystack (pattern index, start and end). An index or a
  slice that is out of range is a panic, an outer \<open>None\<close>.
\<close>

section \<open>Patterns and their compilation\<close>

definition MAX_PATTERNS :: nat where
  "MAX_PATTERNS = 8"

definition MAX_PATTERN_BYTES :: nat where
  "MAX_PATTERN_BYTES = 1024"

definition MAX_LOOKBACK :: nat where
  "MAX_LOOKBACK = 65536"

definition MAX_CONTEXT :: nat where
  "MAX_CONTEXT = 4096"

datatype PatternKind = Literal | Regex

record PatternSpec =
  ps_name :: string
  ps_kind :: PatternKind
  ps_bytes :: "byte list"

datatype PatternError =
    PatternCount nat
  | PatternNameLen nat
  | PatternDuplicateName string
  | PatternLen string nat
  | PatternEmpty string
  | RegexNotUtf8 string
  | PatternCompile "string option" string
  | PatternRange string u64 u64
  | LookbackTooSmall nat nat

record 're engine =
  build_many :: "string list \<Rightarrow> (nat option \<times> string, 're) result"
  re_find :: "'re \<Rightarrow> byte list \<Rightarrow> (nat \<times> nat \<times> nat) option"

record 're Matcher =
  m_re :: 're
  m_names :: "string list"

record Hit =
  hit_index :: nat
  hit_start :: nat
  hit_end :: nat

definition min_lookback :: "PatternSpec list \<Rightarrow> nat" where
  "min_lookback specs =
     (let lens = map (length \<circ> ps_bytes) (filter (\<lambda>s. ps_kind s = Literal) specs)
      in max (case lens of [] \<Rightarrow> 1 | l # ls \<Rightarrow> fold max ls l) 1)"

definition hex_digit :: "nat \<Rightarrow> char" where
  "hex_digit n = ''0123456789abcdef'' ! n"

text \<open>One byte as \<open>\xNN\<close>.\<close>

definition escape_byte :: "byte \<Rightarrow> string" where
  "escape_byte b = [CHR 0x5C, CHR ''x'', hex_digit (unat b div 16), hex_digit (unat b mod 16)]"

definition escape_bytes :: "byte list \<Rightarrow> string" where
  "escape_bytes bytes = concat (map escape_byte bytes)"

fun compile_specs :: "PatternSpec list \<Rightarrow> string list \<Rightarrow> string list \<Rightarrow>
    (PatternError, string list \<times> string list) result" where
  "compile_specs [] names sources = Ok (names, sources)"
| "compile_specs (spec # specs) names sources =
     (if ps_name spec = [] \<or> length (ps_name spec) > MAX_NAME_LEN
      then Err (PatternNameLen (length (ps_name spec)))
      else if ps_name spec \<in> set names then Err (PatternDuplicateName (ps_name spec))
      else if ps_bytes spec = [] then Err (PatternEmpty (ps_name spec))
      else if length (ps_bytes spec) > MAX_PATTERN_BYTES
      then Err (PatternLen (ps_name spec) (length (ps_bytes spec)))
      else
        (case ps_kind spec of
           Literal \<Rightarrow>
             compile_specs specs (names @ [ps_name spec]) (sources @ [escape_bytes (ps_bytes spec)])
         | Regex \<Rightarrow>
             (case from_utf8 (ps_bytes spec) of
                None \<Rightarrow> Err (RegexNotUtf8 (ps_name spec))
              | Some source \<Rightarrow> compile_specs specs (names @ [ps_name spec]) (sources @ [source]))))"

definition matcher_compile :: "'re engine \<Rightarrow> PatternSpec list \<Rightarrow> (PatternError, 're Matcher) result" where
  "matcher_compile eng specs =
     (if specs = [] \<or> length specs > MAX_PATTERNS then Err (PatternCount (length specs))
      else
        (case compile_specs specs [] [] of
           Inl e \<Rightarrow> Err e
         | Inr (names, sources) \<Rightarrow>
             (case build_many eng sources of
                Inl (pat, why) \<Rightarrow>
                  Err (PatternCompile
                    (case pat of None \<Rightarrow> None | Some p \<Rightarrow> if p < length names then Some (names ! p) else None) why)
              | Inr re \<Rightarrow> Ok \<lparr>m_re = re, m_names = names\<rparr>)))"

definition earliest :: "'re engine \<Rightarrow> 're Matcher \<Rightarrow> byte list \<Rightarrow> Hit option" where
  "earliest eng m hay =
     map_option (\<lambda>(i, s, e). \<lparr>hit_index = i, hit_start = s, hit_end = e\<rparr>) (re_find eng (m_re m) hay)"

definition matcher_name :: "'re Matcher \<Rightarrow> nat \<Rightarrow> string option" where
  "matcher_name m i = (if i < length (m_names m) then Some (m_names m ! i) else None)"

definition checked :: "string \<Rightarrow> u64 \<Rightarrow> u64 \<Rightarrow> (PatternError, u64) result" where
  "checked field value maximum = (if value > maximum then Err (PatternRange field value maximum) else Ok value)"

section \<open>The window\<close>

record PatternMatch =
  pm_pattern :: string
  pm_offset :: u64
  pm_end_offset :: u64
  pm_context :: "byte list"
  pm_context_offset :: u64

record 're ScanWindow =
  sw_matcher :: "'re Matcher"
  sw_buf :: "byte list"
  sw_lookback :: nat
  sw_context :: nat
  sw_base :: u64
  sw_scanned :: u64
  sw_gaps :: u64
  sw_gap_bytes :: u64

definition scan_window_new :: "'re Matcher \<Rightarrow> nat \<Rightarrow> nat \<Rightarrow> u64 \<Rightarrow> 're ScanWindow" where
  "scan_window_new matcher lookback context base =
     \<lparr>sw_matcher = matcher, sw_buf = [], sw_lookback = lookback, sw_context = context, sw_base = base,
      sw_scanned = 0, sw_gaps = 0, sw_gap_bytes = 0\<rparr>"

definition window_scan :: "'re engine \<Rightarrow> 're ScanWindow \<Rightarrow> PatternMatch option option" where
  "window_scan eng w =
     (case earliest eng (sw_matcher w) (sw_buf w) of
        None \<Rightarrow> Some None
      | Some hit \<Rightarrow>
          (let half = sw_context w div 2;
               ctx_start = hit_start hit - half;
               ctx_end = min (hit_end hit + half) (length (sw_buf w))
           in if ctx_start > ctx_end then None
              else
                (let ctx = take (ctx_end - ctx_start) (drop ctx_start (sw_buf w));
                     ctx = take (min (length ctx) (sw_context w)) ctx
                 in case matcher_name (sw_matcher w) (hit_index hit) of
                      None \<Rightarrow> None
                    | Some name \<Rightarrow>
                        Some (Some \<lparr>pm_pattern = name,
                                    pm_offset = sw_base w + word_of_nat (hit_start hit),
                                    pm_end_offset = sw_base w + word_of_nat (hit_end hit),
                                    pm_context = ctx,
                                    pm_context_offset = sw_base w + word_of_nat ctx_start\<rparr>))))"

definition window_trim :: "'re ScanWindow \<Rightarrow> 're ScanWindow" where
  "window_trim w =
     (if length (sw_buf w) > sw_lookback w
      then (let n = length (sw_buf w) - sw_lookback w
            in w\<lparr>sw_buf := drop n (sw_buf w), sw_base := sw_base w + word_of_nat n\<rparr>)
      else w)"

text \<open>The end of \<open>seed\<close> and of \<open>feed\<close>: scan, and trim when there is no hit.\<close>

definition scan_then_trim :: "'re engine \<Rightarrow> 're ScanWindow \<Rightarrow> (PatternMatch option \<times> 're ScanWindow) option" where
  "scan_then_trim eng w =
     (case window_scan eng w of
        None \<Rightarrow> None
      | Some None \<Rightarrow> Some (None, window_trim w)
      | Some (Some m) \<Rightarrow> Some (Some m, w))"

definition window_seed :: "'re engine \<Rightarrow> byte list \<Rightarrow> u64 \<Rightarrow> u64 \<Rightarrow> 're ScanWindow \<Rightarrow>
    (PatternMatch option \<times> 're ScanWindow) option" where
  "window_seed eng ring base excluded_gap w =
     (let w = (if excluded_gap > 0
               then w\<lparr>sw_gaps := sw_gaps w + 1, sw_gap_bytes := saturating_add (sw_gap_bytes w) excluded_gap\<rparr>
               else w)
      in scan_then_trim eng
           (w\<lparr>sw_base := base, sw_buf := ring, sw_scanned := sw_scanned w + word_of_nat (length ring)\<rparr>))"

definition window_feed :: "'re engine \<Rightarrow> byte list \<Rightarrow> u64 \<Rightarrow> 're ScanWindow \<Rightarrow>
    (PatternMatch option \<times> 're ScanWindow) option" where
  "window_feed eng chunk gap_before w =
     (let w = (if gap_before > 0
               then w\<lparr>sw_gaps := sw_gaps w + 1, sw_gap_bytes := saturating_add (sw_gap_bytes w) gap_before,
                      sw_base := sw_base w + word_of_nat (length (sw_buf w)), sw_buf := []\<rparr>
               else w)
      in scan_then_trim eng
           (w\<lparr>sw_buf := sw_buf w @ chunk, sw_scanned := sw_scanned w + word_of_nat (length chunk)\<rparr>))"

section \<open>Segments\<close>

text \<open>
  What the code relies on of the engine: a hit names one of the compiled patterns and a range of the
  haystack.
\<close>

definition engine_sound :: "'re engine \<Rightarrow> 're Matcher \<Rightarrow> bool" where
  "engine_sound eng m \<longleftrightarrow>
     (\<forall>hay i s e. re_find eng (m_re m) hay = Some (i, s, e) \<longrightarrow>
        i < length (m_names m) \<and> s \<le> e \<and> e \<le> length hay)"

text \<open>
  The segment of a stream observed without a hole, and the offset of its first byte: a chunk that comes
  after a gap begins a new one.
\<close>

fun segment :: "(u64 \<times> byte list) list \<Rightarrow> byte list \<Rightarrow> u64 \<Rightarrow> byte list \<times> u64" where
  "segment [] seg sb = (seg, sb)"
| "segment ((gap, chunk) # fs) seg sb =
     (if gap > 0 then segment fs chunk (sb + word_of_nat (length seg)) else segment fs (seg @ chunk) sb)"

text \<open>The chunks a wait sees, up to the one that settles it.\<close>

fun feeds :: "'re engine \<Rightarrow> (u64 \<times> byte list) list \<Rightarrow> 're ScanWindow \<Rightarrow>
    (PatternMatch option \<times> 're ScanWindow) option" where
  "feeds eng [] w = Some (None, w)"
| "feeds eng ((gap, chunk) # fs) w =
     (case window_feed eng chunk gap w of
        None \<Rightarrow> None
      | Some (Some m, w) \<Rightarrow> Some (Some m, w)
      | Some (None, w) \<Rightarrow> feeds eng fs w)"

text \<open>A window that has seen a segment and holds the last bytes of it.\<close>

definition window_at :: "byte list \<Rightarrow> u64 \<Rightarrow> 're ScanWindow \<Rightarrow> bool" where
  "window_at seg sb w \<longleftrightarrow>
     sw_buf w = last_n (sw_lookback w) seg \<and> sw_base w = sb + word_of_nat (length seg - length (sw_buf w))"

text \<open>A match of the engine in the part of a segment from position \<open>d\<close> on, in stream coordinates.\<close>

definition match_in :: "'re engine \<Rightarrow> 're Matcher \<Rightarrow> nat \<Rightarrow> byte list \<Rightarrow> u64 \<Rightarrow> nat \<Rightarrow> PatternMatch \<Rightarrow> bool" where
  "match_in eng m context seg sb d pm \<longleftrightarrow>
     (\<exists>i s e c. re_find eng (m_re m) (drop d seg) = Some (i, s, e) \<and> matcher_name m i = Some (pm_pattern pm) \<and>
        s \<le> e \<and> d + e \<le> length seg \<and>
        pm_offset pm = sb + word_of_nat (d + s) \<and> pm_end_offset pm = sb + word_of_nat (d + e) \<and>
        c \<le> d + s \<and> pm_context_offset pm = sb + word_of_nat c \<and>
        pm_context pm = take (length (pm_context pm)) (drop c seg) \<and> length (pm_context pm) \<le> context)"

lemma take_of_take: "take n (take k ys) = take (length (take n (take k ys))) ys"
  by (simp add: min_def)

lemma window_scan_spec:
  assumes "engine_sound eng (sw_matcher w)" and "sw_buf w = drop d seg" and "d \<le> length seg"
    and "sw_base w = sb + word_of_nat d"
  shows "\<exists>r. window_scan eng w = Some r \<and>
    (case r of
       None \<Rightarrow> re_find eng (m_re (sw_matcher w)) (drop d seg) = None
     | Some pm \<Rightarrow> match_in eng (sw_matcher w) (sw_context w) seg sb d pm)"
proof (cases "re_find eng (m_re (sw_matcher w)) (drop d seg)")
  case None
  then show ?thesis using assms(2) by (simp add: window_scan_def earliest_def)
next
  case (Some hit)
  obtain i s e where hit: "hit = (i, s, e)" by (cases hit)
  with Some assms(1) have "i < length (m_names (sw_matcher w)) \<and> s \<le> e \<and> e \<le> length (drop d seg)"
    unfolding engine_sound_def by blast
  then have b: "i < length (m_names (sw_matcher w))" "s \<le> e" "e \<le> length seg - d" by simp_all
  define half where "half = sw_context w div 2"
  define start where "start = s - half"
  define stop where "stop = min (e + half) (length seg - d)"
  have le: "\<not> stop < start" "start \<le> s" using b by (auto simp: start_def stop_def)
  define ctx where "ctx = take (stop - start) (drop start (drop d seg))"
  define ctx' where "ctx' = take (min (length ctx) (sw_context w)) ctx"
  let ?pm = "\<lparr>pm_pattern = m_names (sw_matcher w) ! i, pm_offset = sw_base w + word_of_nat s,
      pm_end_offset = sw_base w + word_of_nat e, pm_context = ctx',
      pm_context_offset = sw_base w + word_of_nat start\<rparr>"
  have "earliest eng (sw_matcher w) (sw_buf w) = Some \<lparr>hit_index = i, hit_start = s, hit_end = e\<rparr>"
    using Some hit assms(2) by (simp add: earliest_def)
  moreover have "matcher_name (sw_matcher w) i = Some (m_names (sw_matcher w) ! i)"
    using b(1) by (simp add: matcher_name_def)
  ultimately have "window_scan eng w = Some (Some ?pm)"
    using le unfolding window_scan_def assms(2)
    by (simp add: Let_def half_def [symmetric] start_def [symmetric] stop_def [symmetric] ctx_def [symmetric]
        ctx'_def [symmetric] del: drop_drop length_take length_drop) (simp add: stop_def ctx_def ctx'_def)
  moreover have "ctx' = take (length ctx') (drop (d + start) seg)" "length ctx' \<le> sw_context w"
    using take_of_take [of "min (length ctx) (sw_context w)" "stop - start" "drop start (drop d seg)"]
    unfolding ctx'_def ctx_def by (simp_all add: add.commute)
  then have "match_in eng (sw_matcher w) (sw_context w) seg sb d ?pm"
    unfolding match_in_def using Some hit b assms(3,4)
    by (intro exI [of _ i] exI [of _ s] exI [of _ e] exI [of _ "d + start"])
      (simp add: matcher_name_def add.assoc le)
  ultimately show ?thesis by simp
qed

lemma trim_at:
  assumes "sw_buf w = drop d seg" and "d \<le> length seg" and "sw_base w = sb + word_of_nat d"
    and "d = 0 \<or> sw_lookback w \<le> length seg - d"
  shows "window_at seg sb (window_trim w)"
proof (cases "length seg - d > sw_lookback w")
  case True
  then have "d + (length seg - d - sw_lookback w) = length seg - sw_lookback w" using assms(2) by simp
  moreover from this True have "sw_base w + word_of_nat (length seg - d - sw_lookback w) =
      sb + word_of_nat (length seg - sw_lookback w)"
    using assms(3) by (metis add.assoc of_nat_add)
  ultimately show ?thesis
    using True assms(1,2) by (simp add: window_at_def window_trim_def last_n_def Let_def add.commute)
next
  case False
  with assms have "window_trim w = w" "d = length seg - min (sw_lookback w) (length seg)"
    by (auto simp: window_trim_def)
  then show ?thesis using assms by (auto simp: window_at_def last_n_def)
qed

lemma scan_then_trim_spec:
  assumes "engine_sound eng (sw_matcher w)" and "sw_buf w = drop d seg" and "d \<le> length seg"
    and "sw_base w = sb + word_of_nat d" and "d = 0 \<or> sw_lookback w \<le> length seg - d"
  shows "\<exists>r w'. scan_then_trim eng w = Some (r, w') \<and> sw_matcher w' = sw_matcher w \<and>
    sw_lookback w' = sw_lookback w \<and> sw_context w' = sw_context w \<and>
    (case r of
       None \<Rightarrow> window_at seg sb w' \<and> re_find eng (m_re (sw_matcher w)) (drop d seg) = None
     | Some pm \<Rightarrow> match_in eng (sw_matcher w) (sw_context w) seg sb d pm)"
proof -
  from window_scan_spec [OF assms(1-4)] obtain r where r: "window_scan eng w = Some r"
    "case r of None \<Rightarrow> re_find eng (m_re (sw_matcher w)) (drop d seg) = None
     | Some pm \<Rightarrow> match_in eng (sw_matcher w) (sw_context w) seg sb d pm" by blast
  with trim_at [OF assms(2-5)] show ?thesis
    by (cases r) (auto simp: scan_then_trim_def window_trim_def Let_def)
qed

lemma window_feed_spec:
  fixes gap :: u64 and chunk :: "byte list"
  assumes "engine_sound eng (sw_matcher w)" and "window_at seg sb w"
  defines "seg' \<equiv> if gap > 0 then chunk else seg @ chunk"
    and "sb' \<equiv> if gap > 0 then sb + word_of_nat (length seg) else sb"
    and "d \<equiv> if gap > 0 then 0 else length seg - length (sw_buf w)"
  shows "\<exists>r w'. window_feed eng chunk gap w = Some (r, w') \<and> sw_matcher w' = sw_matcher w \<and>
    sw_lookback w' = sw_lookback w \<and> sw_context w' = sw_context w \<and>
    (case r of
       None \<Rightarrow> window_at seg' sb' w' \<and> re_find eng (m_re (sw_matcher w)) (drop d seg') = None
     | Some pm \<Rightarrow> match_in eng (sw_matcher w) (sw_context w) seg' sb' d pm)"
proof -
  let ?w = "if gap > 0
     then w\<lparr>sw_gaps := sw_gaps w + 1, sw_gap_bytes := saturating_add (sw_gap_bytes w) gap,
            sw_base := sw_base w + word_of_nat (length (sw_buf w)), sw_buf := []\<rparr>
     else w"
  let ?w' = "?w\<lparr>sw_buf := sw_buf ?w @ chunk, sw_scanned := sw_scanned ?w + word_of_nat (length chunk)\<rparr>"
  have feed: "window_feed eng chunk gap w = scan_then_trim eng ?w'"
    by (simp add: window_feed_def Let_def)
  have len: "length (sw_buf w) = min (sw_lookback w) (length seg)"
    using assms(2) by (simp add: window_at_def)
  have base: "sw_base w = sb + word_of_nat (length seg - length (sw_buf w))"
    using assms(2) by (simp add: window_at_def)
  have "sw_base w + word_of_nat (length (sw_buf w)) = sb + word_of_nat (length seg)"
    using base len by (metis add.assoc diff_add min.cobounded2 of_nat_add)
  moreover have "sw_buf w @ chunk = drop (length seg - length (sw_buf w)) (seg @ chunk)"
    using assms(2) len by (cases "sw_lookback w \<le> length seg") (simp_all add: window_at_def last_n_def)
  ultimately have "\<exists>r w'. scan_then_trim eng ?w' = Some (r, w') \<and> sw_matcher w' = sw_matcher ?w' \<and>
      sw_lookback w' = sw_lookback ?w' \<and> sw_context w' = sw_context ?w' \<and>
      (case r of
         None \<Rightarrow> window_at seg' sb' w' \<and> re_find eng (m_re (sw_matcher ?w')) (drop d seg') = None
       | Some pm \<Rightarrow> match_in eng (sw_matcher ?w') (sw_context ?w') seg' sb' d pm)"
    using assms(1) len base
    by (intro scan_then_trim_spec) (auto simp: seg'_def sb'_def d_def)
  moreover have "sw_matcher ?w' = sw_matcher w" "sw_lookback ?w' = sw_lookback w" "sw_context ?w' = sw_context w"
    by simp_all
  ultimately show ?thesis unfolding feed by metis
qed

lemma feeds_spec:
  assumes "engine_sound eng (sw_matcher w)" and "window_at seg sb w"
  shows "\<exists>r w'. feeds eng fs w = Some (r, w') \<and>
    (case r of
       None \<Rightarrow> (case segment fs seg sb of (seg', sb') \<Rightarrow> window_at seg' sb' w') \<and> sw_lookback w' = sw_lookback w
     | Some pm \<Rightarrow> \<exists>k d. k \<le> length fs \<and>
         (case segment (take k fs) seg sb of (seg', sb') \<Rightarrow>
            match_in eng (sw_matcher w) (sw_context w) seg' sb' d pm))"
  using assms
proof (induction fs arbitrary: w seg sb)
  case (Cons f fs)
  obtain gap chunk where f: "f = (gap, chunk)" by (cases f)
  let ?seg = "if gap > 0 then chunk else seg @ chunk"
    and ?sb = "if gap > 0 then sb + word_of_nat (length seg) else sb"
  from window_feed_spec [OF Cons.prems, where gap = gap and chunk = chunk] obtain r w1 d where w1:
    "window_feed eng chunk gap w = Some (r, w1)" "sw_matcher w1 = sw_matcher w"
    "sw_lookback w1 = sw_lookback w" "sw_context w1 = sw_context w"
    "r = None \<Longrightarrow> window_at ?seg ?sb w1"
    "\<And>pm. r = Some pm \<Longrightarrow> match_in eng (sw_matcher w) (sw_context w) ?seg ?sb d pm"
    by (cases "gap > 0") (auto split: option.splits)
  show ?case
  proof (cases r)
    case None
    have "engine_sound eng (sw_matcher w1)" using Cons.prems(1) w1(2) by simp
    from Cons.IH [OF this w1(5) [OF None]] obtain r' w2 where w2: "feeds eng fs w1 = Some (r', w2)"
      "case r' of
         None \<Rightarrow> (case segment fs ?seg ?sb of (seg', sb') \<Rightarrow> window_at seg' sb' w2) \<and> sw_lookback w2 = sw_lookback w1
       | Some pm \<Rightarrow> \<exists>k d. k \<le> length fs \<and> (case segment (take k fs) ?seg ?sb of (seg', sb') \<Rightarrow>
            match_in eng (sw_matcher w1) (sw_context w1) seg' sb' d pm)" by blast
    have seg: "segment (f # gs) seg sb = segment gs ?seg ?sb" for gs by (simp add: f)
    show ?thesis
    proof (cases r')
      case None
      with w2 w1 \<open>r = None\<close> have "feeds eng (f # fs) w = Some (None, w2)"
        "case segment (f # fs) seg sb of (seg', sb') \<Rightarrow> window_at seg' sb' w2" "sw_lookback w2 = sw_lookback w"
        unfolding seg by (simp_all add: f)
      then show ?thesis by simp
    next
      case (Some pm)
      with w2(2) w1 obtain k d where "k \<le> length fs"
        "case segment (take k fs) ?seg ?sb of (seg', sb') \<Rightarrow> match_in eng (sw_matcher w) (sw_context w) seg' sb' d pm"
        by auto
      then have "\<exists>k d. k \<le> length (f # fs) \<and> (case segment (take k (f # fs)) seg sb of (seg', sb') \<Rightarrow>
          match_in eng (sw_matcher w) (sw_context w) seg' sb' d pm)"
        by (intro exI [of _ "Suc k"] exI [of _ d]) (simp add: seg del: segment.simps)
      with Some w2(1) w1(1) f \<open>r = None\<close> show ?thesis by (simp del: segment.simps)
    qed
  next
    case (Some pm)
    have "\<exists>k d. k \<le> length (f # fs) \<and> (case segment (take k (f # fs)) seg sb of (seg', sb') \<Rightarrow>
        match_in eng (sw_matcher w) (sw_context w) seg' sb' d pm)"
      using w1(6) [OF Some] by (intro exI [of _ 1] exI [of _ d]) (auto simp: f)
    with Some w1(1) f show ?thesis by (simp del: segment.simps)
  qed
qed simp

text \<open>
  C25: a wait never matches across bytes nobody observed: whatever chunks and gaps the window is fed, it
  does not panic; a match it reports is one the engine found inside a single segment observed without a
  hole, its offsets are the stream offsets of that range, its context is the segment's bytes at the
  context offset and no wider than requested; and without a match at most the lookback is retained.
\<close>

theorem pattern_never_spans_gap:
  assumes "engine_sound eng m"
  shows "\<exists>r w. feeds eng fs (scan_window_new m lookback context base) = Some (r, w) \<and>
    (r = None \<longrightarrow> length (sw_buf w) \<le> lookback) \<and>
    (\<forall>pm. r = Some pm \<longrightarrow> (\<exists>k d. k \<le> length fs \<and>
       match_in eng m context (fst (segment (take k fs) [] base)) (snd (segment (take k fs) [] base)) d pm))"
proof -
  let ?w = "scan_window_new m lookback context base"
  have "window_at [] base ?w" by (simp add: window_at_def scan_window_new_def last_n_def)
  moreover have w: "sw_matcher ?w = m" "sw_lookback ?w = lookback" "sw_context ?w = context"
    by (simp_all add: scan_window_new_def)
  ultimately obtain r w where "feeds eng fs ?w = Some (r, w)"
    "case r of
       None \<Rightarrow> (case segment fs [] base of (seg', sb') \<Rightarrow> window_at seg' sb' w) \<and> sw_lookback w = lookback
     | Some pm \<Rightarrow> \<exists>k d. k \<le> length fs \<and>
         (case segment (take k fs) [] base of (seg', sb') \<Rightarrow> match_in eng m context seg' sb' d pm)"
    using feeds_spec [of eng ?w "[]" base fs] assms unfolding w by blast
  then show ?thesis by (cases r) (auto simp: window_at_def split_beta)
qed

section \<open>Admission\<close>

text \<open>The regex source a pattern becomes, and the limits it has to keep.\<close>

definition pattern_source :: "PatternSpec \<Rightarrow> string" where
  "pattern_source spec =
     (case ps_kind spec of Literal \<Rightarrow> escape_bytes (ps_bytes spec) | Regex \<Rightarrow> map char_of_byte (ps_bytes spec))"

definition spec_ok :: "PatternSpec \<Rightarrow> bool" where
  "spec_ok spec \<longleftrightarrow>
     ps_name spec \<noteq> [] \<and> length (ps_name spec) \<le> MAX_NAME_LEN \<and>
     ps_bytes spec \<noteq> [] \<and> length (ps_bytes spec) \<le> MAX_PATTERN_BYTES \<and>
     (ps_kind spec = Regex \<longrightarrow> utf8_valid (ps_bytes spec))"

lemma compile_specs_Ok:
  "compile_specs specs names sources = Ok (n, s) \<longleftrightarrow>
     (\<forall>spec \<in> set specs. spec_ok spec \<and> ps_name spec \<notin> set names) \<and> distinct (map ps_name specs) \<and>
     n = names @ map ps_name specs \<and> s = sources @ map pattern_source specs"
proof (induction specs arbitrary: names sources)
  case (Cons spec specs)
  show ?case
    by (cases "ps_kind spec")
      (auto simp: Cons.IH spec_ok_def pattern_source_def from_utf8_def not_less image_iff)
qed auto

lemma matcher_compile_Ok:
  "matcher_compile eng specs = Ok m \<longleftrightarrow>
     specs \<noteq> [] \<and> length specs \<le> MAX_PATTERNS \<and> (\<forall>spec \<in> set specs. spec_ok spec) \<and>
     distinct (map ps_name specs) \<and> build_many eng (map pattern_source specs) = Ok (m_re m) \<and>
     m_names m = map ps_name specs"
proof (cases "compile_specs specs [] []")
  case (Inl e)
  then have "\<not> ((\<forall>spec \<in> set specs. spec_ok spec) \<and> distinct (map ps_name specs))"
    using compile_specs_Ok [of specs "[]" "[]" "map ps_name specs" "map pattern_source specs"] by auto
  with Inl show ?thesis by (auto simp: matcher_compile_def)
next
  case (Inr p)
  obtain n s where p: "p = (n, s)" by (cases p)
  with Inr compile_specs_Ok [of specs "[]" "[]" n s] have *: "\<forall>spec \<in> set specs. spec_ok spec"
    "distinct (map ps_name specs)" "n = map ps_name specs" "s = map pattern_source specs" by auto
  show ?thesis
    using Inr p * by (cases m) (auto simp: matcher_compile_def not_less split: sum.splits)
qed

text \<open>
  A wait is admitted exactly within its stated maxima: compilation succeeds if and only if there are
  one to \<open>MAX_PATTERNS\<close> patterns with distinct names of legal length, each pattern has one to
  \<open>MAX_PATTERN_BYTES\<close> bytes, each regex is text, and the engine builds the sources; the matcher reports
  the names in the caller's order.
\<close>

theorem matcher_compile_admits:
  "(\<exists>m. matcher_compile eng specs = Ok m \<and> m_names m = map ps_name specs) \<longleftrightarrow>
     specs \<noteq> [] \<and> length specs \<le> MAX_PATTERNS \<and> list_all spec_ok specs \<and>
     distinct (map ps_name specs) \<and> (\<exists>re. build_many eng (map pattern_source specs) = Ok re)"
  (is "?l \<longleftrightarrow> ?r")
proof
  assume ?l
  then obtain m where m: "matcher_compile eng specs = Ok m" by blast
  show ?r using m [unfolded matcher_compile_Ok] by (intro conjI exI [of _ "m_re m"]) (simp_all add: list_all_iff)
next
  assume ?r
  then obtain re where "build_many eng (map pattern_source specs) = Ok re" by blast
  with \<open>?r\<close> have "matcher_compile eng specs = Ok \<lparr>m_re = re, m_names = map ps_name specs\<rparr>"
    unfolding matcher_compile_Ok by (simp add: list_all_iff)
  then show ?l by auto
qed

section \<open>Literals\<close>

text \<open>
  Leftmost-first search for byte strings: the first position at which one of the patterns occurs, and the
  first such pattern.
\<close>

definition first_prefix :: "byte list list \<Rightarrow> byte list \<Rightarrow> nat option" where
  "first_prefix pats hay = position (\<lambda>p. take (length p) hay = p) pats"

fun leftmost :: "byte list list \<Rightarrow> byte list \<Rightarrow> nat \<Rightarrow> (nat \<times> nat \<times> nat) option" where
  "leftmost pats hay at =
     (case first_prefix pats hay of
        Some i \<Rightarrow> Some (i, at, at + length (pats ! i))
      | None \<Rightarrow> (case hay of [] \<Rightarrow> None | _ # hay \<Rightarrow> leftmost pats hay (at + 1)))"

declare leftmost.simps [simp del]

text \<open>
  What the engine documents of a set of escaped literals: byte escapes match their byte, and of several
  patterns the leftmost match wins, ties going to the pattern listed first.
\<close>

definition engine_literals :: "'re engine \<Rightarrow> bool" where
  "engine_literals eng \<longleftrightarrow>
     (\<forall>pats re hay. [] \<notin> set pats \<and> build_many eng (map escape_bytes pats) = Ok re \<longrightarrow>
        re_find eng re hay = leftmost pats hay 0)"

lemma leftmost_range:
  "leftmost pats hay at = Some (i, s, e) \<Longrightarrow>
     i < length pats \<and> at \<le> s \<and> e = s + length (pats ! i) \<and> e \<le> at + length hay"
proof (induction pats hay at rule: leftmost.induct)
  case (1 pats hay at)
  show ?case
  proof (cases "first_prefix pats hay")
    case None
    with "1.prems" obtain x xs where h: "hay = x # xs" and l: "leftmost pats xs (at + 1) = Some (i, s, e)"
      by (subst (asm) leftmost.simps) (auto split: list.splits)
    from "1.IH" [OF None h l] h show ?thesis by auto
  next
    case (Some j)
    with "1.prems" have "i = j" "s = at" "e = at + length (pats ! i)"
      by (auto simp: leftmost.simps [of pats hay])
    moreover from Some have "j < length pats" "take (length (pats ! j)) hay = pats ! j"
      unfolding first_prefix_def by (auto dest: position_SomeD)
    moreover from this have "length (pats ! j) \<le> length hay" by (metis length_take min.cobounded1)
    ultimately show ?thesis by simp
  qed
qed

lemma leftmost_shift: "leftmost pats hay (at + k) = map_option (\<lambda>(i, s, e). (i, s + k, e + k)) (leftmost pats hay at)"
proof (induction pats hay at rule: leftmost.induct)
  case (1 pats hay at)
  show ?case
  proof (cases "first_prefix pats hay")
    case None
    then show ?thesis
      using "1.IH" by (cases hay) (simp_all add: leftmost.simps [of pats "_ # _"] leftmost.simps [of pats "[]"])
  next
    case (Some j)
    then show ?thesis by (simp add: leftmost.simps [of pats hay])
  qed
qed

lemma leftmost_shift0: "leftmost pats hay k = map_option (\<lambda>(i, s, e). (i, s + k, e + k)) (leftmost pats hay 0)"
  using leftmost_shift [of pats hay 0 k] by simp

text \<open>A stream with no occurrence can be forgotten up to the length of the longest pattern.\<close>

lemma leftmost_lookback:
  assumes "\<forall>p \<in> set pats. length p \<le> n" and "leftmost pats u at = None"
  shows "leftmost pats (u @ c) at = leftmost pats (last_n n u @ c) (at + (length u - n))"
  using assms(2)
proof (induction u arbitrary: at)
  case (Cons x u)
  show ?case
  proof (cases "length (x # u) \<le> n")
    case False
    have none: "first_prefix pats (x # u) = None" "leftmost pats u (at + 1) = None"
      using Cons.prems by (auto simp: leftmost.simps [of pats "x # u"] split: option.splits)
    have "take (length p) (x # u @ c) = take (length p) (x # u)" if "p \<in> set pats" for p
      using that assms(1) False by (auto simp: take_Cons split: nat.splits)
    then have "first_prefix pats (x # u @ c) = None"
      using none(1) by (auto simp: first_prefix_def position_None_iff)
    then have "leftmost pats (x # u @ c) at = leftmost pats (u @ c) (at + 1)"
      by (simp add: leftmost.simps [of pats "x # u @ c"])
    also have "\<dots> = leftmost pats (last_n n u @ c) (at + 1 + (length u - n))" by (rule Cons.IH [OF none(2)])
    also have "\<dots> = leftmost pats (last_n n (x # u) @ c) (at + (length (x # u) - n))"
      using False by (simp add: last_n_def Suc_diff_le)
    finally show ?thesis by simp
  qed (simp add: last_n_all)
qed (simp add: last_n_def)

text \<open>Scanning everything seen so far each time a chunk arrives, which the window avoids.\<close>

fun whole_scan :: "byte list list \<Rightarrow> byte list \<Rightarrow> byte list list \<Rightarrow> (nat \<times> nat \<times> nat) option" where
  "whole_scan pats seen [] = None"
| "whole_scan pats seen (c # cs) =
     (case leftmost pats (seen @ c) 0 of
        Some hit \<Rightarrow> Some hit
      | None \<Rightarrow> whole_scan pats (seen @ c) cs)"

lemma min_lookback_ge:
  assumes "spec \<in> set specs" and "ps_kind spec = Literal"
  shows "length (ps_bytes spec) \<le> min_lookback specs"
proof -
  define lens where "lens = map (length \<circ> ps_bytes) (filter (\<lambda>s. ps_kind s = Literal) specs)"
  have "length (ps_bytes spec) \<in> set lens" using assms by (auto simp: lens_def)
  then obtain l ls where l: "lens = l # ls" and "length (ps_bytes spec) \<in> set (l # ls)" by (cases lens) auto
  then have "length (ps_bytes spec) \<le> fold max ls l"
    by (metis List.finite_set Max.set_eq_fold Max_ge)
  then show ?thesis by (simp add: min_lookback_def Let_def lens_def [symmetric] l le_max_iff_disj)
qed

lemma feeds_whole_scan:
  assumes "\<And>hay. re_find eng (m_re (sw_matcher w)) hay = leftmost pats hay 0"
    and "length (m_names (sw_matcher w)) = length pats" and "\<forall>p \<in> set pats. length p \<le> sw_lookback w"
    and "window_at seen base w" and "leftmost pats seen 0 = None"
  shows "\<exists>r w'. feeds eng (map (Pair 0) cs) w = Some (r, w') \<and>
    map_option (\<lambda>pm. (pm_pattern pm, pm_offset pm, pm_end_offset pm)) r =
    map_option (\<lambda>(i, s, e). (m_names (sw_matcher w) ! i, base + word_of_nat s, base + word_of_nat e))
      (whole_scan pats seen cs)"
  using assms
proof (induction cs arbitrary: w seen)
  case (Cons c cs)
  let ?m = "sw_matcher w" and ?d = "length seen - sw_lookback w"
  have sound: "engine_sound eng ?m"
    using Cons.prems(1,2) leftmost_range [of pats _ 0] by (fastforce simp: engine_sound_def)
  have d: "length seen - length (sw_buf w) = ?d" using Cons.prems(4) by (auto simp: window_at_def)
  have drop: "drop ?d (seen @ c) = last_n (sw_lookback w) seen @ c" by (simp add: last_n_def)
  have look: "leftmost pats (seen @ c) 0 =
      map_option (\<lambda>(i, s, e). (i, s + ?d, e + ?d)) (re_find eng (m_re ?m) (drop ?d (seen @ c)))"
    using leftmost_lookback [OF Cons.prems(3,5), of c] leftmost_shift0 [of pats "last_n (sw_lookback w) seen @ c" ?d]
    by (simp only: Cons.prems(1) drop add_0)
  have if0: "(if (0 :: u64) > 0 then x else y) = y" for x y :: 'b by simp
  from window_feed_spec [OF sound Cons.prems(4), where gap = 0 and chunk = c, unfolded if0 d]
  obtain r w1 where w1:
    "window_feed eng c 0 w = Some (r, w1)" "sw_matcher w1 = ?m" "sw_lookback w1 = sw_lookback w"
    and res: "case r of
       None \<Rightarrow> window_at (seen @ c) base w1 \<and> re_find eng (m_re ?m) (drop ?d (seen @ c)) = None
     | Some pm \<Rightarrow> match_in eng ?m (sw_context w) (seen @ c) base ?d pm" by blast
  show ?case
  proof (cases r)
    case None
    with res look have none: "leftmost pats (seen @ c) 0 = None" "window_at (seen @ c) base w1" by auto
    have "\<exists>r w'. feeds eng (map (Pair 0) cs) w1 = Some (r, w') \<and>
        map_option (\<lambda>pm. (pm_pattern pm, pm_offset pm, pm_end_offset pm)) r =
        map_option (\<lambda>(i, s, e). (m_names (sw_matcher w1) ! i, base + word_of_nat s, base + word_of_nat e))
          (whole_scan pats (seen @ c) cs)"
      by (rule Cons.IH) (use w1(2,3) Cons.prems(1-3) none in simp_all)
    then show ?thesis using None w1(1,2) none(1) by simp
  next
    case (Some pm)
    from res [unfolded Some option.case] obtain i s e where m: "re_find eng (m_re ?m) (drop ?d (seen @ c)) = Some (i, s, e)"
      "matcher_name ?m i = Some (pm_pattern pm)"
      "pm_offset pm = base + word_of_nat (?d + s)" "pm_end_offset pm = base + word_of_nat (?d + e)"
      unfolding match_in_def by blast
    then have "m_names ?m ! i = pm_pattern pm" by (auto simp: matcher_name_def split: if_splits)
    with m look Some w1(1) show ?thesis by (simp add: add.commute)
  qed
qed simp

text \<open>
  A literal split across chunks is found by construction: with a lookback of at least
  \<open>min_lookback\<close> and no gaps, a wait on literal patterns settles on the chunk, with the pattern and at
  the stream offsets, that searching the whole stream seen so far would give, however the stream is cut.
\<close>

theorem literal_wait_sees_whole_stream:
  assumes "engine_literals eng" and "matcher_compile eng specs = Ok m"
    and "\<forall>spec \<in> set specs. ps_kind spec = Literal" and "min_lookback specs \<le> lookback"
  shows "\<exists>r w. feeds eng (map (Pair 0) cs) (scan_window_new m lookback context base) = Some (r, w) \<and>
    map_option (\<lambda>pm. (pm_pattern pm, pm_offset pm, pm_end_offset pm)) r =
    map_option (\<lambda>(i, s, e). (m_names m ! i, base + word_of_nat s, base + word_of_nat e))
      (whole_scan (map ps_bytes specs) [] cs)"
proof -
  let ?pats = "map ps_bytes specs" and ?w = "scan_window_new m lookback context base"
  have w: "sw_matcher ?w = m" "sw_lookback ?w = lookback" "window_at [] base ?w"
    by (simp_all add: scan_window_new_def window_at_def last_n_def)
  note ok = assms(2) [unfolded matcher_compile_Ok]
  have "map pattern_source specs = map escape_bytes ?pats"
    using assms(3) by (simp add: pattern_source_def)
  moreover have ne: "[] \<notin> set ?pats" using ok by (auto simp: spec_ok_def)
  ultimately have find: "re_find eng (m_re m) hay = leftmost ?pats hay 0" for hay
    using assms(1) ok unfolding engine_literals_def by metis
  have "first_prefix ?pats [] = None" using ne by (auto simp: first_prefix_def position_None_iff)
  then have "leftmost ?pats [] 0 = None" by (simp add: leftmost.simps)
  moreover have "\<forall>p \<in> set ?pats. length p \<le> lookback"
    using min_lookback_ge assms(3,4) by (fastforce intro: order.trans)
  ultimately show ?thesis
    using feeds_whole_scan [of eng ?w ?pats "[]" base cs] w find ok by simp
qed

section \<open>An engine for literals\<close>

text \<open>
  A concrete engine for which the hypotheses above hold: it reads back the escaped literals and searches
  for them.
\<close>

definition hex_val :: "char \<Rightarrow> nat option" where
  "hex_val c = position (\<lambda>d. d = c) ''0123456789abcdef''"

fun unescape :: "string \<Rightarrow> byte list option" where
  "unescape [] = Some []"
| "unescape (a # b # c # d # r) =
     (case (hex_val c, hex_val d, unescape r) of
        (Some h, Some l, Some bs) \<Rightarrow>
          if a = CHR 0x5C \<and> b = CHR ''x'' then Some (word_of_nat (16 * h + l) # bs) else None
      | _ \<Rightarrow> None)"
| "unescape _ = None"

definition literal_engine :: "byte list list engine" where
  "literal_engine =
     \<lparr>build_many = (\<lambda>sources. case those (map unescape sources) of
        None \<Rightarrow> Err (None, ''unsupported'') | Some pats \<Rightarrow> Ok pats),
      re_find = (\<lambda>pats hay. leftmost pats hay 0)\<rparr>"

lemma hex_val_digit: "n < 16 \<Longrightarrow> hex_val (hex_digit n) = Some n"
proof -
  have "\<forall>n \<in> {..<16}. hex_val (hex_digit n) = Some n" by code_simp
  then show "n < 16 \<Longrightarrow> ?thesis" by simp
qed

lemma unescape_escape: "unescape (escape_bytes bytes) = Some bytes"
proof (induction bytes)
  case (Cons b bytes)
  have "unat b < 256" using unsigned_less [of b, where 'a = nat] by simp
  then have "hex_val (hex_digit (unat b div 16)) = Some (unat b div 16)"
    "hex_val (hex_digit (unat b mod 16)) = Some (unat b mod 16)" by (auto intro: hex_val_digit)
  with Cons show ?case by (simp add: escape_bytes_def escape_byte_def)
qed (simp add: escape_bytes_def)

lemma literal_engine_literals: "engine_literals literal_engine"
proof -
  have "those (map unescape (map escape_bytes pats)) = Some pats" for pats
    by (induction pats) (simp_all add: unescape_escape)
  then show ?thesis by (simp add: engine_literals_def literal_engine_def)
qed

definition example_specs :: "PatternSpec list" where
  "example_specs = [\<lparr>ps_name = ''p'', ps_kind = Literal, ps_bytes = [1, 2]\<rparr>]"

definition example_matcher :: "byte list list Matcher" where
  "example_matcher = \<lparr>m_re = [[1, 2]], m_names = [''p'']\<rparr>"

lemma example_compiles: "matcher_compile literal_engine example_specs = Ok example_matcher"
  by code_simp

lemma example_sound: "engine_sound literal_engine example_matcher"
  using leftmost_range by (fastforce simp: engine_sound_def literal_engine_def example_matcher_def)

theorem pattern_never_spans_gap_witness:
  "engine_sound literal_engine example_matcher \<and>
   (\<exists>w. feeds literal_engine [(0, [1]), (5, [2])] (scan_window_new example_matcher 8 8 0) = Some (None, w) \<and>
     length (sw_buf w) \<le> 8)"
proof -
  obtain r w where f: "feeds literal_engine [(0, [1]), (5, [2])] (scan_window_new example_matcher 8 8 0) = Some (r, w)"
    and l: "r = None \<longrightarrow> length (sw_buf w) \<le> 8"
    using pattern_never_spans_gap [OF example_sound, of "[(0, [1]), (5, [2])]" 8 8 0] by blast
  have "(case feeds literal_engine [(0, [1]), (5, [2])] (scan_window_new example_matcher 8 8 0) of
      Some (None, w) \<Rightarrow> True | _ \<Rightarrow> False)"
    by (simp add: window_feed_def scan_then_trim_def window_scan_def window_trim_def earliest_def scan_window_new_def
        literal_engine_def example_matcher_def leftmost.simps first_prefix_def)
  with f have "r = None" by (simp del: feeds.simps split: option.splits)
  with f l example_sound show ?thesis by blast
qed

theorem literal_wait_sees_whole_stream_witness:
  "\<exists>r w. feeds literal_engine [(0, [7, 1]), (0, [2])] (scan_window_new example_matcher 2 8 100) = Some (r, w) \<and>
     map_option (\<lambda>pm. (pm_pattern pm, pm_offset pm, pm_end_offset pm)) r = Some (''p'', 101, 103)"
proof -
  have "\<forall>spec \<in> set example_specs. ps_kind spec = Literal" "min_lookback example_specs \<le> 2"
    by (simp_all add: example_specs_def min_lookback_def)
  moreover have "whole_scan (map ps_bytes example_specs) [] [[7, 1], [2]] = Some (0, 1, 3)" by code_simp
  ultimately show ?thesis
    using literal_wait_sees_whole_stream
      [OF literal_engine_literals example_compiles, of 2 "[[7, 1], [2]]" 8 100]
    by (simp add: example_matcher_def del: feeds.simps whole_scan.simps)
qed

end
