(* ===== verification/Tap_Hub.thy ===== *)
theory Tap_Hub
  imports Replay_Ring Pattern
begin

text \<open>
  Taps and pattern waits (\<open>daemon/src/tap.rs\<close>): the producer's feed, the per-endpoint hub that appends to
  the replay ring and fans out to the open taps and the armed waits, and the verbs that open, close, arm,
  disarm and detach.

  The channels to the control connections are explicit: a bounded tap channel holds everything ever sent
  on it and how much the connection has taken, so that what is queued is the difference; a connection's
  overflow lane is unbounded; the one-shot result of a wait is recorded in the order of sending. The two
  atomics a hub shares with its producers are fields of the hub. A subtraction that underflows, and a
  slice that is out of range, is a panic, \<open>None\<close>.
\<close>

section \<open>Messages and channels\<close>

definition TAP_QUEUE_CAP :: nat where
  "TAP_QUEUE_CAP = 128"

definition TAP_FEED_CAP :: nat where
  "TAP_FEED_CAP = 256"

definition MAX_ARMED_WAITS :: nat where
  "MAX_ARMED_WAITS = 64"

definition REPLAY_PIECE :: nat where
  "REPLAY_PIECE = 65536"

datatype TapCloseReason = EndpointRemoved | GraphReplaced | Teardown

fun close_reason_str :: "TapCloseReason \<Rightarrow> string" where
  "close_reason_str EndpointRemoved = ''endpoint removed''"
| "close_reason_str GraphReplaced = ''graph replaced''"
| "close_reason_str Teardown = ''teardown''"

datatype TapMsg =
    TapData (msg_id: u64) (msg_bytes: "byte list") (msg_offset: u64) (msg_gap: u64)
  | TapClosed (msg_id: u64) string string

record tap_chan =
  tc_cap :: nat
  tc_sent :: "TapMsg list"
  tc_taken :: nat
  tc_open :: bool

definition chan_capacity :: "tap_chan \<Rightarrow> nat" where
  "chan_capacity ch = tc_cap ch - (length (tc_sent ch) - tc_taken ch)"

datatype TrySendError = SendFull | SendClosed

definition try_send :: "TapMsg \<Rightarrow> tap_chan \<Rightarrow> (TrySendError, unit) result \<times> tap_chan" where
  "try_send msg ch =
     (if \<not> tc_open ch then (Err SendClosed, ch)
      else if chan_capacity ch = 0 then (Err SendFull, ch)
      else (Ok (), ch\<lparr>tc_sent := tc_sent ch @ [msg]\<rparr>))"

record WaitAccounting =
  wa_bytes_scanned :: u64
  wa_gaps :: u64
  wa_gap_bytes :: u64
  wa_from_offset :: u64
  wa_epoch :: u64
  wa_replay_scanned :: u64

datatype WaitEnd = Matched PatternMatch WaitAccounting | WaitClosed TapCloseReason WaitAccounting

text \<open>What the hub can reach of the control connections.\<close>

record tap_env =
  te_chans :: "nat \<Rightarrow> tap_chan"
  te_lanes :: "nat \<Rightarrow> TapMsg list"
  te_ends :: "(u64 \<times> WaitEnd) list"

definition send_to :: "nat \<Rightarrow> TapMsg \<Rightarrow> tap_env \<Rightarrow> (TrySendError, unit) result \<times> tap_env" where
  "send_to c msg env =
     (let (res, ch) = try_send msg (te_chans env c) in (res, env\<lparr>te_chans := (te_chans env)(c := ch)\<rparr>))"

section \<open>The hub\<close>

record Tap =
  tap_id :: u64
  tap_out :: nat
  tap_terminal :: "nat option"
  tap_dropped :: u64

record 're ArmedWait =
  aw_id :: u64
  aw_scan :: "'re ScanWindow"
  aw_from_offset :: u64
  aw_replay_scanned :: u64
  aw_pending_gap_credit :: u64
  aw_done :: bool

definition wait_accounting :: "u64 \<Rightarrow> 're ArmedWait \<Rightarrow> WaitAccounting" where
  "wait_accounting epoch w =
     \<lparr>wa_bytes_scanned = sw_scanned (aw_scan w), wa_gaps = sw_gaps (aw_scan w),
      wa_gap_bytes = sw_gap_bytes (aw_scan w), wa_from_offset = aw_from_offset w, wa_epoch = epoch,
      wa_replay_scanned = aw_replay_scanned w\<rparr>"

datatype Armed =
    AlreadyMatched PatternMatch WaitAccounting
  | Parked
  | Refused nat nat

record Registered =
  reg_replay_bytes :: u64
  reg_replay_truncated :: u64
  reg_from_offset :: u64
  reg_epoch :: u64
  reg_feed_dropped :: u64

record 're TapHub =
  hub_taps :: "Tap list"
  hub_waits :: "'re ArmedWait list"
  hub_ring :: "ReplayRing option"
  hub_ingested :: u64
  hub_active :: bool
  hub_feed_dropped :: u64
  hub_feed_dropped_seen :: u64
  hub_ring_gap :: "(u64 \<times> u64) option"
  hub_orphaned :: bool
  hub_endpoint :: string
  hub_epoch :: u64

definition hub_new :: "string \<Rightarrow> nat \<Rightarrow> u64 \<Rightarrow> 're TapHub" where
  "hub_new endpoint cap epoch =
     \<lparr>hub_taps = [], hub_waits = [], hub_ring = (if cap > 0 then Some (ring_new cap) else None),
      hub_ingested = 0, hub_active = (cap > 0), hub_feed_dropped = 0, hub_feed_dropped_seen = 0,
      hub_ring_gap = None, hub_orphaned = False, hub_endpoint = endpoint, hub_epoch = epoch\<rparr>"

definition refresh_active :: "'re TapHub \<Rightarrow> 're TapHub" where
  "refresh_active h =
     h\<lparr>hub_active := \<not> hub_orphaned h \<and> (hub_ring h \<noteq> None \<or> hub_taps h \<noteq> [] \<or> hub_waits h \<noteq> [])\<rparr>"

text \<open>The fan-out of one chunk to the taps, in order, and to the waits, in order.\<close>

fun offer_taps :: "byte list \<Rightarrow> u64 \<Rightarrow> u64 \<Rightarrow> Tap list \<Rightarrow> tap_env \<Rightarrow> Tap list \<times> tap_env" where
  "offer_taps chunk offset gap [] env = ([], env)"
| "offer_taps chunk offset gap (tap # taps) env =
     (let (res, env) = send_to (tap_out tap) (TapData (tap_id tap) chunk offset gap) env;
          (rest, env) = offer_taps chunk offset gap taps env
      in ((case res of
             Inr _ \<Rightarrow> tap # rest
           | Inl SendFull \<Rightarrow> tap\<lparr>tap_dropped := tap_dropped tap + word_of_nat (length chunk)\<rparr> # rest
           | Inl SendClosed \<Rightarrow> rest), env))"

definition saturating_sub :: "u64 \<Rightarrow> u64 \<Rightarrow> u64" where
  "saturating_sub a b = (if a \<ge> b then a - b else 0)"

fun feed_waits :: "'re engine \<Rightarrow> byte list \<Rightarrow> u64 \<Rightarrow> u64 \<Rightarrow> 're ArmedWait list \<Rightarrow> (u64 \<times> WaitEnd) list \<Rightarrow>
    ('re ArmedWait list \<times> (u64 \<times> WaitEnd) list) option" where
  "feed_waits eng chunk gap epoch [] ends = Some ([], ends)"
| "feed_waits eng chunk gap epoch (w # ws) ends =
     (case window_feed eng chunk (saturating_sub gap (aw_pending_gap_credit w)) (aw_scan w) of
        None \<Rightarrow> None
      | Some (None, scan) \<Rightarrow>
          (case feed_waits eng chunk gap epoch ws ends of
             None \<Rightarrow> None
           | Some (rest, ends) \<Rightarrow> Some (w\<lparr>aw_pending_gap_credit := 0, aw_scan := scan\<rparr> # rest, ends))
      | Some (Some m, scan) \<Rightarrow>
          feed_waits eng chunk gap epoch ws
            (if aw_done w
             then ends @ [(aw_id w, Matched m (wait_accounting epoch (w\<lparr>aw_pending_gap_credit := 0, aw_scan := scan\<rparr>)))]
             else ends))"

text \<open>The loss a chunk follows: what the feed has lost since the chunk before it.\<close>

definition gap_before :: "'re TapHub \<Rightarrow> u64" where
  "gap_before h = hub_feed_dropped h - hub_feed_dropped_seen h"

definition ingest_ring :: "byte list \<Rightarrow> 're TapHub \<Rightarrow> (ReplayRing option \<times> (u64 \<times> u64) option) option" where
  "ingest_ring chunk h =
     (case hub_ring h of
        None \<Rightarrow> Some (None, hub_ring_gap h)
      | Some ring \<Rightarrow>
          (let ring_gap = (if gap_before h > 0 then Some (hub_ingested h, gap_before h) else hub_ring_gap h)
           in case ring_push ring chunk of
                None \<Rightarrow> None
              | Some ring \<Rightarrow> Some (Some ring, ring_gap)))"

definition ingest :: "'re engine \<Rightarrow> byte list \<Rightarrow> 're TapHub \<Rightarrow> tap_env \<Rightarrow> ('re TapHub \<times> tap_env) option" where
  "ingest eng chunk h env =
     (let n = word_of_nat (length chunk)
      in case ingest_ring chunk h of
           None \<Rightarrow> None
         | Some (ring, ring_gap) \<Rightarrow>
             (let (taps, env) = offer_taps chunk (hub_ingested h) (gap_before h) (hub_taps h) env
              in case feed_waits eng chunk (gap_before h) (hub_epoch h) (hub_waits h) (te_ends env) of
                   None \<Rightarrow> None
                 | Some (waits, ends) \<Rightarrow>
                     Some (refresh_active
                             (h\<lparr>hub_feed_dropped_seen := hub_feed_dropped h, hub_ring := ring,
                                hub_ring_gap := ring_gap, hub_taps := taps, hub_waits := waits,
                                hub_ingested := hub_ingested h + n\<rparr>),
                           env\<lparr>te_ends := ends\<rparr>)))"

section \<open>The verbs\<close>

text \<open>The replay part of \<open>arm_wait\<close>: the snapshot, cut at the newest hole.\<close>

definition replay_window :: "ReplayRing \<Rightarrow> 're TapHub \<Rightarrow> (byte list \<times> u64 \<times> u64) option" where
  "replay_window ring h =
     (case ring_snapshot ring of
        None \<Rightarrow> None
      | Some snap \<Rightarrow>
          if word_of_nat (length snap) > hub_ingested h then None
          else
            (let from_offset = hub_ingested h - word_of_nat (length snap)
             in case hub_ring_gap h of
                  Some (at, bytes) \<Rightarrow>
                    if at > from_offset
                    then Some (drop (min (unat (at - from_offset)) (length snap)) snap, at, bytes)
                    else Some (snap, from_offset, 0)
                | None \<Rightarrow> Some (snap, from_offset, 0)))"

text \<open>What \<open>arm_wait\<close> scans before it arms: nothing, or the replay window.\<close>

definition arm_seed :: "'re engine \<Rightarrow> bool \<Rightarrow> 're ScanWindow \<Rightarrow> 're TapHub \<Rightarrow>
    (PatternMatch option \<times> 're ScanWindow \<times> u64 \<times> u64) option" where
  "arm_seed eng replay scan h =
     (if replay
      then (case hub_ring h of
              None \<Rightarrow> Some (None, scan, hub_ingested h, 0)
            | Some ring \<Rightarrow>
                (case replay_window ring h of
                   None \<Rightarrow> None
                 | Some (snap, from_offset, excluded) \<Rightarrow>
                     (case window_seed eng snap from_offset excluded scan of
                        None \<Rightarrow> None
                      | Some (hit, scan) \<Rightarrow> Some (hit, scan, from_offset, word_of_nat (length snap)))))
      else Some (None, scan, hub_ingested h, 0))"

definition arm_wait :: "'re engine \<Rightarrow> u64 \<Rightarrow> 're Matcher \<Rightarrow> nat \<Rightarrow> nat \<Rightarrow> bool \<Rightarrow> 're TapHub \<Rightarrow>
    (Armed \<times> 're TapHub) option" where
  "arm_wait eng wid matcher lookback context replay h =
     (if length (hub_waits h) \<ge> MAX_ARMED_WAITS then Some (Refused (length (hub_waits h)) MAX_ARMED_WAITS, h)
      else
        (case arm_seed eng replay (scan_window_new matcher lookback context (hub_ingested h)) h of
           None \<Rightarrow> None
         | Some (hit, scan, from_offset, replay_scanned) \<Rightarrow>
             (let wait = \<lparr>aw_id = wid, aw_scan = scan, aw_from_offset = from_offset,
                          aw_replay_scanned = replay_scanned,
                          aw_pending_gap_credit = gap_before h, aw_done = False\<rparr>
              in case hit of
                   Some m \<Rightarrow> Some (AlreadyMatched m (wait_accounting (hub_epoch h) wait), h)
                 | None \<Rightarrow>
                     Some (Parked, refresh_active (h\<lparr>hub_waits := hub_waits h @ [wait\<lparr>aw_done := True\<rparr>]\<rparr>)))))"

definition disarm :: "u64 \<Rightarrow> 're TapHub \<Rightarrow> WaitAccounting option \<times> 're TapHub" where
  "disarm wid h =
     (case position (\<lambda>w. aw_id w = wid) (hub_waits h) of
        None \<Rightarrow> (None, h)
      | Some pos \<Rightarrow>
          (Some (wait_accounting (hub_epoch h) (hub_waits h ! pos)),
           refresh_active (h\<lparr>hub_waits := take pos (hub_waits h) @ drop (Suc pos) (hub_waits h)\<rparr>)))"

text \<open>The replay pieces of \<open>register\<close>, until the channel turns out to be closed.\<close>

fun send_pieces :: "u64 \<Rightarrow> nat \<Rightarrow> byte list list \<Rightarrow> u64 \<Rightarrow> u64 \<Rightarrow> u64 \<Rightarrow> tap_env \<Rightarrow> u64 \<times> u64 \<times> tap_env" where
  "send_pieces i out [] piece_off replay_bytes dropped env = (replay_bytes, dropped, env)"
| "send_pieces i out (piece # pieces) piece_off replay_bytes dropped env =
     (let len = word_of_nat (length piece)
      in case send_to out (TapData i piece piece_off 0) env of
           (Inr _, env) \<Rightarrow> send_pieces i out pieces (piece_off + len) (replay_bytes + len) dropped env
         | (Inl SendFull, env) \<Rightarrow> send_pieces i out pieces (piece_off + len) replay_bytes (dropped + len) env
         | (Inl SendClosed, env) \<Rightarrow> (replay_bytes, dropped, env))"

text \<open>
  The replay part of \<open>register\<close>: bytes replayed, bytes trimmed, the offset the tap begins at, the tap's drop
  counter and the channels after it.
\<close>

definition register_replay :: "u64 \<Rightarrow> nat \<Rightarrow> u64 \<Rightarrow> bool \<Rightarrow> 're TapHub \<Rightarrow> tap_env \<Rightarrow>
    (u64 \<times> u64 \<times> u64 \<times> u64 \<times> tap_env) option" where
  "register_replay i out dropped replay h env =
     (if replay
      then (case hub_ring h of
              None \<Rightarrow> Some (0, 0, hub_ingested h, dropped, env)
            | Some ring \<Rightarrow>
                (case ring_snapshot ring of
                   None \<Rightarrow> None
                 | Some snap \<Rightarrow>
                     (let budget = chan_capacity (te_chans env out) * REPLAY_PIECE;
                          deliver = min (length snap) budget
                      in if word_of_nat deliver > hub_ingested h then None
                         else
                           (let from_offset = hub_ingested h - word_of_nat deliver;
                                (replay_bytes, dropped, env) =
                                  send_pieces i out (chunks REPLAY_PIECE (drop (length snap - deliver) snap))
                                    from_offset 0 dropped env
                            in Some (replay_bytes, word_of_nat (length snap - deliver), from_offset, dropped, env)))))
      else Some (0, 0, hub_ingested h, dropped, env))"

definition register :: "u64 \<Rightarrow> nat \<Rightarrow> u64 \<Rightarrow> bool \<Rightarrow> 're TapHub \<Rightarrow> tap_env \<Rightarrow>
    (Registered \<times> 're TapHub \<times> tap_env) option" where
  "register i out dropped replay h env =
     (case register_replay i out dropped replay h env of
        None \<Rightarrow> None
      | Some (replay_bytes, replay_truncated, from_offset, dropped, env) \<Rightarrow>
          Some (\<lparr>reg_replay_bytes = replay_bytes, reg_replay_truncated = replay_truncated,
                 reg_from_offset = from_offset, reg_epoch = hub_epoch h,
                 reg_feed_dropped = hub_feed_dropped_seen h\<rparr>,
                refresh_active (h\<lparr>hub_taps := hub_taps h @
                  [\<lparr>tap_id = i, tap_out = out, tap_terminal = None, tap_dropped = dropped\<rparr>]\<rparr>),
                env))"

text \<open>\<open>find\<close> on the taps: the first one with the identity.\<close>

fun attach_terminal_in :: "u64 \<Rightarrow> nat \<Rightarrow> Tap list \<Rightarrow> Tap list" where
  "attach_terminal_in i lane [] = []"
| "attach_terminal_in i lane (t # ts) =
     (if tap_id t = i then t\<lparr>tap_terminal := Some lane\<rparr> # ts else t # attach_terminal_in i lane ts)"

definition attach_terminal :: "u64 \<Rightarrow> nat \<Rightarrow> 're TapHub \<Rightarrow> 're TapHub" where
  "attach_terminal i lane h = h\<lparr>hub_taps := attach_terminal_in i lane (hub_taps h)\<rparr>"

definition tap_close :: "u64 \<Rightarrow> 're TapHub \<Rightarrow> 're TapHub" where
  "tap_close i h = refresh_active (h\<lparr>hub_taps := filter (\<lambda>t. tap_id t \<noteq> i) (hub_taps h)\<rparr>)"

fun send_closed :: "string \<Rightarrow> TapCloseReason \<Rightarrow> Tap list \<Rightarrow> tap_env \<Rightarrow> tap_env" where
  "send_closed endpoint reason [] env = env"
| "send_closed endpoint reason (tap # taps) env =
     (let closed = TapClosed (tap_id tap) endpoint (close_reason_str reason)
      in case send_to (tap_out tap) closed env of
           (Inl SendFull, env) \<Rightarrow>
             send_closed endpoint reason taps
               (case tap_terminal tap of
                  None \<Rightarrow> env
                | Some lane \<Rightarrow> env\<lparr>te_lanes := (te_lanes env)(lane := te_lanes env lane @ [closed])\<rparr>)
         | (_, env) \<Rightarrow> send_closed endpoint reason taps env)"

definition detach_all :: "TapCloseReason \<Rightarrow> 're TapHub \<Rightarrow> tap_env \<Rightarrow> u64 list \<times> 're TapHub \<times> tap_env" where
  "detach_all reason h env =
     (let ids = map tap_id (hub_taps h);
          env = send_closed (hub_endpoint h) reason (hub_taps h) env;
          env = env\<lparr>te_ends := te_ends env @
            map (\<lambda>w. (aw_id w, WaitClosed reason (wait_accounting (hub_epoch h) w))) (filter aw_done (hub_waits h))\<rparr>
      in (ids, h\<lparr>hub_taps := [], hub_waits := [], hub_ring := None, hub_orphaned := True, hub_active := False\<rparr>, env))"

record TapHubSnapshot =
  snap_taps :: "(u64 \<times> u64) list"
  snap_feed_dropped :: u64
  snap_waits :: "(u64 \<times> string list \<times> u64 \<times> u64) list"

definition hub_snapshot :: "'re TapHub \<Rightarrow> TapHubSnapshot" where
  "hub_snapshot h =
     \<lparr>snap_taps = map (\<lambda>t. (tap_id t, tap_dropped t)) (hub_taps h),
      snap_feed_dropped = hub_feed_dropped h,
      snap_waits = map (\<lambda>w. (aw_id w, m_names (sw_matcher (aw_scan w)), sw_scanned (aw_scan w), sw_gaps (aw_scan w)))
        (hub_waits h)\<rparr>"

section \<open>The feed\<close>

text \<open>
  A hub with the channel its producers mirror into: \<open>mirror\<close> and \<open>skipped\<close> run on the producer's side, and
  the hub's task takes one chunk at a time.
\<close>

record 're tap_feed =
  feed_hub :: "'re TapHub"
  feed_queue :: "byte list list"

definition mirror :: "byte list \<Rightarrow> 're tap_feed \<Rightarrow> 're tap_feed" where
  "mirror chunk f =
     (if \<not> hub_active (feed_hub f) \<or> length (feed_queue f) \<ge> TAP_FEED_CAP
      then f\<lparr>feed_hub := (feed_hub f)\<lparr>hub_feed_dropped := hub_feed_dropped (feed_hub f) + word_of_nat (length chunk)\<rparr>\<rparr>
      else f\<lparr>feed_queue := feed_queue f @ [chunk]\<rparr>)"

definition wanted :: "'re tap_feed \<Rightarrow> bool" where
  "wanted f = hub_active (feed_hub f)"

definition skipped :: "u64 \<Rightarrow> 're tap_feed \<Rightarrow> 're tap_feed" where
  "skipped n f = f\<lparr>feed_hub := (feed_hub f)\<lparr>hub_feed_dropped := hub_feed_dropped (feed_hub f) + n\<rparr>\<rparr>"

definition hub_task :: "'re engine \<Rightarrow> 're tap_feed \<Rightarrow> tap_env \<Rightarrow> ('re tap_feed \<times> tap_env) option" where
  "hub_task eng f env =
     (case feed_queue f of
        [] \<Rightarrow> Some (f, env)
      | chunk # rest \<Rightarrow>
          (case ingest eng chunk (feed_hub f) env of
             None \<Rightarrow> None
           | Some (h, env) \<Rightarrow> Some (f\<lparr>feed_hub := h, feed_queue := rest\<rparr>, env)))"

end
