(* ===== verification/Tap_Runs.thy ===== *)
theory Tap_Runs
  imports Tap_Hub
begin

text \<open>
  Runs of a tap hub: every interleaving of the producers that feed it, its task, the verbs of the control
  connections, and the connections themselves taking messages or going away. The hub's critical sections
  do not overlap, so a run is a sequence of steps.

  A run is indexed by the number of bytes its producers have had, and by the stream: the bytes the hub has
  ingested, in order. Observers' identities come from the daemon's one allocator (\<open>next_tap_id\<close> in
  \<open>daemon/src/daemon.rs\<close>), which other hubs draw from too; \<open>tw_answers\<close> records what \<open>tap.open\<close> answered.
\<close>

section \<open>Runs\<close>

record 're tap_world =
  tw_feed :: "'re tap_feed"
  tw_env :: tap_env
  tw_next :: u64
  tw_answers :: "(u64 \<times> Registered) list"

abbreviation tw_hub :: "'re tap_world \<Rightarrow> 're TapHub" where
  "tw_hub w \<equiv> feed_hub (tw_feed w)"

definition set_hub :: "'re TapHub \<Rightarrow> 're tap_world \<Rightarrow> 're tap_world" where
  "set_hub h w = w\<lparr>tw_feed := (tw_feed w)\<lparr>feed_hub := h\<rparr>\<rparr>"

definition set_chan :: "nat \<Rightarrow> (tap_chan \<Rightarrow> tap_chan) \<Rightarrow> 're tap_world \<Rightarrow> 're tap_world" where
  "set_chan c f w =
     w\<lparr>tw_env := (tw_env w)\<lparr>te_chans := (te_chans (tw_env w))(c := f (te_chans (tw_env w) c))\<rparr>\<rparr>"

text \<open>A new hub among connections that have seen only identities already given out.\<close>

definition tap_start :: "string \<Rightarrow> nat \<Rightarrow> u64 \<Rightarrow> tap_env \<Rightarrow> u64 \<Rightarrow> 're tap_world" where
  "tap_start endpoint cap epoch env nxt =
     \<lparr>tw_feed = \<lparr>feed_hub = hub_new endpoint cap epoch, feed_queue = []\<rparr>, tw_env = env, tw_next = nxt,
      tw_answers = []\<rparr>"

inductive tap_run :: "'re engine \<Rightarrow> 're tap_world \<Rightarrow> nat \<Rightarrow> byte list \<Rightarrow> bool" for eng :: "'re engine" where
  Start: "(\<And>c m. m \<in> set (tc_sent (te_chans env c)) \<Longrightarrow> msg_id m < nxt) \<Longrightarrow> te_ends env = [] \<Longrightarrow>
    tap_run eng (tap_start endpoint cap epoch env nxt) 0 []"
| Mirror: "tap_run eng w p s \<Longrightarrow>
    tap_run eng (w\<lparr>tw_feed := mirror chunk (tw_feed w)\<rparr>) (p + length chunk) s"
| Skipped: "tap_run eng w p s \<Longrightarrow>
    tap_run eng (w\<lparr>tw_feed := skipped (word_of_nat n) (tw_feed w)\<rparr>) (p + n) s"
| Task: "tap_run eng w p s \<Longrightarrow> feed_queue (tw_feed w) = chunk # rest \<Longrightarrow>
    hub_task eng (tw_feed w) (tw_env w) = Some (f, env) \<Longrightarrow>
    tap_run eng (w\<lparr>tw_feed := f, tw_env := env\<rparr>) p (s @ chunk)"
| Open: "tap_run eng w p s \<Longrightarrow> tw_next w < tw_next w + 1 \<Longrightarrow>
    register (tw_next w) out 0 replay (tw_hub w) (tw_env w) = Some (reg, h, env) \<Longrightarrow>
    tap_run eng (set_hub h (w\<lparr>tw_env := env, tw_next := tw_next w + 1,
      tw_answers := tw_answers w @ [(tw_next w, reg)]\<rparr>)) p s"
| Attach: "tap_run eng w p s \<Longrightarrow> tap_run eng (set_hub (attach_terminal i lane (tw_hub w)) w) p s"
| CloseTap: "tap_run eng w p s \<Longrightarrow> tap_run eng (set_hub (tap_close i (tw_hub w)) w) p s"
| Arm: "tap_run eng w p s \<Longrightarrow> tw_next w < tw_next w + 1 \<Longrightarrow> engine_sound eng matcher \<Longrightarrow>
    arm_wait eng (tw_next w) matcher lookback context replay (tw_hub w) = Some (armed, h) \<Longrightarrow>
    tap_run eng (set_hub h (w\<lparr>tw_next := tw_next w + 1\<rparr>)) p s"
| Disarm: "tap_run eng w p s \<Longrightarrow> tap_run eng (set_hub (snd (disarm i (tw_hub w))) w) p s"
| Detach: "tap_run eng w p s \<Longrightarrow> detach_all reason (tw_hub w) (tw_env w) = (ids, h, env) \<Longrightarrow>
    tap_run eng (set_hub h (w\<lparr>tw_env := env\<rparr>)) p s"
| Receive: "tap_run eng w p s \<Longrightarrow> tc_taken (te_chans (tw_env w) c) < length (tc_sent (te_chans (tw_env w) c)) \<Longrightarrow>
    tap_run eng (set_chan c (\<lambda>ch. ch\<lparr>tc_taken := Suc (tc_taken ch)\<rparr>) w) p s"
| HangUp: "tap_run eng w p s \<Longrightarrow> tap_run eng (set_chan c (\<lambda>ch. ch\<lparr>tc_open := False\<rparr>) w) p s"
| OtherId: "tap_run eng w p s \<Longrightarrow> tw_next w < tw_next w + 1 \<Longrightarrow> tap_run eng (w\<lparr>tw_next := tw_next w + 1\<rparr>) p s"
| Elsewhere: "tap_run eng w p s \<Longrightarrow> msg_id m < tw_next w \<Longrightarrow> msg_id m \<notin> fst ` set (tw_answers w) \<Longrightarrow>
    tap_run eng (set_chan c (\<lambda>ch. snd (try_send m ch)) w) p s"

lemmas world_simps = set_hub_def set_chan_def tap_start_def

lemma feed_hub_set_hub [simp]: "tw_hub (set_hub h w) = h" "feed_queue (tw_feed (set_hub h w)) = feed_queue (tw_feed w)"
  "tw_env (set_hub h w) = tw_env w" "tw_next (set_hub h w) = tw_next w" "tw_answers (set_hub h w) = tw_answers w"
  by (simp_all add: set_hub_def)

lemma set_chan_simps [simp]: "tw_feed (set_chan c f w) = tw_feed w" "tw_next (set_chan c f w) = tw_next w"
  "tw_answers (set_chan c f w) = tw_answers w" "te_lanes (tw_env (set_chan c f w)) = te_lanes (tw_env w)"
  "te_ends (tw_env (set_chan c f w)) = te_ends (tw_env w)"
  "te_chans (tw_env (set_chan c f w)) = (te_chans (tw_env w))(c := f (te_chans (tw_env w) c))"
  by (simp_all add: set_chan_def)

section \<open>What each operation keeps of the hub\<close>

lemma refresh_keeps [simp]:
  "hub_taps (refresh_active h) = hub_taps h" "hub_waits (refresh_active h) = hub_waits h"
  "hub_ring (refresh_active h) = hub_ring h" "hub_ingested (refresh_active h) = hub_ingested h"
  "hub_feed_dropped (refresh_active h) = hub_feed_dropped h"
  "hub_feed_dropped_seen (refresh_active h) = hub_feed_dropped_seen h"
  "hub_ring_gap (refresh_active h) = hub_ring_gap h" "hub_orphaned (refresh_active h) = hub_orphaned h"
  "hub_endpoint (refresh_active h) = hub_endpoint h" "hub_epoch (refresh_active h) = hub_epoch h"
  by (simp_all add: refresh_active_def)

text \<open>The part of the hub that only the feed changes.\<close>

definition same_stream :: "'re TapHub \<Rightarrow> 're TapHub \<Rightarrow> bool" where
  "same_stream h h' \<longleftrightarrow> hub_ingested h' = hub_ingested h \<and> hub_feed_dropped h' = hub_feed_dropped h \<and>
     hub_feed_dropped_seen h' = hub_feed_dropped_seen h \<and> hub_ring_gap h' = hub_ring_gap h \<and>
     (hub_ring h' = hub_ring h \<or> hub_ring h' = None)"

lemma register_same: "register i out d replay h env = Some (reg, h', env') \<Longrightarrow> same_stream h h' \<and> hub_waits h' = hub_waits h"
  by (auto simp: register_def same_stream_def split: if_splits option.splits prod.splits)

lemma arm_same: "arm_wait eng i m lb ctx replay h = Some (armed, h') \<Longrightarrow> same_stream h h' \<and> hub_taps h' = hub_taps h"
  by (auto simp: arm_wait_def same_stream_def Let_def split: if_splits option.splits prod.splits)

lemma disarm_same: "same_stream h (snd (disarm i h))" "hub_taps (snd (disarm i h)) = hub_taps h"
  by (auto simp: disarm_def same_stream_def split: option.splits)

lemma close_same: "same_stream h (tap_close i h)" "same_stream h (attach_terminal i lane h)"
  "hub_waits (tap_close i h) = hub_waits h" "hub_waits (attach_terminal i lane h) = hub_waits h"
  by (auto simp: tap_close_def attach_terminal_def same_stream_def)

lemma detach_same: "detach_all reason h env = (ids, h', env') \<Longrightarrow>
    same_stream h h' \<and> hub_taps h' = [] \<and> hub_waits h' = [] \<and> ids = map tap_id (hub_taps h)"
  by (auto simp: detach_all_def same_stream_def Let_def)

section \<open>The stream and the ring\<close>

text \<open>
  Every produced byte is ingested, queued, or counted as lost; the offset is the length of the stream; the
  ring retains its newest bytes; the newest hole lies inside the stream.
\<close>

definition queued :: "'re tap_world \<Rightarrow> nat" where
  "queued w = length (concat (feed_queue (tw_feed w)))"

definition stream_inv :: "'re tap_world \<Rightarrow> nat \<Rightarrow> byte list \<Rightarrow> bool" where
  "stream_inv w p s \<longleftrightarrow>
     (\<exists>lost. p = length s + queued w + lost \<and> hub_feed_dropped (tw_hub w) = word_of_nat lost) \<and>
     hub_ingested (tw_hub w) = word_of_nat (length s) \<and>
     length (feed_queue (tw_feed w)) \<le> TAP_FEED_CAP \<and>
     (\<forall>r. hub_ring (tw_hub w) = Some r \<longrightarrow> ring_inv r \<and> retained r = last_n (ring_cap r) s) \<and>
     (\<forall>at bytes. hub_ring_gap (tw_hub w) = Some (at, bytes) \<longrightarrow> unat at \<le> length s)"

lemma stream_invI:
  assumes "p = length s + queued w + lost" and "hub_feed_dropped (tw_hub w) = word_of_nat lost"
    and "hub_ingested (tw_hub w) = word_of_nat (length s)" and "length (feed_queue (tw_feed w)) \<le> TAP_FEED_CAP"
    and "\<forall>r. hub_ring (tw_hub w) = Some r \<longrightarrow> ring_inv r \<and> retained r = last_n (ring_cap r) s"
    and "\<forall>at bytes. hub_ring_gap (tw_hub w) = Some (at, bytes) \<longrightarrow> unat at \<le> length s"
  shows "stream_inv w p s"
  using assms unfolding stream_inv_def by blast

lemma stream_inv_same:
  assumes "stream_inv w p s" and "same_stream (tw_hub w) (tw_hub w')" and "feed_queue (tw_feed w') = feed_queue (tw_feed w)"
  shows "stream_inv w' p s"
  using assms unfolding stream_inv_def same_stream_def queued_def by auto

lemma ingestE:
  assumes "ingest eng chunk h env = Some (h', env')"
  obtains ring ring_gap taps env1 waits ends where
    "ingest_ring chunk h = Some (ring, ring_gap)"
    "offer_taps chunk (hub_ingested h) (gap_before h) (hub_taps h) env = (taps, env1)"
    "feed_waits eng chunk (gap_before h) (hub_epoch h) (hub_waits h) (te_ends env1) = Some (waits, ends)"
    "h' = refresh_active
       (h\<lparr>hub_feed_dropped_seen := hub_feed_dropped h, hub_ring := ring, hub_ring_gap := ring_gap,
          hub_taps := taps, hub_waits := waits, hub_ingested := hub_ingested h + word_of_nat (length chunk)\<rparr>)"
    "env' = env1\<lparr>te_ends := ends\<rparr>"
proof -
  obtain ring ring_gap where r: "ingest_ring chunk h = Some (ring, ring_gap)"
    using assms by (auto simp: ingest_def Let_def split: option.splits)
  obtain taps env1 where t: "offer_taps chunk (hub_ingested h) (gap_before h) (hub_taps h) env = (taps, env1)"
    by fastforce
  obtain waits ends where
    "feed_waits eng chunk (gap_before h) (hub_epoch h) (hub_waits h) (te_ends env1) = Some (waits, ends)"
    using assms r t by (auto simp: ingest_def Let_def split: option.splits)
  with assms r t that show thesis by (simp add: ingest_def Let_def)
qed

lemma unat_word_of_nat_le: "unat (word_of_nat n :: u64) \<le> n"
  by (simp add: unat_of_nat)

lemma ingest_ring_stream:
  assumes "\<And>r. hub_ring h = Some r \<Longrightarrow> ring_inv r \<and> retained r = last_n (ring_cap r) s"
    and "\<And>at bytes. hub_ring_gap h = Some (at, bytes) \<Longrightarrow> unat at \<le> length s"
    and "hub_ingested h = word_of_nat (length s)"
  shows "\<exists>ring ring_gap. ingest_ring chunk h = Some (ring, ring_gap) \<and>
    (ring = None \<longleftrightarrow> hub_ring h = None) \<and>
    (\<forall>r. ring = Some r \<longrightarrow> ring_inv r \<and> retained r = last_n (ring_cap r) (s @ chunk)) \<and>
    (\<forall>at bytes. ring_gap = Some (at, bytes) \<longrightarrow> unat at \<le> length (s @ chunk))"
proof (cases "hub_ring h")
  case None
  then show ?thesis using assms(2) by (auto simp: ingest_ring_def intro: trans_le_add1)
next
  case (Some r)
  with assms(1) push_retained [of r chunk] obtain r' where r': "ring_push r chunk = Some r'" "ring_inv r'"
    "ring_cap r' = ring_cap r" "retained r' = last_n (ring_cap r) (last_n (ring_cap r) s @ chunk)" by metis
  define g where "g = (if gap_before h > 0 then Some (hub_ingested h, gap_before h) else hub_ring_gap h)"
  have "unat at \<le> length (s @ chunk)" if "g = Some (at, bytes)" for at bytes
    using that assms(2) unat_word_of_nat_le [of "length s", folded assms(3)]
    by (auto simp: g_def intro: trans_le_add1 split: if_splits)
  moreover have "ingest_ring chunk h = Some (Some r', g)"
    using Some r' by (simp add: ingest_ring_def g_def)
  ultimately show ?thesis using Some r' by (auto simp: last_n_last_n_append)
qed

lemma hub_run_stream: "tap_run eng w p s \<Longrightarrow> stream_inv w p s"
proof (induction rule: tap_run.induct)
  case (Start env nxt endpoint cap epoch)
  show ?case
    by (auto simp: stream_inv_def tap_start_def hub_new_def queued_def ring_new_inv last_n_def split: if_splits)
next
  case (Mirror w p s chunk)
  then obtain lost where lost: "p = length s + queued w + lost" "hub_feed_dropped (tw_hub w) = word_of_nat lost"
    by (auto simp: stream_inv_def)
  show ?case
  proof (cases "\<not> hub_active (tw_hub w) \<or> length (feed_queue (tw_feed w)) \<ge> TAP_FEED_CAP")
    case True
    with lost Mirror.IH show ?thesis
      by (auto simp: stream_inv_def mirror_def queued_def intro!: exI [of _ "lost + length chunk"])
  next
    case False
    with lost Mirror.IH show ?thesis
      by (auto simp: stream_inv_def mirror_def queued_def intro!: exI [of _ lost])
  qed
next
  case (Skipped w p s n)
  then obtain lost where lost: "p = length s + queued w + lost" "hub_feed_dropped (tw_hub w) = word_of_nat lost"
    by (auto simp: stream_inv_def)
  with Skipped.IH show ?case
    by (auto simp: stream_inv_def skipped_def queued_def intro!: exI [of _ "lost + n"])
next
  case (Task w p s chunk rest f env)
  then obtain h where h: "ingest eng chunk (tw_hub w) (tw_env w) = Some (h, env)"
    "f = (tw_feed w)\<lparr>feed_hub := h, feed_queue := rest\<rparr>"
    by (auto simp: hub_task_def split: option.splits)
  from Task have inv: "stream_inv w p s" by simp
  obtain ring ring_gap where ring: "ingest_ring chunk (tw_hub w) = Some (ring, ring_gap)"
    "\<forall>r. ring = Some r \<longrightarrow> ring_inv r \<and> retained r = last_n (ring_cap r) (s @ chunk)"
    "\<forall>at bytes. ring_gap = Some (at, bytes) \<longrightarrow> unat at \<le> length (s @ chunk)"
    using inv ingest_ring_stream [of "tw_hub w" s chunk] unfolding stream_inv_def by blast
  with h have hub: "hub_ring h = ring" "hub_ring_gap h = ring_gap" "hub_feed_dropped h = hub_feed_dropped (tw_hub w)"
    "hub_ingested h = hub_ingested (tw_hub w) + word_of_nat (length chunk)"
    by (auto elim!: ingestE)
  from inv obtain lost where lost: "p = length s + queued w + lost" "hub_feed_dropped (tw_hub w) = word_of_nat lost"
    "hub_ingested (tw_hub w) = word_of_nat (length s)" "length (feed_queue (tw_feed w)) \<le> TAP_FEED_CAP"
    unfolding stream_inv_def by blast
  have w: "tw_hub (w\<lparr>tw_feed := f, tw_env := env\<rparr>) = h" by (simp add: h(2))
  show ?case
  proof (rule stream_invI [where lost = lost])
    show "p = length (s @ chunk) + queued (w\<lparr>tw_feed := f, tw_env := env\<rparr>) + lost"
      using lost(1) Task(2) by (simp add: queued_def h(2))
    show "hub_feed_dropped (tw_hub (w\<lparr>tw_feed := f, tw_env := env\<rparr>)) = word_of_nat lost"
      unfolding w hub(3) by (rule lost(2))
    show "hub_ingested (tw_hub (w\<lparr>tw_feed := f, tw_env := env\<rparr>)) = word_of_nat (length (s @ chunk))"
      unfolding w hub(4) lost(3) by simp
    show "length (feed_queue (tw_feed (w\<lparr>tw_feed := f, tw_env := env\<rparr>))) \<le> TAP_FEED_CAP"
      using lost(4) Task(2) by (simp add: h(2))
    show "\<forall>r. hub_ring (tw_hub (w\<lparr>tw_feed := f, tw_env := env\<rparr>)) = Some r \<longrightarrow>
        ring_inv r \<and> retained r = last_n (ring_cap r) (s @ chunk)"
      unfolding w hub(1) by (rule ring(2))
    show "\<forall>at bytes. hub_ring_gap (tw_hub (w\<lparr>tw_feed := f, tw_env := env\<rparr>)) = Some (at, bytes) \<longrightarrow>
        unat at \<le> length (s @ chunk)"
      unfolding w hub(2) by (rule ring(3))
  qed
next
  case (Open w p s out replay reg h env)
  show ?case by (rule stream_inv_same [OF Open.IH]) (simp_all add: register_same [OF Open.hyps(3)])
next
  case (Arm w p s matcher lookback ctx replay armed h)
  show ?case by (rule stream_inv_same [OF Arm.IH]) (simp_all add: arm_same [OF Arm.hyps(4)])
next
  case (Detach w p s reason ids h env)
  show ?case by (rule stream_inv_same [OF Detach.IH]) (simp_all add: detach_same [OF Detach.hyps(2)])
next
  case (Attach w p s i lane)
  show ?case by (rule stream_inv_same [OF Attach.IH]) (simp_all add: close_same)
next
  case (CloseTap w p s i)
  show ?case by (rule stream_inv_same [OF CloseTap.IH]) (simp_all add: close_same)
next
  case (Disarm w p s i)
  show ?case by (rule stream_inv_same [OF Disarm.IH]) (simp_all add: disarm_same)
qed (simp_all add: stream_inv_def queued_def)

section \<open>The hub's bookkeeping\<close>

text \<open>
  The producers' flag says whether anyone is listening, the waits stay within their maximum, and the taps
  have distinct identities that \<open>tap.open\<close> gave out; no message carries an identity not yet given out.
\<close>

definition book_inv :: "'re tap_world \<Rightarrow> bool" where
  "book_inv w \<longleftrightarrow>
     (hub_active (tw_hub w) \<longleftrightarrow> \<not> hub_orphaned (tw_hub w) \<and>
        (hub_ring (tw_hub w) \<noteq> None \<or> hub_taps (tw_hub w) \<noteq> [] \<or> hub_waits (tw_hub w) \<noteq> [])) \<and>
     length (hub_waits (tw_hub w)) \<le> MAX_ARMED_WAITS \<and>
     distinct (map tap_id (hub_taps (tw_hub w))) \<and>
     tap_id ` set (hub_taps (tw_hub w)) \<subseteq> fst ` set (tw_answers w) \<and>
     distinct (map fst (tw_answers w)) \<and>
     (\<forall>i \<in> fst ` set (tw_answers w). i < tw_next w) \<and>
     (\<forall>c. \<forall>m \<in> set (tc_sent (te_chans (tw_env w) c)). msg_id m < tw_next w)"

lemma send_to_simps:
  assumes "send_to c m env = (res, env')"
  shows "te_lanes env' = te_lanes env \<and> te_ends env' = te_ends env \<and>
    (\<forall>c'. c' \<noteq> c \<longrightarrow> te_chans env' c' = te_chans env c') \<and>
    tc_open (te_chans env' c) = tc_open (te_chans env c) \<and> tc_taken (te_chans env' c) = tc_taken (te_chans env c) \<and>
    tc_cap (te_chans env' c) = tc_cap (te_chans env c) \<and>
    (case res of
       Inr _ \<Rightarrow> tc_open (te_chans env c) \<and> tc_sent (te_chans env' c) = tc_sent (te_chans env c) @ [m]
     | Inl SendFull \<Rightarrow> env' = env
     | Inl SendClosed \<Rightarrow> env' = env \<and> \<not> tc_open (te_chans env c))"
  using assms by (auto simp: send_to_def try_send_def split: if_splits)

text \<open>The messages of one observer in one channel.\<close>

definition msgs_of :: "u64 \<Rightarrow> tap_env \<Rightarrow> nat \<Rightarrow> TapMsg list" where
  "msgs_of i env c = filter (\<lambda>m. msg_id m = i) (tc_sent (te_chans env c))"

lemma send_to_msgs:
  assumes "send_to c m env = (res, env')"
  shows "msgs_of i env' c' = msgs_of i env c' @ (if c' = c \<and> i = msg_id m \<and> res = Ok () then [m] else [])"
  using assms by (auto simp: send_to_def try_send_def msgs_of_def split: if_splits)

lemma send_to_open: "send_to c m env = (res, env') \<Longrightarrow> tc_open (te_chans env' c') = tc_open (te_chans env c')"
  by (auto simp: send_to_def try_send_def split: if_splits)

lemma send_to_ids:
  "send_to c m env = (res, env') \<Longrightarrow> x \<in> set (tc_sent (te_chans env' c')) \<Longrightarrow>
     x \<in> set (tc_sent (te_chans env c')) \<or> msg_id x = msg_id m"
  by (auto simp: send_to_def try_send_def split: if_splits)

lemma offer_taps_ids:
  "offer_taps chunk off gap taps env = (taps', env') \<Longrightarrow> x \<in> set (tc_sent (te_chans env' c)) \<Longrightarrow>
     x \<in> set (tc_sent (te_chans env c)) \<or> msg_id x \<in> tap_id ` set taps"
proof (induction taps arbitrary: env taps' env')
  case (Cons t taps)
  obtain res env1 where s: "send_to (tap_out t) (TapData (tap_id t) chunk off gap) env = (res, env1)" by fastforce
  obtain rest env2 where r: "offer_taps chunk off gap taps env1 = (rest, env2)" by fastforce
  with Cons.prems s have "env' = env2" by simp
  with Cons.IH [OF r] Cons.prems(2) send_to_ids [OF s] show ?case by auto
qed simp

lemma offer_taps_env:
  "offer_taps chunk off gap taps env = (taps', env') \<Longrightarrow>
     te_lanes env' = te_lanes env \<and> te_ends env' = te_ends env \<and>
     (\<forall>c. tc_open (te_chans env' c) = tc_open (te_chans env c)) \<and>
     (\<forall>i c. i \<notin> tap_id ` set taps \<longrightarrow> msgs_of i env' c = msgs_of i env c)"
proof (induction taps arbitrary: env taps' env')
  case (Cons t taps)
  obtain res env1 where s: "send_to (tap_out t) (TapData (tap_id t) chunk off gap) env = (res, env1)" by fastforce
  obtain rest env2 where r: "offer_taps chunk off gap taps env1 = (rest, env2)" by fastforce
  with Cons.prems s have "env' = env2" by simp
  with Cons.IH [OF r] send_to_simps [OF s] send_to_open [OF s] send_to_msgs [OF s] show ?case by auto
qed simp

lemma offer_taps_subset:
  "offer_taps chunk off gap taps env = (taps', env') \<Longrightarrow>
     distinct (map tap_id taps) \<Longrightarrow> distinct (map tap_id taps') \<and> tap_id ` set taps' \<subseteq> tap_id ` set taps"
proof (induction taps arbitrary: env taps' env')
  case (Cons t taps)
  obtain res env1 where s: "send_to (tap_out t) (TapData (tap_id t) chunk off gap) env = (res, env1)" by fastforce
  obtain rest env2 where r: "offer_taps chunk off gap taps env1 = (rest, env2)" by fastforce
  have "distinct (map tap_id rest)" "tap_id ` set rest \<subseteq> tap_id ` set taps"
    using Cons.IH [OF r] Cons.prems(2) by auto
  moreover have "taps' = rest \<or> (\<exists>d. taps' = t\<lparr>tap_dropped := d\<rparr> # rest) \<or> taps' = t # rest"
    using Cons.prems(1) s r by (auto split: sum.splits TrySendError.splits)
  moreover have "tap_id t \<notin> tap_id ` set taps" using Cons.prems(2) by auto
  ultimately show ?case by (elim disjE exE) (force+)
qed simp

lemma feed_waits_length:
  "feed_waits eng chunk gap epoch ws ends = Some (ws', ends') \<Longrightarrow> length ws' \<le> length ws"
  by (induction ws arbitrary: ends ws') (fastforce split: option.splits prod.splits)+

lemma send_pieces_env:
  "send_pieces i out ps off rb d env = (rb', d', env') \<Longrightarrow>
     te_lanes env' = te_lanes env \<and> te_ends env' = te_ends env \<and>
     (\<forall>c. tc_open (te_chans env' c) = tc_open (te_chans env c)) \<and>
     (\<forall>j c. j \<noteq> i \<longrightarrow> msgs_of j env' c = msgs_of j env c) \<and>
     (\<forall>c x. x \<in> set (tc_sent (te_chans env' c)) \<longrightarrow> x \<in> set (tc_sent (te_chans env c)) \<or> msg_id x = i)"
proof (induction ps arbitrary: off rb d env)
  case (Cons p ps)
  obtain res env1 where s: "send_to out (TapData i p off 0) env = (res, env1)" by fastforce
  note facts = send_to_simps [OF s] send_to_open [OF s] send_to_msgs [OF s] send_to_ids [OF s]
  show ?case
  proof (cases "res = Err SendClosed")
    case True
    with Cons.prems s facts show ?thesis by auto
  next
    case False
    then obtain off' rb0 d'' where "send_pieces i out ps off' rb0 d'' env1 = (rb', d', env')"
      using Cons.prems s by (auto simp: Let_def split: sum.splits TrySendError.splits)
    note IH = Cons.IH [OF this]
    have "x \<in> set (tc_sent (te_chans env c)) \<or> msg_id x = i" if "x \<in> set (tc_sent (te_chans env' c))" for c x
      using that IH send_to_ids [OF s, of x c] unfolding TapMsg.sel by blast
    with IH facts(1-3) show ?thesis by auto
  qed
qed simp

lemma send_closed_ids:
  "x \<in> set (tc_sent (te_chans (send_closed ep reason taps env) c)) \<Longrightarrow>
     x \<in> set (tc_sent (te_chans env c)) \<or> msg_id x \<in> tap_id ` set taps"
proof (induction taps arbitrary: env)
  case (Cons t taps)
  obtain res env1 where s: "send_to (tap_out t) (TapClosed (tap_id t) ep (close_reason_str reason)) env = (res, env1)"
    by fastforce
  define env2 where "env2 = (if res = Err SendFull
    then (case tap_terminal t of None \<Rightarrow> env1 | Some lane \<Rightarrow> env1\<lparr>te_lanes := (te_lanes env1)(lane := te_lanes env1 lane @
      [TapClosed (tap_id t) ep (close_reason_str reason)])\<rparr>) else env1)"
  have "send_closed ep reason (t # taps) env = send_closed ep reason taps env2"
    by (simp add: s Let_def env2_def split: sum.splits TrySendError.splits)
  moreover have "te_chans env2 = te_chans env1" by (simp add: env2_def split: option.splits)
  ultimately have "send_closed ep reason (t # taps) env = send_closed ep reason taps env2"
    "te_chans env2 = te_chans env1" by blast+
  with Cons.IH [of env2] Cons.prems send_to_ids [OF s, of x c] show ?case by auto
qed simp

lemma registerE:
  assumes "register i out d replay h env = Some (reg, h', env')"
  obtains rb rt fo d' where "register_replay i out d replay h env = Some (rb, rt, fo, d', env')"
    "reg = \<lparr>reg_replay_bytes = rb, reg_replay_truncated = rt, reg_from_offset = fo, reg_epoch = hub_epoch h,
            reg_feed_dropped = hub_feed_dropped_seen h\<rparr>"
    "h' = refresh_active (h\<lparr>hub_taps := hub_taps h @
       [\<lparr>tap_id = i, tap_out = out, tap_terminal = None, tap_dropped = d'\<rparr>]\<rparr>)"
  using assms by (auto simp: register_def split: option.splits)

lemma register_replay_env:
  assumes "register_replay i out d replay h env = Some (rb, rt, fo, d', env')"
  shows "te_lanes env' = te_lanes env \<and> te_ends env' = te_ends env \<and>
     (\<forall>c. tc_open (te_chans env' c) = tc_open (te_chans env c)) \<and>
     (\<forall>j c. j \<noteq> i \<longrightarrow> msgs_of j env' c = msgs_of j env c) \<and>
     (\<forall>c x. x \<in> set (tc_sent (te_chans env' c)) \<longrightarrow> x \<in> set (tc_sent (te_chans env c)) \<or> msg_id x = i)"
proof -
  consider "env' = env" | ps off d0 where "send_pieces i out ps off 0 d0 env = (rb, d', env')"
    using assms by (auto simp: register_replay_def Let_def split: if_splits option.splits prod.splits)
  then show ?thesis
  proof cases
    case 2
    from send_pieces_env [OF this] show ?thesis .
  qed simp
qed

lemma book_invI:
  assumes "hub_active (tw_hub w) \<longleftrightarrow> \<not> hub_orphaned (tw_hub w) \<and>
        (hub_ring (tw_hub w) \<noteq> None \<or> hub_taps (tw_hub w) \<noteq> [] \<or> hub_waits (tw_hub w) \<noteq> [])"
    and "length (hub_waits (tw_hub w)) \<le> MAX_ARMED_WAITS"
    and "distinct (map tap_id (hub_taps (tw_hub w)))"
    and "tap_id ` set (hub_taps (tw_hub w)) \<subseteq> fst ` set (tw_answers w)"
    and "distinct (map fst (tw_answers w))"
    and "\<And>i. i \<in> fst ` set (tw_answers w) \<Longrightarrow> i < tw_next w"
    and "\<And>c m. m \<in> set (tc_sent (te_chans (tw_env w) c)) \<Longrightarrow> msg_id m < tw_next w"
  shows "book_inv w"
  using assms unfolding book_inv_def by blast

lemma book_invD:
  assumes "book_inv w"
  shows "hub_active (tw_hub w) \<longleftrightarrow> \<not> hub_orphaned (tw_hub w) \<and>
        (hub_ring (tw_hub w) \<noteq> None \<or> hub_taps (tw_hub w) \<noteq> [] \<or> hub_waits (tw_hub w) \<noteq> [])"
    and "length (hub_waits (tw_hub w)) \<le> MAX_ARMED_WAITS"
    and "distinct (map tap_id (hub_taps (tw_hub w)))"
    and "tap_id ` set (hub_taps (tw_hub w)) \<subseteq> fst ` set (tw_answers w)"
    and "distinct (map fst (tw_answers w))"
    and "\<And>i. i \<in> fst ` set (tw_answers w) \<Longrightarrow> i < tw_next w"
    and "\<And>c m. m \<in> set (tc_sent (te_chans (tw_env w) c)) \<Longrightarrow> msg_id m < tw_next w"
  using assms unfolding book_inv_def by blast+

lemma less_succ: "(i :: u64) < n \<Longrightarrow> n < n + 1 \<Longrightarrow> i < n + 1"
  by (rule less_trans)

lemma run_book: "tap_run eng w p s \<Longrightarrow> book_inv w"
proof (induction rule: tap_run.induct)
  case (Start env nxt endpoint cap epoch)
  then show ?case
    by (intro book_invI) (auto simp: tap_start_def hub_new_def MAX_ARMED_WAITS_def)
next
  case (Mirror w p s chunk)
  then show ?case by (simp add: book_inv_def mirror_def)
next
  case (Skipped w p s n)
  then show ?case by (simp add: book_inv_def skipped_def)
next
  case (Task w p s chunk rest f env)
  obtain h where h: "ingest eng chunk (tw_hub w) (tw_env w) = Some (h, env)"
    and f: "f = (tw_feed w)\<lparr>feed_hub := h, feed_queue := rest\<rparr>"
    using Task.hyps by (auto simp: hub_task_def split: option.splits)
  note inv = book_invD [OF Task.IH]
  from h obtain ring ring_gap taps env1 waits ends where
    o: "offer_taps chunk (hub_ingested (tw_hub w)) (gap_before (tw_hub w)) (hub_taps (tw_hub w)) (tw_env w) = (taps, env1)"
    and fw: "feed_waits eng chunk (gap_before (tw_hub w)) (hub_epoch (tw_hub w)) (hub_waits (tw_hub w)) (te_ends env1) = Some (waits, ends)"
    and h': "h = refresh_active ((tw_hub w)\<lparr>hub_feed_dropped_seen := hub_feed_dropped (tw_hub w), hub_ring := ring,
       hub_ring_gap := ring_gap, hub_taps := taps, hub_waits := waits,
       hub_ingested := hub_ingested (tw_hub w) + word_of_nat (length chunk)\<rparr>)"
    and env: "env = env1\<lparr>te_ends := ends\<rparr>"
    by (rule ingestE)
  note sub = offer_taps_subset [OF o inv(3)]
  show ?case
  proof (rule book_invI, goal_cases)
    case 1
    show ?case by (simp add: f h' refresh_active_def)
  next
    case 2
    show ?case using feed_waits_length [OF fw] inv(2) by (simp add: f h')
  next
    case 3
    show ?case using sub by (simp add: f h')
  next
    case 4
    have "tap_id ` set taps \<subseteq> fst ` set (tw_answers w)" using sub inv(4) by blast
    then show ?case by (simp add: f h')
  next
    case 5
    show ?case using inv(5) by simp
  next
    case (6 i)
    then show ?case using inv(6) by simp
  next
    case (7 c m)
    then have "m \<in> set (tc_sent (te_chans env1 c))" by (simp add: env)
    from offer_taps_ids [OF o this] show ?case using inv(4,6,7) by auto
  qed
next
  case (Open w p s out replay reg h env)
  note inv = book_invD [OF Open.IH]
  from Open.hyps(3) obtain rb rt fo d' where
    rr: "register_replay (tw_next w) out 0 replay (tw_hub w) (tw_env w) = Some (rb, rt, fo, d', env)"
    and h: "h = refresh_active ((tw_hub w)\<lparr>hub_taps := hub_taps (tw_hub w) @
       [\<lparr>tap_id = tw_next w, tap_out = out, tap_terminal = None, tap_dropped = d'\<rparr>]\<rparr>)"
    by (rule registerE)
  have new: "tw_next w \<notin> fst ` set (tw_answers w)" using inv(6) by force
  show ?case
  proof (rule book_invI, goal_cases)
    case 1
    show ?case by (simp add: h refresh_active_def)
  next
    case (7 c m)
    then have "m \<in> set (tc_sent (te_chans (tw_env w) c)) \<or> msg_id m = tw_next w"
      using register_replay_env [OF rr] by simp
    then show ?case using inv(7) Open.hyps(2) less_succ by auto
  next
    case (6 i)
    then show ?case using inv(6) Open.hyps(2) less_succ by auto
  qed (use inv new in \<open>auto simp: h\<close>)
next
  case (Attach w p s i lane)
  have "map tap_id (attach_terminal_in i lane ts) = map tap_id ts" for ts by (induction ts) auto
  then have "map tap_id (attach_terminal_in i lane ts) = map tap_id ts"
    "tap_id ` set (attach_terminal_in i lane ts) = tap_id ` set ts"
    "attach_terminal_in i lane ts = [] \<longleftrightarrow> ts = []" for ts
    by (metis list.set_map, metis list.set_map, metis map_is_Nil_conv)
  with Attach.IH show ?case by (simp add: book_inv_def attach_terminal_def)
next
  case (CloseTap w p s i)
  note inv = book_invD [OF CloseTap.IH]
  show ?case
    by (rule book_invI)
      (use inv in \<open>auto simp: tap_close_def refresh_active_def distinct_map_filter image_subset_iff\<close>)
next
  case (Arm w p s matcher lookback ctx replay armed h)
  note inv = book_invD [OF Arm.IH]
  have "h = tw_hub w \<or> length (hub_waits (tw_hub w)) < MAX_ARMED_WAITS \<and>
      (\<exists>wait. h = refresh_active ((tw_hub w)\<lparr>hub_waits := hub_waits (tw_hub w) @ [wait]\<rparr>))"
    using Arm.hyps(4) by (auto simp: arm_wait_def Let_def split: if_splits option.splits)
  then show ?case
    by (elim disjE conjE exE; intro book_invI)
      (use inv Arm.hyps(2) less_succ in \<open>auto simp: refresh_active_def\<close>)
next
  case (Disarm w p s i)
  note inv = book_invD [OF Disarm.IH]
  show ?case
  proof (cases "position (\<lambda>w. aw_id w = i) (hub_waits (tw_hub w))")
    case None
    with Disarm.IH show ?thesis by (simp add: disarm_def book_inv_def)
  next
    case (Some pos)
    then show ?thesis
      by (intro book_invI) (use inv in \<open>auto simp: disarm_def refresh_active_def dest: position_SomeD\<close>)
  qed
next
  case (Detach w p s reason ids h env)
  note inv = book_invD [OF Detach.IH]
  have h: "h = (tw_hub w)\<lparr>hub_taps := [], hub_waits := [], hub_ring := None, hub_orphaned := True, hub_active := False\<rparr>"
    and env: "te_chans env = te_chans (send_closed (hub_endpoint (tw_hub w)) reason (hub_taps (tw_hub w)) (tw_env w))"
    using Detach.hyps(2) by (auto simp: detach_all_def Let_def)
  show ?case
  proof (rule book_invI, goal_cases)
    case (7 c m)
    then have "m \<in> set (tc_sent (te_chans (tw_env w) c)) \<or> msg_id m \<in> tap_id ` set (hub_taps (tw_hub w))"
      using send_closed_ids [of m "hub_endpoint (tw_hub w)" reason "hub_taps (tw_hub w)" "tw_env w" c] by (simp add: env)
    then show ?case using inv(4,6,7) by auto
  qed (use inv in \<open>auto simp: h\<close>)
next
  case (OtherId w p s)
  then show ?case using less_succ by (auto simp: book_inv_def)
next
  case (Elsewhere w p s m c)
  then show ?case by (auto simp: book_inv_def try_send_def split: if_splits)
next
  case (Receive w p s c)
  then show ?case by (auto simp: book_inv_def)
next
  case (HangUp w p s c)
  then show ?case by (auto simp: book_inv_def)
qed

section \<open>What a tap receives\<close>

text \<open>
  Messages that cover a stream from position \<open>a\<close> up to \<open>e\<close> except for \<open>lost\<close> bytes: in order, without
  overlap, each carrying the stream's own bytes at the offset it states.
\<close>

fun covers :: "byte list \<Rightarrow> nat \<Rightarrow> TapMsg list \<Rightarrow> nat \<Rightarrow> nat \<Rightarrow> bool" where
  "covers s a [] e lost \<longleftrightarrow> e = a + lost"
| "covers s a (TapData i b off g # ms) e lost \<longleftrightarrow>
     (\<exists>k \<le> lost. off = word_of_nat (a + k) \<and> a + k + length b \<le> length s \<and>
        b = take (length b) (drop (a + k) s) \<and> covers s (a + k + length b) ms e (lost - k))"
| "covers s a (TapClosed i ep r # ms) e lost \<longleftrightarrow> False"

lemma covers_stream: "covers s a ms e lost \<Longrightarrow> covers (s @ c) a ms e lost"
  by (induction s a ms e lost rule: covers.induct) fastforce+

lemma covers_snoc:
  "covers s a ms e lost \<Longrightarrow> e + length b \<le> length s \<Longrightarrow> b = take (length b) (drop e s) \<Longrightarrow>
     covers s a (ms @ [TapData i b (word_of_nat e) g]) (e + length b) lost"
  by (induction s a ms e lost rule: covers.induct) fastforce+

lemma covers_lose: "covers s a ms e lost \<Longrightarrow> covers s a ms (e + n) (lost + n)"
proof (induction s a ms e lost rule: covers.induct)
  case (2 s a i b off g ms e lost)
  then obtain k where k: "k \<le> lost" "off = word_of_nat (a + k)" "a + k + length b \<le> length s"
    "b = take (length b) (drop (a + k) s)" "covers s (a + k + length b) ms e (lost - k)" by auto
  from 2 k have "covers s (a + k + length b) ms (e + n) (lost - k + n)" by blast
  moreover have "lost - k + n = lost + n - k" using k(1) by simp
  ultimately show ?case using k by (auto intro!: exI [of _ k])
qed simp_all

lemma covers_exact:
  "covers s a ms e 0 \<Longrightarrow> a \<le> e \<and> concat (map msg_bytes ms) = take (e - a) (drop a s)"
proof (induction ms arbitrary: a)
  case (Cons m ms)
  then obtain i b off g where m: "m = TapData i b off g" by (cases m) auto
  with Cons have c: "b = take (length b) (drop a s)" "covers s (a + length b) ms e 0" by auto
  from Cons.IH [OF c(2)] have "a + length b \<le> e"
    "concat (map msg_bytes ms) = take (e - (a + length b)) (drop (length b) (drop a s))"
    by (auto simp: add.commute)
  moreover have "take (length b) (drop a s) @ take (e - (a + length b)) (drop (length b) (drop a s)) = take (e - a) (drop a s)"
    using \<open>a + length b \<le> e\<close> take_add [of "length b" "e - (a + length b)" "drop a s"] by simp
  ultimately show ?case using c(1) m by simp
qed simp

lemma covers_total: "covers s a ms e lost \<Longrightarrow> e = a + length (concat (map msg_bytes ms)) + lost"
proof (induction s a ms e lost rule: covers.induct)
  case (2 s a i b off g ms e lost)
  then obtain k where "k \<le> lost" "covers s (a + k + length b) ms e (lost - k)" by auto
  with "2.IH" [of k] show ?case using "2.prems" by auto
qed simp_all

lemma chan_capacity_sent:
  "chan_capacity (ch\<lparr>tc_sent := tc_sent ch @ [m]\<rparr>) \<ge> chan_capacity ch - 1"
  by (simp add: chan_capacity_def)

lemma send_pieces_covers:
  assumes "tc_open (te_chans env out)" and "length ps \<le> chan_capacity (te_chans env out)"
    and "covers s a (msgs_of i env out) off 0"
    and "off + length (concat ps) \<le> length s" and "concat ps = take (length (concat ps)) (drop off s)"
    and "send_pieces i out ps (word_of_nat off) rb d env = (rb', d', env')"
  shows "d' = d \<and> covers s a (msgs_of i env' out) (off + length (concat ps)) 0"
  using assms
proof (induction ps arbitrary: off rb env)
  case (Cons p ps)
  let ?m = "TapData i p (word_of_nat off) 0" and ?ch = "te_chans env out"
  let ?env = "env\<lparr>te_chans := (te_chans env)(out := ?ch\<lparr>tc_sent := tc_sent ?ch @ [?m]\<rparr>)\<rparr>"
  have send: "send_to out ?m env = (Ok (), ?env)"
    using Cons.prems(1,2) by (simp add: send_to_def try_send_def)
  have p: "p = take (length p) (drop off s)"
    using arg_cong [OF Cons.prems(5), of "take (length p)"] by simp
  have rest: "concat ps = take (length (concat ps)) (drop (off + length p) s)"
    using arg_cong [OF Cons.prems(5), of "drop (length p)"] by (simp add: drop_take add.commute)
  have "covers s a (msgs_of i ?env out) (off + length p) 0"
    using covers_snoc [OF Cons.prems(3), of p] Cons.prems(4) p by (simp add: msgs_of_def)
  moreover have "length ps \<le> chan_capacity (te_chans ?env out)"
    using Cons.prems(2) chan_capacity_sent [of ?ch ?m] by simp
  moreover have "send_pieces i out ps (word_of_nat (off + length p)) (rb + word_of_nat (length p)) d ?env = (rb', d', env')"
    using Cons.prems(6) send by (simp add: Let_def)
  ultimately show ?case
    using Cons.IH [of ?env "off + length p"] Cons.prems(1,4) rest by (simp add: add.assoc)
qed simp

lemma length_chunks_le: "0 < n \<Longrightarrow> length xs \<le> k * n \<Longrightarrow> length (chunks n xs) \<le> k"
proof (induction k arbitrary: xs)
  case (Suc k)
  show ?case
  proof (cases "xs = []")
    case False
    have "length (drop n xs) \<le> k * n" using Suc.prems(2) by simp
    with Suc.IH Suc.prems(1) have "length (chunks n (drop n xs)) \<le> k" by blast
    then show ?thesis using False Suc.prems(1) by (subst chunks.simps) simp
  qed simp
qed simp

lemma offer_taps_tap:
  "offer_taps chunk off gap taps env = (taps', env') \<Longrightarrow> distinct (map tap_id taps) \<Longrightarrow> t' \<in> set taps' \<Longrightarrow>
     \<exists>t \<in> set taps. tap_id t' = tap_id t \<and> tap_out t' = tap_out t \<and>
       (tap_dropped t' = tap_dropped t \<and>
          msgs_of (tap_id t) env' (tap_out t) =
            msgs_of (tap_id t) env (tap_out t) @ [TapData (tap_id t) chunk off gap] \<or>
        tap_dropped t' = tap_dropped t + word_of_nat (length chunk) \<and>
          msgs_of (tap_id t) env' (tap_out t) = msgs_of (tap_id t) env (tap_out t))"
proof (induction taps arbitrary: env taps' env')
  case (Cons t taps)
  obtain res env1 where s: "send_to (tap_out t) (TapData (tap_id t) chunk off gap) env = (res, env1)" by fastforce
  obtain rest where r: "offer_taps chunk off gap taps env1 = (rest, env')" using Cons.prems(1) s
    by (cases "offer_taps chunk off gap taps env1") simp
  have new: "tap_id t \<notin> tap_id ` set taps" using Cons.prems(2) by auto
  have other: "msgs_of i env1 c = msgs_of i env c" if "i \<noteq> tap_id t" for i c
    using send_to_msgs [OF s, of i c] that by simp
  have mine: "msgs_of (tap_id t) env' c = msgs_of (tap_id t) env1 c" for c
    using offer_taps_env [OF r] new by simp
  show ?case
  proof (cases "t' \<in> set rest")
    case True
    from Cons.IH [OF r _ True] Cons.prems(2) obtain u where u: "u \<in> set taps" "tap_id t' = tap_id u" "tap_out t' = tap_out u"
      "tap_dropped t' = tap_dropped u \<and> msgs_of (tap_id u) env' (tap_out u) =
          msgs_of (tap_id u) env1 (tap_out u) @ [TapData (tap_id u) chunk off gap] \<or>
       tap_dropped t' = tap_dropped u + word_of_nat (length chunk) \<and>
          msgs_of (tap_id u) env' (tap_out u) = msgs_of (tap_id u) env1 (tap_out u)" by auto
    moreover have "tap_id u \<noteq> tap_id t" using u(1) new by (metis imageI)
    ultimately show ?thesis using other by (intro bexI [of _ u]) auto
  next
    case False
    then have "res = Ok () \<and> t' = t \<or>
        res = Err SendFull \<and> t' = t\<lparr>tap_dropped := tap_dropped t + word_of_nat (length chunk)\<rparr>"
      using Cons.prems(1,3) s r by (auto split: sum.splits TrySendError.splits)
    then show ?thesis
      using mine send_to_msgs [OF s, of "tap_id t" "tap_out t"] by (intro bexI [of _ t]) auto
  qed
qed simp

text \<open>
  A tap whose channel is open has had, from the offset \<open>tap.open\<close> answered on, every byte the hub ingested
  except the ones its drop counter counts.
\<close>

definition tap_ok :: "(u64 \<times> Registered) list \<Rightarrow> tap_env \<Rightarrow> byte list \<Rightarrow> Tap \<Rightarrow> bool" where
  "tap_ok answers env s t \<longleftrightarrow> (tc_open (te_chans env (tap_out t)) \<longrightarrow>
     (\<exists>reg fo lost. (tap_id t, reg) \<in> set answers \<and> reg_from_offset reg = word_of_nat fo \<and>
        covers s fo (msgs_of (tap_id t) env (tap_out t)) (length s) lost \<and> tap_dropped t = word_of_nat lost))"

lemma tap_okI:
  assumes "tc_open (te_chans env (tap_out t)) \<Longrightarrow>
    \<exists>reg fo lost. (tap_id t, reg) \<in> set answers \<and> reg_from_offset reg = word_of_nat fo \<and>
        covers s fo (msgs_of (tap_id t) env (tap_out t)) (length s) lost \<and> tap_dropped t = word_of_nat lost"
  shows "tap_ok answers env s t"
  using assms unfolding tap_ok_def by blast

lemma tap_ok_frame:
  assumes "tap_ok answers env s t" and "set answers \<subseteq> set answers'"
    and "tc_open (te_chans env' (tap_out t)) \<Longrightarrow> tc_open (te_chans env (tap_out t))"
    and "msgs_of (tap_id t) env' (tap_out t) = msgs_of (tap_id t) env (tap_out t)"
    and "tap_id t' = tap_id t" "tap_out t' = tap_out t" "tap_dropped t' = tap_dropped t"
  shows "tap_ok answers' env' s t'"
proof (rule tap_okI)
  assume "tc_open (te_chans env' (tap_out t'))"
  with assms obtain reg fo lost where "(tap_id t, reg) \<in> set answers'" "reg_from_offset reg = word_of_nat fo"
    "covers s fo (msgs_of (tap_id t) env (tap_out t)) (length s) lost" "tap_dropped t = word_of_nat lost"
    unfolding tap_ok_def by auto
  then show "\<exists>reg fo lost. (tap_id t', reg) \<in> set answers' \<and> reg_from_offset reg = word_of_nat fo \<and>
      covers s fo (msgs_of (tap_id t') env' (tap_out t')) (length s) lost \<and> tap_dropped t' = word_of_nat lost"
    unfolding assms(4-7) by blast
qed

lemma tap_ok_ingest:
  assumes "tap_ok answers env s t" and "tap_id t' = tap_id t" and "tap_out t' = tap_out t"
    and "tc_open (te_chans env' (tap_out t)) = tc_open (te_chans env (tap_out t))"
    and "tap_dropped t' = tap_dropped t \<and> msgs_of (tap_id t) env' (tap_out t) =
            msgs_of (tap_id t) env (tap_out t) @ [TapData (tap_id t) chunk (word_of_nat (length s)) gap] \<or>
         tap_dropped t' = tap_dropped t + word_of_nat (length chunk) \<and>
            msgs_of (tap_id t) env' (tap_out t) = msgs_of (tap_id t) env (tap_out t)"
  shows "tap_ok answers env' (s @ chunk) t'"
proof (rule tap_okI)
  assume "tc_open (te_chans env' (tap_out t'))"
  with assms obtain reg fo lost where reg: "(tap_id t, reg) \<in> set answers" "reg_from_offset reg = word_of_nat fo"
    and c: "covers s fo (msgs_of (tap_id t) env (tap_out t)) (length s) lost" and d: "tap_dropped t = word_of_nat lost"
    unfolding tap_ok_def by auto
  from c have c: "covers (s @ chunk) fo (msgs_of (tap_id t) env (tap_out t)) (length s) lost" by (rule covers_stream)
  from assms(5) show "\<exists>reg fo lost. (tap_id t', reg) \<in> set answers \<and> reg_from_offset reg = word_of_nat fo \<and>
      covers (s @ chunk) fo (msgs_of (tap_id t') env' (tap_out t')) (length (s @ chunk)) lost \<and>
      tap_dropped t' = word_of_nat lost"
  proof (elim disjE conjE, goal_cases)
    case 1
    then show ?case
      using covers_snoc [OF c, of chunk] reg d assms(2,3)
      by (intro exI [of _ reg] exI [of _ fo] exI [of _ lost]) simp
  next
    case 2
    then show ?case
      using covers_lose [OF c, of "length chunk"] reg d assms(2,3)
      by (intro exI [of _ reg] exI [of _ fo] exI [of _ "lost + length chunk"]) simp
  qed
qed

lemma register_replay_ok:
  assumes "register_replay i out 0 replay h env = Some (rb, rt, fo, d, env')"
    and "tc_open (te_chans env out)" and "msgs_of i env out = []"
    and "hub_ingested h = word_of_nat (length s)"
    and "\<And>r. hub_ring h = Some r \<Longrightarrow> ring_inv r \<and> retained r = last_n (ring_cap r) s"
  shows "\<exists>n. fo = word_of_nat n \<and> d = 0 \<and> covers s n (msgs_of i env' out) (length s) 0"
proof (cases "\<exists>r. replay \<and> hub_ring h = Some r")
  case False
  with assms show ?thesis by (auto simp: register_replay_def split: if_splits option.splits)
next
  case True
  then obtain r where r: "replay" "hub_ring h = Some r" by blast
  define snap where "snap = last_n (ring_cap r) s"
  define deliver where "deliver = min (length snap) (chan_capacity (te_chans env out) * REPLAY_PIECE)"
  define tail where "tail = drop (length snap - deliver) snap"
  have snap: "ring_snapshot r = Some snap" using snapshot_retained [of r] assms(5) [OF r(2)] by (simp add: snap_def)
  have tail: "tail = drop (length s - deliver) s" "length tail = deliver" "deliver \<le> length s"
    by (simp_all add: tail_def snap_def deliver_def last_n_def)
  have fo: "fo = word_of_nat (length s - deliver)"
    and ps: "send_pieces i out (chunks REPLAY_PIECE tail) (word_of_nat (length s - deliver)) 0 0 env = (rb, d, env')"
    using assms(1,4) r snap tail(3)
    by (auto simp: register_replay_def Let_def deliver_def [symmetric] tail_def [symmetric] of_nat_diff
        split: if_splits prod.splits)
  have "length (chunks REPLAY_PIECE tail) \<le> chan_capacity (te_chans env out)"
    by (rule length_chunks_le) (simp_all add: tail(2) REPLAY_PIECE_def deliver_def)
  from send_pieces_covers [OF assms(2) this _ _ _ ps, of s "length s - deliver"]
  show ?thesis using fo tail assms(3) by (intro exI [of _ "length s - deliver"]) (simp add: concat_chunks REPLAY_PIECE_def)
qed

definition taps_inv :: "'re tap_world \<Rightarrow> byte list \<Rightarrow> bool" where
  "taps_inv w s \<longleftrightarrow> list_all (tap_ok (tw_answers w) (tw_env w) s) (hub_taps (tw_hub w))"

lemma taps_inv_frame:
  assumes "taps_inv w s" and "set (tw_answers w) \<subseteq> set (tw_answers w')"
    and "\<And>c. tc_open (te_chans (tw_env w') c) \<Longrightarrow> tc_open (te_chans (tw_env w) c)"
    and "\<And>t c. t \<in> set (hub_taps (tw_hub w)) \<Longrightarrow> msgs_of (tap_id t) (tw_env w') c = msgs_of (tap_id t) (tw_env w) c"
    and "set (hub_taps (tw_hub w')) \<subseteq> set (hub_taps (tw_hub w))"
  shows "taps_inv w' s"
  unfolding taps_inv_def list_all_iff
proof
  fix t assume "t \<in> set (hub_taps (tw_hub w'))"
  with assms(5) have t: "t \<in> set (hub_taps (tw_hub w))" by blast
  with assms(1) have "tap_ok (tw_answers w) (tw_env w) s t" by (simp add: taps_inv_def list_all_iff)
  then show "tap_ok (tw_answers w') (tw_env w') s t"
    by (rule tap_ok_frame) (use assms(2-4) t in auto)
qed

lemma attach_terminal_in_ok:
  "list_all (tap_ok a env s) ts \<Longrightarrow> list_all (tap_ok a env s) (attach_terminal_in i lane ts)"
  by (induction ts) (auto simp: tap_ok_def)

lemma msgs_of_try_send: "msg_id m \<noteq> i \<Longrightarrow>
    filter (\<lambda>m. msg_id m = i) (tc_sent (snd (try_send m ch))) = filter (\<lambda>m. msg_id m = i) (tc_sent ch)"
  by (simp add: try_send_def)

lemma run_taps: "tap_run eng w p s \<Longrightarrow> taps_inv w s"
proof (induction rule: tap_run.induct)
  case (Start env nxt endpoint cap epoch)
  show ?case by (simp add: taps_inv_def tap_start_def hub_new_def)
next
  case (Mirror w p s chunk)
  show ?case by (rule taps_inv_frame [OF Mirror.IH]) (simp_all add: mirror_def)
next
  case (Skipped w p s n)
  show ?case by (rule taps_inv_frame [OF Skipped.IH]) (simp_all add: skipped_def)
next
  case (Task w p s chunk rest f env)
  obtain h where h: "ingest eng chunk (tw_hub w) (tw_env w) = Some (h, env)"
    and f: "f = (tw_feed w)\<lparr>feed_hub := h, feed_queue := rest\<rparr>"
    using Task.hyps by (auto simp: hub_task_def split: option.splits)
  from h obtain ring ring_gap taps env1 waits ends where
    o: "offer_taps chunk (hub_ingested (tw_hub w)) (gap_before (tw_hub w)) (hub_taps (tw_hub w)) (tw_env w) = (taps, env1)"
    and h': "hub_taps h = taps" and env: "te_chans env = te_chans env1"
    by (rule ingestE) simp
  have off: "hub_ingested (tw_hub w) = word_of_nat (length s)"
    using hub_run_stream [OF Task.hyps(1)] by (simp add: stream_inv_def)
  have m: "msgs_of i env c = msgs_of i env1 c" for i c by (simp add: msgs_of_def env)
  have "tap_ok (tw_answers w) env (s @ chunk) t'" if "t' \<in> set taps" for t'
  proof -
    from offer_taps_tap [OF o book_invD(3) [OF run_book [OF Task.hyps(1)]] that] obtain t where
      t: "t \<in> set (hub_taps (tw_hub w))" "tap_id t' = tap_id t" "tap_out t' = tap_out t" and
      c: "tap_dropped t' = tap_dropped t \<and> msgs_of (tap_id t) env (tap_out t) =
            msgs_of (tap_id t) (tw_env w) (tap_out t) @
              [TapData (tap_id t) chunk (word_of_nat (length s)) (gap_before (tw_hub w))] \<or>
         tap_dropped t' = tap_dropped t + word_of_nat (length chunk) \<and>
            msgs_of (tap_id t) env (tap_out t) = msgs_of (tap_id t) (tw_env w) (tap_out t)"
      unfolding off m by blast
    have "tap_ok (tw_answers w) (tw_env w) s t" using Task.IH t(1) by (simp add: taps_inv_def list_all_iff)
    from tap_ok_ingest [OF this t(2,3) _ c] show ?thesis using offer_taps_env [OF o] by (simp add: env)
  qed
  then show ?case by (simp add: taps_inv_def list_all_iff f h')
next
  case (Open w p s out replay reg h env)
  note inv = book_invD [OF run_book [OF Open.hyps(1)]]
  from Open.hyps(3) obtain rb rt fo d' where
    rr: "register_replay (tw_next w) out 0 replay (tw_hub w) (tw_env w) = Some (rb, rt, fo, d', env)"
    and reg: "reg_from_offset reg = fo"
    and h: "hub_taps h = hub_taps (tw_hub w) @
       [\<lparr>tap_id = tw_next w, tap_out = out, tap_terminal = None, tap_dropped = d'\<rparr>]"
    by (rule registerE) simp
  note frame = register_replay_env [OF rr]
  have old: "tap_ok (tw_answers w @ [(tw_next w, reg)]) env s t" if t: "t \<in> set (hub_taps (tw_hub w))" for t
  proof -
    have "tap_ok (tw_answers w) (tw_env w) s t" using Open.IH t by (simp add: taps_inv_def list_all_iff)
    moreover have "tap_id t \<noteq> tw_next w" using inv(4,6) t by force
    ultimately show ?thesis by (elim tap_ok_frame) (use frame in auto)
  qed
  have none: "msgs_of (tw_next w) (tw_env w) out = []" using inv(7) by (force simp: msgs_of_def filter_empty_conv)
  have str: "hub_ingested (tw_hub w) = word_of_nat (length s)"
    "\<And>r. hub_ring (tw_hub w) = Some r \<Longrightarrow> ring_inv r \<and> retained r = last_n (ring_cap r) s"
    using hub_run_stream [OF Open.hyps(1)] by (simp_all add: stream_inv_def)
  have "tap_ok (tw_answers w @ [(tw_next w, reg)]) env s
      \<lparr>tap_id = tw_next w, tap_out = out, tap_terminal = None, tap_dropped = d'\<rparr>"
  proof (rule tap_okI, goal_cases)
    case 1
    then have "tc_open (te_chans (tw_env w) out)" using frame by simp
    from register_replay_ok [OF rr this none str] obtain n where
      n: "fo = word_of_nat n" "d' = 0" "covers s n (msgs_of (tw_next w) env out) (length s) 0" by blast
    show ?case by (intro exI [of _ reg] exI [of _ n] exI [of _ 0]) (simp add: n reg)
  qed
  with old show ?case by (simp add: taps_inv_def list_all_iff h)
next
  case (Attach w p s i lane)
  then show ?case by (simp add: taps_inv_def attach_terminal_def attach_terminal_in_ok)
next
  case (CloseTap w p s i)
  show ?case by (rule taps_inv_frame [OF CloseTap.IH]) (auto simp: tap_close_def)
next
  case (Arm w p s matcher lookback ctx replay armed h)
  show ?case by (rule taps_inv_frame [OF Arm.IH]) (simp_all add: arm_same [OF Arm.hyps(4)])
next
  case (Disarm w p s i)
  show ?case by (rule taps_inv_frame [OF Disarm.IH]) (simp_all add: disarm_same)
next
  case (Detach w p s reason ids h env)
  then show ?case by (simp add: taps_inv_def detach_same [OF Detach.hyps(2)])
next
  case (Receive w p s c)
  show ?case by (rule taps_inv_frame [OF Receive.IH]) (auto simp: msgs_of_def split: if_splits)
next
  case (HangUp w p s c)
  show ?case by (rule taps_inv_frame [OF HangUp.IH]) (auto simp: msgs_of_def split: if_splits)
next
  case (OtherId w p s)
  show ?case by (rule taps_inv_frame [OF OtherId.IH]) simp_all
next
  case (Elsewhere w p s m c)
  have "msg_id m \<noteq> tap_id t" if "t \<in> set (hub_taps (tw_hub w))" for t
    using book_invD(4) [OF run_book [OF Elsewhere.hyps(1)]] that Elsewhere.hyps(3) by auto
  then show ?case
    by (intro taps_inv_frame [OF Elsewhere.IH])
      (auto simp: msgs_of_def msgs_of_try_send try_send_def split: if_splits)
qed

end
