(* ===== verification/Tap_Waits.thy ===== *)
theory Tap_Waits
  imports Tap_Runs
begin

text \<open>
  Pattern waits in a run of a tap hub (\<open>daemon/src/tap.rs\<close> with \<open>daemon/src/pattern.rs\<close>): an armed wait's
  window holds a part of the ingested stream at the offset it believes it to be at, so that whatever it
  reports lies there, and no step of a run panics.
\<close>

section \<open>Windows over the ingested stream\<close>

definition wait_ok :: "'re engine \<Rightarrow> byte list \<Rightarrow> 're ArmedWait \<Rightarrow> bool" where
  "wait_ok eng s wt \<longleftrightarrow> engine_sound eng (sw_matcher (aw_scan wt)) \<and> aw_done wt \<and>
     (\<exists>k \<le> length s. window_at (drop k s) (word_of_nat k) (aw_scan wt))"

text \<open>A match found in the bytes of the stream from position \<open>k\<close> up to \<open>k + n\<close>, by one of the matchers.\<close>

definition found_in :: "'re engine \<Rightarrow> byte list \<Rightarrow> PatternMatch \<Rightarrow> bool" where
  "found_in eng s pm \<longleftrightarrow>
     (\<exists>k n d m ctx. k + n \<le> length s \<and> match_in eng m ctx (take n (drop k s)) (word_of_nat k) d pm)"

definition ends_ok :: "'re engine \<Rightarrow> byte list \<Rightarrow> (u64 \<times> WaitEnd) list \<Rightarrow> bool" where
  "ends_ok eng s ends \<longleftrightarrow> (\<forall>i pm acc. (i, Matched pm acc) \<in> set ends \<longrightarrow> found_in eng s pm)"

lemma found_in_suffix: "k \<le> length s \<Longrightarrow> match_in eng m ctx (drop k s) (word_of_nat k) d pm \<Longrightarrow> found_in eng s pm"
  unfolding found_in_def
  by (intro exI [of _ k] exI [of _ "length s - k"] exI [of _ d] exI [of _ m] exI [of _ ctx]) simp

lemma found_in_stream: "found_in eng s pm \<Longrightarrow> found_in eng (s @ c) pm"
proof -
  assume "found_in eng s pm"
  then obtain k n d m ctx where f: "k + n \<le> length s" "match_in eng m ctx (take n (drop k s)) (word_of_nat k) d pm"
    unfolding found_in_def by blast
  moreover have "take n (drop k (s @ c)) = take n (drop k s)" using f(1) by simp
  ultimately show ?thesis
    unfolding found_in_def
    by (intro exI [of _ k] exI [of _ n] exI [of _ d] exI [of _ m] exI [of _ ctx]) simp
qed

lemma ends_ok_stream: "ends_ok eng s ends \<Longrightarrow> ends_ok eng (s @ c) ends"
  unfolding ends_ok_def using found_in_stream by blast

text \<open>One chunk through one wait.\<close>

lemma wait_feed:
  assumes "wait_ok eng s wt"
  shows "\<exists>r scan. window_feed eng chunk gap (aw_scan wt) = Some (r, scan) \<and>
    (case r of
       None \<Rightarrow> wait_ok eng (s @ chunk) (wt\<lparr>aw_pending_gap_credit := 0, aw_scan := scan\<rparr>)
     | Some pm \<Rightarrow> found_in eng (s @ chunk) pm)"
proof -
  from assms obtain k where k: "k \<le> length s" "window_at (drop k s) (word_of_nat k) (aw_scan wt)"
    and sound: "engine_sound eng (sw_matcher (aw_scan wt))" and "aw_done wt"
    unfolding wait_ok_def by blast
  define j where "j = (if gap > 0 then length s else k)"
  have seg: "(if gap > 0 then chunk else drop k s @ chunk) = drop j (s @ chunk)"
    and sb: "(if gap > 0 then word_of_nat k + word_of_nat (length (drop k s)) else word_of_nat k) = (word_of_nat j :: u64)"
    and j: "j \<le> length (s @ chunk)"
    using k(1) by (auto simp: j_def of_nat_diff)
  from window_feed_spec [OF sound k(2), where gap = gap and chunk = chunk, unfolded seg sb]
  obtain r scan d where r: "window_feed eng chunk gap (aw_scan wt) = Some (r, scan)"
    "sw_matcher scan = sw_matcher (aw_scan wt)"
    "case r of None \<Rightarrow> window_at (drop j (s @ chunk)) (word_of_nat j) scan
     | Some pm \<Rightarrow> match_in eng (sw_matcher (aw_scan wt)) (sw_context (aw_scan wt)) (drop j (s @ chunk)) (word_of_nat j) d pm"
    by (auto split: option.splits)
  then show ?thesis
    using sound j \<open>aw_done wt\<close> found_in_suffix [OF j] by (cases r) (auto simp: wait_ok_def)
qed

lemma feed_waits_ok:
  assumes "list_all (wait_ok eng s) ws" and "ends_ok eng (s @ chunk) ends"
  shows "\<exists>ws' ends'. feed_waits eng chunk gap epoch ws ends = Some (ws', ends') \<and>
    list_all (wait_ok eng (s @ chunk)) ws' \<and> ends_ok eng (s @ chunk) ends'"
  using assms
proof (induction ws arbitrary: ends)
  case (Cons wt ws)
  from wait_feed [of eng s wt chunk "saturating_sub gap (aw_pending_gap_credit wt)"] Cons.prems(1)
  obtain r scan where r: "window_feed eng chunk (saturating_sub gap (aw_pending_gap_credit wt)) (aw_scan wt) = Some (r, scan)"
    "case r of None \<Rightarrow> wait_ok eng (s @ chunk) (wt\<lparr>aw_pending_gap_credit := 0, aw_scan := scan\<rparr>)
     | Some pm \<Rightarrow> found_in eng (s @ chunk) pm" by auto
  have rest: "list_all (wait_ok eng s) ws" using Cons.prems(1) by simp
  show ?case
  proof (cases r)
    case None
    from Cons.IH [OF rest Cons.prems(2)] obtain ws' ends' where
      "feed_waits eng chunk gap epoch ws ends = Some (ws', ends')" "list_all (wait_ok eng (s @ chunk)) ws'"
      "ends_ok eng (s @ chunk) ends'" by blast
    with None r show ?thesis by simp
  next
    case (Some pm)
    let ?acc = "wait_accounting epoch (wt\<lparr>aw_pending_gap_credit := 0, aw_scan := scan\<rparr>)"
    let ?ends = "if aw_done wt then ends @ [(aw_id wt, Matched pm ?acc)] else ends"
    have "ends_ok eng (s @ chunk) ?ends" using Cons.prems(2) r(2) Some by (auto simp: ends_ok_def)
    from Cons.IH [OF rest this] show ?thesis using Some r(1) by simp
  qed
qed simp

text \<open>The replay part of arming: the newest bytes of the stream, from the newest hole on.\<close>

lemma replay_window_stream:
  assumes "ring_inv r" and "retained r = last_n (ring_cap r) s" and "length s < 2 ^ 64"
    and "hub_ingested h = word_of_nat (length s)"
    and "\<And>at bytes. hub_ring_gap h = Some (at, bytes) \<Longrightarrow> unat at \<le> length s"
  shows "\<exists>k excluded. k \<le> length s \<and> replay_window r h = Some (drop k s, word_of_nat k, excluded)"
proof -
  define len where "len = min (ring_cap r) (length s)"
  define f where "f = length s - len"
  have snap: "ring_snapshot r = Some (drop f s)"
    using snapshot_retained [OF assms(1)] assms(2) by (simp add: last_n_def f_def len_def min_def)
  have len: "length (drop f s) = len" "f \<le> length s" by (simp_all add: f_def len_def)
  have small: "len < 2 ^ 64" "f < 2 ^ 64" "len \<le> length s" using assms(3) by (simp_all add: f_def len_def)
  then have le: "\<not> (word_of_nat len :: u64) > word_of_nat (length s)"
    using assms(3) by (simp add: word_less_nat_alt unat_of_nat)
  have from_: "word_of_nat (length s) - word_of_nat len = (word_of_nat f :: u64)"
    using small(3) by (simp add: f_def of_nat_diff)
  have w: "replay_window r h = (case hub_ring_gap h of
       Some (at, bytes) \<Rightarrow> if at > word_of_nat f
         then Some (drop (min (unat (at - word_of_nat f)) len) (drop f s), at, bytes) else Some (drop f s, word_of_nat f, 0)
     | None \<Rightarrow> Some (drop f s, word_of_nat f, 0))"
    unfolding replay_window_def snap option.case len(1) assms(4) using le by (simp add: from_ Let_def)
  show ?thesis
  proof (cases "\<exists>at bytes. hub_ring_gap h = Some (at, bytes) \<and> at > word_of_nat f")
    case False
    then have "replay_window r h = Some (drop f s, word_of_nat f, 0)" unfolding w by (auto split: option.splits)
    with len(2) show ?thesis by blast
  next
    case True
    then obtain at bytes where g: "hub_ring_gap h = Some (at, bytes)" "at > word_of_nat f" by blast
    then have a: "unat at \<le> length s" "f < unat at"
      using assms(5) small(2) by (simp_all add: word_less_nat_alt unat_of_nat)
    then have "unat (at - word_of_nat f) = unat at - f"
      using small(2) g(2) by (subst unat_sub) (simp_all add: unat_of_nat word_le_nat_alt)
    moreover have "unat at - f \<le> len" using a(1) by (simp add: f_def)
    ultimately have "replay_window r h = Some (drop (unat at) s, word_of_nat (unat at), bytes)"
      unfolding w using g a(2) by (simp add: min_def)
    with a(1) show ?thesis by blast
  qed
qed

lemma seed_spec:
  assumes "engine_sound eng m"
  shows "\<exists>r scan. window_seed eng seg sb excluded (scan_window_new m lookback ctx base) = Some (r, scan) \<and>
    sw_matcher scan = m \<and>
    (case r of None \<Rightarrow> window_at seg sb scan | Some pm \<Rightarrow> match_in eng m ctx seg sb 0 pm)"
proof -
  let ?fresh = "scan_window_new m lookback ctx base"
  define w where "w = (if excluded > 0
     then ?fresh\<lparr>sw_gaps := sw_gaps ?fresh + 1, sw_gap_bytes := saturating_add (sw_gap_bytes ?fresh) excluded\<rparr> else ?fresh)"
  let ?w = "w\<lparr>sw_base := sb, sw_buf := seg, sw_scanned := sw_scanned w + word_of_nat (length seg)\<rparr>"
  have f: "sw_matcher ?w = m" "sw_context ?w = ctx" "sw_buf ?w = drop 0 seg" "sw_base ?w = sb + word_of_nat 0"
    by (simp_all add: w_def scan_window_new_def)
  have "window_seed eng seg sb excluded ?fresh = scan_then_trim eng ?w"
    unfolding window_seed_def Let_def w_def by (rule refl)
  moreover have "\<exists>r w'. scan_then_trim eng ?w = Some (r, w') \<and> sw_matcher w' = m \<and>
      sw_lookback w' = sw_lookback ?w \<and> sw_context w' = ctx \<and>
      (case r of
         None \<Rightarrow> window_at seg sb w' \<and> re_find eng (m_re m) (drop 0 seg) = None
       | Some pm \<Rightarrow> match_in eng m ctx seg sb 0 pm)"
    using scan_then_trim_spec [of eng ?w 0 seg sb, unfolded f(1,2)] assms f(3,4) by blast
  then obtain r w' where "scan_then_trim eng ?w = Some (r, w')" "sw_matcher w' = m"
    "case r of None \<Rightarrow> window_at seg sb w' | Some pm \<Rightarrow> match_in eng m ctx seg sb 0 pm"
    by (auto split: option.splits)
  ultimately show ?thesis by auto
qed

lemma arm_seed_ok:
  assumes "engine_sound eng m" and "length s < 2 ^ 64" and "stream_inv w p s"
  shows "\<exists>hit scan fo n. arm_seed eng replay (scan_window_new m lookback ctx (hub_ingested (tw_hub w))) (tw_hub w) =
      Some (hit, scan, fo, n) \<and> sw_matcher scan = m \<and>
    (\<exists>k \<le> length s. fo = word_of_nat k \<and>
      (case hit of
         None \<Rightarrow> window_at (drop k s) (word_of_nat k) scan
       | Some pm \<Rightarrow> match_in eng m ctx (drop k s) (word_of_nat k) 0 pm))"
proof (cases "\<exists>r. replay \<and> hub_ring (tw_hub w) = Some r")
  case False
  then have "arm_seed eng replay (scan_window_new m lookback ctx (hub_ingested (tw_hub w))) (tw_hub w) =
      Some (None, scan_window_new m lookback ctx (hub_ingested (tw_hub w)), hub_ingested (tw_hub w), 0)"
    by (auto simp: arm_seed_def split: option.splits)
  moreover have "hub_ingested (tw_hub w) = word_of_nat (length s)" using assms(3) by (simp add: stream_inv_def)
  ultimately show ?thesis
    by (intro exI conjI) (auto simp: scan_window_new_def window_at_def last_n_def intro!: exI [of _ "length s"])
next
  case True
  then obtain r where r: "replay" "hub_ring (tw_hub w) = Some r" by blast
  have inv: "ring_inv r" "retained r = last_n (ring_cap r) s" "hub_ingested (tw_hub w) = word_of_nat (length s)"
    "\<And>at bytes. hub_ring_gap (tw_hub w) = Some (at, bytes) \<Longrightarrow> unat at \<le> length s"
    using assms(3) r(2) by (simp_all add: stream_inv_def)
  from replay_window_stream [OF inv(1,2) assms(2) inv(3)] inv(4) obtain k excluded where
    k: "k \<le> length s" "replay_window r (tw_hub w) = Some (drop k s, word_of_nat k, excluded)" by blast
  from seed_spec [OF assms(1), of "drop k s" "word_of_nat k" excluded lookback ctx "hub_ingested (tw_hub w)"]
  obtain hit scan where "window_seed eng (drop k s) (word_of_nat k) excluded
      (scan_window_new m lookback ctx (hub_ingested (tw_hub w))) = Some (hit, scan)" "sw_matcher scan = m"
    "case hit of None \<Rightarrow> window_at (drop k s) (word_of_nat k) scan
     | Some pm \<Rightarrow> match_in eng m ctx (drop k s) (word_of_nat k) 0 pm" by blast
  with r k show ?thesis by (auto simp: arm_seed_def)
qed

section \<open>Runs\<close>

definition waits_inv :: "'re engine \<Rightarrow> 're tap_world \<Rightarrow> byte list \<Rightarrow> bool" where
  "waits_inv eng w s \<longleftrightarrow>
     list_all (wait_ok eng s) (hub_waits (tw_hub w)) \<and> ends_ok eng s (te_ends (tw_env w))"

lemma hub_task_total:
  assumes "stream_inv w p s" and "waits_inv eng w s" and "feed_queue (tw_feed w) = chunk # rest"
  shows "\<exists>h env. hub_task eng (tw_feed w) (tw_env w) = Some ((tw_feed w)\<lparr>feed_hub := h, feed_queue := rest\<rparr>, env) \<and>
    list_all (wait_ok eng (s @ chunk)) (hub_waits h) \<and> ends_ok eng (s @ chunk) (te_ends env)"
proof -
  obtain ring ring_gap where ring: "ingest_ring chunk (tw_hub w) = Some (ring, ring_gap)"
    using assms(1) ingest_ring_stream [of "tw_hub w" s chunk] unfolding stream_inv_def by blast
  obtain taps env1 where o:
    "offer_taps chunk (hub_ingested (tw_hub w)) (gap_before (tw_hub w)) (hub_taps (tw_hub w)) (tw_env w) = (taps, env1)"
    by fastforce
  have "ends_ok eng (s @ chunk) (te_ends env1)"
    using assms(2) offer_taps_env [OF o] ends_ok_stream by (auto simp: waits_inv_def)
  with feed_waits_ok assms(2) obtain waits ends where fw:
    "feed_waits eng chunk (gap_before (tw_hub w)) (hub_epoch (tw_hub w)) (hub_waits (tw_hub w)) (te_ends env1) = Some (waits, ends)"
    "list_all (wait_ok eng (s @ chunk)) waits" "ends_ok eng (s @ chunk) ends"
    unfolding waits_inv_def by blast
  let ?h = "refresh_active ((tw_hub w)\<lparr>hub_feed_dropped_seen := hub_feed_dropped (tw_hub w), hub_ring := ring,
    hub_ring_gap := ring_gap, hub_taps := taps, hub_waits := waits,
    hub_ingested := hub_ingested (tw_hub w) + word_of_nat (length chunk)\<rparr>)"
  have "hub_task eng (tw_feed w) (tw_env w) =
      Some ((tw_feed w)\<lparr>feed_hub := ?h, feed_queue := rest\<rparr>, env1\<lparr>te_ends := ends\<rparr>)"
    using ring o assms(3) fw(1) by (simp add: hub_task_def ingest_def Let_def)
  then show ?thesis using fw(2,3) by (intro exI [of _ ?h] exI [of _ "env1\<lparr>te_ends := ends\<rparr>"]) simp
qed

lemma arm_wait_total:
  assumes "stream_inv w p s" and "length s < 2 ^ 64" and "engine_sound eng m"
  shows "\<exists>armed h. arm_wait eng i m lookback ctx replay (tw_hub w) = Some (armed, h) \<and>
    (\<forall>pm acc. armed = AlreadyMatched pm acc \<longrightarrow> found_in eng s pm) \<and>
    (list_all (wait_ok eng s) (hub_waits (tw_hub w)) \<longrightarrow> list_all (wait_ok eng s) (hub_waits h))"
proof -
  from arm_seed_ok [OF assms(3,2,1), of replay lookback ctx] obtain hit scan fo n k where
    seed: "arm_seed eng replay (scan_window_new m lookback ctx (hub_ingested (tw_hub w))) (tw_hub w) = Some (hit, scan, fo, n)"
    and scan: "sw_matcher scan = m" and k: "k \<le> length s"
      "case hit of None \<Rightarrow> window_at (drop k s) (word_of_nat k) scan
       | Some pm \<Rightarrow> match_in eng m ctx (drop k s) (word_of_nat k) 0 pm"
    by blast
  show ?thesis
  proof (cases hit)
    case None
    with k scan assms(3) seed show ?thesis by (auto simp: arm_wait_def Let_def wait_ok_def)
  next
    case (Some pm)
    with k found_in_suffix [OF k(1)] have "found_in eng s pm" by auto
    with Some seed show ?thesis by (auto simp: arm_wait_def Let_def)
  qed
qed

lemma send_closed_ends: "te_ends (send_closed ep reason taps env) = te_ends env"
proof (induction taps arbitrary: env)
  case (Cons t taps)
  obtain res env1 where s: "send_to (tap_out t) (TapClosed (tap_id t) ep (close_reason_str reason)) env = (res, env1)"
    by fastforce
  with send_to_simps [OF s] Cons.IH show ?case
    by (auto simp: Let_def split: sum.splits TrySendError.splits option.splits)
qed simp

lemma waits_inv_frame:
  "waits_inv eng w s \<Longrightarrow> set (hub_waits (tw_hub w')) \<subseteq> set (hub_waits (tw_hub w)) \<Longrightarrow>
     te_ends (tw_env w') = te_ends (tw_env w) \<Longrightarrow> waits_inv eng w' s"
  by (auto simp: waits_inv_def list_all_iff)

lemma run_waits: "tap_run eng w p s \<Longrightarrow> length s < 2 ^ 64 \<Longrightarrow> waits_inv eng w s"
proof (induction rule: tap_run.induct)
  case (Start env nxt endpoint cap epoch)
  then show ?case by (simp add: waits_inv_def tap_start_def hub_new_def ends_ok_def)
next
  case (Mirror w p s chunk)
  show ?case by (rule waits_inv_frame [OF Mirror.IH [OF Mirror.prems]]) (simp_all add: mirror_def)
next
  case (Skipped w p s n)
  show ?case by (rule waits_inv_frame [OF Skipped.IH [OF Skipped.prems]]) (simp_all add: skipped_def)
next
  case (Task w p s chunk rest f env)
  have "waits_inv eng w s" using Task.IH Task.prems by simp
  from hub_task_total [OF hub_run_stream [OF Task.hyps(1)] this Task.hyps(2)] Task.hyps(3)
  show ?case by (auto simp: waits_inv_def)
next
  case (Open w p s out replay reg h env)
  from Open.hyps(3) obtain rb rt fo d' where
    "register_replay (tw_next w) out 0 replay (tw_hub w) (tw_env w) = Some (rb, rt, fo, d', env)"
    by (rule registerE)
  from register_replay_env [OF this] register_same [OF Open.hyps(3)] show ?case
    by (intro waits_inv_frame [OF Open.IH [OF Open.prems]]) simp_all
next
  case (Attach w p s i lane)
  show ?case by (rule waits_inv_frame [OF Attach.IH [OF Attach.prems]]) (simp_all add: close_same)
next
  case (CloseTap w p s i)
  show ?case by (rule waits_inv_frame [OF CloseTap.IH [OF CloseTap.prems]]) (simp_all add: close_same)
next
  case (Arm w p s matcher lookback ctx replay armed h)
  from arm_wait_total [OF hub_run_stream [OF Arm.hyps(1)] Arm.prems Arm.hyps(3),
      of "tw_next w" lookback ctx replay] Arm.hyps(4) Arm.IH [OF Arm.prems]
  show ?case by (simp add: waits_inv_def)
next
  case (Disarm w p s i)
  have "set (hub_waits (snd (disarm i (tw_hub w)))) \<subseteq> set (hub_waits (tw_hub w))"
    using set_take_subset set_drop_subset by (fastforce simp: disarm_def split: option.splits)
  then show ?case by (intro waits_inv_frame [OF Disarm.IH [OF Disarm.prems]]) simp_all
next
  case (Detach w p s reason ids h env)
  have e: "hub_waits h = []" "set (te_ends env) \<subseteq> set (te_ends (tw_env w)) \<union> {x. \<forall>m a. snd x \<noteq> Matched m a}"
    using Detach.hyps(2) by (auto simp: detach_all_def Let_def send_closed_ends)
  have "ends_ok eng s (te_ends env)"
    using Detach.IH [OF Detach.prems] e(2) unfolding waits_inv_def ends_ok_def by fastforce
  then show ?case by (simp add: waits_inv_def e(1))
next
  case (Receive w p s c)
  show ?case by (rule waits_inv_frame [OF Receive.IH [OF Receive.prems]]) simp_all
next
  case (HangUp w p s c)
  show ?case by (rule waits_inv_frame [OF HangUp.IH [OF HangUp.prems]]) simp_all
next
  case (OtherId w p s)
  show ?case by (rule waits_inv_frame [OF OtherId.IH [OF OtherId.prems]]) simp_all
next
  case (Elsewhere w p s m c)
  show ?case by (rule waits_inv_frame [OF Elsewhere.IH [OF Elsewhere.prems]]) simp_all
qed

lemma register_total:
  assumes "stream_inv w p s" and "length s < 2 ^ 64"
  shows "register i out d replay (tw_hub w) env \<noteq> None"
proof (cases "\<exists>r. replay \<and> hub_ring (tw_hub w) = Some r")
  case False
  then show ?thesis by (auto simp: register_def register_replay_def split: option.splits)
next
  case True
  then obtain r where r: "replay" "hub_ring (tw_hub w) = Some r" by blast
  with assms(1) have snap: "ring_snapshot r = Some (last_n (ring_cap r) s)"
    using snapshot_retained [of r] by (simp add: stream_inv_def)
  have i: "hub_ingested (tw_hub w) = word_of_nat (length s)" using assms(1) by (simp add: stream_inv_def)
  have "\<not> (word_of_nat n :: u64) > word_of_nat (length s)" if "n \<le> length s" for n
    using that assms(2) by (simp add: word_less_nat_alt unat_of_nat)
  from this [of "min (length (last_n (ring_cap r) s)) (chan_capacity (te_chans env out) * REPLAY_PIECE)"]
  show ?thesis
    unfolding register_def register_replay_def r(2) i option.case snap
    by (simp add: r(1) Let_def split: prod.split)
qed

section \<open>What the hub promises\<close>

text \<open>
  C21: whatever the interleaving of producers, the hub's task, the control verbs and the connections, the
  hub stays well formed: its producers' flag says whether a ring, a tap or a wait is listening to a hub
  that is not orphaned; the waits and the feed keep within their maxima; every byte produced is ingested,
  queued in the feed or counted in \<open>feed_dropped\<close>; the offset is the number of bytes ingested; and the
  ring's snapshot is the newest bytes of the stream.
\<close>

theorem tap_hub_invariant:
  assumes "tap_run eng w p s"
  shows "(hub_active (tw_hub w) \<longleftrightarrow> \<not> hub_orphaned (tw_hub w) \<and>
       (hub_ring (tw_hub w) \<noteq> None \<or> hub_taps (tw_hub w) \<noteq> [] \<or> hub_waits (tw_hub w) \<noteq> [])) \<and>
    length (hub_waits (tw_hub w)) \<le> MAX_ARMED_WAITS \<and> length (feed_queue (tw_feed w)) \<le> TAP_FEED_CAP \<and>
    distinct (map tap_id (hub_taps (tw_hub w))) \<and>
    (\<exists>lost. p = length s + length (concat (feed_queue (tw_feed w))) + lost \<and>
       hub_feed_dropped (tw_hub w) = word_of_nat lost) \<and>
    hub_ingested (tw_hub w) = word_of_nat (length s) \<and>
    (\<forall>r. hub_ring (tw_hub w) = Some r \<longrightarrow> ring_snapshot r = Some (last_n (ring_cap r) s))"
  using hub_run_stream [OF assms] book_invD(1-3) [OF run_book [OF assms]] snapshot_retained
  unfolding stream_inv_def queued_def by auto

lemma covers_msg:
  "covers s a ms e lost \<Longrightarrow> m \<in> set ms \<Longrightarrow>
     \<exists>j. msg_offset m = word_of_nat j \<and> j + length (msg_bytes m) \<le> length s \<and>
         msg_bytes m = take (length (msg_bytes m)) (drop j s)"
proof (induction s a ms e lost rule: covers.induct)
  case (2 s a i b off g ms e lost)
  from "2.prems"(1) obtain k where k: "off = word_of_nat (a + k)" "a + k + length b \<le> length s"
    "b = take (length b) (drop (a + k) s)" "covers s (a + k + length b) ms e (lost - k)" unfolding covers.simps by blast
  show ?case
  proof (cases "m = TapData i b off g")
    case True
    with k(1-3) show ?thesis by (intro exI [of _ "a + k"]) simp
  next
    case False
    with "2.prems"(2) "2.IH" [OF k(4)] show ?thesis by simp
  qed
qed simp_all

text \<open>
  C22: the exact splice. A tap whose connection is there has been sent, from the offset \<open>tap.open\<close> answered
  up to the live edge, every byte the hub ingested, in order and each message at the offset it states,
  except for exactly as many bytes as its drop counter shows: with a counter of zero the replay and the
  live messages concatenate to the stream itself.
\<close>

theorem tap_delivery_exact:
  assumes "tap_run eng w p s" and "length s < 2 ^ 64"
    and "t \<in> set (hub_taps (tw_hub w))" and "tc_open (te_chans (tw_env w) (tap_out t))"
  shows "\<exists>reg. (tap_id t, reg) \<in> set (tw_answers w) \<and>
    unat (reg_from_offset reg) + length (concat (map msg_bytes (msgs_of (tap_id t) (tw_env w) (tap_out t)))) +
      unat (tap_dropped t) = length s \<and>
    (tap_dropped t = 0 \<longrightarrow>
       concat (map msg_bytes (msgs_of (tap_id t) (tw_env w) (tap_out t))) = drop (unat (reg_from_offset reg)) s) \<and>
    (\<forall>m \<in> set (msgs_of (tap_id t) (tw_env w) (tap_out t)).
       msg_bytes m = take (length (msg_bytes m)) (drop (unat (msg_offset m)) s))"
proof -
  let ?ms = "msgs_of (tap_id t) (tw_env w) (tap_out t)"
  from run_taps [OF assms(1)] assms(3,4) obtain reg fo lost where
    reg: "(tap_id t, reg) \<in> set (tw_answers w)" "reg_from_offset reg = word_of_nat fo"
    and c: "covers s fo ?ms (length s) lost" and d: "tap_dropped t = word_of_nat lost"
    unfolding taps_inv_def list_all_iff tap_ok_def by blast
  have sum: "length s = fo + length (concat (map msg_bytes ?ms)) + lost" by (rule covers_total [OF c])
  have fo: "unat (reg_from_offset reg) = fo" using reg(2) sum assms(2) by (simp add: unat_of_nat)
  have l: "unat (tap_dropped t) = lost" using d sum assms(2) by (simp add: unat_of_nat)
  have "concat (map msg_bytes ?ms) = drop fo s" if "tap_dropped t = 0"
    using covers_exact [of s fo ?ms "length s"] c that l by simp
  moreover have "msg_bytes m = take (length (msg_bytes m)) (drop (unat (msg_offset m)) s)" if "m \<in> set ?ms" for m
    using covers_msg [OF c that] assms(2) by (auto simp: unat_of_nat)
  ultimately show ?thesis
    using reg(1) sum [symmetric] unfolding fo [symmetric] l [symmetric] by (intro exI [of _ reg] conjI) blast+
qed

text \<open>
  C23: no step of a run panics: the hub's task ingests whatever is queued, \<open>tap.open\<close> and \<open>tap.wait\<close>
  answer, and every match a wait reports, at once from the ring or later, is a range the engine found in
  the ingested stream, reported at the stream's own offsets.
\<close>

theorem tap_waits_report_the_stream:
  assumes "tap_run eng w p s" and "length s < 2 ^ 64"
  shows "hub_task eng (tw_feed w) (tw_env w) \<noteq> None \<and>
    register i out d replay (tw_hub w) (tw_env w) \<noteq> None \<and>
    (\<forall>m. engine_sound eng m \<longrightarrow>
       (\<exists>armed h. arm_wait eng i m lookback ctx replay (tw_hub w) = Some (armed, h) \<and>
          (\<forall>pm acc. armed = AlreadyMatched pm acc \<longrightarrow> found_in eng s pm))) \<and>
    (\<forall>j pm acc. (j, Matched pm acc) \<in> set (te_ends (tw_env w)) \<longrightarrow> found_in eng s pm)"
proof (intro conjI allI impI)
  note str = hub_run_stream [OF assms(1)] and wts = run_waits [OF assms]
  show "hub_task eng (tw_feed w) (tw_env w) \<noteq> None"
  proof (cases "feed_queue (tw_feed w)")
    case (Cons chunk rest)
    from hub_task_total [OF str wts Cons] show ?thesis by auto
  qed (simp add: hub_task_def)
  show "register i out d replay (tw_hub w) (tw_env w) \<noteq> None" by (rule register_total [OF str assms(2)])
  show "\<exists>armed h. arm_wait eng i m lookback ctx replay (tw_hub w) = Some (armed, h) \<and>
      (\<forall>pm acc. armed = AlreadyMatched pm acc \<longrightarrow> found_in eng s pm)" if "engine_sound eng m" for m
    using arm_wait_total [OF str assms(2) that] by blast
  show "found_in eng s pm" if "(j, Matched pm acc) \<in> set (te_ends (tw_env w))" for j pm acc
    using wts that by (auto simp: waits_inv_def ends_ok_def)
qed

text \<open>The notice of a detach: in the tap's channel, or in the connection's overflow lane.\<close>

definition after_closed :: "string \<Rightarrow> TapCloseReason \<Rightarrow> Tap \<Rightarrow> tap_env \<Rightarrow> tap_env" where
  "after_closed ep reason t env =
     (let closed = TapClosed (tap_id t) ep (close_reason_str reason)
      in case send_to (tap_out t) closed env of
           (Inl SendFull, env) \<Rightarrow>
             (case tap_terminal t of
                None \<Rightarrow> env
              | Some lane \<Rightarrow> env\<lparr>te_lanes := (te_lanes env)(lane := te_lanes env lane @ [closed])\<rparr>)
         | (_, env) \<Rightarrow> env)"

lemma send_closed_Cons: "send_closed ep reason (t # ts) env = send_closed ep reason ts (after_closed ep reason t env)"
  by (auto simp: after_closed_def Let_def split: prod.splits sum.splits TrySendError.splits)

lemma after_closed_grows:
  "x \<in> set (tc_sent (te_chans env c)) \<Longrightarrow> x \<in> set (tc_sent (te_chans (after_closed ep reason t env) c))"
  "y \<in> set (te_lanes env l) \<Longrightarrow> y \<in> set (te_lanes (after_closed ep reason t env) l)"
  "tc_open (te_chans (after_closed ep reason t env) c) = tc_open (te_chans env c)"
  by (auto simp: after_closed_def send_to_def try_send_def Let_def split: option.splits)

lemma after_closed_tells:
  "tc_open (te_chans env (tap_out t)) \<Longrightarrow> tap_terminal t = Some lane \<Longrightarrow>
     TapClosed (tap_id t) ep (close_reason_str reason) \<in>
       set (tc_sent (te_chans (after_closed ep reason t env) (tap_out t))) \<union> set (te_lanes (after_closed ep reason t env) lane)"
  by (auto simp: after_closed_def send_to_def try_send_def Let_def)

lemma send_closed_grows:
  "(x \<in> set (tc_sent (te_chans env c)) \<longrightarrow> x \<in> set (tc_sent (te_chans (send_closed ep reason ts env) c))) \<and>
   (y \<in> set (te_lanes env l) \<longrightarrow> y \<in> set (te_lanes (send_closed ep reason ts env) l))"
  by (induction ts arbitrary: env) (auto simp: send_closed_Cons after_closed_grows simp del: send_closed.simps(2))

lemma send_closed_tells:
  "t \<in> set ts \<Longrightarrow> tc_open (te_chans env (tap_out t)) \<Longrightarrow> tap_terminal t = Some lane \<Longrightarrow>
     TapClosed (tap_id t) ep (close_reason_str reason) \<in>
       set (tc_sent (te_chans (send_closed ep reason ts env) (tap_out t))) \<union> set (te_lanes (send_closed ep reason ts env) lane)"
proof (induction ts arbitrary: env)
  case (Cons u ts)
  show ?case
  proof (cases "u = t")
    case True
    with after_closed_tells [OF Cons.prems(2,3), of ep reason] send_closed_grows
    show ?thesis unfolding send_closed_Cons by (metis Un_iff)
  next
    case False
    with Cons.prems have "t \<in> set ts" by simp
    from Cons.IH [OF this, of "after_closed ep reason u env"] Cons.prems(2,3) show ?thesis
      unfolding send_closed_Cons after_closed_grows(3) by blast
  qed
qed simp

text \<open>Whatever is done to a hub: by the verbs, by its task, and by the producers that feed it.\<close>

inductive hub_step :: "'re engine \<Rightarrow> 're TapHub \<Rightarrow> 're TapHub \<Rightarrow> bool" for eng :: "'re engine" where
  registers: "register i out d replay h env = Some (reg, h', env') \<Longrightarrow> hub_step eng h h'"
| attaches: "hub_step eng h (attach_terminal i lane h)"
| closes: "hub_step eng h (tap_close i h)"
| arms: "arm_wait eng i m lookback ctx replay h = Some (armed, h') \<Longrightarrow> hub_step eng h h'"
| disarms: "hub_step eng h (snd (disarm i h))"
| detaches: "detach_all reason h env = (ids, h', env') \<Longrightarrow> hub_step eng h h'"
| ingests: "ingest eng chunk h env = Some (h', env') \<Longrightarrow> hub_step eng h h'"
| mirrors: "hub_step eng h (feed_hub (mirror chunk \<lparr>feed_hub = h, feed_queue = q\<rparr>))"
| skips: "hub_step eng h (feed_hub (skipped n \<lparr>feed_hub = h, feed_queue = q\<rparr>))"

lemma hub_step_orphaned:
  assumes "hub_step eng h h'" and "hub_orphaned h" and "\<not> hub_active h"
  shows "hub_orphaned h' \<and> \<not> hub_active h'"
  using assms
proof (cases rule: hub_step.cases)
  case registers
  then show ?thesis using assms by (auto elim!: registerE simp: refresh_active_def)
next
  case arms
  then show ?thesis using assms
    by (auto simp: arm_wait_def refresh_active_def Let_def split: if_splits option.splits prod.splits)
next
  case ingests
  then show ?thesis using assms
    by (auto simp: ingest_def refresh_active_def Let_def split: if_splits option.splits prod.splits)
qed (auto simp: attach_terminal_def tap_close_def disarm_def detach_all_def mirror_def skipped_def refresh_active_def Let_def
    split: option.splits)

lemma hub_steps_orphaned:
  "(hub_step eng)\<^sup>*\<^sup>* h h' \<Longrightarrow> hub_orphaned h \<Longrightarrow> \<not> hub_active h \<Longrightarrow> hub_orphaned h' \<and> \<not> hub_active h'"
  by (induction rule: rtranclp_induct) (auto dest: hub_step_orphaned)

text \<open>
  C24: a detach tells everyone. Every tap whose connection is open and has an overflow lane gets its notice, in its
  channel or, when that is full, in the lane; every armed wait is settled as closed, with its accounting; the hub
  forgets both and is inactive from then on, whatever verbs, chunks and feeds still reach it, a late \<open>tap.open\<close>
  or a new wait included: its producers queue nothing and what they produce is counted.
\<close>

theorem detach_all_tells_everyone:
  assumes "tap_run eng w p s" and "length s < 2 ^ 64"
    and "detach_all reason (tw_hub w) (tw_env w) = (ids, h, env)"
  shows "(\<forall>t lane. t \<in> set (hub_taps (tw_hub w)) \<and> tc_open (te_chans (tw_env w) (tap_out t)) \<and>
        tap_terminal t = Some lane \<longrightarrow>
        TapClosed (tap_id t) (hub_endpoint (tw_hub w)) (close_reason_str reason) \<in>
          set (tc_sent (te_chans env (tap_out t))) \<union> set (te_lanes env lane)) \<and>
    te_ends env = te_ends (tw_env w) @
      map (\<lambda>wt. (aw_id wt, WaitClosed reason (wait_accounting (hub_epoch (tw_hub w)) wt))) (hub_waits (tw_hub w)) \<and>
    hub_taps h = [] \<and> hub_waits h = [] \<and>
    (\<forall>h'. (hub_step eng)\<^sup>*\<^sup>* h h' \<longrightarrow> \<not> hub_active h' \<and>
       (\<forall>chunk q. mirror chunk \<lparr>feed_hub = h', feed_queue = q\<rparr> =
          \<lparr>feed_hub = h'\<lparr>hub_feed_dropped := hub_feed_dropped h' + word_of_nat (length chunk)\<rparr>, feed_queue = q\<rparr>))"
proof -
  have "filter aw_done (hub_waits (tw_hub w)) = hub_waits (tw_hub w)"
    using run_waits [OF assms(1,2)] by (auto simp: waits_inv_def list_all_iff wait_ok_def)
  with assms(3) have env: "te_ends env = te_ends (tw_env w) @
      map (\<lambda>wt. (aw_id wt, WaitClosed reason (wait_accounting (hub_epoch (tw_hub w)) wt))) (hub_waits (tw_hub w))"
    "te_chans env = te_chans (send_closed (hub_endpoint (tw_hub w)) reason (hub_taps (tw_hub w)) (tw_env w))"
    "te_lanes env = te_lanes (send_closed (hub_endpoint (tw_hub w)) reason (hub_taps (tw_hub w)) (tw_env w))"
    by (auto simp: detach_all_def Let_def send_closed_ends)
  have h: "hub_taps h = []" "hub_waits h = []" "hub_orphaned h" "\<not> hub_active h"
    using assms(3) by (auto simp: detach_all_def Let_def)
  have "\<not> hub_active h' \<and> (\<forall>chunk q. mirror chunk \<lparr>feed_hub = h', feed_queue = q\<rparr> =
          \<lparr>feed_hub = h'\<lparr>hub_feed_dropped := hub_feed_dropped h' + word_of_nat (length chunk)\<rparr>, feed_queue = q\<rparr>)"
    if "(hub_step eng)\<^sup>*\<^sup>* h h'" for h'
    using hub_steps_orphaned [OF that h(3,4)] by (simp add: mirror_def)
  with env h send_closed_tells show ?thesis by simp
qed

section \<open>A run\<close>

text \<open>
  A hub with a ring of four bytes: two bytes arrive, a tap opens, a wait is armed, two more
  bytes arrive.
\<close>

definition example_env :: tap_env where
  "example_env =
     \<lparr>te_chans = (\<lambda>c. \<lparr>tc_cap = 4, tc_sent = [], tc_taken = 0, tc_open = True\<rparr>), te_lanes = (\<lambda>l. []), te_ends = []\<rparr>"

definition produce :: "byte list \<Rightarrow> 're tap_world \<Rightarrow> 're tap_world" where
  "produce chunk w = w\<lparr>tw_feed := mirror chunk (tw_feed w)\<rparr>"

definition task :: "'re engine \<Rightarrow> 're tap_world \<Rightarrow> 're tap_world" where
  "task eng w = (case hub_task eng (tw_feed w) (tw_env w) of None \<Rightarrow> w | Some (f, env) \<Rightarrow> w\<lparr>tw_feed := f, tw_env := env\<rparr>)"

definition open_tap :: "nat \<Rightarrow> bool \<Rightarrow> 're tap_world \<Rightarrow> 're tap_world" where
  "open_tap out replay w =
     (case register (tw_next w) out 0 replay (tw_hub w) (tw_env w) of
        None \<Rightarrow> w
      | Some (reg, h, env) \<Rightarrow> set_hub h (w\<lparr>tw_env := env, tw_next := tw_next w + 1,
          tw_answers := tw_answers w @ [(tw_next w, reg)]\<rparr>))"

definition arm :: "'re engine \<Rightarrow> 're Matcher \<Rightarrow> 're tap_world \<Rightarrow> 're tap_world" where
  "arm eng m w =
     (case arm_wait eng (tw_next w) m 8 8 False (tw_hub w) of
        None \<Rightarrow> w | Some (armed, h) \<Rightarrow> set_hub h (w\<lparr>tw_next := tw_next w + 1\<rparr>))"

lemma run_produce: "tap_run eng w p s \<Longrightarrow> tap_run eng (produce chunk w) (p + length chunk) s"
  unfolding produce_def by (rule Mirror)

lemma run_task:
  assumes "tap_run eng w p s" and "length s < 2 ^ 64" and "feed_queue (tw_feed w) = chunk # rest"
  shows "tap_run eng (task eng w) p (s @ chunk)"
proof -
  from hub_task_total [OF hub_run_stream [OF assms(1)] run_waits [OF assms(1,2)] assms(3)]
  obtain f env where t: "hub_task eng (tw_feed w) (tw_env w) = Some (f, env)" by blast
  from Task [OF assms(1,3) t] show ?thesis by (simp add: task_def t)
qed

lemma run_open:
  assumes "tap_run eng w p s" and "length s < 2 ^ 64" and "tw_next w < tw_next w + 1"
  shows "tap_run eng (open_tap out replay w) p s"
proof -
  obtain reg h env where r: "register (tw_next w) out 0 replay (tw_hub w) (tw_env w) = Some (reg, h, env)"
    using register_total [OF hub_run_stream [OF assms(1)] assms(2), of "tw_next w" out 0 replay "tw_env w"] by auto
  from Open [OF assms(1,3) r] show ?thesis by (simp add: open_tap_def r)
qed

lemma run_arm:
  assumes "tap_run eng w p s" and "length s < 2 ^ 64" and "tw_next w < tw_next w + 1" and "engine_sound eng m"
  shows "tap_run eng (arm eng m w) p s"
proof -
  from arm_wait_total [OF hub_run_stream [OF assms(1)] assms(2,4), of "tw_next w" 8 8 False]
  obtain armed h where a: "arm_wait eng (tw_next w) m 8 8 False (tw_hub w) = Some (armed, h)" by blast
  from Arm [OF assms(1,3,4) a] show ?thesis by (simp add: arm_def a)
qed

definition example_world1 :: "byte list list tap_world" where
  "example_world1 = task literal_engine (produce [7, 1] (tap_start ''ep'' 4 5 example_env 1))"

definition example_world2 :: "byte list list tap_world" where
  "example_world2 = task literal_engine (produce [1, 2] (arm literal_engine example_matcher (open_tap 0 False example_world1)))"

lemma example_run1: "tap_run literal_engine example_world1 2 [7, 1]"
proof -
  have "tap_run literal_engine (tap_start ''ep'' 4 5 example_env 1) 0 []"
    by (rule Start) (simp_all add: example_env_def)
  from run_task [OF run_produce [OF this, of "[7, 1]"], of "[7, 1]" "[]"] show ?thesis
    by (simp add: example_world1_def produce_def mirror_def tap_start_def hub_new_def TAP_FEED_CAP_def numeral_2_eq_2)
qed

lemma example_world2_parts:
  "feed_queue (tw_feed (produce [1, 2] (arm literal_engine example_matcher (open_tap 0 False example_world1)))) = [[1, 2]]"
  "tw_next example_world1 < tw_next example_world1 + 1"
  "tw_next (open_tap 0 False example_world1) < tw_next (open_tap 0 False example_world1) + 1"
  "hub_taps (tw_hub example_world2) = [\<lparr>tap_id = 1, tap_out = 0, tap_terminal = None, tap_dropped = 0\<rparr>]"
  "tc_open (te_chans (tw_env example_world2) 0)"
  "map fst (te_ends (tw_env example_world2)) = [2]"
  "list_all (\<lambda>e. case snd e of Matched pm acc \<Rightarrow> True | _ \<Rightarrow> False) (te_ends (tw_env example_world2))"
  by code_simp+

lemma example_run2: "tap_run literal_engine example_world2 4 [7, 1, 1, 2]"
proof -
  have "tap_run literal_engine (open_tap 0 False example_world1) 2 [7, 1]"
    by (rule run_open [OF example_run1]) (simp_all add: example_world2_parts)
  then have "tap_run literal_engine (arm literal_engine example_matcher (open_tap 0 False example_world1)) 2 [7, 1]"
    by (rule run_arm) (simp_all add: example_world2_parts example_sound)
  from run_task [OF run_produce [OF this, of "[1, 2]"], of "[1, 2]" "[]"] show ?thesis
    by (simp add: example_world2_def example_world2_parts)
qed

theorem tap_hub_invariant_witness:
  "tap_run literal_engine example_world2 4 [7, 1, 1, 2] \<and> hub_ingested (tw_hub example_world2) = 4 \<and>
   length (hub_waits (tw_hub example_world2)) \<le> MAX_ARMED_WAITS"
  using example_run2 tap_hub_invariant [OF example_run2] by simp

theorem tap_delivery_exact_witness:
  "\<exists>reg. (1, reg) \<in> set (tw_answers example_world2) \<and>
     concat (map msg_bytes (msgs_of 1 (tw_env example_world2) 0)) = drop (unat (reg_from_offset reg)) [7, 1, 1, 2]"
  using tap_delivery_exact [OF example_run2, of "\<lparr>tap_id = 1, tap_out = 0, tap_terminal = None, tap_dropped = 0\<rparr>"]
    example_world2_parts(4,5) by auto

theorem tap_waits_report_the_stream_witness:
  "\<exists>pm acc. (2, Matched pm acc) \<in> set (te_ends (tw_env example_world2)) \<and> found_in literal_engine [7, 1, 1, 2] pm"
proof -
  obtain pm acc where "te_ends (tw_env example_world2) = [(2, Matched pm acc)]"
    using example_world2_parts(6,7) by (auto split: WaitEnd.splits) (metis WaitEnd.exhaust)
  with tap_waits_report_the_stream [OF example_run2] show ?thesis by simp
qed

text \<open>A tap with an overflow lane and an armed wait; after the detach, a second connection opens a tap.\<close>

definition example_world3 :: "byte list list tap_world" where
  "example_world3 =
     (let w = open_tap 0 False example_world1 in arm literal_engine example_matcher (set_hub (attach_terminal 1 9 (tw_hub w)) w))"

lemma example_run3: "tap_run literal_engine example_world3 2 [7, 1]"
proof -
  have "tap_run literal_engine (open_tap 0 False example_world1) 2 [7, 1]"
    by (rule run_open [OF example_run1]) (simp_all add: example_world2_parts)
  from run_arm [OF Attach [OF this, of 1 9]] show ?thesis
    by (simp add: example_world3_def Let_def example_world2_parts example_sound)
qed

lemma example_world3_parts:
  "hub_taps (tw_hub example_world3) = [\<lparr>tap_id = 1, tap_out = 0, tap_terminal = Some 9, tap_dropped = 0\<rparr>]"
  "map aw_id (hub_waits (tw_hub example_world3)) = [2]" "tc_open (te_chans (tw_env example_world3) 0)"
  "te_ends (tw_env example_world3) = []" "hub_endpoint (tw_hub example_world3) = ''ep''"
  "hub_active (tw_hub example_world3)"
  by code_simp+

theorem detach_all_tells_everyone_witness:
  "\<exists>ids h env h'. detach_all Teardown (tw_hub example_world3) (tw_env example_world3) = (ids, h, env) \<and>
     TapClosed 1 ''ep'' (close_reason_str Teardown) \<in> set (tc_sent (te_chans env 0)) \<union> set (te_lanes env 9) \<and>
     map fst (te_ends env) = [2] \<and> hub_taps h = [] \<and>
     hub_taps h' \<noteq> [] \<and> (hub_step literal_engine)\<^sup>*\<^sup>* h h' \<and> \<not> hub_active h'"
proof -
  obtain ids h env where d: "detach_all Teardown (tw_hub example_world3) (tw_env example_world3) = (ids, h, env)"
    by (metis prod_cases3)
  have "list_all (\<lambda>x. hub_taps (fst (snd (the x))) \<noteq> [])
      [register 3 1 0 False (fst (snd (detach_all Teardown (tw_hub example_world3) (tw_env example_world3)))) (tw_env example_world3)]"
    "register 3 1 0 False (fst (snd (detach_all Teardown (tw_hub example_world3) (tw_env example_world3)))) (tw_env example_world3) \<noteq> None"
    by code_simp+
  then obtain reg h' env' where r: "register 3 1 0 False h (tw_env example_world3) = Some (reg, h', env')" "hub_taps h' \<noteq> []"
    using d by auto
  have "(hub_step literal_engine)\<^sup>*\<^sup>* h h'" using registers [OF r(1)] by blast
  with detach_all_tells_everyone [OF example_run3 _ d] d r(2) example_world3_parts show ?thesis
    by (intro exI [of _ ids] exI [of _ h] exI [of _ env] exI [of _ h']) (auto simp: comp_def)
qed

section \<open>Where a loss is charged\<close>

fun drain :: "'re engine \<Rightarrow> nat \<Rightarrow> 're tap_feed \<times> tap_env \<Rightarrow> ('re tap_feed \<times> tap_env) option" where
  "drain eng 0 st = Some st"
| "drain eng (Suc n) (f, env) = (case hub_task eng f env of None \<Rightarrow> None | Some st \<Rightarrow> drain eng n st)"

lemma fold_mirror:
  "hub_active h \<Longrightarrow> length q + length cs \<le> TAP_FEED_CAP \<Longrightarrow>
     fold mirror cs \<lparr>feed_hub = h, feed_queue = q\<rparr> = \<lparr>feed_hub = h, feed_queue = q @ cs\<rparr>"
  by (induction cs arbitrary: q) (simp_all add: mirror_def)

text \<open>A hub that only keeps its ring.\<close>

definition ring_only :: "'re TapHub \<Rightarrow> bool" where
  "ring_only h \<longleftrightarrow> hub_taps h = [] \<and> hub_waits h = [] \<and> hub_active h \<and> \<not> hub_orphaned h \<and>
     (\<exists>r. hub_ring h = Some r \<and> ring_inv r)"

lemma ring_only_ingest:
  assumes "ring_only h"
  shows "\<exists>h'. ingest eng chunk h env = Some (h', env) \<and> ring_only h' \<and> gap_before h' = 0 \<and>
    hub_ingested h' = hub_ingested h + word_of_nat (length chunk) \<and> hub_epoch h' = hub_epoch h"
proof -
  from assms obtain r where r: "hub_ring h = Some r" "ring_inv r" by (auto simp: ring_only_def)
  with push_retained [of r chunk] obtain r' where "ring_push r chunk = Some r'" "ring_inv r'" by blast
  with r assms show ?thesis
    by (auto simp: ingest_def ingest_ring_def Let_def ring_only_def refresh_active_def gap_before_def)
qed

lemma ring_only_drain:
  assumes "ring_only h"
  shows "\<exists>h'. drain eng (length cs) (\<lparr>feed_hub = h, feed_queue = cs @ q\<rparr>, env) =
      Some (\<lparr>feed_hub = h', feed_queue = q\<rparr>, env) \<and> ring_only h' \<and> (cs \<noteq> [] \<longrightarrow> gap_before h' = 0) \<and>
    hub_ingested h' = hub_ingested h + word_of_nat (length (concat cs)) \<and> hub_epoch h' = hub_epoch h"
  using assms
proof (induction cs arbitrary: h)
  case (Cons c cs)
  from ring_only_ingest [OF Cons.prems, of eng c env] obtain h1 where h1: "ingest eng c h env = Some (h1, env)"
    "ring_only h1" "gap_before h1 = 0" "hub_ingested h1 = hub_ingested h + word_of_nat (length c)" "hub_epoch h1 = hub_epoch h"
    by blast
  from Cons.IH [OF h1(2)] obtain h' where
    "drain eng (length cs) (\<lparr>feed_hub = h1, feed_queue = cs @ q\<rparr>, env) = Some (\<lparr>feed_hub = h', feed_queue = q\<rparr>, env)"
    "ring_only h'" "cs \<noteq> [] \<longrightarrow> gap_before h' = 0"
    "hub_ingested h' = hub_ingested h1 + word_of_nat (length (concat cs))" "hub_epoch h' = hub_epoch h1" by blast
  with h1 show ?case by (cases "cs = []") (auto simp: hub_task_def add.assoc)
qed auto

text \<open>One byte into a hub that keeps its ring and one wait.\<close>

lemma one_wait_ingest:
  assumes "hub_taps h = []" and "hub_waits h = [wt]" and "\<exists>r. hub_ring h = Some r \<and> ring_inv r" and "\<not> hub_orphaned h"
    and "window_feed eng chunk (saturating_sub (gap_before h) (aw_pending_gap_credit wt)) (aw_scan wt) = Some (hit, scan)"
    and "aw_done wt"
  shows "\<exists>h'. ingest eng chunk h env = Some (h', case hit of None \<Rightarrow> env | Some m \<Rightarrow>
        env\<lparr>te_ends := te_ends env @
          [(aw_id wt, Matched m (wait_accounting (hub_epoch h) (wt\<lparr>aw_pending_gap_credit := 0, aw_scan := scan\<rparr>)))]\<rparr>) \<and>
    hub_taps h' = [] \<and> hub_active h' \<and> gap_before h' = 0 \<and> (\<exists>r. hub_ring h' = Some r \<and> ring_inv r) \<and> \<not> hub_orphaned h' \<and>
    (hit = None \<longrightarrow> hub_waits h' = [wt\<lparr>aw_pending_gap_credit := 0, aw_scan := scan\<rparr>])"
proof -
  from assms(3) obtain r where r: "hub_ring h = Some r" "ring_inv r" by blast
  with push_retained [of r chunk] obtain r' where "ring_push r chunk = Some r'" "ring_inv r'" by blast
  with r assms show ?thesis
    by (cases hit) (auto simp: ingest_def ingest_ring_def Let_def refresh_active_def gap_before_def)
qed

lemma overflow_drained:
  "\<exists>h. drain literal_engine 255
      (fold mirror (replicate 255 [0] @ [[1], [9]]) \<lparr>feed_hub = hub_new ''ep'' 4 0, feed_queue = []\<rparr>, env) =
      Some (\<lparr>feed_hub = h, feed_queue = [[1]]\<rparr>, env) \<and> ring_only h \<and> gap_before h = 0 \<and> hub_ingested h = 255"
proof -
  let ?h0 = "hub_new ''ep'' 4 0 :: byte list list TapHub"
  define h1 where "h1 = ?h0\<lparr>hub_feed_dropped := 1\<rparr>"
  define cs :: "byte list list" where "cs = replicate 255 [0]"
  have cs: "length cs = 255" "cs \<noteq> []" "length (concat cs) = 255"
    by (simp_all add: cs_def length_concat sum_list_replicate)
  have q: "fold mirror (cs @ [[1]]) \<lparr>feed_hub = ?h0, feed_queue = []\<rparr> = \<lparr>feed_hub = ?h0, feed_queue = cs @ [[1]]\<rparr>"
    using fold_mirror [of ?h0 "[]" "cs @ [[1]]"] by (simp add: hub_new_def TAP_FEED_CAP_def cs)
  have "fold mirror (cs @ [[1], [9]]) \<lparr>feed_hub = ?h0, feed_queue = []\<rparr> =
      mirror [9] (fold mirror (cs @ [[1]]) \<lparr>feed_hub = ?h0, feed_queue = []\<rparr>)" by simp
  also have "\<dots> = \<lparr>feed_hub = h1, feed_queue = cs @ [[1]]\<rparr>"
    unfolding q by (simp add: mirror_def TAP_FEED_CAP_def cs h1_def hub_new_def)
  finally have start: "fold mirror (cs @ [[1], [9]]) \<lparr>feed_hub = ?h0, feed_queue = []\<rparr> =
      \<lparr>feed_hub = h1, feed_queue = cs @ [[1]]\<rparr>" .
  have "ring_only h1" by (simp add: ring_only_def h1_def hub_new_def ring_new_inv)
  from ring_only_drain [OF this, of literal_engine cs "[[1]]" env] cs show ?thesis
    unfolding cs_def [symmetric] start by (auto simp: h1_def hub_new_def)
qed

text \<open>
  A loss is charged to the chunk the hub takes next, not to the chunk that follows the hole: when the
  feed overflows, the chunks already queued come first. Here the producer emits 255 zero bytes, then 1, 9
  and 2; the 9 finds the feed full. A wait armed while the last queued chunk is still in the feed matches
  1 and 2 as adjacent and reports a scan without gaps.
\<close>

theorem overflow_gap_charged_early:
  "\<exists>f env h f' env' pm acc.
     drain literal_engine 255
       (fold mirror (replicate 255 [0] @ [[1], [9]]) \<lparr>feed_hub = hub_new ''ep'' 4 0, feed_queue = []\<rparr>, example_env) =
       Some (f, env) \<and>
     arm_wait literal_engine 1 example_matcher 8 8 False (feed_hub f) = Some (Parked, h) \<and>
     drain literal_engine 2 (mirror [2] (f\<lparr>feed_hub := h\<rparr>), env) = Some (f', env') \<and>
     te_ends env' = [(1, Matched pm acc)] \<and> pm_offset pm = 255 \<and> pm_end_offset pm = 257 \<and> wa_gaps acc = 0"
proof -
  obtain h2 where h2: "drain literal_engine 255
      (fold mirror (replicate 255 [0] @ [[1], [9]]) \<lparr>feed_hub = hub_new ''ep'' 4 0, feed_queue = []\<rparr>, example_env) =
      Some (\<lparr>feed_hub = h2, feed_queue = [[1]]\<rparr>, example_env)"
    "ring_only h2" "gap_before h2 = 0" "hub_ingested h2 = 255"
    using overflow_drained by blast
  define wt where "wt = \<lparr>aw_id = 1, aw_scan = scan_window_new example_matcher 8 8 255, aw_from_offset = 255,
    aw_replay_scanned = 0, aw_pending_gap_credit = 0, aw_done = True\<rparr>"
  define h3 where "h3 = refresh_active (h2\<lparr>hub_waits := [wt]\<rparr>)"
  have arm: "arm_wait literal_engine 1 example_matcher 8 8 False h2 = Some (Parked, h3)"
    using h2(2-4) by (simp add: arm_wait_def arm_seed_def ring_only_def MAX_ARMED_WAITS_def h3_def wt_def)
  have h3: "hub_taps h3 = []" "hub_waits h3 = [wt]" "\<exists>r. hub_ring h3 = Some r \<and> ring_inv r" "\<not> hub_orphaned h3"
    "hub_active h3" "gap_before h3 = 0"
    using h2(2,3) by (auto simp: h3_def ring_only_def refresh_active_def gap_before_def)
  define scan1 where "scan1 = (scan_window_new example_matcher 8 8 255)\<lparr>sw_buf := [1], sw_scanned := 1\<rparr>"
  have "window_feed literal_engine [1] 0 (scan_window_new example_matcher 8 8 255) = Some (None, scan1)"
    unfolding scan1_def by code_simp
  then have f1: "window_feed literal_engine [1] (saturating_sub (gap_before h3) (aw_pending_gap_credit wt)) (aw_scan wt) = Some (None, scan1)"
    by (simp add: h3(6) wt_def saturating_sub_def)
  from one_wait_ingest [OF h3(1-4) f1, of example_env] obtain h4 where h4:
    "ingest literal_engine [1] h3 example_env = Some (h4, example_env)" "hub_taps h4 = []" "gap_before h4 = 0"
    "\<exists>r. hub_ring h4 = Some r \<and> ring_inv r" "\<not> hub_orphaned h4" "hub_waits h4 = [wt\<lparr>aw_scan := scan1\<rparr>]"
    by (auto simp: wt_def)
  define pm where "pm = \<lparr>pm_pattern = ''p'', pm_offset = 255, pm_end_offset = 257, pm_context = [1, 2], pm_context_offset = 255\<rparr>"
  define scan2 where "scan2 = (scan_window_new example_matcher 8 8 255)\<lparr>sw_buf := [1, 2], sw_scanned := 2\<rparr>"
  have "window_feed literal_engine [2] 0 scan1 = Some (Some pm, scan2)"
    unfolding scan1_def scan2_def pm_def by code_simp
  then have f2: "window_feed literal_engine [2] (saturating_sub (gap_before h4) (aw_pending_gap_credit (wt\<lparr>aw_scan := scan1\<rparr>)))
      (aw_scan (wt\<lparr>aw_scan := scan1\<rparr>)) = Some (Some pm, scan2)"
    by (simp add: h4(3) wt_def saturating_sub_def)
  from one_wait_ingest [OF h4(2,6,4,5) f2, of example_env] obtain h5 acc where h5:
    "ingest literal_engine [2] h4 example_env = Some (h5, example_env\<lparr>te_ends := [(1, Matched pm acc)]\<rparr>)" "wa_gaps acc = 0"
    by (auto simp: wt_def example_env_def wait_accounting_def scan2_def scan_window_new_def)
  have mir: "mirror [2] \<lparr>feed_hub = h3, feed_queue = [[1]]\<rparr> = \<lparr>feed_hub = h3, feed_queue = [[1], [2]]\<rparr>"
    by (simp add: mirror_def h3(5) TAP_FEED_CAP_def)
  have "drain literal_engine 2 (mirror [2] \<lparr>feed_hub = h3, feed_queue = [[1]]\<rparr>, example_env) =
      Some (\<lparr>feed_hub = h5, feed_queue = []\<rparr>, example_env\<lparr>te_ends := [(1, Matched pm acc)]\<rparr>)"
    unfolding mir by (simp add: numeral_2_eq_2 hub_task_def h4(1) h5(1))
  with h2(1) arm h5(2) show ?thesis
    by (intro exI conjI) (assumption | simp add: pm_def)+
qed

text \<open>
  A replay hands out the bytes either side of a hole in one piece that announces no gap: the ring is
  contiguous in the offsets, not in the stream. Here five bytes are lost between 1 and 2.
\<close>

definition holed_hub :: "byte list list TapHub" where
  "holed_hub =
     (case ingest literal_engine [1] (hub_new ''ep'' 4 0) example_env of
        None \<Rightarrow> hub_new ''ep'' 4 0
      | Some (h, _) \<Rightarrow>
          (case ingest literal_engine [2] (h\<lparr>hub_feed_dropped := 5\<rparr>) example_env of
             None \<Rightarrow> h | Some (h, _) \<Rightarrow> h))"

lemma holed_hub_parts: "hub_ring_gap holed_hub = Some (1, 5)" "hub_ingested holed_hub = 2"
  "\<exists>r. hub_ring holed_hub = Some r \<and> ring_snapshot r = Some [1, 2]"
proof -
  show "hub_ring_gap holed_hub = Some (1, 5)" "hub_ingested holed_hub = 2" by code_simp+
  have "(case hub_ring holed_hub of None \<Rightarrow> None | Some r \<Rightarrow> ring_snapshot r) = Some [1, 2]" by code_simp
  then show "\<exists>r. hub_ring holed_hub = Some r \<and> ring_snapshot r = Some [1, 2]" by (auto split: option.splits)
qed

theorem replay_straddles_hole:
  "\<exists>reg h env. register 1 0 0 True holed_hub example_env = Some (reg, h, env) \<and>
     tc_sent (te_chans env 0) = [TapData 1 [1, 2] 0 0] \<and> hub_ring_gap holed_hub = Some (1, 5)"
proof -
  obtain r where r: "hub_ring holed_hub = Some r" "ring_snapshot r = Some [1, 2]" using holed_hub_parts(3) by blast
  have c: "chunks 65536 [1, 2] = [[1, 2 :: byte]]" by (simp add: chunks.simps)
  have "te_chans example_env 0 = \<lparr>tc_cap = 4, tc_sent = [], tc_taken = 0, tc_open = True\<rparr>" by (simp add: example_env_def)
  then show ?thesis
    by (simp add: register_def register_replay_def r holed_hub_parts chan_capacity_def REPLAY_PIECE_def c
        send_to_def try_send_def Let_def)
qed

end
