(* ===== verification/Rust_Path.thy ===== *)
theory Rust_Path
  imports Prelude "HOL-Library.Char_ord" "HOL-Library.List_Lexorder" "HOL-Library.Sublist"
begin

text \<open>
  What the sources use of \<open>std::path\<close> and of \<open>str\<close>: a path is the list of its components, which is what
  Rust compares paths by; \<open>trim\<close> removes the Unicode white space, spelled in UTF-8 as everywhere in the
  development; and \<open>split\<close>. Strings are ordered by their bytes.
\<close>

section \<open>\<open>str\<close>\<close>

text \<open>The UTF-8 spellings of the \<open>White_Space\<close> characters.\<close>

definition white_spellings :: "string list" where
  "white_spellings =
     [[CHR 0x09], [CHR 0x0A], [CHR 0x0B], [CHR 0x0C], [CHR 0x0D], [CHR 0x20],
      [CHR 0xC2, CHR 0x85], [CHR 0xC2, CHR 0xA0], [CHR 0xE1, CHR 0x9A, CHR 0x80],
      [CHR 0xE2, CHR 0x80, CHR 0x80], [CHR 0xE2, CHR 0x80, CHR 0x81],
      [CHR 0xE2, CHR 0x80, CHR 0x82], [CHR 0xE2, CHR 0x80, CHR 0x83],
      [CHR 0xE2, CHR 0x80, CHR 0x84], [CHR 0xE2, CHR 0x80, CHR 0x85],
      [CHR 0xE2, CHR 0x80, CHR 0x86], [CHR 0xE2, CHR 0x80, CHR 0x87],
      [CHR 0xE2, CHR 0x80, CHR 0x88], [CHR 0xE2, CHR 0x80, CHR 0x89],
      [CHR 0xE2, CHR 0x80, CHR 0x8A], [CHR 0xE2, CHR 0x80, CHR 0xA8],
      [CHR 0xE2, CHR 0x80, CHR 0xA9], [CHR 0xE2, CHR 0x80, CHR 0xAF],
      [CHR 0xE2, CHR 0x81, CHR 0x9F], [CHR 0xE3, CHR 0x80, CHR 0x80]]"

definition strip_prefix :: "string \<Rightarrow> string \<Rightarrow> string option" where
  "strip_prefix p s = (if take (length p) s = p then Some (drop (length p) s) else None)"

text \<open>The white-space character a string begins with, if it does.\<close>

definition white_head :: "string \<Rightarrow> nat option" where
  "white_head s = map_option length (find (\<lambda>p. strip_prefix p s \<noteq> None) white_spellings)"

definition white_last :: "string \<Rightarrow> nat option" where
  "white_last s = map_option length (find (\<lambda>p. strip_prefix (rev p) (rev s) \<noteq> None) white_spellings)"

lemma white_spellings_ne: "[] \<notin> set white_spellings"
  by (simp add: white_spellings_def)

lemma white_head_pos: "white_head s = Some n \<Longrightarrow> 0 < n \<and> n \<le> length s"
proof -
  assume "white_head s = Some n"
  then obtain p where p: "find (\<lambda>p. strip_prefix p s \<noteq> None) white_spellings = Some p" "n = length p"
    by (auto simp: white_head_def)
  then have "p \<in> set white_spellings" "take (length p) s = p"
    by (auto simp: find_Some_iff strip_prefix_def split: if_splits)
  with white_spellings_ne p(2) show ?thesis by (metis length_greater_0_conv length_take min.cobounded1)
qed

lemma white_last_pos: "white_last s = Some n \<Longrightarrow> 0 < n \<and> n \<le> length s"
proof -
  assume "white_last s = Some n"
  then obtain p where p: "find (\<lambda>p. strip_prefix (rev p) (rev s) \<noteq> None) white_spellings = Some p" "n = length p"
    by (auto simp: white_last_def)
  then have "p \<in> set white_spellings" "take (length p) (rev s) = rev p"
    by (auto simp: find_Some_iff strip_prefix_def split: if_splits)
  with white_spellings_ne p(2) show ?thesis by (metis length_greater_0_conv length_rev length_take min.cobounded1)
qed

function trim_start :: "string \<Rightarrow> string" where
  "trim_start s = (case white_head s of None \<Rightarrow> s | Some n \<Rightarrow> trim_start (drop n s))"
  by pat_completeness auto

termination
  by (relation "measure length") (auto dest: white_head_pos)

function trim_end :: "string \<Rightarrow> string" where
  "trim_end s = (case white_last s of None \<Rightarrow> s | Some n \<Rightarrow> trim_end (take (length s - n) s))"
  by pat_completeness auto

termination
  by (relation "measure length") (auto dest: white_last_pos)

declare trim_start.simps [simp del] trim_end.simps [simp del]

definition trim :: "string \<Rightarrow> string" where
  "trim s = trim_end (trim_start s)"

text \<open>\<open>split(c)\<close>: the parts between the occurrences of a character, one more than there are of it.\<close>

fun split_at :: "char \<Rightarrow> string \<Rightarrow> string list" where
  "split_at c [] = [[]]"
| "split_at c (x # xs) =
     (if x = c then [] # split_at c xs
      else (case split_at c xs of [] \<Rightarrow> [[x]] | p # ps \<Rightarrow> (x # p) # ps))"

definition trim_slashes :: "string \<Rightarrow> string" where
  "trim_slashes s = dropWhile (\<lambda>c. c = CHR ''/'') s"

section \<open>\<open>Path\<close>\<close>

datatype component = RootDir | CurDir | ParentDir | Normal string

type_synonym path = "component list"

definition component_of :: "string \<Rightarrow> component" where
  "component_of s = (if s = ''.'' then CurDir else if s = ''..'' then ParentDir else Normal s)"

text \<open>\<open>Path::new(s).components()\<close>: repeated separators and inner \<open>.\<close> components disappear.\<close>

definition path_new :: "string \<Rightarrow> path" where
  "path_new s =
     (let parts = filter (\<lambda>p. p \<noteq> []) (split_at (CHR ''/'') s)
      in if s \<noteq> [] \<and> hd s = CHR ''/''
         then RootDir # map component_of (filter (\<lambda>p. p \<noteq> ''.'') parts)
         else (case parts of
                 [] \<Rightarrow> []
               | p # ps \<Rightarrow> component_of p # map component_of (filter (\<lambda>p. p \<noteq> ''.'') ps)))"

definition join :: "path \<Rightarrow> path \<Rightarrow> path" where
  "join p q =
     (case q of
        [] \<Rightarrow> p
      | c # cs \<Rightarrow> if c = RootDir then q else if c = CurDir \<and> p \<noteq> [] then p @ cs else p @ q)"

definition file_name :: "path \<Rightarrow> string option" where
  "file_name p = (if p = [] then None else case last p of Normal s \<Rightarrow> Some s | _ \<Rightarrow> None)"

definition parent :: "path \<Rightarrow> path option" where
  "parent p = (if p = [] \<or> last p = RootDir then None else Some (butlast p))"

definition path_starts_with :: "path \<Rightarrow> path \<Rightarrow> bool" where
  "path_starts_with p q \<longleftrightarrow> take (length q) p = q"

definition path_strip_prefix :: "path \<Rightarrow> path \<Rightarrow> path option" where
  "path_strip_prefix p q = (if path_starts_with p q then Some (drop (length q) p) else None)"

text \<open>The text of a canonical relative path.\<close>

fun component_str :: "component \<Rightarrow> string" where
  "component_str RootDir = ''/''"
| "component_str CurDir = ''.''"
| "component_str ParentDir = ''..''"
| "component_str (Normal s) = s"

fun path_display :: "path \<Rightarrow> string" where
  "path_display [] = []"
| "path_display [c] = component_str c"
| "path_display (c # cs) = component_str c @ CHR ''/'' # path_display cs"

section \<open>Facts about text\<close>

lemma byte_lit: "utf8_valid (as_bytes q @ bs) = utf8_valid bs" if "q \<in> set white_spellings"
  using that by (auto simp: white_spellings_def as_bytes_def byte_of_char_def utf8_valid.simps utf8_cont_def)

lemma white_tail_cont: "q \<in> set white_spellings \<Longrightarrow> c \<in> set (tl q) \<Longrightarrow> utf8_cont (byte_of_char c)"
  by (auto simp: white_spellings_def byte_of_char_def utf8_cont_def)

lemma str_head: "is_str (c # s) \<Longrightarrow> \<not> utf8_cont (byte_of_char c)"
  by (auto simp: is_str_def as_bytes_def utf8_cont_def elim!: utf8_classes) unat_arith+

lemma white_head_SomeD:
  "white_head s = Some n \<Longrightarrow> \<exists>q \<in> set white_spellings. n = length q \<and> s = q @ drop n s"
proof -
  assume "white_head s = Some n"
  then obtain q where q: "find (\<lambda>p. strip_prefix p s \<noteq> None) white_spellings = Some q" "n = length q"
    by (auto simp: white_head_def)
  then have "q \<in> set white_spellings" "take (length q) s = q"
    by (auto simp: find_Some_iff strip_prefix_def split: if_splits)
  with q(2) show ?thesis by (metis append_take_drop_id)
qed

lemma is_str_trim_start: "is_str s \<Longrightarrow> is_str (trim_start s)"
proof (induction s rule: trim_start.induct)
  case (1 s)
  show ?case
  proof (cases "white_head s")
    case None
    with "1.prems" show ?thesis by (simp add: trim_start.simps)
  next
    case (Some n)
    then obtain q where q: "q \<in> set white_spellings" "s = q @ drop n s" using white_head_SomeD by blast
    then have "as_bytes s = as_bytes q @ as_bytes (drop n s)" by (metis as_bytes_def map_append)
    with q(1) "1.prems" have "is_str (drop n s)" by (simp add: is_str_def byte_lit)
    with 1 Some show ?thesis by (subst trim_start.simps) simp
  qed
qed

lemma trim_end_take: "\<exists>n. trim_end s = take n s"
proof (induction s rule: trim_end.induct)
  case (1 s)
  show ?case
  proof (cases "white_last s")
    case None
    then show ?thesis by (intro exI [of _ "length s"]) (simp add: trim_end.simps)
  next
    case (Some n)
    with 1 obtain m where "trim_end (take (length s - n) s) = take m (take (length s - n) s)" by blast
    with Some show ?thesis by (subst trim_end.simps) auto
  qed
qed

lemma trim_end_plain: "white_last (trim_end s) = None"
proof (induction s rule: trim_end.induct)
  case (1 s)
  then show ?case by (subst trim_end.simps) (simp split: option.split)
qed

lemma trim_plain: "white_last (trim s) = None"
  by (simp add: trim_def trim_end_plain)

lemma trim_fixed: "white_head s = None \<Longrightarrow> white_last s = None \<Longrightarrow> trim s = s"
  by (simp add: trim_def trim_start.simps trim_end.simps)

lemma trim_str_head: "is_str s \<Longrightarrow> trim s = c # r \<Longrightarrow> \<not> utf8_cont (byte_of_char c)"
proof -
  assume s: "is_str s" "trim s = c # r"
  obtain n where "trim s = take n (trim_start s)" using trim_end_take by (auto simp: trim_def)
  with s(2) obtain r' where "trim_start s = c # r'" by (cases "trim_start s"; cases n) auto
  with is_str_trim_start [OF s(1)] show ?thesis using str_head by auto
qed

lemma white_head_take: "white_head s = None \<Longrightarrow> white_head (take n s) = None"
proof -
  assume s: "white_head s = None"
  have "take (length q) (take n s) \<noteq> q" if q: "q \<in> set white_spellings" for q
  proof
    assume *: "take (length q) (take n s) = q"
    then have "length q \<le> n" by (metis length_take min.bounded_iff min.cobounded2 order_refl)
    with * have "take (length q) s = q" by (simp add: min_def)
    with s q show False by (auto simp: white_head_def find_None_iff strip_prefix_def split: if_splits)
  qed
  then show ?thesis by (auto simp: white_head_def find_None_iff strip_prefix_def)
qed

lemma trim_start_plain: "white_head (trim_start s) = None"
proof (induction s rule: trim_start.induct)
  case (1 s)
  then show ?case by (subst trim_start.simps) (simp split: option.split)
qed

lemma trim_trim: "trim (trim s) = trim s"
proof -
  obtain n where "trim s = take n (trim_start s)" using trim_end_take by (auto simp: trim_def)
  then have "white_head (trim s) = None" using white_head_take trim_start_plain by metis
  then show ?thesis using trim_fixed trim_plain by blast
qed

text \<open>White space at the end of a concatenation is at the end of its second part, which begins a character.\<close>

lemma white_last_append:
  assumes "white_last (c # s) = None" and "\<not> utf8_cont (byte_of_char c)"
  shows "white_last (p @ c # s) = None"
proof (rule ccontr)
  assume "white_last (p @ c # s) \<noteq> None"
  then obtain q where q: "q \<in> set white_spellings" "take (length q) (rev (p @ c # s)) = rev q"
    by (auto simp: white_last_def find_None_iff strip_prefix_def split: if_splits)
  show False
  proof (cases "length q \<le> length (c # s)")
    case True
    then have "take (length q) (rev (c # s)) = rev q"
      using q(2) unfolding rev_append [of p "c # s"] take_append by (simp del: rev.simps)
    with q(1) assms(1) show False by (auto simp: white_last_def find_None_iff strip_prefix_def split: if_splits)
  next
    case False
    then have k: "length s < length q - 1" by simp
    have "rev q ! length s = c"
      using False by (subst q(2) [symmetric]) (simp add: nth_append)
    then have "q ! (length q - 1 - length s) = c" using k by (simp add: rev_nth)
    moreover have "q ! (length q - 1 - length s) \<in> set (tl q)"
      using k by (metis Suc_diff_Suc diff_less length_tl less_imp_diff_less nth_mem nth_tl zero_less_diff
          diff_Suc_less length_greater_0_conv list.size(3) not_less_zero Suc_diff_1 diff_zero)
    ultimately show False using white_tail_cont [OF q(1)] assms(2) by blast
  qed
qed

lemma split_at_no: "c \<notin> set xs \<Longrightarrow> split_at c xs = [xs]"
  by (induction xs) auto

lemma split_at_sep: "c \<notin> set xs \<Longrightarrow> split_at c (xs @ c # ys) = xs # split_at c ys"
  by (induction xs) auto

text \<open>Text that begins with a character of ours and ends without white space.\<close>

lemma trim_kept:
  assumes "white_head (p @ t) = None" and "t \<noteq> []" and "white_last t = None" and "\<not> utf8_cont (byte_of_char (hd t))"
  shows "trim (p @ t) = p @ t"
  using assms white_last_append [of "hd t" "tl t" p] by (intro trim_fixed) auto

lemma scheme_head:
  "white_head (''usb:'' @ s) = None" "white_head (''by-path:'' @ s) = None" "white_head (''raw:'' @ s) = None"
  "white_head (CHR ''/'' # s) = None"
  by (simp_all add: white_head_def find_None_iff strip_prefix_def white_spellings_def)

end
