(* ===== verification/Resolver.thy ===== *)
theory Resolver
  imports Rust_Path Rust_Map
begin

text \<open>
  Device identity resolution (\<open>core/src/resolver.rs\<close>): operator input to the identity that configuration
  stores, and a stored identity to the \<open>/dev\<close> path the device occupies now.

  The file system is a parameter: what a directory lists, what a link points at, what a path canonicalises
  to, whether a path is there and is a directory, what a file holds. What the theorems assume of it is
  named in \<open>fs_ok\<close>. File names are text. The operator-facing texts of errors and warnings are constructors
  with the data the texts carry.
\<close>

section \<open>The file system\<close>

record fs =
  fs_read_dir :: "path \<Rightarrow> string list option"
  fs_read_link :: "path \<Rightarrow> path option"
  fs_canonicalize :: "path \<Rightarrow> path option"
  fs_is_dir :: "path \<Rightarrow> bool option"
  fs_read_to_string :: "path \<Rightarrow> string option"

definition path_exists :: "fs \<Rightarrow> path \<Rightarrow> bool" where
  "path_exists fs p \<longleftrightarrow> fs_is_dir fs p \<noteq> None"

definition is_dev_node :: "fs \<Rightarrow> path \<Rightarrow> bool" where
  "is_dev_node fs p \<longleftrightarrow> fs_is_dir fs p = Some False"

definition read_trimmed :: "fs \<Rightarrow> path \<Rightarrow> string option" where
  "read_trimmed fs p = map_option trim (fs_read_to_string fs p)"

section \<open>Types\<close>

datatype DeviceKind = Usb | ByPath | Raw

fun scheme :: "DeviceKind \<Rightarrow> string" where
  "scheme Usb = ''usb''"
| "scheme ByPath = ''by-path''"
| "scheme Raw = ''raw''"

datatype Warning = BypathWarning | RawWarning | AmbiguousWarning "path list"

record Resolved =
  res_identity :: string
  res_path :: "path option"
  res_kind :: DeviceKind
  res_description :: string
  res_warning :: "Warning option"

datatype Reason =
    EmptyDevice | ParentComponents | IsDirectory | ExpectedUsbFields | BlankUsbField | EmptyPort | EmptyRaw
  | EmptyPath | AmbiguousSerial "(path \<times> string) list" bool

datatype ResolveError = NotPresent string | Malformed string Reason

record Adapter =
  ad_by_id_name :: string
  ad_dev_path :: path
  ad_identity :: "string option"

record PortCandidate =
  pc_identity :: string
  pc_kind :: DeviceKind
  pc_path :: path
  pc_description :: string
  pc_by_id :: "string option"
  pc_warning :: "Warning option"

record UsbInfo =
  usb_identity :: string
  usb_description :: string

record Resolver =
  dev_root :: path
  sys_root :: path

definition resolver_new :: "path \<Rightarrow> Resolver" where
  "resolver_new root = \<lparr>dev_root = root, sys_root = join root [Normal ''sys'']\<rparr>"

definition with_roots :: "path \<Rightarrow> path \<Rightarrow> Resolver" where
  "with_roots dev sys = \<lparr>dev_root = dev, sys_root = sys\<rparr>"

section \<open>Text\<close>

definition serial_text :: "string \<Rightarrow> string" where
  "serial_text serial = (if serial \<noteq> ''-'' then '', serial '' @ serial else [])"

definition iface_text :: "string \<Rightarrow> string" where
  "iface_text iface = (if iface \<noteq> ''-'' then '', interface '' @ iface else [])"

definition describe :: "string option \<Rightarrow> string option \<Rightarrow> string \<Rightarrow> string \<Rightarrow> string \<Rightarrow> string \<Rightarrow> string" where
  "describe manufacturer product serial iface vid pid =
     (let head = (case (manufacturer, product) of
                    (Some m, Some p) \<Rightarrow> m @ '' '' @ p
                  | (Some m, None) \<Rightarrow> m
                  | (None, Some p) \<Rightarrow> p
                  | (None, None) \<Rightarrow> ''USB '' @ vid @ '':'' @ pid)
      in trim head @ serial_text serial @ iface_text iface)"

definition describe_usb_identity :: "string \<Rightarrow> string" where
  "describe_usb_identity flds =
     (case split_at (CHR '':'') flds of
        [vid, pid, serial, iface] \<Rightarrow> ''USB '' @ vid @ '':'' @ pid @ serial_text serial @ iface_text iface
      | _ \<Rightarrow> ''usb:'' @ flds)"

definition usb_serial_field :: "string \<Rightarrow> string option" where
  "usb_serial_field identity =
     (case strip_prefix ''usb:'' identity of
        None \<Rightarrow> None
      | Some rest \<Rightarrow> (let flds = split_at (CHR '':'') rest in if 2 < length flds then Some (flds ! 2) else None))"

section \<open>Paths under the root\<close>

definition rooted :: "Resolver \<Rightarrow> string \<Rightarrow> path" where
  "rooted r absolute = join (dev_root r) (path_new (trim_slashes absolute))"

definition dev_path :: "Resolver \<Rightarrow> string \<Rightarrow> path" where
  "dev_path r name = join (join (dev_root r) [Normal ''dev'']) (path_new name)"

definition by_id_dir :: "Resolver \<Rightarrow> path" where
  "by_id_dir r = join (dev_root r) [Normal ''dev'', Normal ''serial'', Normal ''by-id'']"

definition by_path_dir :: "Resolver \<Rightarrow> path" where
  "by_path_dir r = join (dev_root r) [Normal ''dev'', Normal ''serial'', Normal ''by-path'']"

definition tty_dir :: "Resolver \<Rightarrow> path" where
  "tty_dir r = join (sys_root r) [Normal ''class'', Normal ''tty'']"

definition check_literal :: "fs \<Rightarrow> Resolver \<Rightarrow> string \<Rightarrow> string \<Rightarrow> (ResolveError, path) result" where
  "check_literal fs r input path =
     (if ParentDir \<in> set (path_new path) then Err (Malformed input ParentComponents)
      else if fs_is_dir fs (rooted r path) = Some True then Err (Malformed input IsDirectory)
      else Ok (rooted r path))"

definition literal_dev_path :: "fs \<Rightarrow> Resolver \<Rightarrow> string \<Rightarrow> path option" where
  "literal_dev_path fs r path =
     (case check_literal fs r path path of
        Inl _ \<Rightarrow> None
      | Inr p \<Rightarrow> if is_dev_node fs p then Some p else None)"

section \<open>The sysfs walk\<close>

definition non_blank :: "string option \<Rightarrow> string option" where
  "non_blank s = (if s = Some [] then None else s)"

text \<open>The USB device directory an ancestor turned out to be: its identity, unless a field cannot carry it.\<close>

definition usb_info_at :: "fs \<Rightarrow> path \<Rightarrow> string option \<Rightarrow> UsbInfo option" where
  "usb_info_at fs cur interface =
     (case (non_blank (read_trimmed fs (join cur [Normal ''idVendor''])),
            non_blank (read_trimmed fs (join cur [Normal ''idProduct'']))) of
        (Some vid, Some pid) \<Rightarrow>
          (let serial = (case non_blank (read_trimmed fs (join cur [Normal ''serial''])) of Some s \<Rightarrow> s | None \<Rightarrow> ''-'');
               iface = (case interface of Some i \<Rightarrow> i | None \<Rightarrow> ''-'')
           in if list_ex (\<lambda>f. CHR '':'' \<in> set f) [vid, pid, serial, iface] then None
              else Some \<lparr>usb_identity = ''usb:'' @ vid @ '':'' @ pid @ '':'' @ serial @ '':'' @ iface,
                         usb_description = describe (read_trimmed fs (join cur [Normal ''manufacturer'']))
                           (read_trimmed fs (join cur [Normal ''product''])) serial iface vid pid\<rparr>)
      | _ \<Rightarrow> None)"

fun sysfs_walk :: "fs \<Rightarrow> path \<Rightarrow> nat \<Rightarrow> string option \<Rightarrow> path \<Rightarrow> UsbInfo option" where
  "sysfs_walk fs guard 0 interface cur = None"
| "sysfs_walk fs guard (Suc n) interface cur =
     (let interface = (if interface = None
                       then non_blank (read_trimmed fs (join cur [Normal ''bInterfaceNumber''])) else interface)
      in if path_exists fs (join cur [Normal ''idVendor'']) then usb_info_at fs cur interface
         else (case parent cur of
                 Some up \<Rightarrow> if up \<noteq> cur \<and> path_starts_with up guard then sysfs_walk fs guard n interface up else None
               | None \<Rightarrow> None))"

definition sysfs_lookup :: "fs \<Rightarrow> Resolver \<Rightarrow> string \<Rightarrow> UsbInfo option" where
  "sysfs_lookup fs r name =
     (case fs_canonicalize fs (join (join (tty_dir r) (path_new name)) [Normal ''device'']) of
        None \<Rightarrow> None
      | Some start \<Rightarrow>
          (let guard = (case fs_canonicalize fs (sys_root r) of Some g \<Rightarrow> g | None \<Rightarrow> sys_root r)
           in sysfs_walk fs guard 12 None start))"

definition sysfs_usb_devices :: "fs \<Rightarrow> Resolver \<Rightarrow> (path \<times> UsbInfo) list" where
  "sysfs_usb_devices fs r =
     (case fs_read_dir fs (tty_dir r) of
        None \<Rightarrow> []
      | Some names \<Rightarrow>
          List.map_filter (\<lambda>name.
            if is_dev_node fs (dev_path r name)
            then map_option (Pair (dev_path r name)) (sysfs_lookup fs r name) else None) (sort names))"

definition usb_identity_matches :: "fs \<Rightarrow> Resolver \<Rightarrow> string \<Rightarrow> (path \<times> UsbInfo) list" where
  "usb_identity_matches fs r identity = filter (\<lambda>(_, info). usb_identity info = identity) (sysfs_usb_devices fs r)"

definition usb_identity_ambiguous :: "fs \<Rightarrow> Resolver \<Rightarrow> string \<Rightarrow> bool" where
  "usb_identity_ambiguous fs r identity \<longleftrightarrow> length (usb_identity_matches fs r identity) > 1"

definition devices_with_serial :: "fs \<Rightarrow> Resolver \<Rightarrow> string \<Rightarrow> (path \<times> UsbInfo) list" where
  "devices_with_serial fs r serial =
     (if serial = ''-'' then []
      else filter (\<lambda>(_, info). usb_serial_field (usb_identity info) = Some serial) (sysfs_usb_devices fs r))"

section \<open>The link trees\<close>

text \<open>The device name a link in a directory points at.\<close>

definition link_target :: "fs \<Rightarrow> path \<Rightarrow> string \<Rightarrow> string option" where
  "link_target fs dir name =
     (case fs_read_link fs (join dir (path_new name)) of None \<Rightarrow> None | Some target \<Rightarrow> file_name target)"

fun find_by_id :: "fs \<Rightarrow> Resolver \<Rightarrow> string \<Rightarrow> string list \<Rightarrow> (path \<times> UsbInfo) option" where
  "find_by_id fs r identity [] = None"
| "find_by_id fs r identity (entry # entries) =
     (case link_target fs (by_id_dir r) entry of
        None \<Rightarrow> find_by_id fs r identity entries
      | Some name \<Rightarrow>
          (case sysfs_lookup fs r name of
             None \<Rightarrow> find_by_id fs r identity entries
           | Some info \<Rightarrow>
               if usb_identity info = identity \<and> is_dev_node fs (dev_path r name)
               then Some (dev_path r name, info)
               else find_by_id fs r identity entries))"

definition find_usb_by_id :: "fs \<Rightarrow> Resolver \<Rightarrow> string \<Rightarrow> (path \<times> UsbInfo) option" where
  "find_usb_by_id fs r identity =
     (case fs_read_dir fs (by_id_dir r) of None \<Rightarrow> None | Some entries \<Rightarrow> find_by_id fs r identity entries)"

definition find_usb :: "fs \<Rightarrow> Resolver \<Rightarrow> string \<Rightarrow> (path \<times> UsbInfo) option" where
  "find_usb fs r identity =
     (let matches = usb_identity_matches fs r identity
      in if length matches > 1 then None
         else (case find_usb_by_id fs r identity of
                 Some found \<Rightarrow> Some found
               | None \<Rightarrow> if matches = [] then None else Some (last matches)))"

definition bypath_lookup :: "fs \<Rightarrow> Resolver \<Rightarrow> string \<Rightarrow> path option" where
  "bypath_lookup fs r port =
     (case link_target fs (by_path_dir r) port of
        None \<Rightarrow> None
      | Some name \<Rightarrow> if is_dev_node fs (dev_path r name) then Some (dev_path r name) else None)"

definition bypath_of :: "fs \<Rightarrow> Resolver \<Rightarrow> string \<Rightarrow> string option" where
  "bypath_of fs r name =
     (case fs_read_dir fs (by_path_dir r) of
        None \<Rightarrow> None
      | Some entries \<Rightarrow> find (\<lambda>entry. link_target fs (by_path_dir r) entry = Some name) entries)"

section \<open>Identity of a device that is present\<close>

definition capture_for_dev :: "fs \<Rightarrow> Resolver \<Rightarrow> string \<Rightarrow> path \<Rightarrow> string \<Rightarrow> Resolved" where
  "capture_for_dev fs r dev_name p raw =
     (let fallback =
        (case bypath_of fs r dev_name of
           Some port \<Rightarrow>
             \<lparr>res_identity = ''by-path:'' @ port, res_path = Some p, res_kind = ByPath,
              res_description = ''topology port '' @ port @ '' ('' @ dev_name @ '')'', res_warning = Some BypathWarning\<rparr>
         | None \<Rightarrow>
             \<lparr>res_identity = ''raw:'' @ raw, res_path = Some p, res_kind = Raw,
              res_description = ''raw path '' @ raw, res_warning = Some RawWarning\<rparr>)
      in case sysfs_lookup fs r dev_name of
           Some info \<Rightarrow>
             if usb_serial_field (usb_identity info) \<noteq> Some ''-'' \<and> \<not> usb_identity_ambiguous fs r (usb_identity info)
             then \<lparr>res_identity = usb_identity info, res_path = Some p, res_kind = Usb,
                   res_description = usb_description info, res_warning = None\<rparr>
             else fallback
         | None \<Rightarrow> fallback)"

definition name_or_empty :: "path \<Rightarrow> string" where
  "name_or_empty p = (case file_name p of Some s \<Rightarrow> s | None \<Rightarrow> [])"

definition ambiguous_serial_reason :: "fs \<Rightarrow> Resolver \<Rightarrow> (path \<times> UsbInfo) list \<Rightarrow> Reason" where
  "ambiguous_serial_reason fs r found =
     (let pinning = map (\<lambda>(p, _). (p, capture_for_dev fs r (name_or_empty p) p (''/dev/'' @ name_or_empty p))) found
      in AmbiguousSerial (map (\<lambda>(p, res). (p, res_identity res)) pinning)
           (list_ex (\<lambda>(_, res). res_kind res = Raw) pinning))"

definition capture_from_serial :: "fs \<Rightarrow> Resolver \<Rightarrow> string \<Rightarrow> (ResolveError, Resolved) result" where
  "capture_from_serial fs r serial =
     (let found = devices_with_serial fs r serial
      in if length found > 1 then Err (Malformed serial (ambiguous_serial_reason fs r found))
         else if found = [] then Err (NotPresent serial)
         else (let p = fst (last found)
               in Ok (capture_for_dev fs r (name_or_empty p) p (''/dev/'' @ name_or_empty p))))"

definition canonical_dev :: "fs \<Rightarrow> Resolver \<Rightarrow> path \<Rightarrow> string \<Rightarrow> path \<times> string" where
  "canonical_dev fs r p input =
     (case fs_canonicalize fs p of
        None \<Rightarrow> (p, input)
      | Some canon \<Rightarrow>
          (let root = (case fs_canonicalize fs (dev_root r) of Some c \<Rightarrow> c | None \<Rightarrow> dev_root r)
           in case path_strip_prefix canon root of
                None \<Rightarrow> (p, input)
              | Some rel \<Rightarrow>
                  if rel = [] then (p, input)
                  else (let spelling = CHR ''/'' # path_display rel in (rooted r spelling, spelling))))"

definition capture_from_path :: "fs \<Rightarrow> Resolver \<Rightarrow> string \<Rightarrow> (ResolveError, Resolved) result" where
  "capture_from_path fs r input =
     (if trim_slashes input = [] then Err (Malformed input EmptyPath)
      else
        (case check_literal fs r input input of
           Inl e \<Rightarrow> Err e
         | Inr p \<Rightarrow>
             if \<not> is_dev_node fs p then Err (NotPresent input)
             else (let (p, raw) = canonical_dev fs r p input in Ok (capture_for_dev fs r (name_or_empty p) p raw))))"

section \<open>Input to identity\<close>

definition resolve_usb_identity :: "fs \<Rightarrow> Resolver \<Rightarrow> string \<Rightarrow> string \<Rightarrow> (ResolveError, Resolved) result" where
  "resolve_usb_identity fs r input rest =
     (let flds = split_at (CHR '':'') rest
      in if length flds \<noteq> 4 then Err (Malformed input ExpectedUsbFields)
         else if list_ex (\<lambda>f. trim f = []) flds then Err (Malformed input BlankUsbField)
         else
           (let ambiguous = usb_identity_matches fs r input
            in if length ambiguous > 1
               then Ok \<lparr>res_identity = input, res_path = None, res_kind = Usb,
                        res_description = describe_usb_identity rest,
                        res_warning = Some (AmbiguousWarning (map fst ambiguous))\<rparr>
               else
                 (let (p, description) =
                    (case find_usb fs r input of
                       Some (p, info) \<Rightarrow> (Some p, usb_description info)
                     | None \<Rightarrow> (None, describe_usb_identity rest))
                  in Ok \<lparr>res_identity = input, res_path = p, res_kind = Usb, res_description = description,
                         res_warning = None\<rparr>)))"

definition resolve_bypath_identity :: "fs \<Rightarrow> Resolver \<Rightarrow> string \<Rightarrow> string \<Rightarrow> (ResolveError, Resolved) result" where
  "resolve_bypath_identity fs r input rest =
     (if rest = [] then Err (Malformed input EmptyPort)
      else Ok \<lparr>res_identity = input, res_path = bypath_lookup fs r rest, res_kind = ByPath,
               res_description = ''topology port '' @ rest, res_warning = Some BypathWarning\<rparr>)"

definition resolve_raw_identity :: "fs \<Rightarrow> Resolver \<Rightarrow> string \<Rightarrow> string \<Rightarrow> (ResolveError, Resolved) result" where
  "resolve_raw_identity fs r input rest =
     (if trim_slashes rest = [] then Err (Malformed input EmptyRaw)
      else
        (case check_literal fs r input rest of
           Inl e \<Rightarrow> Err e
         | Inr p \<Rightarrow>
             Ok \<lparr>res_identity = input, res_path = (if is_dev_node fs p then Some p else None), res_kind = Raw,
                 res_description = ''raw path '' @ rest, res_warning = Some RawWarning\<rparr>))"

definition starts_with_slash :: "string \<Rightarrow> bool" where
  "starts_with_slash s \<longleftrightarrow> s \<noteq> [] \<and> hd s = CHR ''/''"

definition resolve_input :: "fs \<Rightarrow> Resolver \<Rightarrow> string \<Rightarrow> (ResolveError, Resolved) result" where
  "resolve_input fs r given =
     (let input = trim given
      in if input = [] then Err (Malformed input EmptyDevice)
         else
           (case strip_prefix ''usb:'' input of
              Some rest \<Rightarrow> resolve_usb_identity fs r input rest
            | None \<Rightarrow>
           (case strip_prefix ''by-path:'' input of
              Some rest \<Rightarrow> resolve_bypath_identity fs r input rest
            | None \<Rightarrow>
           (case strip_prefix ''raw:'' input of
              Some rest \<Rightarrow> resolve_raw_identity fs r input rest
            | None \<Rightarrow>
                if starts_with_slash input then capture_from_path fs r input
                else capture_from_serial fs r input))))"

section \<open>Identity to path\<close>

definition resolve_current_path :: "fs \<Rightarrow> Resolver \<Rightarrow> string \<Rightarrow> path option" where
  "resolve_current_path fs r given =
     (let device = trim given
      in case strip_prefix ''usb:'' device of
           Some _ \<Rightarrow> map_option fst (find_usb fs r device)
         | None \<Rightarrow>
        (case strip_prefix ''by-path:'' device of
           Some rest \<Rightarrow> bypath_lookup fs r rest
         | None \<Rightarrow>
        (case strip_prefix ''raw:'' device of
           Some rest \<Rightarrow> literal_dev_path fs r rest
         | None \<Rightarrow>
             if starts_with_slash device then literal_dev_path fs r device
             else (let found = devices_with_serial fs r device
                   in if length found = 1 then Some (fst (hd found)) else None))))"

definition kind_of :: "string \<Rightarrow> DeviceKind" where
  "kind_of given =
     (let device = trim given
      in if strip_prefix ''usb:'' device \<noteq> None then Usb
         else if strip_prefix ''by-path:'' device \<noteq> None then ByPath else Raw)"

definition has_identity_source :: "fs \<Rightarrow> Resolver \<Rightarrow> bool" where
  "has_identity_source fs r \<longleftrightarrow> fs_is_dir fs (by_id_dir r) = Some True \<or> fs_is_dir fs (tty_dir r) = Some True"

section \<open>Enumeration\<close>

text \<open>Paths are ordered by their components.\<close>

fun component_rank :: "component \<Rightarrow> nat \<times> string" where
  "component_rank RootDir = (0, [])"
| "component_rank CurDir = (1, [])"
| "component_rank ParentDir = (2, [])"
| "component_rank (Normal s) = (3, s)"

instantiation component :: linorder
begin

definition less_eq_component :: "component \<Rightarrow> component \<Rightarrow> bool" where
  "less_eq_component a b \<longleftrightarrow> fst (component_rank a) < fst (component_rank b) \<or>
     fst (component_rank a) = fst (component_rank b) \<and> snd (component_rank a) \<le> snd (component_rank b)"

definition less_component :: "component \<Rightarrow> component \<Rightarrow> bool" where
  "less_component a b \<longleftrightarrow> a \<le> b \<and> \<not> b \<le> (a :: component)"

instance
proof
  fix a b c :: component
  show "a < b \<longleftrightarrow> a \<le> b \<and> \<not> b \<le> a" by (rule less_component_def)
  show "a \<le> a" by (simp add: less_eq_component_def)
  show "a \<le> b \<Longrightarrow> b \<le> c \<Longrightarrow> a \<le> c" by (auto simp: less_eq_component_def dest: order.trans)
  show "a \<le> b \<Longrightarrow> b \<le> a \<Longrightarrow> a = b" by (cases a; cases b) (auto simp: less_eq_component_def)
  show "a \<le> b \<or> b \<le> a" by (auto simp: less_eq_component_def)
qed

end

definition discover_adapters :: "fs \<Rightarrow> Resolver \<Rightarrow> Adapter list" where
  "discover_adapters fs r =
     (case fs_read_dir fs (by_id_dir r) of
        None \<Rightarrow> []
      | Some entries \<Rightarrow>
          sort_key ad_by_id_name (List.map_filter (\<lambda>entry.
            case fs_read_link fs (join (by_id_dir r) (path_new entry)) of
              None \<Rightarrow> None
            | Some target \<Rightarrow>
                (let name = name_or_empty target
                 in Some \<lparr>ad_by_id_name = entry, ad_dev_path = dev_path r name,
                          ad_identity = map_option usb_identity (sysfs_lookup fs r name)\<rparr>)) entries))"

definition or_insert :: "string \<Rightarrow> (string \<times> string option) list \<Rightarrow> (string \<times> string option) list" where
  "or_insert name seen = (case btree_get seen name of Some _ \<Rightarrow> seen | None \<Rightarrow> btree_insert name None seen)"

definition see_adapters :: "Adapter list \<Rightarrow> (string \<times> string option) list \<Rightarrow> (string \<times> string option) list" where
  "see_adapters adapters seen =
     fold (\<lambda>a seen. case file_name (ad_dev_path a) of
        Some name \<Rightarrow> btree_insert name (Some (ad_by_id_name a)) seen | None \<Rightarrow> seen) adapters seen"

text \<open>The device names that each of the other sources adds.\<close>

definition port_names :: "fs \<Rightarrow> Resolver \<Rightarrow> string list" where
  "port_names fs r =
     List.map_filter (\<lambda>(p, _). file_name p) (sysfs_usb_devices fs r) @
     (case fs_read_dir fs (by_path_dir r) of
        None \<Rightarrow> [] | Some entries \<Rightarrow> List.map_filter (link_target fs (by_path_dir r)) entries) @
     (case fs_read_dir fs (join (dev_root r) [Normal ''dev'']) of
        None \<Rightarrow> [] | Some names \<Rightarrow> filter (\<lambda>name. strip_prefix ''cu.'' name \<noteq> None) names)"

definition port_candidate :: "fs \<Rightarrow> Resolver \<Rightarrow> string \<times> string option \<Rightarrow> PortCandidate option" where
  "port_candidate fs r seen =
     (let (name, by_id) = seen; raw = ''/dev/'' @ name; p = rooted r raw
      in if \<not> is_dev_node fs p then None
         else
           (let res = capture_for_dev fs r name p raw
            in Some \<lparr>pc_identity = res_identity res, pc_kind = res_kind res, pc_path = p,
                     pc_description = res_description res, pc_by_id = by_id, pc_warning = res_warning res\<rparr>))"

definition enumerate_ports :: "fs \<Rightarrow> Resolver \<Rightarrow> PortCandidate list" where
  "enumerate_ports fs r =
     (let seen = fold or_insert (port_names fs r) (see_adapters (discover_adapters fs r) [])
      in sort_key pc_path (List.map_filter (port_candidate fs r) seen))"

end
