(* ===== verification/Resolver_Laws.thy ===== *)
theory Resolver_Laws
  imports Resolver
begin

text \<open>
  What the two directions of device resolution promise each other: a \<open>usb:\<close> identity binds exactly the
  one present device that carries it, whatever identity is captured for a device resolves back to that
  device unless it ends in white space, and nothing outside the device root is ever bound.
\<close>

section \<open>What is relied on of the file system\<close>

text \<open>
  File names are non-empty text without separators, as directory listings and links have them; a directory lists a
  name once; and the \<open>class/tty\<close> listing has every terminal that can be looked up below it.
\<close>

definition text_name :: "string \<Rightarrow> bool" where
  "text_name s \<longleftrightarrow> s \<noteq> [] \<and> CHR ''/'' \<notin> set s \<and> s \<noteq> ''.'' \<and> s \<noteq> ''..'' \<and> is_str s"

definition fs_ok :: "fs \<Rightarrow> Resolver \<Rightarrow> bool" where
  "fs_ok fs r \<longleftrightarrow>
     (\<forall>dir names. fs_read_dir fs dir = Some names \<longrightarrow> distinct names \<and> list_all text_name names) \<and>
     (\<forall>p t s. fs_read_link fs p = Some t \<and> Normal s \<in> set t \<longrightarrow> text_name s) \<and>
     (\<forall>p s. fs_read_to_string fs p = Some s \<longrightarrow> is_str s) \<and>
     (\<forall>name. text_name name \<and> fs_canonicalize fs (join (join (tty_dir r) (path_new name)) [Normal ''device'']) \<noteq> None \<longrightarrow>
        (\<exists>names. fs_read_dir fs (tty_dir r) = Some names \<and> name \<in> set names))"

lemma fs_okD:
  assumes "fs_ok fs r"
  shows "fs_read_dir fs dir = Some names \<Longrightarrow> distinct names"
    and "fs_read_dir fs dir = Some names \<Longrightarrow> name \<in> set names \<Longrightarrow> text_name name"
    and "fs_read_link fs p = Some t \<Longrightarrow> Normal s \<in> set t \<Longrightarrow> text_name s"
    and "fs_read_to_string fs p = Some s \<Longrightarrow> is_str s"
    and "text_name name \<Longrightarrow> fs_canonicalize fs (join (join (tty_dir r) (path_new name)) [Normal ''device'']) \<noteq> None \<Longrightarrow>
      \<exists>names. fs_read_dir fs (tty_dir r) = Some names \<and> name \<in> set names"
  using assms unfolding fs_ok_def list_all_iff by blast+

section \<open>Paths\<close>

lemma join_Normal [simp]: "join p (Normal s # q) = p @ Normal s # q"
  by (simp add: join_def)

lemma path_new_text: "text_name s \<Longrightarrow> path_new s = [Normal s]"
  by (cases s) (auto simp: text_name_def path_new_def split_at_no component_of_def Let_def)

lemma dev_path_text: "text_name s \<Longrightarrow> dev_path r s = dev_root r @ [Normal ''dev'', Normal s]"
  by (simp add: dev_path_def path_new_text)

lemma path_new_dev:
  assumes "text_name s"
  shows "path_new (''dev/'' @ s) = [Normal ''dev'', Normal s]"
    and "path_new (''/dev/'' @ s) = [RootDir, Normal ''dev'', Normal s]"
proof -
  have "split_at (CHR ''/'') (''dev'' @ CHR ''/'' # s) = [''dev'', s]"
    using assms by (subst split_at_sep) (simp_all add: split_at_no text_name_def)
  then have "split_at (CHR ''/'') (''dev/'' @ s) = [''dev'', s]" "split_at (CHR ''/'') (''/dev/'' @ s) = [[], ''dev'', s]"
    by simp_all
  then show "path_new (''dev/'' @ s) = [Normal ''dev'', Normal s]"
    "path_new (''/dev/'' @ s) = [RootDir, Normal ''dev'', Normal s]"
    using assms by (simp_all add: path_new_def component_of_def text_name_def)
qed

lemma rooted_dev: "text_name s \<Longrightarrow> rooted r (''/dev/'' @ s) = dev_path r s"
  using path_new_dev [of s] by (simp add: rooted_def trim_slashes_def dev_path_text)

lemma file_name_dev_path: "text_name s \<Longrightarrow> file_name (dev_path r s) = Some s"
  by (simp add: dev_path_text file_name_def)

lemma dev_path_inj: "text_name s \<Longrightarrow> text_name t \<Longrightarrow> dev_path r s = dev_path r t \<longleftrightarrow> s = t"
  by (simp add: dev_path_text)

lemma link_target_text: "fs_ok fs r \<Longrightarrow> link_target fs dir entry = Some name \<Longrightarrow> text_name name"
  by (auto simp: link_target_def file_name_def split: option.splits if_splits component.splits)
    (metis fs_okD(3) last_in_set)

section \<open>The devices present\<close>

lemma map_filter_set: "y \<in> set (List.map_filter f xs) \<longleftrightarrow> (\<exists>x \<in> set xs. f x = Some y)"
  by (force simp: List.map_filter_def)

lemma lookup_listed:
  assumes "fs_ok fs r" and "text_name name" and "sysfs_lookup fs r name = Some info"
  shows "\<exists>names. fs_read_dir fs (tty_dir r) = Some names \<and> name \<in> set names"
proof -
  have "fs_canonicalize fs (join (join (tty_dir r) (path_new name)) [Normal ''device'']) \<noteq> None"
    using assms(3) by (auto simp: sysfs_lookup_def split: option.splits)
  then show ?thesis by (rule fs_okD(5) [OF assms(1,2)])
qed

lemma usb_devices_iff:
  assumes "fs_ok fs r"
  shows "(p, info) \<in> set (sysfs_usb_devices fs r) \<longleftrightarrow>
    (\<exists>name. text_name name \<and> p = dev_path r name \<and> is_dev_node fs p \<and> sysfs_lookup fs r name = Some info)"
    (is "?l \<longleftrightarrow> ?r")
proof
  assume ?l
  then obtain names name where n: "fs_read_dir fs (tty_dir r) = Some names" "name \<in> set names"
    "is_dev_node fs (dev_path r name)" "p = dev_path r name" "sysfs_lookup fs r name = Some info"
    by (cases "fs_read_dir fs (tty_dir r)") (auto simp: sysfs_usb_devices_def map_filter_set split: if_splits)
  with fs_okD(2) [OF assms] show ?r by blast
next
  assume ?r
  then obtain name where n: "text_name name" "p = dev_path r name" "is_dev_node fs p" "sysfs_lookup fs r name = Some info"
    by blast
  with lookup_listed [OF assms] obtain names where "fs_read_dir fs (tty_dir r) = Some names" "name \<in> set names" by blast
  with n show ?l by (force simp: sysfs_usb_devices_def map_filter_set)
qed

lemma distinct_map_filter_fst:
  assumes "distinct xs" and "\<And>x y. x \<in> set xs \<Longrightarrow> y \<in> set xs \<Longrightarrow> k x = k y \<Longrightarrow> x = y"
    and "\<And>x z. f x = Some z \<Longrightarrow> fst z = k x"
  shows "distinct (map fst (List.map_filter f xs))"
proof -
  have "map fst (List.map_filter f xs) = map k (filter (\<lambda>x. f x \<noteq> None) xs)"
    using assms(3) by (auto simp: List.map_filter_def)
  then show ?thesis using assms(1,2) by (auto simp: distinct_map inj_on_def)
qed

lemma usb_devices_distinct: "fs_ok fs r \<Longrightarrow> distinct (map fst (sysfs_usb_devices fs r))"
proof (cases "fs_read_dir fs (tty_dir r)")
  case (Some names)
  assume ok: "fs_ok fs r"
  have "distinct (map fst (List.map_filter (\<lambda>name. if is_dev_node fs (dev_path r name)
      then map_option (Pair (dev_path r name)) (sysfs_lookup fs r name) else None) (sort names)))"
    by (rule distinct_map_filter_fst [where k = "dev_path r"])
      (use fs_okD(1,2) [OF ok Some] dev_path_inj in \<open>auto split: if_splits\<close>)
  with Some show ?thesis by (simp add: sysfs_usb_devices_def)
qed (simp add: sysfs_usb_devices_def)

lemma matches_iff:
  "fs_ok fs r \<Longrightarrow> (p, info) \<in> set (usb_identity_matches fs r d) \<longleftrightarrow> (p, info) \<in> set (sysfs_usb_devices fs r) \<and> usb_identity info = d"
  by (simp add: usb_identity_matches_def)

lemma by_id_match:
  "fs_ok fs r \<Longrightarrow> find_by_id fs r d entries = Some (p, info) \<Longrightarrow> (p, info) \<in> set (usb_identity_matches fs r d)"
proof (induction entries)
  case (Cons entry entries)
  then show ?case
    by (auto simp: matches_iff usb_devices_iff link_target_text split: option.splits if_splits)
      (metis link_target_text)+
qed simp

lemma single_member: "length xs \<le> 1 \<Longrightarrow> x \<in> set xs \<Longrightarrow> xs = [x]"
  by (cases xs) auto

lemma same_fst: "distinct (map fst xs) \<Longrightarrow> (\<And>x. x \<in> set xs \<Longrightarrow> fst x = a) \<Longrightarrow> length xs \<le> 1"
  by (cases xs; cases "tl xs") auto

lemma find_usb_iff:
  assumes "fs_ok fs r"
  shows "find_usb fs r d = Some x \<longleftrightarrow> usb_identity_matches fs r d = [x]"
proof (cases "length (usb_identity_matches fs r d) > 1")
  case False
  then have le: "length (usb_identity_matches fs r d) \<le> 1" by simp
  have by_id: "usb_identity_matches fs r d = [y]" if "find_usb_by_id fs r d = Some y" for y
    using that single_member [OF le] by_id_match [OF assms] by (cases y) (auto simp: find_usb_by_id_def split: option.splits)
  show ?thesis
  proof (cases "find_usb_by_id fs r d")
    case None
    then show ?thesis using le by (cases "usb_identity_matches fs r d") (auto simp: find_usb_def)
  next
    case (Some y)
    then show ?thesis using by_id [OF Some] by (auto simp: find_usb_def)
  qed
qed (auto simp: find_usb_def)

section \<open>Identities\<close>

text \<open>A field of a \<open>usb:\<close> identity as the walk mints it.\<close>

definition field_ok :: "string \<Rightarrow> bool" where
  "field_ok f \<longleftrightarrow> f \<noteq> [] \<and> trim f = f \<and> \<not> utf8_cont (byte_of_char (hd f)) \<and> CHR '':'' \<notin> set f"

definition minted :: "string \<Rightarrow> bool" where
  "minted d \<longleftrightarrow> (\<exists>vid pid serial iface. list_all field_ok [vid, pid, serial, iface] \<and>
     d = ''usb:'' @ vid @ '':'' @ pid @ '':'' @ serial @ '':'' @ iface)"

definition trimmed_text :: "string option \<Rightarrow> bool" where
  "trimmed_text s \<longleftrightarrow> (\<forall>f. s = Some f \<longrightarrow> f \<noteq> [] \<and> trim f = f \<and> \<not> utf8_cont (byte_of_char (hd f)))"

lemma read_trimmed_text: "fs_ok fs r \<Longrightarrow> trimmed_text (non_blank (read_trimmed fs p))"
proof (unfold trimmed_text_def, intro allI impI)
  fix f assume ok: "fs_ok fs r" and f: "non_blank (read_trimmed fs p) = Some f"
  then obtain s where s: "fs_read_to_string fs p = Some s" "f = trim s" "f \<noteq> []"
    by (auto simp: non_blank_def read_trimmed_def split: if_splits)
  with fs_okD(4) [OF ok] have "is_str s" by blast
  with s trim_str_head [of s "hd f" "tl f"] show "f \<noteq> [] \<and> trim f = f \<and> \<not> utf8_cont (byte_of_char (hd f))"
    by (auto simp: trim_trim)
qed

lemma absent_field: "field_ok ''-''"
proof -
  have "white_head ''-'' = None" "white_last ''-'' = None"
    by (simp_all add: white_head_def white_last_def find_None_iff strip_prefix_def white_spellings_def)
  then have "trim ''-'' = ''-''" by (rule trim_fixed)
  moreover have "\<not> utf8_cont (byte_of_char (CHR ''-''))" by (simp add: utf8_cont_def byte_of_char_def)
  ultimately show ?thesis by (simp add: field_ok_def)
qed

lemma usb_info_minted:
  assumes "fs_ok fs r" and "trimmed_text interface" and "usb_info_at fs cur interface = Some info"
  shows "minted (usb_identity info)"
proof -
  from assms(3) obtain vid pid where
    v: "non_blank (read_trimmed fs (join cur [Normal ''idVendor''])) = Some vid"
    and p: "non_blank (read_trimmed fs (join cur [Normal ''idProduct''])) = Some pid"
    by (auto simp: usb_info_at_def split: option.splits)
  define serial where "serial = (case non_blank (read_trimmed fs (join cur [Normal ''serial''])) of Some s \<Rightarrow> s | None \<Rightarrow> ''-'')"
  define iface where "iface = (case interface of Some i \<Rightarrow> i | None \<Rightarrow> ''-'')"
  from assms(3) have id: "usb_identity info = ''usb:'' @ vid @ '':'' @ pid @ '':'' @ serial @ '':'' @ iface"
    and no: "list_all (\<lambda>f. CHR '':'' \<notin> set f) [vid, pid, serial, iface]"
    unfolding usb_info_at_def v p option.case prod.case Let_def serial_def [symmetric] iface_def [symmetric]
    by (auto split: if_splits)
  have "field_ok vid" "field_ok pid"
    using read_trimmed_text [OF assms(1)] v p no by (auto simp: field_ok_def trimmed_text_def simp flip: v p)
  moreover have "field_ok serial"
    using read_trimmed_text [OF assms(1), of "join cur [Normal ''serial'']"] absent_field no
    by (auto simp: serial_def field_ok_def trimmed_text_def split: option.splits)
  moreover have "field_ok iface"
    using assms(2) absent_field no by (auto simp: iface_def field_ok_def trimmed_text_def split: option.splits)
  ultimately show ?thesis unfolding minted_def id by (metis list.pred_inject)
qed

lemma walk_minted:
  "fs_ok fs r \<Longrightarrow> trimmed_text interface \<Longrightarrow> sysfs_walk fs guard n interface cur = Some info \<Longrightarrow> minted (usb_identity info)"
proof (induction fs guard n interface cur rule: sysfs_walk.induct)
  case (2 fs guard n interface cur)
  define i where "i = (if interface = None then non_blank (read_trimmed fs (join cur [Normal ''bInterfaceNumber''])) else interface)"
  have i: "trimmed_text i" using "2.prems"(1,2) read_trimmed_text by (simp add: i_def)
  show ?case
  proof (cases "path_exists fs (join cur [Normal ''idVendor''])")
    case True
    with "2.prems"(3) have "usb_info_at fs cur i = Some info" by (simp add: i_def Let_def)
    then show ?thesis by (rule usb_info_minted [OF "2.prems"(1) i])
  next
    case False
    with "2.prems"(3) obtain up where "parent cur = Some up" "up \<noteq> cur \<and> path_starts_with up guard"
      "sysfs_walk fs guard n i up = Some info"
      by (auto simp: i_def [symmetric] Let_def split: option.splits if_splits)
    with 2 False i show ?thesis by (auto simp: i_def)
  qed
qed simp

lemma lookup_minted: "fs_ok fs r \<Longrightarrow> sysfs_lookup fs r name = Some info \<Longrightarrow> minted (usb_identity info)"
  using walk_minted [of fs r None] by (auto simp: sysfs_lookup_def trimmed_text_def Let_def split: option.splits)

lemma minted_trim: "minted d \<Longrightarrow> trim d = d"
proof -
  assume "minted d"
  then obtain vid pid serial iface where d: "d = (''usb:'' @ vid @ '':'' @ pid @ '':'' @ serial @ '':'') @ iface"
    and i: "field_ok iface" by (auto simp: minted_def)
  have "white_last iface = None" using i trim_plain [of iface] by (simp add: field_ok_def)
  then show ?thesis unfolding d using i scheme_head(1) by (intro trim_kept) (simp_all add: field_ok_def)
qed

lemma minted_scheme: "minted d \<Longrightarrow> \<exists>rest. strip_prefix ''usb:'' d = Some rest \<and> d = ''usb:'' @ rest"
  by (auto simp: minted_def strip_prefix_def)

section \<open>Capture and resolution\<close>

text \<open>Resolution without the trimming it begins with.\<close>

definition resolve_verbatim :: "fs \<Rightarrow> Resolver \<Rightarrow> string \<Rightarrow> path option" where
  "resolve_verbatim fs r device =
     (case strip_prefix ''usb:'' device of
        Some _ \<Rightarrow> map_option fst (find_usb fs r device)
      | None \<Rightarrow>
     (case strip_prefix ''by-path:'' device of
        Some rest \<Rightarrow> bypath_lookup fs r rest
      | None \<Rightarrow>
     (case strip_prefix ''raw:'' device of
        Some rest \<Rightarrow> literal_dev_path fs r rest
      | None \<Rightarrow>
          if starts_with_slash device then literal_dev_path fs r device
          else (let found = devices_with_serial fs r device in if length found = 1 then Some (fst (hd found)) else None))))"

lemma resolve_trims: "resolve_current_path fs r d = resolve_verbatim fs r (trim d)"
  by (simp add: resolve_current_path_def resolve_verbatim_def Let_def)

lemma resolve_usb: "minted d \<Longrightarrow> resolve_current_path fs r d = map_option fst (find_usb fs r d)"
  using minted_scheme [of d] by (auto simp: resolve_current_path_def minted_trim)

lemma strip_schemes:
  "strip_prefix ''usb:'' (''by-path:'' @ s) = None" "strip_prefix ''usb:'' (''raw:'' @ s) = None"
  "strip_prefix ''by-path:'' (''by-path:'' @ s) = Some s" "strip_prefix ''by-path:'' (''raw:'' @ s) = None"
  "strip_prefix ''raw:'' (''raw:'' @ s) = Some s"
  by (simp_all add: strip_prefix_def)

definition fallback_identity :: "fs \<Rightarrow> Resolver \<Rightarrow> string \<Rightarrow> string \<Rightarrow> string" where
  "fallback_identity fs r name raw = (case bypath_of fs r name of Some port \<Rightarrow> ''by-path:'' @ port | None \<Rightarrow> ''raw:'' @ raw)"

lemma capture_identity:
  "res_identity (capture_for_dev fs r name p raw) =
     (case sysfs_lookup fs r name of
        Some info \<Rightarrow>
          if usb_serial_field (usb_identity info) \<noteq> Some ''-'' \<and> \<not> usb_identity_ambiguous fs r (usb_identity info)
          then usb_identity info else fallback_identity fs r name raw
      | None \<Rightarrow> fallback_identity fs r name raw)"
  by (simp add: capture_for_dev_def Let_def fallback_identity_def split: option.split)

lemma capture_resolves:
  assumes ok: "fs_ok fs r" and name: "text_name name" and node: "is_dev_node fs (dev_path r name)"
  shows "resolve_verbatim fs r (res_identity (capture_for_dev fs r name (dev_path r name) (''/dev/'' @ name))) =
    Some (dev_path r name)"
proof -
  let ?c = "capture_for_dev fs r name (dev_path r name) (''/dev/'' @ name)"
  have "(\<exists>info. sysfs_lookup fs r name = Some info \<and> \<not> usb_identity_ambiguous fs r (usb_identity info) \<and>
      res_identity ?c = usb_identity info) \<or> res_identity ?c = fallback_identity fs r name (''/dev/'' @ name)"
    by (simp add: capture_identity split: option.split)
  then consider (usb) info where "sysfs_lookup fs r name = Some info" "\<not> usb_identity_ambiguous fs r (usb_identity info)"
      "res_identity ?c = usb_identity info"
    | (port) port where "bypath_of fs r name = Some port" "res_identity ?c = ''by-path:'' @ port"
    | (raw) "res_identity ?c = ''raw:'' @ ''/dev/'' @ name"
    unfolding fallback_identity_def by (cases "bypath_of fs r name") (auto simp del: append.simps)
  then show ?thesis
  proof cases
    case usb
    have "(dev_path r name, info) \<in> set (usb_identity_matches fs r (usb_identity info))"
      using usb(1) ok name node by (auto simp: matches_iff usb_devices_iff)
    with usb(2) have "usb_identity_matches fs r (usb_identity info) = [(dev_path r name, info)]"
      by (intro single_member) (simp_all add: usb_identity_ambiguous_def)
    then have "find_usb fs r (usb_identity info) = Some (dev_path r name, info)" using find_usb_iff [OF ok] by blast
    then show ?thesis using minted_scheme [OF lookup_minted [OF ok usb(1)]] usb(3) by (auto simp: resolve_verbatim_def)
  next
    case port
    then obtain entries where e: "fs_read_dir fs (by_path_dir r) = Some entries" "port \<in> set entries"
      "link_target fs (by_path_dir r) port = Some name"
      by (auto simp: bypath_of_def find_Some_iff split: option.splits)
    have "bypath_lookup fs r port = Some (dev_path r name)" by (simp add: bypath_lookup_def e(3) node)
    then show ?thesis unfolding port(2) resolve_verbatim_def strip_schemes option.case .
  next
    case raw
    have "literal_dev_path fs r (''/dev/'' @ name) = Some (dev_path r name)"
      using node path_new_dev(2) [OF name] rooted_dev [OF name, of r]
      by (simp add: literal_dev_path_def check_literal_def is_dev_node_def)
    then show ?thesis
      unfolding raw resolve_verbatim_def strip_schemes option.case by simp
  qed
qed

lemma capture_usb_kept:
  assumes "fs_ok fs r" and "res_kind (capture_for_dev fs r name p raw) = Usb"
  shows "trim (res_identity (capture_for_dev fs r name p raw)) = res_identity (capture_for_dev fs r name p raw)"
proof -
  obtain info where "sysfs_lookup fs r name = Some info" "res_identity (capture_for_dev fs r name p raw) = usb_identity info"
    using assms(2) by (auto simp: capture_for_dev_def Let_def split: option.splits if_splits)
  with lookup_minted [OF assms(1)] minted_trim show ?thesis by metis
qed

lemma adapter_name:
  assumes "fs_ok fs r" and "a \<in> set (discover_adapters fs r)" and "file_name (ad_dev_path a) = Some name"
  shows "text_name name"
proof -
  from assms(2) obtain entry target where t: "fs_read_link fs (join (by_id_dir r) (path_new entry)) = Some target"
    "ad_dev_path a = dev_path r (name_or_empty target)"
    by (cases "fs_read_dir fs (by_id_dir r)")
      (auto simp: discover_adapters_def map_filter_set Let_def split: option.splits)
  show ?thesis
  proof (cases "file_name target")
    case None
    then have "ad_dev_path a = dev_root r @ [Normal ''dev'']"
      using t(2) by (simp add: name_or_empty_def dev_path_def path_new_def join_def)
    with assms(3) have "name = ''dev''" by (simp add: file_name_def)
    moreover have "is_str ''dev''" by (simp add: is_str_def as_bytes_def byte_of_char_def utf8_valid_ascii)
    ultimately show ?thesis by (simp add: text_name_def)
  next
    case (Some n)
    then have "Normal n \<in> set target"
      by (auto simp: file_name_def split: if_splits component.splits) (metis last_in_set)
    with fs_okD(3) [OF assms(1) t(1)] have "text_name n" .
    with Some t(2) assms(3) file_name_dev_path show ?thesis by (simp add: name_or_empty_def)
  qed
qed

lemma see_adapters_names:
  "fst ` set seen \<subseteq> A \<Longrightarrow> (\<And>a n. a \<in> set as \<Longrightarrow> file_name (ad_dev_path a) = Some n \<Longrightarrow> n \<in> A) \<Longrightarrow> btree_ok seen \<Longrightarrow>
     fst ` set (see_adapters as seen) \<subseteq> A \<and> btree_ok (see_adapters as seen)"
proof (induction as arbitrary: seen)
  case (Cons a as)
  have rest: "n \<in> A" if "b \<in> set as" "file_name (ad_dev_path b) = Some n" for b n
    using Cons.prems(2) [of b n] that by simp
  show ?case
  proof (cases "file_name (ad_dev_path a)")
    case None
    then have "see_adapters (a # as) seen = see_adapters as seen" by (simp add: see_adapters_def)
    with Cons.IH [OF Cons.prems(1) rest Cons.prems(3)] show ?thesis by simp
  next
    case (Some n)
    let ?seen = "btree_insert n (Some (ad_by_id_name a)) seen"
    have eq: "see_adapters (a # as) seen = see_adapters as ?seen" using Some by (simp add: see_adapters_def)
    have sub: "fst ` set ?seen \<subseteq> A" unfolding set_fst_btree_insert using Cons.prems(1) Cons.prems(2) [of a n] Some by simp
    show ?thesis unfolding eq by (rule Cons.IH [OF sub rest btree_insert_sorted [OF Cons.prems(3)]])
  qed
qed (simp add: see_adapters_def)

lemma or_insert_names:
  "fst ` set seen \<subseteq> A \<Longrightarrow> set names \<subseteq> A \<Longrightarrow> btree_ok seen \<Longrightarrow>
     fst ` set (fold or_insert names seen) \<subseteq> A \<and> btree_ok (fold or_insert names seen)"
proof (induction names arbitrary: seen)
  case (Cons n names)
  have "fst ` set (or_insert n seen) \<subseteq> A \<and> btree_ok (or_insert n seen)"
  proof (cases "btree_get seen n")
    case None
    have "fst ` set (btree_insert n None seen) \<subseteq> A" unfolding set_fst_btree_insert using Cons.prems by simp
    with None Cons.prems(3) show ?thesis by (simp add: or_insert_def btree_insert_sorted)
  qed (use Cons.prems in \<open>simp add: or_insert_def\<close>)
  with Cons.IH [of "or_insert n seen"] Cons.prems(2) show ?case by simp
qed simp

lemma port_names_text: "fs_ok fs r \<Longrightarrow> name \<in> set (port_names fs r) \<Longrightarrow> text_name name"
  unfolding port_names_def
  by (cases "fs_read_dir fs (by_path_dir r)"; cases "fs_read_dir fs (join (dev_root r) [Normal ''dev''])")
    (auto simp: map_filter_set usb_devices_iff file_name_dev_path dest: link_target_text fs_okD(2))

text \<open>The table of the device names seen, before the ones that are gone are left out.\<close>

definition seen_names :: "fs \<Rightarrow> Resolver \<Rightarrow> (string \<times> string option) list" where
  "seen_names fs r = fold or_insert (port_names fs r) (see_adapters (discover_adapters fs r) [])"

lemma seen_names_ok:
  assumes "fs_ok fs r"
  shows "fst ` set (seen_names fs r) \<subseteq> Collect text_name \<and> btree_ok (seen_names fs r)"
proof -
  have "fst ` set (see_adapters (discover_adapters fs r) []) \<subseteq> Collect text_name \<and>
      btree_ok (see_adapters (discover_adapters fs r) [])"
    using adapter_name [OF assms] by (intro see_adapters_names) (simp_all add: btree_ok_def)
  then show ?thesis
    unfolding seen_names_def using port_names_text [OF assms] by (intro or_insert_names) auto
qed

lemma enumerate_iff:
  assumes "fs_ok fs r"
  shows "c \<in> set (enumerate_ports fs r) \<longleftrightarrow>
    (\<exists>name by_id. (name, by_id) \<in> set (seen_names fs r) \<and> text_name name \<and> is_dev_node fs (dev_path r name) \<and>
       c = (let res = capture_for_dev fs r name (dev_path r name) (''/dev/'' @ name)
            in \<lparr>pc_identity = res_identity res, pc_kind = res_kind res, pc_path = dev_path r name,
                pc_description = res_description res, pc_by_id = by_id, pc_warning = res_warning res\<rparr>))"
proof -
  have "port_candidate fs r (name, by_id) = Some c \<longleftrightarrow> is_dev_node fs (dev_path r name) \<and>
      c = (let res = capture_for_dev fs r name (dev_path r name) (''/dev/'' @ name)
           in \<lparr>pc_identity = res_identity res, pc_kind = res_kind res, pc_path = dev_path r name,
               pc_description = res_description res, pc_by_id = by_id, pc_warning = res_warning res\<rparr>)"
    if "text_name name" for name by_id
    unfolding port_candidate_def Let_def prod.case rooted_dev [OF that] by auto
  moreover have "text_name name" if "(name, by_id) \<in> set (seen_names fs r)" for name by_id
    using seen_names_ok [OF assms] that by force
  ultimately show ?thesis
    unfolding enumerate_ports_def Let_def seen_names_def [symmetric] by (auto simp: map_filter_set) blast+
qed

lemma or_insert_grows: "fst ` set seen \<union> set names \<subseteq> fst ` set (fold or_insert names seen)"
proof (induction names arbitrary: seen)
  case (Cons n names)
  have "insert n (fst ` set seen) \<subseteq> fst ` set (or_insert n seen)"
  proof (cases "btree_get seen n")
    case None
    then show ?thesis by (simp add: or_insert_def set_fst_btree_insert)
  next
    case (Some v)
    then have "n \<in> fst ` set seen" by (induction seen n rule: btree_get.induct) (auto split: if_splits)
    with Some show ?thesis by (auto simp: or_insert_def)
  qed
  moreover have "fst ` set (or_insert n seen) \<union> set names \<subseteq> fst ` set (fold or_insert (n # names) seen)"
    using Cons.IH [of "or_insert n seen"] by simp
  moreover have "A \<union> insert n N \<subseteq> D" if "insert n A \<subseteq> B" "B \<union> N \<subseteq> D" for A B N D :: "string set"
    using that by blast
  ultimately show ?case unfolding list.set by blast
qed simp

lemma seen_all: "set (port_names fs r) \<subseteq> fst ` set (seen_names fs r)"
  using or_insert_grows unfolding seen_names_def by blast

lemma ports_distinct:
  assumes "fs_ok fs r"
  shows "distinct (map pc_path (enumerate_ports fs r))"
proof -
  let ?f = "port_candidate fs r"
  have named: "text_name (fst x)" if "x \<in> set (seen_names fs r)" for x using seen_names_ok [OF assms] that by auto
  have "pc_path c = dev_path r (fst x)" if "x \<in> set (seen_names fs r)" "?f x = Some c" for x c
    using that(2) rooted_dev [OF named [OF that(1)], of r]
    by (auto simp: port_candidate_def Let_def split: prod.splits if_splits)
  then have "map pc_path (List.map_filter ?f (seen_names fs r)) =
      map (\<lambda>x. dev_path r (fst x)) (filter (\<lambda>x. ?f x \<noteq> None) (seen_names fs r))"
    by (auto simp: List.map_filter_def)
  moreover have "distinct (map fst (seen_names fs r))" using seen_names_ok [OF assms] btree_distinct by blast
  ultimately have "distinct (map pc_path (List.map_filter ?f (seen_names fs r)))"
    using named by (auto simp: distinct_map inj_on_def dev_path_inj)
  then show ?thesis
    unfolding enumerate_ports_def Let_def seen_names_def [symmetric]
    by (metis distinct_map distinct_sort set_sort)
qed

section \<open>The promises\<close>

text \<open>
  C28: no wrong device is ever adopted. A \<open>usb:\<close> identity of the form the walk mints resolves to a path
  exactly when that path is a device node of a terminal whose own sysfs identity is that one, and no other
  present terminal carries it: a squatter on the old path is refused, and an identity two adapters share
  binds neither.
\<close>

theorem usb_resolution_exact:
  assumes "fs_ok fs r" and "minted d"
  shows "resolve_current_path fs r d = Some p \<longleftrightarrow>
    (\<exists>name info. text_name name \<and> p = dev_path r name \<and> is_dev_node fs p \<and>
       sysfs_lookup fs r name = Some info \<and> usb_identity info = d \<and>
       \<not> (\<exists>other info'. text_name other \<and> other \<noteq> name \<and> is_dev_node fs (dev_path r other) \<and>
            sysfs_lookup fs r other = Some info' \<and> usb_identity info' = d))" (is "_ \<longleftrightarrow> ?r")
proof -
  note iff = matches_iff [OF assms(1)] usb_devices_iff [OF assms(1)]
  have d: "distinct (map fst (usb_identity_matches fs r d))"
    using usb_devices_distinct [OF assms(1)] by (simp add: usb_identity_matches_def distinct_map_filter)
  have "resolve_current_path fs r d = Some p \<longleftrightarrow> (\<exists>info. usb_identity_matches fs r d = [(p, info)])"
    using find_usb_iff [OF assms(1)] by (auto simp: resolve_usb [OF assms(2)])
  also have "\<dots> \<longleftrightarrow> ?r"
  proof
    assume "\<exists>info. usb_identity_matches fs r d = [(p, info)]"
    then obtain info where m: "usb_identity_matches fs r d = [(p, info)]" by blast
    then have "(p, info) \<in> set (usb_identity_matches fs r d)" by simp
    then obtain name where n: "text_name name" "p = dev_path r name" "is_dev_node fs p"
      "sysfs_lookup fs r name = Some info" "usb_identity info = d" unfolding iff by blast
    moreover have False if "text_name other" "other \<noteq> name" "is_dev_node fs (dev_path r other)"
      "sysfs_lookup fs r other = Some info'" "usb_identity info' = d" for other info'
    proof -
      have "(dev_path r other, info') \<in> set (usb_identity_matches fs r d)" unfolding iff using that by blast
      with m n(2) have "dev_path r other = dev_path r name" by simp
      with that(1,2) n(1) show False by (simp add: dev_path_inj)
    qed
    ultimately show ?r by blast
  next
    assume ?r
    then obtain name info where n: "text_name name" "p = dev_path r name" "is_dev_node fs p"
      "sysfs_lookup fs r name = Some info" "usb_identity info = d"
      and only: "\<not> (\<exists>other info'. text_name other \<and> other \<noteq> name \<and> is_dev_node fs (dev_path r other) \<and>
            sysfs_lookup fs r other = Some info' \<and> usb_identity info' = d)" by blast
    have mem: "(p, info) \<in> set (usb_identity_matches fs r d)" unfolding iff using n by blast
    have "fst x = p" if "x \<in> set (usb_identity_matches fs r d)" for x
    proof (cases x)
      case (Pair q info')
      with that obtain other where o: "text_name other" "q = dev_path r other" "is_dev_node fs q"
        "sysfs_lookup fs r other = Some info'" "usb_identity info' = d" unfolding Pair iff by blast
      have "other = name" using only o(1,3-5) unfolding o(2) by blast
      with n(2) o(2) Pair show ?thesis by simp
    qed
    then have "length (usb_identity_matches fs r d) \<le> 1" by (rule same_fst [OF d])
    then show "\<exists>info. usb_identity_matches fs r d = [(p, info)]" using single_member mem by metis
  qed
  finally show ?thesis .
qed

text \<open>
  C29: \<open>ports\<close> offers what binding would use. Every candidate of the enumeration is a present device node; the
  identity it is listed under resolves back to exactly that node when it is a \<open>usb:\<close> one, and for the other kinds
  when it does not end in white space (resolution trims what it is given, capture does not); no two candidates are
  listed under the same identity; every present terminal with a sysfs identity is listed.
\<close>

theorem ports_resolve_back:
  assumes "fs_ok fs r"
  shows "list_all (\<lambda>c. is_dev_node fs (pc_path c) \<and>
      (pc_kind c = Usb \<or> trim (pc_identity c) = pc_identity c \<longrightarrow> resolve_current_path fs r (pc_identity c) = Some (pc_path c)))
      (enumerate_ports fs r) \<and>
    distinct (map pc_identity (enumerate_ports fs r)) \<and>
    fst ` set (sysfs_usb_devices fs r) \<subseteq> pc_path ` set (enumerate_ports fs r)"
proof (intro conjI)
  have binds: "is_dev_node fs (pc_path c) \<and> resolve_verbatim fs r (pc_identity c) = Some (pc_path c) \<and>
      (pc_kind c = Usb \<longrightarrow> trim (pc_identity c) = pc_identity c)"
    if "c \<in> set (enumerate_ports fs r)" for c
    using that capture_resolves [OF assms] capture_usb_kept [OF assms] unfolding enumerate_iff [OF assms] Let_def by auto
  then show "list_all (\<lambda>c. is_dev_node fs (pc_path c) \<and>
      (pc_kind c = Usb \<or> trim (pc_identity c) = pc_identity c \<longrightarrow> resolve_current_path fs r (pc_identity c) = Some (pc_path c)))
      (enumerate_ports fs r)" by (auto simp: list_all_iff resolve_trims)
  have "distinct (map pc_path (enumerate_ports fs r))" by (rule ports_distinct [OF assms])
  moreover have "pc_path c = pc_path c'" if "c \<in> set (enumerate_ports fs r)" "c' \<in> set (enumerate_ports fs r)"
    "pc_identity c = pc_identity c'" for c c'
    using binds [OF that(1)] binds [OF that(2)] that(3) by simp
  ultimately show "distinct (map pc_identity (enumerate_ports fs r))"
    unfolding distinct_map inj_on_def by blast
  show "fst ` set (sysfs_usb_devices fs r) \<subseteq> pc_path ` set (enumerate_ports fs r)"
  proof
    fix p assume "p \<in> fst ` set (sysfs_usb_devices fs r)"
    then obtain info where "(p, info) \<in> set (sysfs_usb_devices fs r)" by auto
    moreover from this obtain name where n: "text_name name" "p = dev_path r name" "is_dev_node fs p"
      using usb_devices_iff [OF assms] by blast
    ultimately have "name \<in> set (port_names fs r)"
      using file_name_dev_path [OF n(1), of r] unfolding port_names_def set_append Un_iff map_filter_set by auto
    with n(1) obtain by_id where "(name, by_id) \<in> set (seen_names fs r)" using seen_all [of fs r] by auto
    with n enumerate_iff [OF assms] show "p \<in> pc_path ` set (enumerate_ports fs r)" by (force simp: Let_def)
  qed
qed

lemma parts_trim_slashes:
  "filter (\<lambda>p. p \<noteq> []) (split_at (CHR ''/'') (trim_slashes s)) = filter (\<lambda>p. p \<noteq> []) (split_at (CHR ''/'') s)"
  by (induction s) (simp_all add: trim_slashes_def)

lemma component_of_eq: "component_of s = ParentDir \<longleftrightarrow> s = ''..''" "component_of s \<noteq> RootDir"
  by (simp_all add: component_of_def)

lemma ParentDir_path_new:
  "ParentDir \<in> set (path_new s) \<longleftrightarrow> ''..'' \<in> set (filter (\<lambda>p. p \<noteq> []) (split_at (CHR ''/'') s))"
  unfolding path_new_def Let_def
  by (cases "filter (\<lambda>p. p \<noteq> []) (split_at (CHR ''/'') s)")
    (auto simp: component_of_eq image_iff eq_commute [of ParentDir])

lemma trim_slashes_head: "trim_slashes s = c # t \<Longrightarrow> c \<noteq> CHR ''/''"
  by (metis (mono_tags, lifting) dropWhile_eq_Cons_conv trim_slashes_def)

lemma relative_path: "RootDir \<notin> set (path_new (trim_slashes s))"
  using trim_slashes_head [of s] component_of_eq(2) [THEN not_sym]
  by (cases "trim_slashes s") (auto simp: path_new_def Let_def split: list.splits)

lemma rooted_contained:
  assumes "ParentDir \<notin> set (path_new s)"
  shows "\<exists>cs. rooted r s = dev_root r @ cs \<and> ParentDir \<notin> set cs"
proof -
  let ?q = "path_new (trim_slashes s)"
  have "ParentDir \<notin> set ?q" using assms unfolding ParentDir_path_new parts_trim_slashes .
  with relative_path [of s] show ?thesis by (cases ?q) (auto simp: rooted_def join_def)
qed

text \<open>
  Nothing outside the device root is ever bound: whatever a stored device string says, a path it
  resolves to lies under the root, without a parent-directory component below it, and is a present device
  node.
\<close>

theorem bound_path_contained:
  assumes "fs_ok fs r" and "resolve_current_path fs r d = Some p"
  shows "is_dev_node fs p \<and> (\<exists>cs. p = dev_root r @ cs \<and> ParentDir \<notin> set cs)"
proof -
  have listed: "is_dev_node fs q \<and> (\<exists>cs. q = dev_root r @ cs \<and> ParentDir \<notin> set cs)"
    if "(q, info) \<in> set (sysfs_usb_devices fs r)" for q info
    using that unfolding usb_devices_iff [OF assms(1)] by (auto simp: dev_path_text)
  have usb: "is_dev_node fs p \<and> (\<exists>cs. p = dev_root r @ cs \<and> ParentDir \<notin> set cs)" if "map_option fst (find_usb fs r i) = Some p" for i
  proof -
    from that obtain info where "find_usb fs r i = Some (p, info)" by auto
    then have "(p, info) \<in> set (usb_identity_matches fs r i)" unfolding find_usb_iff [OF assms(1)] by simp
    then show ?thesis using listed by (auto simp: usb_identity_matches_def)
  qed
  have serial: "is_dev_node fs p \<and> (\<exists>cs. p = dev_root r @ cs \<and> ParentDir \<notin> set cs)"
    if "(let found = devices_with_serial fs r i in if length found = 1 then Some (fst (hd found)) else None) = Some p" for i
  proof -
    from that obtain x where "devices_with_serial fs r i = [x]" "p = fst x"
      by (auto simp: Let_def length_Suc_conv split: if_splits)
    then have "x \<in> set (sysfs_usb_devices fs r)"
      by (metis devices_with_serial_def empty_iff empty_set filter_is_subset list.set_intros(1) subsetD)
    with \<open>p = fst x\<close> show ?thesis using listed by (cases x) auto
  qed
  have port: "is_dev_node fs p \<and> (\<exists>cs. p = dev_root r @ cs \<and> ParentDir \<notin> set cs)" if "bypath_lookup fs r i = Some p" for i
    using that link_target_text [OF assms(1)]
    by (auto simp: bypath_lookup_def dev_path_text split: option.splits if_splits)
  have literal: "is_dev_node fs p \<and> (\<exists>cs. p = dev_root r @ cs \<and> ParentDir \<notin> set cs)" if "literal_dev_path fs r i = Some p" for i
  proof -
    from that have "ParentDir \<notin> set (path_new i)" "p = rooted r i" "is_dev_node fs p"
      by (auto simp: literal_dev_path_def check_literal_def split: if_splits)
    with rooted_contained [of i r] show ?thesis by simp
  qed
  show ?thesis
    using assms(2) usb port literal serial unfolding resolve_current_path_def
    by (auto simp only: Let_def split: option.splits if_splits)
qed

text \<open>
  Input in identity form is judged by its spelling, not by what is plugged in: a \<open>usb:\<close> identity is
  accepted exactly when it has four fields and none is blank, a \<open>by-path:\<close> one exactly when its port is
  not empty, the identity stored is the input itself, and only a path or a serial number is ever refused
  because its device is absent.
\<close>

theorem identity_input_by_spelling:
  "(trim given = ''usb:'' @ rest \<longrightarrow>
      (case resolve_input fs r given of
         Inr res \<Rightarrow> length (split_at (CHR '':'') rest) = 4 \<and> list_all (\<lambda>f. trim f \<noteq> []) (split_at (CHR '':'') rest) \<and>
           res_identity res = trim given
       | Inl e \<Rightarrow> \<not> (length (split_at (CHR '':'') rest) = 4 \<and> list_all (\<lambda>f. trim f \<noteq> []) (split_at (CHR '':'') rest)))) \<and>
   (trim given = ''by-path:'' @ rest \<longrightarrow>
      (case resolve_input fs r given of
         Inr res \<Rightarrow> rest \<noteq> [] \<and> res_identity res = trim given | Inl e \<Rightarrow> rest = [])) \<and>
   (resolve_input fs r given = Err (NotPresent i) \<longrightarrow>
      (\<forall>kind tail. trim given \<noteq> scheme kind @ '':'' @ tail))"
proof (intro conjI impI)
  assume t: "trim given = ''usb:'' @ rest"
  have "strip_prefix ''usb:'' (trim given) = Some rest" unfolding t by (simp add: strip_prefix_def)
  then have "resolve_input fs r given = resolve_usb_identity fs r (trim given) rest"
    using t by (simp add: resolve_input_def Let_def)
  then show "case resolve_input fs r given of
         Inr res \<Rightarrow> length (split_at (CHR '':'') rest) = 4 \<and> list_all (\<lambda>f. trim f \<noteq> []) (split_at (CHR '':'') rest) \<and>
           res_identity res = trim given
       | Inl e \<Rightarrow> \<not> (length (split_at (CHR '':'') rest) = 4 \<and> list_all (\<lambda>f. trim f \<noteq> []) (split_at (CHR '':'') rest))"
    by (auto simp: resolve_usb_identity_def Let_def list_ex_iff list_all_iff split: if_splits option.splits prod.splits)
next
  assume t: "trim given = ''by-path:'' @ rest"
  then have "resolve_input fs r given = resolve_bypath_identity fs r (trim given) rest"
    unfolding resolve_input_def Let_def t strip_schemes option.case by simp
  then show "case resolve_input fs r given of Inr res \<Rightarrow> rest \<noteq> [] \<and> res_identity res = trim given | Inl e \<Rightarrow> rest = []"
    by (simp add: resolve_bypath_identity_def)
next
  assume e: "resolve_input fs r given = Err (NotPresent i)"
  show "\<forall>kind tail. trim given \<noteq> scheme kind @ '':'' @ tail"
  proof (intro allI notI)
    fix kind tail assume t: "trim given = scheme kind @ '':'' @ tail"
    have no_usb: "resolve_usb_identity fs r x tail \<noteq> Err (NotPresent i)" for x
      by (auto simp: resolve_usb_identity_def Let_def split: prod.splits)
    have no_raw: "resolve_raw_identity fs r x tail \<noteq> Err (NotPresent i)" for x
      by (auto simp: resolve_raw_identity_def check_literal_def)
    show False
    proof (cases kind)
      case Usb
      then have "strip_prefix ''usb:'' (trim given) = Some tail" unfolding t by (simp add: strip_prefix_def)
      with e no_usb t Usb show False by (simp add: resolve_input_def Let_def)
    next
      case ByPath
      then have t': "trim given = ''by-path:'' @ tail" using t by simp
      show False using e unfolding resolve_input_def Let_def t' strip_schemes option.case
        by (simp add: resolve_bypath_identity_def split: if_splits)
    next
      case Raw
      then have t': "trim given = ''raw:'' @ tail" using t by simp
      show False using e no_raw unfolding resolve_input_def Let_def t' strip_schemes option.case
        by (simp split: if_splits)
    qed
  qed
qed

section \<open>A machine with one adapter\<close>

definition adapter_dir :: path where
  "adapter_dir = [RootDir, Normal ''sys'', Normal ''devices'', Normal ''usb1'']"

definition example_fs :: fs where
  "example_fs =
     \<lparr>fs_read_dir = (\<lambda>p. if p = [RootDir, Normal ''sys'', Normal ''class'', Normal ''tty''] then Some [''ttyUSB0''] else None),
      fs_read_link = (\<lambda>p. None),
      fs_canonicalize = (\<lambda>p. if p = [RootDir, Normal ''sys'', Normal ''class'', Normal ''tty'', Normal ''ttyUSB0'', Normal ''device'']
        then Some (adapter_dir @ [Normal ''if0'']) else if p = [RootDir, Normal ''sys''] then Some p else None),
      fs_is_dir = (\<lambda>p. if p = [RootDir, Normal ''dev'', Normal ''ttyUSB0''] \<or> p = adapter_dir @ [Normal ''idVendor'']
        then Some False else None),
      fs_read_to_string = (\<lambda>p. if p = adapter_dir @ [Normal ''idVendor''] then Some ''0403\<newline>''
        else if p = adapter_dir @ [Normal ''idProduct''] then Some ''6001\<newline>''
        else if p = adapter_dir @ [Normal ''serial''] then Some ''A1\<newline>'' else None)\<rparr>"

definition example_resolver :: Resolver where
  "example_resolver = resolver_new [RootDir]"

lemma example_tty: "tty_dir example_resolver = [RootDir, Normal ''sys'', Normal ''class'', Normal ''tty'']"
  by (simp add: tty_dir_def example_resolver_def resolver_new_def)

lemma example_name: "text_name ''ttyUSB0''"
  by code_simp

lemma example_fs_ok: "fs_ok example_fs example_resolver"
  unfolding fs_ok_def example_tty
proof (intro conjI allI impI, goal_cases)
  case (1 dir names)
  then show ?case by (auto simp: example_fs_def split: if_splits)
next
  case (2 dir names)
  then show ?case using example_name by (auto simp: example_fs_def split: if_splits)
next
  case (3 p t s)
  then show ?case by (simp add: example_fs_def)
next
  case (4 p s)
  have "is_str ''0403\<newline>'' \<and> is_str ''6001\<newline>'' \<and> is_str ''A1\<newline>''" by code_simp
  with 4 show ?case by (auto simp: example_fs_def split: if_splits)
next
  case (5 name)
  then have "name = ''ttyUSB0''" by (auto simp: example_fs_def path_new_text split: if_splits)
  then show ?case by (simp add: example_fs_def)
qed

lemma example_lookup:
  "map_option usb_identity (sysfs_lookup example_fs example_resolver ''ttyUSB0'') = Some ''usb:0403:6001:A1:-''"
  by code_simp

lemma example_found: "resolve_current_path example_fs example_resolver ''usb:0403:6001:A1:-'' = Some [RootDir, Normal ''dev'', Normal ''ttyUSB0'']"
  by code_simp

theorem usb_resolution_exact_witness:
  "fs_ok example_fs example_resolver \<and> minted ''usb:0403:6001:A1:-'' \<and>
   (\<exists>name info. text_name name \<and> sysfs_lookup example_fs example_resolver name = Some info \<and>
      usb_identity info = ''usb:0403:6001:A1:-'')"
proof -
  obtain info where "sysfs_lookup example_fs example_resolver ''ttyUSB0'' = Some info" "usb_identity info = ''usb:0403:6001:A1:-''"
    using example_lookup by auto
  then have m: "minted ''usb:0403:6001:A1:-''" using lookup_minted [OF example_fs_ok] by metis
  from usb_resolution_exact [OF example_fs_ok m] example_found show ?thesis using example_fs_ok m by blast
qed

theorem ports_resolve_back_witness:
  "map pc_identity (enumerate_ports example_fs example_resolver) = [''usb:0403:6001:A1:-''] \<and>
   list_all (\<lambda>c. resolve_current_path example_fs example_resolver (pc_identity c) = Some (pc_path c))
     (enumerate_ports example_fs example_resolver)"
proof
  show "map pc_identity (enumerate_ports example_fs example_resolver) = [''usb:0403:6001:A1:-'']" by code_simp
  have "list_all (\<lambda>c. pc_kind c = Usb) (enumerate_ports example_fs example_resolver)" by code_simp
  then show "list_all (\<lambda>c. resolve_current_path example_fs example_resolver (pc_identity c) = Some (pc_path c))
      (enumerate_ports example_fs example_resolver)"
    using ports_resolve_back [OF example_fs_ok] by (simp add: list_all_iff)
qed





theorem bound_path_contained_witness:
  "is_dev_node example_fs [RootDir, Normal ''dev'', Normal ''ttyUSB0'']"
  using bound_path_contained [OF example_fs_ok example_found] by simp

theorem identity_input_by_spelling_witness:
  "\<exists>res. resolve_input example_fs example_resolver ''usb:0403:6001:A1:-'' = Ok res \<and> res_identity res = ''usb:0403:6001:A1:-''"
proof -
  have t: "trim ''usb:0403:6001:A1:-'' = ''usb:'' @ ''0403:6001:A1:-''" by code_simp
  have "length (split_at (CHR '':'') ''0403:6001:A1:-'') = 4 \<and> list_all (\<lambda>f. trim f \<noteq> []) (split_at (CHR '':'') ''0403:6001:A1:-'')"
    by code_simp
  with t identity_input_by_spelling [of "''usb:0403:6001:A1:-''" "''0403:6001:A1:-''" example_fs example_resolver]
  show ?thesis by (cases "resolve_input example_fs example_resolver ''usb:0403:6001:A1:-''") auto
qed

end
