(* ===== verification/Node_State.thy ===== *)
theory Node_State
  imports Prelude
begin

text \<open>
  A node's observed status with the moment it last changed (\<open>core/src/state.rs\<close>). The wall clock is an
  argument: milliseconds since the epoch, negative before it.
\<close>

datatype NodeStatus = Active | Waiting string | Faulted string

fun status_is_active :: "NodeStatus \<Rightarrow> bool" where
  "status_is_active Active \<longleftrightarrow> True"
| "status_is_active (Waiting r) \<longleftrightarrow> False"
| "status_is_active (Faulted r) \<longleftrightarrow> False"

fun status_reason :: "NodeStatus \<Rightarrow> string option" where
  "status_reason Active = None"
| "status_reason (Waiting r) = Some r"
| "status_reason (Faulted r) = Some r"

record NodeState =
  ns_status :: NodeStatus
  ns_since_unix_ms :: u64

definition now_unix_ms :: "int \<Rightarrow> u64" where
  "now_unix_ms clock = (if clock < 0 then 0 else if clock > uint (- 1 :: u64) then - 1 else word_of_int clock)"

definition new_at :: "NodeStatus \<Rightarrow> u64 \<Rightarrow> NodeState" where
  "new_at status unix_ms = \<lparr>ns_status = status, ns_since_unix_ms = unix_ms\<rparr>"

definition set_at :: "NodeStatus \<Rightarrow> u64 \<Rightarrow> NodeState \<Rightarrow> bool \<times> NodeState" where
  "set_at status unix_ms st =
     (if ns_status st = status then (False, st)
      else (True, st\<lparr>ns_status := status, ns_since_unix_ms := unix_ms\<rparr>))"

definition state_new :: "NodeStatus \<Rightarrow> int \<Rightarrow> NodeState" where
  "state_new status clock = new_at status (now_unix_ms clock)"

definition state_set :: "NodeStatus \<Rightarrow> int \<Rightarrow> NodeState \<Rightarrow> bool \<times> NodeState" where
  "state_set status clock st = set_at status (now_unix_ms clock) st"

definition is_active :: "NodeState \<Rightarrow> bool" where
  "is_active st = status_is_active (ns_status st)"

definition reason :: "NodeState \<Rightarrow> string option" where
  "reason st = status_reason (ns_status st)"

section \<open>Histories\<close>

text \<open>A node polled over time: each report with the clock it was made at, and what \<open>set\<close> answered.\<close>

fun reports :: "(NodeStatus \<times> int) list \<Rightarrow> NodeState \<Rightarrow> bool list \<times> NodeState" where
  "reports [] st = ([], st)"
| "reports ((s, c) # rs) st =
     (let (changed, st) = state_set s c st; (rest, st) = reports rs st in (changed # rest, st))"

text \<open>The clock at which the condition that now holds began: the start of the last stretch of equal reports.\<close>

fun began :: "NodeStatus \<Rightarrow> int \<Rightarrow> (NodeStatus \<times> int) list \<Rightarrow> NodeStatus \<times> int" where
  "began s c [] = (s, c)"
| "began s c ((t, d) # rs) = (if t = s then began s c rs else began t d rs)"

fun changes :: "NodeStatus \<Rightarrow> NodeStatus list \<Rightarrow> bool list" where
  "changes s [] = []"
| "changes s (t # ts) = (t \<noteq> s) # changes t ts"

lemma reports_from:
  "reports rs (state_new s c) = (changes s (map fst rs), state_new (fst (began s c rs)) (snd (began s c rs)))"
proof (induction rs arbitrary: s c)
  case (Cons r rs)
  obtain t d where r: "r = (t, d)" by (cases r)
  have "state_set t d (state_new s c) = (t \<noteq> s, if t = s then state_new s c else state_new t d)"
    by (simp add: state_set_def set_at_def state_new_def new_at_def eq_commute)
  then show ?case using Cons by (simp add: r split: if_splits)
qed simp

lemma began_last: "fst (began s c rs) = last (s # map fst rs)"
  by (induction s c rs rule: began.induct) auto

text \<open>
  The start of that stretch: everything reported since is the same condition, and what was reported just
  before it was another.
\<close>

definition stretch :: "(NodeStatus \<times> int) list \<Rightarrow> NodeStatus \<times> int \<Rightarrow> bool" where
  "stretch hist b \<longleftrightarrow> (\<exists>before after. hist = before @ b # after \<and> list_all (\<lambda>r. fst r = fst b) after \<and>
     (before = [] \<or> fst (last before) \<noteq> fst b))"

lemma stretchI:
  "hist = before @ b # after \<Longrightarrow> list_all (\<lambda>r. fst r = fst b) after \<Longrightarrow> before = [] \<or> fst (last before) \<noteq> fst b \<Longrightarrow>
     stretch hist b"
  unfolding stretch_def by blast

lemma stretch_repeat: "stretch ((s, c) # rs) b \<Longrightarrow> stretch ((s, c) # (s, d) # rs) b"
proof -
  assume "stretch ((s, c) # rs) b"
  then obtain before after where b: "(s, c) # rs = before @ b # after" "list_all (\<lambda>r. fst r = fst b) after"
    "before = [] \<or> fst (last before) \<noteq> fst b" unfolding stretch_def by blast
  show ?thesis
  proof (cases before)
    case Nil
    with b show ?thesis by (intro stretchI [of _ "[]" _ "(s, d) # after"]) auto
  next
    case (Cons x xs)
    with b show ?thesis by (intro stretchI [of _ "(s, c) # (s, d) # xs" _ after]) (auto split: if_splits)
  qed
qed

lemma stretch_change: "stretch ((t, d) # rs) b \<Longrightarrow> s \<noteq> t \<Longrightarrow> stretch ((s, c) # (t, d) # rs) b"
proof -
  assume st: "stretch ((t, d) # rs) b" and "s \<noteq> t"
  then obtain before after where b: "(t, d) # rs = before @ b # after" "list_all (\<lambda>r. fst r = fst b) after"
    "before = [] \<or> fst (last before) \<noteq> fst b" unfolding stretch_def by blast
  with \<open>s \<noteq> t\<close> show ?thesis
    by (cases before) (auto intro!: stretchI [of _ "(s, c) # before" _ after])
qed

lemma began_stretch: "stretch ((s, c) # rs) (began s c rs)"
proof (induction s c rs rule: began.induct)
  case (1 s c)
  show ?case by (intro stretchI [of _ "[]" _ "[]"]) simp_all
next
  case (2 s c t d rs)
  then show ?case by (auto intro: stretch_repeat stretch_change)
qed

text \<open>
  The stamp is the age of the condition, not of the last poll. However often a node is polled, its state
  is the last report, stamped with the clock at which the current unbroken stretch of that same report
  began; and \<open>set\<close> answers true exactly for the reports that differ from the one before.
\<close>

theorem stamp_is_condition_age:
  "\<exists>t. stretch ((s, c) # rs) (last (s # map fst rs), t) \<and>
     reports rs (state_new s c) =
       (changes s (map fst rs), \<lparr>ns_status = last (s # map fst rs), ns_since_unix_ms = now_unix_ms t\<rparr>)"
proof -
  have "began s c rs = (last (s # map fst rs), snd (began s c rs))" by (metis began_last prod.collapse)
  with began_stretch [of s c rs] reports_from [of rs s c] show ?thesis
    by (intro exI [of _ "snd (began s c rs)"]) (simp add: began_last state_new_def new_at_def)
qed

end
