(* ===== verification/Wiring.thy ===== *)
theory Wiring
  imports Lock Config Tap_Hub
begin

text \<open>
  The wiring of the data plane (\<open>daemon/src/runtime.rs\<close>): the lock cell of a host-facing endpoint, its
  fan-out list, the edge slot and the edge inbox of a target-facing endpoint, and the one implementation of
  attaching an edge, which both the plan built at load and the \<open>connect\<close> verb use. The sources share these
  objects through \<open>Rc\<close> and \<open>Arc\<close>; here they live in a heap, a handle is the number an object was allocated
  under, and two handles are the same object exactly when they are the same number. Handles are never reused.
  The receiving halves of the channels belong to the node tasks: what those do to an inbox is a step of the
  surroundings (\<open>Live_Graph\<close>).
\<close>

section \<open>Shared objects\<close>

type_synonym handle = nat

record LockCell =
  lc_endpoint :: string
  lc_lock :: EndpointLock
  lc_closed :: bool
  lc_wakes :: nat

text \<open>\<open>lc_wakes\<close> counts the calls of \<open>Notify::notify_waiters\<close>, which is all a parked waiter observes.\<close>

record AttachedSink =
  sink_target :: EndpointAddr
  sink_tx :: handle
  sink_counters :: handle

record TargetEdge =
  edge_registered :: "(handle \<times> OriginId) option"
  edge_writer :: "handle option"
  edge_attached :: bool

record Inbox =
  inbox_queue :: "handle list"
  inbox_open :: bool

record 're heap =
  hp_next :: handle
  hp_cells :: "handle \<Rightarrow> LockCell"
  hp_fanouts :: "handle \<Rightarrow> AttachedSink list"
  hp_slots :: "handle \<Rightarrow> TargetEdge"
  hp_inboxes :: "handle \<Rightarrow> Inbox"
  hp_depths :: "handle \<Rightarrow> nat"
  hp_hubs :: "handle \<Rightarrow> 're TapHub"
  hp_next_epoch :: u64

definition CHANNEL_CAP :: nat where
  "CHANNEL_CAP = 256"

definition EDGE_INBOX_CAP :: nat where
  "EDGE_INBOX_CAP = 4"

definition SEND_ORIGIN_BASE :: u64 where
  "SEND_ORIGIN_BASE = 1099511627776"

definition lock_cell_new :: "string \<Rightarrow> EndpointLock \<Rightarrow> LockCell" where
  "lock_cell_new endpoint l = \<lparr>lc_endpoint = endpoint, lc_lock = l, lc_closed = False, lc_wakes = 0\<rparr>"

definition unattached_edge :: TargetEdge where
  "unattached_edge = \<lparr>edge_registered = None, edge_writer = None, edge_attached = False\<rparr>"

definition heap_empty :: "'re heap" where
  "heap_empty =
     \<lparr>hp_next = 0, hp_cells = (\<lambda>_. lock_cell_new [] (lock_new Exclusive)), hp_fanouts = (\<lambda>_. []),
      hp_slots = (\<lambda>_. unattached_edge), hp_inboxes = (\<lambda>_. \<lparr>inbox_queue = [], inbox_open = False\<rparr>),
      hp_depths = (\<lambda>_. 0), hp_hubs = (\<lambda>_. hub_new [] 0 0), hp_next_epoch = 0\<rparr>"

section \<open>Allocation\<close>

definition new_cell :: "LockCell \<Rightarrow> 're heap \<Rightarrow> handle \<times> 're heap" where
  "new_cell c hp = (hp_next hp, hp\<lparr>hp_cells := (hp_cells hp)(hp_next hp := c), hp_next := Suc (hp_next hp)\<rparr>)"

definition new_fanout :: "'re heap \<Rightarrow> handle \<times> 're heap" where
  "new_fanout hp = (hp_next hp, hp\<lparr>hp_fanouts := (hp_fanouts hp)(hp_next hp := []), hp_next := Suc (hp_next hp)\<rparr>)"

definition new_slot :: "'re heap \<Rightarrow> handle \<times> 're heap" where
  "new_slot hp =
     (hp_next hp, hp\<lparr>hp_slots := (hp_slots hp)(hp_next hp := unattached_edge), hp_next := Suc (hp_next hp)\<rparr>)"

definition new_inbox :: "'re heap \<Rightarrow> handle \<times> 're heap" where
  "new_inbox hp =
     (hp_next hp, hp\<lparr>hp_inboxes := (hp_inboxes hp)(hp_next hp := \<lparr>inbox_queue = [], inbox_open = True\<rparr>),
        hp_next := Suc (hp_next hp)\<rparr>)"

definition new_channel :: "nat \<Rightarrow> 're heap \<Rightarrow> handle \<times> 're heap" where
  "new_channel depth hp =
     (hp_next hp, hp\<lparr>hp_depths := (hp_depths hp)(hp_next hp := depth), hp_next := Suc (hp_next hp)\<rparr>)"

definition new_counters :: "'re heap \<Rightarrow> handle \<times> 're heap" where
  "new_counters hp = (hp_next hp, hp\<lparr>hp_next := Suc (hp_next hp)\<rparr>)"

definition new_hub :: "string \<Rightarrow> nat \<Rightarrow> 're heap \<Rightarrow> handle \<times> 're heap" where
  "new_hub endpoint cap hp =
     (hp_next hp, hp\<lparr>hp_hubs := (hp_hubs hp)(hp_next hp := hub_new endpoint cap (hp_next_epoch hp)),
        hp_next := Suc (hp_next hp), hp_next_epoch := hp_next_epoch hp + 1\<rparr>)"

lemmas alloc_defs = new_cell_def new_fanout_def new_slot_def new_inbox_def new_channel_def new_counters_def
  new_hub_def

section \<open>Lock cells\<close>

definition with_lock :: "handle \<Rightarrow> (EndpointLock \<Rightarrow> EndpointLock) \<Rightarrow> 're heap \<Rightarrow> 're heap" where
  "with_lock c f hp =
     hp\<lparr>hp_cells := (hp_cells hp)(c := (hp_cells hp c)\<lparr>lc_lock := f (lc_lock (hp_cells hp c))\<rparr>)\<rparr>"

definition wake_waiters :: "handle \<Rightarrow> 're heap \<Rightarrow> 're heap" where
  "wake_waiters c hp =
     hp\<lparr>hp_cells := (hp_cells hp)(c := (hp_cells hp c)\<lparr>lc_wakes := Suc (lc_wakes (hp_cells hp c))\<rparr>)\<rparr>"

definition close_cell :: "handle \<Rightarrow> 're heap \<Rightarrow> 're heap" where
  "close_cell c hp =
     wake_waiters c (hp\<lparr>hp_cells := (hp_cells hp)(c := (hp_cells hp c)\<lparr>lc_closed := True\<rparr>)\<rparr>)"

abbreviation lock_at :: "'re heap \<Rightarrow> handle \<Rightarrow> EndpointLock" where
  "lock_at hp c \<equiv> lc_lock (hp_cells hp c)"

section \<open>Fan-out lists and edge slots\<close>

definition fanout_attach :: "handle \<Rightarrow> AttachedSink \<Rightarrow> 're heap \<Rightarrow> 're heap" where
  "fanout_attach f sink hp = hp\<lparr>hp_fanouts := (hp_fanouts hp)(f := hp_fanouts hp f @ [sink])\<rparr>"

definition fanout_detach :: "handle \<Rightarrow> EndpointAddr \<Rightarrow> 're heap \<Rightarrow> bool \<times> 're heap" where
  "fanout_detach f target hp =
     (let kept = filter (\<lambda>s. sink_target s \<noteq> target) (hp_fanouts hp f)
      in (length kept \<noteq> length (hp_fanouts hp f), hp\<lparr>hp_fanouts := (hp_fanouts hp)(f := kept)\<rparr>))"

definition with_slot :: "handle \<Rightarrow> (TargetEdge \<Rightarrow> TargetEdge) \<Rightarrow> 're heap \<Rightarrow> 're heap" where
  "with_slot s f hp = hp\<lparr>hp_slots := (hp_slots hp)(s := f (hp_slots hp s))\<rparr>"

text \<open>The writable binding of a slot: sender, lock and origin id.\<close>

definition slot_origin :: "TargetEdge \<Rightarrow> (handle \<times> handle \<times> OriginId) option" where
  "slot_origin e =
     (case (edge_writer e, edge_registered e) of
        (Some tx, Some (c, i)) \<Rightarrow> Some (tx, c, i)
      | _ \<Rightarrow> None)"

datatype SendOutcome = Sent | SendFull | SendClosed

definition inbox_try_send :: "handle \<Rightarrow> handle \<Rightarrow> 're heap \<Rightarrow> SendOutcome \<times> 're heap" where
  "inbox_try_send i rx hp =
     (let b = hp_inboxes hp i
      in if \<not> inbox_open b then (SendClosed, hp)
         else if length (inbox_queue b) \<ge> EDGE_INBOX_CAP then (SendFull, hp)
         else (Sent, hp\<lparr>hp_inboxes := (hp_inboxes hp)(i := b\<lparr>inbox_queue := inbox_queue b @ [rx]\<rparr>)\<rparr>))"

section \<open>Attaching one edge\<close>

definition hostward_depth :: "'attr GraphConfig \<Rightarrow> string \<Rightarrow> nat" where
  "hostward_depth c host_node =
     (case List.map_filter (\<lambda>n. case n of
             Serial s \<Rightarrow> if serial_name s = host_node then Some (serial_hostward_buffer s) else None
           | _ \<Rightarrow> None) (nodes c) of
        depth # _ \<Rightarrow> depth
      | [] \<Rightarrow> CHANNEL_CAP)"

record EdgeParts =
  parts_target :: EndpointAddr
  parts_origin :: OriginId
  parts_lock :: "handle option"
  parts_host_targetward :: "handle option"
  parts_fanout :: handle
  parts_inbox :: handle
  parts_slot :: handle
  parts_counters :: handle

record AttachOutcome =
  out_registered :: "(handle \<times> OriginId) option"
  out_addressable :: bool
  out_granted :: bool
  out_consumer_live :: bool
  out_inbox_full :: bool

text \<open>Steps 2 to 4, once the consumer holds the receiver (or is known to have no pump).\<close>

definition attach_rest :: "EdgeParts \<Rightarrow> WriteMode \<Rightarrow> handle \<Rightarrow> bool \<Rightarrow> 're heap \<Rightarrow> AttachOutcome \<times> 're heap" where
  "attach_rest p mode htx live hp =
     (let hp = (case parts_lock p of
            Some c \<Rightarrow> with_lock c (lock_register (parts_origin p) (EndpointAddr_display (parts_target p)) mode) hp
          | None \<Rightarrow> hp);
          registered = map_option (\<lambda>c. (c, parts_origin p)) (parts_lock p);
          granted = (case registered of Some (c, i) \<Rightarrow> holder (lock_at hp c) = Some i | None \<Rightarrow> False);
          writer = (if mode \<noteq> Never then parts_host_targetward p else None);
          hp = with_slot (parts_slot p)
                 (\<lambda>e. e\<lparr>edge_attached := True, edge_registered := registered, edge_writer := writer\<rparr>) hp;
          hp = fanout_attach (parts_fanout p)
                 \<lparr>sink_target = parts_target p, sink_tx = htx, sink_counters = parts_counters p\<rparr> hp
      in (\<lparr>out_registered = registered, out_addressable = (writer \<noteq> None), out_granted = granted,
           out_consumer_live = live, out_inbox_full = False\<rparr>, hp))"

definition attach_edge :: "EdgeParts \<Rightarrow> WriteMode \<Rightarrow> nat \<Rightarrow> 're heap \<Rightarrow> AttachOutcome \<times> 're heap" where
  "attach_edge p mode depth hp =
     (let (htx, hp) = new_channel depth hp
      in case inbox_try_send (parts_inbox p) htx hp of
           (SendFull, hp) \<Rightarrow>
             (\<lparr>out_registered = None, out_addressable = False, out_granted = False, out_consumer_live = False,
               out_inbox_full = True\<rparr>, hp)
         | (SendClosed, hp) \<Rightarrow> attach_rest p mode htx False hp
         | (Sent, hp) \<Rightarrow> attach_rest p mode htx True hp)"

section \<open>The plan\<close>

record Wiring =
  w_endpoint_locks :: "(EndpointAddr \<times> handle) list"
  w_host_fanout :: "(EndpointAddr \<times> handle) list"
  w_host_targetward_tx :: "(EndpointAddr \<times> handle) list"
  w_target_inbox_tx :: "(EndpointAddr \<times> handle) list"
  w_target_counters :: "(EndpointAddr \<times> handle) list"
  w_target_edges :: "(EndpointAddr \<times> handle) list"
  w_origin_locks :: "(EndpointAddr \<times> handle \<times> OriginId) list"
  w_next_origin :: u64
  w_tap_hub_setup :: "(EndpointAddr \<times> handle) list"

definition wiring_default :: Wiring where
  "wiring_default =
     \<lparr>w_endpoint_locks = [], w_host_fanout = [], w_host_targetward_tx = [], w_target_inbox_tx = [],
      w_target_counters = [], w_target_edges = [], w_origin_locks = [], w_next_origin = 0, w_tap_hub_setup = []\<rparr>"

definition node_endpoints :: "'attr NodeConfig \<Rightarrow> (EndpointAddr \<times> EndpointSpec) list" where
  "node_endpoints n = map (\<lambda>ep. (EndpointAddr_new (node_name n) (ep_name ep), ep)) (endpoints (shape n))"

type_synonym facing_table = "(EndpointAddr \<times> Facing \<times> Arbitration) list"

definition facing_of :: "'attr GraphConfig \<Rightarrow> facing_table" where
  "facing_of c =
     fold (\<lambda>n tbl. fold (\<lambda>(addr, ep) tbl. hash_insert addr (ep_facing ep, ep_arbitration ep) tbl)
       (node_endpoints n) tbl) (nodes c) []"

definition host_ring_cap :: "'attr GraphConfig \<Rightarrow> (EndpointAddr \<times> nat) list" where
  "host_ring_cap c =
     fold (\<lambda>n caps. fold (\<lambda>(addr, ep) caps.
         (case replay_ring n of
            Some cap \<Rightarrow> if ep_facing ep = Host then hash_insert addr cap caps else caps
          | None \<Rightarrow> caps)) (node_endpoints n) caps) (nodes c) []"

text \<open>The structures of one endpoint: arbitration, fan-out and hub if it faces host, edge machinery if not.\<close>

definition build_endpoint ::
  "(EndpointAddr \<times> nat) list \<Rightarrow> EndpointAddr \<times> Facing \<times> Arbitration \<Rightarrow> Wiring \<times> 're heap \<Rightarrow> Wiring \<times> 're heap" where
  "build_endpoint caps entry st =
     (let (addr, facing, arb) = entry; (w, hp) = st
      in if facing = Host then
           (let (cell, hp) = new_cell (lock_cell_new (EndpointAddr_display addr) (lock_new arb)) hp;
                (tx, hp) = new_channel CHANNEL_CAP hp;
                (fan, hp) = new_fanout hp;
                cap = (case hash_get caps addr of Some n \<Rightarrow> n | None \<Rightarrow> 0);
                (hub, hp) = new_hub (EndpointAddr_display addr) cap hp
            in (w\<lparr>w_endpoint_locks := hash_insert addr cell (w_endpoint_locks w),
                  w_host_targetward_tx := hash_insert addr tx (w_host_targetward_tx w),
                  w_host_fanout := hash_insert addr fan (w_host_fanout w),
                  w_tap_hub_setup := hash_insert addr hub (w_tap_hub_setup w)\<rparr>, hp))
         else
           (let (inbox, hp) = new_inbox hp;
                (counters, hp) = new_counters hp;
                (slot, hp) = new_slot hp
            in (w\<lparr>w_target_inbox_tx := hash_insert addr inbox (w_target_inbox_tx w),
                  w_target_counters := hash_insert addr counters (w_target_counters w),
                  w_target_edges := hash_insert addr slot (w_target_edges w)\<rparr>, hp)))"

text \<open>One turn of the edge loop; \<open>unwrap_or_default\<close> of a missing counter allocates a fresh one.\<close>

definition wire_edge ::
  "'attr GraphConfig \<Rightarrow> facing_table \<Rightarrow> EdgeConfig \<Rightarrow> Wiring \<times> 're heap \<Rightarrow> Wiring \<times> 're heap" where
  "wire_edge c tbl e st =
     (let (w, hp) = st;
          ends = (case (map_option fst (hash_get tbl (cfg_a e)), map_option fst (hash_get tbl (cfg_b e))) of
                    (Some Host, Some Target) \<Rightarrow> Some (cfg_a e, cfg_b e)
                  | (Some Target, Some Host) \<Rightarrow> Some (cfg_b e, cfg_a e)
                  | _ \<Rightarrow> None)
      in case ends of
           None \<Rightarrow> (w, hp)
         | Some (host, target) \<Rightarrow>
             (case (hash_get (w_host_fanout w) host, hash_get (w_target_inbox_tx w) target,
                    hash_get (w_target_edges w) target) of
                (Some fan, Some inbox, Some slot) \<Rightarrow>
                  (let (counters, hp) = (case hash_get (w_target_counters w) target of
                          Some k \<Rightarrow> (k, hp) | None \<Rightarrow> new_counters hp);
                       (out, hp) = attach_edge
                          \<lparr>parts_target = target, parts_origin = w_next_origin w,
                           parts_lock = hash_get (w_endpoint_locks w) host,
                           parts_host_targetward = hash_get (w_host_targetward_tx w) host,
                           parts_fanout = fan, parts_inbox = inbox, parts_slot = slot, parts_counters = counters\<rparr>
                          (effective_write_mode c e) (hostward_depth c (addr_node host)) hp;
                       w = w\<lparr>w_next_origin := w_next_origin w + 1\<rparr>
                   in (case out_registered out of
                         Some reg \<Rightarrow>
                           if out_addressable out
                           then (w\<lparr>w_origin_locks := hash_insert target reg (w_origin_locks w)\<rparr>, hp)
                           else (w, hp)
                       | None \<Rightarrow> (w, hp)))
              | _ \<Rightarrow> (w, hp)))"

definition wiring_build ::
  "(facing_table \<Rightarrow> facing_table) \<Rightarrow> 'attr GraphConfig \<Rightarrow> 're heap \<Rightarrow> Wiring \<times> 're heap" where
  "wiring_build order c hp =
     fold (wire_edge c (facing_of c)) (cfg_edges c)
       (fold (build_endpoint (host_ring_cap c)) (order (facing_of c)) (wiring_default, hp))"

end
