(* ===== verification/Registry.thy ===== *)
theory Registry
  imports Prelude "HOL-Library.List_Lexorder" "HOL-Library.Char_ord"
begin

text \<open>
  The codec registry (\<open>daemon/src/registry.rs\<close>): the factories a daemon was built with, by codec name. A
  factory is code of the embedder, an argument here: it takes a codec's attribute table (a type variable) and
  answers with the codec or with the reason the table is refused. The hash map of factories is the list of its
  entries.
\<close>

section \<open>The registry\<close>

type_synonym ('attr, 'codec) factory = "'attr \<Rightarrow> (string, 'codec) result"

type_synonym ('attr, 'codec) Registry = "(string \<times> ('attr, 'codec) factory) list"

definition RESERVED_NAMES :: "string list" where
  "RESERVED_NAMES = [''exec'']"

datatype RegistryError = Duplicate string | Reserved string

definition registry_new :: "('attr, 'codec) Registry" where
  "registry_new = []"

definition registry_contains :: "('attr, 'codec) Registry \<Rightarrow> string \<Rightarrow> bool" where
  "registry_contains r name \<longleftrightarrow> map_of r name \<noteq> None"

definition registry_register ::
  "string \<Rightarrow> ('attr, 'codec) factory \<Rightarrow> ('attr, 'codec) Registry \<Rightarrow> (RegistryError, ('attr, 'codec) Registry) result" where
  "registry_register name factory r =
     (if name \<in> set RESERVED_NAMES then Err (Reserved name)
      else if registry_contains r name then Err (Duplicate name)
      else Ok (r @ [(name, factory)]))"

definition codec_names :: "('attr, 'codec) Registry \<Rightarrow> string list" where
  "codec_names r = sort (map fst r)"

definition usable_codec_names :: "('attr, 'codec) Registry \<Rightarrow> string list" where
  "usable_codec_names r =
     sort (fold (\<lambda>reserved names. if reserved \<in> set names then names else names @ [reserved]) RESERVED_NAMES
       (codec_names r))"

datatype BuildError = UnknownCodec "string list" | BadAttributes string

definition registry_build ::
  "('attr, 'codec) Registry \<Rightarrow> string \<Rightarrow> 'attr \<Rightarrow> (BuildError, 'codec) result" where
  "registry_build r name attributes =
     (case map_of r name of
        Some factory \<Rightarrow> (case factory attributes of Inl reason \<Rightarrow> Err (BadAttributes reason) | Inr codec \<Rightarrow> Ok codec)
      | None \<Rightarrow> Err (UnknownCodec (codec_names r)))"

section \<open>What a chain of registrations leaves\<close>

fun register_all ::
  "(string \<times> ('attr, 'codec) factory) list \<Rightarrow> ('attr, 'codec) Registry \<Rightarrow> (RegistryError, ('attr, 'codec) Registry) result" where
  "register_all [] r = Ok r"
| "register_all ((name, factory) # fs) r =
     (case registry_register name factory r of Inl e \<Rightarrow> Err e | Inr r' \<Rightarrow> register_all fs r')"

lemma register_Ok:
  "registry_register name factory r = Ok r' \<longleftrightarrow> r' = r @ [(name, factory)] \<and> name \<noteq> ''exec'' \<and> name \<notin> fst ` set r"
  by (auto simp: registry_register_def RESERVED_NAMES_def registry_contains_def map_of_eq_None_iff)

lemma register_all_Ok:
  "register_all fs r = Ok r' \<longleftrightarrow>
     r' = r @ fs \<and> ''exec'' \<notin> fst ` set fs \<and> distinct (map fst fs) \<and> fst ` set fs \<inter> fst ` set r = {}"
proof (induction fs arbitrary: r)
  case (Cons f fs)
  obtain name factory where f: "f = (name, factory)" by (cases f)
  show ?case
  proof (cases "registry_register name factory r")
    case (Inl e)
    then have "\<not> (name \<noteq> ''exec'' \<and> name \<notin> fst ` set r)"
      by (auto simp: registry_register_def RESERVED_NAMES_def registry_contains_def map_of_eq_None_iff split: if_splits)
    with Inl show ?thesis by (auto simp: f)
  next
    case (Inr r1)
    then have "r1 = r @ [(name, factory)]" "name \<noteq> ''exec''" "name \<notin> fst ` set r" by (simp_all add: register_Ok)
    with Inr Cons.IH [of r1] show ?thesis by (auto simp: f)
  qed
qed auto

text \<open>
  The registry is unambiguous and its discovery list is honest. A chain of registrations succeeds exactly when
  no name is reserved and none repeats; then every factory given is the one its name builds with, and the
  usable names are, in order, the registered ones and \<open>exec\<close>, each once.
\<close>

theorem registry_unambiguous:
  assumes "register_all fs registry_new = Ok r"
  shows "(name, factory) \<in> set fs \<Longrightarrow> registry_build r name attributes =
      (case factory attributes of Inl reason \<Rightarrow> Err (BadAttributes reason) | Inr codec \<Rightarrow> Ok codec)"
    and "set (usable_codec_names r) = insert ''exec'' (fst ` set fs)"
    and "sorted (usable_codec_names r)" and "distinct (usable_codec_names r)"
proof -
  have r: "r = fs" "''exec'' \<notin> fst ` set fs" "distinct (map fst fs)"
    using assms by (simp_all add: register_all_Ok registry_new_def)
  show "(name, factory) \<in> set fs \<Longrightarrow> registry_build r name attributes =
      (case factory attributes of Inl reason \<Rightarrow> Err (BadAttributes reason) | Inr codec \<Rightarrow> Ok codec)"
    using r by (simp add: registry_build_def)
  show "set (usable_codec_names r) = insert ''exec'' (fst ` set fs)" "sorted (usable_codec_names r)"
    "distinct (usable_codec_names r)"
    using r by (auto simp: usable_codec_names_def codec_names_def RESERVED_NAMES_def)
qed

end
