(* ===== verification/Live_Graph.thy ===== *)
theory Live_Graph
  imports Wiring Registry Resolver Node_State
begin

text \<open>
  The daemon's graph and the verbs that operate on it while it runs (\<open>daemon/src/daemon.rs\<close>,
  \<open>daemon/src/nodes/mod.rs\<close>): \<open>load\<close>, \<open>add-node\<close>, \<open>remove-node\<close>, \<open>connect\<close>, \<open>disconnect\<close>, \<open>teardown\<close>, and the
  arbitration verbs' addressing. Every verb is one synchronous critical section in the sources, so it is one
  function from state to result and state. Parameters have been read from JSON already; the operator-facing
  texts of errors are constructors with the data they carry. What a verb reads of its surroundings is a field
  of \<open>daemon_env\<close>: the visiting orders of hash maps, the codec factories, the resolver's file system, what a
  driver answers about flow control, the status a boundary node comes up in, the bytes a terminal's kernel
  buffer holds, the bytes a node still owes at teardown, and the clock.
\<close>

section \<open>Surroundings\<close>

datatype FlowMode = FlowRtsCts | FlowXonXoff

datatype FlowOutcome = Honoured | Refused | AcceptedThenDropped

record ('attr, 'codec) daemon_env =
  env_count_order :: "(EndpointAddr \<times> nat) list \<Rightarrow> (EndpointAddr \<times> nat) list"
  env_key_order :: "string list \<Rightarrow> string list"
  env_facing_order :: "facing_table \<Rightarrow> facing_table"
  env_registry :: "('attr, 'codec) Registry"
  env_exec_parse :: "'attr \<Rightarrow> (string, unit) result"
  env_fs :: fs
  env_resolver :: Resolver
  env_honours :: "path \<Rightarrow> FlowMode \<Rightarrow> FlowOutcome option"
  env_born :: "'attr NodeConfig \<Rightarrow> NodeStatus"
  env_child_live :: "string \<Rightarrow> bool"
  env_purge :: "string \<Rightarrow> u64"
  env_owed :: "string \<Rightarrow> u64"
  env_clock :: int

section \<open>Nodes\<close>

record 'attr Node =
  nd_config :: "'attr NodeConfig"
  nd_status :: NodeState
  nd_demux_faulted :: bool

abbreviation nd_name :: "'attr Node \<Rightarrow> string" where
  "nd_name n \<equiv> node_name (nd_config n)"

datatype InstantiateError = BadExec string | BadCodec BuildError | UnknownHostward string | UnknownTargetward string

definition node_up :: "'attr NodeConfig \<Rightarrow> NodeStatus \<Rightarrow> int \<Rightarrow> 'attr Node" where
  "node_up n status clock = \<lparr>nd_config = n, nd_status = state_new status clock, nd_demux_faulted = False\<rparr>"

definition instantiate :: "('attr, 'codec) daemon_env \<Rightarrow> 'attr NodeConfig \<Rightarrow> (InstantiateError, 'attr Node) result" where
  "instantiate env n =
     (case n of
        Codec c \<Rightarrow>
          if codec_codec c = ''exec'' then
            (case env_exec_parse env (codec_attributes c) of
               Inl why \<Rightarrow> Err (BadExec why)
             | Inr _ \<Rightarrow> Ok (node_up n Active (env_clock env)))
          else
            (case registry_build (env_registry env) (codec_codec c) (codec_attributes c) of
               Inl e \<Rightarrow> Err (BadCodec e)
             | Inr _ \<Rightarrow> Ok (node_up n Active (env_clock env)))
      | Map m \<Rightarrow>
          (case parse (map_hostward m) of
             Inl bad \<Rightarrow> Err (UnknownHostward bad)
           | Inr _ \<Rightarrow>
               (case parse (map_targetward m) of
                  Inl bad \<Rightarrow> Err (UnknownTargetward bad)
                | Inr _ \<Rightarrow> Ok (node_up n Active (env_clock env))))
      | _ \<Rightarrow> Ok (node_up n (env_born env n) (env_clock env)))"

definition set_status :: "int \<Rightarrow> NodeStatus \<Rightarrow> 'attr Node \<Rightarrow> 'attr Node" where
  "set_status clock st n = n\<lparr>nd_status := snd (state_set st clock (nd_status n))\<rparr>"

definition NO_MUX_UPSTREAM :: NodeStatus where
  "NO_MUX_UPSTREAM = Waiting ''multiplexed side has no attached upstream''"

definition NO_RAW_UPSTREAM :: NodeStatus where
  "NO_RAW_UPSTREAM = Waiting ''raw side has no attached upstream''"

definition NO_REMUX_DRIVER :: NodeStatus where
  "NO_REMUX_DRIVER = Waiting ''standalone re-multiplexer orientation (faces=host) has no driver''"

text \<open>What \<open>start\<close> does to an interior node's status: its upstream side is attached or it waits.\<close>

definition slot_attached :: "Wiring \<Rightarrow> 're heap \<Rightarrow> EndpointAddr \<Rightarrow> bool" where
  "slot_attached w hp addr =
     (case hash_get (w_target_edges w) addr of Some s \<Rightarrow> edge_attached (hp_slots hp s) | None \<Rightarrow> False)"

definition node_start :: "int \<Rightarrow> Wiring \<Rightarrow> 're heap \<Rightarrow> 'attr Node \<Rightarrow> 'attr Node" where
  "node_start clock w hp n =
     (case nd_config n of
        Codec c \<Rightarrow>
          if codec_faces c \<noteq> Target then set_status clock NO_REMUX_DRIVER n
          else if slot_attached w hp (EndpointAddr_node (codec_name c)) then n
          else set_status clock NO_MUX_UPSTREAM n
      | Map m \<Rightarrow>
          if slot_attached w hp (EndpointAddr_new (map_name m) MAP_RAW_ENDPOINT) then n
          else set_status clock NO_RAW_UPSTREAM n
      | _ \<Rightarrow> n)"

definition set_upstream_attached :: "('attr, 'codec) daemon_env \<Rightarrow> EndpointAddr \<Rightarrow> bool \<Rightarrow> 'attr Node \<Rightarrow> 'attr Node" where
  "set_upstream_attached env addr attached n =
     (case nd_config n of
        Codec c \<Rightarrow>
          if \<not> is_default addr \<or> addr_node addr \<noteq> codec_name c then n
          else if codec_codec c = ''exec'' then
            (if env_child_live env (codec_name c)
             then set_status (env_clock env) (if attached then Active else NO_MUX_UPSTREAM) n else n)
          else set_status (env_clock env) (if attached then Active else NO_MUX_UPSTREAM) (n\<lparr>nd_demux_faulted := False\<rparr>)
      | Map m \<Rightarrow>
          if addr_node addr \<noteq> map_name m \<or> addr_endpoint addr \<noteq> MAP_RAW_ENDPOINT then n
          else set_status (env_clock env) (if attached then Active else NO_RAW_UPSTREAM) n
      | _ \<Rightarrow> n)"

definition purge_origin :: "('attr, 'codec) daemon_env \<Rightarrow> 'attr Node \<Rightarrow> u64" where
  "purge_origin env n = (case nd_config n of Pty p \<Rightarrow> env_purge env (pty_name p) | _ \<Rightarrow> 0)"

definition discarded_at_teardown :: "('attr, 'codec) daemon_env \<Rightarrow> 'attr Node \<Rightarrow> u64" where
  "discarded_at_teardown env n = (case nd_config n of Pty _ \<Rightarrow> 0 | Log _ \<Rightarrow> 0 | _ \<Rightarrow> env_owed env (nd_name n))"

section \<open>State\<close>

record ('attr, 're) GraphState =
  gs_config :: "'attr GraphConfig"
  gs_nodes :: "'attr Node list"
  gs_endpoint_locks :: "(string \<times> handle) list"
  gs_endpoint_targetward :: "(string \<times> handle) list"
  gs_origin_locks :: "(string \<times> handle \<times> OriginId) list"
  gs_host_fanout :: "(string \<times> handle) list"
  gs_target_inbox :: "(string \<times> handle) list"
  gs_target_counters :: "(string \<times> handle) list"
  gs_target_edges :: "(string \<times> handle) list"
  gs_next_edge_origin :: u64
  gs_next_send_origin :: u64
  gs_tap_hubs :: "(string \<times> handle) list"
  gs_heap :: "'re heap"
  gs_tap_env :: tap_env

definition config_default :: "'attr GraphConfig" where
  "config_default = \<lparr>nodes = [], cfg_edges = []\<rparr>"

definition daemon_new :: "tap_env \<Rightarrow> ('attr, 're) GraphState" where
  "daemon_new tenv =
     \<lparr>gs_config = config_default, gs_nodes = [], gs_endpoint_locks = [], gs_endpoint_targetward = [],
      gs_origin_locks = [], gs_host_fanout = [], gs_target_inbox = [], gs_target_counters = [],
      gs_target_edges = [], gs_next_edge_origin = 0, gs_next_send_origin = SEND_ORIGIN_BASE,
      gs_tap_hubs = [], gs_heap = heap_empty, gs_tap_env = tenv\<rparr>"

datatype RpcError =
    ValidationPanic
  | StructuralErrors "ValidationError list"
  | StructuralExec string string
  | StructuralUnknownCodec string string "string list"
  | StructuralCodec string BuildError
  | StructuralFlow string string path FlowMode
  | LoadNonEmpty
  | InstantiateFailed string InstantiateError
  | DeviceAbsent string bool
  | BadDevice string Reason
  | UnknownNodeName string
  | HasEdges string nat
  | NotHostTarget
  | HostNotWired string
  | TargetNotWired string
  | NoEdgeSlot string
  | EdgeInboxFull string
  | NoSuchEdge EndpointAddr EndpointAddr
  | NotWritableOrigin string
  | LockedBy "string option"
  | OriginReadOnly string
  | OriginDetached string
  | NotHostEndpoint string
  | NoTargetwardPath string
  | EndpointUnserviceable string

datatype Reply =
    Loaded nat nat u64
  | Added string "Resolved option"
  | Removed string nat u64 u64 u64
  | Connected string string string bool
  | Disconnected string string bool u64
  | DisconnectedDangling EndpointAddr EndpointAddr
  | TornDown nat u64
  | LockReply string bool "string option"
  | UnlockReply string bool

section \<open>Helpers of the state\<close>

text \<open>\<open>HashMap::retain\<close> of the hubs: a hub whose endpoint goes detaches everyone and leaves the map.\<close>

fun detach_hubs ::
  "TapCloseReason \<Rightarrow> (string \<Rightarrow> bool) \<Rightarrow> (string \<times> handle) list \<Rightarrow> 're heap \<times> tap_env \<Rightarrow>
     (string \<times> handle) list \<times> 're heap \<times> tap_env" where
  "detach_hubs why keep [] st = ([], st)"
| "detach_hubs why keep ((endpoint, h) # hubs) st =
     (if keep endpoint then
        (let (rest, st) = detach_hubs why keep hubs st in ((endpoint, h) # rest, st))
      else
        (let (hp, tenv) = st;
             (_, hub, tenv) = detach_all why (hp_hubs hp h) tenv
         in detach_hubs why keep hubs (hp\<lparr>hp_hubs := (hp_hubs hp)(h := hub)\<rparr>, tenv)))"

definition detach_taps :: "TapCloseReason \<Rightarrow> (string \<Rightarrow> bool) \<Rightarrow> ('attr, 're) GraphState \<Rightarrow> ('attr, 're) GraphState" where
  "detach_taps why keep s =
     (let (hubs, hp, tenv) = detach_hubs why keep (gs_tap_hubs s) (gs_heap s, gs_tap_env s)
      in s\<lparr>gs_tap_hubs := hubs, gs_heap := hp, gs_tap_env := tenv\<rparr>)"

definition update_first :: "('a \<Rightarrow> bool) \<Rightarrow> ('a \<Rightarrow> 'a) \<Rightarrow> 'a list \<Rightarrow> 'a list" where
  "update_first P f xs = takeWhile (\<lambda>x. \<not> P x) xs @
     (case dropWhile (\<lambda>x. \<not> P x) xs of [] \<Rightarrow> [] | x # rest \<Rightarrow> f x # rest)"

definition node_by_name :: "('attr, 're) GraphState \<Rightarrow> string \<Rightarrow> 'attr Node option" where
  "node_by_name s name = find (\<lambda>n. nd_name n = name) (gs_nodes s)"

definition purge_by_name :: "('attr, 'codec) daemon_env \<Rightarrow> string \<Rightarrow> ('attr, 're) GraphState \<Rightarrow> u64" where
  "purge_by_name env name s = (case node_by_name s name of Some n \<Rightarrow> purge_origin env n | None \<Rightarrow> 0)"

text \<open>Steps 1 to 3 of undoing an edge, on the heap: the sink, the write path, the lock.\<close>

definition detach_heap ::
  "EndpointAddr \<Rightarrow> handle option \<Rightarrow> handle option \<Rightarrow> 're heap \<Rightarrow> bool \<times> 're heap" where
  "detach_heap target fan slot hp =
     (let hp = (case fan of Some f \<Rightarrow> snd (fanout_detach f target hp) | None \<Rightarrow> hp);
          hp = (case slot of
                  Some x \<Rightarrow> with_slot x (\<lambda>e. e\<lparr>edge_writer := None, edge_attached := False\<rparr>) hp
                | None \<Rightarrow> hp);
          registered = (case slot of Some x \<Rightarrow> edge_registered (hp_slots hp x) | None \<Rightarrow> None);
          (released, hp) = (case registered of
             Some (c, i) \<Rightarrow>
               (holder (lock_at hp c) = Some i, wake_waiters c (with_lock c (\<lambda>l. snd (lock_unregister i l)) hp))
           | None \<Rightarrow> (False, hp));
          hp = (case slot of Some x \<Rightarrow> with_slot x (\<lambda>e. e\<lparr>edge_registered := None\<rparr>) hp | None \<Rightarrow> hp)
      in (released, hp))"

definition detach_edge_runtime ::
  "('attr, 'codec) daemon_env \<Rightarrow> string \<Rightarrow> string \<Rightarrow> ('attr, 're) GraphState \<Rightarrow> (bool \<times> u64) \<times> ('attr, 're) GraphState" where
  "detach_edge_runtime env host target s =
     (let addr = EndpointAddr_from_str target;
          (released, hp) = detach_heap addr (hash_get (gs_host_fanout s) host)
             (hash_get (gs_target_edges s) target) (gs_heap s);
          s = s\<lparr>gs_heap := hp, gs_origin_locks := hash_remove target (gs_origin_locks s)\<rparr>;
          purged = purge_by_name env (addr_node addr) s;
          s = s\<lparr>gs_nodes := update_first (\<lambda>n. nd_name n = addr_node addr)
                  (set_upstream_attached env addr False) (gs_nodes s)\<rparr>
      in ((released, purged), s))"

definition forget_endpoints :: "string list \<Rightarrow> ('attr, 're) GraphState \<Rightarrow> ('attr, 're) GraphState" where
  "forget_endpoints eps s =
     fold (\<lambda>ep s. s\<lparr>gs_host_fanout := hash_remove ep (gs_host_fanout s),
                     gs_target_inbox := hash_remove ep (gs_target_inbox s),
                     gs_target_counters := hash_remove ep (gs_target_counters s),
                     gs_target_edges := hash_remove ep (gs_target_edges s)\<rparr>) eps s"

definition absorb :: "(EndpointAddr \<times> 'v) list \<Rightarrow> (string \<times> 'v) list \<Rightarrow> (string \<times> 'v) list" where
  "absorb from into = fold (\<lambda>(a, v) m. hash_insert (EndpointAddr_display a) v m) from into"

definition absorb_wiring :: "Wiring \<Rightarrow> ('attr, 're) GraphState \<Rightarrow> ('attr, 're) GraphState" where
  "absorb_wiring w s =
     s\<lparr>gs_endpoint_locks := absorb (w_endpoint_locks w) (gs_endpoint_locks s),
       gs_endpoint_targetward := absorb (w_host_targetward_tx w) (gs_endpoint_targetward s),
       gs_origin_locks := absorb (w_origin_locks w) (gs_origin_locks s),
       gs_host_fanout := absorb (w_host_fanout w) (gs_host_fanout s),
       gs_target_inbox := absorb (w_target_inbox_tx w) (gs_target_inbox s),
       gs_target_counters := absorb (w_target_counters w) (gs_target_counters s),
       gs_target_edges := absorb (w_target_edges w) (gs_target_edges s),
       gs_next_edge_origin := (if w_next_origin w > gs_next_edge_origin s then w_next_origin w
         else gs_next_edge_origin s)\<rparr>"

definition spawn_tap_hubs :: "Wiring \<Rightarrow> ('attr, 're) GraphState \<Rightarrow> ('attr, 're) GraphState" where
  "spawn_tap_hubs w s = s\<lparr>gs_tap_hubs := absorb (w_tap_hub_setup w) (gs_tap_hubs s)\<rparr>"

section \<open>Checks before anything is created\<close>

fun precheck_codecs :: "('attr, 'codec) daemon_env \<Rightarrow> 'attr NodeConfig list \<Rightarrow> (RpcError, unit) result" where
  "precheck_codecs env [] = Ok ()"
| "precheck_codecs env (n # ns) =
     (case n of
        Codec c \<Rightarrow>
          if codec_codec c = ''exec'' then
            (case env_exec_parse env (codec_attributes c) of
               Inl why \<Rightarrow> Err (StructuralExec (codec_name c) why)
             | Inr _ \<Rightarrow> precheck_codecs env ns)
          else if \<not> registry_contains (env_registry env) (codec_codec c) then
            Err (StructuralUnknownCodec (codec_name c) (codec_codec c) (usable_codec_names (env_registry env)))
          else
            (case registry_build (env_registry env) (codec_codec c) (codec_attributes c) of
               Inl e \<Rightarrow> Err (StructuralCodec (codec_name c) e)
             | Inr _ \<Rightarrow> precheck_codecs env ns)
      | _ \<Rightarrow> precheck_codecs env ns)"

definition flow_precheck_target ::
  "('attr, 'codec) daemon_env \<Rightarrow> 'attr NodeConfig \<Rightarrow> (string \<times> string \<times> path \<times> FlowMode) option" where
  "flow_precheck_target env n =
     (case n of
        Serial c \<Rightarrow>
          (case (case serial_flow_control c of RtsCts \<Rightarrow> Some FlowRtsCts | XonXoff \<Rightarrow> Some FlowXonXoff | FlowNone \<Rightarrow> None) of
             None \<Rightarrow> None
           | Some mode \<Rightarrow>
               map_option (\<lambda>p. (serial_name c, serial_device c, p, mode))
                 (resolve_current_path (env_fs env) (env_resolver env) (serial_device c)))
      | _ \<Rightarrow> None)"

definition flow_precheck_refuses :: "FlowOutcome option \<Rightarrow> bool" where
  "flow_precheck_refuses measured \<longleftrightarrow> measured = Some AcceptedThenDropped"

fun precheck_flow_control :: "('attr, 'codec) daemon_env \<Rightarrow> 'attr NodeConfig list \<Rightarrow> (RpcError, unit) result" where
  "precheck_flow_control env [] = Ok ()"
| "precheck_flow_control env (n # ns) =
     (case flow_precheck_target env n of
        None \<Rightarrow> precheck_flow_control env ns
      | Some (name, device, p, mode) \<Rightarrow>
          if flow_precheck_refuses (env_honours env p mode) then Err (StructuralFlow name device p mode)
          else precheck_flow_control env ns)"

definition structural_check :: "('attr, 'codec) daemon_env \<Rightarrow> 'attr GraphConfig \<Rightarrow> (RpcError, unit) result" where
  "structural_check env c =
     (case config_validate (env_count_order env) (env_key_order env) c of
        None \<Rightarrow> Err ValidationPanic
      | Some [] \<Rightarrow> Ok ()
      | Some errors \<Rightarrow> Err (StructuralErrors errors))"

section \<open>\<open>teardown\<close> and \<open>load\<close>\<close>

definition clear_maps :: "('attr, 're) GraphState \<Rightarrow> ('attr, 're) GraphState" where
  "clear_maps s =
     s\<lparr>gs_endpoint_locks := [], gs_endpoint_targetward := [], gs_origin_locks := [], gs_host_fanout := [],
       gs_target_inbox := [], gs_target_counters := [], gs_target_edges := []\<rparr>"

definition teardown_with ::
  "('attr, 'codec) daemon_env \<Rightarrow> TapCloseReason \<Rightarrow> ('attr, 're) GraphState \<Rightarrow> (nat \<times> u64) \<times> ('attr, 're) GraphState" where
  "teardown_with env why s =
     (let count = length (gs_nodes s);
          s = s\<lparr>gs_heap := fold (\<lambda>(_, c) hp. close_cell c hp) (gs_endpoint_locks s) (gs_heap s)\<rparr>;
          discarded = fold (\<lambda>n acc. saturating_add acc (discarded_at_teardown env n)) (gs_nodes s) 0;
          s = clear_maps (s\<lparr>gs_nodes := [], gs_config := config_default\<rparr>)
      in ((count, discarded), detach_taps why (\<lambda>_. False) s))"

fun instantiate_all :: "('attr, 'codec) daemon_env \<Rightarrow> 'attr NodeConfig list \<Rightarrow> (RpcError, 'attr Node list) result" where
  "instantiate_all env [] = Ok []"
| "instantiate_all env (n # ns) =
     (case instantiate env n of
        Inl e \<Rightarrow> Err (InstantiateFailed (node_name n) e)
      | Inr node \<Rightarrow> (case instantiate_all env ns of Inl e \<Rightarrow> Err e | Inr ups \<Rightarrow> Ok (node # ups)))"

text \<open>The critical section of \<open>load\<close>, on a graph that should be empty.\<close>

definition load_commit ::
  "('attr, 'codec) daemon_env \<Rightarrow> 'attr GraphConfig \<Rightarrow> ('attr, 're) GraphState \<Rightarrow> (RpcError, nat) result \<times> ('attr, 're) GraphState" where
  "load_commit env c s =
     (if gs_nodes s \<noteq> [] then (Err LoadNonEmpty, s)
      else
        (case instantiate_all env (nodes c) of
           Inl e \<Rightarrow> (Err e, s)
         | Inr ns \<Rightarrow>
             (let (w, hp) = wiring_build (env_facing_order env) c (gs_heap s);
                  s = detach_taps GraphReplaced (\<lambda>_. False) (clear_maps (s\<lparr>gs_heap := hp\<rparr>));
                  s = spawn_tap_hubs w (absorb_wiring w s);
                  s = s\<lparr>gs_nodes := map (node_start (env_clock env) w (gs_heap s)) ns, gs_config := c\<rparr>
              in (Ok (length ns), s))))"

definition load ::
  "('attr, 'codec) daemon_env \<Rightarrow> 'attr GraphConfig \<Rightarrow> bool \<Rightarrow> ('attr, 're) GraphState \<Rightarrow> (RpcError, Reply) result \<times> ('attr, 're) GraphState" where
  "load env c replace s =
     (case structural_check env c of
        Inl e \<Rightarrow> (Err e, s)
      | Inr _ \<Rightarrow>
          (case precheck_codecs env (nodes c) of
             Inl e \<Rightarrow> (Err e, s)
           | Inr _ \<Rightarrow>
               (case precheck_flow_control env (nodes c) of
                  Inl e \<Rightarrow> (Err e, s)
                | Inr _ \<Rightarrow>
                    (let ((torn, discarded), s) =
                           (if replace then teardown_with env GraphReplaced s else ((0, 0), s))
                     in case load_commit env c s of
                          (Inl e, s) \<Rightarrow> (Err e, s)
                        | (Inr n, s) \<Rightarrow> (Ok (Loaded n torn discarded), s)))))"

section \<open>\<open>add-node\<close>\<close>

text \<open>The device of a serial node becomes its identity before anything else is checked.\<close>

definition resolve_device ::
  "('attr, 'codec) daemon_env \<Rightarrow> 'attr NodeConfig \<Rightarrow> (RpcError, 'attr NodeConfig \<times> Resolved option) result" where
  "resolve_device env n =
     (case n of
        Serial c \<Rightarrow>
          (case resolve_input (env_fs env) (env_resolver env) (serial_device c) of
             Inr res \<Rightarrow> Ok (Serial (c\<lparr>serial_device := res_identity res\<rparr>), Some res)
           | Inl (NotPresent given) \<Rightarrow> Err (DeviceAbsent given (has_identity_source (env_fs env) (env_resolver env)))
           | Inl (Malformed given why) \<Rightarrow> Err (BadDevice given why))
      | _ \<Rightarrow> Ok (n, None))"

definition add_commit ::
  "('attr, 'codec) daemon_env \<Rightarrow> 'attr NodeConfig \<Rightarrow> ('attr, 're) GraphState \<Rightarrow> (RpcError, unit) result \<times> ('attr, 're) GraphState" where
  "add_commit env n s =
     (case structural_check env ((gs_config s)\<lparr>nodes := nodes (gs_config s) @ [n]\<rparr>) of
        Inl e \<Rightarrow> (Err e, s)
      | Inr _ \<Rightarrow>
          (case instantiate env n of
             Inl e \<Rightarrow> (Err (InstantiateFailed (node_name n) e), s)
           | Inr node \<Rightarrow>
               (let (w, hp) = wiring_build (env_facing_order env) \<lparr>nodes = [n], cfg_edges = []\<rparr> (gs_heap s);
                    s = spawn_tap_hubs w (absorb_wiring w (s\<lparr>gs_heap := hp\<rparr>));
                    s = s\<lparr>gs_nodes := gs_nodes s @ [node_start (env_clock env) w (gs_heap s) node],
                          gs_config := (gs_config s)\<lparr>nodes := nodes (gs_config s) @ [n]\<rparr>\<rparr>
                in (Ok (), s))))"

definition daemon_add_node ::
  "('attr, 'codec) daemon_env \<Rightarrow> 'attr NodeConfig \<Rightarrow> ('attr, 're) GraphState \<Rightarrow> (RpcError, Reply) result \<times> ('attr, 're) GraphState" where
  "daemon_add_node env given s =
     (case resolve_device env given of
        Inl e \<Rightarrow> (Err e, s)
      | Inr (n, echo) \<Rightarrow>
          (case precheck_codecs env [n] of
             Inl e \<Rightarrow> (Err e, s)
           | Inr _ \<Rightarrow>
               (case precheck_flow_control env [n] of
                  Inl e \<Rightarrow> (Err e, s)
                | Inr _ \<Rightarrow>
                    (case add_commit env n s of
                       (Inl e, s) \<Rightarrow> (Err e, s)
                     | (Inr _, s) \<Rightarrow> (Ok (Added (node_name n) echo), s)))))"

section \<open>\<open>connect\<close> and \<open>disconnect\<close>\<close>

text \<open>The bookkeeping after an attach: the origin's name, the purge of a fresh grant, the wake.\<close>

definition after_attach ::
  "('attr, 'codec) daemon_env \<Rightarrow> EndpointAddr \<Rightarrow> AttachOutcome \<Rightarrow> ('attr, 're) GraphState \<Rightarrow> ('attr, 're) GraphState" where
  "after_attach env target out s =
     (case out_registered out of
        None \<Rightarrow> s
      | Some (c, i) \<Rightarrow>
          (let s = (if out_addressable out
                    then s\<lparr>gs_origin_locks := hash_insert (EndpointAddr_display target) (c, i) (gs_origin_locks s)\<rparr> else s);
               purged = (if out_granted out then purge_by_name env (addr_node target) s else 0);
               hp = (if purged > 0 then with_lock c (record_purge i purged) (gs_heap s) else gs_heap s)
           in s\<lparr>gs_heap := wake_waiters c hp\<rparr>))"

definition connect ::
  "('attr, 'codec) daemon_env \<Rightarrow> EdgeConfig \<Rightarrow> ('attr, 're) GraphState \<Rightarrow> (RpcError, Reply) result \<times> ('attr, 're) GraphState" where
  "connect env e s =
     (let c = (gs_config s)\<lparr>cfg_edges := cfg_edges (gs_config s) @ [e]\<rparr>
      in case structural_check env c of
           Inl err \<Rightarrow> (Err err, s)
         | Inr _ \<Rightarrow>
             (case edge_ends c e of
                None \<Rightarrow> (Err NotHostTarget, s)
              | Some (host_addr, target_addr) \<Rightarrow>
                  (let mode = effective_write_mode c e;
                       host = EndpointAddr_display host_addr; target = EndpointAddr_display target_addr
                   in case (hash_get (gs_host_fanout s) host, hash_get (gs_target_inbox s) target,
                            hash_get (gs_target_edges s) target) of
                        (None, _, _) \<Rightarrow> (Err (HostNotWired host), s)
                      | (_, None, _) \<Rightarrow> (Err (TargetNotWired target), s)
                      | (_, _, None) \<Rightarrow> (Err (NoEdgeSlot target), s)
                      | (Some fan, Some inbox, Some slot) \<Rightarrow>
                          (let (counters, hp) = (case hash_get (gs_target_counters s) target of
                                 Some k \<Rightarrow> (k, gs_heap s) | None \<Rightarrow> new_counters (gs_heap s));
                               i = gs_next_edge_origin s;
                               s = s\<lparr>gs_next_edge_origin := i + 1\<rparr>;
                               (out, hp) = attach_edge
                                 \<lparr>parts_target = target_addr, parts_origin = i,
                                  parts_lock = hash_get (gs_endpoint_locks s) host,
                                  parts_host_targetward = hash_get (gs_endpoint_targetward s) host,
                                  parts_fanout = fan, parts_inbox = inbox, parts_slot = slot,
                                  parts_counters = counters\<rparr>
                                 mode (hostward_depth c (addr_node host_addr)) hp;
                               s = s\<lparr>gs_heap := hp\<rparr>
                           in if out_inbox_full out then (Err (EdgeInboxFull target), s)
                              else
                                (let s = after_attach env target_addr out s;
                                     s = s\<lparr>gs_nodes := update_first (\<lambda>n. nd_name n = addr_node target_addr)
                                             (set_upstream_attached env target_addr True) (gs_nodes s),
                                           gs_config := c\<rparr>
                                 in (Ok (Connected host target (write_mode_display mode) (out_consumer_live out)), s))))))"

definition same_edge :: "EdgeConfig \<Rightarrow> EdgeConfig \<Rightarrow> bool" where
  "same_edge x y \<longleftrightarrow> cfg_a x = cfg_a y \<and> cfg_b x = cfg_b y \<or> cfg_a x = cfg_b y \<and> cfg_b x = cfg_a y"

definition remove_at :: "nat \<Rightarrow> 'a list \<Rightarrow> 'a list" where
  "remove_at i xs = take i xs @ drop (Suc i) xs"

definition disconnect ::
  "('attr, 'codec) daemon_env \<Rightarrow> EdgeConfig \<Rightarrow> ('attr, 're) GraphState \<Rightarrow> (RpcError, Reply) result \<times> ('attr, 're) GraphState" where
  "disconnect env e s =
     (let c = gs_config s
      in case position (\<lambda>x. same_edge x e) (cfg_edges c) of
           None \<Rightarrow> (Err (NoSuchEdge (cfg_a e) (cfg_b e)), s)
         | Some i \<Rightarrow>
             (case edge_ends c (cfg_edges c ! i) of
                None \<Rightarrow>
                  (Ok (DisconnectedDangling (cfg_a e) (cfg_b e)),
                   s\<lparr>gs_config := c\<lparr>cfg_edges := remove_at i (cfg_edges c)\<rparr>\<rparr>)
              | Some (host_addr, target_addr) \<Rightarrow>
                  (let host = EndpointAddr_display host_addr; target = EndpointAddr_display target_addr;
                       ((released, purged), s) = detach_edge_runtime env host target s
                   in (Ok (Disconnected host target released purged),
                       s\<lparr>gs_config := c\<lparr>cfg_edges := remove_at i (cfg_edges c)\<rparr>\<rparr>))))"

section \<open>\<open>remove-node\<close>\<close>

definition touches :: "string \<Rightarrow> EdgeConfig \<Rightarrow> bool" where
  "touches name e \<longleftrightarrow> addr_node (cfg_a e) = name \<or> addr_node (cfg_b e) = name"

fun cascade_edges ::
  "('attr, 'codec) daemon_env \<Rightarrow> (string \<times> string) list \<Rightarrow> u64 \<times> u64 \<Rightarrow> ('attr, 're) GraphState \<Rightarrow> (u64 \<times> u64) \<times> ('attr, 're) GraphState" where
  "cascade_edges env [] acc s = (acc, s)"
| "cascade_edges env ((host, target) # rest) acc s =
     (let ((released, purged), s) = detach_edge_runtime env host target s;
          (locks, bytes) = acc
      in cascade_edges env rest (locks + (if released then 1 else 0), saturating_add bytes purged) s)"

text \<open>One endpoint of the departing node: its own lock is closed, and its own registration leaves.\<close>

definition drop_endpoint :: "string \<Rightarrow> handle list \<times> ('attr, 're) GraphState \<Rightarrow> handle list \<times> ('attr, 're) GraphState" where
  "drop_endpoint disp st =
     (let (removed, s) = st;
          (removed, s) = (case hash_get (gs_endpoint_locks s) disp of
             Some c \<Rightarrow> (removed @ [c], s\<lparr>gs_endpoint_locks := hash_remove disp (gs_endpoint_locks s),
                                          gs_heap := close_cell c (gs_heap s)\<rparr>)
           | None \<Rightarrow> (removed, s));
          s = s\<lparr>gs_endpoint_targetward := hash_remove disp (gs_endpoint_targetward s)\<rparr>;
          s = (case hash_get (gs_origin_locks s) disp of
                 Some (c, i) \<Rightarrow>
                   s\<lparr>gs_origin_locks := hash_remove disp (gs_origin_locks s),
                     gs_heap := wake_waiters c (with_lock c (\<lambda>l. snd (lock_unregister i l)) (gs_heap s))\<rparr>
               | None \<Rightarrow> s)
      in (removed, s))"

definition endpoint_displays :: "'attr GraphConfig \<Rightarrow> string \<Rightarrow> string list" where
  "endpoint_displays c name =
     (case node_named c name of
        Some n \<Rightarrow> map (\<lambda>ep. EndpointAddr_display (EndpointAddr_new name (ep_name ep))) (endpoints (shape n))
      | None \<Rightarrow> [])"

definition remove_node ::
  "('attr, 'codec) daemon_env \<Rightarrow> string \<Rightarrow> bool \<Rightarrow> ('attr, 're) GraphState \<Rightarrow> (RpcError, Reply) result \<times> ('attr, 're) GraphState" where
  "remove_node env name cascade s =
     (case position (\<lambda>n. nd_name n = name) (gs_nodes s) of
        None \<Rightarrow> (Err (UnknownNodeName name), s)
      | Some idx \<Rightarrow>
          (let c = gs_config s;
               attached = length (filter (touches name) (cfg_edges c))
           in if attached > 0 \<and> \<not> cascade then (Err (HasEdges name attached), s)
              else
                (let displays = endpoint_displays c name;
                     cascaded = List.map_filter (\<lambda>e. map_option
                       (\<lambda>(h, t). (EndpointAddr_display h, EndpointAddr_display t)) (edge_ends c e))
                       (filter (touches name) (cfg_edges c));
                     ((locks, bytes), s) = cascade_edges env cascaded (0, 0) s;
                     discarded = discarded_at_teardown env (gs_nodes s ! idx);
                     s = s\<lparr>gs_nodes := remove_at idx (gs_nodes s)\<rparr>;
                     s = detach_taps EndpointRemoved (\<lambda>ep. ep \<notin> set displays) s;
                     (removed, s) = fold drop_endpoint displays ([], s);
                     s = s\<lparr>gs_origin_locks := filter (\<lambda>(_, c, _). c \<notin> set removed) (gs_origin_locks s)\<rparr>;
                     s = forget_endpoints displays s;
                     s = s\<lparr>gs_config := (gs_config s)\<lparr>
                       cfg_edges := filter (\<lambda>e. \<not> touches name e) (cfg_edges (gs_config s)),
                       nodes := filter (\<lambda>n. node_name n \<noteq> name) (nodes (gs_config s))\<rparr>\<rparr>
                 in (Ok (Removed name attached locks bytes discarded), s))))"

section \<open>Arbitration verbs\<close>

definition resolve_origin :: "('attr, 're) GraphState \<Rightarrow> string \<Rightarrow> (handle \<times> OriginId) option" where
  "resolve_origin s origin = hash_get (gs_origin_locks s) origin"

definition purge_on_acquire ::
  "('attr, 'codec) daemon_env \<Rightarrow> handle \<Rightarrow> string \<Rightarrow> OriginId \<Rightarrow> ('attr, 're) GraphState \<Rightarrow> ('attr, 're) GraphState" where
  "purge_on_acquire env c origin i s =
     (if Lock.arbitration (lock_at (gs_heap s) c) \<noteq> Exclusive then s
      else (let purged = purge_by_name env origin s
            in if purged > 0 then s\<lparr>gs_heap := with_lock c (record_purge i purged) (gs_heap s)\<rparr> else s))"

text \<open>
  \<open>lock\<close> without waiting: \<open>renewing\<close> says whether a lease was asked for, which renews the generation of a
  grant that already stands.
\<close>

definition lock_verb ::
  "('attr, 'codec) daemon_env \<Rightarrow> string \<Rightarrow> bool \<Rightarrow> bool \<Rightarrow> ('attr, 're) GraphState \<Rightarrow> (RpcError, Reply) result \<times> ('attr, 're) GraphState" where
  "lock_verb env origin steals renewing s =
     (case resolve_origin s origin of
        None \<Rightarrow> (Err (NotWritableOrigin origin), s)
      | Some (c, i) \<Rightarrow>
          (let l = lock_at (gs_heap s) c;
               renewed = (if renewing then s\<lparr>gs_heap := with_lock c (\<lambda>l. snd (renew i l)) (gs_heap s)\<rparr> else s)
           in if steals then
                (let s' = s\<lparr>gs_heap := with_lock c (\<lambda>l. snd (steal i l)) (gs_heap s)\<rparr>
                 in case fst (steal i l) of
                      StealReadOnly \<Rightarrow> (Err (OriginReadOnly origin), s')
                    | StealAlreadyHeld \<Rightarrow> (Ok (LockReply origin False None), renewed)
                    | Stolen previous \<Rightarrow>
                        (let from_label = Option.bind previous (lock_label (lock_at (gs_heap s') c));
                             s' = purge_on_acquire env c origin i s'
                         in (Ok (LockReply origin True from_label),
                             s'\<lparr>gs_heap := wake_waiters c (gs_heap s')\<rparr>)))
              else
                (let s' = s\<lparr>gs_heap := with_lock c (\<lambda>l. snd (acquire i l)) (gs_heap s)\<rparr>
                 in case fst (acquire i l) of
                      Granted \<Rightarrow> (Ok (LockReply origin True None), purge_on_acquire env c origin i s')
                    | AlreadyHeld \<Rightarrow> (Ok (LockReply origin False None), renewed)
                    | ReadOnly \<Rightarrow> (Err (OriginReadOnly origin), s')
                    | Unregistered \<Rightarrow> (Err (OriginDetached origin), s')
                    | Denied h \<Rightarrow> (Err (LockedBy (lock_label l h)), s'))))"

definition unlock_verb :: "string \<Rightarrow> ('attr, 're) GraphState \<Rightarrow> (RpcError, Reply) result \<times> ('attr, 're) GraphState" where
  "unlock_verb origin s =
     (case resolve_origin s origin of
        None \<Rightarrow> (Err (NotWritableOrigin origin), s)
      | Some (c, i) \<Rightarrow>
          (let released = fst (lock_release i (lock_at (gs_heap s) c));
               hp = with_lock c (\<lambda>l. snd (lock_release i l)) (gs_heap s)
           in (Ok (UnlockReply origin released),
               s\<lparr>gs_heap := (if released then wake_waiters c hp else hp)\<rparr>)))"

text \<open>\<open>send\<close>: a transient origin joins the endpoint's lock under an id of its own, and always leaves it.\<close>

definition send_begin ::
  "string \<Rightarrow> bool \<Rightarrow> ('attr, 're) GraphState \<Rightarrow> (RpcError, handle \<times> OriginId) result \<times> ('attr, 're) GraphState" where
  "send_begin endpoint serviceable s =
     (case (hash_get (gs_endpoint_locks s) endpoint, hash_get (gs_endpoint_targetward s) endpoint) of
        (None, _) \<Rightarrow> (Err (NotHostEndpoint endpoint), s)
      | (Some _, None) \<Rightarrow> (Err (NoTargetwardPath endpoint), s)
      | (Some c, Some tx) \<Rightarrow>
          if \<not> serviceable then (Err (EndpointUnserviceable endpoint), s)
          else
            (let i = gs_next_send_origin s
             in (Ok (c, i),
                 s\<lparr>gs_next_send_origin := i + 1,
                   gs_heap := with_lock c (lock_register i ''send'' OnDemand) (gs_heap s)\<rparr>)))"

definition send_end :: "handle \<Rightarrow> OriginId \<Rightarrow> ('attr, 're) GraphState \<Rightarrow> ('attr, 're) GraphState" where
  "send_end c i s =
     s\<lparr>gs_heap := wake_waiters c (with_lock c (\<lambda>l. snd (lock_unregister i l)) (gs_heap s))\<rparr>"

end
