(* ===== verification/Wiring_Laws.thy ===== *)
theory Wiring_Laws
  imports Wiring
begin

text \<open>
  What a correct wiring is, and that attaching and detaching an edge keep it. \<open>linked F ls nxt hp p\<close> says that
  the shared objects that the lookups \<open>p\<close> reach in the heap \<open>hp\<close> are the wiring of the endpoints \<open>F\<close> under the
  attached edges \<open>ls\<close> (target, host, effective mode), with edge origins numbered below \<open>nxt\<close>. It speaks of no
  particular map: the plan of a load, keyed by address, and the daemon's maps, keyed by display string, are
  both instances, so the attach and detach laws are proved once.
\<close>

section \<open>The wiring of a set of links\<close>

type_synonym link = "EndpointAddr \<times> EndpointAddr \<times> WriteMode"

type_synonym endpoint_table = "EndpointAddr \<Rightarrow> (Facing \<times> Arbitration) option"

record ports =
  p_lock :: "EndpointAddr \<Rightarrow> handle option"
  p_tx :: "EndpointAddr \<Rightarrow> handle option"
  p_fan :: "EndpointAddr \<Rightarrow> handle option"
  p_inbox :: "EndpointAddr \<Rightarrow> handle option"
  p_counters :: "EndpointAddr \<Rightarrow> handle option"
  p_slot :: "EndpointAddr \<Rightarrow> handle option"
  p_origin :: "EndpointAddr \<Rightarrow> (handle \<times> OriginId) option"

definition faces :: "Facing \<Rightarrow> endpoint_table \<Rightarrow> EndpointAddr \<Rightarrow> bool" where
  "faces f F a \<longleftrightarrow> map_option fst (F a) = Some f"

definition inj_map :: "('a \<Rightarrow> 'b option) \<Rightarrow> bool" where
  "inj_map m \<longleftrightarrow> (\<forall>a b x. m a = Some x \<longrightarrow> m b = Some x \<longrightarrow> a = b)"

definition complete :: "endpoint_table \<Rightarrow> ports \<Rightarrow> bool" where
  "complete F p \<longleftrightarrow>
     (\<forall>a. (p_lock p a \<noteq> None \<longleftrightarrow> faces Host F a) \<and> (p_tx p a \<noteq> None \<longleftrightarrow> faces Host F a) \<and>
          (p_fan p a \<noteq> None \<longleftrightarrow> faces Host F a) \<and> (p_inbox p a \<noteq> None \<longleftrightarrow> faces Target F a) \<and>
          (p_counters p a \<noteq> None \<longleftrightarrow> faces Target F a) \<and> (p_slot p a \<noteq> None \<longleftrightarrow> faces Target F a))"

text \<open>No two endpoints share an object, and every object is allocated.\<close>

definition own :: "handle \<Rightarrow> (EndpointAddr \<Rightarrow> handle option) \<Rightarrow> bool" where
  "own n m \<longleftrightarrow> inj_map m \<and> (\<forall>a x. m a = Some x \<longrightarrow> x < n)"

definition separate :: "handle \<Rightarrow> ports \<Rightarrow> bool" where
  "separate n p \<longleftrightarrow>
     own n (p_lock p) \<and> own n (p_tx p) \<and> own n (p_fan p) \<and> own n (p_inbox p) \<and> own n (p_counters p) \<and> own n (p_slot p)"

text \<open>An origin as the lock knows it: label and mode.\<close>

definition tag :: "EndpointLock \<Rightarrow> OriginId \<Rightarrow> (string \<times> WriteMode) option" where
  "tag l i = map_option (\<lambda>r. (origin_label r, origin_write_mode r)) (origin_of l i)"

definition cells_ok :: "endpoint_table \<Rightarrow> 're heap \<Rightarrow> ports \<Rightarrow> bool" where
  "cells_ok F hp p \<longleftrightarrow>
     (\<forall>a x. p_lock p a = Some x \<longrightarrow>
        \<not> lc_closed (hp_cells hp x) \<and> lc_endpoint (hp_cells hp x) = EndpointAddr_display a \<and>
        lock_inv (lock_at hp x) \<and> map_option snd (F a) = Some (Lock.arbitration (lock_at hp x)))"

definition fans_ok :: "link list \<Rightarrow> 're heap \<Rightarrow> ports \<Rightarrow> bool" where
  "fans_ok ls hp p \<longleftrightarrow>
     (\<forall>a f. p_fan p a = Some f \<longrightarrow>
        map sink_target (hp_fanouts hp f) = map fst (filter (\<lambda>(t, h, m). h = a) ls))"

text \<open>
  A sink charges the counters of the endpoint it feeds and sends into a channel of its own: no other sink, on this
  fan-out or another, and no writer shares it.
\<close>

definition sinks_ok :: "'re heap \<Rightarrow> ports \<Rightarrow> bool" where
  "sinks_ok hp p \<longleftrightarrow>
     (\<forall>a f s. p_fan p a = Some f \<longrightarrow> s \<in> set (hp_fanouts hp f) \<longrightarrow>
        p_counters p (sink_target s) = Some (sink_counters s) \<and> sink_tx s < hp_next hp \<and>
        (\<forall>b. p_tx p b \<noteq> Some (sink_tx s)) \<and>
        (\<forall>b g u. p_fan p b = Some g \<longrightarrow> u \<in> set (hp_fanouts hp g) \<longrightarrow> sink_tx u = sink_tx s \<longrightarrow> b = a \<and> u = s))"

definition slot_ok :: "link list \<Rightarrow> nat \<Rightarrow> 're heap \<Rightarrow> ports \<Rightarrow> EndpointAddr \<Rightarrow> TargetEdge \<Rightarrow> bool" where
  "slot_ok ls nxt hp p t e =
     (case map_of ls t of
        None \<Rightarrow> e = unattached_edge
      | Some (h, m) \<Rightarrow>
          (\<exists>x i. p_lock p h = Some x \<and> unat i < nxt \<and> tag (lock_at hp x) i = Some (EndpointAddr_display t, m) \<and>
             e = \<lparr>edge_registered = Some (x, i), edge_writer = (if m = Never then None else p_tx p h), edge_attached = True\<rparr>))"

definition slots_ok :: "link list \<Rightarrow> nat \<Rightarrow> 're heap \<Rightarrow> ports \<Rightarrow> bool" where
  "slots_ok ls nxt hp p \<longleftrightarrow> (\<forall>t x. p_slot p t = Some x \<longrightarrow> slot_ok ls nxt hp p t (hp_slots hp x))"

text \<open>No origin below the ids of transient sends is on a lock without an edge slot that knows it.\<close>

definition origins_ok :: "'re heap \<Rightarrow> ports \<Rightarrow> bool" where
  "origins_ok hp p \<longleftrightarrow>
     (\<forall>a x i. p_lock p a = Some x \<longrightarrow> tag (lock_at hp x) i \<noteq> None \<longrightarrow> i < SEND_ORIGIN_BASE \<longrightarrow>
        (\<exists>t y. p_slot p t = Some y \<and> edge_registered (hp_slots hp y) = Some (x, i)))"

definition names_ok :: "'re heap \<Rightarrow> ports \<Rightarrow> bool" where
  "names_ok hp p \<longleftrightarrow>
     (\<forall>t. p_origin p t = (case p_slot p t of
        Some x \<Rightarrow> if edge_writer (hp_slots hp x) = None then None else edge_registered (hp_slots hp x)
      | None \<Rightarrow> None))"

definition links_ok :: "endpoint_table \<Rightarrow> link list \<Rightarrow> bool" where
  "links_ok F ls \<longleftrightarrow> distinct (map fst ls) \<and> list_all (\<lambda>(t, h, m). faces Target F t \<and> faces Host F h) ls"

definition linked :: "endpoint_table \<Rightarrow> link list \<Rightarrow> nat \<Rightarrow> 're heap \<Rightarrow> ports \<Rightarrow> bool" where
  "linked F ls nxt hp p \<longleftrightarrow>
     links_ok F ls \<and> complete F p \<and> separate (hp_next hp) p \<and> cells_ok F hp p \<and> fans_ok ls hp p \<and>
     slots_ok ls nxt hp p \<and> origins_ok hp p \<and> names_ok hp p \<and> sinks_ok hp p"

lemmas linked_defs = linked_def links_ok_def complete_def separate_def cells_ok_def fans_ok_def slots_ok_def
  origins_ok_def names_ok_def sinks_ok_def own_def

lemma linkedD:
  assumes "linked F ls nxt hp p"
  shows "links_ok F ls" "complete F p" "separate (hp_next hp) p" "cells_ok F hp p" "fans_ok ls hp p"
    "slots_ok ls nxt hp p" "origins_ok hp p" "names_ok hp p" "sinks_ok hp p"
  using assms by (simp_all add: linked_def)

lemma linkedI:
  assumes "links_ok F ls" "complete F p" "separate (hp_next hp) p" "cells_ok F hp p" "fans_ok ls hp p"
    "slots_ok ls nxt hp p" "origins_ok hp p" "names_ok hp p" "sinks_ok hp p"
  shows "linked F ls nxt hp p"
  using assms by (simp add: linked_def)

lemma inj_mapD: "inj_map m \<Longrightarrow> m a = Some x \<Longrightarrow> m b = Some x \<Longrightarrow> a = b"
  by (auto simp: inj_map_def)

lemma separateD:
  assumes "separate n p"
  shows "inj_map (p_lock p)" "inj_map (p_fan p)" "inj_map (p_slot p)" "p_lock p a = Some x \<Longrightarrow> x < n" "p_tx p a = Some x \<Longrightarrow> x < n"
    "p_fan p a = Some x \<Longrightarrow> x < n" "p_inbox p a = Some x \<Longrightarrow> x < n" "p_counters p a = Some x \<Longrightarrow> x < n" "p_slot p a = Some x \<Longrightarrow> x < n"
  using assms by (simp_all add: separate_def own_def)

lemma own_mono: "own n m \<Longrightarrow> n \<le> n' \<Longrightarrow> own n' m"
  unfolding own_def by (meson order_less_le_trans)

lemma separate_mono: "separate n p \<Longrightarrow> n \<le> n' \<Longrightarrow> separate n' p"
  by (auto simp: separate_def intro: own_mono)

lemma sinks_okD:
  assumes "sinks_ok hp p" and "p_fan p a = Some f" and "s \<in> set (hp_fanouts hp f)"
  shows "p_counters p (sink_target s) = Some (sink_counters s)" "sink_tx s < hp_next hp" "p_tx p b \<noteq> Some (sink_tx s)"
    "p_fan p b = Some g \<Longrightarrow> u \<in> set (hp_fanouts hp g) \<Longrightarrow> sink_tx u = sink_tx s \<Longrightarrow> b = a \<and> u = s"
  using assms unfolding sinks_ok_def by blast+

text \<open>Fewer sinks on the same fan-outs.\<close>

lemma sinks_fewer:
  assumes "sinks_ok hp p" and "hp_next hp \<le> hp_next hp'" and "p_fan p' = p_fan p" "p_tx p' = p_tx p" "p_counters p' = p_counters p"
    and "\<And>a f. p_fan p a = Some f \<Longrightarrow> set (hp_fanouts hp' f) \<subseteq> set (hp_fanouts hp f)"
  shows "sinks_ok hp' p'"
  unfolding sinks_ok_def assms(3-5)
proof (intro allI impI, goal_cases)
  case (1 a f s)
  then have s: "s \<in> set (hp_fanouts hp f)" using assms(6) by blast
  note d = sinks_okD [OF assms(1) 1(1) s]
  have "sink_tx s < hp_next hp'" using d(2) assms(2) by simp
  with d(1,3) d(4) assms(6) show ?case by blast
qed

lemma completeD:
  assumes "complete F p"
  shows "faces Host F a \<Longrightarrow> p_lock p a \<noteq> None" "faces Host F a \<Longrightarrow> p_tx p a \<noteq> None"
    "faces Host F a \<Longrightarrow> p_fan p a \<noteq> None" "faces Target F a \<Longrightarrow> p_inbox p a \<noteq> None"
    "faces Target F a \<Longrightarrow> p_counters p a \<noteq> None" "faces Target F a \<Longrightarrow> p_slot p a \<noteq> None"
    "p_lock p a = Some x \<Longrightarrow> faces Host F a" "p_slot p a = Some x \<Longrightarrow> faces Target F a"
    "p_fan p a = Some x \<Longrightarrow> faces Host F a"
  using assms [unfolded complete_def, THEN spec, of a] by auto

lemma linked_slot:
  "linked F ls nxt hp p \<Longrightarrow> p_slot p t = Some x \<Longrightarrow> slot_ok ls nxt hp p t (hp_slots hp x)"
  by (simp add: linked_def slots_ok_def)

lemma slot_ok_mono:
  assumes "slot_ok ls n hp p t e" and "n \<le> n'"
  shows "slot_ok ls n' hp p t e"
proof (cases "map_of ls t")
  case None
  then show ?thesis using assms(1) by (simp add: slot_ok_def)
next
  case (Some hm)
  then show ?thesis using assms by (cases hm) (fastforce simp: slot_ok_def)
qed

lemma linked_mono: "linked F ls n hp p \<Longrightarrow> n \<le> n' \<Longrightarrow> linked F ls n' hp p"
  by (auto simp: linked_def slots_ok_def intro: slot_ok_mono)

lemma slot_ok_keep:
  assumes "slot_ok ls n hp p u e" and "map_of ls' u = map_of ls u"
    and "\<And>h x. p_lock p h = Some x \<Longrightarrow> p_lock p' h = Some x \<and> p_tx p' h = p_tx p h"
    and "\<And>h x i. p_lock p h = Some x \<Longrightarrow> unat i < n \<Longrightarrow> edge_registered e = Some (x, i) \<Longrightarrow>
      tag (lock_at hp' x) i = tag (lock_at hp x) i"
  shows "slot_ok ls' n hp' p' u e"
proof (cases "map_of ls u")
  case None
  then show ?thesis using assms(1,2) by (simp add: slot_ok_def)
next
  case (Some hm)
  obtain h m where hm: "hm = (h, m)" by (cases hm)
  with assms(1) Some obtain x i where x: "p_lock p h = Some x" "unat i < n"
    "tag (lock_at hp x) i = Some (EndpointAddr_display u, m)"
    "e = \<lparr>edge_registered = Some (x, i), edge_writer = (if m = Never then None else p_tx p h), edge_attached = True\<rparr>"
    by (auto simp: slot_ok_def)
  then have "tag (lock_at hp' x) i = tag (lock_at hp x) i" using assms(4) by simp
  with x Some hm assms(2) assms(3) [OF x(1)] show ?thesis by (auto simp: slot_ok_def)
qed

text \<open>A registered id names one target of the lock.\<close>

lemma registered_link:
  assumes "linked F ls nxt hp p" "p_slot p t = Some y" "edge_registered (hp_slots hp y) = Some (x, i)"
  obtains h m where "map_of ls t = Some (h, m)" "p_lock p h = Some x" "unat i < nxt"
    "tag (lock_at hp x) i = Some (EndpointAddr_display t, m)"
  using linked_slot [OF assms(1,2)] assms(3)
  by (auto simp: slot_ok_def unattached_edge_def split: option.splits)

lemma fresh_origin:
  assumes "linked F ls nxt hp p" "p_lock p a = Some x" "nxt \<le> unat i" "i < SEND_ORIGIN_BASE"
  shows "origin_of (lock_at hp x) i = None"
proof (rule ccontr)
  assume "origin_of (lock_at hp x) i \<noteq> None"
  then have "tag (lock_at hp x) i \<noteq> None" by (simp add: tag_def)
  with linkedD(7) [OF assms(1)] assms(2,4) obtain t y
    where "p_slot p t = Some y" "edge_registered (hp_slots hp y) = Some (x, i)"
    unfolding origins_ok_def by blast
  then obtain h m where "unat i < nxt" using registered_link [OF assms(1)] by metis
  with assms(3) show False by simp
qed

section \<open>Steps that keep every link\<close>

text \<open>The objects the lookups reach are the same but for origins of transient sends and grants.\<close>

definition same_links :: "ports \<Rightarrow> 're heap \<Rightarrow> 're heap \<Rightarrow> bool" where
  "same_links p hp hp' \<longleftrightarrow>
     hp_next hp \<le> hp_next hp' \<and>
     (\<forall>a x. p_lock p a = Some x \<longrightarrow>
        lc_closed (hp_cells hp' x) = lc_closed (hp_cells hp x) \<and>
        lc_endpoint (hp_cells hp' x) = lc_endpoint (hp_cells hp x) \<and>
        lock_inv (lock_at hp' x) \<and>
        Lock.arbitration (lock_at hp' x) = Lock.arbitration (lock_at hp x) \<and>
        (\<forall>i < SEND_ORIGIN_BASE. tag (lock_at hp' x) i = tag (lock_at hp x) i)) \<and>
     (\<forall>a x. p_fan p a = Some x \<longrightarrow> hp_fanouts hp' x = hp_fanouts hp x) \<and>
     (\<forall>a x. p_slot p a = Some x \<longrightarrow> hp_slots hp' x = hp_slots hp x)"

lemma linked_same:
  assumes "linked F ls nxt hp p" and "same_links p hp hp'" and "nxt \<le> unat SEND_ORIGIN_BASE"
  shows "linked F ls nxt hp' p"
proof (rule linkedI)
  note same = assms(2) [unfolded same_links_def]
  show "links_ok F ls" "complete F p" using linkedD [OF assms(1)] by simp_all
  show "separate (hp_next hp') p" using separate_mono [OF linkedD(3) [OF assms(1)]] same by blast
  show "sinks_ok hp' p"
    using same by (intro sinks_fewer [OF linkedD(9) [OF assms(1)]]) simp_all
  show "cells_ok F hp' p" using linkedD(4) [OF assms(1)] same unfolding cells_ok_def by metis
  show "fans_ok ls hp' p" using linkedD(5) [OF assms(1)] same unfolding fans_ok_def by metis
  show "names_ok hp' p" using linkedD(8) [OF assms(1)] same by (auto simp: names_ok_def split: option.splits)
  show "slots_ok ls nxt hp' p"
    unfolding slots_ok_def
  proof (intro allI impI)
    fix t y assume y: "p_slot p t = Some y"
    then have "hp_slots hp' y = hp_slots hp y" using same by blast
    moreover have "slot_ok ls nxt hp' p t (hp_slots hp y)"
      using linked_slot [OF assms(1) y] refl
    proof (rule slot_ok_keep, goal_cases)
      case (2 h x i)
      then have "i < SEND_ORIGIN_BASE" using assms(3) by (simp add: word_less_nat_alt)
      with 2 same show ?case by blast
    qed simp
    ultimately show "slot_ok ls nxt hp' p t (hp_slots hp' y)" by simp
  qed
  show "origins_ok hp' p"
    using linkedD(7) [OF assms(1)] same unfolding origins_ok_def by metis
qed

lemma same_links_refl: "linked F ls nxt hp p \<Longrightarrow> same_links p hp hp"
  using linkedD(4) [of F ls nxt hp p] by (auto simp: same_links_def cells_ok_def)

lemma same_links_trans: "same_links p a b \<Longrightarrow> same_links p b c \<Longrightarrow> same_links p a c"
  unfolding same_links_def by (auto dest: order_trans)

section \<open>Tags\<close>

lemma tag_register:
  assumes "lock_inv l"
  shows "tag (lock_register i lbl m l) = (tag l)(i \<mapsto> (lbl, m))"
proof -
  have "origins (lock_register i lbl m l) =
      btree_insert i \<lparr>origin_label = lbl, origin_write_mode = m, origin_purged = 0\<rparr> (origins l)"
    by (simp add: lock_register_def Let_def)
  moreover have "btree_ok (origins l)" using assms by (simp add: lock_inv_def)
  ultimately show ?thesis by (simp add: tag_def fun_eq_iff)
qed

lemma tag_unregister: "tag (snd (lock_unregister i l)) = (tag l)(i := None)"
  by (simp add: tag_def lock_unregister_def Let_def fun_eq_iff btree_get_remove)

lemma tag_record_purge: "lock_inv l \<Longrightarrow> tag (record_purge i n l) = tag l"
  by (auto simp: tag_def record_purge_def lock_inv_def fun_eq_iff split: option.split)

lemma tag_grant [simp]: "tag (grant_to i l) = tag l" "tag (l\<lparr>stolen := r\<rparr>) = tag l" "tag (l\<lparr>holder := v\<rparr>) = tag l"
    "tag (l\<lparr>waiters := ws\<rparr>) = tag l" "tag (l\<lparr>generation := g\<rparr>) = tag l"
  by (simp_all add: tag_def grant_to_def fun_eq_iff)

lemma tag_acquire: "tag (snd (acquire i l)) = tag l"
  using acquire_effect [of i l] by auto

lemma tag_steal: "tag (snd (steal i l)) = tag l"
  using steal_effect [of i l] by auto

lemma tag_reclaim: "tag (snd (reclaim_held i l)) = tag l"
  using reclaim_held_effect [of i l] by auto

lemma tag_simple: "tag (enqueue i l) = tag l" "tag (dequeue i l) = tag l" "tag (snd (lock_release i l)) = tag l"
    "tag (snd (renew i l)) = tag l"
  by (auto simp: enqueue_def dequeue_def lock_release_def renew_def split: option.split)

lemma arbitration_register [simp]: "Lock.arbitration (lock_register i lbl m l) = Lock.arbitration l"
  by (simp add: lock_register_def Let_def)

lemma arbitration_unregister [simp]: "Lock.arbitration (snd (lock_unregister i l)) = Lock.arbitration l"
  by (simp add: lock_unregister_def Let_def)

section \<open>Attaching\<close>

lemma inbox_try_send_frame:
  assumes "inbox_try_send b rx hp = (r, hp')"
  shows "hp_next hp' = hp_next hp" "hp_cells hp' = hp_cells hp" "hp_fanouts hp' = hp_fanouts hp"
    "hp_slots hp' = hp_slots hp" "hp_hubs hp' = hp_hubs hp" "hp_depths hp' = hp_depths hp"
  using assms by (auto simp: inbox_try_send_def Let_def split: if_splits)

lemma new_channel_frame:
  assumes "new_channel depth hp = (tx, hp')"
  shows "tx = hp_next hp" "hp_next hp' = Suc (hp_next hp)" "hp_cells hp' = hp_cells hp"
    "hp_fanouts hp' = hp_fanouts hp" "hp_slots hp' = hp_slots hp" "hp_hubs hp' = hp_hubs hp" "hp_inboxes hp' = hp_inboxes hp"
  using assms by (auto simp: new_channel_def)

lemma edge_filled:
  "(e :: TargetEdge)\<lparr>edge_attached := a, edge_registered := r, edge_writer := w\<rparr> =
     \<lparr>edge_registered = r, edge_writer = w, edge_attached = a\<rparr>"
  by simp

text \<open>What an attach that is not refused does to the heap, and what a refused one does not.\<close>

lemma attach_edge_effect:
  assumes "attach_edge q m depth hp = (out, hp')" and "\<not> out_inbox_full out" and "parts_lock q = Some x"
  shows "hp_next hp' = Suc (hp_next hp)"
    "hp_cells hp' = (hp_cells hp)(x := (hp_cells hp x)\<lparr>lc_lock :=
       lock_register (parts_origin q) (EndpointAddr_display (parts_target q)) m (lock_at hp x)\<rparr>)"
    "hp_slots hp' = (hp_slots hp)(parts_slot q :=
       \<lparr>edge_registered = Some (x, parts_origin q), edge_writer = (if m = Never then None else parts_host_targetward q),
        edge_attached = True\<rparr>)"
    "hp_fanouts hp' = (hp_fanouts hp)(parts_fanout q := hp_fanouts hp (parts_fanout q) @
       [\<lparr>sink_target = parts_target q, sink_tx = hp_next hp, sink_counters = parts_counters q\<rparr>])"
    "hp_hubs hp' = hp_hubs hp"
    "out_registered out = Some (x, parts_origin q)" "out_addressable out \<longleftrightarrow> m \<noteq> Never \<and> parts_host_targetward q \<noteq> None"
proof -
  obtain tx hp1 where ch: "new_channel depth hp = (tx, hp1)" by (cases "new_channel depth hp")
  obtain r hp2 where snd: "inbox_try_send (parts_inbox q) tx hp1 = (r, hp2)"
    by (cases "inbox_try_send (parts_inbox q) tx hp1")
  have "r \<noteq> SendFull" using assms(1,2) ch snd by (auto simp: attach_edge_def)
  then obtain live where rest: "attach_rest q m tx live hp2 = (out, hp')"
    using assms(1) ch snd by (cases r) (auto simp: attach_edge_def)
  note frame = inbox_try_send_frame [OF snd] new_channel_frame [OF ch]
  note defs = attach_rest_def Let_def with_lock_def with_slot_def fanout_attach_def
  have hp': "hp' = snd (attach_rest q m tx live hp2)" and out: "out = fst (attach_rest q m tx live hp2)"
    by (simp_all add: rest)
  show "hp_next hp' = Suc (hp_next hp)" "hp_hubs hp' = hp_hubs hp"
    "hp_cells hp' = (hp_cells hp)(x := (hp_cells hp x)\<lparr>lc_lock :=
       lock_register (parts_origin q) (EndpointAddr_display (parts_target q)) m (lock_at hp x)\<rparr>)"
    unfolding hp' by (simp_all add: defs assms(3) frame)
  show "hp_slots hp' = (hp_slots hp)(parts_slot q :=
       \<lparr>edge_registered = Some (x, parts_origin q), edge_writer = (if m = Never then None else parts_host_targetward q),
        edge_attached = True\<rparr>)"
    unfolding hp' by (simp add: defs assms(3) frame edge_filled)
  show "hp_fanouts hp' = (hp_fanouts hp)(parts_fanout q := hp_fanouts hp (parts_fanout q) @
       [\<lparr>sink_target = parts_target q, sink_tx = hp_next hp, sink_counters = parts_counters q\<rparr>])"
    unfolding hp' by (simp add: defs assms(3) frame)
  show "out_registered out = Some (x, parts_origin q)" "out_addressable out \<longleftrightarrow> m \<noteq> Never \<and> parts_host_targetward q \<noteq> None"
    unfolding out by (simp_all add: defs assms(3))
qed

lemma attach_edge_full:
  assumes "attach_edge q m depth hp = (out, hp')" and "out_inbox_full out"
  shows "hp_next hp' = Suc (hp_next hp)" "hp_cells hp' = hp_cells hp" "hp_slots hp' = hp_slots hp"
    "hp_fanouts hp' = hp_fanouts hp" "hp_hubs hp' = hp_hubs hp"
proof -
  obtain tx hp1 where ch: "new_channel depth hp = (tx, hp1)" by (cases "new_channel depth hp")
  obtain r hp2 where snd: "inbox_try_send (parts_inbox q) tx hp1 = (r, hp2)"
    by (cases "inbox_try_send (parts_inbox q) tx hp1")
  have "r = SendFull" and "hp' = hp2"
    using assms ch snd by (cases r; auto simp: attach_edge_def attach_rest_def Let_def)+
  then show "hp_next hp' = Suc (hp_next hp)" "hp_cells hp' = hp_cells hp" "hp_slots hp' = hp_slots hp"
    "hp_fanouts hp' = hp_fanouts hp" "hp_hubs hp' = hp_hubs hp"
    using inbox_try_send_frame [OF snd] new_channel_frame [OF ch] by simp_all
qed

text \<open>The clauses that an attach has to re-establish, each on its own.\<close>

lemma attach_slots:
  assumes lk: "linked F ls nxt hp p" and y: "p_slot p t = Some y" and new: "map_of ls t = None"
    and x: "p_lock p h = Some x" and i: "unat i = nxt"
    and tag': "\<And>z j. tag (lock_at hp' z) j =
      (if z = x \<and> j = i then Some (EndpointAddr_display t, m) else tag (lock_at hp z) j)"
    and slots': "hp_slots hp' = (hp_slots hp)(y := \<lparr>edge_registered = Some (x, i),
      edge_writer = (if m = Never then None else p_tx p h), edge_attached = True\<rparr>)"
  shows "slots_ok (ls @ [(t, h, m)]) (Suc nxt) hp' p"
  unfolding slots_ok_def
proof (intro allI impI)
  fix u z assume z: "p_slot p u = Some z"
  show "slot_ok (ls @ [(t, h, m)]) (Suc nxt) hp' p u (hp_slots hp' z)"
  proof (cases "u = t")
    case True
    with y z have "z = y" by simp
    with True x new i show ?thesis by (auto simp: slot_ok_def slots' tag' map_add_def)
  next
    case False
    then have "z \<noteq> y" using inj_mapD [of "p_slot p" u z t] separateD(3) [OF linkedD(3) [OF lk]] y z by auto
    then have eq: "hp_slots hp' z = hp_slots hp z" by (simp add: slots')
    have "slot_ok (ls @ [(t, h, m)]) nxt hp' p u (hp_slots hp z)"
      using linked_slot [OF lk z] by (rule slot_ok_keep) (use False i tag' in \<open>auto simp: map_add_def split: option.split\<close>)
    then show ?thesis unfolding eq by (rule slot_ok_mono) simp
  qed
qed

lemma attach_origins:
  assumes lk: "linked F ls nxt hp p" and y: "p_slot p t = Some y" and was: "hp_slots hp y = unattached_edge"
    and tag': "\<And>z j. tag (lock_at hp' z) j = (if z = x \<and> j = i then Some v else tag (lock_at hp z) j)"
    and slots': "hp_slots hp' = (hp_slots hp)(y := e)" "edge_registered e = Some (x, i)"
  shows "origins_ok hp' p"
  unfolding origins_ok_def
proof (intro allI impI)
  fix a z j assume a: "p_lock p a = Some z" and j: "tag (lock_at hp' z) j \<noteq> None" "j < SEND_ORIGIN_BASE"
  show "\<exists>u w. p_slot p u = Some w \<and> edge_registered (hp_slots hp' w) = Some (z, j)"
  proof (cases "z = x \<and> j = i")
    case True
    with y slots' show ?thesis by (auto intro!: exI [of _ t])
  next
    case False
    with j have "tag (lock_at hp z) j \<noteq> None" by (simp add: tag')
    with linkedD(7) [OF lk] a j(2) obtain u w where
      w: "p_slot p u = Some w" "edge_registered (hp_slots hp w) = Some (z, j)" unfolding origins_ok_def by blast
    then have "w \<noteq> y" using was by (auto simp: unattached_edge_def)
    with w show ?thesis by (auto simp: slots')
  qed
qed

lemma names_update:
  assumes "names_ok hp p" and "inj_map (p_slot p)" and y: "p_slot p t = Some y" and "hp_slots hp' = (hp_slots hp)(y := e)"
    and "v = (if edge_writer e = None then None else edge_registered e)"
  shows "names_ok hp' (p\<lparr>p_origin := (p_origin p)(t := v)\<rparr>)"
  unfolding names_ok_def
proof
  fix u
  show "p_origin (p\<lparr>p_origin := (p_origin p)(t := v)\<rparr>) u = (case p_slot (p\<lparr>p_origin := (p_origin p)(t := v)\<rparr>) u of
      Some x \<Rightarrow> if edge_writer (hp_slots hp' x) = None then None else edge_registered (hp_slots hp' x) | None \<Rightarrow> None)"
  proof (cases "u = t")
    case True
    with assms(4,5) y show ?thesis by simp
  next
    case False
    then have "p_slot p u \<noteq> Some y" using inj_mapD [OF assms(2) _ y] by blast
    with assms(1,4) False show ?thesis by (auto simp: names_ok_def split: option.splits)
  qed
qed

lemma slot_ok_origin [simp]: "slot_ok ls n hp (p\<lparr>p_origin := r\<rparr>) = slot_ok ls n hp p"
  by (simp add: slot_ok_def fun_eq_iff split: option.split)

lemma ports_origin_irrelevant [simp]:
  "complete F (p\<lparr>p_origin := r\<rparr>) = complete F p" "separate n (p\<lparr>p_origin := r\<rparr>) = separate n p"
  "cells_ok F hp (p\<lparr>p_origin := r\<rparr>) = cells_ok F hp p" "fans_ok ls hp (p\<lparr>p_origin := r\<rparr>) = fans_ok ls hp p"
  "slots_ok ls n hp (p\<lparr>p_origin := r\<rparr>) = slots_ok ls n hp p" "origins_ok hp (p\<lparr>p_origin := r\<rparr>) = origins_ok hp p"
  "sinks_ok hp (p\<lparr>p_origin := r\<rparr>) = sinks_ok hp p"
  by (simp_all add: complete_def separate_def cells_ok_def fans_ok_def slots_ok_def origins_ok_def sinks_ok_def)

text \<open>The sink an attach adds sends into the channel it allocated, which nothing else has.\<close>

lemma attach_sinks:
  assumes sk: "sinks_ok hp p" and sep: "separate (hp_next hp) p" and f: "p_fan p h = Some f" and k: "p_counters p t = Some k"
    and next': "hp_next hp' = Suc (hp_next hp)"
    and fans': "hp_fanouts hp' = (hp_fanouts hp)(f := hp_fanouts hp f @ [\<lparr>sink_target = t, sink_tx = hp_next hp, sink_counters = k\<rparr>])"
  shows "sinks_ok hp' p"
proof -
  let ?new = "\<lparr>sink_target = t, sink_tx = hp_next hp, sink_counters = k\<rparr>"
  have old: "s \<in> set (hp_fanouts hp g) \<or> a = h \<and> s = ?new" if "p_fan p a = Some g" "s \<in> set (hp_fanouts hp' g)" for a g s
    using that f inj_mapD [OF separateD(2) [OF sep], of a f h] by (auto simp: fans' split: if_splits)
  have low: "sink_tx s < hp_next hp" if "p_fan p a = Some g" "s \<in> set (hp_fanouts hp g)" for a g s
    using sinks_okD(2) [OF sk that] .
  have tx: "p_tx p b \<noteq> Some (hp_next hp)" for b using separateD(5) [OF sep, of b "hp_next hp"] by auto
  show ?thesis
    unfolding sinks_ok_def
  proof (intro allI impI, goal_cases)
    case (1 a g s)
    have "p_counters p (sink_target s) = Some (sink_counters s) \<and> sink_tx s < hp_next hp' \<and> (\<forall>b. p_tx p b \<noteq> Some (sink_tx s))"
      using old [OF 1] sinks_okD(1-3) [OF sk 1(1)] k tx next' by (auto intro: less_SucI)
    moreover have "b = a \<and> u = s" if "p_fan p b = Some j" "u \<in> set (hp_fanouts hp' j)" "sink_tx u = sink_tx s" for b j u
      using old [OF 1] old [OF that(1,2)] that(3) low [OF 1(1), of s] low [OF that(1), of u] sinks_okD(4) [OF sk 1(1) _ that(1)] by auto
    ultimately show ?case by blast
  qed
qed

lemma attach_linked:
  assumes lk: "linked F ls nxt hp p" and lim: "nxt < unat SEND_ORIGIN_BASE"
    and h: "faces Host F h" and t: "faces Target F t" "t \<notin> fst ` set ls"
    and q: "parts_target q = t" "unat (parts_origin q) = nxt" "parts_lock q = p_lock p h"
      "parts_host_targetward q = p_tx p h" "p_fan p h = Some (parts_fanout q)" "p_slot p t = Some (parts_slot q)"
      "p_counters p t = Some (parts_counters q)"
    and run: "attach_edge q m depth hp = (out, hp')" "\<not> out_inbox_full out"
  shows "\<exists>x. p_lock p h = Some x \<and> out_registered out = Some (x, parts_origin q) \<and> (out_addressable out \<longleftrightarrow> m \<noteq> Never) \<and>
    linked F (ls @ [(t, h, m)]) (Suc nxt) hp'
      (p\<lparr>p_origin := (p_origin p)(t := if m = Never then None else Some (x, parts_origin q))\<rparr>)"
proof -
  define i where "i = parts_origin q"
  obtain x tx where x: "p_lock p h = Some x" and tx: "p_tx p h = Some tx"
    using completeD(1,2) [OF linkedD(2) [OF lk] h] by blast
  note eff = attach_edge_effect [OF run, of x, unfolded q(1,3,4) x, OF refl, folded i_def]
  have fresh: "origin_of (lock_at hp x) i = None" and i: "unat i = nxt"
    using fresh_origin [OF lk x, of i] q(2) lim by (simp_all add: i_def word_less_nat_alt)
  have cell: "lock_inv (lock_at hp x)" using linkedD(4) [OF lk] x by (auto simp: cells_ok_def)
  have tag': "tag (lock_at hp' y) j = (if y = x \<and> j = i then Some (EndpointAddr_display t, m) else tag (lock_at hp y) j)" for y j
    using cell by (simp add: eff(2) tag_register)
  have inj: "inj_map (p_slot p)" "inj_map (p_lock p)" "inj_map (p_fan p)"
    using separateD [OF linkedD(3) [OF lk]] by simp_all
  have unlinked: "map_of ls t = None" using t(2) by (simp add: map_of_eq_None_iff)
  have was: "hp_slots hp (parts_slot q) = unattached_edge"
    using linked_slot [OF lk q(6)] unlinked by (simp add: slot_ok_def)
  have "linked F (ls @ [(t, h, m)]) (Suc nxt) hp'
      (p\<lparr>p_origin := (p_origin p)(t := if m = Never then None else Some (x, i))\<rparr>)"
  proof (rule linkedI, simp_all only: ports_origin_irrelevant)
    show "links_ok F (ls @ [(t, h, m)])" using linkedD(1) [OF lk] h t by (auto simp: links_ok_def)
    show "complete F p" by (rule linkedD(2) [OF lk])
    show "separate (hp_next hp') p" using separate_mono [OF linkedD(3) [OF lk]] by (simp add: eff(1))
    show "sinks_ok hp' p" by (rule attach_sinks [OF linkedD(9,3) [OF lk] q(5,7) eff(1,4)])
    show "cells_ok F hp' p"
      using linkedD(4) [OF lk] lock_inv_register [OF cell fresh] x by (auto simp: cells_ok_def eff(2))
    show "fans_ok (ls @ [(t, h, m)]) hp' p"
      unfolding fans_ok_def
    proof (intro allI impI)
      fix a f assume f: "p_fan p a = Some f"
      then have "f = parts_fanout q \<longleftrightarrow> a = h" using inj_mapD [OF inj(3)] q(5) by auto
      moreover have "map sink_target (hp_fanouts hp f) = map fst (filter (\<lambda>(t, h, m). h = a) ls)"
        using linkedD(5) [OF lk] f by (simp add: fans_ok_def)
      ultimately show "map sink_target (hp_fanouts hp' f) = map fst (filter (\<lambda>(t, h, m). h = a) (ls @ [(t, h, m)]))"
        by (auto simp: eff(4))
    qed
    show "slots_ok (ls @ [(t, h, m)]) (Suc nxt) hp' p"
      by (rule attach_slots [OF lk q(6) unlinked x i tag' eff(3)])
    show "origins_ok hp' p" by (rule attach_origins [OF lk q(6) was tag' eff(3)]) simp
    show "names_ok hp' (p\<lparr>p_origin := (p_origin p)(t := if m = Never then None else Some (x, i))\<rparr>)"
      by (rule names_update [OF linkedD(8) [OF lk] inj(1) q(6) eff(3)]) (simp add: tx)
  qed
  then show ?thesis using x tx eff(6,7) by (auto simp: i_def)
qed

section \<open>Two wirings side by side\<close>

definition ports_add :: "ports \<Rightarrow> ports \<Rightarrow> ports" where
  "ports_add p q =
     \<lparr>p_lock = p_lock p ++ p_lock q, p_tx = p_tx p ++ p_tx q, p_fan = p_fan p ++ p_fan q,
      p_inbox = p_inbox p ++ p_inbox q, p_counters = p_counters p ++ p_counters q, p_slot = p_slot p ++ p_slot q,
      p_origin = p_origin p ++ p_origin q\<rparr>"

text \<open>The channels reached: those of the host-facing endpoints and those of the sinks.\<close>

definition channels :: "'re heap \<Rightarrow> ports \<Rightarrow> handle set" where
  "channels hp p = ran (p_tx p) \<union> {sink_tx s |a f s. p_fan p a = Some f \<and> s \<in> set (hp_fanouts hp f)}"

definition ports_apart :: "'re heap \<Rightarrow> ports \<Rightarrow> ports \<Rightarrow> bool" where
  "ports_apart hp p q \<longleftrightarrow>
     ran (p_lock p) \<inter> ran (p_lock q) = {} \<and> channels hp p \<inter> channels hp q = {} \<and> ran (p_fan p) \<inter> ran (p_fan q) = {} \<and>
     ran (p_inbox p) \<inter> ran (p_inbox q) = {} \<and> ran (p_counters p) \<inter> ran (p_counters q) = {} \<and> ran (p_slot p) \<inter> ran (p_slot q) = {}"

lemma channelsI:
  "p_tx p a = Some x \<Longrightarrow> x \<in> channels hp p" "p_fan p a = Some f \<Longrightarrow> s \<in> set (hp_fanouts hp f) \<Longrightarrow> sink_tx s \<in> channels hp p"
  by (auto simp: channels_def ran_def)

lemma faces_add: "dom F \<inter> dom G = {} \<Longrightarrow> faces f (F ++ G) a \<longleftrightarrow> faces f F a \<or> faces f G a"
  by (auto simp: faces_def map_add_def split: option.splits)

lemma inj_map_add: "inj_map m \<Longrightarrow> inj_map n \<Longrightarrow> ran m \<inter> ran n = {} \<Longrightarrow> inj_map (m ++ n)"
  by (auto simp: inj_map_def map_add_Some_iff ran_def)

lemma linked_dom:
  assumes "linked F ls n hp p"
  shows "dom (p_lock p) \<subseteq> dom F" "dom (p_tx p) \<subseteq> dom F" "dom (p_fan p) \<subseteq> dom F" "dom (p_inbox p) \<subseteq> dom F"
    "dom (p_counters p) \<subseteq> dom F" "dom (p_slot p) \<subseteq> dom F" "dom (p_origin p) \<subseteq> dom F" "fst ` set ls \<subseteq> dom F"
proof -
  have c: "complete F p" by (rule linkedD(2) [OF assms])
  show "dom (p_lock p) \<subseteq> dom F" "dom (p_tx p) \<subseteq> dom F" "dom (p_fan p) \<subseteq> dom F" "dom (p_inbox p) \<subseteq> dom F"
    "dom (p_counters p) \<subseteq> dom F" and slot: "dom (p_slot p) \<subseteq> dom F"
    using c by (auto simp: complete_def faces_def dom_def)
  show "dom (p_origin p) \<subseteq> dom F"
    using linkedD(8) [OF assms] slot by (fastforce simp: names_ok_def dom_def split: option.splits)
  show "fst ` set ls \<subseteq> dom F"
    using linkedD(1) [OF assms] by (auto simp: links_ok_def list_all_iff faces_def)
qed

lemma add_slots:
  assumes a: "linked F ls n hp p" and b: "linked G ks k hp q" and FG: "dom F \<inter> dom G = {}"
  shows "slots_ok (ls @ ks) (max n k) hp (ports_add p q)"
proof -
  note da = linked_dom [OF a] and db = linked_dom [OF b]
  have keep: "slot_ok (ls @ ks) (max n k) hp (ports_add p q) t e"
    if ok: "slot_ok l r hp u t e" and m: "map_of (ls @ ks) t = map_of l t" and r: "r \<le> max n k"
      and u: "\<And>h x. p_lock u h = Some x \<Longrightarrow> p_lock (ports_add p q) h = Some x \<and> p_tx (ports_add p q) h = p_tx u h"
    for l r u t e
    using slot_ok_mono [OF slot_ok_keep [OF ok m u refl] r] .
  have look: "p_lock (ports_add p q) h = Some x \<and> p_tx (ports_add p q) h = p_tx p h" if "p_lock p h = Some x" for h x
  proof -
    have "h \<notin> dom G" using that da(1) FG by blast
    then have "p_lock q h = None" "p_tx q h = None" using db(1,2) by blast+
    with that show ?thesis by (simp add: ports_add_def map_add_def)
  qed
  have look2: "p_lock (ports_add p q) h = Some x \<and> p_tx (ports_add p q) h = p_tx q h" if "p_lock q h = Some x" for h x
    using that completeD(2) [OF linkedD(2) [OF b] completeD(7) [OF linkedD(2) [OF b] that]]
    by (auto simp: ports_add_def map_add_def)
  show ?thesis
    unfolding slots_ok_def
  proof (intro allI impI)
    fix t x assume "p_slot (ports_add p q) t = Some x"
    then consider "p_slot q t = Some x" | "p_slot p t = Some x" by (auto simp: ports_add_def map_add_Some_iff)
    then show "slot_ok (ls @ ks) (max n k) hp (ports_add p q) t (hp_slots hp x)"
    proof cases
      case 1
      then have "t \<notin> fst ` set ls" using db(6) da(8) FG by blast
      then have "map_of (ls @ ks) t = map_of ks t" by (simp add: map_add_def map_of_eq_None_iff [symmetric] split: option.split)
      then show ?thesis by (rule keep [OF linked_slot [OF b 1] _ _ look2]) simp_all
    next
      case 2
      then have "t \<notin> fst ` set ks" using da(6) db(8) FG by blast
      then have "map_of (ls @ ks) t = map_of ls t" by (simp add: map_add_def map_of_eq_None_iff [symmetric] split: option.split)
      then show ?thesis by (rule keep [OF linked_slot [OF a 2] _ _ look]) simp_all
    qed
  qed
qed

lemma own_add: "own n m \<Longrightarrow> own n l \<Longrightarrow> ran m \<inter> ran l = {} \<Longrightarrow> own n (m ++ l)"
  by (auto simp: own_def inj_map_add map_add_Some_iff)

text \<open>The sinks of two wirings side by side, seen from either.\<close>

lemma sinks_add_one:
  assumes "sinks_ok hp p" and "sinks_ok hp q" and "channels hp p \<inter> channels hp q = {}"
    and "p_fan p a = Some f" and "s \<in> set (hp_fanouts hp f)" and "p_fan r b = Some g" and "u \<in> set (hp_fanouts hp g)"
    and "sink_tx u = sink_tx s" and "p_fan r b = Some g \<Longrightarrow> p_fan p b = Some g \<or> p_fan q b = Some g"
  shows "b = a \<and> u = s"
proof -
  have "sink_tx s \<in> channels hp p" using channelsI(2) [OF assms(4,5)] .
  then have "p_fan q b \<noteq> Some g" using assms(3,7,8) channelsI(2) [of q b g u hp] by auto
  then show ?thesis using assms(6,9) sinks_okD(4) [OF assms(1,4,5) _ assms(7,8)] by blast
qed

lemma sinks_add:
  assumes p: "sinks_ok hp p" and q: "sinks_ok hp q" and ch: "channels hp p \<inter> channels hp q = {}"
    and ks: "dom (p_counters p) \<inter> dom (p_counters q) = {}"
  shows "sinks_ok hp (ports_add p q)"
  unfolding sinks_ok_def
proof (intro allI impI, goal_cases)
  case (1 a f s)
  let ?r = "ports_add p q"
  have fan: "p_fan p b = Some g \<or> p_fan q b = Some g" if "p_fan ?r b = Some g" for b g
    using that by (auto simp: ports_add_def map_add_Some_iff)
  have tx: "p_tx p b = Some x \<or> p_tx q b = Some x" if "p_tx ?r b = Some x" for b x
    using that by (auto simp: ports_add_def map_add_Some_iff)
  have k: "p_counters ?r t = Some x" if "p_counters p t = Some x \<or> p_counters q t = Some x" for t x
    using that ks by (auto simp: ports_add_def map_add_Some_iff)
  have ch': "channels hp q \<inter> channels hp p = {}" using ch by blast
  from fan [OF 1(1)] show ?case
  proof
    assume f: "p_fan p a = Some f"
    have "p_tx q b \<noteq> Some (sink_tx s)" for b using ch channelsI(2) [OF f 1(2)] channelsI(1) [of q b _ hp] by auto
    then show ?thesis using k tx sinks_okD(1-3) [OF p f 1(2)] sinks_add_one [OF p q ch f 1(2) _ _ _ fan] by blast
  next
    assume f: "p_fan q a = Some f"
    have "p_tx p b \<noteq> Some (sink_tx s)" for b using ch channelsI(2) [OF f 1(2)] channelsI(1) [of p b _ hp] by auto
    then show ?thesis using k tx sinks_okD(1-3) [OF q f 1(2)] sinks_add_one [OF q p ch' f 1(2) _ _ _ fan [THEN disj_commute [THEN iffD1]]] by blast
  qed
qed

lemma linked_add:
  assumes a: "linked F ls n hp p" and b: "linked G ks k hp q" and FG: "dom F \<inter> dom G = {}" and "ports_apart hp p q"
  shows "linked (F ++ G) (ls @ ks) (max n k) hp (ports_add p q)"
proof (rule linkedI)
  note da = linked_dom [OF a] and db = linked_dom [OF b]
  have disj: "A \<subseteq> dom F \<Longrightarrow> B \<subseteq> dom G \<Longrightarrow> A \<inter> B = {}" for A B using FG by blast
  have apart: "dom (p_lock p) \<inter> dom (p_lock q) = {}" "dom (p_tx p) \<inter> dom (p_tx q) = {}" "dom (p_fan p) \<inter> dom (p_fan q) = {}"
    "dom (p_slot p) \<inter> dom (p_slot q) = {}" "fst ` set ls \<inter> fst ` set ks = {}" "dom (p_counters p) \<inter> dom (p_counters q) = {}"
    by (rule disj, (rule da, rule db))+
  have left: "m a = Some x \<Longrightarrow> dom m \<inter> dom l = {} \<Longrightarrow> (m ++ l) a = Some x"
    for m l :: "EndpointAddr \<Rightarrow> 'b option" and a x by (auto simp: map_add_def dom_def split: option.splits)
  show "links_ok (F ++ G) (ls @ ks)"
    using linkedD(1) [OF a] linkedD(1) [OF b] apart(5) faces_add [OF FG]
    by (auto simp: links_ok_def list_all_iff)
  show "complete (F ++ G) (ports_add p q)"
    using linkedD(2) [OF a] linkedD(2) [OF b]
    by (simp add: complete_def ports_add_def faces_add [OF FG] map_add_None) blast
  show "separate (hp_next hp) (ports_add p q)"
    using linkedD(3) [OF a] linkedD(3) [OF b] assms(4)
    by (auto simp: separate_def ports_add_def ports_apart_def channels_def intro!: own_add)
  show "sinks_ok hp (ports_add p q)"
    using sinks_add [OF linkedD(9) [OF a] linkedD(9) [OF b] _ apart(6)] assms(4) by (simp add: ports_apart_def)
  show "cells_ok (F ++ G) hp (ports_add p q)"
    unfolding cells_ok_def
  proof (intro allI impI)
    fix g x assume "p_lock (ports_add p q) g = Some x"
    then consider "p_lock q g = Some x" "(F ++ G) g = G g" | "p_lock p g = Some x" "(F ++ G) g = F g"
      using da(1) db(1) FG by (fastforce simp: ports_add_def map_add_Some_iff map_add_def dom_def split: option.splits)
    then show "\<not> lc_closed (hp_cells hp x) \<and> lc_endpoint (hp_cells hp x) = EndpointAddr_display g \<and>
        lock_inv (lock_at hp x) \<and> map_option snd ((F ++ G) g) = Some (Lock.arbitration (lock_at hp x))"
      using linkedD(4) [OF a] linkedD(4) [OF b] unfolding cells_ok_def by cases simp_all
  qed
  have hosts: "fst ` snd ` set ls \<subseteq> dom F" "fst ` snd ` set ks \<subseteq> dom G"
    using linkedD(1) [OF a] linkedD(1) [OF b] by (auto simp: links_ok_def list_all_iff faces_def)
  then have none: "g \<in> dom G \<Longrightarrow> filter (\<lambda>(t, h, m). h = g) ls = []" "g \<in> dom F \<Longrightarrow> filter (\<lambda>(t, h, m). h = g) ks = []" for g
    using FG by (force simp: filter_empty_conv)+
  show "fans_ok (ls @ ks) hp (ports_add p q)"
    using linkedD(5) [OF a] linkedD(5) [OF b] none da(3) db(3)
    unfolding fans_ok_def ports_add_def by (auto simp: map_add_Some_iff dom_def)
  show "slots_ok (ls @ ks) (max n k) hp (ports_add p q)" by (rule add_slots [OF a b FG])
  show "origins_ok hp (ports_add p q)"
    unfolding origins_ok_def
  proof (intro allI impI)
    fix g x i assume x: "p_lock (ports_add p q) g = Some x" and i: "tag (lock_at hp x) i \<noteq> None" "i < SEND_ORIGIN_BASE"
    from x consider "p_lock q g = Some x" | "p_lock p g = Some x" by (auto simp: ports_add_def map_add_Some_iff)
    then obtain t y where "p_slot p t = Some y \<or> p_slot q t = Some y" "edge_registered (hp_slots hp y) = Some (x, i)"
      using linkedD(7) [OF a] linkedD(7) [OF b] i unfolding origins_ok_def by cases blast+
    moreover from this have "p_slot (ports_add p q) t = Some y"
      using left [OF _ apart(4)] by (auto simp: ports_add_def)
    ultimately show "\<exists>t y. p_slot (ports_add p q) t = Some y \<and> edge_registered (hp_slots hp y) = Some (x, i)" by blast
  qed
  show "names_ok hp (ports_add p q)"
    unfolding names_ok_def
  proof
    fix t
    have p: "p_origin p t = (case p_slot p t of Some x \<Rightarrow> if edge_writer (hp_slots hp x) = None then None else edge_registered (hp_slots hp x) | None \<Rightarrow> None)"
      and q: "p_origin q t = (case p_slot q t of Some x \<Rightarrow> if edge_writer (hp_slots hp x) = None then None else edge_registered (hp_slots hp x) | None \<Rightarrow> None)"
      using linkedD(8) [OF a] linkedD(8) [OF b] by (simp_all add: names_ok_def)
    have "p_slot p t = None \<or> p_slot q t = None" using apart(4) by (auto simp: dom_def)
    then show "p_origin (ports_add p q) t = (case p_slot (ports_add p q) t of
        Some x \<Rightarrow> if edge_writer (hp_slots hp x) = None then None else edge_registered (hp_slots hp x) | None \<Rightarrow> None)"
      by (auto simp: ports_add_def map_add_def p q split: option.splits)
  qed
qed

end
