(* ===== verification/Live_Graph_Laws.thy ===== *)
theory Live_Graph_Laws
  imports Live_Graph Wiring_Laws
begin

text \<open>
  The laws of the graph verbs: undoing an edge, building a plan and absorbing it, and what each verb keeps.
\<close>

section \<open>Addresses with plain node names\<close>

definition plain :: "endpoint_table \<Rightarrow> bool" where
  "plain F \<longleftrightarrow> (\<forall>a. F a \<noteq> None \<longrightarrow> CHR ''/'' \<notin> set (addr_node a))"

lemma plain_parse: "plain F \<Longrightarrow> F a \<noteq> None \<Longrightarrow> EndpointAddr_from_str (EndpointAddr_display a) = a"
  by (simp add: plain_def endpoint_addr_round_trip)

lemma plain_inj:
  assumes "plain F" "F a \<noteq> None" "F b \<noteq> None" "EndpointAddr_display a = EndpointAddr_display b"
  shows "a = b"
  using plain_parse [OF assms(1,2)] plain_parse [OF assms(1,3)] assms(4) by metis

lemma faces_known: "faces f F a \<Longrightarrow> F a \<noteq> None"
  by (auto simp: faces_def)

section \<open>Undoing an edge\<close>

lemma detach_heap_effect:
  assumes "detach_heap t (Some f) (Some y) hp = (released, hp')" and "edge_registered (hp_slots hp y) = Some (x, i)"
  shows "hp_next hp' = hp_next hp"
    "hp_cells hp' = (hp_cells hp)(x := (hp_cells hp x)\<lparr>lc_lock := snd (lock_unregister i (lock_at hp x)),
       lc_wakes := Suc (lc_wakes (hp_cells hp x))\<rparr>)"
    "hp_slots hp' = (hp_slots hp)(y := unattached_edge)"
    "hp_fanouts hp' = (hp_fanouts hp)(f := filter (\<lambda>s. sink_target s \<noteq> t) (hp_fanouts hp f))"
    "hp_hubs hp' = hp_hubs hp" "released \<longleftrightarrow> holder (lock_at hp x) = Some i"
  using assms
  by (auto simp: detach_heap_def Let_def fanout_detach_def with_slot_def with_lock_def wake_waiters_def
      unattached_edge_def fun_eq_iff)

lemma map_of_filter_fst: "map_of (filter (\<lambda>l. fst l \<noteq> t) ls) u = (if u = t then None else map_of ls u)"
  by (induction ls) auto

lemma detach_fans:
  assumes lk: "linked F ls nxt hp p" and link: "map_of ls t = Some (h, m)" and f: "p_fan p h = Some f"
    and fans: "hp_fanouts hp' = (hp_fanouts hp)(f := filter (\<lambda>s. sink_target s \<noteq> t) (hp_fanouts hp f))"
  shows "fans_ok (filter (\<lambda>l. fst l \<noteq> t) ls) hp' p"
  unfolding fans_ok_def
proof (intro allI impI)
  have inj: "inj_map (p_fan p)" using separateD(2) [OF linkedD(3) [OF lk]] .
  fix a g assume g: "p_fan p a = Some g"
  then have was: "map sink_target (hp_fanouts hp g) = map fst (filter (\<lambda>(t, h, m). h = a) ls)"
    using linkedD(5) [OF lk] by (simp add: fans_ok_def)
  show "map sink_target (hp_fanouts hp' g) =
      map fst (filter (\<lambda>(t, h, m). h = a) (filter (\<lambda>l. fst l \<noteq> t) ls))"
  proof (cases "a = h")
    case True
    then have "g = f" using f g by simp
    then have "map sink_target (hp_fanouts hp' g) = filter (\<lambda>u. u \<noteq> t) (map sink_target (hp_fanouts hp g))"
      by (simp add: fans filter_map comp_def)
    then show ?thesis unfolding was by (simp add: filter_map comp_def conj_commute)
  next
    case False
    then have "g \<noteq> f" using inj_mapD [OF inj g] f by blast
    moreover have "fst l \<noteq> t" if "l \<in> set ls" "fst (snd l) = a" for l
    proof
      assume "fst l = t"
      then have "map_of ls t = Some (snd l)"
        using that(1) linkedD(1) [OF lk] by (metis links_ok_def map_of_is_SomeI prod.collapse)
      with link that(2) False show False by simp
    qed
    then have "filter (\<lambda>(t, h, m). h = a) (filter (\<lambda>l. fst l \<noteq> t) ls) = filter (\<lambda>(t, h, m). h = a) ls"
      unfolding filter_filter by (intro filter_cong refl) fastforce
    ultimately show ?thesis using was by (simp add: fans)
  qed
qed

lemma detach_linked:
  assumes lk: "linked F ls nxt hp p" and "plain F" and link: "map_of ls t = Some (h, m)"
    and f: "p_fan p h = Some f" and y: "p_slot p t = Some y"
    and run: "detach_heap t (Some f) (Some y) hp = (released, hp')"
  shows "linked F (filter (\<lambda>l. fst l \<noteq> t) ls) nxt hp' (p\<lparr>p_origin := (p_origin p)(t := None)\<rparr>)"
proof -
  obtain x i where x: "p_lock p h = Some x" "unat i < nxt" "tag (lock_at hp x) i = Some (EndpointAddr_display t, m)"
    and e: "edge_registered (hp_slots hp y) = Some (x, i)"
    using linked_slot [OF lk y] link by (auto simp: slot_ok_def)
  note eff = detach_heap_effect [OF run e]
  have tag': "tag (lock_at hp' z) j = (if z = x \<and> j = i then None else tag (lock_at hp z) j)" for z j
    by (simp add: eff(2) tag_unregister)
  have inj: "inj_map (p_slot p)" "inj_map (p_lock p)" "inj_map (p_fan p)"
    using separateD [OF linkedD(3) [OF lk]] by simp_all
  have apart: "(x', i') \<noteq> (x, i)" if "u \<noteq> t" "p_slot p u = Some w" "edge_registered (hp_slots hp w) = Some (x', i')" for u w x' i'
  proof
    note reg = that(2,3)
    assume "(x', i') = (x, i)"
    moreover obtain m' where "tag (lock_at hp x') i' = Some (EndpointAddr_display u, m')"
      using registered_link [OF lk reg] by metis
    ultimately have "EndpointAddr_display u = EndpointAddr_display t" using x(3) by simp
    moreover have "F u \<noteq> None" "F t \<noteq> None"
      using completeD(8) [OF linkedD(2) [OF lk]] that(2) y faces_known by blast+
    ultimately show False using plain_inj [OF assms(2)] that(1) by blast
  qed
  show ?thesis
  proof (rule linkedI, simp_all only: ports_origin_irrelevant)
    show "links_ok F (filter (\<lambda>l. fst l \<noteq> t) ls)"
      using linkedD(1) [OF lk] by (auto simp: links_ok_def list_all_iff distinct_map_filter)
    show "complete F p" by (rule linkedD(2) [OF lk])
    show "separate (hp_next hp') p" using linkedD(3) [OF lk] by (simp add: eff(1))
    show "sinks_ok hp' p" by (rule sinks_fewer [OF linkedD(9) [OF lk]]) (auto simp: eff)
    show "cells_ok F hp' p"
      using linkedD(4) [OF lk] lock_inv_unregister by (auto simp: cells_ok_def eff(2))
    show "fans_ok (filter (\<lambda>l. fst l \<noteq> t) ls) hp' p" by (rule detach_fans [OF lk link f eff(4)])
    show "slots_ok (filter (\<lambda>l. fst l \<noteq> t) ls) nxt hp' p"
      unfolding slots_ok_def
    proof (intro allI impI)
      fix u w assume w: "p_slot p u = Some w"
      show "slot_ok (filter (\<lambda>l. fst l \<noteq> t) ls) nxt hp' p u (hp_slots hp' w)"
      proof (cases "u = t")
        case True
        with w y show ?thesis by (simp add: slot_ok_def eff(3) map_of_filter_fst)
      next
        case False
        then have "w \<noteq> y" using inj_mapD [OF inj(1) w] y by blast
        moreover have "slot_ok (filter (\<lambda>l. fst l \<noteq> t) ls) nxt hp' p u (hp_slots hp w)"
          using linked_slot [OF lk w] by (rule slot_ok_keep)
            (use False apart w in \<open>auto simp: map_of_filter_fst tag'\<close>)
        ultimately show ?thesis by (simp add: eff(3))
      qed
    qed
    show "origins_ok hp' p"
      unfolding origins_ok_def
    proof (intro allI impI)
      fix a z j assume a: "p_lock p a = Some z" and j: "tag (lock_at hp' z) j \<noteq> None" "j < SEND_ORIGIN_BASE"
      then have "tag (lock_at hp z) j \<noteq> None" "(z, j) \<noteq> (x, i)" by (auto simp: tag' split: if_splits)
      with linkedD(7) [OF lk] a j(2) obtain u w where
        w: "p_slot p u = Some w" "edge_registered (hp_slots hp w) = Some (z, j)" unfolding origins_ok_def by blast
      with \<open>(z, j) \<noteq> (x, i)\<close> e have "w \<noteq> y" by auto
      with w show "\<exists>u w. p_slot p u = Some w \<and> edge_registered (hp_slots hp' w) = Some (z, j)"
        by (auto simp: eff(3))
    qed
    show "names_ok hp' (p\<lparr>p_origin := (p_origin p)(t := None)\<rparr>)"
      by (rule names_update [OF linkedD(8) [OF lk] inj(1) y eff(3)]) (simp add: unattached_edge_def)
  qed
qed

end
