(* ===== verification/Wiring_Plan.thy ===== *)
theory Wiring_Plan
  imports Live_Graph_Laws "HOL-Library.Multiset"
begin

text \<open>
  The plan a load builds (\<open>Wiring::build\<close>): every endpoint gets its structures, then every edge is attached in
  configuration order. The result is the wiring of the configuration's endpoints and links.
\<close>

section \<open>A plan under construction\<close>

definition wports :: "Wiring \<Rightarrow> ports" where
  "wports w =
     \<lparr>p_lock = hash_get (w_endpoint_locks w), p_tx = hash_get (w_host_targetward_tx w),
      p_fan = hash_get (w_host_fanout w), p_inbox = hash_get (w_target_inbox_tx w),
      p_counters = hash_get (w_target_counters w), p_slot = hash_get (w_target_edges w),
      p_origin = hash_get (w_origin_locks w)\<rparr>"

text \<open>Objects allocated before \<open>n\<close> are untouched.\<close>

definition untouched :: "handle \<Rightarrow> 're heap \<Rightarrow> 're heap \<Rightarrow> bool" where
  "untouched n hp hp' \<longleftrightarrow> n \<le> hp_next hp' \<and>
     (\<forall>x < n. hp_cells hp' x = hp_cells hp x \<and> hp_fanouts hp' x = hp_fanouts hp x \<and> hp_slots hp' x = hp_slots hp x \<and>
        hp_hubs hp' x = hp_hubs hp x)"

text \<open>Everything reached was allocated from \<open>n\<close> on.\<close>

definition above :: "handle \<Rightarrow> 're heap \<Rightarrow> ports \<Rightarrow> bool" where
  "above n hp p \<longleftrightarrow>
     (\<forall>x \<in> ran (p_lock p) \<union> ran (p_fan p) \<union> ran (p_inbox p) \<union> ran (p_counters p) \<union> ran (p_slot p) \<union> channels hp p. n \<le> x)"

lemma aboveI:
  assumes "\<And>a x. p_lock p a = Some x \<Longrightarrow> n \<le> x" "\<And>a x. p_tx p a = Some x \<Longrightarrow> n \<le> x" "\<And>a x. p_fan p a = Some x \<Longrightarrow> n \<le> x"
    "\<And>a x. p_inbox p a = Some x \<Longrightarrow> n \<le> x" "\<And>a x. p_counters p a = Some x \<Longrightarrow> n \<le> x" "\<And>a x. p_slot p a = Some x \<Longrightarrow> n \<le> x"
    "\<And>a f s. p_fan p a = Some f \<Longrightarrow> s \<in> set (hp_fanouts hp f) \<Longrightarrow> n \<le> sink_tx s"
  shows "above n hp p"
  using assms by (auto simp: above_def channels_def ran_def)

lemma aboveD:
  assumes "above n hp p"
  shows "p_lock p a = Some x \<Longrightarrow> n \<le> x" "p_tx p a = Some x \<Longrightarrow> n \<le> x" "p_fan p a = Some x \<Longrightarrow> n \<le> x"
    "p_inbox p a = Some x \<Longrightarrow> n \<le> x" "p_counters p a = Some x \<Longrightarrow> n \<le> x" "p_slot p a = Some x \<Longrightarrow> n \<le> x"
    "p_fan p a = Some f \<Longrightarrow> s \<in> set (hp_fanouts hp f) \<Longrightarrow> n \<le> sink_tx s"
  using assms unfolding above_def channels_def ran_def by blast+

lemma above_le: "above n hp p \<Longrightarrow> m \<le> n \<Longrightarrow> above m hp p"
  unfolding above_def by (meson order_trans)

lemma above_add:
  assumes "above n hp p" and "above n hp q"
  shows "above n hp (ports_add p q)"
  by (rule aboveI) (auto simp: ports_add_def map_add_Some_iff dest: aboveD [OF assms(1)] aboveD [OF assms(2)])

lemma above_origin [simp]: "above n hp (p\<lparr>p_origin := r\<rparr>) = above n hp p"
  by (simp add: above_def channels_def)

lemma apart_above:
  assumes sep: "separate n p" and sk: "\<And>a f s. p_fan p a = Some f \<Longrightarrow> s \<in> set (hp_fanouts hp f) \<Longrightarrow> sink_tx s < n"
    and ab: "above n hp q"
  shows "ports_apart hp p q"
proof -
  have low: "x \<in> ran (p_lock p) \<union> ran (p_fan p) \<union> ran (p_inbox p) \<union> ran (p_counters p) \<union> ran (p_slot p) \<union> channels hp p \<Longrightarrow> x < n" for x
    using separateD(4-9) [OF sep] sk by (auto simp: channels_def ran_def)
  have "A \<inter> B = {}" if "\<And>x. x \<in> A \<Longrightarrow> x < n" "\<And>x. x \<in> B \<Longrightarrow> n \<le> x" for A B
    using that by fastforce
  then show ?thesis unfolding ports_apart_def using low ab unfolding above_def by (intro conjI) blast+
qed

text \<open>A hub per host-facing endpoint, live.\<close>

definition hubs_ok :: "endpoint_table \<Rightarrow> 're heap \<Rightarrow> (EndpointAddr \<Rightarrow> handle option) \<Rightarrow> bool" where
  "hubs_ok F hp m \<longleftrightarrow>
     (\<forall>a. m a \<noteq> None \<longleftrightarrow> faces Host F a) \<and> inj_map m \<and>
     (\<forall>a x. m a = Some x \<longrightarrow> x < hp_next hp \<and> \<not> hub_orphaned (hp_hubs hp x) \<and>
        hub_endpoint (hp_hubs hp x) = EndpointAddr_display a)"

text \<open>The inboxes of the endpoints no edge reaches yet are open and empty.\<close>

definition inboxes_free :: "link list \<Rightarrow> 're heap \<Rightarrow> (EndpointAddr \<Rightarrow> handle option) \<Rightarrow> bool" where
  "inboxes_free ls hp m \<longleftrightarrow>
     inj_map m \<and>
     (\<forall>a x. m a = Some x \<longrightarrow> x < hp_next hp \<and> (a \<notin> fst ` set ls \<longrightarrow> inbox_queue (hp_inboxes hp x) = []))"

text \<open>Every origin on a reachable lock has an id below \<open>b\<close>.\<close>

definition ids_below :: "OriginId \<Rightarrow> 're heap \<Rightarrow> ports \<Rightarrow> bool" where
  "ids_below b hp p \<longleftrightarrow> (\<forall>a x i. p_lock p a = Some x \<longrightarrow> tag (lock_at hp x) i \<noteq> None \<longrightarrow> i < b)"

definition planned :: "'re heap \<Rightarrow> endpoint_table \<Rightarrow> link list \<Rightarrow> nat \<Rightarrow> Wiring \<times> 're heap \<Rightarrow> bool" where
  "planned hp0 F ls n st \<longleftrightarrow>
     (case st of (w, hp) \<Rightarrow>
        linked F ls n hp (wports w) \<and> untouched (hp_next hp0) hp0 hp \<and> above (hp_next hp0) hp (wports w) \<and>
        hubs_ok F hp (hash_get (w_tap_hub_setup w)) \<and>
        (\<forall>a x. hash_get (w_tap_hub_setup w) a = Some x \<longrightarrow> hp_next hp0 \<le> x) \<and>
        inboxes_free ls hp (hash_get (w_target_inbox_tx w)) \<and> ids_below SEND_ORIGIN_BASE hp (wports w))"

lemma planned_default: "planned hp (\<lambda>_. None) [] 0 (wiring_default, hp)"
  by (simp add: planned_def linked_defs wports_def wiring_default_def untouched_def above_def channels_def hubs_ok_def inboxes_free_def ids_below_def
      inj_map_def faces_def hash_get_def ran_def)

lemma faces_upd: "faces f (F(a \<mapsto> v)) b \<longleftrightarrow> (if b = a then f = fst v else faces f F b)"
  by (cases v) (auto simp: faces_def)

lemma inj_map_upd:
  assumes "inj_map m" and "\<And>b y. m b = Some y \<Longrightarrow> y < (x :: nat)"
  shows "inj_map (m(a \<mapsto> x))"
  using assms(1) assms(2) less_irrefl by (fastforce simp: inj_map_def split: if_splits)

section \<open>One endpoint\<close>

lemma linked_grow:
  assumes "linked F ls n hp p" and "untouched (hp_next hp) hp hp'" and "n \<le> unat SEND_ORIGIN_BASE"
  shows "linked F ls n hp' p"
proof (rule linked_same [OF assms(1) _ assms(3)])
  have "lock_inv (lock_at hp x)" if "p_lock p a = Some x" for a x
    using linkedD(4) [OF assms(1)] that by (simp add: cells_ok_def)
  then show "same_links p hp hp'"
    using assms(2) separateD(4,6,9) [OF linkedD(3) [OF assms(1)]] by (simp add: same_links_def untouched_def)
qed

lemma above_grow:
  assumes "above n hp p" and "linked F ls k hp p" and "untouched (hp_next hp) hp hp'"
  shows "above n hp' p"
proof (rule aboveI, goal_cases)
  case (7 a f s)
  then have "s \<in> set (hp_fanouts hp f)"
    using assms(3) separateD(6) [OF linkedD(3) [OF assms(2)]] by (simp add: untouched_def)
  with 7(1) show ?case by (rule aboveD(7) [OF assms(1)])
qed (use aboveD [OF assms(1)] in blast)+

text \<open>What is allocated from here on is apart from what is reached.\<close>

lemma grow_apart:
  assumes lk: "linked F ls k hp p" and old: "untouched (hp_next hp) hp hp'" and ab: "above (hp_next hp) hp' q"
  shows "ports_apart hp' p q"
proof (rule apart_above [OF linkedD(3) [OF lk] _ ab])
  fix a f s assume f: "p_fan p a = Some f" and s: "s \<in> set (hp_fanouts hp' f)"
  then have "s \<in> set (hp_fanouts hp f)" using old separateD(6) [OF linkedD(3) [OF lk]] by (simp add: untouched_def)
  then show "sink_tx s < hp_next hp" by (rule sinks_okD(2) [OF linkedD(9) [OF lk] f])
qed

lemma hubs_grow: "hubs_ok F hp m \<Longrightarrow> untouched (hp_next hp) hp hp' \<Longrightarrow> hubs_ok F hp' m"
  unfolding hubs_ok_def untouched_def by (metis order_less_le_trans)

lemma hubs_below: "hubs_ok F hp m \<Longrightarrow> m a = Some x \<Longrightarrow> x < hp_next hp"
  by (simp add: hubs_ok_def)

lemma inboxes_below: "inboxes_free ls hp m \<Longrightarrow> m a = Some x \<Longrightarrow> x < hp_next hp"
  by (simp add: inboxes_free_def)

lemma ids_grow:
  assumes "ids_below b hp p" and "untouched (hp_next hp) hp hp'" and "linked F ls n hp p"
  shows "ids_below b hp' p"
  using assms(1,2) separateD(4) [OF linkedD(3) [OF assms(3)]] by (simp add: ids_below_def untouched_def)

lemma untouched_trans: "untouched n a b \<Longrightarrow> n \<le> m \<Longrightarrow> untouched m b c \<Longrightarrow> untouched n a c"
  by (auto simp: untouched_def)

definition host_ports :: "EndpointAddr \<Rightarrow> handle \<Rightarrow> handle \<Rightarrow> handle \<Rightarrow> ports" where
  "host_ports a x tx f =
     \<lparr>p_lock = [a \<mapsto> x], p_tx = [a \<mapsto> tx], p_fan = [a \<mapsto> f], p_inbox = Map.empty, p_counters = Map.empty,
      p_slot = Map.empty, p_origin = Map.empty\<rparr>"

definition target_ports :: "EndpointAddr \<Rightarrow> handle \<Rightarrow> handle \<Rightarrow> handle \<Rightarrow> ports" where
  "target_ports a b k y =
     \<lparr>p_lock = Map.empty, p_tx = Map.empty, p_fan = Map.empty, p_inbox = [a \<mapsto> b], p_counters = [a \<mapsto> k],
      p_slot = [a \<mapsto> y], p_origin = Map.empty\<rparr>"

lemma linked_host1:
  assumes "hp_cells hp x = lock_cell_new (EndpointAddr_display a) (lock_new arb)" "hp_fanouts hp f = []"
    "x < hp_next hp" "tx < hp_next hp" "f < hp_next hp"
  shows "linked [a \<mapsto> (Host, arb)] [] 0 hp (host_ports a x tx f)"
  using assms lock_inv_new
  by (auto simp: linked_defs host_ports_def faces_def inj_map_def lock_cell_new_def tag_def lock_new_def split: if_splits)

lemma linked_target1:
  assumes "hp_slots hp y = unattached_edge" "b < hp_next hp" "k < hp_next hp" "y < hp_next hp"
  shows "linked [a \<mapsto> (Target, arb)] [] 0 hp (target_ports a b k y)"
  using assms
  by (auto simp: linked_defs target_ports_def faces_def inj_map_def slot_ok_def unattached_edge_def split: if_splits)

lemma inboxes_grow:
  assumes "inboxes_free ls hp m" "hp_next hp \<le> hp_next hp'" "\<And>x. x < hp_next hp \<Longrightarrow> hp_inboxes hp' x = hp_inboxes hp x"
  shows "inboxes_free ls hp' m"
  using assms unfolding inboxes_free_def by (metis order_less_le_trans)

lemma ports_add_host:
  "wports (w\<lparr>w_endpoint_locks := hash_insert a x (w_endpoint_locks w), w_host_targetward_tx := hash_insert a tx (w_host_targetward_tx w),
       w_host_fanout := hash_insert a f (w_host_fanout w), w_tap_hub_setup := h\<rparr>) = ports_add (wports w) (host_ports a x tx f)"
  by (simp add: wports_def ports_add_def host_ports_def hash_get_insert)

lemma ports_add_target:
  "wports (w\<lparr>w_target_inbox_tx := hash_insert a b (w_target_inbox_tx w), w_target_counters := hash_insert a k (w_target_counters w),
       w_target_edges := hash_insert a y (w_target_edges w)\<rparr>) = ports_add (wports w) (target_ports a b k y)"
  by (simp add: wports_def ports_add_def target_ports_def hash_get_insert)

lemma build_host:
  assumes pl: "planned hp0 F [] 0 (w, hp)" and new: "F a = None"
  shows "planned hp0 (F(a \<mapsto> (Host, arb))) [] 0 (build_endpoint caps (a, Host, arb) (w, hp))"
proof -
  let ?n = "hp_next hp"
  obtain w' hp' where run: "build_endpoint caps (a, Host, arb) (w, hp) = (w', hp')"
    by (cases "build_endpoint caps (a, Host, arb) (w, hp)")
  note eff = run [unfolded build_endpoint_def alloc_defs Let_def, simplified]
  have next': "hp_next hp' = ?n + 4" and old: "untouched ?n hp hp'"
    and fresh: "hp_cells hp' ?n = lock_cell_new (EndpointAddr_display a) (lock_new arb)" "hp_fanouts hp' (?n + 2) = []"
      "\<not> hub_orphaned (hp_hubs hp' (?n + 3))" "hub_endpoint (hp_hubs hp' (?n + 3)) = EndpointAddr_display a"
    and inb: "hp_inboxes hp' = hp_inboxes hp" "w_target_inbox_tx w' = w_target_inbox_tx w"
    and hubs: "hash_get (w_tap_hub_setup w') = (hash_get (w_tap_hub_setup w))(a \<mapsto> ?n + 3)"
    and ports: "wports w' = ports_add (wports w) (host_ports a ?n (?n + 1) (?n + 2))"
    using eff by (auto simp: untouched_def ports_add_host hash_get_insert hub_new_def)
  from pl have lk: "linked F [] 0 hp (wports w)" and un: "untouched (hp_next hp0) hp0 hp" and ab: "above (hp_next hp0) hp (wports w)"
    and hb: "hubs_ok F hp (hash_get (w_tap_hub_setup w))"
    and hab: "\<forall>a x. hash_get (w_tap_hub_setup w) a = Some x \<longrightarrow> hp_next hp0 \<le> x"
    and ib: "inboxes_free [] hp (hash_get (w_target_inbox_tx w))"
    and ids: "ids_below SEND_ORIGIN_BASE hp (wports w)"
    by (simp_all add: planned_def)
  have ids': "ids_below SEND_ORIGIN_BASE hp' (wports w)" using ids old lk by (rule ids_grow)
  have le: "hp_next hp0 \<le> ?n" using un by (simp add: untouched_def)
  have new_ab: "above ?n hp' (host_ports a ?n (?n + 1) (?n + 2))"
    by (rule aboveI) (use fresh(2) in \<open>auto simp: host_ports_def split: if_splits\<close>)
  have ab': "above (hp_next hp0) hp' (wports w')"
    unfolding ports using above_add [OF above_grow [OF ab lk old] above_le [OF new_ab le]] .
  have "linked (F ++ [a \<mapsto> (Host, arb)]) ([] @ []) (max 0 0) hp' (ports_add (wports w) (host_ports a ?n (?n + 1) (?n + 2)))"
  proof (rule linked_add)
    show "linked F [] 0 hp' (wports w)" using lk old by (rule linked_grow) simp
    show "linked [a \<mapsto> (Host, arb)] [] 0 hp' (host_ports a ?n (?n + 1) (?n + 2))"
      using fresh next' by (intro linked_host1) simp_all
    show "dom F \<inter> dom [a \<mapsto> (Host, arb)] = {}" using new by auto
    show "ports_apart hp' (wports w) (host_ports a ?n (?n + 1) (?n + 2))" by (rule grow_apart [OF lk old new_ab])
  qed
  then have "linked (F(a \<mapsto> (Host, arb))) [] 0 hp' (wports w')" by (simp add: ports)
  moreover have "hubs_ok (F(a \<mapsto> (Host, arb))) hp' (hash_get (w_tap_hub_setup w'))"
    using hubs_grow [OF hb old] hb fresh(3,4) next' unfolding hubs hubs_ok_def
    by (auto simp: faces_upd intro!: inj_map_upd dest!: hubs_below [OF hb])
  ultimately show ?thesis
    using untouched_trans [OF un le old] ab' le hab inboxes_grow [OF ib, of hp'] next' inb
    using ids' fresh(1)
    by (auto simp: run planned_def ports ports_add_def host_ports_def hubs ids_below_def lock_cell_new_def
        lock_new_def tag_def)
qed

lemma build_target:
  assumes pl: "planned hp0 F [] 0 (w, hp)" and new: "F a = None"
  shows "planned hp0 (F(a \<mapsto> (Target, arb))) [] 0 (build_endpoint caps (a, Target, arb) (w, hp))"
proof -
  let ?n = "hp_next hp"
  obtain w' hp' where run: "build_endpoint caps (a, Target, arb) (w, hp) = (w', hp')"
    by (cases "build_endpoint caps (a, Target, arb) (w, hp)")
  note eff = run [unfolded build_endpoint_def alloc_defs Let_def, simplified]
  have next': "hp_next hp' = ?n + 3" and old: "untouched ?n hp hp'" and slot: "hp_slots hp' (?n + 2) = unattached_edge"
    and inb: "hp_inboxes hp' = (hp_inboxes hp)(?n := \<lparr>inbox_queue = [], inbox_open = True\<rparr>)"
      "hash_get (w_target_inbox_tx w') = (hash_get (w_target_inbox_tx w))(a \<mapsto> ?n)"
    and hubs: "w_tap_hub_setup w' = w_tap_hub_setup w"
    and ports: "wports w' = ports_add (wports w) (target_ports a ?n (?n + 1) (?n + 2))"
    using eff by (auto simp: untouched_def ports_add_target hash_get_insert)
  from pl have lk: "linked F [] 0 hp (wports w)" and un: "untouched (hp_next hp0) hp0 hp" and ab: "above (hp_next hp0) hp (wports w)"
    and hb: "hubs_ok F hp (hash_get (w_tap_hub_setup w))"
    and hab: "\<forall>a x. hash_get (w_tap_hub_setup w) a = Some x \<longrightarrow> hp_next hp0 \<le> x"
    and ib: "inboxes_free [] hp (hash_get (w_target_inbox_tx w))"
    and ids: "ids_below SEND_ORIGIN_BASE hp (wports w)"
    by (simp_all add: planned_def)
  have ids': "ids_below SEND_ORIGIN_BASE hp' (wports w)" using ids old lk by (rule ids_grow)
  have le: "hp_next hp0 \<le> ?n" using un by (simp add: untouched_def)
  have new_ab: "above ?n hp' (target_ports a ?n (?n + 1) (?n + 2))"
    by (rule aboveI) (use slot in \<open>auto simp: target_ports_def split: if_splits\<close>)
  have ab': "above (hp_next hp0) hp' (wports w')"
    unfolding ports using above_add [OF above_grow [OF ab lk old] above_le [OF new_ab le]] .
  have "linked (F ++ [a \<mapsto> (Target, arb)]) ([] @ []) (max 0 0) hp' (ports_add (wports w) (target_ports a ?n (?n + 1) (?n + 2)))"
  proof (rule linked_add)
    show "linked F [] 0 hp' (wports w)" using lk old by (rule linked_grow) simp
    show "linked [a \<mapsto> (Target, arb)] [] 0 hp' (target_ports a ?n (?n + 1) (?n + 2))"
      using slot next' by (intro linked_target1) simp_all
    show "dom F \<inter> dom [a \<mapsto> (Target, arb)] = {}" using new by auto
    show "ports_apart hp' (wports w) (target_ports a ?n (?n + 1) (?n + 2))" by (rule grow_apart [OF lk old new_ab])
  qed
  then have "linked (F(a \<mapsto> (Target, arb))) [] 0 hp' (wports w')" by (simp add: ports)
  moreover have "hubs_ok (F(a \<mapsto> (Target, arb))) hp' (hash_get (w_tap_hub_setup w'))"
    using hubs_grow [OF hb old] new by (simp add: hubs hubs_ok_def faces_upd faces_def)
  moreover have "inboxes_free [] hp' (hash_get (w_target_inbox_tx w'))"
    using ib next' unfolding inboxes_free_def inb by (auto intro!: inj_map_upd dest!: inboxes_below [OF ib])
  ultimately show ?thesis
    using untouched_trans [OF un le old] ab' le hab
    using ids'
    by (auto simp: run planned_def ports ports_add_def target_ports_def hubs ids_below_def)
qed

lemma build_endpoints:
  assumes "planned hp0 F [] 0 st" and "distinct (map fst es)" and "dom F \<inter> fst ` set es = {}"
  shows "planned hp0 (F ++ map_of es) [] 0 (fold (build_endpoint caps) es st)"
  using assms
proof (induction es arbitrary: F st)
  case (Cons e es)
  obtain a f arb where e: "e = (a, f, arb)" by (cases e)
  obtain w hp where st: "st = (w, hp)" by (cases st)
  have new: "F a = None" using Cons.prems(3) e by auto
  have step: "planned hp0 (F(a \<mapsto> (f, arb))) [] 0 (build_endpoint caps e st)"
    using build_host [OF Cons.prems(1) [unfolded st] new] build_target [OF Cons.prems(1) [unfolded st] new]
    by (cases f) (simp_all add: e st)
  have "distinct (map fst es)" "dom (F(a \<mapsto> (f, arb))) \<inter> fst ` set es = {}" using Cons.prems(2,3) e by auto
  from Cons.IH [OF step this]
  have "planned hp0 (F(a \<mapsto> (f, arb)) ++ map_of es) [] 0 (fold (build_endpoint caps) (e # es) st)"
    unfolding fold_simps .
  moreover have "F(a \<mapsto> (f, arb)) ++ map_of es = F ++ map_of (e # es)"
    using Cons.prems(2) e map_add_upd_left [of a "map_of es" F] by (simp add: dom_map_of_conv_image_fst)
  ultimately show ?case by metis
qed simp

section \<open>One edge\<close>

lemma attach_edge_inboxes:
  assumes "attach_edge q m depth hp = (out, hp')"
  shows "b \<noteq> parts_inbox q \<Longrightarrow> hp_inboxes hp' b = hp_inboxes hp b"
    "inbox_queue (hp_inboxes hp (parts_inbox q)) = [] \<Longrightarrow> \<not> out_inbox_full out"
  using assms
  by (auto simp: attach_edge_def attach_rest_def inbox_try_send_def new_channel_def with_lock_def with_slot_def
      fanout_attach_def EDGE_INBOX_CAP_def Let_def split: if_splits option.splits)

lemma attach_edge_untouched:
  assumes "attach_edge q m depth hp = (out, hp')" "\<not> out_inbox_full out" "parts_lock q = Some x"
    and "n \<le> x" "n \<le> parts_slot q" "n \<le> parts_fanout q" "n \<le> hp_next hp"
  shows "untouched n hp hp'"
proof -
  note eff = attach_edge_effect [OF assms(1-3)]
  have "hp_fanouts hp' f = hp_fanouts hp f" if "f \<noteq> parts_fanout q" for f
    using assms(1-3) that
    by (auto simp: attach_edge_def attach_rest_def inbox_try_send_def new_channel_def with_lock_def with_slot_def
      fanout_attach_def Let_def split: if_splits)
  with eff assms(4-) show ?thesis by (auto simp: untouched_def)
qed

lemma attach_edge_above:
  assumes "attach_edge q m depth hp = (out, hp')" "\<not> out_inbox_full out" "parts_lock q = Some x"
    and ab: "above n hp p" and n: "n \<le> hp_next hp"
  shows "above n hp' p"
proof (rule aboveI, goal_cases)
  case (7 a f s)
  then have "s \<in> set (hp_fanouts hp f) \<or> sink_tx s = hp_next hp"
    using attach_edge_effect(4) [OF assms(1-3)] by (auto split: if_splits)
  with 7(1) n show ?case using aboveD(7) [OF ab] by auto
qed (use aboveD [OF ab] in blast)+

lemma attach_inboxes_free:
  assumes at: "attach_edge q m depth hp = (out, hp')" and nf: "\<not> out_inbox_full out" and ib: "inboxes_free ls hp b"
    and q: "parts_lock q = Some x" "b (parts_target q) = Some (parts_inbox q)"
  shows "inboxes_free (ls @ [(parts_target q, h, m')]) hp' b"
  unfolding inboxes_free_def
proof (intro conjI allI impI)
  show inj: "inj_map b" using ib by (simp add: inboxes_free_def)
  fix a z assume z: "b a = Some z"
  then show "z < hp_next hp'"
    using inboxes_below [OF ib] attach_edge_effect(1) [OF at nf q(1)] by fastforce
  assume a: "a \<notin> fst ` set (ls @ [(parts_target q, h, m')])"
  then have "z \<noteq> parts_inbox q" using inj_mapD [OF inj z] q(2) by auto
  then show "inbox_queue (hp_inboxes hp' z) = []"
    using attach_edge_inboxes(1) [OF at, of z] ib z a by (simp add: inboxes_free_def)
qed

lemma attach_ids:
  assumes "attach_edge q m depth hp = (out, hp')" "\<not> out_inbox_full out" "parts_lock q = Some x"
    and "ids_below b hp p" "p_lock p h = Some x" "lock_inv (lock_at hp x)" "parts_origin q < b"
  shows "ids_below b hp' p"
  unfolding ids_below_def
proof (intro allI impI)
  fix a y i assume "p_lock p a = Some y" "tag (lock_at hp' y) i \<noteq> None"
  then show "i < b"
    using attach_edge_effect(2) [OF assms(1-3)] assms(4,6,7) by (auto simp: ids_below_def tag_register split: if_splits)
qed

text \<open>The ends of an edge, as the plan orients it.\<close>

definition plan_ends :: "endpoint_table \<Rightarrow> EdgeConfig \<Rightarrow> (EndpointAddr \<times> EndpointAddr) option" where
  "plan_ends F e =
     (case (map_option fst (F (cfg_a e)), map_option fst (F (cfg_b e))) of
        (Some Host, Some Target) \<Rightarrow> Some (cfg_a e, cfg_b e)
      | (Some Target, Some Host) \<Rightarrow> Some (cfg_b e, cfg_a e)
      | _ \<Rightarrow> None)"

lemma plan_ends_faces: "plan_ends F e = Some (h, t) \<Longrightarrow> faces Host F h \<and> faces Target F t"
  by (auto simp: plan_ends_def faces_def split: option.splits Facing.splits)

lemma wire_one:
  assumes pl: "planned hp0 F ls n (w, hp)" and i: "unat (w_next_origin w) = n" and lim: "n < unat SEND_ORIGIN_BASE"
    and F: "hash_get tbl = F" and e: "plan_ends F e = Some (h, t)" and t: "t \<notin> fst ` set ls"
    and run: "wire_edge c tbl e (w, hp) = (w', hp')"
  shows "planned hp0 F (ls @ [(t, h, effective_write_mode c e)]) (Suc n) (w', hp') \<and> w_next_origin w' = w_next_origin w + 1"
proof -
  let ?m = "effective_write_mode c e" and ?p = "wports w"
  from pl have lk: "linked F ls n hp ?p" and un: "untouched (hp_next hp0) hp0 hp" and ab: "above (hp_next hp0) hp ?p"
    and hb: "hubs_ok F hp (hash_get (w_tap_hub_setup w))"
    and hab: "\<forall>a x. hash_get (w_tap_hub_setup w) a = Some x \<longrightarrow> hp_next hp0 \<le> x"
    and ib: "inboxes_free ls hp (hash_get (w_target_inbox_tx w))"
    and ids: "ids_below SEND_ORIGIN_BASE hp ?p"
    by (simp_all add: planned_def)
  have hf: "faces Host F h" and tf: "faces Target F t" using plan_ends_faces [OF e] by auto
  note c = completeD [OF linkedD(2) [OF lk]]
  obtain x f b k y where ports: "p_lock ?p h = Some x" "p_fan ?p h = Some f" "p_inbox ?p t = Some b"
    "p_counters ?p t = Some k" "p_slot ?p t = Some y"
    using c(1,3) [OF hf] c(4,5,6) [OF tf] by blast
  define q where "q = \<lparr>parts_target = t, parts_origin = w_next_origin w, parts_lock = p_lock ?p h,
    parts_host_targetward = p_tx ?p h, parts_fanout = f, parts_inbox = b, parts_slot = y, parts_counters = k\<rparr>"
  obtain out hp2 where at: "attach_edge q ?m (hostward_depth c (addr_node h)) hp = (out, hp2)"
    by (cases "attach_edge q ?m (hostward_depth c (addr_node h)) hp")
  have "inbox_queue (hp_inboxes hp b) = []" using ib ports(3) t by (simp add: inboxes_free_def wports_def)
  then have nf: "\<not> out_inbox_full out" using attach_edge_inboxes(2) [OF at] by (simp add: q_def)
  obtain x' where x': "p_lock ?p h = Some x'" and reg: "out_registered out = Some (x', w_next_origin w)"
    and addr: "out_addressable out \<longleftrightarrow> ?m \<noteq> Never"
    and lk': "linked F (ls @ [(t, h, ?m)]) (Suc n) hp2
      (?p\<lparr>p_origin := (p_origin ?p)(t := if ?m = Never then None else Some (x', w_next_origin w))\<rparr>)"
    using attach_linked [OF lk lim hf tf t _ _ _ _ _ _ _ at nf] i ports by (auto simp: q_def)
  have xx: "x' = x" using x' ports(1) by simp
  have "p_origin ?p t = None"
    using linkedD(8) [OF lk] linked_slot [OF lk ports(5)] t ports(5)
    by (simp add: names_ok_def slot_ok_def unattached_edge_def map_of_eq_None_iff [symmetric])
  then have res: "hp' = hp2" "wports w' = ?p\<lparr>p_origin := (p_origin ?p)(t := if ?m = Never then None else Some (x, w_next_origin w))\<rparr>"
    "w_tap_hub_setup w' = w_tap_hub_setup w" "w_target_inbox_tx w' = w_target_inbox_tx w" "w_next_origin w' = w_next_origin w + 1"
    using run at reg addr ports xx e F
    by (auto simp: wire_edge_def Let_def wports_def q_def plan_ends_def hash_get_insert fun_eq_iff split: if_splits)
  have le: "hp_next hp0 \<le> hp_next hp" using un by (simp add: untouched_def)
  have un': "untouched (hp_next hp0) hp hp2"
    using attach_edge_untouched [OF at nf, of x "hp_next hp0"] aboveD(1,3,6) [OF ab] ports le by (simp add: q_def)
  have ab': "above (hp_next hp0) hp2 ?p" using attach_edge_above [OF at nf _ ab le, of x] ports by (simp add: q_def)
  have "hubs_ok F hp2 (hash_get (w_tap_hub_setup w))"
    using hb attach_edge_effect(1,5) [OF at nf, of x] ports(1) by (auto simp: q_def hubs_ok_def less_SucI)
  moreover have "linked F (ls @ [(t, h, ?m)]) (Suc n) hp' (wports w')" using lk' unfolding res xx .
  moreover have "ids_below SEND_ORIGIN_BASE hp2 ?p"
    using attach_ids [OF at nf _ ids, of x h] linkedD(4) [OF lk] ports(1) i lim
    by (simp add: q_def cells_ok_def word_less_nat_alt)
  ultimately show ?thesis
    using attach_inboxes_free [OF at nf ib, of x] ports untouched_trans [OF un order_refl un'] ab' hab res
    by (simp add: planned_def q_def ids_below_def) (simp add: wports_def)
qed

lemma wire_edges:
  assumes "planned hp0 F ls (unat (w_next_origin (fst st))) st" and "unat (w_next_origin (fst st)) + length es < unat SEND_ORIGIN_BASE"
    and F: "hash_get tbl = F" and ends: "\<forall>e \<in> set es. plan_ends F e \<noteq> None"
    and "distinct (map fst ls @ map (\<lambda>e. snd (the (plan_ends F e))) es)"
  shows "planned hp0 F (ls @ map (\<lambda>e. (snd (the (plan_ends F e)), fst (the (plan_ends F e)), effective_write_mode c e)) es)
     (unat (w_next_origin (fst st)) + length es) (fold (wire_edge c tbl) es st) \<and>
    unat (w_next_origin (fst (fold (wire_edge c tbl) es st))) = unat (w_next_origin (fst st)) + length es"
  using assms(1,2,4,5)
proof (induction es arbitrary: ls st)
  case (Cons e es)
  obtain w hp where st: "st = (w, hp)" by (cases st)
  obtain w' hp' where run: "wire_edge c tbl e (w, hp) = (w', hp')" by (cases "wire_edge c tbl e (w, hp)")
  obtain h t where e: "plan_ends F e = Some (h, t)" using Cons.prems(3) by auto
  have t: "t \<notin> fst ` set ls" using Cons.prems(4) e by auto
  have step: "planned hp0 F (ls @ [(t, h, effective_write_mode c e)]) (Suc (unat (w_next_origin w))) (w', hp')"
    "w_next_origin w' = w_next_origin w + 1"
    using wire_one [OF Cons.prems(1) [unfolded st] _ _ F e t run] Cons.prems(2) st by simp_all
  have n: "unat (w_next_origin w') = Suc (unat (w_next_origin w))"
    using Cons.prems(2) by (simp add: step(2) st SEND_ORIGIN_BASE_def unat_word_ariths)
  show ?case
    using Cons.IH [of "ls @ [(t, h, effective_write_mode c e)]" "(w', hp')"] step(1) n Cons.prems e st run by simp
qed simp

section \<open>The table of endpoints\<close>

definition spec_at :: "'attr GraphConfig \<Rightarrow> endpoint_table" where
  "spec_at c a =
     Option.bind (node_named c (addr_node a)) (\<lambda>n.
       map_option (\<lambda>ep. (ep_facing ep, ep_arbitration ep)) (shape_endpoint (shape n) (addr_endpoint a)))"

lemma spec_at_facing: "map_option fst (spec_at c a) = endpoint_facing c a"
  by (auto simp: spec_at_def endpoint_facing_def shape_endpoint_def option.map_comp comp_def split: option.split Option.bind_split)

lemma plan_ends_config: "plan_ends (spec_at c) e = edge_ends c e"
  by (simp add: plan_ends_def edge_ends_def spec_at_facing)

definition node_entries :: "'attr NodeConfig \<Rightarrow> facing_table" where
  "node_entries n = map (\<lambda>(a, ep). (a, ep_facing ep, ep_arbitration ep)) (node_endpoints n)"

lemma map_of_rev: "distinct (map fst xs) \<Longrightarrow> map_of (rev xs) = map_of xs"
  by (simp add: map_of_inject_set rev_map [symmetric])

lemma hash_insert_fold:
  "hash_get (fold (\<lambda>(k, v). hash_insert k v) xs m) = hash_get m ++ map_of (rev xs)"
  by (induction xs arbitrary: m) (auto simp: hash_get_insert)

lemma hash_fold_ok: "hash_ok m \<Longrightarrow> hash_ok (fold (\<lambda>(k, v). hash_insert k v) xs m)"
  by (induction xs arbitrary: m) (auto simp: hash_insert_ok)

lemma facing_of_fold: "facing_of c = fold (\<lambda>(k, v). hash_insert k v) (concat (map node_entries (nodes c))) []"
proof -
  have inner: "fold (\<lambda>(addr, ep). hash_insert addr (ep_facing ep, ep_arbitration ep)) (node_endpoints n) tbl =
      fold (\<lambda>(k, v). hash_insert k v) (node_entries n) tbl" for n :: "'a NodeConfig" and tbl
    by (simp add: node_entries_def fold_map comp_def case_prod_beta')
  have "fold (\<lambda>n. fold (\<lambda>(addr, ep). hash_insert addr (ep_facing ep, ep_arbitration ep)) (node_endpoints n)) ns tbl =
      fold (\<lambda>(k, v). hash_insert k v) (concat (map node_entries ns)) tbl" for ns :: "'a NodeConfig list" and tbl
    by (induction ns arbitrary: tbl) (simp_all add: inner)
  then show ?thesis by (simp add: facing_of_def)
qed

lemma node_entries_keys: "map fst (node_entries n) = map (\<lambda>ep. EndpointAddr_new (node_name n) (ep_name ep)) (endpoints (shape n))"
  by (simp add: node_entries_def node_endpoints_def comp_def)

lemma node_entries_node: "a \<in> set (map fst (node_entries n)) \<Longrightarrow> addr_node a = node_name n"
  by (auto simp only: node_entries_keys EndpointAddr_new_def set_map EndpointAddr.simps)

definition shapes_ok :: "'attr GraphConfig \<Rightarrow> bool" where
  "shapes_ok c \<longleftrightarrow> distinct (node_names c) \<and> (\<forall>n \<in> set (nodes c). distinct (map ep_name (endpoints (shape n))))"

lemma entries_distinct:
  assumes "shapes_ok c"
  shows "distinct (map fst (concat (map node_entries (nodes c))))"
proof -
  have "distinct (map fst (concat (map node_entries ns)))"
    if "distinct (map node_name ns)" "\<forall>n \<in> set ns. distinct (map ep_name (endpoints (shape n)))" for ns :: "'a NodeConfig list"
    using that
  proof (induction ns)
    case (Cons n ns)
    have "distinct (map fst (node_entries n))"
      using Cons.prems by (auto simp: node_entries_keys distinct_map inj_on_def EndpointAddr_new_def)
    moreover have "a \<notin> set (map fst (concat (map node_entries ns)))" if "a \<in> set (map fst (node_entries n))" for a
    proof
      assume "a \<in> set (map fst (concat (map node_entries ns)))"
      then obtain n' where "n' \<in> set ns" "a \<in> set (map fst (node_entries n'))" by auto
      then have "node_name n \<in> node_name ` set ns" using node_entries_node that by (metis image_eqI)
      with Cons.prems(1) show False by simp
    qed
    ultimately show ?case using Cons by (simp add: disjoint_iff)
  qed simp
  then show ?thesis using assms by (simp add: shapes_ok_def node_names_def)
qed

lemma node_entries_map_of:
  "map_of (node_entries n) a =
     (if addr_node a = node_name n
      then map_option (\<lambda>ep. (ep_facing ep, ep_arbitration ep)) (shape_endpoint (shape n) (addr_endpoint a)) else None)"
proof -
  have "map_of (map (\<lambda>ep. (EndpointAddr_new k (ep_name ep), ep_facing ep, ep_arbitration ep)) eps) a =
     (if addr_node a = k then map_option (\<lambda>ep. (ep_facing ep, ep_arbitration ep)) (find (\<lambda>e. ep_name e = addr_endpoint a) eps) else None)" for k and eps :: "EndpointSpec list"
    by (induction eps) (auto simp: EndpointAddr_new_def)
  then show ?thesis by (simp add: node_entries_def node_endpoints_def shape_endpoint_def comp_def)
qed

lemma facing_of_spec:
  assumes "shapes_ok c"
  shows "hash_get (facing_of c) = spec_at c"
proof -
  have "map_of (concat (map node_entries ns)) a =
      Option.bind (find (\<lambda>n. node_name n = addr_node a) ns) (\<lambda>n. map_option (\<lambda>ep. (ep_facing ep, ep_arbitration ep)) (shape_endpoint (shape n) (addr_endpoint a)))"
    if "distinct (map node_name ns)" for ns :: "'a NodeConfig list" and a
    using that
  proof (induction ns)
    case (Cons n ns)
    then have "addr_node a = node_name n \<Longrightarrow> find (\<lambda>n. node_name n = addr_node a) ns = None"
      by (auto simp: find_None_iff image_iff)
    with Cons show ?case by (auto simp: map_add_def node_entries_map_of split: option.split)
  qed simp
  then have "map_of (concat (map node_entries (nodes c))) = spec_at c"
    using assms by (simp add: shapes_ok_def node_names_def spec_at_def node_named_def fun_eq_iff)
  then show ?thesis
    using entries_distinct [OF assms]
    by (simp add: facing_of_fold hash_insert_fold map_of_rev) (simp add: hash_get_fun)
qed

section \<open>The plan of a valid configuration\<close>

lemma find_by_name: "distinct (map f xs) \<Longrightarrow> x \<in> set xs \<Longrightarrow> find (\<lambda>y. f y = f x) xs = Some x"
  by (induction xs) auto

lemma valid_node:
  assumes "config_valid c" "n \<in> set (nodes c)"
  shows "legal_node (node_name n, shape n)"
proof -
  have names: "distinct (node_names c)" and graph: "graph_valid (to_model c)" using assms(1) by (simp_all add: config_valid_def)
  have "node_named c (node_name n) = Some n"
    using assms(2) names by (simp add: node_named_def node_names_def find_by_name)
  then have "hash_get (shapes (to_model c)) (node_name n) = Some (shape n)" by (simp add: to_model_shapes [OF names])
  then have "(node_name n, shape n) \<in> set (shapes (to_model c))" by (simp add: hash_get_def map_of_SomeD)
  then show ?thesis using graph by (simp add: graph_valid_def)
qed

lemma valid_shapes: "config_valid c \<Longrightarrow> shapes_ok c"
  using valid_node [of c] by (auto simp: shapes_ok_def config_valid_def legal_node_def)

lemma spec_at_node: "spec_at c a \<noteq> None \<Longrightarrow> \<exists>n \<in> set (nodes c). node_name n = addr_node a"
  by (cases "node_named c (addr_node a)") (auto simp: spec_at_def node_named_def find_Some_iff)

lemma valid_plain:
  assumes "config_valid c"
  shows "plain (spec_at c)"
  unfolding plain_def
proof (intro allI impI)
  fix a assume "spec_at c a \<noteq> None"
  then obtain n where "n \<in> set (nodes c)" "node_name n = addr_node a" using spec_at_node by blast
  then show "CHR ''/'' \<notin> set (addr_node a)" using valid_node [OF assms, of n] by (simp add: legal_node_def legal_name_def)
qed

lemma valid_ends:
  assumes "config_valid c"
  shows "\<forall>e \<in> set (cfg_edges c). edge_ends c e \<noteq> None" "distinct (map (\<lambda>e. snd (the (edge_ends c e))) (cfg_edges c))"
proof -
  have names: "distinct (node_names c)" and graph: "graph_valid (to_model c)" using assms by (simp_all add: config_valid_def)
  show all: "\<forall>e \<in> set (cfg_edges c). edge_ends c e \<noteq> None"
    using graph by (simp add: graph_valid_def to_model_edges edge_ends_oriented [OF names])
  have "map snd (oriented_edges (to_model c)) = map (\<lambda>e. snd (the (edge_ends c e))) (cfg_edges c)"
    using all edge_ends_oriented [OF names]
    by (auto simp: oriented_edges_def to_model_edges map_filter_def comp_def filter_map filter_id_conv)
  then show "distinct (map (\<lambda>e. snd (the (edge_ends c e))) (cfg_edges c))"
    using graph by (simp add: graph_valid_def)
qed

definition link_of :: "'attr GraphConfig \<Rightarrow> EdgeConfig \<Rightarrow> link" where
  "link_of c e = (snd (the (edge_ends c e)), fst (the (edge_ends c e)), effective_write_mode c e)"

definition links :: "'attr GraphConfig \<Rightarrow> link list" where
  "links c = map (link_of c) (cfg_edges c)"

definition perm_order :: "('a list \<Rightarrow> 'a list) \<Rightarrow> bool" where
  "perm_order f \<longleftrightarrow> (\<forall>xs. mset (f xs) = mset xs)"

lemma build_next_origin: "w_next_origin (fst (fold (build_endpoint caps) es s)) = w_next_origin (fst s)"
  by (induction es arbitrary: s) (auto simp: build_endpoint_def Let_def split: prod.splits)

lemma wiring_planned:
  assumes valid: "config_valid c" and order: "perm_order order" and lim: "length (cfg_edges c) < unat SEND_ORIGIN_BASE"
  shows "planned hp (spec_at c) (links c) (length (cfg_edges c)) (wiring_build order c hp) \<and>
    unat (w_next_origin (fst (wiring_build order c hp))) = length (cfg_edges c)"
proof -
  let ?tbl = "facing_of c"
  have ok: "hash_ok ?tbl" unfolding facing_of_fold by (rule hash_fold_ok) (simp add: hash_ok_def)
  have m: "mset (order ?tbl) = mset ?tbl" using order by (simp add: perm_order_def)
  then have d: "distinct (map fst (order ?tbl))"
    using ok by (metis hash_ok_def mset_eq_imp_distinct_iff mset_map)
  moreover have "set (order ?tbl) = set ?tbl" using m by (rule mset_eq_setD)
  ultimately have same: "map_of (order ?tbl) = hash_get ?tbl"
    using ok by (simp add: hash_get_fun hash_ok_def map_of_inject_set)
  have spec: "hash_get ?tbl = spec_at c" by (rule facing_of_spec [OF valid_shapes [OF valid]])
  define st where "st = fold (build_endpoint (host_ring_cap c)) (order ?tbl) (wiring_default, hp)"
  have built: "planned hp (spec_at c) [] 0 st"
    using build_endpoints [OF planned_default d, of hp] same spec by (simp add: st_def)
  have zero: "w_next_origin (fst st) = 0" by (simp add: st_def build_next_origin wiring_default_def)
  show ?thesis
    using wire_edges [of hp "spec_at c" "[]" st "cfg_edges c" ?tbl c] built zero lim spec valid_ends [OF valid]
    by (simp add: plan_ends_config wiring_build_def st_def [symmetric] links_def link_of_def [abs_def])
qed

end
