(* ===== verification/Graph_State.thy ===== *)
theory Graph_State
  imports Wiring_Plan
begin

text \<open>
  The daemon's maps as a wiring: the maps are keyed by display string, and what they say of an endpoint address
  is what they hold under its display. \<open>wired\<close> is the invariant of the live graph: the shared objects the maps
  reach are the wiring of the configuration, no more and no less.
\<close>

section \<open>Maps keyed by display string\<close>

definition named :: "(string \<times> 'v) list \<Rightarrow> EndpointAddr \<Rightarrow> 'v option" where
  "named m a = (if CHR ''/'' \<in> set (addr_node a) then None else hash_get m (EndpointAddr_display a))"

definition keys_ok :: "(string \<times> 'v) list \<Rightarrow> bool" where
  "keys_ok m \<longleftrightarrow> hash_ok m \<and> (\<forall>k v. hash_get m k = Some v \<longrightarrow> EndpointAddr_display (EndpointAddr_from_str k) = k)"

lemma display_inj:
  assumes "CHR ''/'' \<notin> set (addr_node a)" "CHR ''/'' \<notin> set (addr_node b)"
  shows "EndpointAddr_display a = EndpointAddr_display b \<longleftrightarrow> a = b"
  using endpoint_addr_round_trip [OF assms(1)] endpoint_addr_round_trip [OF assms(2)] by metis

lemma named_Nil [simp]: "named [] = Map.empty"
  by (simp add: named_def hash_get_def fun_eq_iff)

lemma named_insert:
  "CHR ''/'' \<notin> set (addr_node a) \<Longrightarrow> named (hash_insert (EndpointAddr_display a) v m) = (named m)(a \<mapsto> v)"
  by (auto simp: named_def hash_get_insert fun_eq_iff display_inj)

lemma named_remove:
  "CHR ''/'' \<notin> set (addr_node a) \<Longrightarrow> named (hash_remove (EndpointAddr_display a) m) = (named m)(a := None)"
  by (auto simp: named_def hash_get_remove fun_eq_iff display_inj)

lemma keys_ok_Nil [simp]: "keys_ok []"
  by (simp add: keys_ok_def hash_get_def hash_ok_def)

lemma keys_ok_insert:
  "keys_ok m \<Longrightarrow> CHR ''/'' \<notin> set (addr_node a) \<Longrightarrow> keys_ok (hash_insert (EndpointAddr_display a) v m)"
  by (auto simp: keys_ok_def hash_get_insert hash_insert_ok endpoint_addr_round_trip split: if_splits)

lemma keys_ok_remove: "keys_ok m \<Longrightarrow> keys_ok (hash_remove k m)"
  by (auto simp: keys_ok_def hash_get_remove hash_remove_ok split: if_splits)

lemma from_str_plain: "CHR ''/'' \<notin> set (addr_node (EndpointAddr_from_str k))"
  by (auto simp: EndpointAddr_from_str_def EndpointAddr_new_def EndpointAddr_node_def split_once_None_iff
      split: option.splits dest: split_once_Some)

text \<open>A key of such a map is the display of an address, and the map's answer there is the address's.\<close>

lemma keys_ok_get: "keys_ok m \<Longrightarrow> hash_get m k = Some v \<Longrightarrow> named m (EndpointAddr_from_str k) = Some v"
  using from_str_plain [of k] by (auto simp: keys_ok_def named_def)

lemma absorb_named:
  assumes "\<forall>(a, v) \<in> set from. CHR ''/'' \<notin> set (addr_node a)"
  shows "named (absorb from into) = named into ++ map_of (rev from)" "keys_ok into \<Longrightarrow> keys_ok (absorb from into)"
  using assms unfolding absorb_def
  by (induction "from" arbitrary: into) (auto simp: named_insert keys_ok_insert)

definition sports :: "('attr, 're) GraphState \<Rightarrow> ports" where
  "sports s =
     \<lparr>p_lock = named (gs_endpoint_locks s), p_tx = named (gs_endpoint_targetward s), p_fan = named (gs_host_fanout s),
      p_inbox = named (gs_target_inbox s), p_counters = named (gs_target_counters s), p_slot = named (gs_target_edges s),
      p_origin = named (gs_origin_locks s)\<rparr>"

definition state_keys_ok :: "('attr, 're) GraphState \<Rightarrow> bool" where
  "state_keys_ok s \<longleftrightarrow>
     keys_ok (gs_endpoint_locks s) \<and> keys_ok (gs_endpoint_targetward s) \<and> keys_ok (gs_host_fanout s) \<and>
     keys_ok (gs_target_inbox s) \<and> keys_ok (gs_target_counters s) \<and> keys_ok (gs_target_edges s) \<and>
     keys_ok (gs_origin_locks s) \<and> keys_ok (gs_tap_hubs s)"

section \<open>Absorbing a plan\<close>

definition wiring_maps_ok :: "Wiring \<Rightarrow> bool" where
  "wiring_maps_ok w \<longleftrightarrow>
     hash_ok (w_endpoint_locks w) \<and> hash_ok (w_host_fanout w) \<and> hash_ok (w_host_targetward_tx w) \<and>
     hash_ok (w_target_inbox_tx w) \<and> hash_ok (w_target_counters w) \<and> hash_ok (w_target_edges w) \<and>
     hash_ok (w_origin_locks w) \<and> hash_ok (w_tap_hub_setup w)"

lemma build_maps_ok: "wiring_maps_ok (fst st) \<Longrightarrow> wiring_maps_ok (fst (build_endpoint caps e st))"
  by (cases st) (auto simp: build_endpoint_def Let_def wiring_maps_ok_def hash_insert_ok split: prod.splits)

lemma wire_maps_ok:
  assumes "wiring_maps_ok (fst st)"
  shows "wiring_maps_ok (fst (wire_edge c tbl e st))"
proof -
  obtain w hp where st: "st = (w, hp)" by (cases st)
  note def = wire_edge_def [of c tbl e "(w, hp)", folded plan_ends_def [of "hash_get tbl" e], unfolded Let_def prod.case]
  show ?thesis
  proof (cases "plan_ends (hash_get tbl) e")
    case None
    with assms st def show ?thesis by simp
  next
    case (Some ht)
    obtain h t where ht: "ht = (h, t)" by (cases ht)
    show ?thesis
    proof (cases "hash_get (w_host_fanout w) h = None \<or> hash_get (w_target_inbox_tx w) t = None \<or> hash_get (w_target_edges w) t = None")
      case True
      with Some ht assms st def show ?thesis by (auto split: option.split)
    next
      case False
      then obtain f b y where "hash_get (w_host_fanout w) h = Some f" "hash_get (w_target_inbox_tx w) t = Some b"
        "hash_get (w_target_edges w) t = Some y" by auto
      with Some ht assms st show ?thesis
        unfolding st def by (auto simp: wiring_maps_ok_def hash_insert_ok split: prod.split option.split)
    qed
  qed
qed

lemma fold_keeps: "P s \<Longrightarrow> (\<And>x s. P s \<Longrightarrow> P (f x s)) \<Longrightarrow> P (fold f xs s)"
  by (induction xs arbitrary: s) auto

lemma wiring_build_maps_ok: "wiring_maps_ok (fst (wiring_build order c hp))"
  unfolding wiring_build_def
  by (intro fold_keeps [where P = "\<lambda>st. wiring_maps_ok (fst st)"] wire_maps_ok build_maps_ok)
    (simp add: wiring_maps_ok_def wiring_default_def hash_ok_def)

lemma absorb_hash:
  assumes "hash_ok from" "dom (hash_get from) \<subseteq> dom G" "plain G"
  shows "named (absorb from into) = named into ++ hash_get from" "keys_ok into \<Longrightarrow> keys_ok (absorb from into)"
proof -
  have "\<forall>(a, v) \<in> set from. CHR ''/'' \<notin> set (addr_node a)"
  proof clarify
    fix a v assume "(a, v) \<in> set from" and slash: "CHR ''/'' \<in> set (addr_node a)"
    then have "a \<in> dom G" using assms(1,2) by (auto simp: hash.entries_get)
    then show False using assms(3) slash by (auto simp: plain_def)
  qed
  note absorbed = absorb_named [OF this, of into]
  then show "named (absorb from into) = named into ++ hash_get from" "keys_ok into \<Longrightarrow> keys_ok (absorb from into)"
    using assms(1) by (simp_all add: hash_get_fun hash_ok_def map_of_rev)
qed

lemma absorb_sports:
  assumes "wiring_maps_ok w" "linked G ks k hp (wports w)" "plain G"
  shows "sports (absorb_wiring w s) = ports_add (sports s) (wports w)"
  using assms(1) linked_dom [OF assms(2)]
  by (simp add: sports_def absorb_wiring_def ports_add_def wiring_maps_ok_def wports_def absorb_hash(1) [OF _ _ assms(3)])

lemma absorb_keys:
  assumes "wiring_maps_ok w" "linked G ks k hp (wports w)" "plain G" "hubs_ok G hp (hash_get (w_tap_hub_setup w))" "state_keys_ok s"
  shows "state_keys_ok (spawn_tap_hubs w (absorb_wiring w s))"
proof -
  have "dom (hash_get (w_tap_hub_setup w)) \<subseteq> dom G" using assms(4) by (auto simp: hubs_ok_def faces_def)
  then show ?thesis
    using assms(1,5) linked_dom [OF assms(2)]
    by (simp add: state_keys_ok_def spawn_tap_hubs_def absorb_wiring_def wiring_maps_ok_def wports_def absorb_hash(2) [OF _ _ assms(3)])
qed

section \<open>The invariant\<close>

text \<open>What the maps reach is the wiring of the endpoints \<open>F\<close> under the links \<open>ls\<close>.\<close>

definition plumbed :: "endpoint_table \<Rightarrow> link list \<Rightarrow> ('attr, 're) GraphState \<Rightarrow> bool" where
  "plumbed F ls s \<longleftrightarrow>
     linked F ls (unat (gs_next_edge_origin s)) (gs_heap s) (sports s) \<and>
     hubs_ok F (gs_heap s) (named (gs_tap_hubs s)) \<and> ids_below (gs_next_send_origin s) (gs_heap s) (sports s) \<and>
     gs_next_edge_origin s \<le> SEND_ORIGIN_BASE \<and> SEND_ORIGIN_BASE \<le> gs_next_send_origin s \<and> state_keys_ok s"

definition wired :: "('attr, 're) GraphState \<Rightarrow> bool" where
  "wired s \<longleftrightarrow>
     config_valid (gs_config s) \<and> map nd_config (gs_nodes s) = nodes (gs_config s) \<and>
     plumbed (spec_at (gs_config s)) (links (gs_config s)) s"

lemma plumbedD:
  assumes "plumbed F ls s"
  shows "linked F ls (unat (gs_next_edge_origin s)) (gs_heap s) (sports s)"
    "hubs_ok F (gs_heap s) (named (gs_tap_hubs s))" "ids_below (gs_next_send_origin s) (gs_heap s) (sports s)"
    "unat (gs_next_edge_origin s) \<le> unat SEND_ORIGIN_BASE" "SEND_ORIGIN_BASE \<le> gs_next_send_origin s" "state_keys_ok s"
  using assms by (auto simp: plumbed_def word_le_nat_alt)

lemma wiredD:
  assumes "wired s"
  shows "config_valid (gs_config s)" "map nd_config (gs_nodes s) = nodes (gs_config s)"
    "plumbed (spec_at (gs_config s)) (links (gs_config s)) s" "plain (spec_at (gs_config s))"
  using assms valid_plain by (auto simp: wired_def)

definition no_ports :: ports where
  "no_ports = \<lparr>p_lock = Map.empty, p_tx = Map.empty, p_fan = Map.empty, p_inbox = Map.empty,
    p_counters = Map.empty, p_slot = Map.empty, p_origin = Map.empty\<rparr>"

lemma valid_empty: "config_valid config_default"
  by (simp add: config_valid_def config_default_def node_names_def map_filter_simps graph_valid_def to_model_def graph_new_def
      oriented_edges_def acyclic_def)

lemma spec_empty [simp]: "spec_at config_default = Map.empty" "links config_default = []"
  by (simp_all add: fun_eq_iff spec_at_def node_named_def links_def config_default_def)

text \<open>With every map empty there is nothing to be wrong.\<close>

lemma nothing_wired [simp]: "linked Map.empty [] n hp no_ports" "ids_below b hp no_ports" "hubs_ok Map.empty hp Map.empty"
  by (simp_all add: no_ports_def linked_defs ids_below_def inj_map_def faces_def hubs_ok_def)

lemma sports_clear [simp]: "sports (clear_maps s) = no_ports"
  by (simp add: sports_def clear_maps_def no_ports_def)

lemma plumbed_clear:
  assumes "gs_next_edge_origin s \<le> SEND_ORIGIN_BASE" "SEND_ORIGIN_BASE \<le> gs_next_send_origin s" "gs_tap_hubs s = []"
  shows "plumbed Map.empty [] (clear_maps s)"
  unfolding plumbed_def sports_clear using assms by (simp add: clear_maps_def state_keys_ok_def)

lemma wired_new:
  fixes s :: "('attr, 're) GraphState"
  assumes "s = daemon_new tenv"
  shows "wired s"
proof -
  have "clear_maps s = s" by (simp add: assms clear_maps_def daemon_new_def)
  moreover have "plumbed Map.empty [] (clear_maps s)"
    by (rule plumbed_clear) (simp_all add: assms daemon_new_def)
  moreover have "gs_config s = config_default" "gs_nodes s = []" by (simp_all add: assms daemon_new_def)
  ultimately show ?thesis by (simp add: wired_def valid_empty) (simp add: config_default_def)
qed

text \<open>Folding a plan into the maps puts its wiring beside the one that is there.\<close>

lemma absorb_linked:
  assumes lk: "linked F ls n (gs_heap s) (sports s)" and pl: "planned (gs_heap s) G ks k (w, hp)" and ok: "wiring_maps_ok w"
    and FG: "dom F \<inter> dom G = {}" "plain G" and lim: "n \<le> unat SEND_ORIGIN_BASE" and same: "sports s' = sports s"
  shows "linked (F ++ G) (ls @ ks) (max n k) hp (sports (absorb_wiring w s'))"
proof -
  from pl have b: "linked G ks k hp (wports w)" and un: "untouched (hp_next (gs_heap s)) (gs_heap s) hp"
    and ab: "above (hp_next (gs_heap s)) hp (wports w)" by (simp_all add: planned_def)
  have "sink_tx x < hp_next (gs_heap s)" if "p_fan (sports s) a = Some f" "x \<in> set (hp_fanouts hp f)" for a f x
    using sinks_okD(2) [OF linkedD(9) [OF lk] that(1)] that(2) un separateD(6) [OF linkedD(3) [OF lk] that(1)]
    by (simp add: untouched_def)
  note apart = apart_above [OF linkedD(3) [OF lk] this ab]
  show ?thesis
    unfolding absorb_sports [OF ok b FG(2)] same
    using linked_grow [OF lk un lim] b FG(1) apart by (rule linked_add)
qed

lemma absorb_hubs:
  assumes "hubs_ok F (gs_heap s) (named (gs_tap_hubs s))" and pl: "planned (gs_heap s) G ks k (w, hp)" and ok: "wiring_maps_ok w"
    and FG: "dom F \<inter> dom G = {}" "plain G"
  shows "hubs_ok (F ++ G) hp (named (gs_tap_hubs s) ++ hash_get (w_tap_hub_setup w))"
proof -
  let ?m = "named (gs_tap_hubs s)" and ?l = "hash_get (w_tap_hub_setup w)"
  from pl have un: "untouched (hp_next (gs_heap s)) (gs_heap s) hp" and l: "hubs_ok G hp ?l"
    and ab: "\<forall>a x. ?l a = Some x \<longrightarrow> hp_next (gs_heap s) \<le> x" by (simp_all add: planned_def)
  have m: "hubs_ok F hp ?m" using assms(1) un by (rule hubs_grow)
  have "ran ?m \<inter> ran ?l = {}"
  proof (rule equals0I)
    fix x assume "x \<in> ran ?m \<inter> ran ?l"
    then obtain a b where "?m a = Some x" "?l b = Some x" by (auto simp: ran_def)
    then show False using hubs_below [OF assms(1), of a x] ab by fastforce
  qed
  then have "inj_map (?m ++ ?l)" using m l by (intro inj_map_add) (simp_all add: hubs_ok_def)
  then show ?thesis
    using m l by (auto simp: hubs_ok_def faces_add [OF FG(1)] map_add_Some_iff)
qed

lemma ids_add: "ids_below b hp p \<Longrightarrow> ids_below b hp q \<Longrightarrow> ids_below b hp (ports_add p q)"
  by (auto simp: ids_below_def ports_add_def map_add_Some_iff)

lemma ids_mono: "ids_below b hp p \<Longrightarrow> b \<le> b' \<Longrightarrow> ids_below b' hp p"
  unfolding ids_below_def by (meson order_less_le_trans)

lemma absorb_plumbed:
  assumes pb: "plumbed F ls s" and pl: "planned (gs_heap s) G ks (unat (w_next_origin w)) (w, hp)" and ok: "wiring_maps_ok w"
    and FG: "dom F \<inter> dom G = {}" "plain G" and lim: "w_next_origin w \<le> SEND_ORIGIN_BASE"
  shows "plumbed (F ++ G) (ls @ ks) (spawn_tap_hubs w (absorb_wiring w (s\<lparr>gs_heap := hp\<rparr>)))" (is "plumbed _ _ ?s")
proof -
  note d = plumbedD [OF pb]
  have same: "sports (s\<lparr>gs_heap := hp\<rparr>) = sports s" by (simp add: sports_def)
  have w: "linked G ks (unat (w_next_origin w)) hp (wports w)" "hubs_ok G hp (hash_get (w_tap_hub_setup w))"
    "ids_below SEND_ORIGIN_BASE hp (wports w)" "untouched (hp_next (gs_heap s)) (gs_heap s) hp"
    using pl by (simp_all add: planned_def)
  have ports: "sports ?s = sports (absorb_wiring w (s\<lparr>gs_heap := hp\<rparr>))" by (simp add: sports_def spawn_tap_hubs_def)
  have dom: "dom (hash_get (w_tap_hub_setup w)) \<subseteq> dom G" using w(2) by (auto simp: hubs_ok_def faces_def)
  have "linked (F ++ G) (ls @ ks) (unat (gs_next_edge_origin ?s)) (gs_heap ?s) (sports ?s)"
    using absorb_linked [OF d(1) pl ok FG d(4) same] unfolding ports
    by (simp add: spawn_tap_hubs_def absorb_wiring_def word_less_nat_alt max_def split: if_splits)
  moreover have "hubs_ok (F ++ G) (gs_heap ?s) (named (gs_tap_hubs ?s))"
    using absorb_hubs [OF d(2) pl ok FG] absorb_hash(1) [OF _ dom FG(2)] ok
    by (simp add: spawn_tap_hubs_def absorb_wiring_def wiring_maps_ok_def)
  moreover have "ids_below (gs_next_send_origin ?s) (gs_heap ?s) (sports ?s)"
    using ids_add [OF ids_grow [OF d(3) w(4) d(1)] ids_mono [OF w(3) d(5)]]
    unfolding ports absorb_sports [OF ok w(1) FG(2)] same by (simp add: spawn_tap_hubs_def absorb_wiring_def)
  moreover have "state_keys_ok ?s"
    using absorb_keys [OF ok w(1) FG(2) w(2), of "s\<lparr>gs_heap := hp\<rparr>"] d(6) by (simp add: state_keys_ok_def)
  ultimately show ?thesis
    using pb lim by (simp add: plumbed_def) (simp add: spawn_tap_hubs_def absorb_wiring_def)
qed

end
