(* ===== verification/Graph_Verbs.thy ===== *)
theory Graph_Verbs
  imports Graph_State "HOL-Library.Sublist"
begin

text \<open>
  What each verb of the daemon does to the invariant of the live graph, and what a refused verb leaves alone.
\<close>

section \<open>Hubs\<close>

lemma detach_hubs_effect:
  assumes "detach_hubs why keep hubs (hp, tenv) = (hubs', hp', tenv')"
  shows "hubs' = filter (\<lambda>(k, h). keep k) hubs" "hp_next hp' = hp_next hp" "hp_cells hp' = hp_cells hp"
    "hp_fanouts hp' = hp_fanouts hp" "hp_slots hp' = hp_slots hp" "hp_inboxes hp' = hp_inboxes hp"
    "x \<notin> snd ` set (filter (\<lambda>(k, h). \<not> keep k) hubs) \<Longrightarrow> hp_hubs hp' x = hp_hubs hp x"
proof -
  have "hubs' = filter (\<lambda>(k, h). keep k) hubs \<and> hp_next hp' = hp_next hp \<and> hp_cells hp' = hp_cells hp \<and>
    hp_fanouts hp' = hp_fanouts hp \<and> hp_slots hp' = hp_slots hp \<and> hp_inboxes hp' = hp_inboxes hp \<and>
    (x \<notin> snd ` set (filter (\<lambda>(k, h). \<not> keep k) hubs) \<longrightarrow> hp_hubs hp' x = hp_hubs hp x)"
    using assms
  proof (induction hubs arbitrary: hubs' hp tenv)
    case (Cons e hubs)
    obtain k h where e: "e = (k, h)" by (cases e)
    show ?case
    proof (cases "keep k")
      case True
      then show ?thesis using Cons e by (auto split: prod.splits)
    next
      case False
      obtain ids hub t where d: "detach_all why (hp_hubs hp h) tenv = (ids, hub, t)" by (metis prod_cases3)
      then have "detach_hubs why keep hubs (hp\<lparr>hp_hubs := (hp_hubs hp)(h := hub)\<rparr>, t) = (hubs', hp', tenv')"
        using Cons.prems False e by simp
      from Cons.IH [OF this] show ?thesis using False e by auto
    qed
  qed simp
  then show "hubs' = filter (\<lambda>(k, h). keep k) hubs" "hp_next hp' = hp_next hp" "hp_cells hp' = hp_cells hp"
    "hp_fanouts hp' = hp_fanouts hp" "hp_slots hp' = hp_slots hp" "hp_inboxes hp' = hp_inboxes hp"
    "x \<notin> snd ` set (filter (\<lambda>(k, h). \<not> keep k) hubs) \<Longrightarrow> hp_hubs hp' x = hp_hubs hp x" by simp_all
qed

lemma detach_taps_run:
  obtains hubs hp tenv where "detach_hubs why keep (gs_tap_hubs s) (gs_heap s, gs_tap_env s) = (hubs, hp, tenv)"
    "detach_taps why keep s = s\<lparr>gs_tap_hubs := hubs, gs_heap := hp, gs_tap_env := tenv\<rparr>"
proof -
  obtain hubs hp tenv where "detach_hubs why keep (gs_tap_hubs s) (gs_heap s, gs_tap_env s) = (hubs, hp, tenv)"
    by (metis prod_cases3)
  then show ?thesis using that by (simp add: detach_taps_def)
qed

lemma detach_taps_frame:
  "sports (detach_taps why keep s) = sports s" "gs_next_edge_origin (detach_taps why keep s) = gs_next_edge_origin s"
  "gs_next_send_origin (detach_taps why keep s) = gs_next_send_origin s" "gs_config (detach_taps why keep s) = gs_config s"
  "gs_nodes (detach_taps why keep s) = gs_nodes s" "gs_tap_hubs (detach_taps why keep s) = filter (\<lambda>(k, h). keep k) (gs_tap_hubs s)"
  by (rule detach_taps_run [of why keep s]; simp add: sports_def detach_hubs_effect(1))+

lemma detach_taps_heap:
  "hp_next (gs_heap (detach_taps why keep s)) = hp_next (gs_heap s)" "hp_cells (gs_heap (detach_taps why keep s)) = hp_cells (gs_heap s)"
  "hp_fanouts (gs_heap (detach_taps why keep s)) = hp_fanouts (gs_heap s)" "hp_slots (gs_heap (detach_taps why keep s)) = hp_slots (gs_heap s)"
  "x \<notin> snd ` set (filter (\<lambda>(k, h). \<not> keep k) (gs_tap_hubs s)) \<Longrightarrow>
     hp_hubs (gs_heap (detach_taps why keep s)) x = hp_hubs (gs_heap s) x"
proof -
  obtain hubs hp tenv where run: "detach_hubs why keep (gs_tap_hubs s) (gs_heap s, gs_tap_env s) = (hubs, hp, tenv)"
    "detach_taps why keep s = s\<lparr>gs_tap_hubs := hubs, gs_heap := hp, gs_tap_env := tenv\<rparr>" by (rule detach_taps_run)
  note eff = detach_hubs_effect [OF run(1)]
  show "hp_next (gs_heap (detach_taps why keep s)) = hp_next (gs_heap s)" "hp_cells (gs_heap (detach_taps why keep s)) = hp_cells (gs_heap s)"
    "hp_fanouts (gs_heap (detach_taps why keep s)) = hp_fanouts (gs_heap s)" "hp_slots (gs_heap (detach_taps why keep s)) = hp_slots (gs_heap s)"
    by (simp_all add: run(2) eff(2-5))
  show "x \<notin> snd ` set (filter (\<lambda>(k, h). \<not> keep k) (gs_tap_hubs s)) \<Longrightarrow>
     hp_hubs (gs_heap (detach_taps why keep s)) x = hp_hubs (gs_heap s) x"
    using eff(7) [of x] by (simp add: run(2))
qed

section \<open>\<open>teardown\<close>\<close>

lemma teardown_wired:
  assumes "gs_next_edge_origin s \<le> SEND_ORIGIN_BASE" "SEND_ORIGIN_BASE \<le> gs_next_send_origin s"
  shows "wired (snd (teardown_with env why s))" "gs_nodes (snd (teardown_with env why s)) = []"
    "gs_config (snd (teardown_with env why s)) = config_default"
    "gs_next_edge_origin (snd (teardown_with env why s)) = gs_next_edge_origin s"
proof -
  define s1 where "s1 = clear_maps (s\<lparr>gs_heap := fold (\<lambda>(_, c). close_cell c) (gs_endpoint_locks s) (gs_heap s),
    gs_nodes := [], gs_config := config_default\<rparr>)"
  let ?t = "detach_taps why (\<lambda>_. False) s1"
  have t: "snd (teardown_with env why s) = ?t" by (simp add: teardown_with_def Let_def s1_def)
  show config: "gs_nodes (snd (teardown_with env why s)) = []" "gs_config (snd (teardown_with env why s)) = config_default"
    and "gs_next_edge_origin (snd (teardown_with env why s)) = gs_next_edge_origin s"
    unfolding t detach_taps_frame by (simp_all add: s1_def clear_maps_def)
  have "clear_maps ?t = ?t" by (simp add: detach_taps_def s1_def clear_maps_def split: prod.split)
  moreover have "plumbed Map.empty [] (clear_maps ?t)"
    by (rule plumbed_clear) (simp_all add: detach_taps_frame assms, simp_all add: s1_def clear_maps_def assms)
  ultimately show "wired (snd (teardown_with env why s))"
    using config unfolding t by (simp add: wired_def valid_empty) (simp add: config_default_def)
qed

section \<open>\<open>load\<close> and \<open>add-node\<close>\<close>

definition env_ok :: "('attr, 'codec) daemon_env \<Rightarrow> bool" where
  "env_ok env \<longleftrightarrow> orders_ok (env_count_order env) (env_key_order env) \<and> perm_order (env_facing_order env)"

lemma structural_valid:
  assumes "env_ok env"
  shows "structural_check env c = Inr () \<longleftrightarrow> config_valid c"
proof -
  have "config_validate (env_count_order env) (env_key_order env) c = Some [] \<longleftrightarrow> config_valid c"
    using assms validate_config [of "env_count_order env" "env_key_order env" c] by (auto simp: env_ok_def)
  then show ?thesis by (auto simp: structural_check_def split: option.split list.split)
qed

lemma instantiate_config: "instantiate env n = Inr node \<Longrightarrow> nd_config node = n"
  by (auto simp: instantiate_def node_up_def split: NodeConfig.splits sum.splits if_splits)

lemma instantiate_all_config: "instantiate_all env ns = Inr ups \<Longrightarrow> map nd_config ups = ns"
  by (induction ns arbitrary: ups) (auto split: sum.splits dest: instantiate_config)

lemma node_start_config [simp]: "nd_config (node_start clock w hp n) = nd_config n"
  by (simp add: node_start_def set_status_def split: NodeConfig.split)

lemma node_start_configs [simp]: "nd_config \<circ> node_start clock w hp = nd_config"
  by (simp add: fun_eq_iff)

lemma upstream_config [simp]: "nd_config (set_upstream_attached env a b n) = nd_config n"
  by (simp add: set_upstream_attached_def set_status_def split: NodeConfig.split)

lemma update_first_map: "(\<And>x. f (g x) = f x) \<Longrightarrow> map f (update_first P g xs) = map f xs"
  by (induction xs) (auto simp: update_first_def)

lemma no_hubs:
  assumes "plumbed F ls s" "F = Map.empty"
  shows "gs_tap_hubs s = []"
proof (rule ccontr)
  assume "gs_tap_hubs s \<noteq> []"
  then obtain k h where "(k, h) \<in> set (gs_tap_hubs s)" by (metis list.set_intros(1) neq_Nil_conv surj_pair)
  moreover have ok: "keys_ok (gs_tap_hubs s)" using plumbedD(6) [OF assms(1)] by (simp add: state_keys_ok_def)
  ultimately have "hash_get (gs_tap_hubs s) k = Some h" by (simp add: keys_ok_def hash.entries_get)
  then have "named (gs_tap_hubs s) (EndpointAddr_from_str k) = Some h" by (rule keys_ok_get [OF ok])
  then show False using plumbedD(2) [OF assms(1)] assms(2) by (auto simp: hubs_ok_def faces_def)
qed

lemma spec_no_nodes: "nodes c = [] \<Longrightarrow> spec_at c = Map.empty"
  by (simp add: fun_eq_iff spec_at_def node_named_def)

lemma plumbed_update [simp]:
  "plumbed F ls (s\<lparr>gs_nodes := ns\<rparr>) = plumbed F ls s" "plumbed F ls (s\<lparr>gs_config := c\<rparr>) = plumbed F ls s"
  by (simp_all add: plumbed_def sports_def state_keys_ok_def)

lemma load_commit_wired:
  assumes w: "wired s" and env: "env_ok env" and c: "config_valid c" and lim: "length (cfg_edges c) < unat SEND_ORIGIN_BASE"
    and run: "load_commit env c s = (r, s')"
  shows "wired s'" "\<And>e. r = Inl e \<Longrightarrow> s' = s" "\<And>n. r = Inr n \<Longrightarrow> gs_config s' = c"
proof -
  let ?goal = "wired s' \<and> (\<forall>e. r = Inl e \<longrightarrow> s' = s) \<and> (\<forall>n. r = Inr n \<longrightarrow> gs_config s' = c)"
  have ?goal
  proof (cases "gs_nodes s = [] \<and> (\<exists>ns. instantiate_all env (nodes c) = Inr ns)")
    case False
    then have "s' = s" "\<exists>e. r = Inl e" using run by (auto simp: load_commit_def split: if_splits sum.splits)
    then show ?thesis using w by auto
  next
    case True
    then obtain ns where empty: "gs_nodes s = []" and ns: "instantiate_all env (nodes c) = Inr ns" by blast
    obtain wr hp where wb: "wiring_build (env_facing_order env) c (gs_heap s) = (wr, hp)"
      by (cases "wiring_build (env_facing_order env) c (gs_heap s)")
    have plan: "planned (gs_heap s) (spec_at c) (links c) (unat (w_next_origin wr)) (wr, hp)"
      and n: "unat (w_next_origin wr) = length (cfg_edges c)"
      using wiring_planned [OF c _ lim, of "env_facing_order env" "gs_heap s"] env wb by (simp_all add: env_ok_def)
    note pb = wiredD(3) [OF w]
    have "nodes (gs_config s) = []" using wiredD(2) [OF w] empty by simp
    then have hubs: "gs_tap_hubs s = []" using no_hubs [OF pb] spec_no_nodes by blast
    define s1 where "s1 = clear_maps s"
    have s1: "plumbed Map.empty [] s1" unfolding s1_def using pb hubs by (intro plumbed_clear) (simp_all add: plumbed_def)
    let ?t = "spawn_tap_hubs wr (absorb_wiring wr (s1\<lparr>gs_heap := hp\<rparr>))"
    have "plumbed (Map.empty ++ spec_at c) ([] @ links c) ?t"
    proof (rule absorb_plumbed [OF s1])
      show "planned (gs_heap s1) (spec_at c) (links c) (unat (w_next_origin wr)) (wr, hp)" using plan by (simp add: s1_def clear_maps_def)
      show "wiring_maps_ok wr" using wiring_build_maps_ok [of "env_facing_order env" c "gs_heap s"] wb by simp
      show "plain (spec_at c)" by (rule valid_plain [OF c])
    qed (use n lim in \<open>simp_all add: word_le_nat_alt\<close>)
    moreover have "detach_taps GraphReplaced (\<lambda>_. False) (clear_maps (s\<lparr>gs_heap := hp\<rparr>)) = s1\<lparr>gs_heap := hp\<rparr>"
      using hubs by (simp add: detach_taps_def clear_maps_def s1_def)
    then have "s' = ?t\<lparr>gs_nodes := map (node_start (env_clock env) wr (gs_heap ?t)) ns, gs_config := c\<rparr>" "r = Inr (length ns)"
      using run empty ns wb by (simp_all add: load_commit_def Let_def)
    ultimately show ?thesis using c instantiate_all_config [OF ns] by (simp add: wired_def)
  qed
  then show "wired s'" "\<And>e. r = Inl e \<Longrightarrow> s' = s" "\<And>n. r = Inr n \<Longrightarrow> gs_config s' = c" by auto
qed

text \<open>What the checks before the critical section promise: nothing in it can fail to come up.\<close>

lemma precheck_instantiate:
  assumes "precheck_codecs env ns = Inr ()" and "\<forall>n \<in> set ns. node_ok n"
  shows "\<exists>ups. instantiate_all env ns = Inr ups"
  using assms
proof (induction ns)
  case (Cons n ns)
  have "precheck_codecs env ns = Inr ()"
    using Cons.prems(1) by (auto split: NodeConfig.splits if_splits sum.splits)
  then obtain ups where ups: "instantiate_all env ns = Inr ups" using Cons by auto
  have "\<exists>up. instantiate env n = Inr up"
    using Cons.prems by (cases n) (auto simp: instantiate_def split: if_splits sum.splits)
  then show ?case using ups by auto
qed simp

lemma load_result:
  assumes w: "wired s" and env: "env_ok env" and lim: "length (cfg_edges c) < unat SEND_ORIGIN_BASE"
    and run: "load env c replace s = (r, s')"
  shows "wired s'" "\<And>e. r = Inl e \<Longrightarrow> s' = s" "\<And>n. r = Inr n \<Longrightarrow> gs_config s' = c"
proof -
  let ?goal = "wired s' \<and> (\<forall>e. r = Inl e \<longrightarrow> s' = s) \<and> (\<forall>n. r = Inr n \<longrightarrow> gs_config s' = c)"
  have ?goal
  proof (cases "structural_check env c = Inr () \<and> precheck_codecs env (nodes c) = Inr () \<and> precheck_flow_control env (nodes c) = Inr ()")
    case False
    then have "s' = s" "\<exists>e. r = Inl e" using run by (auto simp: load_def split: sum.splits)
    then show ?thesis using w by auto
  next
    case True
    define s1 where "s1 = (if replace then snd (teardown_with env GraphReplaced s) else s)"
    obtain q s2 where commit: "load_commit env c s1 = (q, s2)" by (cases "load_commit env c s1")
    have ends: "s' = s2" "isl r \<longleftrightarrow> isl q"
      using run True commit by (auto simp: load_def s1_def split: prod.splits sum.splits if_splits)
    have c: "config_valid c" using True structural_valid [OF env] by simp
    have "gs_next_edge_origin s \<le> SEND_ORIGIN_BASE" "SEND_ORIGIN_BASE \<le> gs_next_send_origin s"
      using wiredD(3) [OF w] by (simp_all add: plumbed_def)
    note down = teardown_wired [OF this, of env GraphReplaced]
    have w1: "wired s1" using w down(1) by (simp add: s1_def)
    note committed = load_commit_wired [OF w1 env c lim commit]
    have "s1 = s" if "isl q"
    proof (rule ccontr)
      assume "s1 \<noteq> s"
      then have "gs_nodes s1 = []" using down(2) by (auto simp: s1_def split: if_splits)
      moreover obtain ups where "instantiate_all env (nodes c) = Inr ups"
        using precheck_instantiate [of env "nodes c"] True c by (auto simp: config_valid_def)
      ultimately have "\<not> isl q" using commit by (auto simp: load_commit_def Let_def split: prod.splits)
      with that show False by simp
    qed
    then show ?thesis using committed ends by (cases q; cases r) auto
  qed
  then show "wired s'" "\<And>e. r = Inl e \<Longrightarrow> s' = s" "\<And>n. r = Inr n \<Longrightarrow> gs_config s' = c" by auto
qed

section \<open>Configurations that differ in a node or an edge\<close>

lemma same_nodes_edge:
  assumes "node_named c (addr_node (cfg_a e)) = node_named d (addr_node (cfg_a e))"
    "node_named c (addr_node (cfg_b e)) = node_named d (addr_node (cfg_b e))"
  shows "edge_ends c e = edge_ends d e" "effective_write_mode c e = effective_write_mode d e" "link_of c e = link_of d e"
    "held_host c e = held_host d e" "mux_ok c e = mux_ok d e"
proof -
  have facing: "endpoint_facing c (cfg_a e) = endpoint_facing d (cfg_a e)" "endpoint_facing c (cfg_b e) = endpoint_facing d (cfg_b e)"
    using assms by (simp_all add: endpoint_facing_def)
  then show ends: "edge_ends c e = edge_ends d e" by (simp add: edge_ends_def)
  have at: "node_named c (addr_node t) = node_named d (addr_node t)" "node_named c (addr_node h) = node_named d (addr_node h)"
    if "edge_ends d e = Some (h, t)" for h t
    using that assms by (auto simp: edge_ends_def split: option.splits Facing.splits)
  show "effective_write_mode c e = effective_write_mode d e"
    unfolding effective_write_mode_def ends using at by (auto split: option.split)
  then show "link_of c e = link_of d e" "held_host c e = held_host d e"
    using at by (auto simp: link_of_def held_host_def ends endpoint_arbitrates_def split: option.split)
  show "mux_ok c e = mux_ok d e"
    using at by (auto simp: mux_ok_def ends is_multiplexed_endpoint_def endpoint_arbitrates_def)
qed

lemma model_shapes_set:
  assumes "distinct (node_names c)"
  shows "set (shapes (to_model c)) = (\<lambda>n. (node_name n, shape n)) ` set (nodes c)"
proof -
  have "hash_ok (shapes (fold (\<lambda>n m. add_node m (node_name n) (shape n)) ns m))" if "hash_ok (shapes m)"
    for ns :: "'a NodeConfig list" and m
    using that by (induction ns arbitrary: m) (simp_all add: add_node_def hash_insert_ok)
  from this [of graph_new "nodes c"] have ok: "hash_ok (shapes (to_model c))"
    using add_edges [of "cfg_edges c"] by (simp add: to_model_def edge_of_def graph_new_def hash_ok_def)
  have "(k, x) \<in> set (shapes (to_model c)) \<longleftrightarrow> (\<exists>n \<in> set (nodes c). node_name n = k \<and> shape n = x)" for k x
  proof -
    have "(k, x) \<in> set (shapes (to_model c)) \<longleftrightarrow> map_option shape (node_named c k) = Some x"
      by (simp add: hash.entries_get [OF ok] to_model_shapes [OF assms])
    also have "\<dots> \<longleftrightarrow> (\<exists>n \<in> set (nodes c). node_name n = k \<and> shape n = x)"
    proof
      assume "map_option shape (node_named c k) = Some x"
      then show "\<exists>n \<in> set (nodes c). node_name n = k \<and> shape n = x"
        by (auto simp: node_named_def find_Some_iff)
    next
      assume "\<exists>n \<in> set (nodes c). node_name n = k \<and> shape n = x"
      then show "map_option shape (node_named c k) = Some x"
        using assms find_by_name [of node_name "nodes c"] by (auto simp: node_named_def node_names_def)
    qed
    finally show ?thesis .
  qed
  then show ?thesis by auto
qed

lemma oriented_edges_config:
  "distinct (node_names c) \<Longrightarrow> oriented_edges (to_model c) = List.map_filter (edge_ends c) (cfg_edges c)"
  using edge_ends_oriented [of c]
  by (simp add: oriented_edges_def to_model_edges map_filter_def comp_def filter_map)

text \<open>Validity, spelled over the configuration itself.\<close>

lemma config_valid_iff:
  "config_valid c \<longleftrightarrow>
     distinct (node_names c) \<and> (\<forall>n \<in> set (nodes c). node_ok n \<and> legal_node (node_name n, shape n)) \<and>
     (\<forall>e \<in> set (cfg_edges c). mux_ok c e \<and> edge_ends c e \<noteq> None) \<and>
     distinct (List.map_filter (held_host c) (cfg_edges c)) \<and>
     distinct (List.map_filter (\<lambda>e. map_option snd (edge_ends c e)) (cfg_edges c)) \<and>
     acyclic (edge_arc ` set (List.map_filter (edge_ends c) (cfg_edges c)))"
proof (cases "distinct (node_names c)")
  case True
  have "map snd (List.map_filter (edge_ends c) es) = List.map_filter (\<lambda>e. map_option snd (edge_ends c e)) es" for es
    by (induction es) (auto simp: map_filter_simps split: option.splits)
  then show ?thesis
    using True model_shapes_set [OF True] oriented_edges_config [OF True] edge_ends_oriented [OF True]
    by (auto simp: config_valid_def graph_valid_def to_model_edges)
qed (simp add: config_valid_def)

lemma map_filter_subseq: "subseq xs ys \<Longrightarrow> subseq (List.map_filter f xs) (List.map_filter f ys)"
  by (induction rule: list_emb.induct) (auto simp: map_filter_simps split: option.split)

lemma map_filter_cong_set: "(\<And>x. x \<in> set xs \<Longrightarrow> f x = g x) \<Longrightarrow> List.map_filter f xs = List.map_filter g xs"
  by (induction xs) (auto simp: map_filter_simps split: option.split)

lemma subseq_set: "subseq xs ys \<Longrightarrow> set xs \<subseteq> set ys"
  by (induction rule: list_emb.induct) auto

lemma subseq_distinct: "subseq xs ys \<Longrightarrow> distinct ys \<Longrightarrow> distinct xs"
  by (induction rule: list_emb.induct) (auto dest: subseq_set)

lemma valid_sub:
  assumes c: "config_valid c" and nodes: "subseq (nodes d) (nodes c)" and edges: "subseq (cfg_edges d) (cfg_edges c)"
    and kept: "\<And>e. e \<in> set (cfg_edges d) \<Longrightarrow> node_named d (addr_node (cfg_a e)) = node_named c (addr_node (cfg_a e)) \<and>
      node_named d (addr_node (cfg_b e)) = node_named c (addr_node (cfg_b e))"
  shows "config_valid d" "links d = map (link_of c) (cfg_edges d)"
proof -
  note same = same_nodes_edge [of d _ c, OF conjunct1 [OF kept] conjunct2 [OF kept]]
  have sub: "set (nodes d) \<subseteq> set (nodes c)" "set (cfg_edges d) \<subseteq> set (cfg_edges c)"
    using nodes edges subseq_set by fastforce+
  have names: "distinct (node_names d)"
    using subseq_distinct [OF subseq_map [OF nodes, of node_name]] c by (simp add: config_valid_def node_names_def)
  have d: "distinct (List.map_filter f (cfg_edges d))" if "distinct (List.map_filter f (cfg_edges c))" for f :: "EdgeConfig \<Rightarrow> 'x option"
    using subseq_distinct [OF map_filter_subseq [OF edges] that] .
  have "set (List.map_filter (edge_ends c) (cfg_edges d)) \<subseteq> set (List.map_filter (edge_ends c) (cfg_edges c))"
    using subseq_set [OF map_filter_subseq [OF edges]] .
  then have "acyclic (edge_arc ` set (List.map_filter (edge_ends c) (cfg_edges d)))"
    using c acyclic_subset unfolding config_valid_iff by (metis image_mono)
  then show "config_valid d"
    using c sub names d same unfolding config_valid_iff
    by (auto simp: same cong: map_filter_cong_set)
  show "links d = map (link_of c) (cfg_edges d)" using same(3) by (simp add: links_def)
qed

section \<open>Adding a node\<close>

lemma node_named_append:
  assumes "distinct (map node_name (nodes c @ [n]))"
  shows "node_named (c\<lparr>nodes := nodes c @ [n]\<rparr>) k = (if k = node_name n then Some n else node_named c k)"
proof -
  have "find P (xs @ [x]) = (case find P xs of None \<Rightarrow> if P x then Some x else None | Some y \<Rightarrow> Some y)" for P and xs :: "'a NodeConfig list" and x
    by (induction xs) auto
  moreover have "find (\<lambda>m. node_name m = node_name n) (nodes c) = None" using assms by (auto simp: find_None_iff image_iff)
  ultimately show ?thesis by (auto simp: node_named_def split: option.split)
qed

definition just :: "'attr NodeConfig \<Rightarrow> 'attr GraphConfig" where
  "just n = \<lparr>nodes = [n], cfg_edges = []\<rparr>"

lemma added_config:
  assumes c: "config_valid c" and d: "config_valid (c\<lparr>nodes := nodes c @ [n]\<rparr>)"
  shows "config_valid (just n)" "spec_at (c\<lparr>nodes := nodes c @ [n]\<rparr>) = spec_at c ++ spec_at (just n)"
    "dom (spec_at c) \<inter> dom (spec_at (just n)) = {}" "links (c\<lparr>nodes := nodes c @ [n]\<rparr>) = links c" "links (just n) = []"
proof -
  let ?d = "c\<lparr>nodes := nodes c @ [n]\<rparr>"
  have names: "distinct (map node_name (nodes c @ [n]))" using d by (simp add: config_valid_def node_names_def)
  note look = node_named_append [OF names]
  have one: "node_named (just n) k = (if k = node_name n then Some n else None)" for k
    by (simp add: node_named_def just_def)
  have new: "node_named c (node_name n) = None" using names by (auto simp: node_named_def find_None_iff image_iff)
  show "config_valid (just n)"
    using d by (simp add: config_valid_iff just_def node_names_def map_filter_simps acyclic_def)
  show "spec_at ?d = spec_at c ++ spec_at (just n)" "dom (spec_at c) \<inter> dom (spec_at (just n)) = {}"
    using new by (auto simp: fun_eq_iff spec_at_def look one map_add_def split: option.split if_splits)
  have "link_of ?d e = link_of c e" if "e \<in> set (cfg_edges c)" for e
  proof (rule same_nodes_edge(3))
    have "edge_ends c e \<noteq> None" using c that by (simp add: config_valid_iff)
    then have "node_named c (addr_node (cfg_a e)) \<noteq> None" "node_named c (addr_node (cfg_b e)) \<noteq> None"
      by (auto simp: edge_ends_def endpoint_facing_def split: option.splits Facing.splits)
    then show "node_named ?d (addr_node (cfg_a e)) = node_named c (addr_node (cfg_a e))"
      "node_named ?d (addr_node (cfg_b e)) = node_named c (addr_node (cfg_b e))"
      using new by (auto simp: look)
  qed
  then show "links ?d = links c" by (simp add: links_def)
  show "links (just n) = []" by (simp add: links_def just_def)
qed

lemma add_commit_wired:
  assumes w: "wired s" and env: "env_ok env" and run: "add_commit env n s = (r, s')"
  shows "wired s'" "\<And>e. r = Inl e \<Longrightarrow> s' = s"
    "r = Inr () \<Longrightarrow> gs_config s' = (gs_config s)\<lparr>nodes := nodes (gs_config s) @ [n]\<rparr>"
proof -
  let ?c = "gs_config s" and ?d = "(gs_config s)\<lparr>nodes := nodes (gs_config s) @ [n]\<rparr>"
  let ?goal = "wired s' \<and> (\<forall>e. r = Inl e \<longrightarrow> s' = s) \<and> (r = Inr () \<longrightarrow> gs_config s' = ?d)"
  have ?goal
  proof (cases "structural_check env ?d = Inr () \<and> (\<exists>node. instantiate env n = Inr node)")
    case False
    then have "s' = s" "\<exists>e. r = Inl e" using run
      by (cases "structural_check env ?d"; cases "instantiate env n"; auto simp: add_commit_def)+
    then show ?thesis using w by auto
  next
    case True
    then obtain node where node: "instantiate env n = Inr node" and check: "structural_check env ?d = Inr ()" by blast
    then have d: "config_valid ?d" using structural_valid [OF env] by simp
    note add = added_config [OF wiredD(1) [OF w] d]
    obtain wr hp where wb: "wiring_build (env_facing_order env) (just n) (gs_heap s) = (wr, hp)"
      by (cases "wiring_build (env_facing_order env) (just n) (gs_heap s)")
    have plan: "planned (gs_heap s) (spec_at (just n)) [] (unat (w_next_origin wr)) (wr, hp)" and z: "unat (w_next_origin wr) = 0"
      using wiring_planned [OF add(1), of "env_facing_order env" "gs_heap s"] env wb add(5)
      by (simp_all add: env_ok_def just_def SEND_ORIGIN_BASE_def)
    let ?t = "spawn_tap_hubs wr (absorb_wiring wr (s\<lparr>gs_heap := hp\<rparr>))"
    have "plumbed (spec_at ?d) (links ?d) ?t"
      using absorb_plumbed [OF wiredD(3) [OF w] plan _ add(3) valid_plain [OF add(1)]]
        wiring_build_maps_ok [of "env_facing_order env" "just n" "gs_heap s"] wb z add(2,4)
      by (simp add: word_le_nat_alt)
    moreover have "gs_config ?t = ?c" "gs_nodes ?t = gs_nodes s" by (simp_all add: spawn_tap_hubs_def absorb_wiring_def)
    then have "s' = ?t\<lparr>gs_nodes := gs_nodes s @ [node_start (env_clock env) wr (gs_heap ?t) node], gs_config := ?d\<rparr>" "r = Inr ()"
      using run check node wb by (simp_all add: add_commit_def just_def Let_def)
    ultimately show ?thesis using d wiredD(2) [OF w] instantiate_config [OF node] by (simp add: wired_def)
  qed
  then show "wired s'" "\<And>e. r = Inl e \<Longrightarrow> s' = s" "r = Inr () \<Longrightarrow> gs_config s' = ?d" by auto
qed

lemma add_node_result:
  assumes "wired s" "env_ok env" "daemon_add_node env given s = (r, s')"
  shows "wired s'" "\<And>e. r = Inl e \<Longrightarrow> s' = s"
proof -
  have "s' = s \<and> (\<exists>e. r = Inl e) \<or> (\<exists>n q. add_commit env n s = (q, s') \<and> (isl r \<longleftrightarrow> isl q))"
    using assms(3) unfolding daemon_add_node_def
    by (auto split: sum.splits prod.splits simp del: precheck_codecs.simps precheck_flow_control.simps intro!: exI)
  then show "wired s'" "\<And>e. r = Inl e \<Longrightarrow> s' = s"
    using add_commit_wired [OF assms(1,2)] assms(1) by (auto simp: isl_def)
qed

end
