(* ===== verification/Graph_Surgery.thy ===== *)
theory Graph_Surgery
  imports Graph_Verbs
begin

text \<open>
  Edges and nodes that come and go on a running graph: \<open>connect\<close>, \<open>disconnect\<close>, \<open>remove-node\<close>, the arbitration
  verbs, and the steps of the node tasks in between.
\<close>

section \<open>Steps that keep the wiring\<close>

definition cell_kept :: "LockCell \<Rightarrow> LockCell \<Rightarrow> bool" where
  "cell_kept x y \<longleftrightarrow>
     lc_closed y = lc_closed x \<and> lc_endpoint y = lc_endpoint x \<and>
     Lock.arbitration (lc_lock y) = Lock.arbitration (lc_lock x) \<and>
     (lock_inv (lc_lock x) \<longrightarrow> lock_inv (lc_lock y) \<and> tag (lc_lock y) = tag (lc_lock x))"

definition heap_kept :: "'re heap \<Rightarrow> 're heap \<Rightarrow> bool" where
  "heap_kept hp hp' \<longleftrightarrow>
     hp_next hp \<le> hp_next hp' \<and> hp_slots hp' = hp_slots hp \<and> hp_fanouts hp' = hp_fanouts hp \<and>
     (\<forall>c. cell_kept (hp_cells hp c) (hp_cells hp' c)) \<and>
     (\<forall>h. hub_orphaned (hp_hubs hp' h) = hub_orphaned (hp_hubs hp h) \<and> hub_endpoint (hp_hubs hp' h) = hub_endpoint (hp_hubs hp h))"

lemma cell_kept_refl [simp]: "cell_kept x x"
  by (simp add: cell_kept_def)

lemma cell_kept_trans: "cell_kept x y \<Longrightarrow> cell_kept y z \<Longrightarrow> cell_kept x z"
  by (simp add: cell_kept_def)

lemma heap_kept_refl [simp]: "heap_kept hp hp"
  by (simp add: heap_kept_def)

lemma heap_kept_trans: "heap_kept a b \<Longrightarrow> heap_kept b c \<Longrightarrow> heap_kept a c"
  by (auto simp: heap_kept_def cell_kept_def)

lemma kept_same_links:
  assumes "linked F ls n hp p" "heap_kept hp hp'"
  shows "same_links p hp hp'"
proof -
  have "lock_inv (lock_at hp x)" if "p_lock p a = Some x" for a x
    using linkedD(4) [OF assms(1)] that by (simp add: cells_ok_def)
  then show ?thesis using assms(2) by (simp add: same_links_def heap_kept_def cell_kept_def)
qed

lemma kept_plumbed:
  assumes pb: "plumbed F ls s" and kept: "heap_kept (gs_heap s) hp"
  shows "plumbed F ls (s\<lparr>gs_heap := hp\<rparr>)"
proof -
  note d = plumbedD [OF pb]
  have same: "sports (s\<lparr>gs_heap := hp\<rparr>) = sports s" by (simp add: sports_def)
  have inv: "lock_inv (lock_at (gs_heap s) x)" if "p_lock (sports s) a = Some x" for a x
    using linkedD(4) [OF d(1)] that by (simp add: cells_ok_def)
  have "linked F ls (unat (gs_next_edge_origin s)) hp (sports s)"
    by (rule linked_same [OF d(1) kept_same_links [OF d(1) kept] d(4)])
  moreover have "hubs_ok F hp (named (gs_tap_hubs s))"
    using d(2) kept by (fastforce simp: hubs_ok_def heap_kept_def)
  moreover have "ids_below (gs_next_send_origin s) hp (sports s)"
    using d(3) inv kept by (simp add: ids_below_def heap_kept_def cell_kept_def)
  ultimately show ?thesis using pb unfolding plumbed_def same by (simp add: state_keys_ok_def)
qed

lemma kept_cell:
  assumes "cell_kept (hp_cells hp c) x"
  shows "heap_kept hp (hp\<lparr>hp_cells := (hp_cells hp)(c := x)\<rparr>)"
  using assms by (simp add: heap_kept_def)

lemma kept_wake: "heap_kept hp (wake_waiters c hp)"
  unfolding wake_waiters_def by (rule kept_cell) (simp add: cell_kept_def)

lemma kept_lock:
  assumes "\<And>l. Lock.arbitration (f l) = Lock.arbitration l" "\<And>l. lock_inv l \<Longrightarrow> lock_inv (f l)" "\<And>l. lock_inv l \<Longrightarrow> tag (f l) = tag l"
  shows "heap_kept hp (with_lock c f hp)"
  unfolding with_lock_def by (rule kept_cell) (simp add: cell_kept_def assms)

text \<open>The operations of a lock that neither add nor remove an origin.\<close>

fun membership_op :: "LockOp \<Rightarrow> bool" where
  "membership_op (OpRegister _ _ _) = True"
| "membership_op (OpUnregister _) = True"
| "membership_op _ = False"

lemma kept_apply: "\<not> membership_op opn \<Longrightarrow> heap_kept hp (with_lock c (lock_apply opn) hp)"
proof (rule kept_lock)
  fix l
  show "Lock.arbitration (lock_apply opn l) = Lock.arbitration l" by (rule arbitration_apply)
  assume "\<not> membership_op opn" "lock_inv l"
  then show "lock_inv (lock_apply opn l)" using lock_inv_step [OF lock_stepI, of l opn] by (cases opn) auto
  show "tag (lock_apply opn l) = tag l"
    using \<open>\<not> membership_op opn\<close> \<open>lock_inv l\<close>
    by (cases opn) (simp_all add: tag_acquire tag_steal tag_reclaim tag_simple tag_record_purge)
qed

lemma lock_ops:
  "record_purge i n = lock_apply (OpRecordPurge i n)" "(\<lambda>l. snd (acquire i l)) = lock_apply (OpAcquire i)"
  "(\<lambda>l. snd (steal i l)) = lock_apply (OpSteal i)" "(\<lambda>l. snd (lock_release i l)) = lock_apply (OpRelease i)"
  "(\<lambda>l. snd (renew i l)) = lock_apply (OpRenew i)"
  by (simp_all add: fun_eq_iff)

section \<open>\<open>connect\<close>\<close>

lemma nodes_same_links:
  assumes "nodes d = nodes c"
  shows "spec_at d = spec_at c" "link_of d = link_of c" "edge_ends d = edge_ends c"
    "effective_write_mode d = effective_write_mode c" "node_names d = node_names c"
proof -
  have same: "node_named d k = node_named c k" for k using assms by (simp add: node_named_def)
  show "spec_at d = spec_at c" by (simp add: fun_eq_iff spec_at_def same)
  show "link_of d = link_of c" "edge_ends d = edge_ends c" "effective_write_mode d = effective_write_mode c"
    using same_nodes_edge [OF same same] by auto
  show "node_names d = node_names c" using assms by (simp add: node_names_def)
qed

lemma after_attach_state:
  assumes "out_registered out = Some (c, i)"
  obtains hp where "heap_kept (gs_heap s) hp"
    "after_attach env t out s = s\<lparr>gs_heap := hp, gs_origin_locks := (if out_addressable out
       then hash_insert (EndpointAddr_display t) (c, i) (gs_origin_locks s) else gs_origin_locks s)\<rparr>"
proof -
  let ?s = "if out_addressable out then s\<lparr>gs_origin_locks := hash_insert (EndpointAddr_display t) (c, i) (gs_origin_locks s)\<rparr> else s"
  let ?p = "if out_granted out then purge_by_name env (addr_node t) ?s else 0"
  let ?hp = "wake_waiters c (if ?p > 0 then with_lock c (record_purge i ?p) (gs_heap s) else gs_heap s)"
  have "heap_kept (gs_heap s) ?hp"
    unfolding lock_ops by (intro heap_kept_trans [OF _ kept_wake]) (simp add: kept_apply)
  moreover have "after_attach env t out s = s\<lparr>gs_heap := ?hp, gs_origin_locks := (if out_addressable out
       then hash_insert (EndpointAddr_display t) (c, i) (gs_origin_locks s) else gs_origin_locks s)\<rparr>"
    using assms by (simp add: after_attach_def Let_def)
  ultimately show ?thesis by (rule that)
qed

text \<open>The heart of a connect: the attach, with the parts the maps give for a checked edge.\<close>

lemma attach_plumbed:
  assumes pb: "plumbed F ls s" and "plain F" and lim: "gs_next_edge_origin s < SEND_ORIGIN_BASE"
    and h: "faces Host F h" and t: "faces Target F t" "t \<notin> fst ` set ls"
    and q: "parts_target q = t" "parts_origin q = gs_next_edge_origin s" "parts_lock q = p_lock (sports s) h"
      "parts_host_targetward q = p_tx (sports s) h" "p_fan (sports s) h = Some (parts_fanout q)"
      "p_slot (sports s) t = Some (parts_slot q)" "p_counters (sports s) t = Some (parts_counters q)"
    and run: "attach_edge q m depth (gs_heap s) = (out, hp)" "\<not> out_inbox_full out"
  shows "plumbed F (ls @ [(t, h, m)]) (after_attach env t out (s\<lparr>gs_next_edge_origin := gs_next_edge_origin s + 1, gs_heap := hp\<rparr>))"
proof -
  let ?i = "gs_next_edge_origin s" and ?p = "sports s"
  let ?s = "s\<lparr>gs_next_edge_origin := ?i + 1, gs_heap := hp\<rparr>"
  note d = plumbedD [OF pb]
  have n: "unat (?i + 1) = Suc (unat ?i)" using lim by (simp add: word_less_nat_alt SEND_ORIGIN_BASE_def unat_word_ariths)
  obtain x where x: "p_lock ?p h = Some x" and reg: "out_registered out = Some (x, ?i)" "out_addressable out \<longleftrightarrow> m \<noteq> Never"
    and lk: "linked F (ls @ [(t, h, m)]) (Suc (unat ?i)) hp (?p\<lparr>p_origin := (p_origin ?p)(t := if m = Never then None else Some (x, ?i))\<rparr>)"
    using attach_linked [OF d(1) _ h t(1,2) q(1) _ q(3-7) run] lim q(2) by (auto simp: word_less_nat_alt)
  have slash: "CHR ''/'' \<notin> set (addr_node t)" using assms(2) t(1) by (auto simp: plain_def faces_def)
  have "hp_slots (gs_heap s) (parts_slot q) = unattached_edge"
    using linked_slot [OF d(1) q(6)] t(2) by (simp add: slot_ok_def map_of_eq_None_iff [symmetric])
  then have none: "p_origin ?p t = None"
    using linkedD(8) [OF d(1)] q(6) by (simp add: names_ok_def unattached_edge_def)
  let ?u = "?s\<lparr>gs_origin_locks := (if out_addressable out then hash_insert (EndpointAddr_display t) (x, ?i) (gs_origin_locks s) else gs_origin_locks s)\<rparr>"
  have ports: "sports ?u = ?p\<lparr>p_origin := (p_origin ?p)(t := if m = Never then None else Some (x, ?i))\<rparr>"
    using none slash by (auto simp: sports_def reg(2) named_insert fun_eq_iff)
  have "plumbed F (ls @ [(t, h, m)]) ?u"
    unfolding plumbed_def ports
  proof (intro conjI)
    show "linked F (ls @ [(t, h, m)]) (unat (gs_next_edge_origin ?u)) (gs_heap ?u)
        (?p\<lparr>p_origin := (p_origin ?p)(t := if m = Never then None else Some (x, ?i))\<rparr>)" using lk n by simp
    show "hubs_ok F (gs_heap ?u) (named (gs_tap_hubs ?u))"
      using d(2) attach_edge_effect(1,5) [OF run, of x] q(3) x by (auto simp: hubs_ok_def less_SucI)
    have "lock_inv (lock_at (gs_heap s) x)" using linkedD(4) [OF d(1)] x by (simp add: cells_ok_def)
    then have "ids_below (gs_next_send_origin s) hp ?p"
      using attach_ids [OF run _ d(3) x] q(2,3) x lim d(5) by (simp add: order_less_le_trans)
    then show "ids_below (gs_next_send_origin ?u) (gs_heap ?u) (?p\<lparr>p_origin := (p_origin ?p)(t := if m = Never then None else Some (x, ?i))\<rparr>)"
      by (simp add: ids_below_def)
    show "gs_next_edge_origin ?u \<le> SEND_ORIGIN_BASE" using lim n by (simp add: word_le_nat_alt word_less_nat_alt)
    show "SEND_ORIGIN_BASE \<le> gs_next_send_origin ?u" using d(5) by simp
    show "state_keys_ok ?u" using d(6) slash by (simp add: state_keys_ok_def keys_ok_insert)
  qed
  moreover obtain hp' where kept: "heap_kept (gs_heap ?s) hp'" and res: "after_attach env t out ?s = ?s\<lparr>gs_heap := hp',
      gs_origin_locks := (if out_addressable out then hash_insert (EndpointAddr_display t) (x, ?i) (gs_origin_locks ?s) else gs_origin_locks ?s)\<rparr>"
    by (rule after_attach_state [OF reg(1), of ?s env t])
  moreover have "heap_kept (gs_heap ?u) hp'" using kept by simp
  ultimately have "plumbed F (ls @ [(t, h, m)]) (?u\<lparr>gs_heap := hp'\<rparr>)" by (intro kept_plumbed)
  moreover have "after_attach env t out ?s = ?u\<lparr>gs_heap := hp'\<rparr>" unfolding res by simp
  ultimately show ?thesis by simp
qed

lemma hash_get_named: "CHR ''/'' \<notin> set (addr_node a) \<Longrightarrow> hash_get m (EndpointAddr_display a) = named m a"
  by (simp add: named_def)

lemma after_attach_frame [simp]:
  "gs_config (after_attach env t out s) = gs_config s" "gs_nodes (after_attach env t out s) = gs_nodes s"
  by (simp_all add: after_attach_def Let_def split: option.split prod.split)

text \<open>What a connect refused for a full inbox may touch: ids and handles never used again.\<close>

definition unspent :: "('attr, 're) GraphState \<Rightarrow> ('attr, 're) GraphState \<Rightarrow> bool" where
  "unspent s s' \<longleftrightarrow>
     (\<exists>hp. s' = s\<lparr>gs_next_edge_origin := gs_next_edge_origin s + 1, gs_heap := hp\<rparr> \<and>
        hp_next hp = Suc (hp_next (gs_heap s)) \<and> hp_cells hp = hp_cells (gs_heap s) \<and> hp_slots hp = hp_slots (gs_heap s) \<and>
        hp_fanouts hp = hp_fanouts (gs_heap s) \<and> hp_hubs hp = hp_hubs (gs_heap s))"

lemma unspent_wired:
  assumes w: "wired s" and lim: "gs_next_edge_origin s < SEND_ORIGIN_BASE" and "unspent s s'"
  shows "wired s'"
proof -
  obtain hp where s': "s' = s\<lparr>gs_next_edge_origin := gs_next_edge_origin s + 1, gs_heap := hp\<rparr>"
    and hp: "hp_next hp = Suc (hp_next (gs_heap s))" "hp_cells hp = hp_cells (gs_heap s)" "hp_slots hp = hp_slots (gs_heap s)"
      "hp_fanouts hp = hp_fanouts (gs_heap s)" "hp_hubs hp = hp_hubs (gs_heap s)"
    using assms(3) by (auto simp: unspent_def)
  let ?F = "spec_at (gs_config s)" and ?ls = "links (gs_config s)" and ?u = "s\<lparr>gs_heap := hp\<rparr>"
  have n: "unat (gs_next_edge_origin s + 1) = Suc (unat (gs_next_edge_origin s))"
    using lim by (simp add: word_less_nat_alt SEND_ORIGIN_BASE_def unat_word_ariths)
  have "heap_kept (gs_heap s) hp" using hp by (simp add: heap_kept_def)
  then have pb: "plumbed ?F ?ls ?u" by (rule kept_plumbed [OF wiredD(3) [OF w]])
  have lk: "linked ?F ?ls (unat (gs_next_edge_origin s + 1)) hp (sports ?u)"
    using linked_mono [OF plumbedD(1) [OF pb], of "Suc (unat (gs_next_edge_origin s))"] n by simp
  have "sports s' = sports ?u" by (simp add: s' sports_def)
  moreover have "gs_next_edge_origin s + 1 \<le> SEND_ORIGIN_BASE" using lim n by (simp add: word_le_nat_alt word_less_nat_alt)
  ultimately have "plumbed ?F ?ls s'"
    using pb lk unfolding plumbed_def by (simp add: s' state_keys_ok_def)
  then show ?thesis using wiredD(1,2) [OF w] by (simp add: wired_def s')
qed

abbreviation with_edge :: "'attr GraphConfig \<Rightarrow> EdgeConfig \<Rightarrow> 'attr GraphConfig" where
  "with_edge c e \<equiv> c\<lparr>cfg_edges := cfg_edges c @ [e]\<rparr>"

lemma connected_links:
  assumes d: "config_valid (with_edge c e)"
  obtains h t where "edge_ends (with_edge c e) e = Some (h, t)" "faces Host (spec_at c) h" "faces Target (spec_at c) t"
    "t \<notin> fst ` set (links c)" "links (with_edge c e) = links c @ [(t, h, effective_write_mode (with_edge c e) e)]"
    "spec_at (with_edge c e) = spec_at c"
proof -
  note same = nodes_same_links [of "with_edge c e" c, simplified]
  obtain h t where ends: "edge_ends (with_edge c e) e = Some (h, t)" using valid_ends(1) [OF d] by auto
  then have f: "faces Host (spec_at c) h \<and> faces Target (spec_at c) t"
    using plan_ends_faces [of "spec_at c" e h t] by (simp add: plan_ends_config same(3))
  have "distinct (map (\<lambda>x. snd (the (edge_ends c x))) (cfg_edges c @ [e]))" using valid_ends(2) [OF d] by (simp add: same(3))
  then have "t \<notin> fst ` set (links c)" using ends by (auto simp: links_def link_of_def same(3))
  moreover have "links (with_edge c e) = links c @ [(t, h, effective_write_mode (with_edge c e) e)]"
    using ends by (simp add: links_def same(2,3,4) link_of_def)
  ultimately show ?thesis using that ends f same(1) by blast
qed

lemma connect_run:
  assumes w: "wired s" and env: "env_ok env" and d: "config_valid (with_edge (gs_config s) e)"
    and ends: "edge_ends (with_edge (gs_config s) e) e = Some (h, t)"
    and faces: "faces Host (spec_at (gs_config s)) h" "faces Target (spec_at (gs_config s)) t"
  obtains q out hp where "parts_target q = t" "parts_origin q = gs_next_edge_origin s" "parts_lock q = p_lock (sports s) h"
    "parts_host_targetward q = p_tx (sports s) h" "p_fan (sports s) h = Some (parts_fanout q)" "p_slot (sports s) t = Some (parts_slot q)"
      "p_counters (sports s) t = Some (parts_counters q)"
    "attach_edge q (effective_write_mode (with_edge (gs_config s) e) e) (hostward_depth (with_edge (gs_config s) e) (addr_node h)) (gs_heap s) = (out, hp)"
    "connect env e s =
       (if out_inbox_full out
        then (Inl (EdgeInboxFull (EndpointAddr_display t)), s\<lparr>gs_next_edge_origin := gs_next_edge_origin s + 1, gs_heap := hp\<rparr>)
        else (Inr (Connected (EndpointAddr_display h) (EndpointAddr_display t)
                (write_mode_display (effective_write_mode (with_edge (gs_config s) e) e)) (out_consumer_live out)),
          (let u = after_attach env t out (s\<lparr>gs_next_edge_origin := gs_next_edge_origin s + 1, gs_heap := hp\<rparr>)
           in u\<lparr>gs_nodes := update_first (\<lambda>n. nd_name n = addr_node t) (set_upstream_attached env t True) (gs_nodes s),
                gs_config := with_edge (gs_config s) e\<rparr>)))"
proof -
  let ?d = "with_edge (gs_config s) e" and ?p = "sports s"
  let ?m = "effective_write_mode ?d e" and ?depth = "hostward_depth ?d (addr_node h)"
  note lk = plumbedD(1) [OF wiredD(3) [OF w]]
  note c = completeD [OF linkedD(2) [OF lk]]
  have slash: "CHR ''/'' \<notin> set (addr_node h)" "CHR ''/'' \<notin> set (addr_node t)"
    using wiredD(4) [OF w] faces by (auto simp: plain_def faces_def)
  obtain f b k y where ports: "p_fan ?p h = Some f" "p_inbox ?p t = Some b" "p_counters ?p t = Some k" "p_slot ?p t = Some y"
    using c(3) [OF faces(1)] c(4,5,6) [OF faces(2)] by auto
  then have look: "hash_get (gs_host_fanout s) (EndpointAddr_display h) = Some f"
    "hash_get (gs_target_inbox s) (EndpointAddr_display t) = Some b" "hash_get (gs_target_counters s) (EndpointAddr_display t) = Some k"
    "hash_get (gs_target_edges s) (EndpointAddr_display t) = Some y"
    using slash by (simp_all add: sports_def hash_get_named)
  have more: "hash_get (gs_endpoint_locks s) (EndpointAddr_display h) = p_lock ?p h"
    "hash_get (gs_endpoint_targetward s) (EndpointAddr_display h) = p_tx ?p h"
    using slash by (simp_all add: sports_def hash_get_named)
  define q where "q = \<lparr>parts_target = t, parts_origin = gs_next_edge_origin s, parts_lock = p_lock ?p h,
    parts_host_targetward = p_tx ?p h, parts_fanout = f, parts_inbox = b, parts_slot = y, parts_counters = k\<rparr>"
  obtain out hp where at: "attach_edge q ?m ?depth (gs_heap s) = (out, hp)" by (cases "attach_edge q ?m ?depth (gs_heap s)")
  have "structural_check env ?d = Inr ()" using d structural_valid [OF env] by simp
  then show ?thesis
    by (intro that [of q out hp]) (use ports look more at ends in \<open>simp_all add: connect_def q_def Let_def\<close>)
qed

lemma connect_result:
  assumes w: "wired s" and env: "env_ok env" and lim: "gs_next_edge_origin s < SEND_ORIGIN_BASE" and run: "connect env e s = (r, s')"
  shows "wired s'" "\<And>err. r = Inl err \<Longrightarrow> s' = s \<or> (\<exists>t. err = EdgeInboxFull t) \<and> unspent s s'"
    "\<And>a. r = Inr a \<Longrightarrow> gs_config s' = with_edge (gs_config s) e"
proof -
  let ?d = "with_edge (gs_config s) e"
  let ?goal = "wired s' \<and> (\<forall>err. r = Inl err \<longrightarrow> s' = s \<or> (\<exists>t. err = EdgeInboxFull t) \<and> unspent s s') \<and>
    (\<forall>a. r = Inr a \<longrightarrow> gs_config s' = ?d)"
  have ?goal
  proof (cases "config_valid ?d")
    case False
    then obtain err where "structural_check env ?d = Inl err"
      using structural_valid [OF env, of ?d] by (cases "structural_check env ?d") auto
    then have "s' = s" "\<exists>err. r = Inl err" using run by (auto simp: connect_def)
    then show ?thesis using w by auto
  next
    case True
    obtain h t where ends: "edge_ends ?d e = Some (h, t)" and faces: "faces Host (spec_at (gs_config s)) h" "faces Target (spec_at (gs_config s)) t"
      and new: "t \<notin> fst ` set (links (gs_config s))"
      and links: "links ?d = links (gs_config s) @ [(t, h, effective_write_mode ?d e)]" "spec_at ?d = spec_at (gs_config s)"
      by (rule connected_links [OF True])
    obtain q out hp where q: "parts_target q = t" "parts_origin q = gs_next_edge_origin s" "parts_lock q = p_lock (sports s) h"
      "parts_host_targetward q = p_tx (sports s) h" "p_fan (sports s) h = Some (parts_fanout q)" "p_slot (sports s) t = Some (parts_slot q)"
      "p_counters (sports s) t = Some (parts_counters q)"
      and at: "attach_edge q (effective_write_mode ?d e) (hostward_depth ?d (addr_node h)) (gs_heap s) = (out, hp)"
      and conn: "connect env e s =
       (if out_inbox_full out
        then (Inl (EdgeInboxFull (EndpointAddr_display t)), s\<lparr>gs_next_edge_origin := gs_next_edge_origin s + 1, gs_heap := hp\<rparr>)
        else (Inr (Connected (EndpointAddr_display h) (EndpointAddr_display t)
                (write_mode_display (effective_write_mode ?d e)) (out_consumer_live out)),
          (let u = after_attach env t out (s\<lparr>gs_next_edge_origin := gs_next_edge_origin s + 1, gs_heap := hp\<rparr>)
           in u\<lparr>gs_nodes := update_first (\<lambda>n. nd_name n = addr_node t) (set_upstream_attached env t True) (gs_nodes s),
                gs_config := ?d\<rparr>)))"
      by (rule connect_run [OF w env True ends faces])
    show ?thesis
    proof (cases "out_inbox_full out")
      case full: True
      then have s': "s' = s\<lparr>gs_next_edge_origin := gs_next_edge_origin s + 1, gs_heap := hp\<rparr>" "r = Inl (EdgeInboxFull (EndpointAddr_display t))"
        using run conn by simp_all
      then have "unspent s s'" using attach_edge_full [OF at full] by (auto simp: unspent_def)
      then show ?thesis using s' unspent_wired [OF w lim] by auto
    next
      case False
      note pb = attach_plumbed [OF wiredD(3,4) [OF w] lim faces new q at False, of env]
      have "map nd_config (update_first P (set_upstream_attached env t True) (gs_nodes s)) = nodes (gs_config s)" for P
        using update_first_map [of nd_config "set_upstream_attached env t True"] wiredD(2) [OF w] by simp
      then show ?thesis using run conn False pb True links by (auto simp: wired_def Let_def)
    qed
  qed
  then show "wired s'" "\<And>err. r = Inl err \<Longrightarrow> s' = s \<or> (\<exists>t. err = EdgeInboxFull t) \<and> unspent s s'"
    "\<And>a. r = Inr a \<Longrightarrow> gs_config s' = ?d" by auto
qed

section \<open>\<open>disconnect\<close>\<close>

lemma detach_plumbed:
  assumes pb: "plumbed F ls s" and "plain F" and link: "map_of ls t = Some (h, m)"
    and run: "detach_edge_runtime env (EndpointAddr_display h) (EndpointAddr_display t) s = (res, s')"
  shows "plumbed F (filter (\<lambda>l. fst l \<noteq> t) ls) s'" "gs_config s' = gs_config s" "map nd_config (gs_nodes s') = map nd_config (gs_nodes s)"
proof -
  note d = plumbedD [OF pb]
  have faces: "faces Host F h" "faces Target F t"
    using linkedD(1) [OF d(1)] map_of_SomeD [OF link] by (auto simp: links_ok_def list_all_iff)
  have slash: "CHR ''/'' \<notin> set (addr_node h)" "CHR ''/'' \<notin> set (addr_node t)"
    using assms(2) faces by (auto simp: plain_def faces_def)
  obtain f y where ports: "p_fan (sports s) h = Some f" "p_slot (sports s) t = Some y"
    using completeD(3,6) [OF linkedD(2) [OF d(1)]] faces by blast
  then have look: "hash_get (gs_host_fanout s) (EndpointAddr_display h) = Some f" "hash_get (gs_target_edges s) (EndpointAddr_display t) = Some y"
    using slash by (simp_all add: sports_def hash_get_named)
  obtain rel hp where dh: "detach_heap t (Some f) (Some y) (gs_heap s) = (rel, hp)" by (cases "detach_heap t (Some f) (Some y) (gs_heap s)")
  let ?u = "s\<lparr>gs_heap := hp, gs_origin_locks := hash_remove (EndpointAddr_display t) (gs_origin_locks s)\<rparr>"
  have s': "s' = ?u\<lparr>gs_nodes := update_first (\<lambda>n. nd_name n = addr_node t) (set_upstream_attached env t False) (gs_nodes s)\<rparr>"
    using run look dh by (auto simp: detach_edge_runtime_def Let_def endpoint_addr_round_trip [OF slash(2)])
  obtain x i where e: "edge_registered (hp_slots (gs_heap s) y) = Some (x, i)"
    using linked_slot [OF d(1) ports(2)] link by (auto simp: slot_ok_def)
  note eff = detach_heap_effect [OF dh e]
  have p: "sports ?u = (sports s)\<lparr>p_origin := (p_origin (sports s))(t := None)\<rparr>"
    using slash by (simp add: sports_def named_remove)
  have "ids_below (gs_next_send_origin s) hp (sports s)"
    using d(3) by (auto simp: ids_below_def eff(2) tag_unregister split: if_splits)
  moreover have "hubs_ok F hp (named (gs_tap_hubs s))" using d(2) eff(1,5) by (simp add: hubs_ok_def)
  moreover have "state_keys_ok ?u" using d(6) by (simp add: state_keys_ok_def keys_ok_remove)
  ultimately have "plumbed F (filter (\<lambda>l. fst l \<noteq> t) ls) ?u"
    using detach_linked [OF d(1) assms(2) link ports dh] pb unfolding plumbed_def p by (simp add: ids_below_def)
  then show "plumbed F (filter (\<lambda>l. fst l \<noteq> t) ls) s'" by (simp add: s')
  show "gs_config s' = gs_config s" "map nd_config (gs_nodes s') = map nd_config (gs_nodes s)"
    by (simp_all add: s' update_first_map)
qed

lemma remove_at_subseq: "subseq (remove_at i xs) xs"
proof (induction xs arbitrary: i)
  case (Cons x xs)
  then show ?case by (cases i) (auto simp: remove_at_def)
qed (simp add: remove_at_def)

lemma remove_at_filter:
  assumes "distinct (map f xs)" "i < length xs"
  shows "filter (\<lambda>x. f x \<noteq> f (xs ! i)) xs = remove_at i xs"
  using assms
proof (induction xs arbitrary: i)
  case (Cons x xs)
  then show ?case
  proof (cases i)
    case 0
    then show ?thesis using Cons.prems by (auto simp: remove_at_def filter_id_conv rev_image_eqI)
  next
    case (Suc j)
    then have "f x \<noteq> f (xs ! j)" using Cons.prems by (auto simp: image_iff)
    then show ?thesis using Suc Cons by (simp add: remove_at_def)
  qed
qed simp

lemma remove_at_map: "map f (remove_at i xs) = remove_at i (map f xs)"
  by (simp add: remove_at_def take_map drop_map)

lemma links_map_of:
  assumes "config_valid c" "e \<in> set (cfg_edges c)" "edge_ends c e = Some (h, t)"
  shows "map_of (links c) t = Some (h, effective_write_mode c e)"
proof -
  have "distinct (map fst (links c))" using valid_ends(2) [OF assms(1)] by (simp add: links_def link_of_def comp_def)
  moreover have "(t, h, effective_write_mode c e) \<in> set (links c)" using assms(2,3) by (force simp: links_def link_of_def)
  ultimately show ?thesis by (rule map_of_is_SomeI)
qed

lemma disconnect_result:
  assumes w: "wired s" and run: "disconnect env e s = (r, s')"
  shows "wired s'" "\<And>err. r = Inl err \<Longrightarrow> s' = s"
proof -
  let ?c = "gs_config s"
  have "wired s' \<and> (\<forall>err. r = Inl err \<longrightarrow> s' = s)"
  proof (cases "position (\<lambda>x. same_edge x e) (cfg_edges ?c)")
    case None
    then show ?thesis using w run by (auto simp: disconnect_def)
  next
    case (Some i)
    then have i: "i < length (cfg_edges ?c)" by (simp add: position_SomeD)
    note c = wiredD(1) [OF w]
    have mem: "cfg_edges ?c ! i \<in> set (cfg_edges ?c)" using i by simp
    then obtain h t where ends: "edge_ends ?c (cfg_edges ?c ! i) = Some (h, t)" using valid_ends(1) [OF c] by fastforce
    obtain res u where d: "detach_edge_runtime env (EndpointAddr_display h) (EndpointAddr_display t) s = (res, u)"
      by (cases "detach_edge_runtime env (EndpointAddr_display h) (EndpointAddr_display t) s")
    let ?d = "?c\<lparr>cfg_edges := remove_at i (cfg_edges ?c)\<rparr>"
    have s': "s' = u\<lparr>gs_config := ?d\<rparr>" "\<exists>a. r = Inr a" using run Some ends d by (auto simp: disconnect_def Let_def split: prod.splits)
    note det = detach_plumbed [OF wiredD(3,4) [OF w] links_map_of [OF c mem ends] d]
    have valid: "config_valid ?d" and links: "links ?d = map (link_of ?c) (remove_at i (cfg_edges ?c))"
      using valid_sub [OF c, of ?d] remove_at_subseq [of i "cfg_edges ?c"] by (simp_all add: node_named_def)
    have "distinct (map fst (links ?c))" using linkedD(1) [OF plumbedD(1) [OF wiredD(3) [OF w]]] by (simp add: links_ok_def)
    then have "filter (\<lambda>l. fst l \<noteq> fst (links ?c ! i)) (links ?c) = remove_at i (links ?c)"
      using i by (intro remove_at_filter) (simp_all add: links_def)
    then have "filter (\<lambda>l. fst l \<noteq> t) (links ?c) = links ?d"
      using i ends by (simp add: links remove_at_map) (simp add: links_def link_of_def)
    moreover have "spec_at ?d = spec_at ?c" by (rule nodes_same_links) simp
    ultimately show ?thesis using det valid s' wiredD(2) [OF w] by (auto simp: wired_def)
  qed
  then show "wired s'" "\<And>err. r = Inl err \<Longrightarrow> s' = s" by auto
qed

end
