(* ===== verification/Graph_Removal.thy ===== *)
theory Graph_Removal
  imports Graph_Surgery
begin

text \<open>
  \<open>remove-node\<close>: the edges at the node are undone first; what remains is the wiring with the node's endpoints
  cut out, and the locks of those endpoints are closed.
\<close>

section \<open>Cutting endpoints no link reaches\<close>

definition restrict_ports :: "EndpointAddr set \<Rightarrow> ports \<Rightarrow> ports" where
  "restrict_ports A p =
     \<lparr>p_lock = p_lock p |` A, p_tx = p_tx p |` A, p_fan = p_fan p |` A, p_inbox = p_inbox p |` A,
      p_counters = p_counters p |` A, p_slot = p_slot p |` A, p_origin = p_origin p |` A\<rparr>"

lemma faces_restrict: "faces f (F |` A) a \<longleftrightarrow> a \<in> A \<and> faces f F a"
  by (auto simp: faces_def restrict_map_def)

lemma restrict_known: "(m |` A) a \<noteq> None \<longleftrightarrow> a \<in> A \<and> m a \<noteq> None" "(\<exists>y. (m |` A) a = Some y) \<longleftrightarrow> a \<in> A \<and> m a \<noteq> None"
  by (auto simp: restrict_map_def)

lemma restrict_Some: "(m |` A) a = Some x \<longleftrightarrow> a \<in> A \<and> m a = Some x"
  by (auto simp: restrict_map_def)

lemma inj_map_restrict: "inj_map m \<Longrightarrow> inj_map (m |` A)"
  unfolding inj_map_def by (metis restrict_in restrict_out option.distinct(1))

lemma own_restrict: "own n m \<Longrightarrow> own n (m |` A)"
  by (auto simp: own_def inj_map_restrict restrict_Some)

lemma linked_restrict:
  assumes lk: "linked F ls n hp p" and in_A: "\<And>t h m. (t, h, m) \<in> set ls \<Longrightarrow> t \<in> A \<and> h \<in> A"
  shows "linked (F |` A) ls n hp (restrict_ports A p)"
proof (rule linkedI)
  show "links_ok (F |` A) ls"
    using linkedD(1) [OF lk] in_A by (fastforce simp: links_ok_def list_all_iff faces_restrict)
  show "complete (F |` A) (restrict_ports A p)"
    using linkedD(2) [OF lk] by (simp add: complete_def restrict_ports_def faces_restrict restrict_known)
  show "separate (hp_next hp) (restrict_ports A p)"
    using linkedD(3) [OF lk] by (simp add: separate_def restrict_ports_def own_restrict)
  show "sinks_ok hp (restrict_ports A p)"
    unfolding sinks_ok_def
  proof (intro allI impI, goal_cases)
    case (1 a f s)
    then have f: "p_fan p a = Some f" by (simp add: restrict_ports_def restrict_Some)
    have "sink_target s \<in> fst ` set ls"
      using linkedD(5) [OF lk] f 1(2) unfolding fans_ok_def by (metis (no_types, lifting) filter_is_subset image_eqI image_mono list.set_map subsetD)
    then have "sink_target s \<in> A" using in_A by fastforce
    with sinks_okD [OF linkedD(9) [OF lk] f 1(2)] show ?case by (simp add: restrict_ports_def restrict_Some) blast
  qed
  show "cells_ok (F |` A) hp (restrict_ports A p)"
    using linkedD(4) [OF lk] by (auto simp: cells_ok_def restrict_ports_def restrict_map_def split: if_splits)
  show "fans_ok ls hp (restrict_ports A p)"
    using linkedD(5) [OF lk] by (auto simp: fans_ok_def restrict_ports_def restrict_map_def split: if_splits)
  show "names_ok hp (restrict_ports A p)"
    using linkedD(8) [OF lk] by (auto simp: names_ok_def restrict_ports_def restrict_map_def)
  show "slots_ok ls n hp (restrict_ports A p)"
    unfolding slots_ok_def
  proof (intro allI impI)
    fix t x assume "p_slot (restrict_ports A p) t = Some x"
    then have "p_slot p t = Some x" by (auto simp: restrict_ports_def restrict_map_def split: if_splits)
    note ok = linked_slot [OF lk this]
    show "slot_ok ls n hp (restrict_ports A p) t (hp_slots hp x)"
    proof (cases "map_of ls t")
      case None
      then show ?thesis using ok by (simp add: slot_ok_def)
    next
      case (Some hm)
      obtain h m where hm: "hm = (h, m)" by (cases hm)
      then have "h \<in> A" using in_A map_of_SomeD [OF Some] by blast
      then show ?thesis using ok Some hm by (auto simp: slot_ok_def restrict_ports_def)
    qed
  qed
  show "origins_ok hp (restrict_ports A p)"
    unfolding origins_ok_def
  proof (intro allI impI)
    fix a x i assume "p_lock (restrict_ports A p) a = Some x" and i: "tag (lock_at hp x) i \<noteq> None" "i < SEND_ORIGIN_BASE"
    then have "p_lock p a = Some x" by (auto simp: restrict_ports_def restrict_map_def split: if_splits)
    with linkedD(7) [OF lk] i obtain t y where y: "p_slot p t = Some y" "edge_registered (hp_slots hp y) = Some (x, i)"
      unfolding origins_ok_def by blast
    then obtain h m where "map_of ls t = Some (h, m)" using registered_link [OF lk] by metis
    then have "t \<in> A" using in_A map_of_SomeD by fast
    then show "\<exists>t y. p_slot (restrict_ports A p) t = Some y \<and> edge_registered (hp_slots hp y) = Some (x, i)"
      using y by (auto simp: restrict_ports_def restrict_Some)
  qed
qed

section \<open>The cascade\<close>

lemma cascade_plumbed:
  assumes "plumbed F ls s" "plain F" "distinct (map snd hts)" "\<forall>(h, t) \<in> set hts. \<exists>m. map_of ls t = Some (h, m)"
    and "cascade_edges env (map (\<lambda>(h, t). (EndpointAddr_display h, EndpointAddr_display t)) hts) acc s = (res, s')"
  shows "plumbed F (filter (\<lambda>l. fst l \<notin> snd ` set hts) ls) s' \<and> gs_config s' = gs_config s \<and>
    map nd_config (gs_nodes s') = map nd_config (gs_nodes s)"
  using assms
proof (induction hts arbitrary: ls s acc)
  case Nil
  then show ?case by simp
next
  case (Cons ht hts)
  obtain h t where ht: "ht = (h, t)" by (cases ht)
  obtain r u where d: "detach_edge_runtime env (EndpointAddr_display h) (EndpointAddr_display t) s = (r, u)"
    by (cases "detach_edge_runtime env (EndpointAddr_display h) (EndpointAddr_display t) s")
  obtain m where "map_of ls t = Some (h, m)" using Cons.prems(4) ht by auto
  note step = detach_plumbed [OF Cons.prems(1,2) this d]
  have rest: "\<forall>(h', t') \<in> set hts. \<exists>m. map_of (filter (\<lambda>l. fst l \<noteq> t) ls) t' = Some (h', m)"
  proof clarify
    fix h' t' assume mem: "(h', t') \<in> set hts"
    then have "t' \<noteq> t" using Cons.prems(3) ht by (auto simp: rev_image_eqI)
    then show "\<exists>m. map_of (filter (\<lambda>l. fst l \<noteq> t) ls) t' = Some (h', m)"
      using Cons.prems(4) mem by (auto simp: map_of_filter_fst)
  qed
  have dist: "distinct (map snd hts)" using Cons.prems(3) by simp
  obtain rel pur where r: "r = (rel, pur)" by (cases r)
  obtain lc bs where acc: "acc = (lc, bs)" by (cases acc)
  have run: "cascade_edges env (map (\<lambda>(h, t). (EndpointAddr_display h, EndpointAddr_display t)) hts)
      (lc + (if rel then 1 else 0), saturating_add bs pur) u = (res, s')"
    using Cons.prems(5) d r acc by (simp add: ht)
  have "filter (\<lambda>l. fst l \<notin> snd ` set hts) (filter (\<lambda>l. fst l \<noteq> t) ls) = filter (\<lambda>l. fst l \<notin> snd ` set (ht # hts)) ls"
    by (auto simp: ht intro!: filter_cong)
  then show ?case using Cons.IH [OF step(1) Cons.prems(2) dist rest run] step(2,3) by simp
qed

lemma detach_locks: "gs_endpoint_locks (snd (detach_edge_runtime env h t s)) = gs_endpoint_locks s"
  by (simp add: detach_edge_runtime_def Let_def split: prod.split)

lemma cascade_locks: "cascade_edges env hts acc s = (res, s') \<Longrightarrow> gs_endpoint_locks s' = gs_endpoint_locks s"
proof (induction hts arbitrary: acc s)
  case (Cons ht hts)
  obtain h t where ht: "ht = (h, t)" by (cases ht)
  obtain rel pur u where d: "detach_edge_runtime env h t s = ((rel, pur), u)" by (metis surj_pair)
  then have "gs_endpoint_locks u = gs_endpoint_locks s" using detach_locks [of env h t s] by simp
  then show ?case using Cons ht d by (cases acc) simp
qed simp

text \<open>Undoing edges can wake waiters and takes no wake back.\<close>

lemma detach_wakes:
  assumes "detach_edge_runtime env h t s = (res, s')"
  shows "lc_wakes (hp_cells (gs_heap s) c) \<le> lc_wakes (hp_cells (gs_heap s') c)"
  using assms
  by (auto simp: detach_edge_runtime_def detach_heap_def fanout_detach_def with_slot_def with_lock_def wake_waiters_def Let_def
      split: option.splits prod.splits)

lemma cascade_wakes:
  "cascade_edges env hts acc s = (res, s') \<Longrightarrow> lc_wakes (hp_cells (gs_heap s) c) \<le> lc_wakes (hp_cells (gs_heap s') c)"
proof (induction hts arbitrary: acc s)
  case (Cons ht hts)
  obtain h t where ht: "ht = (h, t)" by (cases ht)
  obtain rel pur u where d: "detach_edge_runtime env h t s = ((rel, pur), u)" by (metis surj_pair)
  have "lc_wakes (hp_cells (gs_heap u) c) \<le> lc_wakes (hp_cells (gs_heap s') c)"
    using Cons ht d by (cases acc) simp
  with detach_wakes [OF d, of c] show ?case by simp
qed simp

section \<open>Removing keys\<close>

lemma restrict_remove: "(m :: 'a \<Rightarrow> 'b option)(a := None) |` A = m |` (A - {a})"
  by (auto simp: restrict_map_def)

lemma named_removes:
  assumes "\<forall>a \<in> set addrs. CHR ''/'' \<notin> set (addr_node a)"
  shows "named (fold hash_remove (map EndpointAddr_display addrs) m) = named m |` (- set addrs)"
    "keys_ok m \<Longrightarrow> keys_ok (fold hash_remove (map EndpointAddr_display addrs) m)"
proof -
  show "named (fold hash_remove (map EndpointAddr_display addrs) m) = named m |` (- set addrs)"
    using assms
  proof (induction addrs arbitrary: m)
    case (Cons a addrs)
    have "named (fold hash_remove (map EndpointAddr_display (a # addrs)) m) = (named m)(a := None) |` (- set addrs)"
      using Cons by (simp add: named_remove)
    then show ?case by (auto simp: fun_eq_iff restrict_map_def)
  qed (simp add: restrict_map_def fun_eq_iff)
  show "keys_ok m \<Longrightarrow> keys_ok (fold hash_remove (map EndpointAddr_display addrs) m)"
    by (induction addrs arbitrary: m) (auto simp: keys_ok_remove)
qed

lemma forget_fold:
  "forget_endpoints eps s =
     s\<lparr>gs_host_fanout := fold hash_remove eps (gs_host_fanout s), gs_target_inbox := fold hash_remove eps (gs_target_inbox s),
       gs_target_counters := fold hash_remove eps (gs_target_counters s), gs_target_edges := fold hash_remove eps (gs_target_edges s)\<rparr>"
  by (induction eps arbitrary: s) (simp_all add: forget_endpoints_def)

lemma hash_get_absent: "hash_get m k = None \<Longrightarrow> hash_remove k m = m"
  by (auto simp: hash_remove_def hash_get_fun map_of_eq_None_iff filter_id_conv rev_image_eqI)

definition locks_of :: "string list \<Rightarrow> ('attr, 're) GraphState \<Rightarrow> handle set" where
  "locks_of ds s = {c. \<exists>k \<in> set ds. hash_get (gs_endpoint_locks s) k = Some c}"

lemma drop_one:
  assumes "hash_get (gs_origin_locks s) k = None" "drop_endpoint k (rm, s) = (rm1, s1)"
  shows "s1 = s\<lparr>gs_endpoint_locks := hash_remove k (gs_endpoint_locks s), gs_endpoint_targetward := hash_remove k (gs_endpoint_targetward s),
       gs_heap := (case hash_get (gs_endpoint_locks s) k of Some c \<Rightarrow> close_cell c (gs_heap s) | None \<Rightarrow> gs_heap s)\<rparr>"
    "set rm1 = set rm \<union> set_option (hash_get (gs_endpoint_locks s) k)"
  using assms by (auto simp: drop_endpoint_def hash_get_absent split: option.splits)

lemma locks_of_Cons:
  assumes "gs_endpoint_locks s1 = hash_remove k (gs_endpoint_locks s)"
  shows "locks_of (k # ds) s = set_option (hash_get (gs_endpoint_locks s) k) \<union> locks_of ds s1"
  by (auto simp: locks_of_def assms hash_get_remove split: if_splits)

text \<open>A cell that was closed and whose waiters were woken to see it.\<close>

definition torn_down :: "LockCell \<Rightarrow> LockCell \<Rightarrow> bool" where
  "torn_down x y \<longleftrightarrow> lc_closed y \<and> lc_wakes x < lc_wakes y"

text \<open>What the loop over the departing endpoints does: their locks leave the map, closed, and their waiters are woken.\<close>

definition dropped :: "string list \<Rightarrow> ('attr, 're) GraphState \<Rightarrow> handle list \<Rightarrow> ('attr, 're) GraphState \<Rightarrow> bool" where
  "dropped ds s rm s' \<longleftrightarrow>
     (\<exists>hp. s' = s\<lparr>gs_endpoint_locks := fold hash_remove ds (gs_endpoint_locks s),
                   gs_endpoint_targetward := fold hash_remove ds (gs_endpoint_targetward s), gs_heap := hp\<rparr> \<and>
        set rm = locks_of ds s \<and> hp_next hp = hp_next (gs_heap s) \<and> hp_slots hp = hp_slots (gs_heap s) \<and>
        hp_fanouts hp = hp_fanouts (gs_heap s) \<and> hp_hubs hp = hp_hubs (gs_heap s) \<and>
        (\<forall>c. if c \<in> locks_of ds s then torn_down (hp_cells (gs_heap s) c) (hp_cells hp c) else hp_cells hp c = hp_cells (gs_heap s) c))"

lemma drop_endpoints:
  assumes "\<forall>k \<in> set ds. hash_get (gs_origin_locks s) k = None" and "fold drop_endpoint ds (rm, s) = (rm', s')"
  shows "\<exists>rm2. set rm' = set rm \<union> set rm2 \<and> dropped ds s rm2 s'"
  using assms
proof (induction ds arbitrary: rm s)
  case Nil
  then show ?case by (auto simp: dropped_def locks_of_def intro!: exI [of _ "[]"] exI [of _ "gs_heap s"])
next
  case (Cons k ds)
  obtain rm1 s1 where step: "drop_endpoint k (rm, s) = (rm1, s1)" by (cases "drop_endpoint k (rm, s)")
  have none: "hash_get (gs_origin_locks s) k = None" using Cons.prems(1) by simp
  note eff = drop_one [OF none step]
  have "fold drop_endpoint ds (rm1, s1) = (rm', s')" "\<forall>k \<in> set ds. hash_get (gs_origin_locks s1) k = None"
    using Cons.prems step by (simp_all add: eff(1))
  from Cons.IH [OF this(2,1)] obtain rm2 where rm2: "set rm' = set rm1 \<union> set rm2" "dropped ds s1 rm2 s'" by blast
  have locks: "locks_of (k # ds) s = set_option (hash_get (gs_endpoint_locks s) k) \<union> locks_of ds s1"
    by (rule locks_of_Cons) (simp add: eff(1))
  obtain rm3 where rm3: "set rm3 = locks_of (k # ds) s" "set rm' = set rm \<union> set rm3"
    using rm2 eff(2) locks by (intro that [of "(case hash_get (gs_endpoint_locks s) k of Some c \<Rightarrow> [c] | None \<Rightarrow> []) @ rm2"])
      (auto simp: dropped_def split: option.splits)
  moreover have "dropped (k # ds) s rm3 s'"
  proof -
    obtain hp where hp: "s' = s1\<lparr>gs_endpoint_locks := fold hash_remove ds (gs_endpoint_locks s1),
        gs_endpoint_targetward := fold hash_remove ds (gs_endpoint_targetward s1), gs_heap := hp\<rparr>"
      "hp_next hp = hp_next (gs_heap s1)" "hp_slots hp = hp_slots (gs_heap s1)"
      "hp_fanouts hp = hp_fanouts (gs_heap s1)" "hp_hubs hp = hp_hubs (gs_heap s1)"
      and cells: "\<And>c. if c \<in> locks_of ds s1 then torn_down (hp_cells (gs_heap s1) c) (hp_cells hp c) else hp_cells hp c = hp_cells (gs_heap s1) c"
      using rm2(2) unfolding dropped_def by blast
    have heap: "hp_next (gs_heap s1) = hp_next (gs_heap s)" "hp_slots (gs_heap s1) = hp_slots (gs_heap s)"
      "hp_fanouts (gs_heap s1) = hp_fanouts (gs_heap s)" "hp_hubs (gs_heap s1) = hp_hubs (gs_heap s)"
      by (simp_all add: eff(1) close_cell_def wake_waiters_def split: option.split)
    have first: "if c \<in> set_option (hash_get (gs_endpoint_locks s) k) then torn_down (hp_cells (gs_heap s) c) (hp_cells (gs_heap s1) c)
        else hp_cells (gs_heap s1) c = hp_cells (gs_heap s) c" for c
      by (auto simp: eff(1) close_cell_def wake_waiters_def torn_down_def split: option.split)
    have "if c \<in> locks_of (k # ds) s then torn_down (hp_cells (gs_heap s) c) (hp_cells hp c)
        else hp_cells hp c = hp_cells (gs_heap s) c" for c
      using cells [of c] first [of c] unfolding locks by (simp add: torn_down_def split: if_splits)
    then show ?thesis
      unfolding dropped_def by (intro exI [of _ hp]) (use hp heap rm3(1) in \<open>simp add: eff(1)\<close>)
  qed
  ultimately show ?case by blast
qed

section \<open>Cutting a node out\<close>

lemma hash_get_filter: "hash_get (filter (\<lambda>(k, h). P k) m) k = (if P k then hash_get m k else None)"
  by (induction m) (auto simp: hash_get_fun)

lemma keys_ok_filter: "keys_ok m \<Longrightarrow> keys_ok (filter (\<lambda>(k, h). P k) m)"
  by (auto simp: keys_ok_def hash_get_filter hash_ok_def distinct_map_filter split: if_splits)

lemma detach_hubs_ok:
  assumes hubs: "hubs_ok F (gs_heap s) (named (gs_tap_hubs s))" and keys: "keys_ok (gs_tap_hubs s)"
    and slash: "\<forall>a \<in> set addrs. CHR ''/'' \<notin> set (addr_node a)"
    and s'_def: "s' = detach_taps why (\<lambda>ep. ep \<notin> set (map EndpointAddr_display addrs)) s"
  shows "hubs_ok (F |` (- set addrs)) (gs_heap s') (named (gs_tap_hubs s'))" "keys_ok (gs_tap_hubs s')"
proof -
  let ?keep = "\<lambda>ep. ep \<notin> set (map EndpointAddr_display addrs)" and ?m = "gs_tap_hubs s"
  have map: "gs_tap_hubs s' = filter (\<lambda>(k, h). ?keep k) ?m" by (simp add: s'_def detach_taps_frame)
  show "keys_ok (gs_tap_hubs s')"
    using keys unfolding map by (rule keys_ok_filter)
  have named: "named (gs_tap_hubs s') = named ?m |` (- set addrs)"
    using slash
    by (auto simp: map named_def hash_get_filter [where P = "\<lambda>k. k \<notin> EndpointAddr_display ` set addrs"] restrict_map_def
        fun_eq_iff display_inj)
  have inj: "inj_map (named ?m)" using hubs by (simp add: hubs_ok_def)
  have same: "hp_hubs (gs_heap s') x = hp_hubs (gs_heap s) x" if "named ?m a = Some x" "a \<notin> set addrs" for a x
  proof -
    have "x \<notin> snd ` set (filter (\<lambda>(k, h). \<not> ?keep k) ?m)"
    proof
      assume "x \<in> snd ` set (filter (\<lambda>(k, h). \<not> ?keep k) ?m)"
      then obtain b where b: "b \<in> set addrs" "(EndpointAddr_display b, x) \<in> set ?m" by auto
      then have "named ?m b = Some x" using keys slash by (simp add: keys_ok_def hash.entries_get named_def)
      then show False using inj_mapD [OF inj that(1)] that(2) b(1) by blast
    qed
    then show ?thesis unfolding s'_def by (rule detach_taps_heap(5))
  qed
  have "hp_next (gs_heap s') = hp_next (gs_heap s)" by (simp add: s'_def detach_taps_heap)
  then show "hubs_ok (F |` (- set addrs)) (gs_heap s') (named (gs_tap_hubs s'))"
    using hubs inj same unfolding named hubs_ok_def
    by (simp add: faces_restrict restrict_known restrict_Some inj_map_restrict) metis
qed

lemma unlinked_name:
  assumes lk: "linked F ls n hp p" and "t \<notin> fst ` set ls"
  shows "p_origin p t = None"
proof (cases "p_slot p t")
  case None
  then show ?thesis using linkedD(8) [OF lk] by (simp add: names_ok_def)
next
  case (Some y)
  then have "hp_slots hp y = unattached_edge"
    using linked_slot [OF lk Some] assms(2) by (simp add: slot_ok_def map_of_eq_None_iff [symmetric])
  then show ?thesis using linkedD(8) [OF lk] Some by (simp add: names_ok_def unattached_edge_def)
qed

lemma named_link:
  assumes lk: "linked F ls n hp p" and "p_origin p t = Some (c, i)"
  obtains h m where "(t, h, m) \<in> set ls" "p_lock p h = Some c"
proof -
  obtain y where y: "p_slot p t = Some y" "edge_registered (hp_slots hp y) = Some (c, i)"
    using linkedD(8) [OF lk] assms(2) by (auto simp: names_ok_def split: option.splits if_splits)
  then obtain h m where "map_of ls t = Some (h, m)" "p_lock p h = Some c" using registered_link [OF lk] by metis
  then show ?thesis using that map_of_SomeD by fast
qed

text \<open>No surviving name leads to a lock that goes.\<close>

lemma retain_origins:
  assumes lk: "linked F ls n hp p" and keys: "keys_ok m" and m: "p_origin p = named m"
    and apart: "\<And>t h w. (t, h, w) \<in> set ls \<Longrightarrow> t \<notin> A \<and> h \<notin> A"
    and gone: "\<And>c. c \<in> R \<Longrightarrow> \<exists>a \<in> A. p_lock p a = Some c"
  shows "filter (\<lambda>(_, c, _). c \<notin> R) m = m"
  unfolding filter_id_conv
proof clarify
  fix k c i assume mem: "(k, c, i) \<in> set m" and "c \<in> R"
  then obtain a where a: "a \<in> A" "p_lock p a = Some c" using gone by blast
  have "hash_get m k = Some (c, i)" using mem keys by (simp add: keys_ok_def hash.entries_get)
  then have "p_origin p (EndpointAddr_from_str k) = Some (c, i)" unfolding m by (rule keys_ok_get [OF keys])
  then obtain h w where "(EndpointAddr_from_str k, h, w) \<in> set ls" "p_lock p h = Some c" by (rule named_link [OF lk])
  moreover have "inj_map (p_lock p)" using separateD(1) [OF linkedD(3) [OF lk]] .
  ultimately show False using inj_mapD a apart by metis
qed

lemma cut_plumbed:
  assumes pb: "plumbed F ls s" and slash: "\<forall>a \<in> set addrs. CHR ''/'' \<notin> set (addr_node a)"
    and apart: "\<And>t h m. (t, h, m) \<in> set ls \<Longrightarrow> t \<notin> set addrs \<and> h \<notin> set addrs"
    and taps: "s1 = detach_taps why (\<lambda>ep. ep \<notin> set (map EndpointAddr_display addrs)) s"
    and drop: "fold drop_endpoint (map EndpointAddr_display addrs) ([], s1) = (rm, s2)"
    and res: "r = forget_endpoints (map EndpointAddr_display addrs)
      (s2\<lparr>gs_origin_locks := filter (\<lambda>(_, c, _). c \<notin> set rm) (gs_origin_locks s2)\<rparr>)"
  shows "plumbed (F |` (- set addrs)) ls r" "gs_config r = gs_config s" "gs_nodes r = gs_nodes s"
    "\<And>a c. a \<in> set addrs \<Longrightarrow> p_lock (sports s) a = Some c \<Longrightarrow> torn_down (hp_cells (gs_heap s) c) (hp_cells (gs_heap r) c)"
proof -
  let ?ds = "map EndpointAddr_display addrs" and ?A = "- set addrs" and ?p = "sports s"
  note d = plumbedD [OF pb]
  have same: "sports s1 = ?p" "gs_config s1 = gs_config s" "gs_nodes s1 = gs_nodes s" "gs_next_edge_origin s1 = gs_next_edge_origin s"
    "gs_next_send_origin s1 = gs_next_send_origin s" by (simp_all add: taps detach_taps_frame)
  have heap1: "hp_next (gs_heap s1) = hp_next (gs_heap s)" "hp_cells (gs_heap s1) = hp_cells (gs_heap s)"
    "hp_fanouts (gs_heap s1) = hp_fanouts (gs_heap s)" "hp_slots (gs_heap s1) = hp_slots (gs_heap s)"
    by (simp_all add: taps detach_taps_heap)
  have maps1: "gs_endpoint_locks s1 = gs_endpoint_locks s" "gs_origin_locks s1 = gs_origin_locks s"
    "gs_endpoint_targetward s1 = gs_endpoint_targetward s" "gs_host_fanout s1 = gs_host_fanout s" "gs_target_inbox s1 = gs_target_inbox s"
    "gs_target_counters s1 = gs_target_counters s" "gs_target_edges s1 = gs_target_edges s"
    by (simp_all add: taps detach_taps_def split: prod.split)
  have keys: "keys_ok (gs_tap_hubs s)" "keys_ok (gs_origin_locks s)" using d(6) by (simp_all add: state_keys_ok_def)
  note hubs = detach_hubs_ok [OF d(2) keys(1) slash taps]
  have "hash_get (gs_origin_locks s1) k = None" if "k \<in> set ?ds" for k
  proof -
    note k = that
    obtain a where a: "a \<in> set addrs" "k = EndpointAddr_display a" using k by auto
    then have "p_origin ?p a = None" using unlinked_name [OF d(1)] apart by fastforce
    then show ?thesis using a slash by (simp add: sports_def maps1 hash_get_named)
  qed
  then obtain hp where s2: "s2 = s1\<lparr>gs_endpoint_locks := fold hash_remove ?ds (gs_endpoint_locks s1),
      gs_endpoint_targetward := fold hash_remove ?ds (gs_endpoint_targetward s1), gs_heap := hp\<rparr>"
    and rm: "set rm = locks_of ?ds s1" and hp: "hp_next hp = hp_next (gs_heap s1)" "hp_slots hp = hp_slots (gs_heap s1)"
      "hp_fanouts hp = hp_fanouts (gs_heap s1)" "hp_hubs hp = hp_hubs (gs_heap s1)"
    and cells: "\<And>c. if c \<in> locks_of ?ds s1 then torn_down (hp_cells (gs_heap s1) c) (hp_cells hp c) else hp_cells hp c = hp_cells (gs_heap s1) c"
    using drop_endpoints [OF _ drop] unfolding dropped_def by fastforce
  have locks: "c \<in> set rm \<longleftrightarrow> (\<exists>a \<in> set addrs. p_lock ?p a = Some c)" for c
    unfolding rm using slash by (auto simp: locks_of_def maps1 sports_def hash_get_named)
  have "filter (\<lambda>(_, c, _). c \<notin> set rm) (gs_origin_locks s) = gs_origin_locks s"
    by (rule retain_origins [OF d(1) keys(2) _ apart]) (use locks in \<open>auto simp: sports_def\<close>)
  then have r: "r = s1\<lparr>gs_endpoint_locks := fold hash_remove ?ds (gs_endpoint_locks s),
      gs_endpoint_targetward := fold hash_remove ?ds (gs_endpoint_targetward s), gs_heap := hp,
      gs_host_fanout := fold hash_remove ?ds (gs_host_fanout s), gs_target_inbox := fold hash_remove ?ds (gs_target_inbox s),
      gs_target_counters := fold hash_remove ?ds (gs_target_counters s), gs_target_edges := fold hash_remove ?ds (gs_target_edges s)\<rparr>"
    using maps1 by (simp add: res s2 forget_fold)
  show "gs_config r = gs_config s" "gs_nodes r = gs_nodes s" using same by (simp_all add: r)
  show "torn_down (hp_cells (gs_heap s) c) (hp_cells (gs_heap r) c)" if "a \<in> set addrs" "p_lock ?p a = Some c" for a c
    using cells [of c] locks [of c] that rm heap1(2) by (auto simp: r split: if_splits)
  have "p_origin ?p |` ?A = p_origin ?p"
    using unlinked_name [OF d(1)] apart by (fastforce simp: fun_eq_iff restrict_map_def)
  then have ports: "sports r = restrict_ports ?A ?p"
    by (simp add: r sports_def restrict_ports_def maps1 named_removes(1) [OF slash])
  have lk: "linked (F |` ?A) ls (unat (gs_next_edge_origin s)) (gs_heap s) (restrict_ports ?A ?p)"
    using d(1) apart by (intro linked_restrict) blast+
  have kept: "hp_cells hp x = hp_cells (gs_heap s) x" if "p_lock (restrict_ports ?A ?p) a = Some x" for a x
  proof -
    have "a \<notin> set addrs" "p_lock ?p a = Some x" using that by (auto simp: restrict_ports_def restrict_Some)
    moreover have "inj_map (p_lock ?p)" using separateD(1) [OF linkedD(3) [OF d(1)]] .
    ultimately have "x \<notin> set rm" using locks inj_mapD by metis
    then show ?thesis using cells [of x] rm heap1 by simp
  qed
  have "same_links (restrict_ports ?A ?p) (gs_heap s) hp"
    using kept linkedD(4) [OF lk] hp heap1 by (simp add: same_links_def cells_ok_def)
  then have "linked (F |` ?A) ls (unat (gs_next_edge_origin s)) hp (restrict_ports ?A ?p)"
    by (rule linked_same [OF lk _ d(4)])
  moreover have "ids_below (gs_next_send_origin s) hp (restrict_ports ?A ?p)"
    using d(3) kept unfolding ids_below_def by (auto simp: restrict_ports_def restrict_Some)
  moreover have "hubs_ok (F |` ?A) hp (named (gs_tap_hubs s1))" using hubs(1) hp by (simp add: hubs_ok_def)
  moreover have "state_keys_ok r"
    using d(6) hubs(2) maps1 by (simp add: r state_keys_ok_def named_removes(2) [OF slash])
  ultimately show "plumbed (F |` ?A) ls r"
    using pb same unfolding plumbed_def ports by (simp add: r)
qed

section \<open>\<open>remove-node\<close>\<close>

definition addrs_of :: "'attr NodeConfig \<Rightarrow> EndpointAddr list" where
  "addrs_of n = map (\<lambda>ep. EndpointAddr_new (node_name n) (ep_name ep)) (endpoints (shape n))"

abbreviation without_node :: "'attr GraphConfig \<Rightarrow> string \<Rightarrow> 'attr GraphConfig" where
  "without_node c name \<equiv> c\<lparr>cfg_edges := filter (\<lambda>e. \<not> touches name e) (cfg_edges c), nodes := filter (\<lambda>n. node_name n \<noteq> name) (nodes c)\<rparr>"

lemma without_node_named: "node_named (without_node c name) k = (if k = name then None else node_named c k)"
proof -
  have "find (\<lambda>n. node_name n = k) (filter (\<lambda>n. node_name n \<noteq> name) ns) = (if k = name then None else find (\<lambda>n. node_name n = k) ns)" for ns :: "'a NodeConfig list"
    by (induction ns) auto
  then show ?thesis by (simp add: node_named_def)
qed

lemma subseq_filter: "subseq (filter P xs) xs"
  by (induction xs) auto

lemma addrs_complete:
  assumes n: "node_named c name = Some n" and a: "addr_node a = name" "a \<notin> set (addrs_of n)"
  shows "spec_at c a = None"
proof -
  have "node_name n = name" using n by (auto simp: node_named_def find_Some_iff)
  then have "shape_endpoint (shape n) (addr_endpoint a) = None"
    using a by (auto simp: shape_endpoint_def find_None_iff addrs_of_def EndpointAddr_new_def image_iff)
  then show ?thesis using a(1) n by (simp add: spec_at_def)
qed

lemma without_node_config:
  assumes c: "config_valid c" and n: "node_named c name = Some n"
  shows "config_valid (without_node c name)" "links (without_node c name) = map (link_of c) (filter (\<lambda>e. \<not> touches name e) (cfg_edges c))"
    "spec_at (without_node c name) = spec_at c |` (- set (addrs_of n))" "\<forall>a \<in> set (addrs_of n). addr_node a = name \<and> CHR ''/'' \<notin> set (addr_node a)"
proof -
  let ?d = "without_node c name"
  have name: "node_name n = name" "n \<in> set (nodes c)" using n by (auto simp: node_named_def find_Some_iff)
  have sub: "subseq (nodes ?d) (nodes c)" "subseq (cfg_edges ?d) (cfg_edges c)" by (simp_all add: subseq_filter)
  have kept: "node_named ?d (addr_node (cfg_a e)) = node_named c (addr_node (cfg_a e)) \<and>
      node_named ?d (addr_node (cfg_b e)) = node_named c (addr_node (cfg_b e))" if "e \<in> set (cfg_edges ?d)" for e
  proof -
    have "\<not> touches name e" using that by simp
    then show ?thesis unfolding without_node_named by (simp add: touches_def)
  qed
  show "config_valid ?d" "links ?d = map (link_of c) (filter (\<lambda>e. \<not> touches name e) (cfg_edges c))"
    using valid_sub [OF c sub kept] by simp_all
  show "\<forall>a \<in> set (addrs_of n). addr_node a = name \<and> CHR ''/'' \<notin> set (addr_node a)"
    using valid_node [OF c name(2)] name(1) by (auto simp: addrs_of_def EndpointAddr_new_def legal_node_def legal_name_def)
  note addrs_complete [OF n]
  moreover have "addr_node a = name" if "a \<in> set (addrs_of n)" for a using that name by (auto simp: addrs_of_def EndpointAddr_new_def)
  ultimately show "spec_at ?d = spec_at c |` (- set (addrs_of n))"
    by (auto simp: fun_eq_iff restrict_map_def without_node_named spec_at_def)
qed

lemma touching_links:
  assumes c: "config_valid c" and hts_def: "hts = List.map_filter (edge_ends c) (filter (touches name) (cfg_edges c))"
  shows "filter (\<lambda>l. fst l \<notin> snd ` set hts) (links c) = map (link_of c) (filter (\<lambda>e. \<not> touches name e) (cfg_edges c))"
    "distinct (map snd hts)" "\<forall>(h, t) \<in> set hts. \<exists>m. map_of (links c) t = Some (h, m)"
proof -
  let ?tgt = "\<lambda>e. snd (the (edge_ends c e))"
  note ends = valid_ends [OF c]
  have hts: "hts = map (\<lambda>e. the (edge_ends c e)) (filter (touches name) (cfg_edges c))"
    using ends(1) by (auto simp: hts_def map_filter_def intro!: map_cong filter_cong)
  show "distinct (map snd hts)"
    using ends(2) by (simp add: hts comp_def distinct_map_filter)
  show "\<forall>(h, t) \<in> set hts. \<exists>m. map_of (links c) t = Some (h, m)"
  proof clarify
    fix h t assume "(h, t) \<in> set hts"
    then obtain e where "e \<in> set (cfg_edges c)" "edge_ends c e = Some (h, t)" using ends(1) by (auto simp: hts)
    then show "\<exists>m. map_of (links c) t = Some (h, m)" using links_map_of [OF c] by blast
  qed
  have "?tgt e \<in> snd ` set hts \<longleftrightarrow> touches name e" if "e \<in> set (cfg_edges c)" for e
    using that ends(2) by (auto simp: hts distinct_map inj_on_def)
  then show "filter (\<lambda>l. fst l \<notin> snd ` set hts) (links c) = map (link_of c) (filter (\<lambda>e. \<not> touches name e) (cfg_edges c))"
    by (simp add: links_def filter_map comp_def link_of_def cong: filter_cong)
qed

lemma remove_at_names:
  assumes "distinct (map nd_name ns)" "position (\<lambda>n. nd_name n = name) ns = Some i"
  shows "map nd_config (remove_at i ns) = filter (\<lambda>n. node_name n \<noteq> name) (map nd_config ns)"
proof -
  have i: "i < length ns" "nd_name (ns ! i) = name" using position_SomeD [OF assms(2)] by auto
  have "remove_at i ns = filter (\<lambda>n. nd_name n \<noteq> name) ns" using remove_at_filter [OF assms(1) i(1)] i(2) by simp
  then show ?thesis by (simp add: filter_map comp_def)
qed

lemma map_filter_map_option: "List.map_filter (\<lambda>x. map_option g (f x)) xs = map g (List.map_filter f xs)"
  by (induction xs) (auto simp: map_filter_simps split: option.split)

lemma remove_node_run:
  assumes idx: "position (\<lambda>n. nd_name n = name) (gs_nodes s) = Some idx"
    and go: "filter (touches name) (cfg_edges (gs_config s)) = [] \<or> cascade"
    and n: "node_named (gs_config s) name = Some n"
    and hts: "hts = List.map_filter (edge_ends (gs_config s)) (filter (touches name) (cfg_edges (gs_config s)))"
    and run: "remove_node env name cascade s = (r, s')"
  obtains acc s1 t1 rm t2 where
    "cascade_edges env (map (\<lambda>(h, t). (EndpointAddr_display h, EndpointAddr_display t)) hts) (0, 0) s = (acc, s1)"
    "t1 = detach_taps EndpointRemoved (\<lambda>ep. ep \<notin> set (map EndpointAddr_display (addrs_of n))) (s1\<lparr>gs_nodes := remove_at idx (gs_nodes s1)\<rparr>)"
    "fold drop_endpoint (map EndpointAddr_display (addrs_of n)) ([], t1) = (rm, t2)" "\<exists>a. r = Inr a"
    "s' = (let u = forget_endpoints (map EndpointAddr_display (addrs_of n))
              (t2\<lparr>gs_origin_locks := filter (\<lambda>(_, c, _). c \<notin> set rm) (gs_origin_locks t2)\<rparr>)
           in u\<lparr>gs_config := without_node (gs_config u) name\<rparr>)"
proof -
  have name: "node_name n = name" using n by (auto simp: node_named_def find_Some_iff)
  have ds: "endpoint_displays (gs_config s) name = map EndpointAddr_display (addrs_of n)"
    using n name by (simp add: endpoint_displays_def addrs_of_def)
  have cs: "List.map_filter (\<lambda>e. map_option (\<lambda>(h, t). (EndpointAddr_display h, EndpointAddr_display t)) (edge_ends (gs_config s) e))
      (filter (touches name) (cfg_edges (gs_config s))) = map (\<lambda>(h, t). (EndpointAddr_display h, EndpointAddr_display t)) hts"
    unfolding hts by (rule map_filter_map_option)
  obtain acc s1 where 0: "cascade_edges env (map (\<lambda>(h, t). (EndpointAddr_display h, EndpointAddr_display t)) hts) (0, 0) s = (acc, s1)"
    by (cases "cascade_edges env (map (\<lambda>(h, t). (EndpointAddr_display h, EndpointAddr_display t)) hts) (0, 0) s")
  obtain lk bs where "acc = (lk, bs)" by (cases acc)
  note 1 = 0 [unfolded this]
  define t1 where "t1 = detach_taps EndpointRemoved (\<lambda>ep. ep \<notin> set (map EndpointAddr_display (addrs_of n))) (s1\<lparr>gs_nodes := remove_at idx (gs_nodes s1)\<rparr>)"
  obtain rm t2 where 2: "fold drop_endpoint (map EndpointAddr_display (addrs_of n)) ([], t1) = (rm, t2)"
    by (cases "fold drop_endpoint (map EndpointAddr_display (addrs_of n)) ([], t1)")
  have go': "(length (filter (touches name) (cfg_edges (gs_config s))) > 0 \<and> \<not> cascade) = False" using go by auto
  let ?u = "forget_endpoints (map EndpointAddr_display (addrs_of n)) (t2\<lparr>gs_origin_locks := filter (\<lambda>(_, c, _). c \<notin> set rm) (gs_origin_locks t2)\<rparr>)"
  have "remove_node env name cascade s =
      (Ok (Removed name (length (filter (touches name) (cfg_edges (gs_config s)))) lk bs (discarded_at_teardown env (gs_nodes s1 ! idx))),
       ?u\<lparr>gs_config := without_node (gs_config ?u) name\<rparr>)"
    by (simp only: remove_node_def idx option.case Let_def go' if_False cs ds 1 prod.case t1_def [symmetric] 2)
  then show ?thesis using run by (intro that [OF 1 t1_def 2]) (simp_all add: Let_def)
qed

lemma removal_wired:
  assumes w: "wired s" and idx: "position (\<lambda>n. nd_name n = name) (gs_nodes s) = Some idx"
    and go: "filter (touches name) (cfg_edges (gs_config s)) = [] \<or> cascade"
    and run: "remove_node env name cascade s = (r, s')"
  shows "wired s'" "\<exists>a. r = Inr a" "gs_config s' = without_node (gs_config s) name"
    "\<And>x c. addr_node x = name \<Longrightarrow> p_lock (sports s) x = Some c \<Longrightarrow>
      torn_down (hp_cells (gs_heap s) c) (hp_cells (gs_heap s') c)"
proof -
  let ?c = "gs_config s"
  note c = wiredD(1) [OF w]
  have names: "distinct (map nd_name (gs_nodes s))"
    using c unfolding config_valid_def node_names_def wiredD(2) [OF w, symmetric] by (simp add: comp_def)
  have "nd_config (gs_nodes s ! idx) \<in> set (nodes ?c)" "nd_name (gs_nodes s ! idx) = name"
    using position_SomeD [OF idx] wiredD(2) [OF w] by (auto simp flip: wiredD(2) [OF w])
  then obtain n where n: "node_named ?c name = Some n"
    using c find_by_name [of node_name "nodes ?c"] by (auto simp: node_named_def config_valid_def node_names_def)
  define hts where "hts = List.map_filter (edge_ends ?c) (filter (touches name) (cfg_edges ?c))"
  obtain acc s1 t1 rm t2 where
    1: "cascade_edges env (map (\<lambda>(h, t). (EndpointAddr_display h, EndpointAddr_display t)) hts) (0, 0) s = (acc, s1)"
    and t1: "t1 = detach_taps EndpointRemoved (\<lambda>ep. ep \<notin> set (map EndpointAddr_display (addrs_of n))) (s1\<lparr>gs_nodes := remove_at idx (gs_nodes s1)\<rparr>)"
    and 2: "fold drop_endpoint (map EndpointAddr_display (addrs_of n)) ([], t1) = (rm, t2)" and ok: "\<exists>a. r = Inr a"
    and s': "s' = (let u = forget_endpoints (map EndpointAddr_display (addrs_of n))
              (t2\<lparr>gs_origin_locks := filter (\<lambda>(_, c, _). c \<notin> set rm) (gs_origin_locks t2)\<rparr>)
           in u\<lparr>gs_config := without_node (gs_config u) name\<rparr>)"
    by (rule remove_node_run [OF idx go n hts_def run])
  note tl = touching_links [OF c hts_def] and cfg = without_node_config [OF c n]
  have cas: "plumbed (spec_at ?c) (links (without_node ?c name)) s1" "gs_config s1 = ?c" "map nd_config (gs_nodes s1) = nodes ?c"
    using cascade_plumbed [OF wiredD(3,4) [OF w] tl(2,3) 1] wiredD(2) [OF w] unfolding tl(1) cfg(2) by auto
  have apart: "t \<notin> set (addrs_of n) \<and> h \<notin> set (addrs_of n)" if "(t, h, m) \<in> set (links (without_node ?c name))" for t h m
  proof -
    note link = that
    obtain e where e: "e \<in> set (cfg_edges ?c)" "\<not> touches name e" "link_of ?c e = (t, h, m)"
      using link unfolding cfg(2) by auto
    then have "edge_ends ?c e = Some (h, t)" using valid_ends(1) [OF c] by (auto simp: link_of_def)
    then have "addr_node h \<noteq> name" "addr_node t \<noteq> name"
      using e(2) by (auto simp: edge_ends_def touches_def split: option.splits Facing.splits)
    then show ?thesis using cfg(4) by blast
  qed
  have pb1: "plumbed (spec_at ?c) (links (without_node ?c name)) (s1\<lparr>gs_nodes := remove_at idx (gs_nodes s1)\<rparr>)" using cas(1) by simp
  have slash: "\<forall>a \<in> set (addrs_of n). CHR ''/'' \<notin> set (addr_node a)" using cfg(4) by blast
  note cut = cut_plumbed [OF pb1 slash apart t1 2 refl]
  have "map nd_config (remove_at idx (gs_nodes s1)) = filter (\<lambda>n. node_name n \<noteq> name) (nodes ?c)"
    using remove_at_names [OF names idx] by (simp add: remove_at_map cas(3) wiredD(2) [OF w])
  then show "wired s'" "\<exists>a. r = Inr a" "gs_config s' = without_node ?c name"
    using cut(1-3) cas(2) ok cfg(1,3) unfolding s' Let_def by (simp_all add: wired_def)
  fix x y assume x: "addr_node x = name" "p_lock (sports s) x = Some y"
  have "spec_at ?c x \<noteq> None"
    using completeD(7) [OF linkedD(2) [OF plumbedD(1) [OF wiredD(3) [OF w]]] x(2)] by (auto simp: faces_def)
  then have "x \<in> set (addrs_of n)" by (rule contrapos_np) (rule addrs_complete [OF n x(1)])
  moreover have "p_lock (sports (s1\<lparr>gs_nodes := remove_at idx (gs_nodes s1)\<rparr>)) x = Some y"
    using x(2) cascade_locks [OF 1] by (simp add: sports_def)
  ultimately have "torn_down (hp_cells (gs_heap s1) y) (hp_cells (gs_heap s') y)" using cut(4) unfolding s' Let_def by simp
  then show "torn_down (hp_cells (gs_heap s) y) (hp_cells (gs_heap s') y)"
    using cascade_wakes [OF 1, of y] by (simp add: torn_down_def)
qed

lemma remove_node_result:
  assumes w: "wired s" and run: "remove_node env name cascade s = (r, s')"
  shows "wired s'" "\<And>err. r = Inl err \<Longrightarrow> s' = s"
    "\<And>a. r = Inr a \<Longrightarrow> gs_config s' = without_node (gs_config s) name"
    "\<And>a x c. r = Inr a \<Longrightarrow> addr_node x = name \<Longrightarrow> p_lock (sports s) x = Some c \<Longrightarrow>
      torn_down (hp_cells (gs_heap s) c) (hp_cells (gs_heap s') c)"
proof -
  consider idx where "position (\<lambda>n. nd_name n = name) (gs_nodes s) = Some idx" "filter (touches name) (cfg_edges (gs_config s)) = [] \<or> cascade"
    | "s' = s" "isl r"
    using run by (cases "position (\<lambda>n. nd_name n = name) (gs_nodes s)") (auto simp: remove_node_def Let_def split: if_splits)
  then have "wired s' \<and> (isl r \<longrightarrow> s' = s) \<and> (\<not> isl r \<longrightarrow> gs_config s' = without_node (gs_config s) name \<and>
    (\<forall>x c. addr_node x = name \<longrightarrow> p_lock (sports s) x = Some c \<longrightarrow>
      torn_down (hp_cells (gs_heap s) c) (hp_cells (gs_heap s') c)))"
  proof cases
    case 1
    note res = removal_wired [OF w 1 run]
    have "\<not> isl r" using res(2) by auto
    then show ?thesis using res(1,3,4) by blast
  next
    case 2
    then show ?thesis using w by simp
  qed
  then show "wired s'" "\<And>err. r = Inl err \<Longrightarrow> s' = s" "\<And>a. r = Inr a \<Longrightarrow> gs_config s' = without_node (gs_config s) name"
    "\<And>a x c. r = Inr a \<Longrightarrow> addr_node x = name \<Longrightarrow> p_lock (sports s) x = Some c \<Longrightarrow>
      torn_down (hp_cells (gs_heap s) c) (hp_cells (gs_heap s') c)" by auto
qed

end
