(* ===== verification/Graph_Runs.thy ===== *)
theory Graph_Runs
  imports Graph_Removal
begin

text \<open>
  Runs of the daemon: any sequence of verbs and of steps the node tasks take on the shared objects in between.
  The theorems of the live graph are about every state such a run reaches.
\<close>

section \<open>Arbitration verbs\<close>

definition heap_only :: "('attr, 're) GraphState \<Rightarrow> ('attr, 're) GraphState \<Rightarrow> bool" where
  "heap_only s s' \<longleftrightarrow> (\<exists>hp. s' = s\<lparr>gs_heap := hp\<rparr> \<and> heap_kept (gs_heap s) hp)"

lemma heap_only_refl [simp]: "heap_only s s"
  by (auto simp: heap_only_def intro!: exI [of _ "gs_heap s"])

lemma heap_only_step:
  assumes "heap_only s t" "heap_kept (gs_heap t) hp"
  shows "heap_only s (t\<lparr>gs_heap := hp\<rparr>)"
proof -
  obtain h where h: "t = s\<lparr>gs_heap := h\<rparr>" "heap_kept (gs_heap s) h" using assms(1) by (auto simp: heap_only_def)
  then have "heap_kept (gs_heap s) hp" using heap_kept_trans [OF h(2)] assms(2) by simp
  then show ?thesis unfolding heap_only_def by (intro exI [of _ hp]) (simp add: h(1))
qed

lemma heap_only_apply: "\<not> membership_op opn \<Longrightarrow> heap_only s t \<Longrightarrow> heap_only s (t\<lparr>gs_heap := with_lock c (lock_apply opn) (gs_heap t)\<rparr>)"
  by (rule heap_only_step) (simp_all add: kept_apply)

lemma heap_only_wake: "heap_only s t \<Longrightarrow> heap_only s (t\<lparr>gs_heap := wake_waiters c (gs_heap t)\<rparr>)"
  by (rule heap_only_step) (simp_all add: kept_wake)

lemma heap_only_purge: "heap_only s t \<Longrightarrow> heap_only s (purge_on_acquire env c origin i t)"
  using heap_only_apply [of "OpRecordPurge i (purge_by_name env origin t)" s t c]
  by (auto simp: purge_on_acquire_def Let_def lock_ops)

lemma heap_only_wired: "wired s \<Longrightarrow> heap_only s s' \<Longrightarrow> wired s'"
  using kept_plumbed by (fastforce simp: heap_only_def wired_def)

lemma lock_verb_heap_only: "heap_only s (snd (lock_verb env origin steals renewing s))"
proof (cases "resolve_origin s origin")
  case None
  then show ?thesis by (simp add: lock_verb_def)
next
  case (Some ci)
  obtain c i where ci: "ci = (c, i)" by (cases ci)
  have acq: "heap_only s (s\<lparr>gs_heap := with_lock c (lock_apply opn) (gs_heap s)\<rparr>)" if "\<not> membership_op opn" for opn
    using that by (rule heap_only_apply) simp
  show ?thesis
    using Some acq [of "OpAcquire i"] acq [of "OpSteal i"] acq [of "OpRenew i"]
    by (auto simp: lock_verb_def ci Let_def lock_ops heap_only_purge intro!: heap_only_wake
        split: Steal.split Acquire.split)
qed

lemma unlock_verb_heap_only: "heap_only s (snd (unlock_verb origin s))"
proof (cases "resolve_origin s origin")
  case None
  then show ?thesis by (simp add: unlock_verb_def)
next
  case (Some ci)
  obtain c i where ci: "ci = (c, i)" by (cases ci)
  have rel: "heap_only s (s\<lparr>gs_heap := with_lock c (lock_apply (OpRelease i)) (gs_heap s)\<rparr>)"
    by (rule heap_only_apply) simp_all
  show ?thesis using Some rel heap_only_wake [OF rel, of c] by (simp add: unlock_verb_def ci Let_def lock_ops)
qed

section \<open>Transient origins\<close>

lemma send_cell:
  assumes pb: "plumbed F ls s" and hp: "hp = (gs_heap s)\<lparr>hp_cells := (hp_cells (gs_heap s))(c := x)\<rparr>"
    and x: "lc_closed x = lc_closed (hp_cells (gs_heap s) c)" "lc_endpoint x = lc_endpoint (hp_cells (gs_heap s) c)"
      "Lock.arbitration (lc_lock x) = Lock.arbitration (lock_at (gs_heap s) c)"
      "\<And>a. p_lock (sports s) a = Some c \<Longrightarrow> lock_inv (lc_lock x)"
      "\<And>a i. p_lock (sports s) a = Some c \<Longrightarrow> i < SEND_ORIGIN_BASE \<Longrightarrow> tag (lc_lock x) i = tag (lock_at (gs_heap s) c) i"
      "\<And>a i. p_lock (sports s) a = Some c \<Longrightarrow> tag (lc_lock x) i \<noteq> None \<Longrightarrow> i < b"
    and b: "gs_next_send_origin s \<le> b"
  shows "plumbed F ls (s\<lparr>gs_next_send_origin := b, gs_heap := hp\<rparr>)"
proof -
  note d = plumbedD [OF pb]
  let ?s = "s\<lparr>gs_next_send_origin := b, gs_heap := hp\<rparr>"
  have same: "sports ?s = sports s" by (simp add: sports_def)
  have inv: "lock_inv (lock_at (gs_heap s) y)" if "p_lock (sports s) a = Some y" for a y
    using linkedD(4) [OF d(1)] that by (simp add: cells_ok_def)
  have "same_links (sports s) (gs_heap s) hp"
    using x inv unfolding same_links_def hp by (auto split: if_splits)
  then have "linked F ls (unat (gs_next_edge_origin s)) hp (sports s)" by (rule linked_same [OF d(1) _ d(4)])
  moreover have "ids_below b hp (sports s)"
    using ids_mono [OF d(3) b] x(6) unfolding ids_below_def hp by (auto split: if_splits)
  moreover have "hubs_ok F hp (named (gs_tap_hubs s))" using d(2) by (simp add: hubs_ok_def hp)
  ultimately show ?thesis using pb b unfolding plumbed_def same by (auto simp: state_keys_ok_def)
qed

lemma send_begin_wired:
  assumes w: "wired s" and lim: "unat (gs_next_send_origin s) + 1 < 2 ^ 64"
  shows "wired (snd (send_begin endpoint serviceable s))"
proof (cases "\<exists>c. hash_get (gs_endpoint_locks s) endpoint = Some c \<and> hash_get (gs_endpoint_targetward s) endpoint \<noteq> None \<and> serviceable")
  case False
  then have "snd (send_begin endpoint serviceable s) = s" by (auto simp: send_begin_def split: option.split)
  then show ?thesis using w by simp
next
  case True
  then obtain c where c: "hash_get (gs_endpoint_locks s) endpoint = Some c" and tx: "hash_get (gs_endpoint_targetward s) endpoint \<noteq> None" "serviceable"
    by blast
  let ?i = "gs_next_send_origin s" and ?l = "lock_at (gs_heap s) c"
  note pb = wiredD(3) [OF w]
  note d = plumbedD [OF pb]
  have step: "gs_next_send_origin s < gs_next_send_origin s + 1" using lim by (simp add: word_less_nat_alt unat_word_ariths)
  have cell: "lock_inv ?l" "origin_of ?l ?i = None" if "p_lock (sports s) a = Some c" for a
  proof -
    show "lock_inv ?l" using linkedD(4) [OF d(1)] that by (simp add: cells_ok_def)
    have "tag ?l ?i = None" using d(3) that by (metis ids_below_def less_irrefl)
    then show "origin_of ?l ?i = None" by (simp add: tag_def)
  qed
  have "plumbed (spec_at (gs_config s)) (links (gs_config s))
      (s\<lparr>gs_next_send_origin := ?i + 1, gs_heap := (gs_heap s)\<lparr>hp_cells :=
         (hp_cells (gs_heap s))(c := (hp_cells (gs_heap s) c)\<lparr>lc_lock := lock_register ?i ''send'' OnDemand ?l\<rparr>)\<rparr>\<rparr>)"
  proof (rule send_cell [OF pb refl])
    fix a i assume a: "p_lock (sports s) a = Some c"
    note reg = cell [OF a]
    show "lock_inv (lc_lock ((hp_cells (gs_heap s) c)\<lparr>lc_lock := lock_register ?i ''send'' OnDemand ?l\<rparr>))"
      using lock_inv_register [OF reg] by simp
    show "i < SEND_ORIGIN_BASE \<Longrightarrow> tag (lc_lock ((hp_cells (gs_heap s) c)\<lparr>lc_lock := lock_register ?i ''send'' OnDemand ?l\<rparr>)) i = tag ?l i"
      using d(5) by (auto simp: tag_register [OF reg(1)])
    show "tag (lc_lock ((hp_cells (gs_heap s) c)\<lparr>lc_lock := lock_register ?i ''send'' OnDemand ?l\<rparr>)) i \<noteq> None \<Longrightarrow> i < ?i + 1"
      using d(3) a step by (auto simp: tag_register [OF reg(1)] ids_below_def split: if_splits) (meson order_less_trans option.distinct(1))
  qed (use step in simp_all)
  then show ?thesis
    using w c tx by (auto simp: send_begin_def with_lock_def wired_def Let_def)
qed

lemma send_end_wired:
  assumes w: "wired s" and i: "SEND_ORIGIN_BASE \<le> i"
  shows "wired (send_end c i s)"
proof -
  let ?l = "lock_at (gs_heap s) c"
  let ?x = "(hp_cells (gs_heap s) c)\<lparr>lc_lock := snd (lock_unregister i ?l), lc_wakes := Suc (lc_wakes (hp_cells (gs_heap s) c))\<rparr>"
  note pb = wiredD(3) [OF w]
  note d = plumbedD [OF pb]
  have "plumbed (spec_at (gs_config s)) (links (gs_config s))
      (s\<lparr>gs_next_send_origin := gs_next_send_origin s, gs_heap := (gs_heap s)\<lparr>hp_cells := (hp_cells (gs_heap s))(c := ?x)\<rparr>\<rparr>)"
  proof (rule send_cell [OF pb refl])
    fix a j assume a: "p_lock (sports s) a = Some c"
    have "lock_inv ?l" using linkedD(4) [OF d(1)] a by (simp add: cells_ok_def)
    then show "lock_inv (lc_lock ?x)" by (simp add: lock_inv_unregister)
    show "j < SEND_ORIGIN_BASE \<Longrightarrow> tag (lc_lock ?x) j = tag ?l j" using i by (auto simp: tag_unregister)
    show "tag (lc_lock ?x) j \<noteq> None \<Longrightarrow> j < gs_next_send_origin s"
      using d(3) a by (auto simp: tag_unregister ids_below_def split: if_splits)
  qed simp_all
  moreover have "send_end c i s = s\<lparr>gs_next_send_origin := gs_next_send_origin s,
      gs_heap := (gs_heap s)\<lparr>hp_cells := (hp_cells (gs_heap s))(c := ?x)\<rparr>\<rparr>"
    by (simp add: send_end_def wake_waiters_def with_lock_def)
  ultimately show ?thesis using w by (simp add: wired_def)
qed

section \<open>Runs\<close>

text \<open>
  \<open>E\<close> is the set of surroundings a verb may meet. The guards are the widths of the id allocators: the edge ids
  stay below the ids of transient sends, which stay below the width of a \<open>u64\<close>. The last three steps are those
  of node tasks and connections: a lock operation other than joining or leaving, a consumer's inbox, tap traffic.
\<close>

inductive daemon_step :: "('attr, 'codec) daemon_env set \<Rightarrow> ('attr, 're) GraphState \<Rightarrow> ('attr, 're) GraphState \<Rightarrow> bool"
  for E where
  DoLoad: "env \<in> E \<Longrightarrow> length (cfg_edges c) < unat SEND_ORIGIN_BASE \<Longrightarrow> daemon_step E s (snd (load env c replace s))"
| DoAddNode: "env \<in> E \<Longrightarrow> daemon_step E s (snd (daemon_add_node env n s))"
| DoRemoveNode: "env \<in> E \<Longrightarrow> daemon_step E s (snd (remove_node env name cascade s))"
| DoConnect: "env \<in> E \<Longrightarrow> gs_next_edge_origin s < SEND_ORIGIN_BASE \<Longrightarrow> daemon_step E s (snd (connect env e s))"
| DoDisconnect: "env \<in> E \<Longrightarrow> daemon_step E s (snd (disconnect env e s))"
| DoTeardown: "env \<in> E \<Longrightarrow> daemon_step E s (snd (teardown_with env Teardown s))"
| DoLock: "env \<in> E \<Longrightarrow> daemon_step E s (snd (lock_verb env origin steals renewing s))"
| DoUnlock: "daemon_step E s (snd (unlock_verb origin s))"
| DoSendBegin: "unat (gs_next_send_origin s) + 1 < 2 ^ 64 \<Longrightarrow> daemon_step E s (snd (send_begin endpoint serviceable s))"
| DoSendEnd: "SEND_ORIGIN_BASE \<le> i \<Longrightarrow> daemon_step E s (send_end c i s)"
| TaskLock: "\<not> membership_op opn \<Longrightarrow> daemon_step E s (s\<lparr>gs_heap := wake_waiters c (with_lock c (lock_apply opn) (gs_heap s))\<rparr>)"
| TaskInbox: "daemon_step E s (s\<lparr>gs_heap := (gs_heap s)\<lparr>hp_inboxes := (hp_inboxes (gs_heap s))(i := b)\<rparr>\<rparr>)"
| TaskHub: "hub_orphaned h' = hub_orphaned (hp_hubs (gs_heap s) h) \<Longrightarrow> hub_endpoint h' = hub_endpoint (hp_hubs (gs_heap s) h) \<Longrightarrow>
    daemon_step E s (s\<lparr>gs_heap := (gs_heap s)\<lparr>hp_hubs := (hp_hubs (gs_heap s))(h := h')\<rparr>, gs_tap_env := tenv\<rparr>)"

definition reachable :: "('attr, 'codec) daemon_env set \<Rightarrow> ('attr, 're) GraphState \<Rightarrow> bool" where
  "reachable E s \<longleftrightarrow> (\<exists>tenv. (daemon_step E)\<^sup>*\<^sup>* (daemon_new tenv) s)"

lemma wired_tap_env: "wired (s\<lparr>gs_tap_env := tenv\<rparr>) = wired s"
  by (simp add: wired_def plumbed_def sports_def state_keys_ok_def)

lemma wired_step:
  assumes "daemon_step E s s'" "\<forall>env \<in> E. env_ok env" "wired s"
  shows "wired s'"
  using assms
proof cases
  case (DoLoad env c replace)
  then show ?thesis using load_result(1) [of s env c replace] assms by (metis prod.collapse)
next
  case (DoAddNode env n)
  then show ?thesis using add_node_result(1) [of s env n] assms by (metis prod.collapse)
next
  case (DoRemoveNode env name cascade)
  then show ?thesis using remove_node_result(1) [of s env name cascade] assms by (metis prod.collapse)
next
  case (DoConnect env e)
  then show ?thesis using connect_result(1) [of s env e] assms by (metis prod.collapse)
next
  case (DoDisconnect env e)
  then show ?thesis using disconnect_result(1) [of s env e] assms by (metis prod.collapse)
next
  case (DoTeardown env)
  have "gs_next_edge_origin s \<le> SEND_ORIGIN_BASE" "SEND_ORIGIN_BASE \<le> gs_next_send_origin s"
    using wiredD(3) [OF assms(3)] by (simp_all add: plumbed_def)
  then show ?thesis using DoTeardown teardown_wired(1) by simp
next
  case (TaskLock opn c)
  have "heap_only s (s\<lparr>gs_heap := wake_waiters c (with_lock c (lock_apply opn) (gs_heap s))\<rparr>)"
    using heap_only_wake [OF heap_only_apply [OF TaskLock(2) heap_only_refl], of s c c] by simp
  then show ?thesis using TaskLock(1) heap_only_wired [OF assms(3)] by simp
next
  case (TaskInbox i b)
  have "heap_only s (s\<lparr>gs_heap := (gs_heap s)\<lparr>hp_inboxes := (hp_inboxes (gs_heap s))(i := b)\<rparr>\<rparr>)"
    by (rule heap_only_step [OF heap_only_refl]) (simp add: heap_kept_def)
  then show ?thesis using TaskInbox heap_only_wired [OF assms(3)] by simp
next
  case (TaskHub h' h tenv)
  have "heap_only s (s\<lparr>gs_heap := (gs_heap s)\<lparr>hp_hubs := (hp_hubs (gs_heap s))(h := h')\<rparr>\<rparr>)"
    by (rule heap_only_step [OF heap_only_refl]) (use TaskHub in \<open>simp add: heap_kept_def\<close>)
  from heap_only_wired [OF assms(3) this] show ?thesis unfolding TaskHub(1) wired_tap_env .
qed (use assms heap_only_wired [OF assms(3) lock_verb_heap_only] heap_only_wired [OF assms(3) unlock_verb_heap_only]
    send_begin_wired send_end_wired in auto)

lemma reachable_wired:
  assumes "reachable E s" "\<forall>env \<in> E. env_ok env"
  shows "wired s"
proof -
  obtain tenv where "(daemon_step E)\<^sup>*\<^sup>* (daemon_new tenv) s" using assms(1) by (auto simp: reachable_def)
  then show ?thesis
    by (induction rule: rtranclp_induct) (use assms(2) wired_step wired_new in blast)+
qed

section \<open>What the invariant says of a state\<close>

text \<open>An edge of the configuration joins \<open>h\<close> to \<open>t\<close> with effective mode \<open>m\<close>.\<close>

definition joins :: "'attr GraphConfig \<Rightarrow> EndpointAddr \<Rightarrow> EndpointAddr \<Rightarrow> WriteMode \<Rightarrow> bool" where
  "joins c h t m \<longleftrightarrow> (\<exists>e \<in> set (cfg_edges c). edge_ends c e = Some (h, t) \<and> effective_write_mode c e = m)"

lemma joins_links: "config_valid c \<Longrightarrow> (t, h, m) \<in> set (links c) \<longleftrightarrow> joins c h t m"
  using valid_ends(1) [of c] by (force simp: links_def link_of_def joins_def)

lemma joins_map_of: "config_valid c \<Longrightarrow> map_of (links c) t = Some (h, m) \<longleftrightarrow> joins c h t m"
  using links_map_of [of c] map_of_SomeD [of "links c" t] joins_links [of c] by (auto simp: joins_def)

lemma key_endpoint:
  assumes "keys_ok m" "hash_get m k = Some x"
  obtains a where "k = EndpointAddr_display a" "CHR ''/'' \<notin> set (addr_node a)" "named m a = Some x" "a = EndpointAddr_from_str k"
  using assms keys_ok_get [OF assms] from_str_plain [of k] by (metis keys_ok_def)

lemma lock_origins:
  assumes w: "wired s" and x: "p_lock (sports s) a = Some x"
  shows "(\<exists>i < SEND_ORIGIN_BASE. tag (lock_at (gs_heap s) x) i = Some (lbl, m)) \<longleftrightarrow>
    (\<exists>t. joins (gs_config s) a t m \<and> lbl = EndpointAddr_display t)"
proof -
  note lk = plumbedD(1) [OF wiredD(3) [OF w]] and lim = plumbedD(4) [OF wiredD(3) [OF w]]
  note c = wiredD(1) [OF w]
  have inj: "inj_map (p_lock (sports s))" using separateD(1) [OF linkedD(3) [OF lk]] .
  show ?thesis
  proof
    assume "\<exists>i < SEND_ORIGIN_BASE. tag (lock_at (gs_heap s) x) i = Some (lbl, m)"
    then obtain i where i: "i < SEND_ORIGIN_BASE" "tag (lock_at (gs_heap s) x) i = Some (lbl, m)" by blast
    then obtain t y where y: "p_slot (sports s) t = Some y" "edge_registered (hp_slots (gs_heap s) y) = Some (x, i)"
      using linkedD(7) [OF lk] x unfolding origins_ok_def by (metis option.distinct(1))
    obtain h w where "map_of (links (gs_config s)) t = Some (h, w)" "p_lock (sports s) h = Some x"
      "tag (lock_at (gs_heap s) x) i = Some (EndpointAddr_display t, w)" using registered_link [OF lk y] by metis
    then show "\<exists>t. joins (gs_config s) a t m \<and> lbl = EndpointAddr_display t"
      using i(2) inj_mapD [OF inj x] joins_map_of [OF c] by auto
  next
    assume "\<exists>t. joins (gs_config s) a t m \<and> lbl = EndpointAddr_display t"
    then obtain t where t: "map_of (links (gs_config s)) t = Some (a, m)" "lbl = EndpointAddr_display t"
      using joins_map_of [OF c] by blast
    then have "faces Target (spec_at (gs_config s)) t"
      using linkedD(1) [OF lk] map_of_SomeD by (fastforce simp: links_ok_def list_all_iff)
    then obtain y where y: "p_slot (sports s) t = Some y" using completeD(6) [OF linkedD(2) [OF lk]] by blast
    obtain i where "unat i < unat (gs_next_edge_origin s)" "tag (lock_at (gs_heap s) x) i = Some (EndpointAddr_display t, m)"
      using linked_slot [OF lk y] t(1) x by (auto simp: slot_ok_def)
    then show "\<exists>i < SEND_ORIGIN_BASE. tag (lock_at (gs_heap s) x) i = Some (lbl, m)"
      using t(2) lim by (metis order_less_le_trans word_less_nat_alt)
  qed
qed

lemma origin_named:
  assumes w: "wired s"
  shows "resolve_origin s name = Some (x, i) \<Longrightarrow>
      \<exists>h t m. name = EndpointAddr_display t \<and> joins (gs_config s) h t m \<and> m \<noteq> Never \<and>
        hash_get (gs_endpoint_locks s) (EndpointAddr_display h) = Some x \<and> tag (lock_at (gs_heap s) x) i = Some (name, m)"
    "joins (gs_config s) h t m \<Longrightarrow> m \<noteq> Never \<Longrightarrow> resolve_origin s (EndpointAddr_display t) \<noteq> None"
proof -
  note lk = plumbedD(1) [OF wiredD(3) [OF w]] and keys = plumbedD(6) [OF wiredD(3) [OF w]]
  note c = wiredD(1) [OF w]
  { assume "resolve_origin s name = Some (x, i)"
    then obtain t where t: "name = EndpointAddr_display t" "named (gs_origin_locks s) t = Some (x, i)"
      using key_endpoint [of "gs_origin_locks s" name "(x, i)"] keys by (auto simp: resolve_origin_def state_keys_ok_def)
    then obtain y where y: "p_slot (sports s) t = Some y" "edge_registered (hp_slots (gs_heap s) y) = Some (x, i)"
      "edge_writer (hp_slots (gs_heap s) y) \<noteq> None"
      using linkedD(8) [OF lk] by (auto simp: names_ok_def sports_def split: option.splits if_splits)
    obtain h m where hm: "map_of (links (gs_config s)) t = Some (h, m)" "p_lock (sports s) h = Some x"
      "tag (lock_at (gs_heap s) x) i = Some (EndpointAddr_display t, m)" using registered_link [OF lk y(1,2)] by metis
    have "m \<noteq> Never" using linked_slot [OF lk y(1)] hm(1) y(3) by (auto simp: slot_ok_def)
    moreover have "hash_get (gs_endpoint_locks s) (EndpointAddr_display h) = Some x"
      using hm(2) by (simp add: sports_def named_def split: if_splits)
    ultimately show "\<exists>h t m. name = EndpointAddr_display t \<and> joins (gs_config s) h t m \<and> m \<noteq> Never \<and>
        hash_get (gs_endpoint_locks s) (EndpointAddr_display h) = Some x \<and> tag (lock_at (gs_heap s) x) i = Some (name, m)"
      using t(1) hm(1,3) joins_map_of [OF c] by blast }
  { assume j: "joins (gs_config s) h t m" "m \<noteq> Never"
    then have m: "map_of (links (gs_config s)) t = Some (h, m)" using joins_map_of [OF c] by blast
    then have f: "faces Target (spec_at (gs_config s)) t" "faces Host (spec_at (gs_config s)) h"
      using linkedD(1) [OF lk] map_of_SomeD by (fastforce simp: links_ok_def list_all_iff)+
    then obtain y where y: "p_slot (sports s) t = Some y" using completeD(6) [OF linkedD(2) [OF lk]] by blast
    have "p_origin (sports s) t \<noteq> None"
      using linked_slot [OF lk y] m j(2) y linkedD(8) [OF lk] completeD(2) [OF linkedD(2) [OF lk] f(2)] by (auto simp: slot_ok_def names_ok_def)
    then show "resolve_origin s (EndpointAddr_display t) \<noteq> None"
      by (auto simp: sports_def named_def resolve_origin_def split: if_splits) }
qed

section \<open>A bench to try it on\<close>

definition bench_env :: "(unit, unit) daemon_env" where
  "bench_env =
     \<lparr>env_count_order = rev, env_key_order = rev, env_facing_order = rev, env_registry = registry_new,
      env_exec_parse = (\<lambda>_. Ok ()),
      env_fs = \<lparr>fs_read_dir = (\<lambda>_. None), fs_read_link = (\<lambda>_. None), fs_canonicalize = (\<lambda>_. None),
        fs_is_dir = (\<lambda>_. None), fs_read_to_string = (\<lambda>_. None)\<rparr>,
      env_resolver = resolver_new (path_new ''/dev''), env_honours = (\<lambda>_ _. None), env_born = (\<lambda>_. Active),
      env_child_live = (\<lambda>_. False), env_purge = (\<lambda>_. 0), env_owed = (\<lambda>_. 0), env_clock = 0\<rparr>"

definition bench_taps :: tap_env where
  "bench_taps = \<lparr>te_chans = (\<lambda>_. \<lparr>tc_cap = 0, tc_sent = [], tc_taken = 0, tc_open = False\<rparr>), te_lanes = (\<lambda>_. []), te_ends = []\<rparr>"

definition bench :: "(unit, unit) GraphState" where
  "bench = snd (load bench_env example_config False (daemon_new bench_taps))"

lemma bench_env_ok: "\<forall>env \<in> {bench_env}. env_ok env"
  by (simp add: env_ok_def bench_env_def rev_orders_ok perm_order_def)

lemma example_valid: "config_valid example_config"
  using validate_config [OF rev_orders_ok, of example_config] example_validates by blast

lemma bench_count: "length (nodes example_config) = 3"
  by (simp add: example_config_def)

lemma example_prechecks:
  "precheck_codecs env (nodes example_config) = Inr ()" "precheck_flow_control env (nodes example_config) = Inr ()"
  by (simp_all add: example_config_def flow_precheck_target_def)

lemma example_edges: "length (cfg_edges example_config) < unat SEND_ORIGIN_BASE"
  by (simp add: example_config_def SEND_ORIGIN_BASE_def)

text \<open>A configuration that passes the checks loads into an empty daemon.\<close>

lemma load_succeeds:
  assumes "env_ok env" "config_valid c" "precheck_codecs env (nodes c) = Inr ()" "precheck_flow_control env (nodes c) = Inr ()"
    and "gs_nodes s = []"
  shows "fst (load env c False s) = Ok (Loaded (length (nodes c)) 0 0)"
proof -
  have check: "structural_check env c = Inr ()" using assms(1,2) structural_valid by blast
  obtain ups where ups: "instantiate_all env (nodes c) = Inr ups"
    using precheck_instantiate [OF assms(3)] assms(2) by (auto simp: config_valid_def)
  then have "length ups = length (nodes c)" using instantiate_all_config [OF ups] by (metis length_map)
  then have "fst (load_commit env c s) = Inr (length (nodes c))"
    using ups assms(5) by (simp add: load_commit_def Let_def split: prod.split)
  then show ?thesis
    by (cases "load_commit env c s") (simp add: load_def check assms(3,4))
qed

lemma bench_reachable: "reachable {bench_env} bench"
proof -
  have "daemon_step {bench_env} (daemon_new bench_taps) bench"
    unfolding bench_def by (rule DoLoad) (simp_all add: example_edges)
  then show ?thesis unfolding reachable_def by (intro exI [of _ bench_taps]) (rule r_into_rtranclp)
qed

lemma bench_config: "gs_config bench = example_config"
proof -
  have new: "wired (daemon_new bench_taps :: (unit, unit) GraphState)" by (rule wired_new [OF refl])
  have "fst (load bench_env example_config False (daemon_new bench_taps :: (unit, unit) GraphState)) = Ok (Loaded (length (nodes example_config)) 0 0)"
    using bench_env_ok by (intro load_succeeds) (simp_all add: example_valid example_prechecks daemon_new_def)
  then show ?thesis
    using load_result(3) [OF new _ example_edges, of bench_env False] bench_env_ok unfolding bench_def
    by (metis prod.collapse singletonI)
qed

section \<open>The live graph\<close>

text \<open>
  C2: the wiring is a function of the configuration. Whatever verbs the daemon served and whatever its node tasks
  did in between, the configuration is valid, the nodes are those it names, and the objects the maps reach are
  exactly its wiring: every host-facing endpoint has a lock, a channel, a fan-out list and a live tap hub, every
  target-facing one an inbox, counters and an edge slot, and no two endpoints share any of them; locks are open and
  consistent; the sinks of a fan-out list are its edges, each with the counters of its target and a channel that no
  other sink and no writer has; a slot is attached exactly as its edge says, and unattached without one.
\<close>

theorem live_graph_wired:
  assumes "\<forall>env \<in> E. env_ok env" and "reachable E s"
  shows "wired s"
  by (rule reachable_wired [OF assms(2,1)])

text \<open>
  C10: no phantom origin and no phantom holder among the edges. On the lock that an endpoint's name leads to, the
  origins under edge ids are, by label and mode, exactly the edges the configuration has at that endpoint; and a
  holder under an edge id is one of those edges, one that may write. (The ids from \<open>SEND_ORIGIN_BASE\<close> on are the
  transient origins of \<open>send\<close>, of which this says nothing.)
\<close>

theorem locks_list_the_edges:
  assumes "\<forall>env \<in> E. env_ok env" and "reachable E s" and "hash_get (gs_endpoint_locks s) k = Some x"
  shows "k = EndpointAddr_display (EndpointAddr_from_str k) \<and>
    (\<forall>lbl m. (\<exists>i < SEND_ORIGIN_BASE. tag (lock_at (gs_heap s) x) i = Some (lbl, m)) \<longleftrightarrow>
       (\<exists>t. joins (gs_config s) (EndpointAddr_from_str k) t m \<and> lbl = EndpointAddr_display t)) \<and>
    (\<forall>i. holder (lock_at (gs_heap s) x) = Some i \<and> i < SEND_ORIGIN_BASE \<longrightarrow>
       (\<exists>t m. joins (gs_config s) (EndpointAddr_from_str k) t m \<and> m \<noteq> Never \<and>
          tag (lock_at (gs_heap s) x) i = Some (EndpointAddr_display t, m)))"
proof -
  have w: "wired s" by (rule reachable_wired [OF assms(2,1)])
  have keys: "keys_ok (gs_endpoint_locks s)" using plumbedD(6) [OF wiredD(3) [OF w]] by (simp add: state_keys_ok_def)
  let ?a = "EndpointAddr_from_str k"
  have x: "p_lock (sports s) ?a = Some x" using keys_ok_get [OF keys assms(3)] by (simp add: sports_def)
  note origins = lock_origins [OF w x]
  have inv: "lock_inv (lock_at (gs_heap s) x)"
    using linkedD(4) [OF plumbedD(1) [OF wiredD(3) [OF w]]] x by (simp add: cells_ok_def)
  have "\<exists>t m. joins (gs_config s) ?a t m \<and> m \<noteq> Never \<and> tag (lock_at (gs_heap s) x) i = Some (EndpointAddr_display t, m)"
    if "holder (lock_at (gs_heap s) x) = Some i" "i < SEND_ORIGIN_BASE" for i
  proof -
    have "lock_writer (lock_at (gs_heap s) x) i" using inv that(1) by (simp add: lock_inv_def)
    then obtain lbl m where lm: "tag (lock_at (gs_heap s) x) i = Some (lbl, m)" "m \<noteq> Never"
      by (auto simp: lock_writer_def tag_def split: option.splits)
    then show ?thesis using origins [of lbl m] that(2) by auto
  qed
  moreover have "k = EndpointAddr_display ?a" using keys assms(3) by (simp add: keys_ok_def)
  ultimately show ?thesis using origins by blast
qed

lemma bench_edge: "joins example_config (EndpointAddr_node ''port'') (EndpointAddr_node ''p'') OnDemand"
proof -
  have "cfg_edges example_config ! 1 \<in> set (cfg_edges example_config)" by (simp add: example_config_def)
  moreover have "effective_write_mode example_config (cfg_edges example_config ! 1) = OnDemand" by code_simp
  ultimately show ?thesis using example_ends(2) unfolding joins_def by blast
qed

lemma bench_port: "\<exists>x. hash_get (gs_endpoint_locks bench) ''port'' = Some x" "\<exists>f. hash_get (gs_host_fanout bench) ''port'' = Some f"
proof -
  have w: "wired bench" by (rule reachable_wired [OF bench_reachable bench_env_ok])
  have "spec_at example_config (EndpointAddr_node ''port'') = Some (Host, Exclusive)" by code_simp
  then have "faces Host (spec_at (gs_config bench)) (EndpointAddr_node ''port'')" by (simp add: faces_def bench_config)
  then have "p_lock (sports bench) (EndpointAddr_node ''port'') \<noteq> None" "p_fan (sports bench) (EndpointAddr_node ''port'') \<noteq> None"
    using completeD(1,3) [OF linkedD(2) [OF plumbedD(1) [OF wiredD(3) [OF w]]]] by blast+
  then show "\<exists>x. hash_get (gs_endpoint_locks bench) ''port'' = Some x" "\<exists>f. hash_get (gs_host_fanout bench) ''port'' = Some f"
    by (auto simp: sports_def named_def EndpointAddr_node_def EndpointAddr_display_def is_default_def)
qed

text \<open>The two host-facing endpoints of the bench are not written through one channel.\<close>

theorem live_graph_wired_witness:
  "\<exists>x y. gs_config bench = example_config \<and> hash_get (gs_endpoint_targetward bench) ''port'' = Some x \<and>
     hash_get (gs_endpoint_targetward bench) ''m'' = Some y \<and> x \<noteq> y"
proof -
  note lk = plumbedD(1) [OF wiredD(3) [OF live_graph_wired [OF bench_env_ok bench_reachable]]]
  have "spec_at example_config (EndpointAddr_node ''port'') = Some (Host, Exclusive)"
    "spec_at example_config (EndpointAddr_node ''m'') = Some (Host, Exclusive)" by code_simp+
  then have "faces Host (spec_at (gs_config bench)) (EndpointAddr_node ''port'')"
    "faces Host (spec_at (gs_config bench)) (EndpointAddr_node ''m'')" by (simp_all add: faces_def bench_config)
  then obtain x y where "p_tx (sports bench) (EndpointAddr_node ''port'') = Some x" "p_tx (sports bench) (EndpointAddr_node ''m'') = Some y"
    using completeD(2) [OF linkedD(2) [OF lk]] by blast
  moreover from this have "x \<noteq> y"
    using linkedD(3) [OF lk] inj_mapD [of "p_tx (sports bench)" "EndpointAddr_node ''port''" x "EndpointAddr_node ''m''"]
    by (auto simp: separate_def own_def EndpointAddr_node_def)
  ultimately show ?thesis
    by (auto simp: bench_config sports_def named_def EndpointAddr_node_def EndpointAddr_display_def is_default_def)
qed

lemma port_parses: "EndpointAddr_from_str ''port'' = EndpointAddr_node ''port''" "EndpointAddr_display (EndpointAddr_node ''p'') = ''p''"
  by code_simp+

theorem locks_list_the_edges_witness:
  "\<exists>x i. hash_get (gs_endpoint_locks bench) ''port'' = Some x \<and> tag (lock_at (gs_heap bench) x) i = Some (''p'', OnDemand)"
proof -
  obtain x where x: "hash_get (gs_endpoint_locks bench) ''port'' = Some x" using bench_port by blast
  from locks_list_the_edges [OF bench_env_ok bench_reachable x] bench_edge x show ?thesis
    unfolding port_parses bench_config by (metis port_parses(2))
qed

text \<open>
  C30: a chunk goes to every connected consumer once, and to nobody else. The fan-out list an endpoint's name
  leads to holds the target-facing ends of the configuration's edges at that endpoint, in configuration order,
  none twice.
\<close>

theorem fan_out_is_the_edges:
  assumes "\<forall>env \<in> E. env_ok env" and "reachable E s" and "hash_get (gs_host_fanout s) k = Some f"
  shows "map sink_target (hp_fanouts (gs_heap s) f) =
      List.map_filter (\<lambda>e. case edge_ends (gs_config s) e of
          Some (h, t) \<Rightarrow> if h = EndpointAddr_from_str k then Some t else None
        | None \<Rightarrow> None) (cfg_edges (gs_config s)) \<and>
    distinct (map sink_target (hp_fanouts (gs_heap s) f))"
proof -
  have w: "wired s" by (rule reachable_wired [OF assms(2,1)])
  let ?a = "EndpointAddr_from_str k" and ?c = "gs_config s"
  note lk = plumbedD(1) [OF wiredD(3) [OF w]]
  have keys: "keys_ok (gs_host_fanout s)" using plumbedD(6) [OF wiredD(3) [OF w]] by (simp add: state_keys_ok_def)
  have "p_fan (sports s) ?a = Some f" using keys_ok_get [OF keys assms(3)] by (simp add: sports_def)
  then have sinks: "map sink_target (hp_fanouts (gs_heap s) f) = map fst (filter (\<lambda>(t, h, m). h = ?a) (links ?c))"
    using linkedD(5) [OF lk] by (simp add: fans_ok_def)
  have "map fst (filter (\<lambda>(t, h, m). h = a) (map (link_of ?c) es)) = List.map_filter (\<lambda>e. case edge_ends ?c e of
      Some (h, t) \<Rightarrow> if h = a then Some t else None | None \<Rightarrow> None) es" if "\<forall>e \<in> set es. edge_ends ?c e \<noteq> None" for a es
    using that by (induction es) (auto simp: map_filter_simps link_of_def)
  then have "map fst (filter (\<lambda>(t, h, m). h = ?a) (links ?c)) = List.map_filter (\<lambda>e. case edge_ends ?c e of
      Some (h, t) \<Rightarrow> if h = ?a then Some t else None | None \<Rightarrow> None) (cfg_edges ?c)"
    using valid_ends(1) [OF wiredD(1) [OF w]] by (simp add: links_def)
  moreover have "distinct (map fst (filter (\<lambda>(t, h, m). h = ?a) (links ?c)))"
    using linkedD(1) [OF lk] by (simp add: links_ok_def distinct_map_filter)
  ultimately show ?thesis using sinks by simp
qed

theorem fan_out_is_the_edges_witness:
  "\<exists>f. hash_get (gs_host_fanout bench) ''port'' = Some f \<and>
     map sink_target (hp_fanouts (gs_heap bench) f) = [EndpointAddr_new ''m'' ''raw'', EndpointAddr_node ''p'']"
proof -
  obtain f where f: "hash_get (gs_host_fanout bench) ''port'' = Some f" using bench_port by blast
  have "List.map_filter (\<lambda>e. case edge_ends example_config e of
      Some (h, t) \<Rightarrow> if h = EndpointAddr_from_str ''port'' then Some t else None | None \<Rightarrow> None) (cfg_edges example_config) =
      [EndpointAddr_new ''m'' ''raw'', EndpointAddr_node ''p'']" by code_simp
  with fan_out_is_the_edges [OF bench_env_ok bench_reachable f] f show ?thesis by (auto simp: bench_config)
qed

text \<open>
  Names of origins are exact. A name the arbitration verbs accept is the target-facing end of a configured
  edge that may write, and leads to the lock of that edge's host-facing end under the id that lock lists with
  that name and mode; and every configured edge that may write has its name.
\<close>

theorem origin_names_exact:
  assumes "\<forall>env \<in> E. env_ok env" and "reachable E s"
  shows "(\<forall>x i. resolve_origin s name = Some (x, i) \<longrightarrow>
      (\<exists>h t m. name = EndpointAddr_display t \<and> joins (gs_config s) h t m \<and> m \<noteq> Never \<and>
        hash_get (gs_endpoint_locks s) (EndpointAddr_display h) = Some x \<and>
        tag (lock_at (gs_heap s) x) i = Some (name, m))) \<and>
    (\<forall>h t m. joins (gs_config s) h t m \<and> m \<noteq> Never \<longrightarrow> resolve_origin s (EndpointAddr_display t) \<noteq> None)"
  using origin_named [OF reachable_wired [OF assms(2,1)]] by blast

theorem origin_names_exact_witness:
  "\<exists>x i m. resolve_origin bench ''p'' = Some (x, i) \<and> tag (lock_at (gs_heap bench) x) i = Some (''p'', m)"
proof -
  have "resolve_origin bench ''p'' \<noteq> None"
    using origin_names_exact [OF bench_env_ok bench_reachable, of "''p''"] bench_edge port_parses(2) bench_config
    by (metis WriteMode.distinct(1))
  then obtain x i where xi: "resolve_origin bench ''p'' = Some (x, i)" by auto
  then show ?thesis using origin_names_exact [OF bench_env_ok bench_reachable, of "''p''"] by blast
qed

text \<open>
  C9: a refused verb changes nothing. A \<open>load\<close> that fails, with \<open>--replace\<close> too, leaves the running graph
  as it was, and so do \<open>add-node\<close>, \<open>remove-node\<close> and \<open>disconnect\<close>; a \<open>connect\<close> that fails leaves it as it was
  or, refused for a full edge inbox, has spent an edge id and a handle that nothing refers to.
\<close>

theorem refused_verbs_change_nothing:
  assumes "\<forall>env \<in> E. env_ok env" and "reachable E s" and "env \<in> E"
  shows "(length (cfg_edges c) < unat SEND_ORIGIN_BASE \<and> load env c replace s = (Inl err, s') \<longrightarrow> s' = s) \<and>
    (daemon_add_node env n s = (Inl err, s') \<longrightarrow> s' = s) \<and>
    (remove_node env name cascade s = (Inl err, s') \<longrightarrow> s' = s) \<and>
    (disconnect env e s = (Inl err, s') \<longrightarrow> s' = s) \<and>
    (gs_next_edge_origin s < SEND_ORIGIN_BASE \<and> connect env e s = (Inl err, s') \<longrightarrow>
       s' = s \<or> (\<exists>t. err = EdgeInboxFull t) \<and> unspent s s')"
proof -
  have w: "wired s" by (rule reachable_wired [OF assms(2,1)])
  have env: "env_ok env" using assms(1,3) by blast
  show ?thesis
    using load_result(2) [OF w env _ _ refl] add_node_result(2) [OF w env _ refl] remove_node_result(2) [OF w _ refl]
      disconnect_result(2) [OF w _ refl] connect_result(2) [OF w env _ _ refl] by blast
qed

theorem refused_verbs_change_nothing_witness: "load bench_env example_config False bench = (Inl LoadNonEmpty, bench)"
proof -
  have w: "wired bench" by (rule reachable_wired [OF bench_reachable bench_env_ok])
  then have "map nd_config (gs_nodes bench) = nodes example_config" using wiredD(2) bench_config by metis
  then have "gs_nodes bench \<noteq> []" by (auto simp: example_config_def)
  moreover have "structural_check bench_env example_config = Inr ()"
    using structural_valid [of bench_env example_config] bench_env_ok example_valid by simp
  ultimately have err: "fst (load bench_env example_config False bench) = Inl LoadNonEmpty"
    by (simp add: load_def load_commit_def example_prechecks)
  then have "load bench_env example_config False bench = (Inl LoadNonEmpty, snd (load bench_env example_config False bench))"
    by (metis prod.collapse)
  with refused_verbs_change_nothing [OF bench_env_ok bench_reachable, of bench_env example_config False LoadNonEmpty
      "snd (load bench_env example_config False bench)"] example_edges show ?thesis by simp
qed

text \<open>
  C31: a removed node is gone. After \<open>remove-node\<close> the configuration is the old one without the node and the
  edges at it, the rest of the graph is wired as before, every lock the node's endpoints had is closed and its
  waiters woken, so that nobody waits on it forever, and no name leads to it any more.
\<close>

theorem removed_node_is_gone:
  assumes "\<forall>env \<in> E. env_ok env" and "reachable E s" and "remove_node env name cascade s = (Ok a, s')"
  shows "wired s' \<and> gs_config s' = without_node (gs_config s) name \<and>
    (\<forall>k x. hash_get (gs_endpoint_locks s) k = Some x \<and> addr_node (EndpointAddr_from_str k) = name \<longrightarrow>
       lc_closed (hp_cells (gs_heap s') x) \<and> lc_wakes (hp_cells (gs_heap s) x) < lc_wakes (hp_cells (gs_heap s') x) \<and>
       hash_get (gs_endpoint_locks s') k = None)"
proof -
  have w: "wired s" by (rule reachable_wired [OF assms(2,1)])
  note res = remove_node_result [OF w assms(3)]
  have keys: "keys_ok (gs_endpoint_locks t)" if "wired t" for t :: "('a, 'c) GraphState"
    using plumbedD(6) [OF wiredD(3) [OF that]] by (simp add: state_keys_ok_def)
  have "torn_down (hp_cells (gs_heap s) x) (hp_cells (gs_heap s') x) \<and> hash_get (gs_endpoint_locks s') k = None"
    if k: "hash_get (gs_endpoint_locks s) k = Some x" "addr_node (EndpointAddr_from_str k) = name" for k x
  proof
    have "p_lock (sports s) (EndpointAddr_from_str k) = Some x"
      using keys_ok_get [OF keys [OF w] k(1)] by (simp add: sports_def)
    then show "torn_down (hp_cells (gs_heap s) x) (hp_cells (gs_heap s') x)" using res(4) [OF refl k(2)] by blast
    show "hash_get (gs_endpoint_locks s') k = None"
    proof (rule ccontr)
      assume "hash_get (gs_endpoint_locks s') k \<noteq> None"
      then obtain y where "p_lock (sports s') (EndpointAddr_from_str k) = Some y"
        using keys_ok_get [OF keys [OF res(1)], of k] by (auto simp: sports_def)
      then have "faces Host (spec_at (without_node (gs_config s) name)) (EndpointAddr_from_str k)"
        using completeD(7) [OF linkedD(2) [OF plumbedD(1) [OF wiredD(3) [OF res(1)]]]] res(3) [OF refl] by metis
      then show False using k(2) by (simp add: faces_def spec_at_def without_node_named)
    qed
  qed
  then show ?thesis using res(1) res(3) [OF refl] unfolding torn_down_def by blast
qed

lemma bench_lock: "\<exists>x. hash_get (gs_endpoint_locks bench) ''m'' = Some x"
proof -
  have w: "wired bench" by (rule reachable_wired [OF bench_reachable bench_env_ok])
  have "spec_at example_config (EndpointAddr_node ''m'') = Some (Host, Exclusive)" by code_simp
  then have "faces Host (spec_at (gs_config bench)) (EndpointAddr_node ''m'')" by (simp add: faces_def bench_config)
  then have "p_lock (sports bench) (EndpointAddr_node ''m'') \<noteq> None"
    using completeD(1) [OF linkedD(2) [OF plumbedD(1) [OF wiredD(3) [OF w]]]] by blast
  then show ?thesis by (auto simp: sports_def named_def EndpointAddr_node_def EndpointAddr_display_def is_default_def)
qed

theorem removed_node_is_gone_witness:
  "\<exists>a s' x. remove_node bench_env ''m'' True bench = (Ok a, s') \<and> wired s' \<and> node_names (gs_config s') = [''port'', ''p''] \<and>
     length (cfg_edges (gs_config s')) = 1 \<and> hash_get (gs_endpoint_locks bench) ''m'' = Some x \<and>
     lc_closed (hp_cells (gs_heap s') x) \<and> lc_wakes (hp_cells (gs_heap bench) x) < lc_wakes (hp_cells (gs_heap s') x)"
proof -
  have w: "wired bench" by (rule reachable_wired [OF bench_reachable bench_env_ok])
  obtain r s' where run: "remove_node bench_env ''m'' True bench = (r, s')" by (cases "remove_node bench_env ''m'' True bench")
  have "map nd_config (gs_nodes bench) = nodes example_config" using wiredD(2) [OF w] bench_config by metis
  then have "''m'' \<in> set (map node_name (map nd_config (gs_nodes bench)))" by (simp add: example_config_def)
  then have "\<exists>n \<in> set (gs_nodes bench). nd_name n = ''m''" by auto
  then obtain idx where "position (\<lambda>n. nd_name n = ''m'') (gs_nodes bench) = Some idx"
    using position_None_iff [of "\<lambda>n. nd_name n = ''m''" "gs_nodes bench"] by fastforce
  from removal_wired(2) [OF w this _ run] obtain a where "r = Ok a" by auto
  with run have ok: "remove_node bench_env ''m'' True bench = (Ok a, s')" by simp
  obtain x where x: "hash_get (gs_endpoint_locks bench) ''m'' = Some x" using bench_lock by blast
  have "node_names (without_node example_config ''m'') = [''port'', ''p''] \<and> length (cfg_edges (without_node example_config ''m'')) = 1"
    "addr_node (EndpointAddr_from_str ''m'') = ''m''"
    by code_simp+
  with removed_node_is_gone [OF bench_env_ok bench_reachable ok] ok x show ?thesis unfolding bench_config by metis
qed

end
