(* ===== verification/Log_Queue.thy ===== *)
theory Log_Queue
  imports Config Node_State Rust_Path
begin

text \<open>
  The log node (\<open>daemon/src/nodes/log.rs\<close>): a bounded queue between the pump that takes console bytes and the
  writer thread that appends them to a file, and rotation of that file at a point of the byte stream. The lists
  of answers a system call gives, the listing of the log directory and the clock are arguments. The directory
  maps a path below it to the contents of the file there; only the node touches those files. The file handle
  the writer holds is that of the current file: rotation replaces both together.
\<close>

section \<open>Numbered file names\<close>

function decimal :: "nat \<Rightarrow> string" where
  "decimal n = (if n < 10 then [char_of (48 + n)] else decimal (n div 10) @ [char_of (48 + n mod 10)])"
  by pat_completeness auto
termination
  by (relation "measure id") auto

declare decimal.simps [simp del]

text \<open>\<open>format!("{filename}.{next:0padding$}")\<close>.\<close>

definition padded :: "nat \<Rightarrow> nat \<Rightarrow> string" where
  "padded width n = replicate (width - length (decimal n)) (CHR ''0'') @ decimal n"

definition rotated_name :: "string \<Rightarrow> nat \<Rightarrow> u64 \<Rightarrow> string" where
  "rotated_name filename padding n = filename @ ''.'' @ padded padding (unat n)"

text \<open>\<open>str::parse::<u64>\<close>: an optional plus, then digits, within range.\<close>

definition parse_u64 :: "string \<Rightarrow> u64 option" where
  "parse_u64 s =
     (let body = (case s of c # r \<Rightarrow> if c = CHR ''+'' \<and> r \<noteq> [] then r else s | [] \<Rightarrow> []);
          (ds, rest) = read_digits 10 body;
          v = foldl (\<lambda>acc d. acc * 10 + d) 0 ds
      in if ds = [] \<or> rest \<noteq> [] \<or> v \<ge> 2 ^ 64 then None else Some (word_of_nat v))"

text \<open>What the directory listing yields, entry by entry; a name that is not UTF-8 is skipped.\<close>

fun scan_entries :: "string \<Rightarrow> u64 option \<Rightarrow> (string, string) result list \<Rightarrow> (string, u64 option) result" where
  "scan_entries pre best [] = Ok best"
| "scan_entries pre best (Inl e # entries) = Err e"
| "scan_entries pre best (Inr name # entries) =
     (case from_utf8 (as_bytes name) of
        None \<Rightarrow> scan_entries pre best entries
      | Some name \<Rightarrow>
          (case strip_prefix pre name of
             None \<Rightarrow> scan_entries pre best entries
           | Some number \<Rightarrow>
               (case parse_u64 number of
                  None \<Rightarrow> scan_entries pre best entries
                | Some n \<Rightarrow>
                    scan_entries pre
                      (Some (case best of None \<Rightarrow> n | Some m \<Rightarrow> if m \<le> n then n else m)) entries)))"

definition scan_rotation ::
  "string \<Rightarrow> (string, (string, string) result list) result \<Rightarrow> (string, u64 option) result" where
  "scan_rotation filename listing =
     (case listing of Inl e \<Rightarrow> Err e | Inr entries \<Rightarrow> scan_entries (filename @ ''.'') None entries)"

section \<open>The queue\<close>

definition QUEUE_CAP_BYTES :: nat where
  "QUEUE_CAP_BYTES = 16 * 1024 * 1024"

datatype QueueItem = Bytes "byte list" | Rotate

fun item_len :: "QueueItem \<Rightarrow> nat" where
  "item_len (Bytes chunk) = length chunk"
| "item_len Rotate = 0"

record Queue =
  q_items :: "QueueItem list"
  q_queued_bytes :: nat
  q_draining_bytes :: nat
  q_dropped_bytes :: u64
  q_write_errors :: u64
  q_last_write_error :: "string option"
  q_rotate_pending :: u32
  q_rotation :: "u64 option"
  q_closed :: bool
  q_writer_gone :: bool
  q_status :: NodeState
  q_overflow :: OverflowPolicy

definition queue_fault :: "int \<Rightarrow> string \<Rightarrow> Queue \<Rightarrow> Queue" where
  "queue_fault clock why q = q\<lparr>q_status := snd (state_set (Faulted why) clock (q_status q))\<rparr>"

definition add_dropped :: "nat \<Rightarrow> Queue \<Rightarrow> Queue" where
  "add_dropped n q = q\<lparr>q_dropped_bytes := q_dropped_bytes q + word_of_nat n\<rparr>"

text \<open>The eviction loop: the oldest bytes go, rotation markers are stepped over.\<close>

fun is_bytes :: "QueueItem \<Rightarrow> bool" where
  "is_bytes (Bytes _) = True"
| "is_bytes Rotate = False"

function evict :: "nat \<Rightarrow> Queue \<Rightarrow> Queue" where
  "evict len q =
     (if q_queued_bytes q + len > QUEUE_CAP_BYTES then
        (case position is_bytes (q_items q) of
           None \<Rightarrow> q
         | Some pos \<Rightarrow>
             (let old = item_len (q_items q ! pos)
              in evict len (add_dropped old (q\<lparr>q_items := take pos (q_items q) @ drop (Suc pos) (q_items q),
                                               q_queued_bytes := q_queued_bytes q - old\<rparr>))))
      else q)"
  by pat_completeness auto
termination
  by (relation "measure (\<lambda>(len, q). length (q_items q))") (auto simp: add_dropped_def dest: position_SomeD)

declare evict.simps [simp del]

definition log_enqueue :: "int \<Rightarrow> byte list \<Rightarrow> Queue \<Rightarrow> bool \<times> Queue" where
  "log_enqueue clock chunk q =
     (let len = length chunk
      in if q_writer_gone q then (False, add_dropped len q)
         else if q_queued_bytes q + len > QUEUE_CAP_BYTES \<and> q_overflow q = Fault then
           (False, let q = add_dropped len q
                   in if is_active (q_status q) then queue_fault clock ''log queue overflow'' q else q)
         else
           (let q = (if q_queued_bytes q + len > QUEUE_CAP_BYTES then evict len q else q)
            in (True, q\<lparr>q_queued_bytes := q_queued_bytes q + len, q_items := q_items q @ [Bytes chunk]\<rparr>)))"

definition next_rotation :: "Queue \<Rightarrow> u64" where
  "next_rotation q = (case q_rotation q of None \<Rightarrow> 0 | Some n \<Rightarrow> saturating_add n 1)"

definition log_rotate :: "Queue \<Rightarrow> (string, u64) result \<times> Queue" where
  "log_rotate q =
     (case ns_status (q_status q) of
        Faulted why \<Rightarrow> (Err (''log node faulted: '' @ why), q)
      | _ \<Rightarrow>
          (Ok (saturating_add (next_rotation q) (ucast (q_rotate_pending q))),
           q\<lparr>q_rotate_pending := q_rotate_pending q + 1, q_items := q_items q @ [Rotate]\<rparr>))"

section \<open>The writer\<close>

datatype WriteAnswer = Wrote nat | Interrupted | WriteFailed string

text \<open>
  \<open>write_chunk\<close> on the answers successive \<open>write(2)\<close> calls give: how much was stored, the result, the answers
  not used. \<open>None\<close> is a call that has not returned, or one that claims more than it was given.
\<close>

fun write_chunk ::
  "WriteAnswer list \<Rightarrow> byte list \<Rightarrow> (nat \<times> (nat \<times> string, unit) result \<times> WriteAnswer list) option" where
  "write_chunk answers [] = Some (0, Ok (), answers)"
| "write_chunk [] (b # bs) = None"
| "write_chunk (Wrote n # answers) (b # bs) =
     (if n = 0 then Some (0, Err (length (b # bs), ''write returned zero bytes''), answers)
      else if n > length (b # bs) then None
      else map_option (\<lambda>(k, r). (n + k, r)) (write_chunk answers (drop n (b # bs))))"
| "write_chunk (Interrupted # answers) (b # bs) = write_chunk answers (b # bs)"
| "write_chunk (WriteFailed e # answers) (b # bs) = Some (0, Err (length (b # bs), e), answers)"

definition count_abandoned :: "QueueItem list \<Rightarrow> Queue \<Rightarrow> Queue" where
  "count_abandoned rest q = (fold (\<lambda>item. add_dropped (item_len item)) rest q)\<lparr>q_draining_bytes := 0\<rparr>"

definition abandon_queue :: "Queue \<Rightarrow> Queue" where
  "abandon_queue q = count_abandoned (q_items q) (q\<lparr>q_writer_gone := True, q_items := [], q_queued_bytes := 0\<rparr>)"

text \<open>The top of the loop: wait (\<open>None\<close>) or take everything queued, with whether the queue is closed.\<close>

definition writer_take :: "Queue \<Rightarrow> (QueueItem list \<times> bool) option \<times> Queue" where
  "writer_take q =
     (let q = q\<lparr>q_draining_bytes := 0\<rparr>
      in if q_items q = [] \<and> \<not> q_closed q then (None, q)
         else (Some (q_items q, q_closed q),
               q\<lparr>q_items := [], q_draining_bytes := q_queued_bytes q, q_queued_bytes := 0\<rparr>))"

type_synonym directory = "string \<rightharpoonup> byte list"

record log_place =
  lp_directory :: string
  lp_filename :: string
  lp_padding :: nat

text \<open>\<open>Path::join\<close> and \<open>display\<close> on the two texts.\<close>

definition join_text :: "string \<Rightarrow> string \<Rightarrow> string" where
  "join_text d f =
     (if f \<noteq> [] \<and> hd f = CHR ''/'' then f else if d = [] \<or> last d = CHR ''/'' then d @ f else d @ ''/'' @ f)"

definition current_path :: "log_place \<Rightarrow> string" where
  "current_path P = join_text (lp_directory P) (lp_filename P)"

definition append_file :: "string \<Rightarrow> byte list \<Rightarrow> directory \<Rightarrow> directory" where
  "append_file f bytes d = (case d f of None \<Rightarrow> d | Some old \<Rightarrow> d(f \<mapsto> old @ bytes))"

definition open_append :: "string \<Rightarrow> directory \<Rightarrow> directory" where
  "open_append f d = (case d f of None \<Rightarrow> d(f \<mapsto> []) | Some _ \<Rightarrow> d)"

definition rename_file :: "string \<Rightarrow> string \<Rightarrow> directory \<Rightarrow> directory" where
  "rename_file a b d = (case d a of None \<Rightarrow> d | Some c \<Rightarrow> d(a := None, b \<mapsto> c))"

text \<open>What follows a chunk's write: does the writer stop, and the queue.\<close>

definition settle_write ::
  "int \<Rightarrow> log_place \<Rightarrow> QueueItem list \<Rightarrow> (nat \<times> string, unit) result \<Rightarrow> Queue \<Rightarrow> bool \<times> Queue" where
  "settle_write clock P rest r q =
     (case r of
        Inr _ \<Rightarrow> (False, q)
      | Inl (unwritten, e) \<Rightarrow>
          (let q = add_dropped unwritten q; why = ''write '' @ current_path P @ '': '' @ e
           in case q_overflow q of
                Fault \<Rightarrow> (True, queue_fault clock why (count_abandoned rest q))
              | DropOldest \<Rightarrow>
                  (False, q\<lparr>q_write_errors := q_write_errors q + 1, q_last_write_error := Some why\<rparr>)))"

definition pending_less :: "Queue \<Rightarrow> Queue" where
  "pending_less q = q\<lparr>q_rotate_pending := (if q_rotate_pending q = 0 then 0 else q_rotate_pending q - 1)\<rparr>"

text \<open>
  The rename and the reopen with the errors they give, if any: whether the writer goes on, whether the file
  was renamed, the queue and the directory.
\<close>

definition perform_rotation ::
  "int \<Rightarrow> log_place \<Rightarrow> string option \<Rightarrow> string option \<Rightarrow> Queue \<Rightarrow> directory \<Rightarrow> bool \<times> bool \<times> Queue \<times> directory" where
  "perform_rotation clock P rename_error open_error q d =
     (let nxt = next_rotation q; rotated = rotated_name (lp_filename P) (lp_padding P) nxt
      in case rename_error of
           Some e \<Rightarrow>
             (False, False, pending_less (queue_fault clock
                (''rotate '' @ current_path P @ '' -> '' @ join_text (lp_directory P) rotated @ '': '' @ e) q), d)
         | None \<Rightarrow>
             (let d = rename_file (lp_filename P) rotated d
              in case open_error of
                   None \<Rightarrow>
                     (True, True, pending_less (q\<lparr>q_rotation := Some nxt\<rparr>), open_append (lp_filename P) d)
                 | Some e \<Rightarrow>
                     (False, True,
                      pending_less (queue_fault clock (''reopen after rotate '' @ current_path P @ '': '' @ e) q), d)))"

section \<open>The node\<close>

text \<open>
  Where the writer thread is: at the top of its loop, in a batch (what is left of it, and whether the queue was
  closed when it was taken), returned from the drain, or gone.
\<close>

datatype WriterState = AtTop | InBatch "QueueItem list" bool | Drained | Gone

record log_node =
  lg_queue :: Queue
  lg_pumping :: bool
  lg_stopped :: bool
  lg_writer :: WriterState
  lg_dir :: directory

definition rotation_padding :: "LogConfig \<Rightarrow> nat" where
  "rotation_padding c = unat (log_rotation_padding c)"

definition log_place_of :: "LogConfig \<Rightarrow> log_place" where
  "log_place_of c = \<lparr>lp_directory = log_directory c, lp_filename = log_filename c, lp_padding = rotation_padding c\<rparr>"

definition apply_spawn :: "int \<Rightarrow> string option \<Rightarrow> log_node \<Rightarrow> log_node" where
  "apply_spawn clock spawn_error n =
     (case spawn_error of
        None \<Rightarrow> n\<lparr>lg_queue := (lg_queue n)\<lparr>q_writer_gone := False\<rparr>, lg_writer := AtTop\<rparr>
      | Some e \<Rightarrow> n\<lparr>lg_queue := queue_fault clock (''spawn log writer thread: '' @ e) (lg_queue n)\<rparr>)"

definition queue_new :: "NodeStatus \<Rightarrow> int \<Rightarrow> u64 option \<Rightarrow> OverflowPolicy \<Rightarrow> Queue" where
  "queue_new status clock rotation overflow =
     \<lparr>q_items = [], q_queued_bytes = 0, q_draining_bytes = 0, q_dropped_bytes = 0, q_write_errors = 0,
      q_last_write_error = None, q_rotate_pending = 0, q_rotation = rotation, q_closed = False,
      q_writer_gone = True, q_status = state_new status clock, q_overflow = overflow\<rparr>"

definition log_create ::
  "LogConfig \<Rightarrow> (string, (string, string) result list) result \<Rightarrow> string option \<Rightarrow> string option \<Rightarrow> int \<Rightarrow> directory \<Rightarrow> log_node" where
  "log_create c listing open_error spawn_error clock d =
     (let scan = scan_rotation (log_filename c) listing;
          current = current_path (log_place_of c);
          status = (case open_error of
              Some e \<Rightarrow> Faulted (''open '' @ current @ '': '' @ e)
            | None \<Rightarrow> (case scan of
                Inl e \<Rightarrow> Faulted (''scan '' @ log_directory c @ '' for rotations: '' @ e)
              | Inr _ \<Rightarrow> Active));
          node = \<lparr>lg_queue = queue_new status clock (case scan of Inl _ \<Rightarrow> None | Inr r \<Rightarrow> r) (log_overflow c),
                  lg_pumping = False, lg_stopped = False, lg_writer = Gone,
                  lg_dir = (if open_error = None then open_append (log_filename c) d else d)\<rparr>
      in if status = Active then apply_spawn clock spawn_error node else node)"

definition log_start :: "bool \<Rightarrow> log_node \<Rightarrow> log_node" where
  "log_start has_inbox n = (if has_inbox then n\<lparr>lg_pumping := True\<rparr> else n)"

definition signal_stop :: "log_node \<Rightarrow> log_node" where
  "signal_stop n =
     (let n = n\<lparr>lg_pumping := False\<rparr>
      in if lg_stopped n then n
         else n\<lparr>lg_stopped := True, lg_queue := (lg_queue n)\<lparr>q_closed := True\<rparr>\<rparr>)"

record LogExtra =
  le_current_file :: string
  le_rotation :: "u64 option"
  le_queued_bytes :: nat
  le_dropped_bytes :: u64
  le_write_errors :: u64
  le_last_write_error :: "string option"

definition log_state_extra :: "log_place \<Rightarrow> u64 \<Rightarrow> Queue \<Rightarrow> LogExtra" where
  "log_state_extra P ingest_dropped q =
     \<lparr>le_current_file = current_path P, le_rotation = q_rotation q,
      le_queued_bytes = q_queued_bytes q + q_draining_bytes q,
      le_dropped_bytes = q_dropped_bytes q + ingest_dropped, le_write_errors = q_write_errors q,
      le_last_write_error = q_last_write_error q\<rparr>"

end
