(* ===== verification/Log_Laws.thy ===== *)
theory Log_Laws
  imports Log_Queue "HOL-Library.Sublist"
begin

text \<open>
  What the parts of a log node promise: rotation numbers read back from file names, a write that stops
  accounts for exactly what it did not store, and the queue's operations keep the account of bytes.
\<close>

section \<open>Rotation numbers\<close>

text \<open>
  Files numbered by their names, and a reader of the numbers. What the reader finds tells which names are free.
\<close>

locale numbered_names =
  fixes name :: "u64 \<Rightarrow> string" and number :: "string \<Rightarrow> u64 option"
  assumes number_name: "number (name n) = Some n"
begin

lemma name_inj: "name m = name n \<longleftrightarrow> m = n"
  by (metis number_name option.inject)

lemma names_fresh:
  assumes "\<forall>f \<in> F. \<forall>m. number f = Some m \<longrightarrow> m < n" and "n \<le> i"
  shows "name i \<notin> F"
  using assms number_name [of i] by (meson leD)

end

lemma to_digit_of_nat [simp]: "d < 10 \<Longrightarrow> to_digit 10 (char_of (48 + d)) = Some d"
  by (simp add: to_digit_def)

lemma read_digits_append:
  "list_all (\<lambda>c. to_digit 10 c \<noteq> None) s \<Longrightarrow>
     read_digits 10 (s @ t) = (map (\<lambda>c. the (to_digit 10 c)) s @ fst (read_digits 10 t), snd (read_digits 10 t))"
  by (induction s) (auto split: prod.splits)

lemma decimal_digits: "list_all (\<lambda>c. to_digit 10 c \<noteq> None) (decimal n)"
proof (induction n rule: decimal.induct)
  case (1 n)
  then show ?case by (subst decimal.simps) auto
qed

lemma decimal_value: "foldl (\<lambda>acc d. acc * 10 + d) 0 (map (\<lambda>c. the (to_digit 10 c)) (decimal n)) = n"
proof (induction n rule: decimal.induct)
  case (1 n)
  show ?case
  proof (cases "n < 10")
    case False
    then show ?thesis using 1 by (subst decimal.simps) (simp add: mult.commute)
  qed (subst decimal.simps, simp)
qed

lemma decimal_not_Nil [simp]: "decimal n \<noteq> []"
  by (subst decimal.simps) auto

lemma zero_digit [simp]: "to_digit 10 (CHR ''0'') = Some 0"
  by code_simp

lemma plus_no_digit: "to_digit 10 (CHR ''+'') = None"
  by code_simp

lemma padded_digits: "list_all (\<lambda>c. to_digit 10 c \<noteq> None) (padded w n)"
  using decimal_digits [of n] by (auto simp: padded_def list_all_iff)

lemma zeros_value: "foldl (\<lambda>acc d. acc * 10 + d) 0 (replicate k 0) = (0 :: nat)"
  by (induction k) simp_all

lemma padded_value: "foldl (\<lambda>acc d. acc * 10 + d) 0 (map (\<lambda>c. the (to_digit 10 c)) (padded w n)) = n"
  by (simp add: padded_def zeros_value decimal_value)

lemma parse_padded: "n < 2 ^ 64 \<Longrightarrow> parse_u64 (padded w n) = Some (word_of_nat n)"
proof -
  assume n: "n < 2 ^ 64"
  obtain c r where cr: "padded w n = c # r" by (cases "padded w n") (auto simp: padded_def)
  then have "c \<noteq> CHR ''+''" using padded_digits [of w n] plus_no_digit by auto
  moreover have "read_digits 10 (padded w n) = (map (\<lambda>c. the (to_digit 10 c)) (padded w n), [])"
    using read_digits_append [OF padded_digits [of w n], of "[]"] by simp
  ultimately show ?thesis
    using n padded_value [of w n] unfolding cr by (simp add: parse_u64_def)
qed

definition rotation_of :: "string \<Rightarrow> string \<Rightarrow> u64 option" where
  "rotation_of filename f = Option.bind (strip_prefix (filename @ ''.'') f) parse_u64"

lemma strip_prefix_append [simp]: "strip_prefix p (p @ s) = Some s"
  by (simp add: strip_prefix_def)

interpretation rotations: numbered_names "rotated_name filename padding" "rotation_of filename" for filename padding
proof
  fix n :: u64
  have "strip_prefix (filename @ ''.'') (rotated_name filename padding n) = Some (padded padding (unat n))"
    using strip_prefix_append [of "filename @ ''.''" "padded padding (unat n)"] by (simp add: rotated_name_def)
  then show "rotation_of filename (rotated_name filename padding n) = Some n"
    using parse_padded [of "unat n" padding] unsigned_less [of n, where ?'a = nat] by (simp add: rotation_of_def)
qed

lemma rotated_not_current [simp]: "rotated_name f p n \<noteq> f" "f \<noteq> rotated_name f p n"
  by (auto simp: rotated_name_def)

text \<open>The scan finds the greatest number among the names that are text.\<close>

lemma digit_is_str: "to_digit 10 c \<noteq> None \<Longrightarrow> is_str [c]"
proof -
  assume "to_digit 10 c \<noteq> None"
  then have "of_char c < (128 :: nat)" by (auto simp: to_digit_def Let_def split: if_splits)
  then have "byte_of_char c < 0x80" by (simp add: word_less_nat_alt unat_byte_of_char)
  then show ?thesis by (simp add: is_str_def as_bytes_def utf8_one)
qed

lemma digits_is_str: "list_all (\<lambda>c. to_digit 10 c \<noteq> None) s \<Longrightarrow> is_str s"
proof (induction s)
  case (Cons c s)
  then show ?case using is_str_append [of "[c]" s] digit_is_str by auto
qed (simp add: is_str_def as_bytes_def)

lemma rotated_is_str: "is_str f \<Longrightarrow> is_str (rotated_name f p n)"
proof -
  assume "is_str f"
  moreover have "is_str ''.''" by code_simp
  ultimately show ?thesis
    unfolding rotated_name_def using digits_is_str [OF padded_digits] by (blast intro: is_str_append)
qed

lemma rotated_no_slash: "CHR ''/'' \<notin> set f \<Longrightarrow> CHR ''/'' \<notin> set (rotated_name f p n)"
proof -
  have "to_digit 10 (CHR ''/'') = None" by code_simp
  then have "CHR ''/'' \<notin> set (padded p (unat n))" using padded_digits [of p "unat n"] by (auto simp: list_all_iff)
  then show "CHR ''/'' \<notin> set f \<Longrightarrow> ?thesis" by (simp add: rotated_name_def)
qed

definition above_all :: "u64 option \<Rightarrow> u64 \<Rightarrow> bool" where
  "above_all best m \<longleftrightarrow> (case best of None \<Rightarrow> False | Some b \<Rightarrow> m \<le> b)"

definition seen_number :: "string \<Rightarrow> u64 option \<Rightarrow> string \<Rightarrow> u64 option" where
  "seen_number filename best f =
     (case (if is_str f then rotation_of filename f else None) of
        None \<Rightarrow> best
      | Some n \<Rightarrow> Some (case best of None \<Rightarrow> n | Some m \<Rightarrow> if m \<le> n then n else m))"

lemma scan_entry:
  "scan_entries (filename @ ''.'') best (Inr f # entries) =
     scan_entries (filename @ ''.'') (seen_number filename best f) entries"
  by (cases "is_str f")
    (auto simp: seen_number_def rotation_of_def from_utf8_def is_str_def split: option.splits Option.bind_splits)

lemma seen_number_above:
  "above_all best m \<Longrightarrow> above_all (seen_number filename best f) m"
  "is_str f \<Longrightarrow> rotation_of filename f = Some m \<Longrightarrow> above_all (seen_number filename best f) m"
  by (auto simp: seen_number_def above_all_def split: option.splits)

lemma scan_entries_max:
  "scan_entries (filename @ ''.'') best entries = Ok r \<Longrightarrow>
     (\<forall>m. above_all best m \<longrightarrow> above_all r m) \<and>
     (\<forall>f m. Inr f \<in> set entries \<and> is_str f \<and> rotation_of filename f = Some m \<longrightarrow> above_all r m)"
proof (induction entries arbitrary: best)
  case (Cons entry entries)
  then obtain f where f: "entry = Inr f" by (cases entry) auto
  have "scan_entries (filename @ ''.'') (seen_number filename best f) entries = Ok r"
    using Cons.prems unfolding f scan_entry .
  from Cons.IH [OF this] show ?case using seen_number_above [where best = best and filename = filename and f = f] by (auto simp: f)
qed simp

section \<open>Writing\<close>

lemma write_chunk_stored:
  "write_chunk answers chunk = Some (k, r, rest) \<Longrightarrow>
     k \<le> length chunk \<and> (case r of Inr _ \<Rightarrow> k = length chunk | Inl (unwritten, e) \<Rightarrow> unwritten = length chunk - k \<and> 0 < unwritten)"
proof (induction answers chunk arbitrary: k r rest rule: write_chunk.induct)
  case (3 n answers b bs)
  show ?case
  proof (cases "n = 0 \<or> n > length (b # bs)")
    case False
    then obtain j where j: "write_chunk answers (drop n (b # bs)) = Some (j, r, rest)" "k = n + j"
      using 3(2) by auto
    from 3(1) [OF _ _ this(1)] False j(2) show ?thesis by (auto split: sum.splits prod.splits)
  qed (use 3(2) in \<open>auto split: if_splits\<close>)
qed auto

text \<open>Answers within the contract of \<open>write(2)\<close>: never more than it was given.\<close>

fun answers_fit :: "WriteAnswer list \<Rightarrow> nat \<Rightarrow> bool" where
  "answers_fit [] left \<longleftrightarrow> True"
| "answers_fit (Wrote n # answers) left \<longleftrightarrow> n \<le> left \<and> answers_fit answers (left - n)"
| "answers_fit (_ # answers) left \<longleftrightarrow> answers_fit answers left"

lemma write_chunk_ends:
  "answers_fit answers (length chunk) \<Longrightarrow> length chunk \<le> length (filter (\<lambda>a. a \<noteq> Interrupted) answers) \<Longrightarrow>
     write_chunk answers chunk \<noteq> None"
proof (induction answers chunk rule: write_chunk.induct)
  case (3 n answers b bs)
  then show ?case by (cases "n = 0") auto
qed auto

section \<open>The stream a queue holds\<close>

text \<open>The bytes of a console and the points at which a rotation was asked for.\<close>

datatype token = Byte byte | Cut

fun item_tokens :: "QueueItem \<Rightarrow> token list" where
  "item_tokens (Bytes chunk) = map Byte chunk"
| "item_tokens Rotate = [Cut]"

definition tokens :: "QueueItem list \<Rightarrow> token list" where
  "tokens items = concat (map item_tokens items)"

definition bytes_in :: "token list \<Rightarrow> nat" where
  "bytes_in ts = length (filter (\<lambda>t. t \<noteq> Cut) ts)"

definition cuts_in :: "token list \<Rightarrow> nat" where
  "cuts_in ts = length (filter (\<lambda>t. t = Cut) ts)"

definition item_bytes :: "QueueItem list \<Rightarrow> nat" where
  "item_bytes items = sum_list (map item_len items)"

lemma tokens_simps [simp]:
  "tokens [] = []" "tokens (x # xs) = item_tokens x @ tokens xs" "tokens (xs @ ys) = tokens xs @ tokens ys"
  by (simp_all add: tokens_def)

lemma bytes_in_simps [simp]:
  "bytes_in [] = 0" "bytes_in (xs @ ys) = bytes_in xs + bytes_in ys" "bytes_in (map Byte bs) = length bs"
  "bytes_in (Byte b # xs) = Suc (bytes_in xs)" "bytes_in (Cut # xs) = bytes_in xs"
  by (simp_all add: bytes_in_def)

lemma cuts_in_simps [simp]:
  "cuts_in [] = 0" "cuts_in (xs @ ys) = cuts_in xs + cuts_in ys" "cuts_in (map Byte bs) = 0"
  "cuts_in (Byte b # xs) = cuts_in xs" "cuts_in (Cut # xs) = Suc (cuts_in xs)"
  by (simp_all add: cuts_in_def)

lemma item_bytes_simps [simp]:
  "item_bytes [] = 0" "item_bytes (x # xs) = item_len x + item_bytes xs"
  "item_bytes (xs @ ys) = item_bytes xs + item_bytes ys"
  by (simp_all add: item_bytes_def)

lemma bytes_in_item [simp]: "bytes_in (item_tokens x) = item_len x"
  by (cases x) simp_all

lemma bytes_in_tokens [simp]: "bytes_in (tokens items) = item_bytes items"
  by (induction items) simp_all

lemma no_bytes: "\<not> list_ex is_bytes items \<Longrightarrow> item_bytes items = 0"
  by (induction items rule: list.induct) (auto elim: is_bytes.elims)

lemma bytes_of_tokens_no_cut: "is_bytes x \<Longrightarrow> cuts_in (item_tokens x) = 0"
  by (cases x) simp_all

text \<open>What eviction does: some bytes leave, no marker does, and it makes room or leaves no bytes at all.\<close>

definition sheds :: "nat \<Rightarrow> Queue \<Rightarrow> QueueItem list \<Rightarrow> bool" where
  "sheds len q items \<longleftrightarrow>
     subseq (tokens items) (tokens (q_items q)) \<and> cuts_in (tokens items) = cuts_in (tokens (q_items q)) \<and>
     (item_bytes items + len \<le> QUEUE_CAP_BYTES \<or> item_bytes items = 0)"

definition shed :: "QueueItem list \<Rightarrow> Queue \<Rightarrow> Queue" where
  "shed items q = q\<lparr>q_items := items, q_queued_bytes := item_bytes items,
     q_dropped_bytes := q_dropped_bytes q + word_of_nat (item_bytes (q_items q)) - word_of_nat (item_bytes items)\<rparr>"

lemma evict_sheds:
  "q_queued_bytes q = item_bytes (q_items q) \<Longrightarrow> \<exists>items. evict len q = shed items q \<and> sheds len q items"
proof (induction len q rule: evict.induct)
  case (1 len q)
  let ?full = "q_queued_bytes q + len > QUEUE_CAP_BYTES"
  show ?case
  proof (cases "?full \<and> list_ex is_bytes (q_items q)")
    case False
    then have "evict len q = q"
      by (subst evict.simps) (auto simp: list_ex_iff position_None_iff split: option.splits dest: position_SomeD)
    moreover have "shed (q_items q) q = q" using 1(2) by (simp add: shed_def)
    moreover have "sheds len q (q_items q)" using False 1(2) no_bytes [of "q_items q"] by (auto simp: sheds_def)
    ultimately show ?thesis by metis
  next
    case True
    then obtain pos where pos: "position is_bytes (q_items q) = Some pos"
      by (cases "position is_bytes (q_items q)") (auto simp: list_ex_iff position_None_iff)
    let ?x = "q_items q ! pos" and ?rest = "take pos (q_items q) @ drop (Suc pos) (q_items q)"
    let ?q = "add_dropped (item_len ?x) (q\<lparr>q_items := ?rest, q_queued_bytes := q_queued_bytes q - item_len ?x\<rparr>)"
    have p: "pos < length (q_items q)" "is_bytes ?x" using position_SomeD [OF pos] by auto
    then have split: "q_items q = take pos (q_items q) @ ?x # drop (Suc pos) (q_items q)"
      by (simp add: id_take_nth_drop [symmetric])
    have sum: "item_bytes (q_items q) = item_len ?x + item_bytes ?rest" by (subst split) simp
    have "q_queued_bytes ?q = item_bytes (q_items ?q)" using 1(2) sum by (simp add: add_dropped_def)
    with 1(1) [OF _ pos refl] True obtain items where
      items: "evict len ?q = shed items ?q" "sheds len ?q items" by auto
    have "evict len q = evict len ?q" using True pos by (subst evict.simps) (simp add: Let_def)
    moreover have "shed items ?q = shed items q" using sum by (simp add: shed_def add_dropped_def)
    moreover have "subseq (tokens ?rest) (tokens (q_items q))" 
      by (subst (3) split) (simp add: subseq_append' list_emb_append2)
    moreover have "cuts_in (tokens (q_items q)) = cuts_in (tokens ?rest)"
      by (subst split) (simp add: bytes_of_tokens_no_cut p(2))
    ultimately show ?thesis
      using items by (auto simp: sheds_def add_dropped_def intro: subseq_order.trans)
  qed
qed

text \<open>
  The account of a queue: \<open>hist\<close> is all that was offered, \<open>front\<close> what has left the queue for the file or is
  about to. What is in \<open>front\<close> and in the queue is \<open>hist\<close> with bytes missing, and those are counted.
\<close>

definition accounts :: "token list \<Rightarrow> token list \<Rightarrow> Queue \<Rightarrow> bool" where
  "accounts hist front q \<longleftrightarrow>
     subseq (front @ tokens (q_items q)) hist \<and> q_queued_bytes q = item_bytes (q_items q) \<and>
     q_dropped_bytes q + word_of_nat (bytes_in front + item_bytes (q_items q)) = word_of_nat (bytes_in hist)"

definition cuts_kept :: "token list \<Rightarrow> token list \<Rightarrow> Queue \<Rightarrow> bool" where
  "cuts_kept hist front q \<longleftrightarrow> cuts_in (front @ tokens (q_items q)) = cuts_in hist"

lemma queue_fault_fields [simp]:
  "q_items (queue_fault clock why q) = q_items q" "q_queued_bytes (queue_fault clock why q) = q_queued_bytes q"
  "q_dropped_bytes (queue_fault clock why q) = q_dropped_bytes q" "q_overflow (queue_fault clock why q) = q_overflow q"
  "q_draining_bytes (queue_fault clock why q) = q_draining_bytes q"
  "q_rotation (queue_fault clock why q) = q_rotation q" "q_closed (queue_fault clock why q) = q_closed q"
  "q_rotate_pending (queue_fault clock why q) = q_rotate_pending q"
  "q_writer_gone (queue_fault clock why q) = q_writer_gone q"
  by (simp_all add: queue_fault_def)

lemma add_dropped_fields [simp]:
  "q_items (add_dropped n q) = q_items q" "q_queued_bytes (add_dropped n q) = q_queued_bytes q"
  "q_dropped_bytes (add_dropped n q) = q_dropped_bytes q + word_of_nat n" "q_overflow (add_dropped n q) = q_overflow q"
  "q_draining_bytes (add_dropped n q) = q_draining_bytes q" "q_status (add_dropped n q) = q_status q"
  "q_rotation (add_dropped n q) = q_rotation q" "q_closed (add_dropped n q) = q_closed q"
  "q_rotate_pending (add_dropped n q) = q_rotate_pending q" "q_writer_gone (add_dropped n q) = q_writer_gone q"
  by (simp_all add: add_dropped_def)

lemma shed_fields [simp]:
  "q_items (shed items q) = items" "q_queued_bytes (shed items q) = item_bytes items"
  "q_overflow (shed items q) = q_overflow q" "q_rotation (shed items q) = q_rotation q"
  "q_closed (shed items q) = q_closed q" "q_status (shed items q) = q_status q"
  "q_rotate_pending (shed items q) = q_rotate_pending q" "q_writer_gone (shed items q) = q_writer_gone q"
  "q_draining_bytes (shed items q) = q_draining_bytes q"
  by (simp_all add: shed_def)

lemma pending_less_fields [simp]:
  "q_items (pending_less q) = q_items q" "q_queued_bytes (pending_less q) = q_queued_bytes q"
  "q_dropped_bytes (pending_less q) = q_dropped_bytes q" "q_overflow (pending_less q) = q_overflow q"
  "q_draining_bytes (pending_less q) = q_draining_bytes q" "q_rotation (pending_less q) = q_rotation q"
  "q_closed (pending_less q) = q_closed q" "q_writer_gone (pending_less q) = q_writer_gone q"
  "q_status (pending_less q) = q_status q"
  by (simp_all add: pending_less_def)

lemma accounts_shed:
  "accounts hist front q \<Longrightarrow> sheds len q items \<Longrightarrow> accounts hist front (shed items q)"
  unfolding accounts_def sheds_def
  by (auto simp: shed_def algebra_simps intro: subseq_order.trans list_emb_append_mono)

text \<open>The cases of a chunk's arrival: refused and counted, or queued behind what is left.\<close>

lemma enqueue_cases:
  assumes "q_queued_bytes q = item_bytes (q_items q)" and "log_enqueue clock chunk q = (taken, q')"
  obtains (refused) "\<not> taken" "q' = add_dropped (length chunk) q \<or> (\<exists>why. q' = queue_fault clock why (add_dropped (length chunk) q))"
    | (queued) items where "taken" "sheds (length chunk) q items" "\<not> q_writer_gone q"
        "q' = (shed items q)\<lparr>q_queued_bytes := item_bytes items + length chunk, q_items := items @ [Bytes chunk]\<rparr>"
proof (cases "\<not> taken")
  case True
  then show ?thesis using assms(2) by (intro refused) (auto simp: log_enqueue_def Let_def split: if_splits)
next
  case False
  let ?full = "q_queued_bytes q + length chunk > QUEUE_CAP_BYTES"
  have q': "q' = (if ?full then evict (length chunk) q else q)
      \<lparr>q_queued_bytes := q_queued_bytes (if ?full then evict (length chunk) q else q) + length chunk,
       q_items := q_items (if ?full then evict (length chunk) q else q) @ [Bytes chunk]\<rparr>" and gone: "\<not> q_writer_gone q"
    using assms(2) False by (auto simp: log_enqueue_def Let_def split: if_splits)
  obtain items where "(if ?full then evict (length chunk) q else q) = shed items q" "sheds (length chunk) q items"
  proof (cases ?full)
    case True
    with evict_sheds [OF assms(1)] that show ?thesis by auto
  next
    case False
    with assms(1) that [of "q_items q"] show ?thesis by (auto simp: shed_def sheds_def)
  qed
  then show ?thesis using queued [of items] q' gone False by simp
qed

lemma enqueue_accounts:
  assumes "accounts hist front q" and "log_enqueue clock chunk q = (taken, q')"
  shows "accounts (hist @ map Byte chunk) front q'"
    and "cuts_kept hist front q \<Longrightarrow> cuts_kept (hist @ map Byte chunk) front q'"
proof -
  have len: "q_queued_bytes q = item_bytes (q_items q)" using assms(1) by (simp add: accounts_def)
  have "accounts (hist @ map Byte chunk) front q' \<and> (cuts_kept hist front q \<longrightarrow> cuts_kept (hist @ map Byte chunk) front q')"
    using len assms(2)
  proof (cases rule: enqueue_cases)
    case refused
    then show ?thesis using assms(1) by (auto simp: accounts_def cuts_kept_def algebra_simps intro: subseq_order.trans)
  next
    case (queued items)
    have "accounts hist front (shed items q)" by (rule accounts_shed [OF assms(1) queued(2)])
    then have "subseq ((front @ tokens items) @ map Byte chunk) (hist @ map Byte chunk)"
      by (intro list_emb_append_mono) (auto simp: accounts_def)
    with \<open>accounts hist front (shed items q)\<close> queued show ?thesis
      by (auto simp: accounts_def cuts_kept_def sheds_def algebra_simps)
  qed
  then show "accounts (hist @ map Byte chunk) front q'"
    "cuts_kept hist front q \<Longrightarrow> cuts_kept (hist @ map Byte chunk) front q'" by auto
qed

end
