(* ===== verification/Log_Runs.thy ===== *)
theory Log_Runs
  imports Log_Laws
begin

text \<open>
  Runs of a log node: the pump, the rotation verb, the stop of a teardown and the writer thread in any order.
  The mutex around the queue makes each critical section one step; between two of them the writer is where
  \<open>WriterState\<close> says. A run is indexed by its history (the bytes offered and the rotations asked for) and by
  what the writer has done to the files, in order.
\<close>

section \<open>Steps\<close>

inductive writer_step :: "log_place \<Rightarrow> log_node \<Rightarrow> token list \<Rightarrow> log_node \<Rightarrow> bool" for P :: log_place where
  parks: "lg_writer n = AtTop \<Longrightarrow> writer_take (lg_queue n) = (None, q) \<Longrightarrow>
    writer_step P n [] (n\<lparr>lg_queue := q\<rparr>)"
| takes: "lg_writer n = AtTop \<Longrightarrow> writer_take (lg_queue n) = (Some (batch, closing), q) \<Longrightarrow>
    writer_step P n [] (n\<lparr>lg_queue := q, lg_writer := InBatch batch closing\<rparr>)"
| writes: "lg_writer n = InBatch (Bytes chunk # rest) closing \<Longrightarrow> write_chunk answers chunk = Some (k, r, unused) \<Longrightarrow>
    settle_write clock P rest r (lg_queue n) = (stopping, q) \<Longrightarrow>
    writer_step P n (map Byte (take k chunk))
      (n\<lparr>lg_queue := q, lg_dir := append_file (lp_filename P) (take k chunk) (lg_dir n),
         lg_writer := (if stopping then Drained else InBatch rest closing)\<rparr>)"
| cuts: "lg_writer n = InBatch (Rotate # rest) closing \<Longrightarrow>
    perform_rotation clock P rename_error open_error (lg_queue n) (lg_dir n) = (goes_on, renamed, q, d) \<Longrightarrow>
    writer_step P n (if renamed then [Cut] else [])
      (if goes_on then n\<lparr>lg_queue := q, lg_dir := d, lg_writer := InBatch rest closing\<rparr>
       else n\<lparr>lg_queue := count_abandoned rest q, lg_dir := d, lg_writer := Drained\<rparr>)"
| ends: "lg_writer n = InBatch [] closing \<Longrightarrow>
    writer_step P n []
      (if closing then n\<lparr>lg_queue := (lg_queue n)\<lparr>q_draining_bytes := 0\<rparr>, lg_writer := Drained\<rparr>
       else n\<lparr>lg_writer := AtTop\<rparr>)"
| leaves: "lg_writer n = Drained \<Longrightarrow>
    writer_step P n [] (n\<lparr>lg_queue := abandon_queue (lg_queue n), lg_writer := Gone\<rparr>)"

inductive log_run :: "log_place \<Rightarrow> nat \<Rightarrow> log_node \<Rightarrow> log_node \<Rightarrow> token list \<Rightarrow> token list \<Rightarrow> bool"
  for P :: log_place and L :: nat and n0 :: log_node where
  begins: "log_run P L n0 n0 [] []"
| pumps: "log_run P L n0 n hist out \<Longrightarrow> lg_pumping n \<Longrightarrow> length chunk \<le> L \<Longrightarrow>
    log_enqueue clock chunk (lg_queue n) = (taken, q) \<Longrightarrow>
    log_run P L n0 (n\<lparr>lg_queue := q\<rparr>) (hist @ map Byte chunk) out"
| rotates: "log_run P L n0 n hist out \<Longrightarrow> log_rotate (lg_queue n) = (Inr number, q) \<Longrightarrow>
    log_run P L n0 (n\<lparr>lg_queue := q\<rparr>) (hist @ [Cut]) out"
| stops: "log_run P L n0 n hist out \<Longrightarrow> log_run P L n0 (signal_stop n) hist out"
| works: "log_run P L n0 n hist out \<Longrightarrow> writer_step P n done n' \<Longrightarrow> log_run P L n0 n' hist (out @ done)"

section \<open>The account\<close>

definition held :: "log_node \<Rightarrow> QueueItem list" where
  "held n = (case lg_writer n of InBatch batch _ \<Rightarrow> batch | _ \<Rightarrow> [])"

definition running :: "log_node \<Rightarrow> bool" where
  "running n \<longleftrightarrow> (case lg_writer n of AtTop \<Rightarrow> True | InBatch _ _ \<Rightarrow> True | _ \<Rightarrow> False)"

definition node_accounts :: "token list \<Rightarrow> token list \<Rightarrow> log_node \<Rightarrow> bool" where
  "node_accounts hist out n \<longleftrightarrow>
     accounts hist (out @ tokens (held n)) (lg_queue n) \<and>
     (running n \<longrightarrow> cuts_kept hist (out @ tokens (held n)) (lg_queue n)) \<and>
     (q_writer_gone (lg_queue n) \<longleftrightarrow> lg_writer n = Gone) \<and>
     (lg_writer n = Gone \<longrightarrow> item_bytes (q_items (lg_queue n)) = 0)"

lemma held_simps [simp]:
  "held (n\<lparr>lg_queue := q\<rparr>) = held n" "held (n\<lparr>lg_writer := InBatch b cl\<rparr>) = b" "held (n\<lparr>lg_writer := AtTop\<rparr>) = []"
  "held (n\<lparr>lg_writer := Drained\<rparr>) = []" "held (n\<lparr>lg_writer := Gone\<rparr>) = []" "held (n\<lparr>lg_dir := d\<rparr>) = held n"
  by (simp_all add: held_def)

lemma running_simps [simp]:
  "running (n\<lparr>lg_queue := q\<rparr>) = running n" "running (n\<lparr>lg_writer := InBatch b cl\<rparr>)" "running (n\<lparr>lg_writer := AtTop\<rparr>)"
  "\<not> running (n\<lparr>lg_writer := Drained\<rparr>)" "\<not> running (n\<lparr>lg_writer := Gone\<rparr>)"
  by (simp_all add: running_def)

lemma count_abandoned_eq:
  "count_abandoned rest q = (add_dropped (item_bytes rest) q)\<lparr>q_draining_bytes := 0\<rparr>"
proof -
  have "fold (\<lambda>item. add_dropped (item_len item)) rest q = add_dropped (item_bytes rest) q"
    by (induction rest arbitrary: q) (simp_all add: add_dropped_def add.assoc)
  then show ?thesis by (simp add: count_abandoned_def)
qed

text \<open>Bytes that leave the account are added to the count of dropped ones.\<close>

lemma accounts_less:
  assumes "accounts hist front q" and "subseq (front' @ tokens (q_items q')) (front @ tokens (q_items q))"
    and "q_queued_bytes q' = item_bytes (q_items q')"
    and "q_dropped_bytes q' + word_of_nat (bytes_in front' + item_bytes (q_items q')) =
      q_dropped_bytes q + word_of_nat (bytes_in front + item_bytes (q_items q))"
  shows "accounts hist front' q'"
  using assms subseq_order.trans unfolding accounts_def by auto

lemma accountsD:
  "accounts hist front q \<Longrightarrow> q_queued_bytes q = item_bytes (q_items q)"
  "accounts hist front q \<Longrightarrow> subseq (front @ tokens (q_items q)) hist"
  "accounts hist front q \<Longrightarrow>
     q_dropped_bytes q + word_of_nat (bytes_in front + item_bytes (q_items q)) = word_of_nat (bytes_in hist)"
  by (simp_all add: accounts_def)

lemma write_settled:
  assumes acc: "accounts hist (out @ tokens (Bytes chunk # rest)) q"
    and wrote: "write_chunk answers chunk = Some (k, r, unused)"
    and settled: "settle_write clock P rest r q = (stopping, q')"
  shows "accounts hist ((out @ map Byte (take k chunk)) @ tokens (if stopping then [] else rest)) q'"
    and "q_items q' = q_items q" and "q_writer_gone q' = q_writer_gone q"
proof -
  have k: "k \<le> length chunk" using write_chunk_stored [OF wrote] by simp
  have q': "q_items q' = q_items q \<and> q_queued_bytes q' = q_queued_bytes q \<and> q_writer_gone q' = q_writer_gone q \<and>
      q_dropped_bytes q' = q_dropped_bytes q + word_of_nat (length chunk - k) + word_of_nat (if stopping then item_bytes rest else 0)"
    using settled write_chunk_stored [OF wrote]
    by (auto simp: settle_write_def count_abandoned_eq Let_def add_dropped_def split: sum.splits OverflowPolicy.splits)
  then show "q_items q' = q_items q" "q_writer_gone q' = q_writer_gone q" by auto
  have "subseq (map Byte (take k chunk)) (map Byte chunk)"
    by (metis append_take_drop_id list_emb_append2 map_append subseq_order.refl subseq_append_iff append_Nil2 list_emb_Nil list_emb_append_mono)
  then have "subseq (map Byte (take k chunk) @ tokens (if stopping then [] else rest) @ tokens (q_items q))
      (map Byte chunk @ tokens rest @ tokens (q_items q))"
    by (intro list_emb_append_mono) auto
  then show "accounts hist ((out @ map Byte (take k chunk)) @ tokens (if stopping then [] else rest)) q'"
    using q' accountsD(1) [OF acc] k
    by (intro accounts_less [OF acc]) (auto simp: subseq_append' of_nat_diff algebra_simps)
qed

lemma rotation_settled:
  assumes "perform_rotation clock P rename_error open_error q d = (goes_on, renamed, q', d')"
  shows "q_items q' = q_items q" "q_queued_bytes q' = q_queued_bytes q" "q_dropped_bytes q' = q_dropped_bytes q"
    "q_writer_gone q' = q_writer_gone q" "goes_on \<Longrightarrow> renamed" "q_draining_bytes q' = q_draining_bytes q" "q_closed q' = q_closed q"
  using assms by (auto simp: perform_rotation_def Let_def split: option.splits)

lemma writer_step_accounts:
  assumes "writer_step P n done n'" and "node_accounts hist out n"
  shows "node_accounts hist (out @ done) n'"
  using assms
proof cases
  case (parks q)
  then show ?thesis using assms(2)
    by (auto simp: node_accounts_def writer_take_def accounts_def cuts_kept_def held_def Let_def split: if_splits)
next
  case (takes batch closing q)
  then show ?thesis using assms(2)
    by (auto simp: node_accounts_def writer_take_def accounts_def cuts_kept_def held_def running_def Let_def algebra_simps split: if_splits)
next
  case (writes chunk rest closing answers k r unused clock stopping q)
  have acc: "accounts hist (out @ tokens (Bytes chunk # rest)) (lg_queue n)"
    and cuts: "cuts_kept hist (out @ tokens (Bytes chunk # rest)) (lg_queue n)"
    and gone: "\<not> q_writer_gone (lg_queue n)"
    using assms(2) writes(3) by (auto simp: node_accounts_def held_def running_def)
  note settled = write_settled [OF acc writes(4,5)]
  show ?thesis using settled cuts gone
    by (cases stopping) (auto simp: node_accounts_def writes(1,2) held_def running_def cuts_kept_def)
next
  case (cuts rest closing clock rename_error open_error goes_on renamed q d)
  have acc: "accounts hist (out @ tokens (Rotate # rest)) (lg_queue n)"
    and kept: "cuts_kept hist (out @ tokens (Rotate # rest)) (lg_queue n)"
    and gone: "\<not> q_writer_gone (lg_queue n)"
    using assms(2) cuts(3) by (auto simp: node_accounts_def held_def running_def)
  note settled = rotation_settled [OF cuts(4)]
  show ?thesis
  proof (cases goes_on)
    case True
    then show ?thesis using acc kept gone settled
      by (auto simp: node_accounts_def cuts(1,2) held_def running_def cuts_kept_def accounts_def algebra_simps)
  next
    case False
    have "subseq ((if renamed then [Cut] else []) @ tokens (q_items q)) (Cut # tokens rest @ tokens (q_items q))"
      by (auto intro: list_emb_append2)
    then have "accounts hist (out @ (if renamed then [Cut] else [])) (count_abandoned rest q)"
      using settled accountsD(1) [OF acc]
      by (intro accounts_less [OF acc]) (auto simp: count_abandoned_eq subseq_append' algebra_simps)
    with False gone settled show ?thesis
      by (auto simp: node_accounts_def cuts(1,2) held_def running_def count_abandoned_eq)
  qed
next
  case (ends closing)
  then show ?thesis using assms(2)
    by (auto simp: node_accounts_def accounts_def cuts_kept_def held_def running_def)
next
  case leaves
  have acc: "accounts hist out (lg_queue n)" using assms(2) leaves by (simp add: node_accounts_def held_def)
  have "accounts hist out (abandon_queue (lg_queue n))"
    by (rule accounts_less [OF acc]) (auto simp: abandon_queue_def count_abandoned_eq add_dropped_def algebra_simps)
  then show ?thesis using leaves
    by (auto simp: node_accounts_def held_def running_def abandon_queue_def count_abandoned_eq)
qed

lemma rotate_accounts:
  assumes "node_accounts hist out n" and "log_rotate (lg_queue n) = (Inr number, q)"
  shows "node_accounts (hist @ [Cut]) out (n\<lparr>lg_queue := q\<rparr>)"
proof -
  let ?q = "lg_queue n" and ?front = "out @ tokens (held n)"
  have q: "q_items q = q_items ?q @ [Rotate]" "q_queued_bytes q = q_queued_bytes ?q"
      "q_dropped_bytes q = q_dropped_bytes ?q" "q_writer_gone q = q_writer_gone ?q"
    using assms(2) by (auto simp: log_rotate_def split: NodeStatus.splits)
  have "subseq ((?front @ tokens (q_items ?q)) @ [Cut]) (hist @ [Cut])"
    using assms(1) by (intro list_emb_append_mono) (auto simp: node_accounts_def accounts_def)
  then show ?thesis using assms(1) q by (auto simp: node_accounts_def accounts_def cuts_kept_def)
qed

lemma enqueue_node_accounts:
  assumes "node_accounts hist out n" and "log_enqueue clock chunk (lg_queue n) = (taken, q)"
  shows "node_accounts (hist @ map Byte chunk) out (n\<lparr>lg_queue := q\<rparr>)"
proof -
  let ?q = "lg_queue n"
  have acc: "accounts hist (out @ tokens (held n)) ?q" using assms(1) by (simp add: node_accounts_def)
  have same: "q_writer_gone q = q_writer_gone ?q \<and> (q_writer_gone ?q \<longrightarrow> q_items q = q_items ?q)"
    using accountsD(1) [OF acc] assms(2) by (cases rule: enqueue_cases) auto
  show ?thesis using enqueue_accounts [OF acc assms(2)] assms(1) same by (auto simp: node_accounts_def)
qed

lemma stop_accounts: "node_accounts hist out (signal_stop n) \<longleftrightarrow> node_accounts hist out n"
  by (auto simp: node_accounts_def signal_stop_def Let_def held_def running_def accounts_def cuts_kept_def)

text \<open>How a node comes up: with an empty account.\<close>

definition fresh_node :: "log_node \<Rightarrow> bool" where
  "fresh_node n \<longleftrightarrow> (\<exists>c listing open_error spawn_error clock d has_inbox.
     n = log_start has_inbox (log_create c listing open_error spawn_error clock d))"

lemma create_fields:
  assumes "n = log_create c listing open_error spawn_error clock d"
  shows "q_items (lg_queue n) = []" "q_queued_bytes (lg_queue n) = 0" "q_dropped_bytes (lg_queue n) = 0"
    "q_draining_bytes (lg_queue n) = 0" "q_rotate_pending (lg_queue n) = 0" "\<not> q_closed (lg_queue n)"
    "q_writer_gone (lg_queue n) \<longleftrightarrow> lg_writer n = Gone" "lg_writer n = Gone \<or> lg_writer n = AtTop"
    "lg_writer n = AtTop \<Longrightarrow> open_error = None \<and> scan_rotation (log_filename c) listing = Inr (q_rotation (lg_queue n))"
    "lg_dir n = (if open_error = None then open_append (log_filename c) d else d)" "\<not> lg_stopped n"
  unfolding assms log_create_def Let_def
  by (cases open_error; cases "scan_rotation (log_filename c) listing"; cases spawn_error;
      simp add: apply_spawn_def queue_new_def)+

lemma start_fields [simp]:
  "lg_queue (log_start b n) = lg_queue n" "lg_writer (log_start b n) = lg_writer n" "lg_dir (log_start b n) = lg_dir n"
  "lg_stopped (log_start b n) = lg_stopped n"
  by (simp_all add: log_start_def)

lemma fresh_accounts:
  assumes "fresh_node n"
  shows "node_accounts [] [] n"
proof -
  obtain c listing oe se clock d b where n: "n = log_start b (log_create c listing oe se clock d)"
    using assms by (auto simp: fresh_node_def)
  note fields = create_fields [OF refl, of c listing oe se clock d]
  have "held n = []" using fields(8) by (auto simp: n held_def)
  then show ?thesis using fields(1-3,7) by (simp add: n node_accounts_def accounts_def cuts_kept_def)
qed

lemma run_accounts:
  "log_run P L n0 n hist out \<Longrightarrow> fresh_node n0 \<Longrightarrow> node_accounts hist out n"
proof (induction rule: log_run.induct)
  case begins
  then show ?case by (rule fresh_accounts)
next
  case (works n hist out "done" n')
  then show ?case using writer_step_accounts by blast
qed (auto simp: stop_accounts intro: enqueue_node_accounts rotate_accounts)

section \<open>The files\<close>

text \<open>A token stream as files: each rotation closes one, the last is the current one. \<open>old\<close> was there before.\<close>

fun contents :: "byte list \<Rightarrow> token list \<Rightarrow> byte list list" where
  "contents old [] = [old]"
| "contents old (Byte b # ts) = contents (old @ [b]) ts"
| "contents old (Cut # ts) = old # contents [] ts"

lemma length_contents [simp]: "length (contents old ts) = Suc (cuts_in ts)"
  by (induction old ts rule: contents.induct) simp_all

lemma contents_not_Nil [simp]: "contents old ts \<noteq> []"
  by (metis length_contents list.size(3) nat.distinct(1))

lemma contents_bytes:
  "contents old (ts @ map Byte bs) = butlast (contents old ts) @ [last (contents old ts) @ bs]"
proof -
  have "contents old (map Byte bs) = [old @ bs]" for old by (induction bs arbitrary: old) simp_all
  then show ?thesis by (induction old ts rule: contents.induct) simp_all
qed

lemma contents_cut: "contents old (ts @ [Cut]) = contents old ts @ [[]]"
  by (induction old ts rule: contents.induct) simp_all

definition rname :: "log_place \<Rightarrow> nat \<Rightarrow> string" where
  "rname P m = rotated_name (lp_filename P) (lp_padding P) (word_of_nat m)"

lemma rname_neq [simp]: "rname P m \<noteq> lp_filename P" "lp_filename P \<noteq> rname P m"
  by (simp_all add: rname_def)

lemma rname_inj: "i < 2 ^ 64 \<Longrightarrow> j < 2 ^ 64 \<Longrightarrow> rname P i = rname P j \<longleftrightarrow> i = j"
  by (simp add: rname_def rotations.name_inj word_of_nat_eq_iff take_bit_nat_eq_self)

text \<open>The first number a node gives out.\<close>

definition first_number :: "Queue \<Rightarrow> nat" where
  "first_number q = (case q_rotation q of None \<Rightarrow> 0 | Some m \<Rightarrow> Suc (unat m))"

definition files_ok :: "log_place \<Rightarrow> nat \<Rightarrow> byte list \<Rightarrow> directory \<Rightarrow> token list \<Rightarrow> directory \<Rightarrow> bool" where
  "files_ok P k old d0 out d \<longleftrightarrow>
     (\<forall>i < cuts_in out. d (rname P (k + i)) = Some (contents old out ! i)) \<and>
     (\<forall>f. f \<noteq> lp_filename P \<and> (\<forall>i < cuts_in out. f \<noteq> rname P (k + i)) \<longrightarrow> d f = d0 f)"

definition node_files :: "log_place \<Rightarrow> nat \<Rightarrow> byte list \<Rightarrow> directory \<Rightarrow> token list \<Rightarrow> log_node \<Rightarrow> bool" where
  "node_files P k old d0 out n \<longleftrightarrow>
     (k + cuts_in out \<le> 2 ^ 64 \<longrightarrow>
        files_ok P k old d0 out (lg_dir n) \<and>
        (running n \<longrightarrow> lg_dir n (lp_filename P) = Some (last (contents old out)) \<and>
           first_number (lg_queue n) = k + cuts_in out))"

lemma next_rotation_first: "first_number q < 2 ^ 64 \<Longrightarrow> next_rotation q = word_of_nat (first_number q)"
  by (cases "q_rotation q")
    (auto simp: next_rotation_def first_number_def saturating_add_def split: if_splits)

lemma files_ok_append:
  assumes "files_ok P k old d0 out d" and "d (lp_filename P) = Some (last (contents old out))"
  shows "files_ok P k old d0 (out @ map Byte bs) (append_file (lp_filename P) bs d)"
    and "append_file (lp_filename P) bs d (lp_filename P) = Some (last (contents old (out @ map Byte bs)))"
  using assms by (auto simp: files_ok_def append_file_def contents_bytes nth_append nth_butlast split: option.splits)

lemma files_ok_rename:
  assumes "files_ok P k old d0 out d" and "d (lp_filename P) = Some (last (contents old out))"
    and "k + cuts_in out < 2 ^ 64"
  shows "files_ok P k old d0 (out @ [Cut]) (rename_file (lp_filename P) (rname P (k + cuts_in out)) d)"
proof -
  let ?d = "rename_file (lp_filename P) (rname P (k + cuts_in out)) d" and ?c = "cuts_in out"
  have eq: "?d = d(lp_filename P := None, rname P (k + ?c) \<mapsto> last (contents old out))"
    using assms(2) by (simp add: rename_file_def)
  have "?d (rname P (k + i)) = Some (contents old (out @ [Cut]) ! i)" if "i < Suc ?c" for i
  proof (cases "i = ?c")
    case True
    then show ?thesis using assms(2) last_conv_nth [OF contents_not_Nil [of old out]]
      by (simp add: eq contents_cut nth_append)
  next
    case False
    then have "i < ?c" using that by simp
    then have "rname P (k + i) \<noteq> rname P (k + ?c)" using assms(3) by (subst rname_inj) auto
    then show ?thesis using assms(1) \<open>i < ?c\<close> by (auto simp: eq files_ok_def contents_cut nth_append)
  qed
  then show ?thesis using assms(1) by (auto simp: files_ok_def eq)
qed

lemma open_append_other [simp]: "f \<noteq> g \<Longrightarrow> open_append f d g = d g"
  by (auto simp: open_append_def split: option.splits)

lemma files_ok_open: "files_ok P k old d0 out d \<Longrightarrow> files_ok P k old d0 out (open_append (lp_filename P) d)"
  by (auto simp: files_ok_def)

lemma rotation_files:
  assumes files: "files_ok P k old d0 out d" "d (lp_filename P) = Some (last (contents old out))"
    and number: "first_number q = k + cuts_in out" "k + cuts_in out < 2 ^ 64"
    and run: "perform_rotation clock P rename_error open_error q d = (goes_on, renamed, q', d')"
  shows "files_ok P k old d0 (out @ (if renamed then [Cut] else [])) d'"
    and "goes_on \<Longrightarrow> d' (lp_filename P) = Some [] \<and> first_number q' = Suc (k + cuts_in out)"
proof -
  have nxt: "next_rotation q = word_of_nat (k + cuts_in out)" using next_rotation_first [of q] number by simp
  let ?d = "rename_file (lp_filename P) (rname P (k + cuts_in out)) d"
  have ren: "files_ok P k old d0 (out @ [Cut]) ?d" by (rule files_ok_rename [OF files number(2)])
  have cur: "?d (lp_filename P) = None" using files(2) by (simp add: rename_file_def)
  have num: "unat (word_of_nat (k + cuts_in out) :: u64) = k + cuts_in out"
    using number(2) by (simp add: unsigned_of_nat take_bit_nat_eq_self del: of_nat_add)
  show "files_ok P k old d0 (out @ (if renamed then [Cut] else [])) d'"
    using run files(1) ren files_ok_open [OF ren]
    by (auto simp: perform_rotation_def Let_def nxt rname_def split: option.splits)
  show "goes_on \<Longrightarrow> d' (lp_filename P) = Some [] \<and> first_number q' = Suc (k + cuts_in out)"
    using run cur num
    by (auto simp: perform_rotation_def Let_def nxt rname_def open_append_def first_number_def split: option.splits)
qed

lemma writer_step_files:
  assumes "writer_step P n done n'" and "node_files P k old d0 out n"
  shows "node_files P k old d0 (out @ done) n'"
  using assms(1)
proof cases
  case (writes chunk rest closing answers j r unused clock stopping q)
  have "first_number q = first_number (lg_queue n)"
    using writes(5) by (auto simp: settle_write_def first_number_def count_abandoned_eq Let_def split: sum.splits OverflowPolicy.splits)
  moreover have "running n" using writes(3) by (simp add: running_def)
  ultimately show ?thesis using assms(2) files_ok_append [of P k old d0 out "lg_dir n" "take j chunk"]
    by (auto simp: node_files_def writes(1,2))
next
  case (cuts rest closing clock rename_error open_error goes_on renamed q d)
  have run: "running n" using cuts(3) by (simp add: running_def)
  have less: "goes_on \<Longrightarrow> renamed" by (rule rotation_settled(5) [OF cuts(4)])
  show ?thesis
  proof (cases "k + cuts_in (out @ done) \<le> 2 ^ 64 \<and> renamed")
    case True
    then have lim: "k + cuts_in out < 2 ^ 64" by (auto simp: cuts(1))
    with assms(2) run have old: "files_ok P k old d0 out (lg_dir n)"
        "lg_dir n (lp_filename P) = Some (last (contents old out))" "first_number (lg_queue n) = k + cuts_in out"
      by (auto simp: node_files_def)
    from rotation_files [OF old lim cuts(4)] True show ?thesis
      by (auto simp: node_files_def cuts(1,2) contents_cut)
  next
    case False
    then show ?thesis using assms(2) less cuts(4)
      by (auto simp: node_files_def cuts(1,2) perform_rotation_def Let_def split: option.splits)
  qed
qed (use assms(2) in \<open>auto simp: node_files_def writer_take_def first_number_def running_def Let_def split: if_splits\<close>)

text \<open>The steps of the pump and of the control plane leave the files and the rotation number alone.\<close>

lemma enqueue_keeps:
  assumes "q_queued_bytes q = item_bytes (q_items q)" "log_enqueue clock chunk q = (taken, q')"
  shows "q_rotation q' = q_rotation q" "q_rotate_pending q' = q_rotate_pending q" "q_closed q' = q_closed q"
    "q_draining_bytes q' = q_draining_bytes q"
  using assms by (cases rule: enqueue_cases; auto)+

lemma node_files_queue:
  "q_rotation q = q_rotation (lg_queue n) \<Longrightarrow> node_files P k old d0 out n \<Longrightarrow> node_files P k old d0 out (n\<lparr>lg_queue := q\<rparr>)"
  by (simp add: node_files_def first_number_def)

lemma rotate_keeps:
  "log_rotate q = (Inr number, q') \<Longrightarrow> q_rotation q' = q_rotation q"
  "log_rotate q = (Inr number, q') \<Longrightarrow> q_rotate_pending q' = q_rotate_pending q + 1"
  by (auto simp: log_rotate_def split: NodeStatus.splits)

lemma stop_files: "node_files P k old d0 out (signal_stop n) \<longleftrightarrow> node_files P k old d0 out n"
  by (simp add: node_files_def signal_stop_def Let_def first_number_def running_def)

lemma run_files:
  assumes "log_run P L n0 n hist out" and "fresh_node n0"
    and "running n0 \<longrightarrow> lg_dir n0 (lp_filename P) = Some old"
  shows "node_files P (first_number (lg_queue n0)) old (lg_dir n0) out n"
  using assms
proof (induction rule: log_run.induct)
  case begins
  then show ?case by (simp add: node_files_def files_ok_def)
next
  case (pumps n hist out chunk clock taken q)
  have "q_queued_bytes (lg_queue n) = item_bytes (q_items (lg_queue n))"
    using run_accounts [OF pumps(1,6)] by (simp add: node_accounts_def accounts_def)
  then show ?case using enqueue_keeps(1) [OF _ pumps(4)] pumps node_files_queue by blast
next
  case (rotates n hist out number q)
  then show ?case using rotate_keeps(1) node_files_queue by blast
next
  case (stops n hist out)
  then show ?case by (simp add: stop_files)
next
  case (works n hist out "done" n')
  then show ?case using writer_step_files by blast
qed

section \<open>Pending rotations\<close>

definition node_pending :: "token list \<Rightarrow> log_node \<Rightarrow> bool" where
  "node_pending hist n \<longleftrightarrow> (running n \<and> cuts_in hist < 2 ^ 32 \<longrightarrow>
     q_rotate_pending (lg_queue n) = word_of_nat (cuts_in (tokens (held n)) + cuts_in (tokens (q_items (lg_queue n)))))"

lemma pending_less_Suc: "m < 2 ^ 32 - 1 \<Longrightarrow> q_rotate_pending q = word_of_nat (Suc m) \<Longrightarrow> q_rotate_pending (pending_less q) = word_of_nat m"
proof -
  assume m: "m < 2 ^ 32 - 1" and q: "q_rotate_pending q = word_of_nat (Suc m)"
  have "(word_of_nat (Suc m) :: u32) \<noteq> 0" using m by (simp add: word_of_nat_eq_0_iff nat_dvd_not_less del: of_nat_Suc)
  then show ?thesis using q by (simp add: pending_less_def)
qed

lemma perform_pending:
  "perform_rotation clock P rename_error open_error q d = (True, renamed, q', d') \<Longrightarrow>
     q_rotate_pending q' = q_rotate_pending (pending_less q)"
  by (auto simp: perform_rotation_def Let_def pending_less_def split: option.splits)

lemma writer_step_pending:
  assumes "writer_step P n done n'" and "node_pending hist n" and "node_accounts hist out n"
  shows "node_pending hist n'"
  using assms(1)
proof cases
  case (writes chunk rest closing answers j r unused clock stopping q)
  have "q_rotate_pending q = q_rotate_pending (lg_queue n)" "q_items q = q_items (lg_queue n)"
    using writes(5) by (auto simp: settle_write_def count_abandoned_eq Let_def split: sum.splits OverflowPolicy.splits)
  then show ?thesis using assms(2) writes(3) by (auto simp: node_pending_def writes(2) held_def running_def)
next
  case (cuts rest closing clock rename_error open_error goes_on renamed q d)
  show ?thesis
  proof (cases "goes_on \<and> cuts_in hist < 2 ^ 32")
    case True
    let ?m = "cuts_in (tokens rest) + cuts_in (tokens (q_items (lg_queue n)))"
    have "Suc ?m \<le> cuts_in hist"
      using assms(3) cuts(3) by (auto simp: node_accounts_def cuts_kept_def held_def running_def)
    with True have "?m < 2 ^ 32 - 1" by simp
    moreover have "q_rotate_pending (lg_queue n) = word_of_nat (Suc ?m)"
      using assms(2) cuts(3) True by (auto simp: node_pending_def held_def running_def)
    ultimately show ?thesis
      using pending_less_Suc [of ?m "lg_queue n"] perform_pending [of clock P rename_error open_error "lg_queue n"] cuts(4) True
        rotation_settled(1) [OF cuts(4)]
      by (auto simp: node_pending_def cuts(2))
  qed (auto simp: node_pending_def cuts(2))
qed (use assms(2) in \<open>auto simp: node_pending_def writer_take_def running_def held_def Let_def split: if_splits\<close>)

lemma run_pending:
  "log_run P L n0 n hist out \<Longrightarrow> fresh_node n0 \<Longrightarrow> node_pending hist n"
proof (induction rule: log_run.induct)
  case begins
  then obtain c listing oe se clock d b where n: "n0 = log_start b (log_create c listing oe se clock d)"
    by (auto simp: fresh_node_def)
  show ?case using create_fields(1,5,8) [OF refl, of c listing oe se clock d]
    by (auto simp: n node_pending_def held_def)
next
  case (pumps n hist out chunk clock taken q)
  have len: "q_queued_bytes (lg_queue n) = item_bytes (q_items (lg_queue n))"
    using run_accounts [OF pumps(1,6)] by (simp add: node_accounts_def accounts_def)
  have "cuts_in (tokens (q_items q)) = cuts_in (tokens (q_items (lg_queue n)))"
    using len pumps(4) by (cases rule: enqueue_cases) (auto simp: sheds_def)
  then show ?case using enqueue_keeps(2) [OF len pumps(4)] pumps(5,6) by (simp add: node_pending_def)
next
  case (rotates n hist out number q)
  then have "q_items q = q_items (lg_queue n) @ [Rotate]" by (auto simp: log_rotate_def split: NodeStatus.splits)
  then show ?case using rotate_keeps(2) [OF rotates(2)] rotates(3,4) by (auto simp: node_pending_def)
next
  case (stops n hist out)
  then show ?case by (simp add: node_pending_def signal_stop_def Let_def running_def held_def)
next
  case (works n hist out "done" n')
  then show ?case using writer_step_pending run_accounts by blast
qed

text \<open>The number a request is answered with is the one its rotation will carry.\<close>

lemma rotate_number:
  assumes "log_run P L n0 n hist out" and "fresh_node n0" and "running n0 \<longrightarrow> lg_dir n0 (lp_filename P) = Some old"
    and "running n" and "log_rotate (lg_queue n) = (Inr number, q)"
    and "first_number (lg_queue n0) + cuts_in hist < 2 ^ 64" and "cuts_in hist < 2 ^ 32"
  shows "unat number = first_number (lg_queue n0) + cuts_in hist"
proof -
  let ?k = "first_number (lg_queue n0)" and ?q = "lg_queue n"
  let ?m = "cuts_in (tokens (held n)) + cuts_in (tokens (q_items ?q))"
  have hist: "cuts_in hist = cuts_in out + ?m"
    using run_accounts [OF assms(1,2)] assms(4) by (auto simp: node_accounts_def cuts_kept_def)
  have "first_number ?q = ?k + cuts_in out"
    using run_files [OF assms(1-3)] assms(4,6) hist by (auto simp: node_files_def)
  then have nxt: "next_rotation ?q = word_of_nat (?k + cuts_in out)"
    using next_rotation_first [of ?q] assms(6) hist by simp
  have pend: "q_rotate_pending ?q = word_of_nat ?m"
    using run_pending [OF assms(1,2)] assms(4,7) by (simp add: node_pending_def)
  have small: "unat (word_of_nat x :: u64) = x" if "x < 2 ^ 64" for x
    using that by (simp add: unsigned_of_nat take_bit_nat_eq_self)
  have "unat (ucast (q_rotate_pending ?q) :: u64) = ?m"
    using assms(7) hist by (simp add: pend unsigned_ucast_eq unsigned_of_nat take_bit_nat_eq_self del: of_nat_add)
  moreover have "number = saturating_add (next_rotation ?q) (ucast (q_rotate_pending ?q))"
    using assms(5) by (auto simp: log_rotate_def split: NodeStatus.splits)
  ultimately show ?thesis
    using small [of "?k + cuts_in out"] assms(6) hist by (simp add: nxt unat_saturating_add del: of_nat_add)
qed

end
