(* ===== verification/Log_Node.thy ===== *)
theory Log_Node
  imports Log_Runs
begin

text \<open>
  What a log node promises (\<open>daemon/src/nodes/log.rs\<close>): every byte is in a file, in memory or counted as
  dropped; rotation cuts the stream where it was asked for, under the number that was announced, and never over
  another file; memory is bounded; and a stopped writer finishes.
\<close>

section \<open>A node over a directory\<close>

text \<open>The listing of a directory has every file directly in it.\<close>

definition lists_dir :: "directory \<Rightarrow> (string, string) result list \<Rightarrow> bool" where
  "lists_dir d entries \<longleftrightarrow> (\<forall>f \<in> dom d. CHR ''/'' \<notin> set f \<longrightarrow> Inr f \<in> set entries)"

definition old_log :: "LogConfig \<Rightarrow> directory \<Rightarrow> byte list" where
  "old_log c d = (case d (log_filename c) of None \<Rightarrow> [] | Some bytes \<Rightarrow> bytes)"

definition node_of ::
  "LogConfig \<Rightarrow> (string, string) result list \<Rightarrow> string option \<Rightarrow> string option \<Rightarrow> int \<Rightarrow> directory \<Rightarrow> log_node" where
  "node_of c entries open_error spawn_error clock d =
     log_start True (log_create c (Inr entries) open_error spawn_error clock d)"

lemma node_of_fresh: "fresh_node (node_of c entries open_error spawn_error clock d)"
  unfolding fresh_node_def node_of_def by blast

lemma place_of [simp]: "lp_filename (log_place_of c) = log_filename c" "lp_padding (log_place_of c) = rotation_padding c"
  by (simp_all add: log_place_of_def)

lemma node_of_old:
  assumes "n = node_of c entries open_error spawn_error clock d" and "running n"
  shows "lg_dir n (log_filename c) = Some (old_log c d)"
    and "scan_rotation (log_filename c) (Inr entries) = Inr (q_rotation (lg_queue n))"
proof -
  note fields = create_fields [OF refl, of c "Inr entries" open_error spawn_error clock d]
  have "lg_writer n = AtTop" using assms fields(8) by (auto simp: node_of_def running_def)
  then have "open_error = None" "scan_rotation (log_filename c) (Inr entries) = Inr (q_rotation (lg_queue n))"
    using fields(9) assms(1) by (auto simp: node_of_def)
  then show "lg_dir n (log_filename c) = Some (old_log c d)"
      "scan_rotation (log_filename c) (Inr entries) = Inr (q_rotation (lg_queue n))"
    using fields(10) assms(1) by (auto simp: node_of_def open_append_def old_log_def split: option.splits)
qed

lemma run_from_node:
  assumes "log_run (log_place_of c) L (node_of c entries open_error spawn_error clock d) n hist out"
  shows "node_files (log_place_of c) (first_number (lg_queue (node_of c entries open_error spawn_error clock d)))
     (old_log c d) (lg_dir (node_of c entries open_error spawn_error clock d)) out n"
  using run_files [OF assms node_of_fresh, of "old_log c d"] node_of_old(1) [OF refl] by simp

text \<open>A writer that is not running at the start never runs, and then nothing happens to the files.\<close>

lemma never_runs:
  assumes "log_run P L n0 n hist out" and "lg_writer n0 = Gone"
  shows "lg_writer n = Gone \<and> out = []"
  using assms
proof (induction rule: log_run.induct)
  case (works n hist out "done" n')
  then show ?case by (auto elim: writer_step.cases)
qed (auto simp: signal_stop_def Let_def)

text \<open>The numbers above what the scan found are free.\<close>

lemma free_numbers:
  assumes "lists_dir d entries" and "is_str (log_filename c)" and "CHR ''/'' \<notin> set (log_filename c)"
    and "scan_rotation (log_filename c) (Inr entries) = Inr (q_rotation q)"
    and "first_number q \<le> i" and "i < 2 ^ 64"
  shows "rname (log_place_of c) i \<notin> dom d"
proof
  let ?f = "rname (log_place_of c) i"
  assume "?f \<in> dom d"
  moreover have "CHR ''/'' \<notin> set ?f" using rotated_no_slash [OF assms(3)] by (simp add: rname_def)
  ultimately have "Inr ?f \<in> set entries" using assms(1) by (simp add: lists_dir_def)
  moreover have "is_str ?f" using rotated_is_str [OF assms(2)] by (simp add: rname_def)
  moreover have "rotation_of (log_filename c) ?f = Some (word_of_nat i)" by (simp add: rname_def rotations.number_name)
  moreover have "scan_entries (log_filename c @ ''.'') None entries = Inr (q_rotation q)"
    using assms(4) by (simp add: scan_rotation_def)
  ultimately have "above_all (q_rotation q) (word_of_nat i)" using scan_entries_max by blast
  then show False
    using assms(5,6)
    by (auto simp: above_all_def first_number_def word_le_nat_alt unsigned_of_nat take_bit_nat_eq_self split: option.splits)
qed

lemma kept_files:
  assumes run: "log_run (log_place_of c) L n0 n hist out" and n0: "n0 = node_of c entries open_error spawn_error clock d"
    and dir: "lists_dir d entries" "is_str (log_filename c)" "CHR ''/'' \<notin> set (log_filename c)"
    and lim: "first_number (lg_queue n0) + cuts_in out \<le> 2 ^ 64" and f: "f \<in> dom d" "f \<noteq> log_filename c"
  shows "lg_dir n f = d f"
proof -
  let ?k = "first_number (lg_queue n0)" and ?P = "log_place_of c"
  have start: "lg_dir n0 f = d f"
    using f(2) create_fields(10) [OF refl, of c "Inr entries" open_error spawn_error clock d] by (simp add: n0 node_of_def)
  have "f \<noteq> rname ?P (?k + i)" if i: "i < cuts_in out" for i
  proof -
    have "lg_writer n0 \<noteq> Gone" using never_runs [OF run] i by auto
    then have "running n0"
      using create_fields(8) [OF refl, of c "Inr entries" open_error spawn_error clock d] by (auto simp: n0 node_of_def running_def)
    from free_numbers [OF dir node_of_old(2) [OF n0 this], of "?k + i"] i lim f(1) show ?thesis by auto
  qed
  then show ?thesis
    using run_from_node [OF run [unfolded n0]] lim f(2) start by (auto simp: node_files_def files_ok_def n0)
qed

section \<open>Bounds and progress\<close>




text \<open>The steps a writer has left once the queue is closed.\<close>

definition writer_left :: "log_node \<Rightarrow> nat" where
  "writer_left n = (case lg_writer n of
       AtTop \<Rightarrow> length (q_items (lg_queue n)) + 4
     | InBatch batch True \<Rightarrow> length batch + 2
     | InBatch batch False \<Rightarrow> length batch + length (q_items (lg_queue n)) + 5
     | Drained \<Rightarrow> 1
     | Gone \<Rightarrow> 0)"

lemma settle_write_keeps:
  "settle_write clock P rest r q = (stopping, q') \<Longrightarrow> q_items q' = q_items q \<and> q_closed q' = q_closed q"
  by (auto simp: settle_write_def count_abandoned_eq Let_def split: sum.splits OverflowPolicy.splits)

lemma writer_step_left:
  "writer_step P n done n' \<Longrightarrow> q_closed (lg_queue n) \<Longrightarrow> q_closed (lg_queue n') \<and> writer_left n' < writer_left n"
proof (induction rule: writer_step.induct)
  case (writes n chunk rest closing answers k r unused clock stopping q)
  then show ?case using settle_write_keeps [OF writes(3)] by (cases closing) (auto simp: writer_left_def)
next
  case (cuts n rest closing clock rename_error open_error goes_on renamed q d)
  then show ?case using rotation_settled(1,7) [OF cuts(2)]
    by (cases closing) (auto simp: writer_left_def count_abandoned_eq)
qed (auto simp: writer_left_def writer_take_def abandon_queue_def count_abandoned_eq Let_def split: if_splits)

lemma writer_not_stuck:
  assumes "lg_writer n \<noteq> Gone"
  shows "\<exists>done n'. writer_step P n done n'"
proof (cases "lg_writer n")
  case AtTop
  then show ?thesis
    by (cases "writer_take (lg_queue n)"; cases "fst (writer_take (lg_queue n))") (auto intro: writer_step.parks writer_step.takes)
next
  case (InBatch batch closing)
  show ?thesis
  proof (cases batch)
    case Nil
    then show ?thesis using InBatch writer_step.ends by blast
  next
    case (Cons item rest)
    show ?thesis
    proof (cases item)
      case (Bytes chunk)
      have "write_chunk [Wrote (length chunk)] chunk = Some (length chunk, Ok (), if chunk = [] then [Wrote 0] else [])"
        by (cases chunk) auto
      then show ?thesis using InBatch Cons Bytes writer_step.writes
        by (cases "settle_write 0 P rest (Ok ()) (lg_queue n)") blast
    next
      case Rotate
      then show ?thesis using InBatch Cons writer_step.cuts
        by (cases "perform_rotation 0 P None None (lg_queue n) (lg_dir n)") blast
    qed
  qed
qed (use assms in \<open>auto intro: writer_step.leaves\<close>)

section \<open>A run\<close>

definition bench_log :: LogConfig where
  "bench_log = \<lparr>log_name = ''lg'', log_directory = ''/var/log'', log_filename = ''c.log'', log_overflow = DropOldest,
     log_rotation_padding = 3\<rparr>"

definition bench_dir :: directory where
  "bench_dir = [''c.log'' \<mapsto> [1], ''c.log.004'' \<mapsto> [9]]"

definition bench_node :: log_node where
  "bench_node = node_of bench_log [Inr ''c.log'', Inr ''c.log.004''] None None 0 bench_dir"

definition bench_queue :: "QueueItem list \<Rightarrow> nat \<Rightarrow> nat \<Rightarrow> u32 \<Rightarrow> u64 option \<Rightarrow> Queue" where
  "bench_queue items queued draining pending rotation =
     \<lparr>q_items = items, q_queued_bytes = queued, q_draining_bytes = draining, q_dropped_bytes = 0, q_write_errors = 0,
      q_last_write_error = None, q_rotate_pending = pending, q_rotation = rotation, q_closed = False,
      q_writer_gone = False, q_status = state_new Active 0, q_overflow = DropOldest\<rparr>"

lemma bench_names: "rotated_name ''c.log'' 3 4 = ''c.log.004''" "rotated_name ''c.log'' 3 5 = ''c.log.005''"
proof -
  have "char_of (52 :: nat) = CHR ''4''" "char_of (53 :: nat) = CHR ''5''" by (simp_all add: char_of_eq_iff)
  moreover have "replicate 2 x = [x, x]" for x :: char by (simp add: numeral_2_eq_2)
  ultimately show "rotated_name ''c.log'' 3 4 = ''c.log.004''" "rotated_name ''c.log'' 3 5 = ''c.log.005''"
    by (simp_all add: rotated_name_def padded_def decimal.simps)
qed

lemma bench_scan: "scan_rotation ''c.log'' (Inr [Inr ''c.log'', Inr ''c.log.004'']) = Inr (Some 4)"
proof -
  have "rotation_of ''c.log'' ''c.log.004'' = Some 4"
    using rotations.number_name [of "''c.log''" 3 4] by (simp add: bench_names)
  moreover have "rotation_of ''c.log'' ''c.log'' = None" by (simp add: rotation_of_def strip_prefix_def)
  moreover have "is_str ''c.log.004''" by code_simp
  ultimately show ?thesis
    by (simp only: scan_rotation_def sum.case scan_entry) (simp add: seen_number_def)
qed

lemma bench_start:
  "lg_queue bench_node = bench_queue [] 0 0 0 (Some 4)" "lg_writer bench_node = AtTop" "lg_pumping bench_node"
  using bench_scan
  by (simp_all add: bench_node_def node_of_def log_start_def log_create_def bench_log_def apply_spawn_def queue_new_def
      bench_queue_def Let_def)

lemma bench_ops:
  "log_enqueue 0 [2, 3] (bench_queue [] 0 0 0 (Some 4)) = (True, bench_queue [Bytes [2, 3]] 2 0 0 (Some 4))"
  "log_rotate (bench_queue [Bytes [2, 3]] 2 0 0 (Some 4)) = (Inr 5, bench_queue [Bytes [2, 3], Rotate] 2 0 1 (Some 4))"
  "log_enqueue 0 [4] (bench_queue [Bytes [2, 3], Rotate] 2 0 1 (Some 4)) =
     (True, bench_queue [Bytes [2, 3], Rotate, Bytes [4]] 3 0 1 (Some 4))"
  "writer_take (bench_queue [Bytes [2, 3], Rotate, Bytes [4]] 3 0 1 (Some 4)) =
     (Some ([Bytes [2, 3], Rotate, Bytes [4]], False), bench_queue [] 0 3 1 (Some 4))"
  "write_chunk [Wrote 1, Interrupted, Wrote 1] [2, 3] = Some (2, Ok (), [])"
  by (simp_all add: log_enqueue_def bench_queue_def QUEUE_CAP_BYTES_def log_rotate_def state_new_def new_at_def
      next_rotation_def saturating_add_def writer_take_def Let_def)

lemma bench_rotation:
  "perform_rotation 0 (log_place_of bench_log) None None (bench_queue [] 0 3 1 (Some 4)) d =
     (True, True, bench_queue [] 0 3 0 (Some 5), open_append ''c.log'' (rename_file ''c.log'' ''c.log.005'' d))"
  by (simp add: perform_rotation_def next_rotation_def bench_queue_def saturating_add_def pending_less_def bench_log_def
      log_place_of_def rotation_padding_def bench_names Let_def)

text \<open>Two bytes, a rotation, one more byte; the writer takes all three and has done the first two.\<close>

lemma bench_run:
  "\<exists>n. log_run (log_place_of bench_log) 2 bench_node n [Byte 2, Byte 3, Cut, Byte 4] [Byte 2, Byte 3, Cut] \<and>
     running n \<and> lg_queue n = bench_queue [] 0 3 0 (Some 5)"
proof -
  let ?P = "log_place_of bench_log" and ?run = "log_run (log_place_of bench_log) 2 bench_node"
  have "?run bench_node [] []" by (rule log_run.begins)
  from log_run.pumps [OF this bench_start(3) _ bench_ops(1) [folded bench_start(1)]]
  have "?run (bench_node\<lparr>lg_queue := bench_queue [Bytes [2, 3]] 2 0 0 (Some 4)\<rparr>) [Byte 2, Byte 3] []" by simp
  from log_run.rotates [OF this, of 5 "bench_queue [Bytes [2, 3], Rotate] 2 0 1 (Some 4)"]
  have "?run (bench_node\<lparr>lg_queue := bench_queue [Bytes [2, 3], Rotate] 2 0 1 (Some 4)\<rparr>) [Byte 2, Byte 3, Cut] []"
    by (simp add: bench_ops(2))
  from log_run.pumps [OF this, of "[4]" 0 True "bench_queue [Bytes [2, 3], Rotate, Bytes [4]] 3 0 1 (Some 4)"]
  have "?run (bench_node\<lparr>lg_queue := bench_queue [Bytes [2, 3], Rotate, Bytes [4]] 3 0 1 (Some 4)\<rparr>)
      [Byte 2, Byte 3, Cut, Byte 4] []" by (simp add: bench_start(3) bench_ops(3))
  from log_run.works [OF this writer_step.takes [where batch = "[Bytes [2, 3], Rotate, Bytes [4]]" and closing = False
        and q = "bench_queue [] 0 3 1 (Some 4)"]]
  have "?run (bench_node\<lparr>lg_queue := bench_queue [] 0 3 1 (Some 4),
        lg_writer := InBatch [Bytes [2, 3], Rotate, Bytes [4]] False\<rparr>) [Byte 2, Byte 3, Cut, Byte 4] []"
    by (simp add: bench_start(2) bench_ops(4))
  from log_run.works [OF this writer_step.writes [OF _ bench_ops(5), where rest = "[Rotate, Bytes [4]]" and closing = False
        and clock = 0 and stopping = False and q = "bench_queue [] 0 3 1 (Some 4)"]]
  obtain d where "?run (bench_node\<lparr>lg_queue := bench_queue [] 0 3 1 (Some 4), lg_dir := d,
        lg_writer := InBatch [Rotate, Bytes [4]] False\<rparr>) [Byte 2, Byte 3, Cut, Byte 4] [Byte 2, Byte 3]"
    by (auto simp: settle_write_def)
  from log_run.works [OF this writer_step.cuts [where rest = "[Bytes [4]]" and closing = False and clock = 0
        and goes_on = True and renamed = True and q = "bench_queue [] 0 3 0 (Some 5)" and rename_error = None and open_error = None]]
  show ?thesis by (force simp: bench_rotation running_def)
qed

section \<open>Properties\<close>

text \<open>
  C5: no console byte vanishes. Whatever the interleaving of pump, rotations, writer and teardown and whatever the
  file system answers, what is in the files, in the writer's hands and in the queue is, in order, what was
  offered with some bytes missing, and \<open>dropped_bytes\<close> counts exactly those; no rotation request is lost while
  the writer runs; and when the writer is gone, files and \<open>dropped_bytes\<close> together are all there was.
\<close>

theorem log_bytes_accounted:
  assumes "log_run P L n0 n hist out" and "fresh_node n0"
  shows "subseq (out @ tokens (held n) @ tokens (q_items (lg_queue n))) hist \<and>
    q_dropped_bytes (lg_queue n) + word_of_nat (bytes_in (out @ tokens (held n) @ tokens (q_items (lg_queue n)))) =
      word_of_nat (bytes_in hist) \<and>
    (running n \<longrightarrow> cuts_in (out @ tokens (held n) @ tokens (q_items (lg_queue n))) = cuts_in hist) \<and>
    (lg_writer n = Gone \<longrightarrow> q_dropped_bytes (lg_queue n) + word_of_nat (bytes_in out) = word_of_nat (bytes_in hist))"
proof -
  have "lg_writer n = Gone \<Longrightarrow> held n = []" by (simp add: held_def)
  then show ?thesis using run_accounts [OF assms]
    by (auto simp: node_accounts_def accounts_def cuts_kept_def add.assoc)
qed

theorem log_bytes_accounted_witness:
  "\<exists>n. q_dropped_bytes (lg_queue n) = 0 \<and>
     q_dropped_bytes (lg_queue n) + word_of_nat (bytes_in ([Byte 2, Byte 3, Cut] @ tokens (held n) @ tokens (q_items (lg_queue n)))) = 3"
proof -
  obtain n where n: "log_run (log_place_of bench_log) 2 bench_node n [Byte 2, Byte 3, Cut, Byte 4] [Byte 2, Byte 3, Cut]"
    "lg_queue n = bench_queue [] 0 3 0 (Some 5)" using bench_run by blast
  have "fresh_node bench_node" unfolding bench_node_def by (rule node_of_fresh)
  from log_bytes_accounted [OF n(1) this] n(2) show ?thesis by (intro exI [of _ n]) (auto simp: bench_queue_def)
qed

text \<open>
  C33: the files are the stream, cut where it was asked for. For a node that came up over a directory whose
  listing it was given, the \<open>i\<close>-th rotation done left the file numbered \<open>i\<close> above the first free number with
  exactly the bytes written between the requests around it, the current file has the rest, and every other file
  that was in the directory is still there, unchanged: no rotation is renamed onto another. The numbers of a
  \<open>u64\<close> must not run out, and the file name must name a file of the directory itself.
\<close>

theorem log_files_are_the_stream:
  assumes "n0 = node_of c entries open_error spawn_error clock d" and "log_run (log_place_of c) L n0 n hist out"
    and "lists_dir d entries" and "is_str (log_filename c)" and "CHR ''/'' \<notin> set (log_filename c)"
    and "first_number (lg_queue n0) + cuts_in out \<le> 2 ^ 64"
  shows "(\<forall>i < cuts_in out. lg_dir n (rotated_name (log_filename c) (rotation_padding c)
       (word_of_nat (first_number (lg_queue n0) + i))) = Some (contents (old_log c d) out ! i)) \<and>
    (running n \<longrightarrow> lg_dir n (log_filename c) = Some (last (contents (old_log c d) out))) \<and>
    (\<forall>f \<in> dom d. f \<noteq> log_filename c \<longrightarrow> lg_dir n f = d f)"
  using run_from_node [OF assms(2) [unfolded assms(1)]] kept_files [OF assms(2,1,3-6)] assms(1,6)
  by (auto simp: node_files_def files_ok_def rname_def simp del: of_nat_add)

theorem log_files_are_the_stream_witness:
  "\<exists>n. log_run (log_place_of bench_log) 2 bench_node n [Byte 2, Byte 3, Cut, Byte 4] [Byte 2, Byte 3, Cut] \<and>
     lg_dir n ''c.log.005'' = Some [1, 2, 3] \<and> lg_dir n ''c.log'' = Some [] \<and> lg_dir n ''c.log.004'' = Some [9]"
proof -
  obtain n where n: "log_run (log_place_of bench_log) 2 bench_node n [Byte 2, Byte 3, Cut, Byte 4] [Byte 2, Byte 3, Cut]"
    "running n" using bench_run by blast
  have name: "log_filename bench_log = ''c.log''" "rotation_padding bench_log = 3"
    by (simp_all add: bench_log_def rotation_padding_def)
  have first: "first_number (lg_queue bench_node) = 5" by (simp add: bench_start(1) bench_queue_def first_number_def)
  have "lists_dir bench_dir [Inr ''c.log'', Inr ''c.log.004'']" by (auto simp: lists_dir_def bench_dir_def)
  moreover have "is_str ''c.log''" by code_simp
  moreover have "old_log bench_log bench_dir = [1]" by (simp add: old_log_def name bench_dir_def)
  moreover have "''c.log.004'' \<in> dom bench_dir" "bench_dir ''c.log.004'' = Some [9]" by (simp_all add: bench_dir_def)
  ultimately show ?thesis
    using log_files_are_the_stream [OF bench_node_def n(1)] n
    by (intro exI [of _ n]) (auto simp: name first bench_names dest: bspec [of _ _ "''c.log.004''"])
qed

text \<open>
  \<open>rotate\<close> announces the number it will carry. While the writer runs, the number a request is answered with is
  the first free number plus the requests made before it, which is the number of the file that ends where the
  request was made.
\<close>

theorem rotate_announces_its_number:
  assumes "n0 = node_of c entries open_error spawn_error clock d" and "log_run (log_place_of c) L n0 n hist out"
    and "running n" and "log_rotate (lg_queue n) = (Inr number, q)"
    and "first_number (lg_queue n0) + cuts_in hist < 2 ^ 64" and "cuts_in hist < 2 ^ 32"
  shows "unat number = first_number (lg_queue n0) + cuts_in hist"
  using rotate_number [OF assms(2) _ _ assms(3-6), of "old_log c d"] node_of_fresh node_of_old(1) [OF assms(1)] assms(1)
  by (simp add: assms(1))

theorem rotate_announces_its_number_witness: "\<exists>q. log_rotate (bench_queue [] 0 3 0 (Some 5)) = (Inr 6, q)"
proof -
  obtain n where n: "log_run (log_place_of bench_log) 2 bench_node n [Byte 2, Byte 3, Cut, Byte 4] [Byte 2, Byte 3, Cut]"
    "running n" "lg_queue n = bench_queue [] 0 3 0 (Some 5)" using bench_run by blast
  have first: "first_number (lg_queue bench_node) = 5" by (simp add: bench_start(1) bench_queue_def first_number_def)
  obtain number q where rot: "log_rotate (lg_queue n) = (Inr number, q)"
    by (simp add: n(3) log_rotate_def bench_queue_def state_new_def new_at_def)
  from rotate_announces_its_number [OF bench_node_def n(1,2) rot] have "unat number = 6" by (simp add: first)
  then have "number = 6" using unsigned_word_eqI [of number "6 :: u64", where ?'a = nat] by simp
  with rot n(3) show ?thesis by auto
qed



text \<open>
  C35: a stopped writer finishes. Once the queue is closed, no sequence of the writer's steps is longer than
  \<open>writer_left\<close>, and a writer that is not gone can always take another one: a \<open>write(2)\<close> that is answered within its
  contract returns after at most one answer per byte besides interruptions.
\<close>

theorem log_writer_terminates:
  assumes "q_closed (lg_queue n)"
  shows "(((\<lambda>a b. \<exists>done. writer_step P a done b) ^^ k) n n' \<longrightarrow> k \<le> writer_left n) \<and>
    (lg_writer n \<noteq> Gone \<longrightarrow> (\<exists>done n'. writer_step P n done n')) \<and>
    (answers_fit answers (length chunk) \<and> length chunk \<le> length (filter (\<lambda>a. a \<noteq> Interrupted) answers) \<longrightarrow>
       (\<exists>stored r unused. write_chunk answers chunk = Some (stored, r, unused)))"
proof -
  have "k + writer_left n' \<le> writer_left n \<and> q_closed (lg_queue n')"
    if "((\<lambda>a b. \<exists>done. writer_step P a done b) ^^ k) n n'" for k n'
    using that
  proof (induction k arbitrary: n')
    case (Suc k)
    then obtain m "done" where "((\<lambda>a b. \<exists>done. writer_step P a done b) ^^ k) n m" "writer_step P m done n'" by auto
    then show ?case using Suc.IH [of m] writer_step_left by fastforce
  qed (use assms in simp)
  moreover have "answers_fit answers (length chunk) \<Longrightarrow> length chunk \<le> length (filter (\<lambda>a. a \<noteq> Interrupted) answers) \<Longrightarrow>
      \<exists>stored r unused. write_chunk answers chunk = Some (stored, r, unused)"
    using write_chunk_ends [of answers chunk] by auto
  ultimately show ?thesis using writer_not_stuck by (metis add_leD1)
qed

theorem log_writer_terminates_witness:
  "\<exists>done n'. writer_step (log_place_of bench_log) (signal_stop bench_node) done n' \<and>
     writer_left (signal_stop bench_node) = 4"
proof -
  have stop: "q_closed (lg_queue (signal_stop bench_node))" "lg_writer (signal_stop bench_node) = AtTop"
      "q_items (lg_queue (signal_stop bench_node)) = []"
    using create_fields(11) [OF refl, of bench_log "Inr [Inr ''c.log'', Inr ''c.log.004'']" None None 0 bench_dir] bench_start
    by (auto simp: signal_stop_def Let_def bench_queue_def bench_node_def node_of_def)
  from log_writer_terminates [OF stop(1), where P = "log_place_of bench_log"] stop(2,3) show ?thesis
    by (simp add: writer_left_def)
qed

text \<open>
  A file name that leads below the log directory is accepted, and the scan, which looks at the names in the
  directory itself, then never sees its rotations: a restarted node counts from zero again.
\<close>

lemma slashed_scan:
  assumes "CHR ''/'' \<in> set filename" and "\<forall>f \<in> set names. CHR ''/'' \<notin> set f"
  shows "scan_rotation filename (Inr (map Inr names)) = Inr None"
proof -
  have "rotation_of filename f = None" if "f \<in> set names" for f
  proof -
    have "set filename \<subseteq> set (take (length (filename @ ''.'')) f)" if "take (length (filename @ ''.'')) f = filename @ ''.''"
      by (subst that) auto
    then have "strip_prefix (filename @ ''.'') f = None"
      using assms \<open>f \<in> set names\<close> set_take_subset [of "length (filename @ ''.'')" f]
      by (auto simp: strip_prefix_def)
    then show ?thesis by (simp add: rotation_of_def)
  qed
  then have "scan_entries (filename @ ''.'') None (map Inr names) = Inr None"
    by (induction names) (simp_all add: scan_entry seen_number_def del: scan_entries.simps(3))
  then show ?thesis by (simp add: scan_rotation_def)
qed

text \<open>
  C36: a log whose file name has a directory part destroys its rotations across a restart. The name is accepted, and
  whatever rotation number zero held when the node came up, the first rotation after that replaces it.
\<close>

theorem slashed_log_overwrites:
  assumes "CHR ''/'' \<in> set (log_filename c)" and "\<forall>f \<in> set names. CHR ''/'' \<notin> set f"
    and "n0 = node_of c (map Inr names) None None clock d" and "log_run (log_place_of c) L n0 n hist out"
    and "0 < cuts_in out" and "cuts_in out \<le> 2 ^ 64"
  shows "lg_dir n (rotated_name (log_filename c) (rotation_padding c) 0) = Some (contents (old_log c d) out ! 0)"
proof -
  have "running n0"
    using slashed_scan [OF assms(1,2)] by (simp add: assms(3) node_of_def log_start_def log_create_def Let_def apply_spawn_def running_def)
  then have "first_number (lg_queue n0) = 0"
    using node_of_old(2) [OF assms(3)] slashed_scan [OF assms(1,2)] by (simp add: first_number_def)
  then show ?thesis
    using run_from_node [OF assms(4) [unfolded assms(3)]] assms(3,5,6) by (auto simp: node_files_def files_ok_def rname_def)
qed

definition slashed_log :: LogConfig where
  "slashed_log = bench_log\<lparr>log_filename := ''s/c.log''\<rparr>"

definition slashed_dir :: directory where
  "slashed_dir = [''s/c.log'' \<mapsto> [1], ''s/c.log.000'' \<mapsto> [9]]"

definition slashed_node :: log_node where
  "slashed_node = node_of slashed_log (map Inr [''s'']) None None 0 slashed_dir"

lemma slashed_name: "log_filename slashed_log = ''s/c.log''" "rotation_padding slashed_log = 3"
  "rotated_name ''s/c.log'' 3 0 = ''s/c.log.000''"
proof -
  have "char_of (48 :: nat) = CHR ''0''" by (simp add: char_of_eq_iff)
  moreover have "replicate 2 x = [x, x]" for x :: char by (simp add: numeral_2_eq_2)
  ultimately show "rotated_name ''s/c.log'' 3 0 = ''s/c.log.000''"
    by (simp add: rotated_name_def padded_def decimal.simps)
qed (simp_all add: slashed_log_def bench_log_def rotation_padding_def)

lemma slashed_run: "\<exists>n. log_run (log_place_of slashed_log) 0 slashed_node n [Cut] [Cut]"
proof -
  let ?P = "log_place_of slashed_log" and ?run = "log_run (log_place_of slashed_log) 0 slashed_node"
  have scan: "scan_rotation ''s/c.log'' (Inr [Inr ''s'']) = Inr None"
    using slashed_scan [of "''s/c.log''" "[''s'']"] by simp
  have start: "lg_queue slashed_node = bench_queue [] 0 0 0 None" "lg_writer slashed_node = AtTop"
    using scan by (simp_all add: slashed_node_def node_of_def log_start_def log_create_def slashed_log_def bench_log_def
        apply_spawn_def queue_new_def bench_queue_def Let_def)
  have "log_rotate (bench_queue [] 0 0 0 None) = (Inr 0, bench_queue [Rotate] 0 0 1 None)"
    by (simp add: log_rotate_def bench_queue_def state_new_def new_at_def next_rotation_def saturating_add_def)
  from log_run.rotates [OF log_run.begins this [folded start(1)]]
  have "?run (slashed_node\<lparr>lg_queue := bench_queue [Rotate] 0 0 1 None\<rparr>) [Cut] []" by simp
  from log_run.works [OF this writer_step.takes [where batch = "[Rotate]" and closing = False and q = "bench_queue [] 0 0 1 None"]]
  have taken: "?run (slashed_node\<lparr>lg_queue := bench_queue [] 0 0 1 None, lg_writer := InBatch [Rotate] False\<rparr>) [Cut] []"
    by (simp add: start(2) writer_take_def bench_queue_def Let_def)
  obtain q d where "perform_rotation 0 ?P None None (bench_queue [] 0 0 1 None) (lg_dir slashed_node) = (True, True, q, d)"
    by (simp add: perform_rotation_def Let_def)
  with log_run.works [OF taken writer_step.cuts [where rest = "[]" and closing = False and goes_on = True and renamed = True]]
  show ?thesis by fastforce
qed

theorem slashed_log_overwrites_witness:
  "\<exists>n. slashed_dir ''s/c.log.000'' = Some [9] \<and> log_run (log_place_of slashed_log) 0 slashed_node n [Cut] [Cut] \<and>
     lg_dir n ''s/c.log.000'' = Some [1]"
proof -
  obtain n where n: "log_run (log_place_of slashed_log) 0 slashed_node n [Cut] [Cut]" using slashed_run by blast
  have "lg_dir n ''s/c.log.000'' = Some [1]"
    using slashed_log_overwrites [OF _ _ slashed_node_def n] by (simp add: slashed_name old_log_def slashed_dir_def)
  then show ?thesis using n by (auto simp: slashed_dir_def)
qed

end
