(* ===== verification/Fanout.thy ===== *)
theory Fanout
  imports Wiring
begin

text \<open>
  Hostward delivery in the daemon (\<open>daemon/src/runtime.rs\<close>): the one fan-out every producer uses, with its three
  outcomes per consumer, the loss counters of a consuming boundary, and the routing of one decoded channel chunk
  that the two codec nodes and the leg share. A bounded channel is its queue, its depth and whether its receiver
  is alive; the channels and counters a sink names are found through their handles (\<open>Wiring\<close>). The trait
  \<open>HostwardChannelStat\<close> is the record of its methods, and what its implementations promise is the locale
  \<open>channel_stat\<close>, interpreted on the statistics of the three node kinds.
\<close>

section \<open>Channels and counters\<close>

record channel =
  ch_queue :: "byte list list"
  ch_cap :: nat
  ch_open :: bool

definition chunk_try_send :: "byte list \<Rightarrow> channel \<Rightarrow> SendOutcome \<times> channel" where
  "chunk_try_send chunk ch =
     (if \<not> ch_open ch then (SendClosed, ch)
      else if length (ch_queue ch) \<ge> ch_cap ch then (SendFull, ch)
      else (Sent, ch\<lparr>ch_queue := ch_queue ch @ [chunk]\<rparr>))"

record DropCounters =
  dropped_full :: u64
  discarded_absent :: u64

definition add_full :: "u64 \<Rightarrow> DropCounters \<Rightarrow> DropCounters" where
  "add_full n c = c\<lparr>dropped_full := dropped_full c + n\<rparr>"

definition add_absent :: "u64 \<Rightarrow> DropCounters \<Rightarrow> DropCounters" where
  "add_absent n c = c\<lparr>discarded_absent := discarded_absent c + n\<rparr>"

record traffic =
  tr_channels :: "handle \<Rightarrow> channel"
  tr_counters :: "handle \<Rightarrow> DropCounters"

text \<open>\<open>chunk.len() as u64\<close>.\<close>

definition len64 :: "byte list \<Rightarrow> u64" where
  "len64 chunk = word_of_nat (length chunk)"

section \<open>The fan-out\<close>

record FanOut =
  fo_live :: bool
  fo_delivered :: u64
  fo_dropped_full :: u64

definition fan_out_one :: "byte list \<Rightarrow> AttachedSink \<Rightarrow> FanOut \<times> traffic \<Rightarrow> FanOut \<times> traffic" where
  "fan_out_one chunk s = (\<lambda>(fo, tr).
     case chunk_try_send chunk (tr_channels tr (sink_tx s)) of
       (Sent, ch) \<Rightarrow>
         (fo\<lparr>fo_live := True, fo_delivered := len64 chunk\<rparr>, tr\<lparr>tr_channels := (tr_channels tr)(sink_tx s := ch)\<rparr>)
     | (SendFull, _) \<Rightarrow>
         (fo\<lparr>fo_dropped_full := fo_dropped_full fo + len64 chunk, fo_live := True\<rparr>,
          tr\<lparr>tr_counters := (tr_counters tr)(sink_counters s := add_full (len64 chunk) (tr_counters tr (sink_counters s)))\<rparr>)
     | (SendClosed, _) \<Rightarrow> (fo, tr))"

text \<open>The result: what was done, the channels and counters, and what is added to the caller's unattached counter.\<close>

definition fan_out :: "byte list \<Rightarrow> AttachedSink list \<Rightarrow> traffic \<Rightarrow> FanOut \<times> traffic \<times> u64" where
  "fan_out chunk sinks tr =
     (let (fo, tr) = fold (fan_out_one chunk) sinks (\<lparr>fo_live = False, fo_delivered = 0, fo_dropped_full = 0\<rparr>, tr)
      in (fo, tr, if fo_live fo then 0 else len64 chunk))"

definition fanout_broadcast :: "byte list \<Rightarrow> handle \<Rightarrow> 're heap \<Rightarrow> traffic \<Rightarrow> FanOut \<times> traffic \<times> u64" where
  "fanout_broadcast chunk f hp tr = fan_out chunk (hp_fanouts hp f) tr"

section \<open>Routing one channel chunk\<close>

record 's stat_methods =
  sm_set_active :: "'s \<Rightarrow> 's"
  sm_add_delivered :: "u64 \<Rightarrow> 's \<Rightarrow> 's"
  sm_add_unattached :: "u64 \<Rightarrow> 's \<Rightarrow> 's"
  sm_add_dropped_full :: "u64 \<Rightarrow> 's \<Rightarrow> 's"

definition route_channel_data ::
  "'s stat_methods \<Rightarrow> byte list \<Rightarrow> 're tap_feed option \<Rightarrow> AttachedSink list option \<Rightarrow> 's option \<Rightarrow> traffic \<Rightarrow>
     're tap_feed option \<times> 's option \<times> traffic" where
  "route_channel_data m chunk feed sinks stat tr =
     (let stat = map_option (sm_set_active m) stat;
          feed = map_option (mirror chunk) feed
      in case sinks of
           None \<Rightarrow> (feed, map_option (sm_add_unattached m (len64 chunk)) stat, tr)
         | Some sinks \<Rightarrow>
             (let (fan, tr, lost) = fan_out chunk sinks tr;
                  stat = map_option (sm_add_unattached m lost) stat;
                  stat = map_option (sm_add_delivered m (fo_delivered fan)) stat;
                  stat = map_option (sm_add_dropped_full m (fo_dropped_full fan)) stat
              in (feed, stat, tr)))"

text \<open>The statistics of a channel: of the codec node, of the exec codec node, and of the leg (its hostward part).\<close>

record codec_stat =
  cs_delivered_hostward :: u64
  cs_discarded_unattached :: u64
  cs_accepted_targetward :: u64
  cs_discarded_targetward :: u64
  cs_active :: bool

definition codec_stat_methods :: "codec_stat stat_methods" where
  "codec_stat_methods =
     \<lparr>sm_set_active = (\<lambda>s. s\<lparr>cs_active := True\<rparr>),
      sm_add_delivered = (\<lambda>n s. s\<lparr>cs_delivered_hostward := cs_delivered_hostward s + n\<rparr>),
      sm_add_unattached = (\<lambda>n s. s\<lparr>cs_discarded_unattached := cs_discarded_unattached s + n\<rparr>),
      sm_add_dropped_full = (\<lambda>n s. s)\<rparr>"

record exec_stat =
  es_delivered_hostward :: u64
  es_discarded_unattached :: u64
  es_active :: bool

definition exec_stat_methods :: "exec_stat stat_methods" where
  "exec_stat_methods =
     \<lparr>sm_set_active = (\<lambda>s. s\<lparr>es_active := True\<rparr>),
      sm_add_delivered = (\<lambda>n s. s\<lparr>es_delivered_hostward := es_delivered_hostward s + n\<rparr>),
      sm_add_unattached = (\<lambda>n s. s\<lparr>es_discarded_unattached := es_discarded_unattached s + n\<rparr>),
      sm_add_dropped_full = (\<lambda>n s. s)\<rparr>"

record leg_stat =
  ls_delivered_hostward :: u64
  ls_discarded_hostward :: u64
  ls_active :: bool

definition leg_stat_methods :: "leg_stat stat_methods" where
  "leg_stat_methods =
     \<lparr>sm_set_active = (\<lambda>s. s\<lparr>ls_active := True\<rparr>),
      sm_add_delivered = (\<lambda>n s. s\<lparr>ls_delivered_hostward := ls_delivered_hostward s + n\<rparr>),
      sm_add_unattached = (\<lambda>n s. s\<lparr>ls_discarded_hostward := ls_discarded_hostward s + n\<rparr>),
      sm_add_dropped_full = (\<lambda>n s. s\<lparr>ls_discarded_hostward := ls_discarded_hostward s + n\<rparr>)\<rparr>"

section \<open>What a sink makes of a chunk\<close>

abbreviation outcome :: "byte list \<Rightarrow> traffic \<Rightarrow> AttachedSink \<Rightarrow> SendOutcome" where
  "outcome chunk tr s \<equiv> fst (chunk_try_send chunk (tr_channels tr (sink_tx s)))"

lemma fan_out_one_eq:
  "fan_out_one chunk s (fo, tr) =
     (\<lparr>fo_live = (fo_live fo \<or> outcome chunk tr s \<noteq> SendClosed),
       fo_delivered = (if outcome chunk tr s = Sent then len64 chunk else fo_delivered fo),
       fo_dropped_full = fo_dropped_full fo + (if outcome chunk tr s = SendFull then len64 chunk else 0)\<rparr>,
      \<lparr>tr_channels = (tr_channels tr)(sink_tx s := snd (chunk_try_send chunk (tr_channels tr (sink_tx s)))),
       tr_counters = (if outcome chunk tr s = SendFull
         then (tr_counters tr)(sink_counters s := add_full (len64 chunk) (tr_counters tr (sink_counters s)))
         else tr_counters tr)\<rparr>)"
  by (auto simp: fan_out_one_def chunk_try_send_def split: prod.splits SendOutcome.splits)

lemma try_send_open:
  "fst (chunk_try_send chunk ch) = SendClosed \<longleftrightarrow> \<not> ch_open ch" "ch_open (snd (chunk_try_send chunk ch)) = ch_open ch"
  by (simp_all add: chunk_try_send_def)

text \<open>Sinks on different channels do not see each other.\<close>

definition all_at_once :: "byte list \<Rightarrow> AttachedSink list \<Rightarrow> traffic \<Rightarrow> traffic \<Rightarrow> bool" where
  "all_at_once chunk sinks tr tr' \<longleftrightarrow>
     (\<forall>s \<in> set sinks.
        tr_channels tr' (sink_tx s) = snd (chunk_try_send chunk (tr_channels tr (sink_tx s))) \<and>
        tr_counters tr' (sink_counters s) =
          (if outcome chunk tr s = SendFull then add_full (len64 chunk) (tr_counters tr (sink_counters s))
           else tr_counters tr (sink_counters s))) \<and>
     (\<forall>x. x \<notin> sink_tx ` set sinks \<longrightarrow> tr_channels tr' x = tr_channels tr x) \<and>
     (\<forall>x. x \<notin> sink_counters ` set sinks \<longrightarrow> tr_counters tr' x = tr_counters tr x)"

lemma fan_out_fold:
  assumes "distinct (map sink_tx sinks)" and "distinct (map sink_counters sinks)"
    and "fold (fan_out_one chunk) sinks (fo, tr) = (fo', tr')"
  shows "fo_live fo' \<longleftrightarrow> fo_live fo \<or> (\<exists>s \<in> set sinks. outcome chunk tr s \<noteq> SendClosed)"
    and "fo_delivered fo' = (if \<exists>s \<in> set sinks. outcome chunk tr s = Sent then len64 chunk else fo_delivered fo)"
    and "fo_dropped_full fo' =
      fo_dropped_full fo + (\<Sum>s \<leftarrow> sinks. if outcome chunk tr s = SendFull then len64 chunk else 0)"
    and "all_at_once chunk sinks tr tr'"
proof -
  have "(fo_live fo' \<longleftrightarrow> fo_live fo \<or> (\<exists>s \<in> set sinks. outcome chunk tr s \<noteq> SendClosed)) \<and>
    fo_delivered fo' = (if \<exists>s \<in> set sinks. outcome chunk tr s = Sent then len64 chunk else fo_delivered fo) \<and>
    fo_dropped_full fo' =
      fo_dropped_full fo + (\<Sum>s \<leftarrow> sinks. if outcome chunk tr s = SendFull then len64 chunk else 0) \<and>
    all_at_once chunk sinks tr tr'"
    using assms
  proof (induction sinks arbitrary: fo tr)
    case Nil
    then show ?case by (auto simp: all_at_once_def)
  next
    case (Cons s sinks)
    obtain fo1 tr1 where one: "fan_out_one chunk s (fo, tr) = (fo1, tr1)" by force
    then have rest: "fold (fan_out_one chunk) sinks (fo1, tr1) = (fo', tr')" using Cons.prems(3) by simp
    have ds: "distinct (map sink_tx sinks)" "distinct (map sink_counters sinks)" using Cons.prems by simp_all
    have fo1: "fo_live fo1 \<longleftrightarrow> fo_live fo \<or> outcome chunk tr s \<noteq> SendClosed"
      "fo_delivered fo1 = (if outcome chunk tr s = Sent then len64 chunk else fo_delivered fo)"
      "fo_dropped_full fo1 = fo_dropped_full fo + (if outcome chunk tr s = SendFull then len64 chunk else 0)"
      and ch: "tr_channels tr1 = (tr_channels tr)(sink_tx s := snd (chunk_try_send chunk (tr_channels tr (sink_tx s))))"
      and ct: "tr_counters tr1 = (if outcome chunk tr s = SendFull
        then (tr_counters tr)(sink_counters s := add_full (len64 chunk) (tr_counters tr (sink_counters s)))
        else tr_counters tr)"
      using one by (auto simp: fan_out_one_eq)
    have other: "sink_tx s' \<noteq> sink_tx s" "sink_counters s' \<noteq> sink_counters s" if "s' \<in> set sinks" for s'
      using that Cons.prems(1,2) by (auto simp: image_iff)
    have same: "tr_channels tr1 (sink_tx s') = tr_channels tr (sink_tx s')"
      "tr_counters tr1 (sink_counters s') = tr_counters tr (sink_counters s')" if "s' \<in> set sinks" for s'
      using other [OF that] by (simp_all add: ch ct)
    note IH = Cons.IH [OF ds rest]
    have sums: "(\<Sum>s' \<leftarrow> sinks. if outcome chunk tr1 s' = SendFull then len64 chunk else 0) =
      (\<Sum>s' \<leftarrow> sinks. if outcome chunk tr s' = SendFull then len64 chunk else 0)"
      using same by (intro arg_cong [of _ _ sum_list] map_cong) simp_all
    have "all_at_once chunk (s # sinks) tr tr'"
      using IH same Cons.prems(1,2) unfolding all_at_once_def by (auto simp: ch ct)
    moreover have "(\<exists>s' \<in> set sinks. outcome chunk tr1 s' = r) \<longleftrightarrow> (\<exists>s' \<in> set sinks. outcome chunk tr s' = r)"
      "(\<exists>s' \<in> set sinks. outcome chunk tr1 s' \<noteq> r) \<longleftrightarrow> (\<exists>s' \<in> set sinks. outcome chunk tr s' \<noteq> r)" for r
      using same by auto
    ultimately show ?case using IH by (simp add: sums fo1 algebra_simps)
  qed
  then show "fo_live fo' \<longleftrightarrow> fo_live fo \<or> (\<exists>s \<in> set sinks. outcome chunk tr s \<noteq> SendClosed)"
    "fo_delivered fo' = (if \<exists>s \<in> set sinks. outcome chunk tr s = Sent then len64 chunk else fo_delivered fo)"
    "fo_dropped_full fo' =
      fo_dropped_full fo + (\<Sum>s \<leftarrow> sinks. if outcome chunk tr s = SendFull then len64 chunk else 0)"
    "all_at_once chunk sinks tr tr'"
    by blast+
qed

text \<open>
  C37: hostward loss stays with the consumer that is slow. One broadcast gives every open channel with room the
  chunk, charges every open full one the chunk's bytes on its own counters, leaves the closed ones and everybody
  else's channels and counters alone; the chunk counts as delivered exactly when somebody took it, as dropped
  once per full channel, and as unattached exactly when no channel was open.
\<close>

theorem fan_out_exact:
  assumes "distinct (map sink_tx sinks)" and "distinct (map sink_counters sinks)"
    and "fan_out chunk sinks tr = (fo, tr', unattached)"
  shows "(\<forall>s \<in> set sinks.
      tr_channels tr' (sink_tx s) = snd (chunk_try_send chunk (tr_channels tr (sink_tx s))) \<and>
      tr_counters tr' (sink_counters s) =
        (if outcome chunk tr s = SendFull then add_full (len64 chunk) (tr_counters tr (sink_counters s))
         else tr_counters tr (sink_counters s))) \<and>
    (\<forall>x. x \<notin> sink_tx ` set sinks \<longrightarrow> tr_channels tr' x = tr_channels tr x) \<and>
    (\<forall>x. x \<notin> sink_counters ` set sinks \<longrightarrow> tr_counters tr' x = tr_counters tr x) \<and>
    fo_delivered fo = (if \<exists>s \<in> set sinks. outcome chunk tr s = Sent then len64 chunk else 0) \<and>
    fo_dropped_full fo = (\<Sum>s \<leftarrow> sinks. if outcome chunk tr s = SendFull then len64 chunk else 0) \<and>
    (fo_live fo \<longleftrightarrow> (\<exists>s \<in> set sinks. ch_open (tr_channels tr (sink_tx s)))) \<and>
    unattached = (if \<exists>s \<in> set sinks. ch_open (tr_channels tr (sink_tx s)) then 0 else len64 chunk)"
proof -
  obtain fo1 tr1 where f: "fold (fan_out_one chunk) sinks (\<lparr>fo_live = False, fo_delivered = 0, fo_dropped_full = 0\<rparr>, tr) = (fo1, tr1)"
    by force
  have eq: "fo1 = fo" "tr1 = tr'" "unattached = (if fo_live fo then 0 else len64 chunk)"
    using assms(3) f by (auto simp: fan_out_def)
  show ?thesis using fan_out_fold [OF assms(1,2) f] eq unfolding all_at_once_def by (simp add: try_send_open)
qed

definition two_sinks :: "AttachedSink list" where
  "two_sinks =
     [\<lparr>sink_target = EndpointAddr_node ''a'', sink_tx = 0, sink_counters = 10\<rparr>,
      \<lparr>sink_target = EndpointAddr_node ''b'', sink_tx = 1, sink_counters = 11\<rparr>]"

definition one_slow :: traffic where
  "one_slow =
     \<lparr>tr_channels = (\<lambda>h. \<lparr>ch_queue = [], ch_cap = (if h = 0 then 0 else 1), ch_open = True\<rparr>),
      tr_counters = (\<lambda>_. \<lparr>dropped_full = 0, discarded_absent = 0\<rparr>)\<rparr>"

theorem fan_out_exact_witness:
  "\<exists>fo tr. fan_out [1, 2, 3] two_sinks one_slow = (fo, tr, 0) \<and> fo_delivered fo = 3 \<and> fo_dropped_full fo = 3 \<and>
     dropped_full (tr_counters tr 10) = 3 \<and> dropped_full (tr_counters tr 11) = 0 \<and> ch_queue (tr_channels tr 1) = [[1, 2, 3]]"
proof -
  obtain fo tr u where f: "fan_out [1, 2, 3] two_sinks one_slow = (fo, tr, u)" by (metis prod_cases3)
  from fan_out_exact [OF _ _ f] show ?thesis
    using f by (auto simp: two_sinks_def one_slow_def chunk_try_send_def add_full_def len64_def)
qed

section \<open>What the statistics promise\<close>

locale channel_stat =
  fixes m :: "'s stat_methods" and delivered discarded :: "'s \<Rightarrow> u64" and active :: "'s \<Rightarrow> bool" and mirrors :: bool
  assumes set_active: "active (sm_set_active m s)" "delivered (sm_set_active m s) = delivered s"
      "discarded (sm_set_active m s) = discarded s"
    and add_delivered: "delivered (sm_add_delivered m n s) = delivered s + n"
      "discarded (sm_add_delivered m n s) = discarded s" "active (sm_add_delivered m n s) = active s"
    and add_unattached: "delivered (sm_add_unattached m n s) = delivered s"
      "discarded (sm_add_unattached m n s) = discarded s + n" "active (sm_add_unattached m n s) = active s"
    and add_dropped_full: "delivered (sm_add_dropped_full m n s) = delivered s"
      "discarded (sm_add_dropped_full m n s) = discarded s + (if mirrors then n else 0)"
      "active (sm_add_dropped_full m n s) = active s"

text \<open>The chunks a channel routes one after the other, each with the fan-out and the channels as they then are.\<close>

type_synonym routing = "byte list \<times> AttachedSink list option \<times> traffic"

definition route_stat :: "'s stat_methods \<Rightarrow> routing \<Rightarrow> 's \<Rightarrow> 's" where
  "route_stat m = (\<lambda>(chunk, sinks, tr) s. the (fst (snd (route_channel_data m chunk (None :: unit tap_feed option) sinks (Some s) tr))))"

definition charged_full :: "routing \<Rightarrow> u64" where
  "charged_full = (\<lambda>(chunk, sinks, tr).
     case sinks of None \<Rightarrow> 0 | Some sinks \<Rightarrow> fo_dropped_full (fst (fan_out chunk sinks tr)))"

definition routed_len :: "routing \<Rightarrow> u64" where
  "routed_len = (\<lambda>(chunk, _, _). len64 chunk)"

definition one_consumer :: "routing \<Rightarrow> bool" where
  "one_consumer = (\<lambda>(_, sinks, _). case sinks of None \<Rightarrow> True | Some sinks \<Rightarrow> length sinks \<le> 1)"

context channel_stat
begin

lemma route_one:
  "one_consumer r \<Longrightarrow>
     delivered (route_stat m r s) + discarded (route_stat m r s) + (if mirrors then 0 else charged_full r) =
     delivered s + discarded s + routed_len r"
proof -
  assume one: "one_consumer r"
  obtain chunk sinks tr where r: "r = (chunk, sinks, tr)" by (cases r)
  consider "sinks = None" | "sinks = Some []" | k where "sinks = Some [k]"
    using one by (auto simp: r one_consumer_def le_Suc_eq length_Suc_conv split: option.splits)
  then show ?thesis
  proof cases
    case 3
    then show ?thesis
      by (cases "outcome chunk tr k")
        (simp_all add: r route_stat_def route_channel_data_def charged_full_def routed_len_def fan_out_def fan_out_one_eq
          set_active add_delivered add_unattached add_dropped_full)
  qed (simp_all add: r route_stat_def route_channel_data_def charged_full_def routed_len_def fan_out_def
      set_active add_delivered add_unattached add_dropped_full)
qed

lemma route_all:
  "\<forall>r \<in> set rs. one_consumer r \<Longrightarrow>
     delivered (fold (route_stat m) rs s) + discarded (fold (route_stat m) rs s) +
       (if mirrors then 0 else sum_list (map charged_full rs)) =
     delivered s + discarded s + sum_list (map routed_len rs)"
proof (induction rs arbitrary: s)
  case (Cons r rs)
  then show ?case using route_one [of r s] by (auto simp: algebra_simps)
qed simp

lemma route_active_one: "active (route_stat m r s)"
  by (cases r)
    (auto simp: route_stat_def route_channel_data_def Let_def set_active add_delivered add_unattached add_dropped_full
      split: option.splits prod.splits)

lemma route_active: "rs \<noteq> [] \<Longrightarrow> active (fold (route_stat m) rs s)"
  by (cases rs rule: rev_cases) (simp_all add: route_active_one)

end

interpretation codec_channel: channel_stat codec_stat_methods cs_delivered_hostward cs_discarded_unattached cs_active False
  by unfold_locales (simp_all add: codec_stat_methods_def)

interpretation exec_channel: channel_stat exec_stat_methods es_delivered_hostward es_discarded_unattached es_active False
  by unfold_locales (simp_all add: exec_stat_methods_def)

interpretation leg_channel: channel_stat leg_stat_methods ls_delivered_hostward ls_discarded_hostward ls_active True
  by unfold_locales (simp_all add: leg_stat_methods_def)

text \<open>
  C38: no byte of a channel disappears between decoding and its consumer. While a channel has at most one consumer,
  whatever that consumer's buffer does and however often it comes and goes: the leg's two counters add up to the
  bytes routed, and the codecs' two counters together with what was charged to the consumer's own counters do; and
  the channel reads as active once anything was routed.
\<close>

theorem channel_bytes_accounted:
  assumes "\<forall>r \<in> set rs. one_consumer r"
  shows "ls_delivered_hostward (fold (route_stat leg_stat_methods) rs l) + ls_discarded_hostward (fold (route_stat leg_stat_methods) rs l) =
      ls_delivered_hostward l + ls_discarded_hostward l + sum_list (map routed_len rs) \<and>
    cs_delivered_hostward (fold (route_stat codec_stat_methods) rs c) + cs_discarded_unattached (fold (route_stat codec_stat_methods) rs c) +
      sum_list (map charged_full rs) = cs_delivered_hostward c + cs_discarded_unattached c + sum_list (map routed_len rs) \<and>
    es_delivered_hostward (fold (route_stat exec_stat_methods) rs e) + es_discarded_unattached (fold (route_stat exec_stat_methods) rs e) +
      sum_list (map charged_full rs) = es_delivered_hostward e + es_discarded_unattached e + sum_list (map routed_len rs) \<and>
    (rs \<noteq> [] \<longrightarrow> ls_active (fold (route_stat leg_stat_methods) rs l) \<and> cs_active (fold (route_stat codec_stat_methods) rs c) \<and>
      es_active (fold (route_stat exec_stat_methods) rs e))"
  using leg_channel.route_all [OF assms] codec_channel.route_all [OF assms] exec_channel.route_all [OF assms]
    leg_channel.route_active codec_channel.route_active exec_channel.route_active by simp

text \<open>One chunk is taken, one finds its consumer slow, one finds none.\<close>

definition three_routings :: "routing list" where
  "three_routings = [([1, 2], Some [two_sinks ! 1], one_slow), ([3], Some [two_sinks ! 0], one_slow), ([4, 5, 6], None, one_slow)]"

theorem channel_bytes_accounted_witness:
  "ls_delivered_hostward (fold (route_stat leg_stat_methods) three_routings \<lparr>ls_delivered_hostward = 0, ls_discarded_hostward = 0, ls_active = False\<rparr>) +
   ls_discarded_hostward (fold (route_stat leg_stat_methods) three_routings \<lparr>ls_delivered_hostward = 0, ls_discarded_hostward = 0, ls_active = False\<rparr>) = 6"
proof -
  have "\<forall>r \<in> set three_routings. one_consumer r" by (simp add: three_routings_def one_consumer_def)
  from channel_bytes_accounted [OF this] show ?thesis by (simp add: three_routings_def routed_len_def len64_def)
qed

end
