(* ===== verification/Inbox.thy ===== *)
theory Inbox
  imports Prelude
begin

text \<open>
  The targetward queue a node can still reach after handing it to its pump (\<open>daemon/src/runtime.rs\<close>,
  \<open>TargetwardInbox\<close> and \<open>TeardownLoss\<close>): the receive that remembers the chunk in the pump's hands, the
  purge in bounded rounds with a yield between them, and the drain at teardown. What a queued item costs
  (\<open>TeardownBytes\<close>) is an argument. The receiver is its queue, its depth and whether a sender is left; a task
  gives up the processor only where the code awaits, so everything between two awaits is one step.
\<close>

section \<open>One inbox\<close>

record 'a receiver =
  rx_queue :: "'a list"
  rx_cap :: nat
  rx_senders :: bool

record 'a TargetwardInbox =
  ti_slot :: "'a receiver option"
  ti_held :: u64

datatype 'a Poll = Pending | Ready "'a option"

definition inbox_new :: "'a receiver \<Rightarrow> 'a TargetwardInbox" where
  "inbox_new rx = \<lparr>ti_slot = Some rx, ti_held = 0\<rparr>"

definition settle_held :: "'a TargetwardInbox \<Rightarrow> 'a TargetwardInbox" where
  "settle_held ib = ib\<lparr>ti_held := 0\<rparr>"

definition inbox_poll_recv :: "('a \<Rightarrow> nat) \<Rightarrow> 'a TargetwardInbox \<Rightarrow> 'a Poll \<times> 'a TargetwardInbox" where
  "inbox_poll_recv cost ib =
     (case ti_slot ib of
        None \<Rightarrow> (Ready None, ib)
      | Some rx \<Rightarrow>
          (case rx_queue rx of
             item # rest \<Rightarrow>
               (Ready (Some item), ib\<lparr>ti_slot := Some (rx\<lparr>rx_queue := rest\<rparr>), ti_held := word_of_nat (cost item)\<rparr>)
           | [] \<Rightarrow> (if rx_senders rx then Pending else Ready None, ib)))"

text \<open>\<open>queued_bytes\<close> is the loop of \<open>try_recv\<close> to exhaustion that adds up what it takes.\<close>

fun queued_bytes :: "('a \<Rightarrow> nat) \<Rightarrow> 'a list \<Rightarrow> u64" where
  "queued_bytes cost [] = 0"
| "queued_bytes cost (item # rest) = word_of_nat (cost item) + queued_bytes cost rest"

definition purge_round :: "('a \<Rightarrow> nat) \<Rightarrow> 'a TargetwardInbox \<Rightarrow> u64 \<times> bool \<times> 'a TargetwardInbox" where
  "purge_round cost ib =
     (case ti_slot ib of
        None \<Rightarrow> (0, False, ib)
      | Some rx \<Rightarrow>
          (queued_bytes cost (rx_queue rx), rx_queue rx \<noteq> [], ib\<lparr>ti_slot := Some (rx\<lparr>rx_queue := []\<rparr>)\<rparr>))"

definition drain_and_count :: "('a \<Rightarrow> nat) \<Rightarrow> 'a TargetwardInbox \<Rightarrow> u64 \<times> 'a TargetwardInbox" where
  "drain_and_count cost ib =
     (let queued = (case ti_slot ib of None \<Rightarrow> 0 | Some rx \<Rightarrow> queued_bytes cost (rx_queue rx))
      in (queued + ti_held ib, ib\<lparr>ti_slot := None, ti_held := 0\<rparr>))"

definition PURGE_ROUNDS :: nat where
  "PURGE_ROUNDS = 3"

section \<open>Every queue of a node\<close>

record 'a TeardownLoss =
  tl_inboxes :: "'a TargetwardInbox list"
  tl_bytes :: u64

definition teardown_default :: "'a TeardownLoss" where
  "teardown_default = \<lparr>tl_inboxes = [], tl_bytes = 0\<rparr>"

text \<open>\<open>watch\<close> returns the shared inbox, here its index.\<close>

definition watch :: "'a receiver \<Rightarrow> 'a TeardownLoss \<Rightarrow> nat \<times> 'a TeardownLoss" where
  "watch rx td = (length (tl_inboxes td), td\<lparr>tl_inboxes := tl_inboxes td @ [inbox_new rx]\<rparr>)"

definition teardown_drain :: "('a \<Rightarrow> nat) \<Rightarrow> 'a TeardownLoss \<Rightarrow> 'a TeardownLoss" where
  "teardown_drain cost td =
     (let drained = map (drain_and_count cost) (tl_inboxes td); lost = sum_list (map fst drained)
      in td\<lparr>tl_inboxes := map snd drained,
            tl_bytes := (if lost > 0 then saturating_add (tl_bytes td) lost else tl_bytes td)\<rparr>)"

section \<open>Runs\<close>

text \<open>
  A node with its queues, as the tasks and the control plane act on it. A purge is in progress on the inboxes
  \<open>nq_purges\<close> lists, with the rounds it has left; each entry of \<open>nq_purged\<close> is what a round charged. The last
  two components are not in the code: the bytes senders got into the queues, and the bytes of the chunks a pump
  had settled the fate of.
\<close>

record 'a node_queues =
  nq_loss :: "'a TeardownLoss"
  nq_purges :: "nat \<Rightarrow> nat"
  nq_purged :: u64
  nq_stopped :: bool
  nq_accepted :: nat
  nq_settled :: u64

definition at_inbox :: "nat \<Rightarrow> ('a TargetwardInbox \<Rightarrow> 'a TargetwardInbox) \<Rightarrow> 'a TeardownLoss \<Rightarrow> 'a TeardownLoss" where
  "at_inbox i f td = td\<lparr>tl_inboxes := (tl_inboxes td)[i := f (tl_inboxes td ! i)]\<rparr>"

definition push_item :: "'a \<Rightarrow> 'a TargetwardInbox \<Rightarrow> 'a TargetwardInbox" where
  "push_item x ib = ib\<lparr>ti_slot := map_option (\<lambda>rx. rx\<lparr>rx_queue := rx_queue rx @ [x]\<rparr>) (ti_slot ib)\<rparr>"

text \<open>
  A sender lands a chunk while there is room; a pump settles what it holds, and takes the next chunk; a purge
  begins, does a round (and is over when the round found nothing or was the last), or ends; the last sender of a
  queue goes; and the node is stopped, which drains and then aborts every task. Nothing but a second stop happens
  to a stopped node: its receivers are gone, so a sender is refused.
\<close>

inductive queue_step :: "('a \<Rightarrow> nat) \<Rightarrow> 'a node_queues \<Rightarrow> 'a node_queues \<Rightarrow> bool" for cost :: "'a \<Rightarrow> nat" where
  lands: "i < length (tl_inboxes (nq_loss n)) \<Longrightarrow> ti_slot (tl_inboxes (nq_loss n) ! i) = Some rx \<Longrightarrow>
    rx_senders rx \<Longrightarrow> length (rx_queue rx) < rx_cap rx \<Longrightarrow>
    queue_step cost n (n\<lparr>nq_loss := at_inbox i (push_item x) (nq_loss n), nq_accepted := nq_accepted n + cost x\<rparr>)"
| settles: "i < length (tl_inboxes (nq_loss n)) \<Longrightarrow> \<not> nq_stopped n \<Longrightarrow>
    queue_step cost n (n\<lparr>nq_loss := at_inbox i settle_held (nq_loss n),
      nq_settled := nq_settled n + ti_held (tl_inboxes (nq_loss n) ! i)\<rparr>)"
| takes: "i < length (tl_inboxes (nq_loss n)) \<Longrightarrow> \<not> nq_stopped n \<Longrightarrow> ti_held (tl_inboxes (nq_loss n) ! i) = 0 \<Longrightarrow>
    queue_step cost n (n\<lparr>nq_loss := at_inbox i (\<lambda>ib. snd (inbox_poll_recv cost ib)) (nq_loss n)\<rparr>)"
| purge_begins: "i < length (tl_inboxes (nq_loss n)) \<Longrightarrow> \<not> nq_stopped n \<Longrightarrow> nq_purges n i = 0 \<Longrightarrow>
    queue_step cost n (n\<lparr>nq_purges := (nq_purges n)(i := PURGE_ROUNDS)\<rparr>)"
| purges: "i < length (tl_inboxes (nq_loss n)) \<Longrightarrow> \<not> nq_stopped n \<Longrightarrow> nq_purges n i = Suc k \<Longrightarrow>
    purge_round cost (tl_inboxes (nq_loss n) ! i) = (bytes, drained_any, ib) \<Longrightarrow>
    queue_step cost n (n\<lparr>nq_loss := at_inbox i (\<lambda>_. ib) (nq_loss n),
      nq_purged := (if bytes > 0 then nq_purged n + bytes else nq_purged n),
      nq_purges := (nq_purges n)(i := if drained_any then k else 0)\<rparr>)"
| hangs_up: "i < length (tl_inboxes (nq_loss n)) \<Longrightarrow> ti_slot (tl_inboxes (nq_loss n) ! i) = Some rx \<Longrightarrow>
    queue_step cost n (n\<lparr>nq_loss := at_inbox i (\<lambda>ib. ib\<lparr>ti_slot := Some (rx\<lparr>rx_senders := False\<rparr>)\<rparr>) (nq_loss n)\<rparr>)"
| stops: "queue_step cost n (n\<lparr>nq_loss := teardown_drain cost (nq_loss n), nq_stopped := True, nq_purges := (\<lambda>_. 0)\<rparr>)"

definition queues_start :: "'a receiver list \<Rightarrow> 'a node_queues" where
  "queues_start rxs =
     \<lparr>nq_loss = fold (\<lambda>rx td. snd (watch rx td)) rxs teardown_default, nq_purges = (\<lambda>_. 0), nq_purged = 0,
      nq_stopped = False, nq_accepted = 0, nq_settled = 0\<rparr>"

inductive queue_run :: "('a \<Rightarrow> nat) \<Rightarrow> 'a receiver list \<Rightarrow> 'a node_queues \<Rightarrow> bool"
  for cost :: "'a \<Rightarrow> nat" and rxs :: "'a receiver list" where
  fresh_queues: "(\<forall>rx \<in> set rxs. rx_queue rx = []) \<Longrightarrow> queue_run cost rxs (queues_start rxs)"
| queues_go: "queue_run cost rxs n \<Longrightarrow> queue_step cost n n' \<Longrightarrow> queue_run cost rxs n'"

section \<open>The ledger\<close>

text \<open>Bytes still in a queue or in a pump's hands.\<close>

definition inbox_bytes :: "('a \<Rightarrow> nat) \<Rightarrow> 'a TargetwardInbox \<Rightarrow> nat" where
  "inbox_bytes cost ib = (case ti_slot ib of None \<Rightarrow> 0 | Some rx \<Rightarrow> sum_list (map cost (rx_queue rx))) + unat (ti_held ib)"

definition open_bytes :: "('a \<Rightarrow> nat) \<Rightarrow> 'a node_queues \<Rightarrow> nat" where
  "open_bytes cost n = sum_list (map (inbox_bytes cost) (tl_inboxes (nq_loss n)))"

definition ledger :: "('a \<Rightarrow> nat) \<Rightarrow> 'a node_queues \<Rightarrow> nat" where
  "ledger cost n = unat (nq_settled n) + unat (nq_purged n) + unat (tl_bytes (nq_loss n)) + open_bytes cost n"

lemma u64_of_nat: "n < 2 ^ 64 \<Longrightarrow> unat (word_of_nat n :: u64) = n"
  by (simp add: unat_of_nat)

lemma u64_add: "unat a + unat b < 2 ^ 64 \<Longrightarrow> unat (a + b :: u64) = unat a + unat b"
  by (simp add: unat_word_ariths)

lemma queued_bytes_exact: "sum_list (map cost q) < 2 ^ 64 \<Longrightarrow> unat (queued_bytes cost q) = sum_list (map cost q)"
  by (induction q) (simp_all add: u64_add u64_of_nat)

lemma drain_exact:
  "inbox_bytes cost ib < 2 ^ 64 \<Longrightarrow> unat (fst (drain_and_count cost ib)) = inbox_bytes cost ib"
  "inbox_bytes cost (snd (drain_and_count cost ib)) = 0"
  by (auto simp: drain_and_count_def inbox_bytes_def Let_def u64_add queued_bytes_exact split: option.splits)

lemma drains_exact:
  "sum_list (map (inbox_bytes cost) ibs) < 2 ^ 64 \<Longrightarrow>
     unat (sum_list (map (fst \<circ> drain_and_count cost) ibs)) = sum_list (map (inbox_bytes cost) ibs)"
  by (induction ibs) (simp_all add: u64_add drain_exact)

lemma drained_bytes: "sum_list (map (inbox_bytes cost \<circ> (snd \<circ> drain_and_count cost)) ibs) = 0"
  by (induction ibs) (simp_all add: drain_exact)

lemma ledger_drain:
  assumes "ledger cost n < 2 ^ 64"
  shows "ledger cost (n\<lparr>nq_loss := teardown_drain cost (nq_loss n), nq_stopped := b, nq_purges := p\<rparr>) = ledger cost n"
proof -
  let ?ibs = "tl_inboxes (nq_loss n)" and ?lost = "sum_list (map (fst \<circ> drain_and_count cost) (tl_inboxes (nq_loss n)))"
  have lost: "unat ?lost = open_bytes cost n"
    using assms drains_exact [of cost ?ibs] by (simp add: ledger_def open_bytes_def)
  have "unat (tl_bytes (teardown_drain cost (nq_loss n))) = unat (tl_bytes (nq_loss n)) + open_bytes cost n"
  proof (cases "?lost > 0")
    case True
    then show ?thesis using lost assms by (simp add: teardown_drain_def Let_def comp_def unat_saturating_add ledger_def)
  next
    case False
    then have "?lost = 0" by (simp add: word_gt_0)
    then show ?thesis using lost by (simp add: teardown_drain_def Let_def comp_def)
  qed
  moreover have "open_bytes cost (n\<lparr>nq_loss := teardown_drain cost (nq_loss n), nq_stopped := b, nq_purges := p\<rparr>) = 0"
    using drained_bytes [of cost ?ibs] by (simp add: open_bytes_def teardown_drain_def Let_def comp_def)
  ultimately show ?thesis by (simp add: ledger_def)
qed

text \<open>One inbox changes; what the change adds to its bytes is what it adds to the node's.\<close>

lemma sum_list_update_nat:
  "i < length xs \<Longrightarrow> sum_list (map f (xs[i := y])) + f (xs ! i) = sum_list (map f xs) + (f y :: nat)"
  by (induction xs arbitrary: i) (auto split: nat.splits)

lemma open_bytes_at:
  assumes "i < length (tl_inboxes (nq_loss n))" and "nq_loss n' = at_inbox i f (nq_loss n)"
  shows "open_bytes cost n' + inbox_bytes cost (tl_inboxes (nq_loss n) ! i) =
    open_bytes cost n + inbox_bytes cost (f (tl_inboxes (nq_loss n) ! i))"
  using sum_list_update_nat [OF assms(1), of "inbox_bytes cost" "f (tl_inboxes (nq_loss n) ! i)"] assms(2)
  by (simp add: open_bytes_def at_inbox_def)

lemma inbox_le_open: "i < length (tl_inboxes (nq_loss n)) \<Longrightarrow> inbox_bytes cost (tl_inboxes (nq_loss n) ! i) \<le> open_bytes cost n"
  by (simp add: open_bytes_def member_le_sum_list)

lemma poll_bytes:
  assumes "ti_held ib = 0" and "inbox_bytes cost ib < 2 ^ 64"
  shows "inbox_bytes cost (snd (inbox_poll_recv cost ib)) = inbox_bytes cost ib"
  using assms by (auto simp: inbox_poll_recv_def inbox_bytes_def u64_of_nat split: option.splits list.splits)

lemma purge_bytes:
  assumes "purge_round cost ib = (bytes, drained_any, ib')" and "inbox_bytes cost ib < 2 ^ 64"
  shows "unat bytes + inbox_bytes cost ib' = inbox_bytes cost ib"
  using assms by (auto simp: purge_round_def inbox_bytes_def queued_bytes_exact split: option.splits)

lemma ledger_step:
  assumes "queue_step cost n n'" and "ledger cost n = nq_accepted n" and "nq_accepted n' < 2 ^ 64"
  shows "ledger cost n' = nq_accepted n'"
  using assms
proof (cases rule: queue_step.cases)
  case (lands i rx x)
  have "tl_bytes (nq_loss n') = tl_bytes (nq_loss n)" by (simp add: lands(1) at_inbox_def)
  moreover have "inbox_bytes cost (push_item x (tl_inboxes (nq_loss n) ! i)) =
      inbox_bytes cost (tl_inboxes (nq_loss n) ! i) + cost x"
    by (simp add: lands(3) push_item_def inbox_bytes_def)
  ultimately show ?thesis
    using open_bytes_at [OF lands(2), of n' "push_item x" cost] assms(2) by (simp add: lands(1) ledger_def)
next
  case (settles i)
  let ?ib = "tl_inboxes (nq_loss n) ! i"
  have le: "inbox_bytes cost ?ib \<le> open_bytes cost n" by (rule inbox_le_open [OF settles(2)])
  have acc: "nq_accepted n' = nq_accepted n" by (simp add: settles(1))
  have "unat (ti_held ?ib) \<le> inbox_bytes cost ?ib" by (simp add: inbox_bytes_def)
  then have "unat (nq_settled n') = unat (nq_settled n) + unat (ti_held ?ib)"
    using le assms(2,3) unfolding acc by (subst settles(1)) (simp add: ledger_def u64_add)
  moreover have "inbox_bytes cost (settle_held ?ib) + unat (ti_held ?ib) = inbox_bytes cost ?ib"
    by (simp add: inbox_bytes_def settle_held_def)
  ultimately show ?thesis
    using open_bytes_at [OF settles(2), of n' settle_held cost] assms(2)
    by (simp add: settles(1) ledger_def at_inbox_def)
next
  case (takes i)
  have "inbox_bytes cost (tl_inboxes (nq_loss n) ! i) < 2 ^ 64"
    using inbox_le_open [OF takes(2), of cost] assms(2,3) by (simp add: takes(1) ledger_def)
  then show ?thesis
    using open_bytes_at [OF takes(2), of n' "\<lambda>ib. snd (inbox_poll_recv cost ib)" cost] assms(2)
      poll_bytes [OF takes(4), of cost] by (simp add: takes(1) ledger_def at_inbox_def)
next
  case (purges i k bytes drained_any ib)
  have acc: "nq_accepted n' = nq_accepted n" by (simp add: purges(1))
  have small: "inbox_bytes cost (tl_inboxes (nq_loss n) ! i) < 2 ^ 64"
    using inbox_le_open [OF purges(2), of cost] assms(2,3) by (simp add: acc ledger_def)
  note exact = purge_bytes [OF purges(5) small]
  have "unat (nq_purged n') = unat (nq_purged n) + unat bytes"
    using exact inbox_le_open [OF purges(2), of cost] assms(2,3) unfolding acc
    by (auto simp: purges(1) ledger_def u64_add word_gt_0)
  then show ?thesis
    using open_bytes_at [OF purges(2), of n' "\<lambda>_. ib" cost] assms(2) exact
    by (simp add: purges(1) ledger_def at_inbox_def)
next
  case (hangs_up i rx)
  then show ?thesis
    using open_bytes_at [OF hangs_up(2), of n' "\<lambda>ib. ib\<lparr>ti_slot := Some (rx\<lparr>rx_senders := False\<rparr>)\<rparr>" cost] assms(2)
    by (simp add: ledger_def at_inbox_def inbox_bytes_def)
next
  case stops
  then show ?thesis using ledger_drain [of cost n] assms(2,3) by simp
qed (simp add: ledger_def open_bytes_def)

lemma accepted_grows: "queue_step cost n n' \<Longrightarrow> nq_accepted n \<le> nq_accepted n'"
  by (induction rule: queue_step.induct) simp_all

lemma ledger_start: "\<forall>rx \<in> set rxs. rx_queue rx = [] \<Longrightarrow> ledger cost (queues_start rxs) = 0"
proof -
  have inboxes: "tl_inboxes (fold (\<lambda>rx td. snd (watch rx td)) rxs td) = tl_inboxes td @ map inbox_new rxs"
    "tl_bytes (fold (\<lambda>rx td. snd (watch rx td)) rxs td) = tl_bytes td" for td :: "'a TeardownLoss"
    by (induction rxs arbitrary: td) (simp_all add: watch_def)
  assume "\<forall>rx \<in> set rxs. rx_queue rx = []"
  then have "sum_list (map (inbox_bytes cost \<circ> inbox_new) rxs) = 0"
    by (induction rxs) (simp_all add: inbox_bytes_def inbox_new_def)
  then show ?thesis by (simp add: ledger_def queues_start_def open_bytes_def inboxes teardown_default_def)
qed

lemma ledger_run: "queue_run cost rxs n \<Longrightarrow> nq_accepted n < 2 ^ 64 \<Longrightarrow> ledger cost n = nq_accepted n"
proof (induction rule: queue_run.induct)
  case fresh_queues
  then show ?case by (simp add: ledger_start) (simp add: queues_start_def)
next
  case (queues_go n n')
  then show ?case using accepted_grows [OF queues_go.hyps(2)] ledger_step [OF queues_go.hyps(2)] by simp
qed

section \<open>A stopped node\<close>

lemma stopped_empty: "queue_run cost rxs n \<Longrightarrow> nq_stopped n \<Longrightarrow> \<forall>ib \<in> set (tl_inboxes (nq_loss n)). ti_slot ib = None \<and> ti_held ib = 0"
proof (induction rule: queue_run.induct)
  case fresh_queues
  then show ?case by (simp add: queues_start_def)
next
  case (queues_go n n')
  from queues_go.hyps(2) show ?case using queues_go.IH queues_go.prems
  proof (cases rule: queue_step.cases)
    case (lands i rx x)
    then show ?thesis using queues_go.IH queues_go.prems by (auto simp: all_set_conv_all_nth)
  next
    case (hangs_up i rx)
    then show ?thesis using queues_go.IH queues_go.prems by (auto simp: all_set_conv_all_nth)
  next
    case stops
    then show ?thesis by (auto simp: teardown_drain_def Let_def drain_and_count_def)
  qed auto
qed

lemma closed_inbox: "ti_slot ib = None \<Longrightarrow> ti_held ib = 0 \<Longrightarrow> ib\<lparr>ti_slot := None, ti_held := 0\<rparr> = ib"
  by (cases ib) simp

lemma closed_drain: "ti_slot ib = None \<Longrightarrow> ti_held ib = 0 \<Longrightarrow> drain_and_count cost ib = (0, ib)"
  by (simp add: drain_and_count_def closed_inbox)

lemma drain_again:
  assumes "\<forall>ib \<in> set (tl_inboxes td). ti_slot ib = None \<and> ti_held ib = 0"
  shows "teardown_drain cost td = td"
proof -
  have drained: "map (drain_and_count cost) (tl_inboxes td) = map (Pair 0) (tl_inboxes td)"
    using assms closed_drain by (intro map_cong) blast+
  have "sum_list (map (\<lambda>_. 0 :: u64) ibs) = 0" for ibs :: "'a TargetwardInbox list"
    by (induction ibs) simp_all
  then show ?thesis unfolding teardown_drain_def Let_def drained by (simp add: comp_def)
qed

text \<open>
  C7: every targetward byte a node has accepted is on exactly one account, whatever the interleaving of senders,
  pumps, purges and the stop, and wherever between two rounds a purge is cut off: settled by a pump, purged, lost
  at teardown, still queued, or in a pump's hands. Once the node is stopped the last two are zero, and the second
  stop of the removal path changes nothing.
\<close>

theorem targetward_bytes_accounted:
  assumes "queue_run cost rxs n" and "nq_accepted n < 2 ^ 64"
  shows "nq_accepted n = unat (nq_settled n) + unat (nq_purged n) + unat (tl_bytes (nq_loss n)) + open_bytes cost n \<and>
    (nq_stopped n \<longrightarrow> open_bytes cost n = 0 \<and> teardown_drain cost (nq_loss n) = nq_loss n)"
proof -
  have "open_bytes cost n = 0" if "nq_stopped n"
    using stopped_empty [OF assms(1) that] by (simp add: open_bytes_def inbox_bytes_def)
  then show ?thesis using ledger_run [OF assms] drain_again stopped_empty [OF assms(1)] by (auto simp: ledger_def)
qed

text \<open>Two chunks are accepted, the pump takes one, a purge takes the other, a third is queued when the node is stopped.\<close>

definition one_queue :: "nat receiver" where
  "one_queue = \<lparr>rx_queue = [], rx_cap = 2, rx_senders = True\<rparr>"

theorem targetward_bytes_accounted_witness:
  "\<exists>n. queue_run id [one_queue] n \<and> nq_accepted n = 12 \<and> nq_settled n = 0 \<and> nq_purged n = 4 \<and>
     tl_bytes (nq_loss n) = 8 \<and> open_bytes id n = 0"
proof -
  let ?s = "queues_start [one_queue]"
  note f = at_inbox_def push_item_def inbox_poll_recv_def purge_round_def queues_start_def watch_def inbox_new_def
    teardown_default_def one_queue_def PURGE_ROUNDS_def teardown_drain_def drain_and_count_def Let_def
  have 0: "queue_run id [one_queue] ?s" by (rule fresh_queues) (simp add: one_queue_def)
  define n1 where "n1 = ?s\<lparr>nq_loss := at_inbox 0 (push_item 3) (nq_loss ?s), nq_accepted := nq_accepted ?s + id 3\<rparr>"
  have 1: "queue_run id [one_queue] n1" unfolding n1_def by (rule queues_go [OF 0], rule lands) ((simp add: f)+)
  define n2 where "n2 = n1\<lparr>nq_loss := at_inbox 0 (\<lambda>ib. snd (inbox_poll_recv id ib)) (nq_loss n1)\<rparr>"
  have 2: "queue_run id [one_queue] n2" unfolding n2_def by (rule queues_go [OF 1], rule takes) (simp_all add: f n1_def)
  define n3 where "n3 = n2\<lparr>nq_loss := at_inbox 0 (push_item 4) (nq_loss n2), nq_accepted := nq_accepted n2 + id 4\<rparr>"
  have 3: "queue_run id [one_queue] n3"
    unfolding n3_def by (rule queues_go [OF 2], rule lands) ((simp add: f n1_def n2_def)+)
  define n4 where "n4 = n3\<lparr>nq_purges := (nq_purges n3)(0 := PURGE_ROUNDS)\<rparr>"
  have 4: "queue_run id [one_queue] n4"
    unfolding n4_def by (rule queues_go [OF 3], rule purge_begins) (simp_all add: f n1_def n2_def n3_def)
  define ib where "ib = snd (snd (purge_round id (tl_inboxes (nq_loss n4) ! 0)))"
  have round: "purge_round id (tl_inboxes (nq_loss n4) ! 0) = (4, True, ib)"
    by (simp add: ib_def f n1_def n2_def n3_def n4_def)
  define n5 where "n5 = n4\<lparr>nq_loss := at_inbox 0 (\<lambda>_. ib) (nq_loss n4),
    nq_purged := (if (4 :: u64) > 0 then nq_purged n4 + 4 else nq_purged n4),
    nq_purges := (nq_purges n4)(0 := if True then 2 else 0)\<rparr>"
  have 5: "queue_run id [one_queue] n5" unfolding n5_def
    by (rule queues_go [OF 4], rule purges [where k = 2, OF _ _ _ round]) (simp_all add: f n1_def n2_def n3_def n4_def)
  define n6 where "n6 = n5\<lparr>nq_loss := at_inbox 0 (push_item 5) (nq_loss n5), nq_accepted := nq_accepted n5 + id 5\<rparr>"
  have 6: "queue_run id [one_queue] n6"
    unfolding n6_def by (rule queues_go [OF 5], rule lands) ((simp add: f n1_def n2_def n3_def n4_def n5_def ib_def)+)
  define n7 where "n7 = n6\<lparr>nq_loss := teardown_drain id (nq_loss n6), nq_stopped := True, nq_purges := (\<lambda>_. 0)\<rparr>"
  have 7: "queue_run id [one_queue] n7" unfolding n7_def by (rule queues_go [OF 6], rule stops)
  have "nq_accepted n7 = 12" "nq_settled n7 = 0" "nq_purged n7 = 4" "tl_bytes (nq_loss n7) = 8" "nq_stopped n7"
    by (simp_all add: f saturating_add_def n1_def n2_def n3_def n4_def n5_def n6_def n7_def ib_def)
  then show ?thesis using 7 targetward_bytes_accounted [OF 7] by auto
qed

section \<open>How far a purge reaches\<close>

text \<open>
  \<open>purge_to_quiescence\<close> among other tasks, run to its end. Which senders run during one of its yields is up to the
  scheduler: \<open>landings k\<close> is whatever lands in the queue during the \<open>k\<close>-th. Nothing is received meanwhile, for
  it is the queue's own pump that purges; a stop that cuts the purge off is a step of \<open>queue_step\<close> above.
\<close>

fun purge_loop :: "('a \<Rightarrow> nat) \<Rightarrow> nat \<Rightarrow> (nat \<Rightarrow> 'a list) \<Rightarrow> 'a TargetwardInbox \<Rightarrow> u64 \<Rightarrow> 'a TargetwardInbox \<times> u64" where
  "purge_loop cost 0 landings ib charged = (ib, charged)"
| "purge_loop cost (Suc rounds) landings ib charged =
     (let (bytes, drained_any, ib) = purge_round cost ib;
          charged = (if bytes > 0 then charged + bytes else charged)
      in if \<not> drained_any then (ib, charged)
         else purge_loop cost rounds (\<lambda>k. landings (Suc k)) (fold push_item (landings 0) ib) charged)"

definition purge_to_quiescence :: "('a \<Rightarrow> nat) \<Rightarrow> (nat \<Rightarrow> 'a list) \<Rightarrow> 'a TargetwardInbox \<Rightarrow> u64 \<Rightarrow> 'a TargetwardInbox \<times> u64" where
  "purge_to_quiescence cost = purge_loop cost PURGE_ROUNDS"

lemma queued_bytes_append: "queued_bytes cost (p @ q) = queued_bytes cost p + queued_bytes cost q"
  by (induction p) simp_all

lemma pushes_slot: "ti_slot (fold push_item xs ib) = map_option (\<lambda>rx. rx\<lparr>rx_queue := rx_queue rx @ xs\<rparr>) (ti_slot ib)"
  by (induction xs arbitrary: ib) (auto simp: push_item_def option.map_comp comp_def option.map_ident)

text \<open>What the rounds find in the queue: first what was there, then what each yield let in; a round that finds nothing is the last.\<close>

definition drained :: "nat \<Rightarrow> 'a list \<Rightarrow> (nat \<Rightarrow> 'a list) \<Rightarrow> 'a list list" where
  "drained rounds q landings = takeWhile (\<lambda>batch. batch \<noteq> []) (map (case_nat q landings) [0..<rounds])"

lemma drained_simps:
  "drained 0 q landings = []"
  "drained (Suc r) q landings = (if q = [] then [] else q # drained r (landings 0) (\<lambda>k. landings (Suc k)))"
proof -
  have "map (case_nat q landings) [0..<Suc r] = q # map landings [0..<r]"
    by (simp add: upt_conv_Cons map_Suc_upt [symmetric] del: upt_Suc)
  moreover have "case_nat (landings 0) (\<lambda>k. landings (Suc k)) = landings" by (simp add: fun_eq_iff split: nat.split)
  ultimately show "drained (Suc r) q landings = (if q = [] then [] else q # drained r (landings 0) (\<lambda>k. landings (Suc k)))"
    by (simp add: drained_def del: upt_Suc)
qed (simp add: drained_def)

definition remains :: "nat \<Rightarrow> 'a list \<Rightarrow> (nat \<Rightarrow> 'a list) \<Rightarrow> 'a list" where
  "remains rounds q landings = (if length (drained rounds q landings) = rounds then case_nat q landings rounds else [])"

lemma remains_simps:
  "remains 0 q landings = q"
  "remains (Suc r) q landings = (if q = [] then [] else remains r (landings 0) (\<lambda>k. landings (Suc k)))"
  by (simp_all add: remains_def drained_simps split: nat.split)

lemma purge_loop_exact:
  assumes "ti_slot ib = Some rx" and "purge_loop cost rounds landings ib charged = (ib', charged')"
  shows "charged' = charged + queued_bytes cost (concat (drained rounds (rx_queue rx) landings)) \<and>
    (\<exists>rx'. ti_slot ib' = Some rx' \<and> rx_queue rx' = remains rounds (rx_queue rx) landings)"
  using assms
proof (induction rounds arbitrary: landings ib rx charged)
  case (Suc r)
  let ?ib = "ib\<lparr>ti_slot := Some (rx\<lparr>rx_queue := []\<rparr>)\<rparr>" and ?next = "\<lambda>k. landings (Suc k)"
  have charge: "(if n > 0 then charged + n else charged) = charged + n" for n :: u64 by (simp add: word_gt_0)
  show ?case
  proof (cases "rx_queue rx = []")
    case True
    then show ?thesis using Suc.prems by (auto simp: purge_round_def drained_simps remains_simps charge)
  next
    case False
    let ?mid = "fold push_item (landings 0) ?ib" and ?rx = "rx\<lparr>rx_queue := landings 0\<rparr>"
    have "ti_slot ?mid = Some ?rx" by (simp add: pushes_slot)
    moreover have "purge_loop cost r ?next ?mid (charged + queued_bytes cost (rx_queue rx)) = (ib', charged')"
      using Suc.prems False by (simp add: purge_round_def charge)
    ultimately have "charged' = charged + queued_bytes cost (rx_queue rx) + queued_bytes cost (concat (drained r (landings 0) ?next)) \<and>
      (\<exists>rx'. ti_slot ib' = Some rx' \<and> rx_queue rx' = remains r (landings 0) ?next)"
      using Suc.IH [of ?mid ?rx ?next] by simp
    then show ?thesis using False by (simp add: drained_simps remains_simps queued_bytes_append add.assoc)
  qed
qed (simp add: drained_simps remains_simps)

text \<open>
  C39: what a purge takes, exactly. Whatever chunks land while it yields, a purge discards and charges, byte for
  byte, what was queued when it began and what it finds in its later rounds, up to \<open>PURGE_ROUNDS\<close> drains in all and
  none after the first that finds nothing; what it leaves in the queue is what landed after its last drain, and
  nothing when it ended on an empty queue.
\<close>

theorem purge_takes_what_landed:
  assumes "ti_slot ib = Some rx" and "purge_to_quiescence cost landings ib charged = (ib', charged')"
  shows "charged' = charged + queued_bytes cost (concat (drained 3 (rx_queue rx) landings)) \<and>
    (\<exists>rx'. ti_slot ib' = Some rx' \<and>
       rx_queue rx' = (if length (drained 3 (rx_queue rx) landings) = 3 then landings 2 else []))"
proof -
  have "case_nat (rx_queue rx) landings 3 = landings 2" by (simp add: numeral_3_eq_3 numeral_2_eq_2)
  then show ?thesis
    using purge_loop_exact [OF assms(1), of cost 3 landings charged ib' charged'] assms(2)
    unfolding purge_to_quiescence_def PURGE_ROUNDS_def remains_def by metis
qed

definition three_landings :: "nat \<Rightarrow> nat list" where
  "three_landings k = [[3, 4], [5], [6, 7]] ! k"

theorem purge_takes_what_landed_witness:
  "\<exists>ib' charged' rx'.
     purge_to_quiescence id three_landings (inbox_new \<lparr>rx_queue = [1, 2], rx_cap = 2, rx_senders = True\<rparr>) 0 = (ib', charged') \<and>
     ti_slot ib' = Some rx' \<and> rx_queue rx' = [6, 7] \<and> charged' = 15"
proof -
  let ?rx = "\<lparr>rx_queue = [1, 2], rx_cap = 2, rx_senders = True\<rparr> :: nat receiver"
  obtain ib' charged' where p: "purge_to_quiescence id three_landings (inbox_new ?rx) 0 = (ib', charged')"
    by (metis surj_pair)
  have slot: "ti_slot (inbox_new ?rx) = Some ?rx" by (simp add: inbox_new_def)
  have d: "drained 3 (rx_queue ?rx) three_landings = [[1, 2], [3, 4], [5]]"
    by (simp add: numeral_3_eq_3 drained_simps three_landings_def)
  have l: "three_landings 2 = [6, 7]" by (simp add: three_landings_def)
  have "charged' = 15 \<and> (\<exists>rx'. ti_slot ib' = Some rx' \<and> rx_queue rx' = [6, 7])"
    using purge_takes_what_landed [OF slot p] unfolding d l by simp
  then show ?thesis using p by blast
qed

end
