(* ===== verification/Grants.thy ===== *)
theory Grants
  imports Live_Graph
begin

text \<open>
  Waiting for a write grant (\<open>daemon/src/runtime.rs\<close>, \<open>daemon/src/daemon.rs\<close>, \<open>daemon/src/nodes/leg.rs\<close>): the
  park-and-retry loop \<open>await_grant\<close> and its three callers, the guards that undo a cancelled wait, and everything
  else the daemon does to a lock cell, with the wake it gives or does not give. \<open>Notify::notify_waiters\<close> keeps
  no permit, so a future that was enabled completes exactly when a later call is made: the cell's count of calls
  has moved on since.
\<close>

section \<open>Attempts\<close>

datatype WaitOutcome = WaitFresh | WaitAlreadyHeld | WaitReadOnly | WaitDetached | WaitTimedOut | WaitClosed

datatype Grant = GrantFresh | GrantAlreadyHeld | GrantRefused

text \<open>The critical section of \<open>wait_for_grant\<close>, of the leg's \<open>ensure_acquired\<close>, and of \<open>reacquire_held\<close>.\<close>

definition wait_attempt :: "OriginId \<Rightarrow> EndpointLock \<Rightarrow> WaitOutcome option \<times> EndpointLock" where
  "wait_attempt i l =
     (case acquire i l of
        (Granted, l) \<Rightarrow> (Some WaitFresh, l)
      | (AlreadyHeld, l) \<Rightarrow> (Some WaitAlreadyHeld, l)
      | (ReadOnly, l) \<Rightarrow> (Some WaitReadOnly, l)
      | (Unregistered, l) \<Rightarrow> (Some WaitDetached, l)
      | (Denied _, l) \<Rightarrow> (None, enqueue i l))"

definition ensure_attempt :: "OriginId \<Rightarrow> EndpointLock \<Rightarrow> Grant option \<times> EndpointLock" where
  "ensure_attempt i l =
     (case acquire i l of
        (Granted, l) \<Rightarrow> (Some GrantFresh, l)
      | (AlreadyHeld, l) \<Rightarrow> (Some GrantAlreadyHeld, l)
      | (ReadOnly, l) \<Rightarrow> (Some GrantRefused, l)
      | (Unregistered, l) \<Rightarrow> (Some GrantRefused, l)
      | (Denied _, l) \<Rightarrow> (None, enqueue i l))"

definition reacquire_attempt :: "OriginId \<Rightarrow> EndpointLock \<Rightarrow> Grant option \<times> EndpointLock" where
  "reacquire_attempt i l =
     (if lock_write_mode l i = None then (Some GrantRefused, l)
      else if may_write l i then (Some GrantAlreadyHeld, l)
      else (case reclaim_held i l of (True, l) \<Rightarrow> (Some GrantFresh, l) | (False, l) \<Rightarrow> (None, l)))"

section \<open>What happens to a cell\<close>

definition on_lock :: "(EndpointLock \<Rightarrow> EndpointLock) \<Rightarrow> LockCell \<Rightarrow> LockCell" where
  "on_lock f c = c\<lparr>lc_lock := f (lc_lock c)\<rparr>"

definition wake :: "LockCell \<Rightarrow> LockCell" where
  "wake c = c\<lparr>lc_wakes := Suc (lc_wakes c)\<rparr>"

definition wake_if_free :: "LockCell \<Rightarrow> LockCell" where
  "wake_if_free c = (if holder (lc_lock c) = None then wake c else c)"

text \<open>The drop of a \<open>WaiterGuard\<close> that was not disarmed, and of a \<open>TransientOrigin\<close>.\<close>

definition waiter_guard_drop :: "OriginId \<Rightarrow> LockCell \<Rightarrow> LockCell" where
  "waiter_guard_drop i c = wake_if_free (on_lock (dequeue i) c)"

definition transient_origin_drop :: "OriginId \<Rightarrow> LockCell \<Rightarrow> LockCell" where
  "transient_origin_drop i c = wake_if_free (on_lock (\<lambda>l. snd (lock_unregister i l)) c)"

text \<open>A lease that runs out: nothing if the endpoint is gone or the grant is no longer the one it was armed for.\<close>

definition lease_fires :: "OriginId \<Rightarrow> u64 \<Rightarrow> LockCell \<Rightarrow> LockCell" where
  "lease_fires i gen c =
     (if lc_closed c then c
      else if holder (lc_lock c) = Some i \<and> generation (lc_lock c) = gen
      then wake (on_lock (\<lambda>l. snd (lock_release i l)) c) else c)"

text \<open>
  \<open>connect\<close> registers and wakes, a \<open>send\<close> registers quietly; \<open>disconnect\<close>, \<open>remove-node\<close> and the end of a
  \<open>send\<close> unregister and wake; \<open>unlock\<close>, the leg and a pty's last close release, and wake if that freed the lock;
  \<open>lock --steal\<close> wakes if the lock changed hands, \<open>send --steal\<close> always.
\<close>

datatype CellOp =
    CellRegister bool OriginId string WriteMode
  | CellUnregister OriginId
  | CellTransientDrop OriginId
  | CellAcquire OriginId
  | CellRelease OriginId
  | CellSteal OriginId
  | CellSendSteal OriginId
  | CellLease OriginId u64
  | CellRenew OriginId
  | CellPurge OriginId u64
  | CellReclaim OriginId
  | CellClose

fun cell_apply :: "CellOp \<Rightarrow> LockCell \<Rightarrow> LockCell" where
  "cell_apply (CellRegister waking i lbl mode) c =
     (if waking then wake (on_lock (lock_register i lbl mode) c) else on_lock (lock_register i lbl mode) c)"
| "cell_apply (CellUnregister i) c = wake (on_lock (\<lambda>l. snd (lock_unregister i l)) c)"
| "cell_apply (CellTransientDrop i) c = transient_origin_drop i c"
| "cell_apply (CellAcquire i) c = on_lock (\<lambda>l. snd (acquire i l)) c"
| "cell_apply (CellRelease i) c =
     (if fst (lock_release i (lc_lock c)) then wake (on_lock (\<lambda>l. snd (lock_release i l)) c)
      else on_lock (\<lambda>l. snd (lock_release i l)) c)"
| "cell_apply (CellSteal i) c =
     (case fst (steal i (lc_lock c)) of
        Stolen _ \<Rightarrow> wake (on_lock (\<lambda>l. snd (steal i l)) c)
      | _ \<Rightarrow> on_lock (\<lambda>l. snd (steal i l)) c)"
| "cell_apply (CellSendSteal i) c = wake (on_lock (\<lambda>l. snd (steal i l)) c)"
| "cell_apply (CellLease i gen) c = lease_fires i gen c"
| "cell_apply (CellRenew i) c = on_lock (\<lambda>l. snd (renew i l)) c"
| "cell_apply (CellPurge i n) c = on_lock (record_purge i n) c"
| "cell_apply (CellReclaim i) c = on_lock (\<lambda>l. snd (may_write_reclaiming i l)) c"
| "cell_apply CellClose c = wake (c\<lparr>lc_closed := True\<rparr>)"

section \<open>Waiting tasks\<close>

datatype waiter_kind = Verb | Leg | Interior

datatype settlement = OfWait WaitOutcome | OfGrant Grant | Torn

fun attempt :: "waiter_kind \<Rightarrow> OriginId \<Rightarrow> EndpointLock \<Rightarrow> settlement option \<times> EndpointLock" where
  "attempt Verb i l = map_prod (map_option OfWait) id (wait_attempt i l)"
| "attempt Leg i l = map_prod (map_option OfGrant) id (ensure_attempt i l)"
| "attempt Interior i l = map_prod (map_option OfGrant) id (reacquire_attempt i l)"

text \<open>
  Where a task is in \<open>await_grant\<close>: at the top of the loop, with its wake future enabled, parked on it, or
  settled. The number is the count of wakes the future was enabled at.
\<close>

datatype wait_state = Entering | Armed nat | Parked nat | Settled settlement

record waiter =
  wt_kind :: waiter_kind
  wt_id :: OriginId
  wt_state :: wait_state

record grant_world =
  gw_cell :: LockCell
  gw_tasks :: "nat \<Rightarrow> waiter option"

definition set_task :: "nat \<Rightarrow> waiter \<Rightarrow> wait_state \<Rightarrow> grant_world \<Rightarrow> grant_world" where
  "set_task t w st g = g\<lparr>gw_tasks := (gw_tasks g)(t \<mapsto> w\<lparr>wt_state := st\<rparr>)\<rparr>"

definition leave :: "waiter \<Rightarrow> LockCell \<Rightarrow> LockCell" where
  "leave w c = (if wt_kind w = Verb then waiter_guard_drop (wt_id w) c else c)"

text \<open>
  An id is given out once, before anyone can wait for it; and the origin of a \<open>send\<close> is dropped after the
  wait of that \<open>send\<close>, which is the only one for it.
\<close>

definition unsettled :: "waiter \<Rightarrow> bool" where
  "unsettled w \<longleftrightarrow> (\<forall>out. wt_state w \<noteq> Settled out)"

fun cell_allowed :: "grant_world \<Rightarrow> CellOp \<Rightarrow> bool" where
  "cell_allowed g (CellRegister waking i lbl mode) \<longleftrightarrow>
     origin_of (lc_lock (gw_cell g)) i = None \<and> (\<forall>w \<in> ran (gw_tasks g). wt_id w \<noteq> i)"
| "cell_allowed g (CellTransientDrop i) \<longleftrightarrow> (\<forall>w \<in> ran (gw_tasks g). unsettled w \<longrightarrow> wt_id w \<noteq> i)"
| "cell_allowed g _ \<longleftrightarrow> True"

text \<open>
  One step of the daemon as this cell sees it. Only the control plane's waits can be cancelled, by a deadline or a
  closed connection. An interior node waits for its held origin, which validation makes sure it is.
\<close>

inductive grant_step :: "grant_world \<Rightarrow> grant_world \<Rightarrow> bool" where
  others: "cell_allowed g opn \<Longrightarrow> grant_step g (g\<lparr>gw_cell := cell_apply opn (gw_cell g)\<rparr>)"
| comes: "gw_tasks g t = None \<Longrightarrow> (k = Interior \<longrightarrow> lock_write_mode (lc_lock (gw_cell g)) i = Some Held) \<Longrightarrow>
    grant_step g (g\<lparr>gw_tasks := (gw_tasks g)(t \<mapsto> \<lparr>wt_kind = k, wt_id = i, wt_state = Entering\<rparr>)\<rparr>)"
| arms: "gw_tasks g t = Some w \<Longrightarrow> wt_state w = Entering \<Longrightarrow> \<not> lc_closed (gw_cell g) \<Longrightarrow>
    grant_step g (set_task t w (Armed (lc_wakes (gw_cell g))) g)"
| torn: "gw_tasks g t = Some w \<Longrightarrow> wt_state w = Entering \<Longrightarrow> lc_closed (gw_cell g) \<Longrightarrow>
    grant_step g ((set_task t w (Settled Torn) g)\<lparr>gw_cell := leave w (gw_cell g)\<rparr>)"
| settles: "gw_tasks g t = Some w \<Longrightarrow> wt_state w = Armed n \<Longrightarrow>
    attempt (wt_kind w) (wt_id w) (lc_lock (gw_cell g)) = (Some out, l) \<Longrightarrow>
    grant_step g ((set_task t w (Settled out) g)\<lparr>gw_cell := on_lock (\<lambda>_. l) (gw_cell g)\<rparr>)"
| parks: "gw_tasks g t = Some w \<Longrightarrow> wt_state w = Armed n \<Longrightarrow>
    attempt (wt_kind w) (wt_id w) (lc_lock (gw_cell g)) = (None, l) \<Longrightarrow>
    grant_step g ((set_task t w (Parked n) g)\<lparr>gw_cell := on_lock (\<lambda>_. l) (gw_cell g)\<rparr>)"
| wakes: "gw_tasks g t = Some w \<Longrightarrow> wt_state w = Parked n \<Longrightarrow> lc_wakes (gw_cell g) \<noteq> n \<Longrightarrow>
    grant_step g (set_task t w Entering g)"
| cancels: "gw_tasks g t = Some w \<Longrightarrow> wt_kind w = Verb \<Longrightarrow> unsettled w \<Longrightarrow>
    grant_step g ((set_task t w (Settled (OfWait WaitTimedOut)) g)\<lparr>gw_cell := leave w (gw_cell g)\<rparr>)"

inductive grant_run :: "LockCell \<Rightarrow> grant_world \<Rightarrow> bool" for c0 :: LockCell where
  opens: "grant_run c0 \<lparr>gw_cell = c0, gw_tasks = Map.empty\<rparr>"
| goes_on: "grant_run c0 g \<Longrightarrow> grant_step g g' \<Longrightarrow> grant_run c0 g'"

section \<open>The verbs on a cell\<close>

text \<open>What the verbs of the daemon do to the cell they address is one of these operations, or two in a row.\<close>

lemma wake_waiters_cell: "hp_cells (wake_waiters c hp) c = wake (hp_cells hp c)"
  by (simp add: wake_waiters_def wake_def)

lemma with_lock_cell: "hp_cells (with_lock c f hp) c = on_lock f (hp_cells hp c)"
  by (simp add: with_lock_def on_lock_def)

lemma unlock_is_release:
  "resolve_origin s origin = Some (c, i) \<Longrightarrow>
     hp_cells (gs_heap (snd (unlock_verb origin s))) c = cell_apply (CellRelease i) (hp_cells (gs_heap s) c)"
  by (simp add: unlock_verb_def Let_def wake_waiters_cell with_lock_cell)

lemma send_is_register_unregister:
  "send_begin endpoint True s = (Ok (c, i), s') \<Longrightarrow>
     hp_cells (gs_heap s') c = cell_apply (CellRegister False i ''send'' OnDemand) (hp_cells (gs_heap s) c)"
  "hp_cells (gs_heap (send_end c i s)) c = cell_apply (CellUnregister i) (hp_cells (gs_heap s) c)"
  by (auto simp: send_begin_def send_end_def with_lock_cell wake_waiters_cell Let_def split: option.splits prod.splits)

lemma purge_is_purge:
  "hp_cells (gs_heap (purge_on_acquire env c origin i s)) c \<in>
     {hp_cells (gs_heap s) c, cell_apply (CellPurge i (purge_by_name env origin s)) (hp_cells (gs_heap s) c)}"
  by (simp add: purge_on_acquire_def Let_def with_lock_cell)

lemma lock_is_acquire:
  assumes "resolve_origin s origin = Some (c, i)" and "lock_verb env origin False False s = (r, s')"
  shows "\<exists>purged. hp_cells (gs_heap s') c \<in>
    {cell_apply (CellAcquire i) (hp_cells (gs_heap s) c),
     cell_apply (CellPurge i purged) (cell_apply (CellAcquire i) (hp_cells (gs_heap s) c)), hp_cells (gs_heap s) c}"
proof -
  let ?s = "s\<lparr>gs_heap := with_lock c (\<lambda>l. snd (acquire i l)) (gs_heap s)\<rparr>"
  have "s' = purge_on_acquire env c origin i ?s \<or> s' = ?s \<or> s' = s"
    using assms by (auto simp: lock_verb_def Let_def split: Acquire.splits)
  then show ?thesis using purge_is_purge [of env c origin i ?s] by (auto simp: with_lock_cell)
qed

section \<open>Who is rightly parked\<close>

definition blocked :: "waiter_kind \<Rightarrow> OriginId \<Rightarrow> EndpointLock \<Rightarrow> bool" where
  "blocked k i l \<longleftrightarrow> Lock.arbitration l = Exclusive \<and> lock_writer l i \<and>
     (case holder l of
        Some h \<Rightarrow> h \<noteq> i
      | None \<Rightarrow> k \<noteq> Interior \<and> lock_write_mode l i \<noteq> Some Held \<and>
          ((\<exists>j. j \<noteq> i \<and> lock_write_mode l j = Some Held) \<or> (waiters l \<noteq> [] \<and> hd (waiters l) \<noteq> i)))"

text \<open>An acquisition is denied exactly when the origin is blocked.\<close>

lemma acquire_denied: "lock_inv l \<Longrightarrow> k \<noteq> Interior \<Longrightarrow> (\<exists>h. fst (acquire i l) = Denied h) \<longleftrightarrow> blocked k i l"
proof -
  assume inv: "lock_inv l" and k: "k \<noteq> Interior"
  note none = held_origin_other_than_None [OF inv, of i]
  show ?thesis
  proof (cases "origin_of l i")
    case None
    then show ?thesis by (simp add: acquire_def blocked_def lock_writer_def)
  next
    case (Some o')
    then show ?thesis using none k
      by (cases "Lock.arbitration l"; cases "holder l"; cases "waiters l"; cases "held_origin_other_than l i")
        (auto simp: acquire_def blocked_def lock_writer_def lock_write_mode_def)
  qed
qed

lemma acquire_denied_same: "fst (acquire i l) = Denied h \<Longrightarrow> snd (acquire i l) = l"
  by (auto simp: acquire_def split: option.splits if_splits list.splits)

lemma attempt_refused:
  assumes "lock_inv l" and "k = Interior \<longrightarrow> lock_write_mode l i \<in> {Some Held, None}"
  shows "fst (attempt k i l) = None \<longleftrightarrow> blocked k i l"
    and "fst (attempt k i l) = None \<Longrightarrow> snd (attempt k i l) = (if k = Interior then l else enqueue i l)"
proof -
  show "fst (attempt k i l) = None \<longleftrightarrow> blocked k i l"
  proof (cases k)
    case Interior
    then show ?thesis using assms(2)
      by (auto simp: reacquire_attempt_def reclaim_held_def may_write_def blocked_def lock_writer_def lock_write_mode_def
          split: option.splits Arbitration.splits)
  qed (use acquire_denied [OF assms(1), of k i] in
      \<open>auto simp: wait_attempt_def ensure_attempt_def split: prod.splits Acquire.splits\<close>)
  show "fst (attempt k i l) = None \<Longrightarrow> snd (attempt k i l) = (if k = Interior then l else enqueue i l)"
    using acquire_denied_same [of i l]
    by (cases k) (auto simp: wait_attempt_def ensure_attempt_def reacquire_attempt_def reclaim_held_def
        split: prod.splits Acquire.splits if_splits option.splits bool.splits)
qed

text \<open>
  What a change of the lock that wakes nobody may be, for someone who is blocked: the lock stays with its holder or
  goes to somebody else, and while it is free those ahead stay ahead.
\<close>

definition calm :: "OriginId \<Rightarrow> EndpointLock \<Rightarrow> EndpointLock \<Rightarrow> bool" where
  "calm i l l' \<longleftrightarrow>
     Lock.arbitration l' = Lock.arbitration l \<and> lock_write_mode l' i = lock_write_mode l i \<and>
     (holder l' = holder l \<or> (holder l = None \<and> (\<exists>x. x \<noteq> i \<and> holder l' = Some x))) \<and>
     (holder l' = None \<longrightarrow>
        (\<forall>j. lock_write_mode l j = Some Held \<longrightarrow> lock_write_mode l' j = Some Held) \<and>
        (waiters l \<noteq> [] \<longrightarrow> waiters l' \<noteq> [] \<and> hd (waiters l') = hd (waiters l)))"

lemma lock_writer_mode: "lock_writer l i \<longleftrightarrow> (\<exists>m. lock_write_mode l i = Some m \<and> m \<noteq> Never)"
  by (auto simp: lock_writer_def lock_write_mode_def split: option.splits)

lemma calm_blocked: "calm i l l' \<Longrightarrow> blocked k i l \<Longrightarrow> blocked k i l'"
  unfolding calm_def blocked_def lock_writer_mode by (auto split: option.splits)

lemma calm_refl: "calm i l l"
  by (simp add: calm_def)

section \<open>Quiet changes are calm\<close>

lemma mode_simps [simp]:
  "lock_write_mode (grant_to x l) j = lock_write_mode l j" "lock_write_mode (l\<lparr>stolen := r\<rparr>) j = lock_write_mode l j"
  "lock_write_mode (l\<lparr>holder := h\<rparr>) j = lock_write_mode l j" "lock_write_mode (dequeue x l) j = lock_write_mode l j"
  "lock_write_mode (l\<lparr>generation := n\<rparr>) j = lock_write_mode l j" "lock_write_mode (enqueue x l) j = lock_write_mode l j"
  by (simp_all add: lock_write_mode_def grant_to_def dequeue_def enqueue_def split: option.splits)

lemma purge_mode: "lock_inv l \<Longrightarrow> lock_write_mode (record_purge x n l) j = lock_write_mode l j"
  by (auto simp: lock_write_mode_def record_purge_def lock_inv_def btree.get_ins split: option.splits)

lemma register_mode: "lock_inv l \<Longrightarrow> lock_write_mode (lock_register x lbl m l) j = (if j = x then Some m else lock_write_mode l j)"
  by (auto simp: lock_write_mode_def lock_register_def lock_inv_def btree.get_ins Let_def)

lemma unregister_mode: "lock_inv l \<Longrightarrow> lock_write_mode (snd (lock_unregister x l)) j = (if j = x then None else lock_write_mode l j)"
  by (auto simp: lock_write_mode_def lock_unregister_def lock_inv_def btree.get_del Let_def)

lemma calm_grant: "holder l = None \<Longrightarrow> x \<noteq> i \<Longrightarrow> calm i l (grant_to x l)"
  by (simp add: calm_def) (simp add: grant_to_def)

lemma calm_acquire: "lock_inv l \<Longrightarrow> blocked k i l \<Longrightarrow> calm i l (snd (acquire x l))"
proof (cases "x = i \<or> snd (acquire x l) = l")
  case True
  assume "lock_inv l" "blocked k i l"
  show ?thesis
  proof (cases "k = Interior \<and> snd (acquire x l) \<noteq> l")
    case False
    then show ?thesis
      using True acquire_denied [OF \<open>lock_inv l\<close>, of k i] \<open>blocked k i l\<close> acquire_denied_same [of i l] by (auto simp: calm_refl)
  next
    case True
    then show ?thesis using \<open>blocked k i l\<close> acquire_effect [of x l] by (auto simp: blocked_def)
  qed
next
  case False
  then show ?thesis using acquire_effect [of x l] calm_grant by auto
qed

lemma calm_reclaim: "blocked k i l \<Longrightarrow> calm i l (snd (reclaim_held x l))"
proof (cases "x = i")
  case True
  assume "blocked k i l"
  with True have "snd (reclaim_held x l) = l"
    by (auto simp: blocked_def reclaim_held_def lock_write_mode_def split: option.splits)
  then show ?thesis by (simp add: calm_refl)
next
  case False
  then show ?thesis using reclaim_held_effect [of x l] calm_grant calm_refl by metis
qed

lemma calm_enqueue: "calm i l (enqueue x l)"
  by (auto simp: calm_def) (auto simp: enqueue_def hd_append split: option.splits if_splits)

lemma calm_held: "holder l' = holder l \<Longrightarrow> holder l \<noteq> None \<Longrightarrow> Lock.arbitration l' = Lock.arbitration l \<Longrightarrow>
    lock_write_mode l' i = lock_write_mode l i \<Longrightarrow> calm i l l'"
  by (auto simp: calm_def)

lemma calm_register: "lock_inv l \<Longrightarrow> origin_of l x = None \<Longrightarrow> x \<noteq> i \<Longrightarrow> calm i l (lock_register x lbl m l)"
  unfolding calm_def using register_mode [of l x lbl m]
  by (auto simp: lock_register_def lock_write_mode_def Let_def split: option.splits)

lemma cell_simps [simp]:
  "lc_lock (on_lock f c) = f (lc_lock c)" "lc_wakes (on_lock f c) = lc_wakes c" "lc_closed (on_lock f c) = lc_closed c"
  "lc_lock (wake c) = lc_lock c" "lc_wakes (wake c) = Suc (lc_wakes c)" "lc_closed (wake c) = lc_closed c"
  by (simp_all add: on_lock_def wake_def)

text \<open>Whatever the daemon does to a cell, it wakes everybody or leaves every blocked waiter rightly blocked.\<close>

definition quiet :: "OriginId \<Rightarrow> LockCell \<Rightarrow> LockCell \<Rightarrow> bool" where
  "quiet i c c' \<longleftrightarrow> lc_wakes c < lc_wakes c' \<or>
     lc_wakes c' = lc_wakes c \<and> lc_closed c' = lc_closed c \<and> calm i (lc_lock c) (lc_lock c')"

lemma quietI: "calm i (lc_lock c) (lc_lock c') \<Longrightarrow> lc_wakes c' = lc_wakes c \<Longrightarrow> lc_closed c' = lc_closed c \<Longrightarrow> quiet i c c'"
  by (simp add: quiet_def)

lemma quiet_wake [simp]: "quiet i c (wake (on_lock f c))" "quiet i c (wake (c\<lparr>lc_closed := b\<rparr>))"
  by (simp_all add: quiet_def)

lemma quiet_drop:
  "quiet i c (waiter_guard_drop x c)"
  "lock_inv (lc_lock c) \<Longrightarrow> x \<noteq> i \<Longrightarrow> quiet i c (transient_origin_drop x c)"
proof -
  let ?l = "lc_lock c"
  show "quiet i c (waiter_guard_drop x c)"
  proof (cases "holder ?l = None")
    case True
    then show ?thesis by (simp add: quiet_def waiter_guard_drop_def wake_if_free_def dequeue_def)
  next
    case False
    have "calm i ?l (dequeue x ?l)" using False by (intro calm_held) (simp_all, simp_all add: dequeue_def)
    then show ?thesis using False by (simp add: quiet_def waiter_guard_drop_def wake_if_free_def dequeue_def)
  qed
  assume inv: "lock_inv ?l" and x: "x \<noteq> i"
  show "quiet i c (transient_origin_drop x c)"
  proof (cases "holder (snd (lock_unregister x ?l)) = None")
    case True
    then show ?thesis by (simp add: quiet_def transient_origin_drop_def wake_if_free_def)
  next
    case False
    then have "holder (snd (lock_unregister x ?l)) = holder ?l" by (auto simp: lock_unregister_def Let_def split: if_splits)
    then have "calm i ?l (snd (lock_unregister x ?l))"
      using False unregister_mode [OF inv] x
      by (intro calm_held) (auto simp: lock_unregister_def Let_def)
    then show ?thesis using False by (simp add: quiet_def transient_origin_drop_def wake_if_free_def)
  qed
qed

lemma quiet_apply:
  assumes inv: "lock_inv (lc_lock c)" and block: "blocked k i (lc_lock c)"
    and ids: "\<And>waking x lbl m. opn = CellRegister waking x lbl m \<Longrightarrow> origin_of (lc_lock c) x = None \<and> x \<noteq> i"
      "\<And>x. opn = CellTransientDrop x \<Longrightarrow> x \<noteq> i"
  shows "quiet i c (cell_apply opn c)"
proof (cases opn)
  case (CellRegister waking x lbl m)
  then show ?thesis using ids(1) calm_register [OF inv] by (auto intro: quietI)
next
  case (CellTransientDrop x)
  then show ?thesis using ids(2) quiet_drop(2) [OF inv] by simp
next
  case (CellAcquire x)
  then show ?thesis using calm_acquire [OF inv block] by (auto intro: quietI)
next
  case (CellRelease x)
  then show ?thesis by (auto simp: lock_release_def calm_refl intro!: quietI split: if_splits)
next
  case (CellSteal x)
  then show ?thesis using steal_effect [of x "lc_lock c"] by (auto simp: calm_refl intro!: quietI split: Steal.splits)
next
  case (CellLease x gen)
  then show ?thesis by (auto simp: lease_fires_def calm_refl intro!: quietI)
next
  case (CellRenew x)
  have "calm i (lc_lock c) (snd (renew x (lc_lock c)))"
    by (auto simp: renew_def calm_refl) (simp add: calm_def)
  then show ?thesis using CellRenew by (auto intro: quietI)
next
  case (CellPurge x n)
  then show ?thesis using purge_mode [OF inv] by (auto simp: calm_def intro!: quietI)
next
  case (CellReclaim x)
  then show ?thesis using calm_reclaim [OF block]
    by (auto simp: may_write_reclaiming_def calm_refl split: prod.splits intro!: quietI) (metis snd_conv)
qed simp_all

section \<open>The invariant\<close>

definition task_ok :: "LockCell \<Rightarrow> waiter \<Rightarrow> bool" where
  "task_ok c w \<longleftrightarrow>
     (wt_kind w = Interior \<longrightarrow> lock_write_mode (lc_lock c) (wt_id w) \<in> {Some Held, None}) \<and>
     (case wt_state w of
        Armed n \<Rightarrow> n \<le> lc_wakes c \<and> (n = lc_wakes c \<longrightarrow> \<not> lc_closed c)
      | Parked n \<Rightarrow> n \<le> lc_wakes c \<and>
          (n = lc_wakes c \<longrightarrow> \<not> lc_closed c \<and> blocked (wt_kind w) (wt_id w) (lc_lock c))
      | _ \<Rightarrow> True)"

definition lock_ok :: "EndpointLock \<Rightarrow> bool" where
  "lock_ok l \<longleftrightarrow> lock_inv l \<and> (Lock.arbitration l = FreeForAll \<longrightarrow> waiters l = [])"

definition queue_manned :: "grant_world \<Rightarrow> bool" where
  "queue_manned g \<longleftrightarrow> lc_closed (gw_cell g) \<or>
     (\<forall>i \<in> set (waiters (lc_lock (gw_cell g))).
        \<exists>w \<in> ran (gw_tasks g). wt_id w = i \<and> unsettled w \<and> wt_kind w \<noteq> Interior)"

definition grant_inv :: "grant_world \<Rightarrow> bool" where
  "grant_inv g \<longleftrightarrow> lock_ok (lc_lock (gw_cell g)) \<and> (\<forall>w \<in> ran (gw_tasks g). task_ok (gw_cell g) w) \<and> queue_manned g"

lemma task_ok_step:
  assumes "task_ok c w" and "unsettled w \<and> blocked (wt_kind w) (wt_id w) (lc_lock c) \<longrightarrow> quiet (wt_id w) c c'"
    and "lc_wakes c \<le> lc_wakes c'" and "lc_wakes c = lc_wakes c' \<longrightarrow> lc_closed c' = lc_closed c"
    and "lock_write_mode (lc_lock c') (wt_id w) \<in> {lock_write_mode (lc_lock c) (wt_id w), None}"
  shows "task_ok c' w"
  using assms calm_blocked [of "wt_id w" "lc_lock c" "lc_lock c'" "wt_kind w"]
  by (auto simp: task_ok_def quiet_def unsettled_def split: wait_state.splits)

text \<open>What an operation on a cell leaves of the rest of the invariant.\<close>

lemma apply_wakes: "lc_wakes c \<le> lc_wakes (cell_apply opn c)"
  "lc_wakes c = lc_wakes (cell_apply opn c) \<Longrightarrow> lc_closed (cell_apply opn c) = lc_closed c"
  by (cases opn; auto simp: transient_origin_drop_def wake_if_free_def lease_fires_def split: Steal.splits)+

lemma apply_closed: "lc_closed c \<Longrightarrow> lc_closed (cell_apply opn c)"
  by (cases opn) (auto simp: transient_origin_drop_def wake_if_free_def lease_fires_def wake_def split: Steal.splits)

lemma snd_reclaiming: "snd (may_write_reclaiming i l) = (if may_write l i then l else snd (reclaim_held i l))"
  by (simp add: may_write_reclaiming_def split: prod.splits)

lemma register_frame: "waiters (lock_register x lbl m l) = waiters l"
  "Lock.arbitration (lock_register x lbl m l) = Lock.arbitration l"
  by (simp_all add: lock_register_def Let_def)

lemma steal_mode: "lock_write_mode (snd (steal x l)) j = lock_write_mode l j"
  using steal_effect [of x l] by auto

lemma acquire_mode: "lock_write_mode (snd (acquire x l)) j = lock_write_mode l j"
  using acquire_effect [of x l] by auto

lemma reclaim_mode: "lock_write_mode (snd (reclaim_held x l)) j = lock_write_mode l j"
  using reclaim_held_effect [of x l] by auto

lemma apply_mode:
  assumes "lock_inv (lc_lock c)" and "\<And>waking x lbl m. opn = CellRegister waking x lbl m \<Longrightarrow> x \<noteq> i"
  shows "lock_write_mode (lc_lock (cell_apply opn c)) i \<in> {lock_write_mode (lc_lock c) i, None}"
  using assms register_mode [OF assms(1)] unregister_mode [OF assms(1)] purge_mode [OF assms(1)]
  by (cases opn)
    (auto simp: transient_origin_drop_def wake_if_free_def lease_fires_def acquire_mode steal_mode reclaim_mode
      lock_release_def renew_def snd_reclaiming wake_def split: Steal.splits)

definition shrinks :: "EndpointLock \<Rightarrow> EndpointLock \<Rightarrow> bool" where
  "shrinks l l' \<longleftrightarrow> lock_ok l' \<and> set (waiters l') \<subseteq> set (waiters l)"

lemma shrinksI:
  "lock_ok l \<Longrightarrow> lock_inv l' \<Longrightarrow> Lock.arbitration l' = Lock.arbitration l \<Longrightarrow> set (waiters l') \<subseteq> set (waiters l) \<Longrightarrow> shrinks l l'"
  by (auto simp: shrinks_def lock_ok_def)

lemma shrinks_ops:
  assumes "lock_ok l"
  shows "origin_of l x = None \<Longrightarrow> shrinks l (lock_register x lbl m l)" "shrinks l (snd (lock_unregister x l))"
    "shrinks l (snd (acquire x l))" "shrinks l (snd (lock_release x l))" "shrinks l (snd (steal x l))"
    "shrinks l (snd (renew x l))" "shrinks l (record_purge x n l)" "shrinks l (snd (reclaim_held x l))"
    "shrinks l (dequeue x l)" "shrinks l l"
proof -
  have inv: "lock_inv l" using assms by (simp add: lock_ok_def)
  note keep = shrinksI [OF assms]
  show "origin_of l x = None \<Longrightarrow> shrinks l (lock_register x lbl m l)"
    using lock_inv_step [of l "OpRegister x lbl m"] inv
    by (intro keep) (auto simp: lock_step_iff register_frame)
  show "shrinks l (snd (lock_unregister x l))"
    by (intro keep lock_inv_unregister inv) (auto simp: lock_unregister_def Let_def)
  show "shrinks l (snd (acquire x l))"
    using acquire_effect [of x l] by (intro keep lock_inv_acquire inv) (auto simp: grant_to_def)
  show "shrinks l (snd (lock_release x l))"
    by (intro keep lock_inv_release inv) (auto simp: lock_release_def)
  show "shrinks l (snd (steal x l))"
    using steal_effect [of x l] by (intro keep lock_inv_steal inv) (auto simp: grant_to_def)
  show "shrinks l (snd (renew x l))"
    by (intro keep lock_inv_renew inv) (auto simp: renew_def)
  show "shrinks l (record_purge x n l)"
    by (intro keep lock_inv_record_purge inv) auto
  show "shrinks l (snd (reclaim_held x l))"
    using reclaim_held_effect [of x l] by (intro keep lock_inv_reclaim_held inv) (auto simp: grant_to_def)
  show "shrinks l (dequeue x l)" by (intro keep lock_inv_dequeue inv) (auto simp: dequeue_def)
  show "shrinks l l" by (intro keep inv) auto
qed

lemma shrinks_apply:
  assumes "lock_ok (lc_lock c)" and "\<And>waking x lbl m. opn = CellRegister waking x lbl m \<Longrightarrow> origin_of (lc_lock c) x = None"
  shows "shrinks (lc_lock c) (lc_lock (cell_apply opn c))"
  using assms(2) shrinks_ops [OF assms(1)]
  by (cases opn)
    (auto simp: transient_origin_drop_def wake_if_free_def lease_fires_def snd_reclaiming wake_def split: Steal.splits)

lemma others_inv:
  assumes inv: "grant_inv g" and ok: "cell_allowed g opn"
  shows "grant_inv (g\<lparr>gw_cell := cell_apply opn (gw_cell g)\<rparr>)"
proof -
  let ?c = "gw_cell g" and ?c' = "cell_apply opn (gw_cell g)"
  have lok: "lock_ok (lc_lock ?c)" using inv by (simp add: grant_inv_def)
  then have li: "lock_inv (lc_lock ?c)" by (simp add: lock_ok_def)
  have reg: "origin_of (lc_lock ?c) x = None \<and> (\<forall>w \<in> ran (gw_tasks g). wt_id w \<noteq> x)"
    if "opn = CellRegister waking x lbl m" for waking x lbl m using ok that by simp
  have sh: "shrinks (lc_lock ?c) (lc_lock ?c')" using shrinks_apply [OF lok] reg by blast
  have "task_ok ?c' w" if w: "w \<in> ran (gw_tasks g)" for w
  proof (rule task_ok_step)
    show old: "task_ok ?c w" using inv w by (simp add: grant_inv_def)
    show "lock_write_mode (lc_lock ?c') (wt_id w) \<in> {lock_write_mode (lc_lock ?c) (wt_id w), None}"
      using apply_mode [OF li] reg w by blast
    show "unsettled w \<and> blocked (wt_kind w) (wt_id w) (lc_lock ?c) \<longrightarrow> quiet (wt_id w) ?c ?c'"
    proof (intro impI, elim conjE)
      assume un: "unsettled w" and block: "blocked (wt_kind w) (wt_id w) (lc_lock ?c)"
      have "x \<noteq> wt_id w" if "opn = CellTransientDrop x" for x using ok un w that by auto
      then show "quiet (wt_id w) ?c ?c'" using quiet_apply [OF li block] reg w by blast
    qed
  qed (use apply_wakes in auto)
  moreover have "queue_manned (g\<lparr>gw_cell := ?c'\<rparr>)"
    using inv sh apply_closed by (auto simp: grant_inv_def queue_manned_def shrinks_def)
  ultimately show ?thesis using sh by (simp add: grant_inv_def shrinks_def)
qed

section \<open>The tasks keep it\<close>

lemma ran_set_task:
  "ran (gw_tasks (set_task t w st g)) \<subseteq> insert (w\<lparr>wt_state := st\<rparr>) (ran (gw_tasks g))"
  by (auto simp: set_task_def ran_def split: if_splits)

lemma set_task_simps [simp]: "gw_cell (set_task t w st g) = gw_cell g"
  by (simp add: set_task_def)

text \<open>A step of one task: the others see a cell that woke them or left them blocked.\<close>

lemma task_step_inv:
  assumes inv: "grant_inv g" and t: "gw_tasks g t = Some w"
    and lok: "lock_ok (lc_lock c')" and mine: "task_ok c' (w\<lparr>wt_state := st\<rparr>)"
    and wakes: "lc_wakes (gw_cell g) \<le> lc_wakes c'" "lc_closed c' = lc_closed (gw_cell g)"
    and modes: "\<And>i. lock_write_mode (lc_lock c') i = lock_write_mode (lc_lock (gw_cell g)) i"
    and rest: "\<And>k i. blocked k i (lc_lock (gw_cell g)) \<Longrightarrow> quiet i (gw_cell g) c'"
    and manned: "queue_manned ((set_task t w st g)\<lparr>gw_cell := c'\<rparr>)"
  shows "grant_inv ((set_task t w st g)\<lparr>gw_cell := c'\<rparr>)"
proof -
  have "task_ok c' v" if "v \<in> ran (gw_tasks (set_task t w st g))" for v
  proof (cases "v = w\<lparr>wt_state := st\<rparr>")
    case False
    then have "v \<in> ran (gw_tasks g)" using that ran_set_task by blast
    then have "task_ok (gw_cell g) v" using inv by (simp add: grant_inv_def)
    then show ?thesis by (rule task_ok_step) (use rest modes wakes in auto)
  qed (use mine in simp)
  then show ?thesis using lok manned by (simp add: grant_inv_def)
qed

text \<open>The queue stays manned when a task settles that is no longer in it, or when nobody leaves.\<close>

lemma manned_other:
  assumes "queue_manned g" and t: "gw_tasks g t = Some w"
    and sub: "set (waiters (lc_lock c')) \<subseteq> set (waiters (lc_lock (gw_cell g)))" and "lc_closed c' = lc_closed (gw_cell g)"
    and "unsettled (w\<lparr>wt_state := st\<rparr>) \<or> wt_kind w = Interior \<or> wt_id w \<notin> set (waiters (lc_lock c')) \<or> lc_closed c'"
  shows "queue_manned ((set_task t w st g)\<lparr>gw_cell := c'\<rparr>)"
proof (cases "lc_closed c'")
  case False
  let ?g = "set_task t w st g"
  have "\<exists>v \<in> ran (gw_tasks ?g). wt_id v = i \<and> unsettled v \<and> wt_kind v \<noteq> Interior" if i: "i \<in> set (waiters (lc_lock c'))" for i
  proof -
    have "i \<in> set (waiters (lc_lock (gw_cell g)))" using sub i by blast
    then obtain v where "v \<in> ran (gw_tasks g)" and v: "wt_id v = i" "unsettled v" "wt_kind v \<noteq> Interior"
      using assms(1,4) False unfolding queue_manned_def by auto
    then obtain s where s: "gw_tasks g s = Some v" by (auto simp: ran_def)
    show ?thesis
    proof (cases "s = t")
      case True
      then have "v = w" using s t by simp
      then show ?thesis using assms(5) v i False
        by (intro bexI [of _ "w\<lparr>wt_state := st\<rparr>"]) (auto simp: set_task_def ran_def)
    next
      case False
      then have "gw_tasks ?g s = Some v" using s by (simp add: set_task_def)
      then show ?thesis using v by (auto simp: ran_def)
    qed
  qed
  then show ?thesis by (simp add: queue_manned_def)
qed (simp add: queue_manned_def)

lemma acquire_takes:
  "lock_writer l i \<Longrightarrow> Lock.arbitration l = Exclusive \<Longrightarrow> holder l \<noteq> Some i \<Longrightarrow>
     (\<exists>h. fst (acquire i l) = Denied h) \<or> snd (acquire i l) = grant_to i l"
  by (cases "origin_of l i"; cases "holder l"; cases "held_origin_other_than l i"; cases "waiters l")
    (auto simp: acquire_def lock_writer_def)

lemma settled_not_queued:
  assumes "lock_ok l" and "attempt k i l = (Some out, l')" and "k \<noteq> Interior"
  shows "i \<notin> set (waiters l')"
proof -
  have "l' = snd (acquire i l)" "\<forall>h. fst (acquire i l) \<noteq> Denied h"
    using assms(2,3) by (cases k; auto simp: wait_attempt_def ensure_attempt_def split: prod.splits Acquire.splits)+
  moreover have "i \<notin> set (waiters (snd (acquire i l)))" if "\<forall>h. fst (acquire i l) \<noteq> Denied h"
  proof (cases "snd (acquire i l) = grant_to i l")
    case False
    then have same: "snd (acquire i l) = l" using acquire_effect [of i l] by auto
    have "lock_writer l i \<Longrightarrow> Lock.arbitration l = Exclusive \<Longrightarrow> holder l = Some i"
      using acquire_takes [of l i] that False by blast
    then show ?thesis using assms(1) same
      by (cases "Lock.arbitration l") (auto simp: lock_ok_def lock_inv_def list_all_iff)
  qed (simp add: grant_to_def)
  ultimately show ?thesis by simp
qed

lemma attempt_shrinks:
  assumes "lock_ok l" and "attempt k i l = (Some out, l')"
  shows "shrinks l l'" "lock_write_mode l' j = lock_write_mode l j" "blocked m j l \<Longrightarrow> calm j l l'"
proof -
  have "l' = snd (acquire i l) \<or> l' = l \<or> l' = snd (reclaim_held i l)"
    using assms(2) by (cases k)
      (auto simp: wait_attempt_def ensure_attempt_def reacquire_attempt_def split: prod.splits Acquire.splits if_splits bool.splits)
  then show "shrinks l l'" "lock_write_mode l' j = lock_write_mode l j" "blocked m j l \<Longrightarrow> calm j l l'"
    using shrinks_ops [OF assms(1)] acquire_mode reclaim_mode calm_acquire [of l m j i] calm_reclaim [of m j l i] calm_refl assms(1)
    by (auto simp: lock_ok_def)
qed

lemma settles_inv:
  assumes inv: "grant_inv g" and t: "gw_tasks g t = Some w" "wt_state w = Armed n"
    and run: "attempt (wt_kind w) (wt_id w) (lc_lock (gw_cell g)) = (Some out, l)"
  shows "grant_inv ((set_task t w (Settled out) g)\<lparr>gw_cell := on_lock (\<lambda>_. l) (gw_cell g)\<rparr>)"
proof (rule task_step_inv [OF inv t(1)])
  let ?c = "gw_cell g"
  have lok: "lock_ok (lc_lock ?c)" and old: "task_ok ?c w" using inv t(1) by (auto simp: grant_inv_def ran_def)
  note att = attempt_shrinks [OF lok run]
  show "lock_ok (lc_lock (on_lock (\<lambda>_. l) ?c))" using att(1) by (simp add: shrinks_def)
  show "task_ok (on_lock (\<lambda>_. l) ?c) (w\<lparr>wt_state := Settled out\<rparr>)" using old att(2) by (simp add: task_ok_def)
  show "quiet i ?c (on_lock (\<lambda>_. l) ?c)" if "blocked k i (lc_lock ?c)" for k i
    using att(3) [OF that] by (intro quietI) simp_all
  show "queue_manned ((set_task t w (Settled out) g)\<lparr>gw_cell := on_lock (\<lambda>_. l) ?c\<rparr>)"
    using inv att(1) settled_not_queued [OF lok run] by (intro manned_other [OF _ t(1)]) (auto simp: grant_inv_def shrinks_def)
qed (use attempt_shrinks [OF _ run] inv in \<open>simp_all add: grant_inv_def\<close>)

lemma enqueue_ok: "lock_ok l \<Longrightarrow> Lock.arbitration l = Exclusive \<Longrightarrow> lock_ok (enqueue i l)"
  using lock_inv_enqueue [of l i] arbitration_apply [of "OpEnqueue i" l] by (simp add: lock_ok_def)

lemma set_enqueue: "set (waiters (enqueue i l)) \<subseteq> insert i (set (waiters l))"
  by (auto simp: enqueue_def split: option.splits if_splits)

lemma parks_inv:
  assumes inv: "grant_inv g" and t: "gw_tasks g t = Some w" "wt_state w = Armed n"
    and run: "attempt (wt_kind w) (wt_id w) (lc_lock (gw_cell g)) = (None, l)"
  shows "grant_inv ((set_task t w (Parked n) g)\<lparr>gw_cell := on_lock (\<lambda>_. l) (gw_cell g)\<rparr>)"
proof (rule task_step_inv [OF inv t(1)])
  let ?c = "gw_cell g" and ?k = "wt_kind w" and ?i = "wt_id w"
  have lok: "lock_ok (lc_lock ?c)" and old: "task_ok ?c w" using inv t(1) by (auto simp: grant_inv_def ran_def)
  have li: "lock_inv (lc_lock ?c)" using lok by (simp add: lock_ok_def)
  have mode: "?k = Interior \<longrightarrow> lock_write_mode (lc_lock ?c) ?i \<in> {Some Held, None}" using old by (simp add: task_ok_def)
  note att = attempt_refused [OF li mode]
  have block: "blocked ?k ?i (lc_lock ?c)" and l: "l = (if ?k = Interior then lc_lock ?c else enqueue ?i (lc_lock ?c))"
    using att run by auto
  have calm: "calm i (lc_lock ?c) l" for i unfolding l by (simp add: calm_refl calm_enqueue)
  show "lock_ok (lc_lock (on_lock (\<lambda>_. l) ?c))" using lok enqueue_ok block by (simp add: l blocked_def)
  show "task_ok (on_lock (\<lambda>_. l) ?c) (w\<lparr>wt_state := Parked n\<rparr>)"
    using old t(2) calm_blocked [OF calm block] by (simp add: task_ok_def l)
  show "quiet i ?c (on_lock (\<lambda>_. l) ?c)" for i using calm by (intro quietI) simp_all
  show "lock_write_mode (lc_lock (on_lock (\<lambda>_. l) ?c)) i = lock_write_mode (lc_lock ?c) i" for i by (simp add: l)
  let ?g = "set_task t w (Parked n) g" and ?w = "w\<lparr>wt_state := Parked n\<rparr>"
  have old_queue: "queue_manned (?g\<lparr>gw_cell := ?c\<rparr>)"
    using inv by (intro manned_other [OF _ t(1)]) (auto simp: grant_inv_def unsettled_def)
  have me: "?w \<in> ran (gw_tasks ?g)" "unsettled ?w" by (auto simp: set_task_def ran_def unsettled_def)
  have "\<exists>v \<in> ran (gw_tasks ?g). wt_id v = i \<and> unsettled v \<and> wt_kind v \<noteq> Interior"
    if i: "i \<in> set (waiters l)" "\<not> lc_closed ?c" for i
  proof (cases "i \<in> set (waiters (lc_lock ?c))")
    case True
    then show ?thesis using old_queue i(2) by (simp add: queue_manned_def)
  next
    case False
    then have "i = ?i" "?k \<noteq> Interior" using i(1) set_enqueue [of ?i "lc_lock ?c"] by (auto simp: l split: if_splits)
    then show ?thesis using me by (intro bexI [of _ ?w]) auto
  qed
  then show "queue_manned (?g\<lparr>gw_cell := on_lock (\<lambda>_. l) ?c\<rparr>)" by (auto simp: queue_manned_def)
qed simp_all

lemma leaves_inv:
  assumes inv: "grant_inv g" and t: "gw_tasks g t = Some w" and out: "wt_kind w = Verb \<or> lc_closed (gw_cell g)"
  shows "grant_inv ((set_task t w (Settled out) g)\<lparr>gw_cell := leave w (gw_cell g)\<rparr>)"
proof (rule task_step_inv [OF inv t])
  let ?c = "gw_cell g"
  have lok: "lock_ok (lc_lock ?c)" and old: "task_ok ?c w" using inv t by (auto simp: grant_inv_def ran_def)
  have lock: "lc_lock (leave w ?c) = (if wt_kind w = Verb then dequeue (wt_id w) (lc_lock ?c) else lc_lock ?c)"
    by (simp add: leave_def waiter_guard_drop_def wake_if_free_def)
  have closed: "lc_closed (leave w ?c) = lc_closed ?c"
    by (simp add: leave_def waiter_guard_drop_def wake_if_free_def)
  have sh: "shrinks (lc_lock ?c) (lc_lock (leave w ?c))" using shrinks_ops [OF lok] by (simp add: lock)
  then show "lock_ok (lc_lock (leave w ?c))" by (simp add: shrinks_def)
  show modes: "lock_write_mode (lc_lock (leave w ?c)) i = lock_write_mode (lc_lock ?c) i" for i by (simp add: lock)
  show "task_ok (leave w ?c) (w\<lparr>wt_state := Settled out\<rparr>)" using old modes by (simp add: task_ok_def)
  show "lc_wakes ?c \<le> lc_wakes (leave w ?c)" by (simp add: leave_def waiter_guard_drop_def wake_if_free_def)
  show "lc_closed (leave w ?c) = lc_closed ?c" by (rule closed)
  show "quiet i ?c (leave w ?c)" for i by (simp add: leave_def quiet_drop quietI calm_refl)
  show "queue_manned ((set_task t w (Settled out) g)\<lparr>gw_cell := leave w ?c\<rparr>)"
    using inv sh out closed by (intro manned_other [OF _ t]) (auto simp: grant_inv_def shrinks_def lock dequeue_def)
qed

lemma comes_inv:
  assumes inv: "grant_inv g" and t: "gw_tasks g t = None"
    and "k = Interior \<longrightarrow> lock_write_mode (lc_lock (gw_cell g)) i = Some Held"
  shows "grant_inv (g\<lparr>gw_tasks := (gw_tasks g)(t \<mapsto> \<lparr>wt_kind = k, wt_id = i, wt_state = Entering\<rparr>)\<rparr>)"
proof -
  have "ran ((gw_tasks g)(t \<mapsto> v)) = insert v (ran (gw_tasks g))" for v using t by (rule ran_map_upd)
  then show ?thesis using inv assms(3) by (auto simp: grant_inv_def task_ok_def queue_manned_def)
qed

lemma waits_inv:
  assumes inv: "grant_inv g" and t: "gw_tasks g t = Some w" and "unsettled (w\<lparr>wt_state := st\<rparr>)"
    and "task_ok (gw_cell g) (w\<lparr>wt_state := st\<rparr>)"
  shows "grant_inv (set_task t w st g)"
proof -
  have "grant_inv ((set_task t w st g)\<lparr>gw_cell := gw_cell g\<rparr>)"
    using assms by (intro task_step_inv [OF inv t] manned_other [OF _ t] quietI calm_refl) (auto simp: grant_inv_def)
  moreover have "(set_task t w st g)\<lparr>gw_cell := gw_cell g\<rparr> = set_task t w st g" by (simp add: set_task_def)
  ultimately show ?thesis by simp
qed

lemma grant_step_inv: "grant_step g g' \<Longrightarrow> grant_inv g \<Longrightarrow> grant_inv g'"
proof (induction rule: grant_step.induct)
  case (others g opn)
  then show ?case by (rule others_inv [rotated])
next
  case (comes g t k i)
  then show ?case using comes_inv by blast
next
  case (arms g t w)
  then have "task_ok (gw_cell g) w" by (auto simp: grant_inv_def ran_def)
  then show ?case using arms by (intro waits_inv) (auto simp: unsettled_def task_ok_def)
next
  case (torn g t w)
  then show ?case by (intro leaves_inv) auto
next
  case (settles g t w n out l)
  then show ?case by (intro settles_inv)
next
  case (parks g t w n l)
  then show ?case by (intro parks_inv)
next
  case (wakes g t w n)
  then have "task_ok (gw_cell g) w" by (auto simp: grant_inv_def ran_def)
  then show ?case using wakes by (intro waits_inv) (auto simp: unsettled_def task_ok_def)
next
  case (cancels g t w)
  then show ?case by (intro leaves_inv) auto
qed

lemma grant_run_inv:
  assumes "grant_run c0 g" and "c0 = lock_cell_new endpoint (lock_new arb)"
  shows "grant_inv g"
  using assms(1)
proof induction
  case opens
  then show ?case using lock_inv_new [of arb]
    by (simp add: assms(2) grant_inv_def lock_ok_def queue_manned_def lock_cell_new_def lock_new_def)
next
  case (goes_on g g')
  then show ?case using grant_step_inv by blast
qed

section \<open>Properties\<close>

definition asleep :: "LockCell \<Rightarrow> waiter \<Rightarrow> bool" where
  "asleep c w \<longleftrightarrow> wt_state w = Parked (lc_wakes c)"

text \<open>
  C3: nobody waits for a grant in vain. In every state a lock cell reaches with any number of \<open>lock --wait\<close> and
  \<open>send\<close> waits, leg and interior pumps and every other verb in any order, cancellations and lease expiries
  included: a task that sleeps would be refused if it tried now; nobody sleeps on an endpoint that is gone; and if
  the lock is free while somebody is queued and no held origin outranks the queue, then the one at its head is
  waited for by a task that is awake and whose next attempt is granted.
\<close>

theorem no_stranded_waiter:
  assumes "grant_run (lock_cell_new endpoint (lock_new arb)) g"
  shows "(\<forall>w \<in> ran (gw_tasks g). asleep (gw_cell g) w \<longrightarrow>
       \<not> lc_closed (gw_cell g) \<and> fst (attempt (wt_kind w) (wt_id w) (lc_lock (gw_cell g))) = None) \<and>
    (\<not> lc_closed (gw_cell g) \<and> holder (lc_lock (gw_cell g)) = None \<and>
      waiters (lc_lock (gw_cell g)) = i # rest \<and> (\<forall>j. lock_write_mode (lc_lock (gw_cell g)) j \<noteq> Some Held) \<longrightarrow>
      (\<exists>w \<in> ran (gw_tasks g). wt_id w = i \<and> unsettled w \<and> \<not> asleep (gw_cell g) w \<and>
         fst (attempt (wt_kind w) i (lc_lock (gw_cell g))) \<in> {Some (OfWait WaitFresh), Some (OfGrant GrantFresh)}))"
proof -
  let ?c = "gw_cell g" and ?l = "lc_lock (gw_cell g)"
  have inv: "grant_inv g" by (rule grant_run_inv [OF assms refl])
  then have lok: "lock_ok ?l" and li: "lock_inv ?l" by (simp_all add: grant_inv_def lock_ok_def)
  have sleepers: "\<not> lc_closed ?c \<and> fst (attempt (wt_kind w) (wt_id w) ?l) = None"
    if "w \<in> ran (gw_tasks g)" "asleep ?c w" for w
  proof -
    have "task_ok ?c w" using inv that(1) by (simp add: grant_inv_def)
    then show ?thesis using that(2) attempt_refused(1) [OF li, of "wt_kind w" "wt_id w"] by (simp add: task_ok_def asleep_def)
  qed
  have "\<exists>w \<in> ran (gw_tasks g). wt_id w = i \<and> unsettled w \<and> \<not> asleep ?c w \<and>
      fst (attempt (wt_kind w) i ?l) \<in> {Some (OfWait WaitFresh), Some (OfGrant GrantFresh)}"
    if opened: "\<not> lc_closed ?c" and free: "holder ?l = None" and queue: "waiters ?l = i # rest"
      and held: "\<forall>j. lock_write_mode ?l j \<noteq> Some Held"
  proof -
    obtain w where w: "w \<in> ran (gw_tasks g)" "wt_id w = i" "unsettled w" "wt_kind w \<noteq> Interior"
      using inv opened queue by (auto simp: grant_inv_def queue_manned_def)
    have "Lock.arbitration ?l = Exclusive" using lok queue by (cases "Lock.arbitration ?l") (auto simp: lock_ok_def)
    then have "acquire i ?l = (Granted, grant_to i ?l)" using acquire_front(1) [OF li _ free queue held] by blast
    then have "fst (attempt (wt_kind w) i ?l) \<in> {Some (OfWait WaitFresh), Some (OfGrant GrantFresh)}"
      using w(4) by (cases "wt_kind w") (auto simp: wait_attempt_def ensure_attempt_def)
    with sleepers [OF w(1)] w show ?thesis by auto
  qed
  with sleepers show ?thesis by blast
qed

text \<open>One origin holds, another waits with \<open>lock --wait\<close>, the first unlocks.\<close>

definition bench_cell :: LockCell where
  "bench_cell = fold cell_apply [CellRegister False 1 ''a'' OnDemand, CellRegister False 2 ''b'' OnDemand, CellAcquire 1]
     (lock_cell_new ''port'' (lock_new Exclusive))"

definition bench_unlocked :: LockCell where
  "bench_unlocked = cell_apply (CellRelease 1) (on_lock (\<lambda>_. snd (attempt Verb 2 (lc_lock bench_cell))) bench_cell)"

lemma bench_unlocked_eq:
  "lc_closed bench_unlocked = False" "holder (lc_lock bench_unlocked) = None" "waiters (lc_lock bench_unlocked) = [2]"
  "origins (lc_lock bench_unlocked) =
     [(1, \<lparr>origin_label = ''a'', origin_write_mode = OnDemand, origin_purged = 0\<rparr>),
      (2, \<lparr>origin_label = ''b'', origin_write_mode = OnDemand, origin_purged = 0\<rparr>)]"
  by code_simp+

lemma bench_grant_run:
  "\<exists>g. grant_run (lock_cell_new ''port'' (lock_new Exclusive)) g \<and> gw_cell g = bench_unlocked"
proof -
  let ?run = "grant_run (lock_cell_new ''port'' (lock_new Exclusive))" and ?c = bench_cell
  let ?w = "\<lparr>wt_kind = Verb, wt_id = 2, wt_state = Entering\<rparr>"
  have step: "?run \<lparr>gw_cell = cell_apply opn c, gw_tasks = Map.empty\<rparr>"
    if "?run \<lparr>gw_cell = c, gw_tasks = Map.empty\<rparr>" "cell_allowed \<lparr>gw_cell = c, gw_tasks = Map.empty\<rparr> opn" for c opn
    using grant_run.goes_on [OF that(1) grant_step.others [OF that(2)]] by simp
  have "origin_of (lc_lock (lock_cell_new ''port'' (lock_new Exclusive))) 1 = None"
    "origin_of (lc_lock (cell_apply (CellRegister False 1 ''a'' OnDemand) (lock_cell_new ''port'' (lock_new Exclusive)))) 2 = None"
    by code_simp+
  then have run1: "?run \<lparr>gw_cell = ?c, gw_tasks = Map.empty\<rparr>"
    unfolding bench_cell_def by (simp del: cell_apply.simps) (intro step grant_run.opens; simp del: cell_apply.simps)
  have run2: "?run \<lparr>gw_cell = ?c, gw_tasks = [0 \<mapsto> ?w]\<rparr>"
    using grant_run.goes_on [OF run1 grant_step.comes [of _ 0 Verb 2]] by simp
  have "\<not> lc_closed ?c" by code_simp
  then have run3: "?run \<lparr>gw_cell = ?c, gw_tasks = [0 \<mapsto> ?w\<lparr>wt_state := Armed (lc_wakes ?c)\<rparr>]\<rparr>"
    using grant_run.goes_on [OF run2 grant_step.arms [of _ 0 ?w]] by (simp add: set_task_def)
  have "fst (attempt Verb 2 (lc_lock ?c)) = None" by code_simp
  then have "attempt Verb 2 (lc_lock ?c) = (None, snd (attempt Verb 2 (lc_lock ?c)))" by (metis prod.collapse)
  then have "?run \<lparr>gw_cell = on_lock (\<lambda>_. snd (attempt Verb 2 (lc_lock ?c))) ?c,
      gw_tasks = [0 \<mapsto> ?w\<lparr>wt_state := Parked (lc_wakes ?c)\<rparr>]\<rparr>"
    using grant_run.goes_on [OF run3 grant_step.parks [of _ 0 "?w\<lparr>wt_state := Armed (lc_wakes ?c)\<rparr>" "lc_wakes ?c"]]
    by (simp add: set_task_def del: attempt.simps)
  from grant_run.goes_on [OF this grant_step.others [of _ "CellRelease 1"]]
  have "?run \<lparr>gw_cell = bench_unlocked, gw_tasks = [0 \<mapsto> ?w\<lparr>wt_state := Parked (lc_wakes ?c)\<rparr>]\<rparr>"
    by (simp add: bench_unlocked_def del: attempt.simps cell_apply.simps)
  then show ?thesis by force
qed

theorem no_stranded_waiter_witness:
  "\<exists>g :: grant_world. gw_cell g = bench_unlocked \<and> (\<exists>w \<in> ran (gw_tasks g). wt_id w = 2 \<and> \<not> asleep (gw_cell g) w)"
proof -
  obtain g where g: "grant_run (lock_cell_new ''port'' (lock_new Exclusive)) g" "gw_cell g = bench_unlocked"
    using bench_grant_run by blast
  have "lock_write_mode (lc_lock bench_unlocked) j \<noteq> Some Held" for j
    by (simp add: lock_write_mode_def bench_unlocked_eq)
  then show ?thesis using no_stranded_waiter [OF g(1), of 2 "[]"] bench_unlocked_eq g(2) by (intro exI [of _ g]) auto
qed

section \<open>Leases\<close>

text \<open>
  C12: what a lease releases. A timer armed for a grant (it captured the holder and the generation) and going off
  after any run of fewer than 2 to the 64 lock operations releases the lock and wakes the waiters exactly when that
  grant is still in force: the endpoint is open, the origin held the lock all along, and no operation in between
  handed it out again, neither to another origin nor to the same one by a new acquisition, a steal, a reclaim or a
  renewal. Otherwise it leaves the cell alone.
\<close>

theorem lease_releases_its_grant:
  assumes "lock_run (lc_lock c) ops (lc_lock c')" and "length ops < 2 ^ 64" and "holder (lc_lock c) = Some i"
  shows "lease_fires i (generation (lc_lock c)) c' =
    (if \<not> lc_closed c' \<and> in_force i ops (lc_lock c)
     then c'\<lparr>lc_lock := (lc_lock c')\<lparr>holder := None\<rparr>, lc_wakes := Suc (lc_wakes c')\<rparr> else c')"
proof -
  have l': "lc_lock c' = fold lock_apply ops (lc_lock c)" using assms(1) by (simp add: lock_run_iff)
  have "holder (lc_lock c') = Some i \<and> generation (lc_lock c') = generation (lc_lock c) \<longleftrightarrow> in_force i ops (lc_lock c)"
    unfolding in_force_iff l' generation_tells [OF assms(2)] using assms(3) by auto
  then show ?thesis by (auto simp: lease_fires_def wake_def on_lock_def lock_release_def)
qed

text \<open>Another origin queues, is denied and gives up: the lease runs out. The origin lets go and comes back: it does not.\<close>

definition quiet_ops :: "LockOp list" where
  "quiet_ops = [OpEnqueue 2, OpAcquire 2, OpDequeue 2]"

definition again_ops :: "LockOp list" where
  "again_ops = [OpRelease 1, OpAcquire 1]"

lemma bench_lease:
  "holder (lc_lock bench_cell) = Some 1" "\<not> lc_closed bench_cell"
  "in_force 1 quiet_ops (lc_lock bench_cell)" "\<not> in_force 1 again_ops (lc_lock bench_cell)"
  "holder (fold lock_apply again_ops (lc_lock bench_cell)) = Some 1"
  by code_simp+

lemma on_lock_run: "run_allowed (lc_lock c) ops \<Longrightarrow> lock_run (lc_lock c) ops (lc_lock (on_lock (fold lock_apply ops) c))"
  by (simp add: lock_run_iff on_lock_def)

lemma on_lock_frame: "lc_closed (on_lock f c) = lc_closed c" "lc_lock (on_lock f c) = f (lc_lock c)"
  by (simp_all add: on_lock_def)

lemma lease_ops_run: "run_allowed l quiet_ops" "run_allowed l again_ops" "length quiet_ops < 2 ^ 64" "length again_ops < 2 ^ 64"
  by (simp_all add: quiet_ops_def again_ops_def)

theorem lease_releases_its_grant_witness:
  "holder (lc_lock bench_cell) = Some 1 \<and>
   holder (lc_lock (lease_fires 1 (generation (lc_lock bench_cell)) (on_lock (fold lock_apply quiet_ops) bench_cell))) = None \<and>
   holder (lc_lock (lease_fires 1 (generation (lc_lock bench_cell)) (on_lock (fold lock_apply again_ops) bench_cell))) = Some 1"
  unfolding lease_releases_its_grant [OF on_lock_run [OF lease_ops_run(1)] lease_ops_run(3) bench_lease(1)]
    lease_releases_its_grant [OF on_lock_run [OF lease_ops_run(2)] lease_ops_run(4) bench_lease(1)]
  by (simp add: bench_lease on_lock_frame)

end
