(* ===== verification/Map_Node.thy ===== *)
theory Map_Node
  imports Fanout Inbox Grants Character_Map Node_State
begin

text \<open>
  The map node (\<open>daemon/src/nodes/map.rs\<close>) with the targetward steps it shares with the other interior nodes
  (\<open>daemon/src/runtime.rs\<close>: \<open>await_origin\<close>, \<open>forward_targetward\<close>, \<open>try_forward_targetward\<close>): a direction
  with its counters, the node and its teardown, the hostward pump, and the targetward pump as it runs from one
  await to the next among senders, edge surgery, lock verbs, the upstream's task and the stop.
\<close>

section \<open>Directions\<close>

record DirStat =
  ds_bytes_in :: u64
  ds_bytes_out :: u64
  ds_rule_counts :: "u64 list"

record Direction =
  dir_map :: MapDirection
  dir_stat :: DirStat

definition dir_stat_new :: "nat \<Rightarrow> DirStat" where
  "dir_stat_new rules = \<lparr>ds_bytes_in = 0, ds_bytes_out = 0, ds_rule_counts = replicate rules 0\<rparr>"

definition direction_new :: "MapDirection \<Rightarrow> Direction" where
  "direction_new d = \<lparr>dir_map = d, dir_stat = dir_stat_new (rule_count d)\<rparr>"

text \<open>The callback of \<open>apply\<close>; a rule number past the list panics: \<open>None\<close>.\<close>

fun count_rules :: "nat list \<Rightarrow> u64 list \<Rightarrow> u64 list option" where
  "count_rules [] counts = Some counts"
| "count_rules (i # fired) counts =
     (if i < length counts then count_rules fired (counts[i := counts ! i + 1]) else None)"

definition transform :: "byte list \<Rightarrow> Direction \<Rightarrow> (byte list \<times> Direction) option" where
  "transform input d =
     (let (out, fired) = map_apply (dir_map d) input []; st = dir_stat d
      in map_option (\<lambda>counts. (out, d\<lparr>dir_stat :=
           \<lparr>ds_bytes_in = ds_bytes_in st + len64 input, ds_bytes_out = ds_bytes_out st + len64 out,
            ds_rule_counts = counts\<rparr>\<rparr>)) (count_rules fired (ds_rule_counts st)))"

text \<open>The per-rule report: counts under the rule's name, added up where a name is configured twice.\<close>

fun report_rules :: "MapDirection \<Rightarrow> nat \<Rightarrow> u64 list \<Rightarrow> (string \<times> u64) list \<Rightarrow> (string \<times> u64) list option" where
  "report_rules d i [] rules = Some rules"
| "report_rules d i (n # counts) rules =
     (case rule_name d i of
        None \<Rightarrow> None
      | Some name \<Rightarrow>
          (let prev = (case hash_get rules name of Some p \<Rightarrow> p | None \<Rightarrow> 0)
           in report_rules d (Suc i) counts (hash_insert name (prev + n) rules)))"

definition direction_state :: "Direction \<Rightarrow> (u64 \<times> u64 \<times> (string \<times> u64) list) option" where
  "direction_state d =
     map_option (\<lambda>rules. (ds_bytes_in (dir_stat d), ds_bytes_out (dir_stat d), rules))
       (report_rules (dir_map d) 0 (ds_rule_counts (dir_stat d)) [])"

section \<open>The node\<close>

record MapNode =
  mn_name :: string
  mn_hostward :: Direction
  mn_targetward :: Direction
  mn_raw_counters :: "handle option"
  mn_raw_edge :: "handle option"
  mn_hostward_unattached :: u64
  mn_targetward_discarded :: u64
  mn_teardown_loss :: "byte list TeardownLoss"
  mn_status :: NodeState

datatype MapCreateError = UnknownHostward string | UnknownTargetward string

definition map_create :: "int \<Rightarrow> MapConfig \<Rightarrow> (MapCreateError, MapNode) result" where
  "map_create clock c =
     (case parse (map_hostward c) of
        Inl bad \<Rightarrow> Err (UnknownHostward bad)
      | Inr hostward \<Rightarrow>
          (case parse (map_targetward c) of
             Inl bad \<Rightarrow> Err (UnknownTargetward bad)
           | Inr targetward \<Rightarrow>
               Ok \<lparr>mn_name = map_name c, mn_hostward = direction_new hostward, mn_targetward = direction_new targetward,
                   mn_raw_counters = None, mn_raw_edge = None, mn_hostward_unattached = 0, mn_targetward_discarded = 0,
                   mn_teardown_loss = teardown_default, mn_status = state_new Active clock\<rparr>))"

definition raw_waiting :: NodeStatus where
  "raw_waiting = Waiting ''raw side has no attached upstream''"

definition raw_attached :: "'re heap \<Rightarrow> MapNode \<Rightarrow> bool" where
  "raw_attached hp n = (case mn_raw_edge n of None \<Rightarrow> False | Some slot \<Rightarrow> edge_attached (hp_slots hp slot))"

text \<open>
  \<open>start\<close> claims the node's endpoints out of the plan. The hostward pump runs when the raw side has an inbox, the
  targetward pump when the mapped side has a channel; the third and fourth results are what they were given: inbox,
  fan-out and hub, and the watched queue's index and the edge slot.
\<close>

definition map_start ::
  "int \<Rightarrow> Wiring \<Rightarrow> 're heap \<Rightarrow> MapNode \<Rightarrow>
     MapNode \<times> 're heap \<times> (handle \<times> handle \<times> handle option) option \<times> (nat \<times> handle) option" where
  "map_start clock w hp n =
     (let mapped = EndpointAddr_node (mn_name n); raw = EndpointAddr_new (mn_name n) MAP_RAW_ENDPOINT;
          n = n\<lparr>mn_raw_counters := hash_get (w_target_counters w) raw, mn_raw_edge := hash_get (w_target_edges w) raw\<rparr>;
          (fanout, hp) = (case hash_get (w_host_fanout w) mapped of Some f \<Rightarrow> (f, hp) | None \<Rightarrow> new_fanout hp);
          n = (if raw_attached hp n then n else n\<lparr>mn_status := snd (state_set raw_waiting clock (mn_status n))\<rparr>);
          hostward = map_option (\<lambda>inbox. (inbox, fanout, hash_get (w_tap_hub_setup w) mapped)) (hash_get (w_target_inbox_tx w) raw)
      in case hash_get (w_host_targetward_tx w) mapped of
           None \<Rightarrow> (n, hp, hostward, None)
         | Some rx \<Rightarrow>
             (let (edge, hp) = (case mn_raw_edge n of Some slot \<Rightarrow> (slot, hp) | None \<Rightarrow> new_slot hp);
                  (i, loss) = watch \<lparr>rx_queue = [], rx_cap = hp_depths hp rx, rx_senders = True\<rparr> (mn_teardown_loss n)
              in (n\<lparr>mn_teardown_loss := loss\<rparr>, hp, hostward, Some (i, edge))))"

definition map_upstream_attached :: "int \<Rightarrow> EndpointAddr \<Rightarrow> bool \<Rightarrow> MapNode \<Rightarrow> MapNode" where
  "map_upstream_attached clock endpoint attached n =
     (if addr_node endpoint \<noteq> mn_name n \<or> addr_endpoint endpoint \<noteq> MAP_RAW_ENDPOINT then n
      else n\<lparr>mn_status := snd (state_set (if attached then Active else raw_waiting) clock (mn_status n))\<rparr>)"

text \<open>\<open>signal_stop\<close> drains before it aborts; aborting the tasks is the caller's step below.\<close>

definition map_signal_stop :: "MapNode \<Rightarrow> MapNode" where
  "map_signal_stop n = n\<lparr>mn_teardown_loss := teardown_drain length (mn_teardown_loss n)\<rparr>"

definition map_discarded_at_teardown :: "MapNode \<Rightarrow> u64" where
  "map_discarded_at_teardown n = tl_bytes (mn_teardown_loss n)"

record map_state =
  ms_hostward :: "u64 \<times> u64 \<times> (string \<times> u64) list"
  ms_discarded_unattached :: u64
  ms_targetward :: "u64 \<times> u64 \<times> (string \<times> u64) list"
  ms_discarded_no_raw_edge :: u64
  ms_discarded_at_teardown :: u64
  ms_dropped_slow_consumer :: u64

definition map_state_extra :: "(handle \<Rightarrow> DropCounters) \<Rightarrow> MapNode \<Rightarrow> map_state option" where
  "map_state_extra counters n =
     (case (direction_state (mn_hostward n), direction_state (mn_targetward n)) of
        (Some h, Some t) \<Rightarrow>
          Some \<lparr>ms_hostward = h, ms_discarded_unattached = mn_hostward_unattached n, ms_targetward = t,
                ms_discarded_no_raw_edge = mn_targetward_discarded n,
                ms_discarded_at_teardown = tl_bytes (mn_teardown_loss n),
                ms_dropped_slow_consumer = (case mn_raw_counters n of None \<Rightarrow> 0 | Some c \<Rightarrow> dropped_full (counters c))\<rparr>
      | _ \<Rightarrow> None)"

section \<open>The hostward pump\<close>

text \<open>One chunk from the raw side, with the fan-out as it then is; \<open>None\<close> is a panic.\<close>

definition hostward_map ::
  "byte list \<Rightarrow> AttachedSink list \<Rightarrow> MapNode \<times> 're tap_feed option \<times> traffic \<Rightarrow>
     (MapNode \<times> 're tap_feed option \<times> traffic) option" where
  "hostward_map chunk sinks = (\<lambda>(n, feed, tr).
     map_option (\<lambda>(mapped, d).
       let n = n\<lparr>mn_hostward := d\<rparr>
       in if mapped = [] then (n, feed, tr)
          else (let feed = map_option (mirror mapped) feed;
                    (_, tr, lost) = fan_out mapped sinks tr
                in (n\<lparr>mn_hostward_unattached := mn_hostward_unattached n + lost\<rparr>, feed, tr)))
       (transform chunk (mn_hostward n)))"

section \<open>Targetward steps\<close>

text \<open>What a wait for a writable origin finds: \<open>None\<close> is to stay parked, \<open>Some None\<close> an edge that cannot write.\<close>

definition await_origin :: "TargetEdge \<Rightarrow> (handle \<times> handle \<times> OriginId) option option" where
  "await_origin e =
     (case slot_origin e of
        Some origin \<Rightarrow> Some (Some origin)
      | None \<Rightarrow> if edge_attached e then Some None else None)"

text \<open>
  One round of the loop that \<open>reacquire_held\<close> waits in, at its start and after every wake, and the call itself up
  to its first park: an origin that may write already is through whatever became of the endpoint. \<open>None\<close> is to
  park.
\<close>

definition await_write_grant :: "OriginId \<Rightarrow> LockCell \<Rightarrow> bool option \<times> LockCell" where
  "await_write_grant i c =
     (if lc_closed c then (Some False, c)
      else (case reacquire_attempt i (lc_lock c) of
              (None, l) \<Rightarrow> (None, on_lock (\<lambda>_. l) c)
            | (Some g, l) \<Rightarrow> (Some (g \<noteq> GrantRefused), on_lock (\<lambda>_. l) c)))"

definition reacquire_held :: "OriginId \<Rightarrow> LockCell \<Rightarrow> bool option \<times> LockCell" where
  "reacquire_held i c = (if may_write (lc_lock c) i then (Some True, c) else await_write_grant i c)"

datatype Handoff = Taken | HandoffFull "byte list" | HandoffLost

definition try_forward_targetward :: "byte list \<Rightarrow> channel \<Rightarrow> u64 \<Rightarrow> Handoff \<times> channel \<times> u64" where
  "try_forward_targetward chunk ch lost =
     (case chunk_try_send chunk ch of
        (Sent, ch) \<Rightarrow> (Taken, ch, lost)
      | (SendFull, ch) \<Rightarrow> (HandoffFull chunk, ch, lost)
      | (SendClosed, ch) \<Rightarrow> (HandoffLost, ch, lost + len64 chunk))"

text \<open>\<open>TargetwardLoss::charge\<close>.\<close>

definition charge :: "u64 \<Rightarrow> u64 \<Rightarrow> bool \<times> u64" where
  "charge loss lost = (if loss = 0 then (True, lost) else (False, lost + loss))"

section \<open>The targetward pump\<close>

text \<open>
  Where the pump is: receiving, waiting for an origin, at the gate of its lock (calling \<open>reacquire_held\<close>, or
  parked in it), or waiting for room upstream; or over.
\<close>

datatype pump_state =
    Receiving
  | Awaiting "byte list"
  | Reacquiring bool "byte list" handle handle OriginId
  | Sending "byte list" "byte list" handle
  | Over

text \<open>What became of a chunk. This is not in the code; neither are the histories in the world below.\<close>

datatype fate = Forwarded "byte list" | Deleted | NoWay | TooLate

record map_world =
  mw_node :: MapNode
  mw_pump :: pump_state
  mw_stopped :: bool
  mw_slot :: TargetEdge
  mw_cells :: "handle \<Rightarrow> LockCell"
  mw_channels :: "handle \<Rightarrow> channel"
  mw_arrived :: "byte list list"
  mw_fates :: "(byte list \<times> fate) list"

definition on_inbox :: "(byte list TargetwardInbox \<Rightarrow> byte list TargetwardInbox) \<Rightarrow> map_world \<Rightarrow> map_world" where
  "on_inbox f w = w\<lparr>mw_node := (mw_node w)\<lparr>mn_teardown_loss := at_inbox 0 f (mn_teardown_loss (mw_node w))\<rparr>\<rparr>"

abbreviation map_inbox :: "map_world \<Rightarrow> byte list TargetwardInbox" where
  "map_inbox w \<equiv> tl_inboxes (mn_teardown_loss (mw_node w)) ! 0"

text \<open>The end of a turn of the loop: the loss is charged, and the next receive begins by settling the chunk.\<close>

definition turn_ends :: "byte list \<Rightarrow> fate \<Rightarrow> map_world \<Rightarrow> map_world" where
  "turn_ends chunk fate w =
     (let w = on_inbox settle_held (w\<lparr>mw_pump := Receiving, mw_fates := mw_fates w @ [(chunk, fate)]\<rparr>);
          loss = (case fate of NoWay \<Rightarrow> len64 chunk | TooLate \<Rightarrow> len64 chunk | _ \<Rightarrow> 0)
      in w\<lparr>mw_node := (mw_node w)\<lparr>mn_targetward_discarded := snd (charge loss (mn_targetward_discarded (mw_node w)))\<rparr>\<rparr>)"

datatype turn = Parks | Panics | Goes map_world

definition targetward_map :: "map_world \<Rightarrow> turn" where
  "targetward_map w =
     (case mw_pump w of
        Receiving \<Rightarrow>
          (case inbox_poll_recv length (map_inbox w) of
             (Pending, _) \<Rightarrow> Parks
           | (Ready None, ib) \<Rightarrow> Goes (on_inbox (\<lambda>_. ib) (w\<lparr>mw_pump := Over\<rparr>))
           | (Ready (Some chunk), ib) \<Rightarrow> Goes (on_inbox (\<lambda>_. ib) (w\<lparr>mw_pump := Awaiting chunk\<rparr>)))
      | Awaiting chunk \<Rightarrow>
          (case await_origin (mw_slot w) of
             None \<Rightarrow> Parks
           | Some None \<Rightarrow> Goes (turn_ends chunk NoWay w)
           | Some (Some (tx, cell, i)) \<Rightarrow> Goes (w\<lparr>mw_pump := Reacquiring False chunk tx cell i\<rparr>))
      | Reacquiring parked chunk tx cell i \<Rightarrow>
          (case (if parked then await_write_grant else reacquire_held) i (mw_cells w cell) of
             (None, c) \<Rightarrow> if parked then Parks
               else Goes (w\<lparr>mw_cells := (mw_cells w)(cell := c), mw_pump := Reacquiring True chunk tx cell i\<rparr>)
           | (Some False, c) \<Rightarrow> Goes (turn_ends chunk NoWay (w\<lparr>mw_cells := (mw_cells w)(cell := c)\<rparr>))
           | (Some True, c) \<Rightarrow>
               (case transform chunk (mn_targetward (mw_node w)) of
                  None \<Rightarrow> Panics
                | Some (mapped, d) \<Rightarrow>
                    (let w = w\<lparr>mw_cells := (mw_cells w)(cell := c), mw_node := (mw_node w)\<lparr>mn_targetward := d\<rparr>\<rparr>
                     in if mapped = [] then Goes (turn_ends chunk Deleted w)
                        else Goes (w\<lparr>mw_pump := Sending chunk mapped tx\<rparr>))))
      | Sending chunk mapped tx \<Rightarrow>
          (case chunk_try_send mapped (mw_channels w tx) of
             (SendFull, _) \<Rightarrow> Parks
           | (SendClosed, _) \<Rightarrow> Goes (turn_ends chunk TooLate w)
           | (Sent, ch) \<Rightarrow> Goes (turn_ends chunk (Forwarded mapped) (w\<lparr>mw_channels := (mw_channels w)(tx := ch)\<rparr>)))
      | Over \<Rightarrow> Parks)"

text \<open>
  One step of the world: the pump runs to its next await; a writer's chunk lands in the queue; the last writer goes;
  edges, locks and channels change in any way; or the node is stopped, after which its pump never runs again.
\<close>

inductive map_step :: "map_world \<Rightarrow> map_world \<Rightarrow> bool" where
  pumps: "\<not> mw_stopped w \<Longrightarrow> targetward_map w = Goes w' \<Longrightarrow> map_step w w'"
| writes: "ti_slot (map_inbox w) = Some rx \<Longrightarrow> rx_senders rx \<Longrightarrow> length (rx_queue rx) < rx_cap rx \<Longrightarrow>
    map_step w ((on_inbox (push_item chunk) w)\<lparr>mw_arrived := mw_arrived w @ [chunk]\<rparr>)"
| writers_go: "ti_slot (map_inbox w) = Some rx \<Longrightarrow>
    map_step w (on_inbox (\<lambda>ib. ib\<lparr>ti_slot := Some (rx\<lparr>rx_senders := False\<rparr>)\<rparr>) w)"
| around: "map_step w (w\<lparr>mw_slot := e, mw_cells := cs, mw_channels := chs\<rparr>)"
| stop: "map_step w (w\<lparr>mw_node := map_signal_stop (mw_node w), mw_stopped := True\<rparr>)"

text \<open>A run begins with a node as it was created and started, and the pump at its first receive.\<close>

definition map_began :: "MapConfig \<Rightarrow> map_world \<Rightarrow> bool" where
  "map_began c w \<longleftrightarrow> (\<exists>clock n wiring hp hp' hostward edge.
     map_create clock c = Ok n \<and> map_start clock wiring (hp :: unit heap) n = (mw_node w, hp', hostward, Some (0, edge)) \<and>
     mw_slot w = hp_slots hp' edge \<and> mw_pump w = Receiving \<and> \<not> mw_stopped w \<and> mw_arrived w = [] \<and> mw_fates w = [])"

inductive map_run :: "MapConfig \<Rightarrow> map_world \<Rightarrow> bool" for c :: MapConfig where
  map_begins: "map_began c w \<Longrightarrow> map_run c w"
| map_goes: "map_run c w \<Longrightarrow> map_step w w' \<Longrightarrow> map_run c w'"

section \<open>What a direction has counted\<close>

definition mapped_by :: "Mapping list \<Rightarrow> byte list \<Rightarrow> byte list" where
  "mapped_by rules chunk = concat (map (map_byte rules) chunk)"

definition fired_by :: "Mapping list \<Rightarrow> byte list \<Rightarrow> nat list" where
  "fired_by rules chunk = concat (map (fired_rules rules) chunk)"

definition len_sum :: "byte list list \<Rightarrow> u64" where
  "len_sum cs = sum_list (map len64 cs)"

text \<open>The counters of a direction that has transformed these chunks and no others.\<close>

definition has_mapped :: "Mapping list \<Rightarrow> byte list list \<Rightarrow> Direction \<Rightarrow> bool" where
  "has_mapped rules cs d \<longleftrightarrow>
     dir_map d = compile rules \<and> ds_bytes_in (dir_stat d) = len_sum cs \<and>
     ds_bytes_out (dir_stat d) = len_sum (map (mapped_by rules) cs) \<and>
     ds_rule_counts (dir_stat d) =
       map (\<lambda>i. word_of_nat (count_list (concat (map (fired_by rules) cs)) i)) [0..<length rules]"

lemma len_sum_simps [simp]: "len_sum [] = 0" "len_sum (c # cs) = len64 c + len_sum cs" "len_sum (cs @ ds) = len_sum cs + len_sum ds"
  by (simp_all add: len_sum_def)

lemma count_rules_map:
  "\<forall>i \<in> set fired. i < n \<Longrightarrow>
     count_rules fired (map g [0..<n]) = Some (map (\<lambda>i. g i + word_of_nat (count_list fired i)) [0..<n])"
proof (induction fired arbitrary: g)
  case (Cons i fired)
  have "(map g [0..<n])[i := map g [0..<n] ! i + 1] = map (g(i := g i + 1)) [0..<n]"
    using Cons.prems by (auto intro!: nth_equalityI simp: nth_list_update)
  with Cons show ?case by (auto intro!: map_cong simp del: map_fun_upd)
qed simp

lemma fired_below: "i \<in> set (fired_by rules chunk) \<Longrightarrow> i < length rules"
  using fired_rule_named by (fastforce simp: fired_by_def rule_count_def compile_def)

lemma transform_exact:
  assumes "has_mapped rules cs d"
  shows "\<exists>d'. transform chunk d = Some (mapped_by rules chunk, d') \<and> has_mapped rules (cs @ [chunk]) d'"
proof -
  have d: "dir_map d = compile rules" "ds_rule_counts (dir_stat d) =
      map (\<lambda>i. word_of_nat (count_list (concat (map (fired_by rules) cs)) i)) [0..<length rules]"
    using assms by (simp_all add: has_mapped_def)
  have "count_rules (fired_by rules chunk) (ds_rule_counts (dir_stat d)) =
      Some (map (\<lambda>i. word_of_nat (count_list (concat (map (fired_by rules) (cs @ [chunk]))) i)) [0..<length rules])"
    unfolding d(2) using fired_below by (subst count_rules_map) auto
  then show ?thesis using assms
    by (simp add: transform_def d(1) apply_compiled Let_def has_mapped_def flip: mapped_by_def fired_by_def)
qed

lemma direction_new_mapped: "has_mapped rules [] (direction_new (compile rules))"
  by (simp add: has_mapped_def direction_new_def dir_stat_new_def rule_count_def compile_def map_replicate_trivial
      flip: map_replicate_const)

section \<open>The invariant of a run\<close>

fun hand :: "pump_state \<Rightarrow> byte list list" where
  "hand Receiving = []"
| "hand (Awaiting chunk) = [chunk]"
| "hand (Reacquiring parked chunk tx cell i) = [chunk]"
| "hand (Sending chunk mapped tx) = [chunk]"
| "hand Over = []"

fun in_sending :: "pump_state \<Rightarrow> byte list list" where
  "in_sending (Sending chunk mapped tx) = [chunk]"
| "in_sending _ = []"

text \<open>The chunks the transform has been run on, and those charged as discarded.\<close>

definition passed :: "map_world \<Rightarrow> byte list list" where
  "passed w = map fst (filter (\<lambda>(_, fate). fate \<noteq> NoWay) (mw_fates w)) @ in_sending (mw_pump w)"

definition discarded_chunks :: "map_world \<Rightarrow> byte list list" where
  "discarded_chunks w = map fst (filter (\<lambda>(_, fate). fate \<in> {NoWay, TooLate}) (mw_fates w))"

fun rightly :: "Mapping list \<Rightarrow> byte list \<times> fate \<Rightarrow> bool" where
  "rightly rules (chunk, Forwarded out) \<longleftrightarrow> out = mapped_by rules chunk \<and> out \<noteq> []"
| "rightly rules (chunk, Deleted) \<longleftrightarrow> mapped_by rules chunk = []"
| "rightly rules (chunk, NoWay) \<longleftrightarrow> True"
| "rightly rules (chunk, TooLate) \<longleftrightarrow> mapped_by rules chunk \<noteq> []"

fun pump_ok :: "Mapping list \<Rightarrow> pump_state \<Rightarrow> bool" where
  "pump_ok rules (Sending chunk out tx) \<longleftrightarrow> out = mapped_by rules chunk \<and> out \<noteq> []"
| "pump_ok rules _ \<longleftrightarrow> True"

definition queue_ok :: "map_world \<Rightarrow> byte list TargetwardInbox \<Rightarrow> bool" where
  "queue_ok w ib \<longleftrightarrow>
     (if mw_stopped w then
        ti_slot ib = None \<and> ti_held ib = 0 \<and>
        (\<exists>rest. mw_arrived w = map fst (mw_fates w) @ rest \<and> tl_bytes (mn_teardown_loss (mw_node w)) = len_sum rest)
      else
        (\<exists>rx. ti_slot ib = Some rx \<and> mw_arrived w = map fst (mw_fates w) @ hand (mw_pump w) @ rx_queue rx \<and>
          ti_held ib = len_sum (hand (mw_pump w)) \<and> tl_bytes (mn_teardown_loss (mw_node w)) = 0))"

definition map_ok :: "Mapping list \<Rightarrow> map_world \<Rightarrow> bool" where
  "map_ok rules w \<longleftrightarrow>
     has_mapped rules (passed w) (mn_targetward (mw_node w)) \<and>
     (\<forall>x \<in> set (mw_fates w). rightly rules x) \<and> pump_ok rules (mw_pump w) \<and>
     mn_targetward_discarded (mw_node w) = len_sum (discarded_chunks w) \<and>
     (\<exists>ib. tl_inboxes (mn_teardown_loss (mw_node w)) = [ib] \<and> queue_ok w ib)"

lemma queued_len_sum: "queued_bytes length q = len_sum q"
  by (induction q) (simp_all add: len64_def)

lemma drain_one:
  assumes "tl_inboxes td = [\<lparr>ti_slot = Some rx, ti_held = h\<rparr>]" and "tl_bytes td = 0"
  shows "tl_inboxes (teardown_drain length td) = [\<lparr>ti_slot = None, ti_held = 0\<rparr>]"
    and "tl_bytes (teardown_drain length td) = h + len_sum (rx_queue rx)"
proof -
  have "saturating_add 0 n = n" for n using unsigned_less [of n, where ?'a = nat] by (simp add: saturating_add_def)
  moreover have "\<not> 0 < n \<Longrightarrow> n = 0" for n :: u64 by (simp add: word_gt_0)
  ultimately show "tl_bytes (teardown_drain length td) = h + len_sum (rx_queue rx)"
    using assms by (simp add: teardown_drain_def drain_and_count_def queued_len_sum add.commute Let_def)
  show "tl_inboxes (teardown_drain length td) = [\<lparr>ti_slot = None, ti_held = 0\<rparr>]"
    using assms by (simp add: teardown_drain_def drain_and_count_def Let_def)
qed

text \<open>A turn of the loop ends: what is in the pump's hands gets its fate.\<close>

lemma turn_ends_ok:
  assumes ok: "map_ok rules w" and run: "\<not> mw_stopped w" and hand: "hand (mw_pump w) = [chunk]"
    and w': "w' = w\<lparr>mw_cells := cs, mw_channels := chs, mw_node := (mw_node w)\<lparr>mn_targetward := d\<rparr>\<rparr>"
    and mapped: "has_mapped rules (passed (turn_ends chunk fate w')) d" and fate: "rightly rules (chunk, fate)"
  shows "map_ok rules (turn_ends chunk fate w')"
proof -
  obtain ib where ib: "tl_inboxes (mn_teardown_loss (mw_node w)) = [ib]" "queue_ok w ib" using ok by (auto simp: map_ok_def)
  have inbox: "tl_inboxes (mn_teardown_loss (mw_node (turn_ends chunk fate w'))) = [settle_held ib]"
    by (simp add: turn_ends_def w' on_inbox_def at_inbox_def ib(1) Let_def)
  have q: "queue_ok (turn_ends chunk fate w') (settle_held ib)"
    using ib(2) run hand by (auto simp: queue_ok_def turn_ends_def w' on_inbox_def at_inbox_def settle_held_def Let_def)
  have "mn_targetward_discarded (mw_node (turn_ends chunk fate w')) = len_sum (discarded_chunks (turn_ends chunk fate w'))"
    using ok by (cases fate) (auto simp: map_ok_def turn_ends_def w' on_inbox_def charge_def discarded_chunks_def Let_def)
  moreover have "mn_targetward (mw_node (turn_ends chunk fate w')) = d" "mw_pump (turn_ends chunk fate w') = Receiving"
    "mw_fates (turn_ends chunk fate w') = mw_fates w @ [(chunk, fate)]"
    by (simp_all add: turn_ends_def w' on_inbox_def Let_def)
  ultimately show ?thesis using ok mapped fate inbox q by (auto simp: map_ok_def)
qed

lemma passed_turn:
  "passed (turn_ends chunk fate w) = map fst (filter (\<lambda>(_, fate). fate \<noteq> NoWay) (mw_fates w)) @ (if fate = NoWay then [] else [chunk])"
  by (simp add: passed_def turn_ends_def on_inbox_def Let_def)

lemma map_world_same: "w\<lparr>mw_cells := mw_cells w, mw_channels := mw_channels w, mw_node := (mw_node w)\<lparr>mn_targetward := mn_targetward (mw_node w)\<rparr>\<rparr> = w"
  by simp

lemma receiving_ok:
  assumes ok: "map_ok rules w" and run: "\<not> mw_stopped w" and p: "mw_pump w = Receiving" and g: "targetward_map w = Goes w'"
  shows "map_ok rules w'"
proof -
  obtain ib where ib: "tl_inboxes (mn_teardown_loss (mw_node w)) = [ib]" "queue_ok w ib" using ok by (auto simp: map_ok_def)
  then obtain rx where rx: "ti_slot ib = Some rx" "ti_held ib = 0" "mw_arrived w = map fst (mw_fates w) @ rx_queue rx"
    "tl_bytes (mn_teardown_loss (mw_node w)) = 0" using run p by (auto simp: queue_ok_def)
  have w': "w' = on_inbox (\<lambda>_. snd (inbox_poll_recv length ib)) (w\<lparr>mw_pump :=
      (case rx_queue rx of [] \<Rightarrow> Over | chunk # _ \<Rightarrow> Awaiting chunk)\<rparr>)"
    using g by (auto simp: targetward_map_def p ib(1) inbox_poll_recv_def rx(1) split: list.splits if_splits)
  have q: "queue_ok w' (snd (inbox_poll_recv length ib))"
    using run rx by (auto simp: w' queue_ok_def inbox_poll_recv_def on_inbox_def at_inbox_def len64_def split: list.splits)
  have "tl_inboxes (mn_teardown_loss (mw_node w')) = [snd (inbox_poll_recv length ib)]"
    by (simp add: w' on_inbox_def at_inbox_def ib(1))
  moreover have "passed w' = passed w" "pump_ok rules (mw_pump w')" "mw_fates w' = mw_fates w"
    "discarded_chunks w' = discarded_chunks w" "mn_targetward (mw_node w') = mn_targetward (mw_node w)"
    "mn_targetward_discarded (mw_node w') = mn_targetward_discarded (mw_node w)"
    by (auto simp: w' passed_def discarded_chunks_def p on_inbox_def split: list.splits)
  ultimately show ?thesis using ok q by (auto simp: map_ok_def)
qed

text \<open>A step that only moves the pump along with the chunk it has.\<close>

lemma pump_moves:
  assumes ok: "map_ok rules w" and run: "\<not> mw_stopped w" and hand: "hand (mw_pump w) = hand p'"
    and w': "w' = w\<lparr>mw_cells := cs, mw_node := (mw_node w)\<lparr>mn_targetward := d\<rparr>, mw_pump := p'\<rparr>"
    and mapped: "has_mapped rules (passed w') d" and p': "pump_ok rules p'"
  shows "map_ok rules w'"
proof -
  obtain ib where ib: "tl_inboxes (mn_teardown_loss (mw_node w)) = [ib]" "queue_ok w ib" using ok by (auto simp: map_ok_def)
  have "queue_ok w' ib" using ib(2) run hand by (simp add: queue_ok_def w')
  then show ?thesis using ok ib mapped p' by (auto simp: map_ok_def w' discarded_chunks_def)
qed

lemma reacquiring_ok:
  assumes ok: "map_ok rules w" and run: "\<not> mw_stopped w" and p: "mw_pump w = Reacquiring parked chunk tx cell i"
  shows "targetward_map w \<noteq> Panics" and "targetward_map w = Goes w' \<Longrightarrow> map_ok rules w'"
proof -
  have m: "has_mapped rules (map fst (filter (\<lambda>(_, fate). fate \<noteq> NoWay) (mw_fates w))) (mn_targetward (mw_node w))"
    using ok by (simp add: map_ok_def passed_def p)
  from transform_exact [OF this] obtain d where
    d: "transform chunk (mn_targetward (mw_node w)) = Some (mapped_by rules chunk, d)"
    "has_mapped rules (map fst (filter (\<lambda>(_, fate). fate \<noteq> NoWay) (mw_fates w)) @ [chunk]) d" by blast
  show "targetward_map w \<noteq> Panics"
    by (auto simp: targetward_map_def p d(1) Let_def split: prod.splits option.splits bool.splits)
  assume g: "targetward_map w = Goes w'"
  obtain r c where rc: "(if parked then await_write_grant else reacquire_held) i (mw_cells w cell) = (r, c)" by force
  let ?cs = "(mw_cells w)(cell := c)"
  consider "w' = w\<lparr>mw_cells := ?cs, mw_node := (mw_node w)\<lparr>mn_targetward := mn_targetward (mw_node w)\<rparr>,
        mw_pump := Reacquiring True chunk tx cell i\<rparr>"
    | "r = Some False" "w' = turn_ends chunk NoWay (w\<lparr>mw_cells := ?cs\<rparr>)"
    | "r = Some True" "mapped_by rules chunk = []"
      "w' = turn_ends chunk Deleted (w\<lparr>mw_cells := ?cs, mw_node := (mw_node w)\<lparr>mn_targetward := d\<rparr>\<rparr>)"
    | "r = Some True" "mapped_by rules chunk \<noteq> []"
      "w' = w\<lparr>mw_cells := ?cs, mw_node := (mw_node w)\<lparr>mn_targetward := d\<rparr>, mw_pump := Sending chunk (mapped_by rules chunk) tx\<rparr>"
    using g by (auto simp: targetward_map_def p d(1) rc [simplified] Let_def split: option.splits bool.splits if_splits)
  then show "map_ok rules w'"
  proof cases
    case 1
    from pump_moves [OF ok run _ 1] show ?thesis using m by (simp add: p 1 passed_def)
  next
    case 2
    have "w\<lparr>mw_cells := ?cs\<rparr> = w\<lparr>mw_cells := ?cs, mw_channels := mw_channels w,
        mw_node := (mw_node w)\<lparr>mn_targetward := mn_targetward (mw_node w)\<rparr>\<rparr>" by simp
    from turn_ends_ok [OF ok run _ this, of chunk NoWay] show ?thesis using m by (simp add: 2(2) p passed_turn)
  next
    case 3
    have "w\<lparr>mw_cells := ?cs, mw_node := (mw_node w)\<lparr>mn_targetward := d\<rparr>\<rparr> =
      w\<lparr>mw_cells := ?cs, mw_channels := mw_channels w, mw_node := (mw_node w)\<lparr>mn_targetward := d\<rparr>\<rparr>" by simp
    from turn_ends_ok [OF ok run _ this, of chunk Deleted] show ?thesis using d(2) 3(2) by (simp add: 3(3) p passed_turn)
  next
    case 4
    from pump_moves [OF ok run _ 4(3)] show ?thesis using d(2) 4(2) by (simp add: p 4(3) passed_def)
  qed
qed

lemma sending_ok:
  assumes ok: "map_ok rules w" and run: "\<not> mw_stopped w" and p: "mw_pump w = Sending chunk out tx"
    and g: "targetward_map w = Goes w'"
  shows "map_ok rules w'"
proof -
  have out: "out = mapped_by rules chunk" "out \<noteq> []" using ok by (auto simp: map_ok_def p)
  have m: "has_mapped rules (map fst (filter (\<lambda>(_, fate). fate \<noteq> NoWay) (mw_fates w)) @ [chunk]) (mn_targetward (mw_node w))"
    using ok by (simp add: map_ok_def passed_def p)
  have same: "w\<lparr>mw_channels := chs\<rparr> = w\<lparr>mw_cells := mw_cells w, mw_channels := chs,
      mw_node := (mw_node w)\<lparr>mn_targetward := mn_targetward (mw_node w)\<rparr>\<rparr>" for chs by simp
  obtain r ch where r: "chunk_try_send out (mw_channels w tx) = (r, ch)" by force
  show ?thesis
  proof (cases r)
    case Sent
    then have "w' = turn_ends chunk (Forwarded out) (w\<lparr>mw_channels := (mw_channels w)(tx := ch)\<rparr>)"
      using g by (simp add: targetward_map_def p r)
    then show ?thesis using turn_ends_ok [OF ok run _ same, of chunk "Forwarded out"] m out by (simp add: p passed_turn)
  next
    case SendFull
    then show ?thesis using g by (simp add: targetward_map_def p r)
  next
    case SendClosed
    then have "w' = turn_ends chunk TooLate w" using g by (simp add: targetward_map_def p r)
    then show ?thesis using turn_ends_ok [OF ok run _ map_world_same [symmetric], of chunk TooLate] m out
      by (simp add: p passed_turn)
  qed
qed

lemma targetward_map_ok:
  assumes ok: "map_ok rules w" and run: "\<not> mw_stopped w"
  shows "targetward_map w \<noteq> Panics" and "targetward_map w = Goes w' \<Longrightarrow> map_ok rules w'"
proof -
  show "targetward_map w \<noteq> Panics"
    using reacquiring_ok(1) [OF assms]
    by (cases "mw_pump w") (auto simp: targetward_map_def split: prod.splits option.splits Poll.splits SendOutcome.splits)
  assume g: "targetward_map w = Goes w'"
  show "map_ok rules w'"
  proof (cases "mw_pump w")
    case Receiving
    then show ?thesis using receiving_ok [OF ok run _ g] by blast
  next
    case (Awaiting chunk)
    have m: "has_mapped rules (map fst (filter (\<lambda>(_, fate). fate \<noteq> NoWay) (mw_fates w))) (mn_targetward (mw_node w))"
      using ok by (simp add: map_ok_def passed_def Awaiting)
    consider "w' = turn_ends chunk NoWay w" | tx cell i where "w' = w\<lparr>mw_pump := Reacquiring False chunk tx cell i\<rparr>"
      using g by (auto simp: targetward_map_def Awaiting split: option.splits)
    then show ?thesis
    proof cases
      case 1
      then show ?thesis using turn_ends_ok [OF ok run _ map_world_same [symmetric], of chunk NoWay] m
        by (simp add: Awaiting passed_turn)
    next
      case 2
      then have "w' = w\<lparr>mw_cells := mw_cells w, mw_node := (mw_node w)\<lparr>mn_targetward := mn_targetward (mw_node w)\<rparr>,
          mw_pump := Reacquiring False chunk tx cell i\<rparr>" by simp
      from pump_moves [OF ok run _ this] show ?thesis using m by (simp add: Awaiting 2 passed_def)
    qed
  next
    case (Reacquiring parked chunk tx cell i)
    then show ?thesis using reacquiring_ok(2) [OF ok run _ g] by blast
  next
    case (Sending chunk out tx)
    then show ?thesis using sending_ok [OF ok run _ g] by blast
  next
    case Over
    then show ?thesis using g by (simp add: targetward_map_def)
  qed
qed

lemma stop_ok:
  assumes ok: "map_ok rules w"
  shows "map_ok rules (w\<lparr>mw_node := map_signal_stop (mw_node w), mw_stopped := True\<rparr>)"
proof -
  let ?td = "mn_teardown_loss (mw_node w)" and ?w = "w\<lparr>mw_node := map_signal_stop (mw_node w), mw_stopped := True\<rparr>"
  obtain ib where ib: "tl_inboxes ?td = [ib]" "queue_ok w ib" using ok by (auto simp: map_ok_def)
  have "\<exists>ib'. tl_inboxes (teardown_drain length ?td) = [ib'] \<and> queue_ok ?w ib'"
  proof (cases "mw_stopped w")
    case True
    then have closed: "ti_slot ib = None" "ti_held ib = 0" using ib(2) by (simp_all add: queue_ok_def)
    then have "teardown_drain length ?td = ?td" using ib(1) by (intro drain_again) simp
    then show ?thesis using ib True by (simp add: queue_ok_def map_signal_stop_def)
  next
    case False
    then obtain rx where rx: "ti_slot ib = Some rx" "mw_arrived w = map fst (mw_fates w) @ hand (mw_pump w) @ rx_queue rx"
      "ti_held ib = len_sum (hand (mw_pump w))" "tl_bytes ?td = 0" using ib(2) by (auto simp: queue_ok_def)
    have "tl_inboxes ?td = [\<lparr>ti_slot = Some rx, ti_held = len_sum (hand (mw_pump w))\<rparr>]"
      using ib(1) rx(1,3) by (cases ib) simp
    from drain_one [OF this rx(4)] show ?thesis using rx(2) by (auto simp: queue_ok_def map_signal_stop_def)
  qed
  then show ?thesis using ok by (auto simp: map_ok_def map_signal_stop_def passed_def discarded_chunks_def)
qed

lemma inbox_ok:
  assumes ok: "map_ok rules w" and q: "queue_ok w' (f (map_inbox w))"
    and w': "mw_node w' = (mw_node w)\<lparr>mn_teardown_loss := at_inbox 0 f (mn_teardown_loss (mw_node w))\<rparr>"
      "mw_pump w' = mw_pump w" "mw_fates w' = mw_fates w"
  shows "map_ok rules w'"
proof -
  obtain ib where ib: "tl_inboxes (mn_teardown_loss (mw_node w)) = [ib]" "queue_ok w ib" using ok by (auto simp: map_ok_def)
  then have "tl_inboxes (mn_teardown_loss (mw_node w')) = [f ib]" by (simp add: w' at_inbox_def)
  then show ?thesis using ok q ib by (auto simp: map_ok_def w' passed_def discarded_chunks_def)
qed

lemma map_step_ok:
  assumes "map_step w w'" and ok: "map_ok rules w"
  shows "map_ok rules w'"
proof -
  obtain ib where ib: "tl_inboxes (mn_teardown_loss (mw_node w)) = [ib]" "queue_ok w ib" using ok by (auto simp: map_ok_def)
  from assms(1) show ?thesis
  proof (cases rule: map_step.cases)
    case pumps
    then show ?thesis using targetward_map_ok(2) [OF ok] by blast
  next
    case (writes rx chunk)
    then have "queue_ok w' (push_item chunk ib)"
      using ib by (auto simp: queue_ok_def push_item_def on_inbox_def at_inbox_def split: if_splits)
    then show ?thesis by (intro inbox_ok [OF ok, of w' "push_item chunk"]) (simp_all add: ib(1) writes(1) on_inbox_def)
  next
    case (writers_go rx)
    then have "queue_ok w' (ib\<lparr>ti_slot := Some (rx\<lparr>rx_senders := False\<rparr>)\<rparr>)"
      using ib by (auto simp: queue_ok_def on_inbox_def at_inbox_def split: if_splits)
    then show ?thesis
      by (intro inbox_ok [OF ok, of w' "\<lambda>ib. ib\<lparr>ti_slot := Some (rx\<lparr>rx_senders := False\<rparr>)\<rparr>"]) (simp_all add: ib(1) writers_go(1) on_inbox_def)
  next
    case (around e cs chs)
    then have "queue_ok w' ib" using ib(2) by (simp add: queue_ok_def)
    with around show ?thesis using ok ib(1) by (simp add: map_ok_def passed_def discarded_chunks_def)
  next
    case stop
    then show ?thesis using stop_ok [OF ok] by simp
  qed
qed

lemma create_rules:
  assumes "map_create clock c = Ok n"
  shows "\<exists>hs ts. map from_name (map_hostward c) = map Some hs \<and> map from_name (map_targetward c) = map Some ts \<and>
    mn_hostward n = direction_new (compile hs) \<and> mn_targetward n = direction_new (compile ts) \<and>
    mn_hostward_unattached n = 0 \<and> mn_targetward_discarded n = 0 \<and> mn_teardown_loss n = teardown_default"
proof -
  obtain h t where p: "parse (map_hostward c) = Ok h" "parse (map_targetward c) = Ok t"
    using assms by (auto simp: map_create_def split: sum.splits)
  have ok: "\<exists>rules. d = compile rules \<and> map from_name names = map Some rules" if "parse names = Ok d" for names d
    using that parse_rules_spec [of names] by (auto simp: parse_def split: sum.splits)
  from ok [OF p(1)] ok [OF p(2)] show ?thesis using assms p by (auto simp: map_create_def)
qed

lemma start_keeps:
  assumes "map_start clock w hp n = (n', hp', h, Some (i, edge))"
  shows "mn_hostward n' = mn_hostward n" "mn_targetward n' = mn_targetward n" "mn_targetward_discarded n' = mn_targetward_discarded n"
    "\<exists>cap. mn_teardown_loss n' = snd (watch \<lparr>rx_queue = [], rx_cap = cap, rx_senders = True\<rparr> (mn_teardown_loss n))"
  using assms by (auto simp: map_start_def Let_def watch_def split: option.splits prod.splits if_splits)

lemma map_began_ok:
  assumes "map_began c w"
  shows "\<exists>rules. map from_name (map_targetward c) = map Some rules \<and> map_ok rules w"
proof -
  obtain clock n wiring and hp :: "unit heap" and hp' hostward edge where
    cr: "map_create clock c = Ok n" and st: "map_start clock wiring hp n = (mw_node w, hp', hostward, Some (0, edge))"
    and w: "mw_pump w = Receiving" "\<not> mw_stopped w" "mw_arrived w = []" "mw_fates w = []"
    using assms by (auto simp: map_began_def)
  from create_rules [OF cr] obtain ts where ts: "map from_name (map_targetward c) = map Some ts"
    "mn_targetward n = direction_new (compile ts)" "mn_targetward_discarded n = 0" "mn_teardown_loss n = teardown_default" by blast
  have "map_ok ts w" using start_keeps [OF st] w ts(2-) direction_new_mapped
    by (auto simp: map_ok_def queue_ok_def passed_def discarded_chunks_def watch_def teardown_default_def inbox_new_def)
  with ts(1) show ?thesis by blast
qed

lemma map_run_ok: "map_run c w \<Longrightarrow> \<exists>rules. map from_name (map_targetward c) = map Some rules \<and> map_ok rules w"
proof (induction rule: map_run.induct)
  case (map_begins w)
  then show ?case by (rule map_began_ok)
next
  case (map_goes w w')
  then show ?case using map_step_ok by blast
qed

section \<open>The map node is exact\<close>

text \<open>
  What one run of the pump to its next await does to the upstream channels: it counts a chunk as forwarded exactly
  when it appends the mapping of that chunk to an open channel with room, and touches no channel otherwise. The
  channel is the one the node's edge named when the gate was entered, and the gate was only left with the write
  lock.
\<close>

definition sends_rightly :: "Mapping list \<Rightarrow> map_world \<Rightarrow> map_world \<Rightarrow> bool" where
  "sends_rightly rules w w' \<longleftrightarrow>
     (mw_channels w' = mw_channels w \<and>
        (mw_fates w' = mw_fates w \<or> (\<exists>chunk fate. mw_fates w' = mw_fates w @ [(chunk, fate)] \<and> (\<forall>out. fate \<noteq> Forwarded out))) \<or>
      (\<exists>chunk out tx. out = mapped_by rules chunk \<and> mw_pump w = Sending chunk out tx \<and>
        ch_open (mw_channels w tx) \<and> length (ch_queue (mw_channels w tx)) < ch_cap (mw_channels w tx) \<and>
        mw_channels w' = (mw_channels w)(tx := (mw_channels w tx)\<lparr>ch_queue := ch_queue (mw_channels w tx) @ [out]\<rparr>) \<and>
        mw_fates w' = mw_fates w @ [(chunk, Forwarded out)])) \<and>
     (\<forall>chunk out tx. mw_pump w' = Sending chunk out tx \<longrightarrow>
        (\<exists>parked cell i. mw_pump w = Reacquiring parked chunk tx cell i \<and> may_write (lc_lock (mw_cells w' cell)) i)) \<and>
     (\<forall>parked chunk tx cell i. mw_pump w' = Reacquiring parked chunk tx cell i \<longrightarrow>
        mw_pump w = Awaiting chunk \<and> slot_origin (mw_slot w) = Some (tx, cell, i) \<or>
        mw_pump w = Reacquiring False chunk tx cell i)"

lemma grant_may_write:
  "await_write_grant i c = (Some True, c') \<Longrightarrow> may_write (lc_lock c') i"
  "reacquire_held i c = (Some True, c') \<Longrightarrow> may_write (lc_lock c') i"
proof -
  show "await_write_grant i c = (Some True, c') \<Longrightarrow> may_write (lc_lock c') i"
    by (auto simp: await_write_grant_def reacquire_attempt_def reclaim_held_def grant_to_def may_write_def on_lock_def
        split: option.splits if_splits prod.splits Arbitration.splits bool.splits)
  then show "reacquire_held i c = (Some True, c') \<Longrightarrow> may_write (lc_lock c') i"
    by (auto simp: reacquire_held_def split: if_splits)
qed

lemma turn_ends_frame [simp]:
  "mw_channels (turn_ends chunk fate w) = mw_channels w" "mw_fates (turn_ends chunk fate w) = mw_fates w @ [(chunk, fate)]"
  "mw_pump (turn_ends chunk fate w) = Receiving"
  by (simp_all add: turn_ends_def on_inbox_def Let_def)

lemma on_inbox_frame [simp]:
  "mw_channels (on_inbox f w) = mw_channels w" "mw_fates (on_inbox f w) = mw_fates w" "mw_pump (on_inbox f w) = mw_pump w"
  by (simp_all add: on_inbox_def)

lemma targetward_map_sends:
  assumes ok: "map_ok rules w" and g: "targetward_map w = Goes w'"
  shows "sends_rightly rules w w'"
proof (cases "mw_pump w")
  case Receiving
  then show ?thesis using g by (auto simp: targetward_map_def sends_rightly_def split: prod.splits Poll.splits option.splits)
next
  case (Awaiting chunk)
  then show ?thesis using g
    by (auto simp: targetward_map_def sends_rightly_def await_origin_def split: option.splits if_splits)
next
  case (Reacquiring parked chunk tx cell i)
  obtain r c where rc: "(if parked then await_write_grant else reacquire_held) i (mw_cells w cell) = (r, c)" by force
  moreover have "may_write (lc_lock c) i" if "r = Some True" using rc that grant_may_write [of i "mw_cells w cell" c] by (auto split: if_splits)
  ultimately show ?thesis using g Reacquiring
    by (auto simp: targetward_map_def sends_rightly_def Let_def split: option.splits bool.splits if_splits prod.splits)
next
  case (Sending chunk out tx)
  then have "out = mapped_by rules chunk" using ok by (simp add: map_ok_def)
  then show ?thesis using g Sending
    by (auto simp: targetward_map_def sends_rightly_def chunk_try_send_def split: if_splits)
next
  case Over
  then show ?thesis using g by (simp add: targetward_map_def)
qed

text \<open>
  C6: the targetward side of a map node. Whatever writers, edge surgery, lock verbs, the upstream and the stop do
  and in whichever order: the pump does not panic; every chunk written to the node is, in order, forwarded as the
  mapping of exactly its bytes, deleted because it maps to nothing, discarded and charged, or, once the node is
  stopped, charged to the teardown (before that it is in the pump's hands or queued); a chunk counts as forwarded
  exactly when those mapped bytes were appended to the channel of the node's edge, and the pump puts nothing else
  into any channel; and the byte and per-rule counters are those of the chunks the transform ran on.
\<close>

theorem map_targetward_exact:
  assumes "map_run c w"
  shows "\<exists>rules rest. map from_name (map_targetward c) = map Some rules \<and>
    (mw_stopped w \<or> targetward_map w \<noteq> Panics) \<and>
    (\<forall>w'. targetward_map w = Goes w' \<longrightarrow> sends_rightly rules w w') \<and>
    mw_arrived w = map fst (mw_fates w) @ rest \<and>
    (\<forall>(chunk, fate) \<in> set (mw_fates w).
       (\<forall>out. fate = Forwarded out \<longrightarrow> out = concat (map (map_byte rules) chunk)) \<and>
       (fate = Deleted \<longrightarrow> concat (map (map_byte rules) chunk) = [])) \<and>
    mn_targetward_discarded (mw_node w) = len_sum (discarded_chunks w) \<and>
    map_discarded_at_teardown (mw_node w) = (if mw_stopped w then len_sum rest else 0) \<and>
    (\<not> mw_stopped w \<longrightarrow> (\<exists>rx. ti_slot (map_inbox w) = Some rx \<and> rest = hand (mw_pump w) @ rx_queue rx)) \<and>
    has_mapped rules (passed w) (mn_targetward (mw_node w))"
proof -
  obtain rules where r: "map from_name (map_targetward c) = map Some rules" and ok: "map_ok rules w"
    using map_run_ok [OF assms] by blast
  obtain ib where ib: "tl_inboxes (mn_teardown_loss (mw_node w)) = [ib]" "queue_ok w ib" using ok by (auto simp: map_ok_def)
  then obtain rest where rest: "mw_arrived w = map fst (mw_fates w) @ rest"
    "map_discarded_at_teardown (mw_node w) = (if mw_stopped w then len_sum rest else 0)"
    "\<not> mw_stopped w \<longrightarrow> (\<exists>rx. ti_slot (map_inbox w) = Some rx \<and> rest = hand (mw_pump w) @ rx_queue rx)"
    by (auto simp: queue_ok_def map_discarded_at_teardown_def split: if_splits)
  have "rightly rules x \<Longrightarrow> (case x of (chunk, fate) \<Rightarrow>
      (\<forall>out. fate = Forwarded out \<longrightarrow> out = concat (map (map_byte rules) chunk)) \<and>
      (fate = Deleted \<longrightarrow> concat (map (map_byte rules) chunk) = []))" for x
    by (cases "(rules, x)" rule: rightly.cases) (auto simp: mapped_by_def)
  then have "\<forall>(chunk, fate) \<in> set (mw_fates w).
      (\<forall>out. fate = Forwarded out \<longrightarrow> out = concat (map (map_byte rules) chunk)) \<and>
      (fate = Deleted \<longrightarrow> concat (map (map_byte rules) chunk) = [])" using ok by (auto simp: map_ok_def)
  moreover have "mw_stopped w \<or> targetward_map w \<noteq> Panics" using targetward_map_ok(1) [OF ok] by blast
  moreover have "\<forall>w'. targetward_map w = Goes w' \<longrightarrow> sends_rightly rules w w'" using targetward_map_sends [OF ok] by blast
  ultimately show ?thesis using r rest ok unfolding map_ok_def by blast
qed

section \<open>A concrete run\<close>

text \<open>
  A map that turns a carriage return into a line feed towards the target, attached to an upstream whose lock its
  held origin can take; one chunk is written, mapped and sent; and, in the other run, the upstream goes away after
  the mapping.
\<close>

definition crlf_map :: MapConfig where
  "crlf_map = \<lparr>map_name = ''m'', map_hostward = [], map_targetward = [''crlf''], map_arbitration = Exclusive, map_replay_ring = 0\<rparr>"

definition crlf_node :: MapNode where
  "crlf_node =
     \<lparr>mn_name = ''m'', mn_hostward = direction_new (compile []), mn_targetward = direction_new (compile [Crlf]),
      mn_raw_counters = None, mn_raw_edge = None, mn_hostward_unattached = 0, mn_targetward_discarded = 0,
      mn_teardown_loss = teardown_default, mn_status = state_new Active 0\<rparr>"

definition crlf_plan :: Wiring where
  "crlf_plan = wiring_default\<lparr>w_host_targetward_tx := [(EndpointAddr_node ''m'', 7)]\<rparr>"

definition upstream_cell :: LockCell where
  "upstream_cell = lock_cell_new ''port'' (lock_register 5 ''m/raw'' Held (lock_new Exclusive))"

definition upstream :: "bool \<Rightarrow> handle \<Rightarrow> channel" where
  "upstream is_open h = \<lparr>ch_queue = [], ch_cap = 4, ch_open = is_open\<rparr>"

definition raw_slot :: TargetEdge where
  "raw_slot = \<lparr>edge_registered = Some (1, 5), edge_writer = Some 2, edge_attached = True\<rparr>"

lemma crlf_created: "map_create 0 crlf_map = Ok crlf_node"
proof -
  have "parse [''crlf''] = Ok (compile [Crlf])" "parse [] = Ok (compile [])"
    by (simp_all add: parse_def from_name_def VOCABULARY_def)
  then show ?thesis by (simp add: map_create_def crlf_map_def crlf_node_def)
qed

lemma reacquire_upstream: "reacquire_held 5 upstream_cell = (Some True, upstream_cell)"
  by code_simp

definition crlf_start :: map_world where
  "crlf_start =
     (let start = map_start 0 crlf_plan (heap_empty\<lparr>hp_depths := (\<lambda>_. 4)\<rparr> :: unit heap) crlf_node
      in \<lparr>mw_node = fst start, mw_pump = Receiving, mw_stopped = False,
          mw_slot = hp_slots (fst (snd start)) (snd (the (snd (snd (snd start))))),
          mw_cells = (\<lambda>_. upstream_cell), mw_channels = upstream True, mw_arrived = [], mw_fates = []\<rparr>)"

lemma crlf_start_run: "map_run crlf_map crlf_start"
proof (rule map_begins, unfold map_began_def, intro exI conjI)
  show "map_create 0 crlf_map = Ok crlf_node" by (rule crlf_created)
  let ?start = "map_start 0 crlf_plan (heap_empty\<lparr>hp_depths := (\<lambda>_. 4)\<rparr> :: unit heap) crlf_node"
  have "snd (snd (snd ?start)) = Some (0, snd (the (snd (snd (snd ?start)))))"
    by (simp add: map_start_def crlf_plan_def crlf_node_def wiring_default_def hash_get_def watch_def teardown_default_def
        new_fanout_def new_slot_def Let_def)
  then show "?start = (mw_node crlf_start, fst (snd ?start), fst (snd (snd ?start)), Some (0, snd (the (snd (snd (snd ?start))))))"
    by (simp add: crlf_start_def Let_def prod_eq_iff)
qed (simp_all add: crlf_start_def Let_def)

definition crlf_chunk :: "byte list" where
  "crlf_chunk = [0x61, 0x0d]"

text \<open>The world once the chunk was written, taken, mapped under the lock, and is waiting to be sent.\<close>

lemma crlf_sending:
  "\<exists>w. map_run crlf_map w \<and> mw_pump w = Sending crlf_chunk [0x61, 0x0a] 2 \<and> \<not> mw_stopped w \<and> mw_fates w = [] \<and>
     ds_rule_counts (dir_stat (mn_targetward (mw_node w))) = [1] \<and> mw_channels w = upstream b"
proof -
  let ?n = "mw_node crlf_start"
  have loss: "mn_teardown_loss ?n = \<lparr>tl_inboxes = [\<lparr>ti_slot = Some \<lparr>rx_queue = [], rx_cap = 4, rx_senders = True\<rparr>, ti_held = 0\<rparr>], tl_bytes = 0\<rparr>"
    and dir: "mn_targetward ?n = direction_new (compile [Crlf])"
    by (simp_all add: crlf_start_def map_start_def crlf_plan_def crlf_node_def wiring_default_def hash_get_def watch_def
        teardown_default_def new_fanout_def new_slot_def inbox_new_def heap_empty_def Let_def)
  have start: "mw_pump crlf_start = Receiving" "\<not> mw_stopped crlf_start" "mw_fates crlf_start = []"
    by (simp_all add: crlf_start_def Let_def)
  let ?w1 = "(on_inbox (push_item crlf_chunk) crlf_start)\<lparr>mw_arrived := mw_arrived crlf_start @ [crlf_chunk]\<rparr>"
  have 1: "map_run crlf_map ?w1" by (rule map_goes [OF crlf_start_run], rule writes) ((simp add: loss)+)
  obtain w2 where g2: "targetward_map ?w1 = Goes w2" and w2: "mw_pump w2 = Awaiting crlf_chunk" "\<not> mw_stopped w2"
    "mw_fates w2 = []" "mn_targetward (mw_node w2) = direction_new (compile [Crlf])"
    using dir by (simp add: targetward_map_def on_inbox_def at_inbox_def loss push_item_def inbox_poll_recv_def start)
  have 2: "map_run crlf_map w2"
    by (rule map_goes [OF 1 pumps [OF _ g2]]) (simp add: on_inbox_def start)
  let ?w3 = "w2\<lparr>mw_slot := raw_slot, mw_cells := (\<lambda>_. upstream_cell), mw_channels := upstream b\<rparr>"
  have 3: "map_run crlf_map ?w3" by (rule map_goes [OF 2 around])
  let ?w4 = "?w3\<lparr>mw_pump := Reacquiring False crlf_chunk 2 1 5\<rparr>"
  have 4: "map_run crlf_map ?w4"
    by (rule map_goes [OF 3 pumps]) (simp_all add: w2 targetward_map_def await_origin_def raw_slot_def slot_origin_def)
  from transform_exact [OF direction_new_mapped [of "[Crlf]"], of crlf_chunk] obtain d where
    d: "transform crlf_chunk (direction_new (compile [Crlf])) = Some (mapped_by [Crlf] crlf_chunk, d)" "has_mapped [Crlf] [crlf_chunk] d" by auto
  have m: "mapped_by [Crlf] crlf_chunk = [0x61, 0x0a]" "fired_by [Crlf] crlf_chunk = [0]" by code_simp+
  let ?w5 = "?w4\<lparr>mw_node := (mw_node w2)\<lparr>mn_targetward := d\<rparr>, mw_pump := Sending crlf_chunk [0x61, 0x0a] 2\<rparr>"
  have "targetward_map ?w4 = Goes ?w5" by (simp add: targetward_map_def reacquire_upstream w2 d m fun_upd_idem)
  then have "map_run crlf_map ?w5" using map_goes [OF 4 pumps] w2 by simp
  moreover have "ds_rule_counts (dir_stat d) = [1]" using d(2) m by (simp add: has_mapped_def)
  ultimately show ?thesis using w2 by (intro exI [of _ ?w5]) simp
qed

theorem map_targetward_exact_witness:
  "\<exists>w. map_run crlf_map w \<and> mw_fates w = [(crlf_chunk, Forwarded [0x61, 0x0a])] \<and> ch_queue (mw_channels w 2) = [[0x61, 0x0a]] \<and>
     (\<exists>rules rest. map from_name [''crlf''] = map Some rules \<and> mw_arrived w = [crlf_chunk] @ rest \<and>
        [0x61, 0x0a] = concat (map (map_byte rules) crlf_chunk))"
proof -
  obtain w where w: "map_run crlf_map w" "mw_pump w = Sending crlf_chunk [0x61, 0x0a] 2" "\<not> mw_stopped w" "mw_fates w = []"
    "mw_channels w = upstream True" using crlf_sending [of True] by blast
  obtain w' where w': "targetward_map w = Goes w'" "mw_fates w' = [(crlf_chunk, Forwarded [0x61, 0x0a])]"
    "ch_queue (mw_channels w' 2) = [[0x61, 0x0a]]"
    using w by (simp add: targetward_map_def chunk_try_send_def upstream_def turn_ends_def on_inbox_def Let_def)
  have run: "map_run crlf_map w'" using map_goes [OF w(1) pumps [OF w(3) w'(1)]] .
  have names: "map_targetward crlf_map = [''crlf'']" by (simp add: crlf_map_def)
  from map_targetward_exact [OF run] obtain rules rest where "map from_name (map_targetward crlf_map) = map Some rules"
    "mw_arrived w' = map fst (mw_fates w') @ rest"
    "\<forall>(chunk, fate) \<in> set (mw_fates w'). (\<forall>out. fate = Forwarded out \<longrightarrow> out = concat (map (map_byte rules) chunk)) \<and>
       (fate = Deleted \<longrightarrow> concat (map (map_byte rules) chunk) = [])" by blast
  then have r: "map from_name [''crlf''] = map Some rules" "mw_arrived w' = [crlf_chunk] @ rest"
    "[0x61, 0x0a] = concat (map (map_byte rules) crlf_chunk)" unfolding names w'(2) by simp_all
  show ?thesis by (rule exI [of _ w']) (use run w'(2,3) r in blast)
qed

text \<open>
  A chunk with nowhere to go can have been transformed: the upstream's channel is only tried after the mapping, so
  when it closes in between, the chunk is discarded and charged while its substitution stays counted.
\<close>

theorem late_close_counts_substitutions:
  "\<exists>w. map_run crlf_map w \<and> mw_fates w = [(crlf_chunk, TooLate)] \<and> mn_targetward_discarded (mw_node w) = 2 \<and>
     ds_rule_counts (dir_stat (mn_targetward (mw_node w))) = [1]"
proof -
  obtain w where w: "map_run crlf_map w" "mw_pump w = Sending crlf_chunk [0x61, 0x0a] 2" "\<not> mw_stopped w" "mw_fates w = []"
    "mw_channels w = upstream False" "ds_rule_counts (dir_stat (mn_targetward (mw_node w))) = [1]"
    using crlf_sending [of False] by blast
  have "targetward_map w = Goes (turn_ends crlf_chunk TooLate w)" (is "_ = Goes ?w")
    using w by (simp add: targetward_map_def chunk_try_send_def upstream_def)
  from map_goes [OF w(1) pumps [OF w(3) this]] have run: "map_run crlf_map ?w" .
  obtain rules where "map_ok rules ?w" using map_run_ok [OF run] by blast
  then have "mn_targetward_discarded (mw_node ?w) = len_sum [crlf_chunk]"
    using w(4) by (simp add: map_ok_def discarded_chunks_def turn_ends_def on_inbox_def Let_def)
  then show ?thesis using run w(4,6)
    by (intro exI [of _ ?w]) (simp add: turn_ends_def on_inbox_def crlf_chunk_def len64_def Let_def)
qed

section \<open>The hostward side\<close>

text \<open>The chunks the pump takes one after the other, each with the fan-out and the channels as they then are.\<close>

fun hostward_run ::
  "(byte list \<times> AttachedSink list \<times> traffic) list \<Rightarrow> MapNode \<times> 're tap_feed option \<Rightarrow> (MapNode \<times> 're tap_feed option) option" where
  "hostward_run [] st = Some st"
| "hostward_run ((chunk, sinks, tr) # rs) (n, feed) =
     (case hostward_map chunk sinks (n, feed, tr) of
        None \<Rightarrow> None
      | Some (n, feed, _) \<Rightarrow> hostward_run rs (n, feed))"

definition unattached_bytes :: "Mapping list \<Rightarrow> byte list \<times> AttachedSink list \<times> traffic \<Rightarrow> u64" where
  "unattached_bytes rules = (\<lambda>(chunk, sinks, tr).
     if \<exists>s \<in> set sinks. ch_open (tr_channels tr (sink_tx s)) then 0 else len64 (mapped_by rules chunk))"

lemma fan_out_unattached:
  "\<exists>fo tr'. fan_out chunk sinks tr = (fo, tr', if \<exists>s \<in> set sinks. ch_open (tr_channels tr (sink_tx s)) then 0 else len64 chunk)"
proof -
  have "fo_live (fst (fold (fan_out_one chunk) sinks (fo, tr))) \<longleftrightarrow> fo_live fo \<or> (\<exists>s \<in> set sinks. ch_open (tr_channels tr (sink_tx s)))" for fo
  proof (induction sinks arbitrary: fo tr)
    case (Cons s sinks)
    obtain fo1 tr1 where one: "fan_out_one chunk s (fo, tr) = (fo1, tr1)" by force
    then have "ch_open (tr_channels tr1 x) = ch_open (tr_channels tr x)" for x
      by (auto simp: fan_out_one_eq try_send_open split: if_splits)
    moreover have "fo_live fo1 \<longleftrightarrow> fo_live fo \<or> ch_open (tr_channels tr (sink_tx s))"
      using one by (auto simp: fan_out_one_eq try_send_open)
    ultimately show ?case using Cons.IH [of fo1 tr1] one by auto
  qed simp
  then show ?thesis by (simp add: fan_out_def split_beta)
qed

lemma hostward_map_exact:
  assumes "has_mapped rules cs (mn_hostward n)"
  shows "\<exists>d tr'. hostward_map chunk sinks (n, feed, tr) =
      Some (n\<lparr>mn_hostward := d, mn_hostward_unattached := mn_hostward_unattached n + unattached_bytes rules (chunk, sinks, tr)\<rparr>,
        (if mapped_by rules chunk = [] then feed else map_option (mirror (mapped_by rules chunk)) feed), tr') \<and>
    has_mapped rules (cs @ [chunk]) d"
proof -
  from transform_exact [OF assms] obtain d where d: "transform chunk (mn_hostward n) = Some (mapped_by rules chunk, d)"
    "has_mapped rules (cs @ [chunk]) d" by blast
  from fan_out_unattached [of "mapped_by rules chunk" sinks tr] obtain fo tr' where
    f: "fan_out (mapped_by rules chunk) sinks tr = (fo, tr', unattached_bytes rules (chunk, sinks, tr))"
    by (auto simp: unattached_bytes_def)
  then show ?thesis using d
    by (cases "mapped_by rules chunk = []") (auto simp: hostward_map_def Let_def unattached_bytes_def len64_def)
qed

text \<open>
  C40: the hostward side of a map node. Whatever the fan-out looks like at each chunk, the pump does not panic, the
  tap feed is offered the mapping of each chunk in order (nothing for a chunk that maps to nothing), every mapped
  byte that found no open channel is charged as unattached, and the byte and per-rule counters are those of the
  chunks taken.
\<close>

theorem map_hostward_exact:
  assumes "map_create clock c = Ok n"
  shows "\<exists>rules n'. map from_name (map_hostward c) = map Some rules \<and>
    hostward_run rs (n, feed) = Some (n', fold (\<lambda>out. map_option (mirror out))
        (filter (\<lambda>out. out \<noteq> []) (map (\<lambda>(chunk, _, _). concat (map (map_byte rules) chunk)) rs)) feed) \<and>
    mn_hostward_unattached n' = sum_list (map (unattached_bytes rules) rs) \<and>
    has_mapped rules (map fst rs) (mn_hostward n')"
proof -
  obtain rules where r: "map from_name (map_hostward c) = map Some rules" "mn_hostward n = direction_new (compile rules)"
    "mn_hostward_unattached n = 0" using create_rules [OF assms] by blast
  have "\<exists>n'. hostward_run rs (n, feed) = Some (n', fold (\<lambda>out. map_option (mirror out))
        (filter (\<lambda>out. out \<noteq> []) (map (\<lambda>(chunk, _, _). mapped_by rules chunk) rs)) feed) \<and>
      mn_hostward_unattached n' = mn_hostward_unattached n + sum_list (map (unattached_bytes rules) rs) \<and>
      has_mapped rules (cs @ map fst rs) (mn_hostward n')" if "has_mapped rules cs (mn_hostward n)" for cs n
    using that
  proof (induction rs arbitrary: cs n feed)
    case (Cons r rs)
    obtain chunk sinks tr where r: "r = (chunk, sinks, tr)" by (cases r)
    from hostward_map_exact [OF Cons.prems, of chunk sinks feed tr] obtain d tr' where
      h: "hostward_map chunk sinks (n, feed, tr) =
        Some (n\<lparr>mn_hostward := d, mn_hostward_unattached := mn_hostward_unattached n + unattached_bytes rules r\<rparr>,
          (if mapped_by rules chunk = [] then feed else map_option (mirror (mapped_by rules chunk)) feed), tr')"
      and d: "has_mapped rules (cs @ [chunk]) d" unfolding r by blast
    let ?n = "n\<lparr>mn_hostward := d, mn_hostward_unattached := mn_hostward_unattached n + unattached_bytes rules r\<rparr>"
    have "has_mapped rules (cs @ [chunk]) (mn_hostward ?n)" using d by simp
    from Cons.IH [OF this, of "if mapped_by rules chunk = [] then feed else map_option (mirror (mapped_by rules chunk)) feed"]
    show ?case using h by (auto simp: r add.assoc)
  qed simp
  from this [of "[]" n] show ?thesis using r direction_new_mapped by (auto simp: mapped_by_def)
qed

text \<open>
  The same map the other way round, with a tap: one chunk for two consumers, one for none.
\<close>

definition crlf_host :: MapConfig where
  "crlf_host = crlf_map\<lparr>map_hostward := [''crlf''], map_targetward := []\<rparr>"

definition tapped :: "unit tap_feed" where
  "tapped = \<lparr>feed_hub = hub_new ''m'' 4 1, feed_queue = []\<rparr>"

definition two_turns :: "(byte list \<times> AttachedSink list \<times> traffic) list" where
  "two_turns = [([0x61, 0x0d], two_sinks, one_slow), ([0x0d], [], one_slow)]"

theorem map_hostward_exact_witness:
  "\<exists>n n' feed. map_create 0 crlf_host = Ok n \<and> hostward_run two_turns (n, Some tapped) = Some (n', Some feed) \<and>
     feed_queue feed = [[0x61, 0x0a], [0x0a]] \<and> mn_hostward_unattached n' = 1 \<and>
     ds_bytes_in (dir_stat (mn_hostward n')) = 3"
proof -
  have c: "map_hostward crlf_host = [''crlf'']" "map_targetward crlf_host = []" by (simp_all add: crlf_host_def)
  have "parse [''crlf''] = Ok (compile [Crlf])" "parse [] = Ok (compile [])"
    by (simp_all add: parse_def from_name_def VOCABULARY_def)
  then obtain n where n: "map_create 0 crlf_host = Ok n" by (simp add: map_create_def c)
  from map_hostward_exact [OF n, of two_turns "Some tapped"] obtain rules n' where
    r: "map from_name [''crlf''] = map Some rules"
    "hostward_run two_turns (n, Some tapped) = Some (n', fold (\<lambda>out. map_option (mirror out))
        (filter (\<lambda>out. out \<noteq> []) (map (\<lambda>(chunk, _, _). mapped_by rules chunk) two_turns)) (Some tapped))"
    "mn_hostward_unattached n' = sum_list (map (unattached_bytes rules) two_turns)"
    "has_mapped rules (map fst two_turns) (mn_hostward n')" unfolding c mapped_by_def by blast
  from r(1) have rules: "rules = [Crlf]" by (cases rules) (simp_all add: from_name_def VOCABULARY_def)
  have m: "mapped_by [Crlf] [0x61, 0x0d] = [0x61, 0x0a]" "mapped_by [Crlf] [0x0d] = [0x0a]" by code_simp+
  let ?feed = "tapped\<lparr>feed_queue := [[0x61, 0x0a], [0x0a]]\<rparr>"
  have "hostward_run two_turns (n, Some tapped) = Some (n', Some ?feed)"
    using r(2) by (simp add: two_turns_def rules m mirror_def tapped_def hub_new_def TAP_FEED_CAP_def)
  moreover have "mn_hostward_unattached n' = 1" using r(3)
    by (simp add: two_turns_def rules unattached_bytes_def m two_sinks_def one_slow_def len64_def)
  moreover have "ds_bytes_in (dir_stat (mn_hostward n')) = 3" using r(4) by (simp add: has_mapped_def two_turns_def len64_def)
  ultimately show ?thesis using n by (intro exI [of _ n] exI [of _ n'] exI [of _ ?feed]) simp
qed

end
