(* ===== verification/Spec2Isabelle.thy ===== *)
theory Spec2Isabelle
  imports Lock Config Data_Plane Wire Tinymux Framing Identity_Set Backoff Request_Lines Base64
    Replay_Ring Pattern Tap_Waits Resolver_Laws Node_State Graph_Runs Log_Node Map_Node
begin

text \<open>
  A verification library for serial_nexus, a daemon that shares serial consoles: a graph of nodes (serial
  ports, pseudo-terminals, logs, codecs, network legs, character maps) whose endpoints are joined by edges.
  Bytes of a console flow hostward, from a host-facing endpoint to every edge attached to it, and may be lost
  there but never unaccounted; bytes typed at a console flow targetward, one writer at a time, and are never
  lost. An operator changes the graph, takes write locks, and watches endpoints through a control socket.

  \<^bold>\<open>Shared vocabulary.\<close> \<open>Prelude\<close> holds machine integers, results, UTF-8 and list lemmas; \<open>Rust_Map\<close> the
  ordered and hashed maps of the standard library behind one locale \<open>key_map\<close>; \<open>Rust_Path\<close> paths and string
  methods; \<open>Std_Net\<close> the parsing of addresses. A \<open>String\<close> is the list of its UTF-8 bytes, a \<open>Result\<close> a sum, a
  \<open>u64\<close> counter a 64-bit word that wraps; a \<open>usize\<close> that counts bytes in memory is a natural number. What the
  iteration order of a hash map decides is an argument with the law that it permutes.

  \<^bold>\<open>Graph and configuration\<close> (\<open>core/src/graph.rs\<close>, \<open>core/src/config.rs\<close>). \<open>Graph_Types\<close>, \<open>Graph\<close>,
  \<open>Find_Cycle\<close> and \<open>Config\<close> hold the types, the validator with its iterative cycle detector, the node kinds and
  effective write modes. The lemmas show that validation reports an error exactly when a rule is broken, that
  the cycle reported is a cycle and one is found whenever there is one, and that write modes an accepted
  configuration uses are coherent.

  \<^bold>\<open>Write arbitration\<close> (\<open>core/src/lock.rs\<close>, the waits of \<open>daemon/src/runtime.rs\<close>, \<open>daemon/src/daemon.rs\<close> and
  \<open>daemon/src/nodes/leg.rs\<close>). \<open>Lock\<close> has every method of \<open>EndpointLock\<close> and the runs of a lock as an inductive
  relation; mutual exclusion, the complete condition of a grant and first come first served hold in every
  reachable state. \<open>Grants\<close> adds the tasks that wait for a grant (\<open>await_grant\<close> and its three callers, from await
  to await), the guards that undo a cancelled wait, and lease timers: no waiter is stranded, and a timer releases
  exactly the grant it was armed for. The generation is a 64-bit word, so the latter is stated for fewer than
  \<open>2\<^sup>6\<^sup>4\<close> operations between arming and firing.

  \<^bold>\<open>Data plane\<close> (\<open>core/src/data.rs\<close>, \<open>core/src/map.rs\<close>, parts of \<open>daemon/src/runtime.rs\<close>). \<open>Data_Plane\<close>
  states the targetward contract as the locale \<open>targetward_sink\<close>, interpreted at the boundary and through one
  and two interior hops; no byte accepted is lost, duplicated or reordered, and a resumed path drains.
  \<open>Character_Map\<close> shows the compiled table to be first match; \<open>Framing\<close> that a chunk is cut into frames without
  loss. \<open>Fanout\<close> is the daemon's own broadcast, over bounded channels and drop counters, and the routing of a
  codec channel, whose statistics are the locale \<open>channel_stat\<close>, interpreted for the leg and both codec nodes.
  \<open>Inbox\<close> is the queue in front of a targetward pump with its purge and its teardown ledger: over every
  interleaving each accepted byte is on one account (stated while fewer than \<open>2\<^sup>6\<^sup>4\<close> bytes were accepted). A purge
  drains at most \<open>PURGE_ROUNDS\<close> = 3 times; which senders the scheduler runs while it yields is an argument.

  \<^bold>\<open>Codecs and wire\<close> (\<open>codec-api\<close>, \<open>codecs/reference\<close>, \<open>examples/external-codec\<close>). \<open>Frame_Scanner\<close> is the
  contract of a streaming parser, \<open>Codec_Contract\<close> that of a codec; \<open>Envelope\<close>, \<open>Wire\<close> and \<open>Tinymux\<close>
  interpret them. Round trips, independence of how a stream is cut, and exact resynchronisation follow.

  \<^bold>\<open>Observation\<close> (\<open>daemon/src/tap.rs\<close>, \<open>daemon/src/pattern.rs\<close>). \<open>Replay_Ring\<close>, \<open>Pattern\<close>, \<open>Tap_Hub\<close> are the
  ring, the scan window and the hub; \<open>Tap_Runs\<close> and \<open>Tap_Waits\<close> prove over every interleaving of producers,
  the hub's task, verbs and connections what a tap is given and what a wait may report. The regular expression
  engine is a parameter.

  \<^bold>\<open>Devices and nodes\<close> (\<open>core/src/resolver.rs\<close>, \<open>core/src/state.rs\<close>, \<open>daemon/src/nodes\<close>). \<open>Resolver\<close> and
  \<open>Resolver_Laws\<close> bind identities to device nodes over a file system that is a parameter; the walk up sysfs is
  bounded by 12 steps as in the source. \<open>Node_State\<close> is the stamped status, \<open>Identity_Set\<close> the bounded set of
  identities a peer supplied, \<open>Backoff\<close> the reconnect schedule. What is assumed of the file system (\<open>fs_ok\<close>) is
  that names are non-empty text without separators, a directory lists a name once, and the terminals that can be
  looked up are listed. Names may end in white space, and a theorem shows what the resolver then does wrong.

  \<^bold>\<open>The map node\<close> (\<open>daemon/src/nodes/map.rs\<close>). \<open>Map_Node\<close> has both pumps, the targetward one as steps from await
  to await next to writers, edge surgery, lock verbs, the upstream and the stop. Every chunk has one fate, and
  forwarding a chunk is appending its mapping to the channel of the node's edge.

  \<^bold>\<open>The log node\<close> (\<open>daemon/src/nodes/log.rs\<close>). \<open>Log_Queue\<close> is the queue between pump and writer thread with its
  overflow policies, rotation and the start-up scan; \<open>Log_Laws\<close> its laws and the names of rotated files (locale
  \<open>numbered_names\<close>); \<open>Log_Runs\<close> the node's steps, every critical section of the queue one step, every answer of
  the file system possible; \<open>Log_Node\<close> draws from them that lost bytes are counted, that the files are the stream
  cut at the rotation requests, the memory bound by \<open>QUEUE_CAP_BYTES\<close>, and that a closed writer ends. The
  directory is written by the node only, and rotation numbers stay below \<open>2\<^sup>6\<^sup>4\<close>.

  \<^bold>\<open>The live graph\<close> (\<open>daemon/src/runtime.rs\<close>, \<open>daemon/src/daemon.rs\<close>, \<open>daemon/src/registry.rs\<close>). \<open>Wiring\<close> is
  the heap of shared objects (lock cells, fan-out lists, edge slots, inboxes, hubs; a handle is the number an
  object was allocated under) with \<open>attach_edge\<close> and \<open>Wiring::build\<close>; \<open>Registry\<close> the codec factories;
  \<open>Live_Graph\<close> the state of the daemon and its verbs, each one critical section. \<open>Wiring_Laws\<close>, \<open>Wiring_Plan\<close>,
  \<open>Live_Graph_Laws\<close>, \<open>Graph_State\<close>, \<open>Graph_Verbs\<close>, \<open>Graph_Surgery\<close> and \<open>Graph_Removal\<close> prove that each verb keeps
  the invariant \<open>wired\<close>; \<open>Graph_Runs\<close> draws from it, for every sequence of verbs and task steps, what locks,
  fan-outs and names say of the configuration: no two endpoints share an object, and the objects of a removed
  node are closed and their waiters woken. Edge ids stay below \<open>2\<^sup>4\<^sup>0\<close>, where the ids of transient sends
  begin, which is a guard of the runs: it takes a trillion connects to leave it.

  \<^bold>\<open>Control plane\<close> (\<open>daemon/src/control.rs\<close>, \<open>rpc/src/lib.rs\<close>). \<open>Request_Lines\<close> is the bounded line reader,
  \<open>Base64\<close> the encoding of console bytes.

  \<^bold>\<open>Not modelled.\<close> Device, socket, pseudo-terminal and child-process tasks are I/O over kernel objects; JSON and
  TOML parsing and writing, with the dump of a configuration and the state file, is that of libraries; the web console, the command-line client, the hardware doctor, the
  simulator and the test harness are programs around the daemon with no state the daemon relies on.
\<close>

end
